(* ===== verification/Prelude.thy ===== *)
theory Prelude
  imports Main "HOL-Library.Word"
begin

text \<open>
  Shared vocabulary of the development: the machine types of \<open>common/defines.h\<close>, the result
  type of kernel operations, little-endian byte encodings, and the list and word lemmas the
  component theories use.

  Kernel code that does not return normally is a value of type \<open>stop\<close>: \<open>Panic\<close> is the
  \<open>PANIC\<close>/\<open>assert\<close> path of \<open>core/console.h\<close>, \<open>Blocked\<close> a wait that only another thread can end
  (a spin lock held elsewhere, a \<open>sleep\<close>), \<open>Fault\<close> an access C leaves undefined (an index out of
  range, a null pointer).  Operations take the state and return \<open>stop + result\<close>.
\<close>

unbundle bit_operations_syntax

named_theorems res_simps \<open>rewrite rules for the result type\<close>
named_theorems layout_simps \<open>sizes and constants of the on-disk layout\<close>
named_theorems le_simps \<open>little-endian encodings\<close>

type_synonym u8 = "8 word"
type_synonym u16 = "16 word"
type_synonym u32 = "32 word"
type_synonym u64 = "64 word"
type_synonym bytes = "8 word list"
type_synonym addr = nat

section \<open>Results of kernel operations\<close>

datatype stop = Panic string | Blocked string | Fault string

type_synonym 'a res = "stop + 'a"

definition bnd :: "'a res \<Rightarrow> ('a \<Rightarrow> 'b res) \<Rightarrow> 'b res" where
  "bnd m f = (case m of Inl e \<Rightarrow> Inl e | Inr x \<Rightarrow> f x)"

text \<open>\<open>assert(p)\<close> of \<open>core/console.h\<close>.\<close>

definition chk :: "bool \<Rightarrow> string \<Rightarrow> unit res" where
  "chk p msg = (if p then Inr () else Inl (Panic msg))"

text \<open>The value of an operation that may be stopped, and whether it was.\<close>

definition ok :: "'a res \<Rightarrow> bool" where
  "ok r = (case r of Inl _ \<Rightarrow> False | Inr _ \<Rightarrow> True)"

definition panics :: "'a res \<Rightarrow> bool" where
  "panics r = (case r of Inl (Panic _) \<Rightarrow> True | _ \<Rightarrow> False)"

lemma bnd_simps [simp, res_simps]:
  "bnd (Inl e) f = Inl e"
  "bnd (Inr x) f = f x"
  by (simp_all add: bnd_def)

lemma bnd_Inr_iff [res_simps]: "bnd m f = Inr y \<longleftrightarrow> (\<exists>x. m = Inr x \<and> f x = Inr y)"
  by (cases m) simp_all

lemma bnd_InrE:
  assumes "bnd m f = Inr y"
  obtains x where "m = Inr x" and "f x = Inr y"
  using assms by (auto simp: bnd_Inr_iff)

lemma bnd_assoc: "bnd (bnd m f) g = bnd m (\<lambda>x. bnd (f x) g)"
  by (cases m) simp_all

lemma bnd_cong [fundef_cong]:
  "\<lbrakk>m = m'; \<And>x. m' = Inr x \<Longrightarrow> f x = f' x\<rbrakk> \<Longrightarrow> bnd m f = bnd m' f'"
  by (cases m') simp_all

lemma chk_simps [simp, res_simps]:
  "chk True msg = Inr ()"
  "chk False msg = Inl (Panic msg)"
  by (simp_all add: chk_def)

lemma chk_Inr_iff [simp, res_simps]: "chk p msg = Inr u \<longleftrightarrow> p"
  by (simp add: chk_def)

lemma bnd_chk [res_simps]: "bnd (chk p msg) f = (if p then f () else Inl (Panic msg))"
  by simp

lemma ok_simps [simp]: "\<not> ok (Inl e)" "ok (Inr x)"
  by (simp_all add: ok_def)

lemma ok_iff: "ok r \<longleftrightarrow> (\<exists>x. r = Inr x)"
  by (cases r) simp_all

lemma ok_bnd: "ok (bnd m f) \<longleftrightarrow> (\<exists>x. m = Inr x \<and> ok (f x))"
  by (cases m) simp_all

lemma panics_simps [simp]:
  "panics (Inl (Panic s))" "\<not> panics (Inl (Blocked s))" "\<not> panics (Inl (Fault s))"
  "\<not> panics (Inr x)"
  by (simp_all add: panics_def)

section \<open>Integer helpers of C\<close>

text \<open>\<open>MIN\<close> of \<open>common/defines.h\<close> at one type is the library's \<open>min\<close>.  Unsigned arithmetic of
  width \<open>w\<close> on values kept as \<open>nat\<close>, with the wrap-around written out.\<close>

definition addw :: "nat \<Rightarrow> nat \<Rightarrow> nat \<Rightarrow> nat" where "addw w a b = (a + b) mod 2 ^ w"
definition subw :: "nat \<Rightarrow> nat \<Rightarrow> nat \<Rightarrow> nat" where "subw w a b = (a + 2 ^ w - b) mod 2 ^ w"

lemma addw_small: "a + b < 2 ^ w \<Longrightarrow> addw w a b = a + b"
  by (simp add: addw_def)

lemma addw_bound: "addw w a b < 2 ^ w"
  by (simp add: addw_def)

lemma subw_small: "\<lbrakk>b \<le> a; a < 2 ^ w\<rbrakk> \<Longrightarrow> subw w a b = a - b"
proof -
  assume ba: "b \<le> a" and a: "a < 2 ^ w"
  from ba have "a + 2 ^ w - b = (a - b) + 2 ^ w" by simp
  then have "subw w a b = ((a - b) + 2 ^ w) mod 2 ^ w" by (simp only: subw_def)
  also have "\<dots> = (a - b) mod 2 ^ w" by (rule mod_add_self2)
  also have "\<dots> = a - b" by (rule mod_less) (use a in linarith)
  finally show ?thesis .
qed

lemma subw_wrap: "\<lbrakk>a < b; b \<le> 2 ^ w\<rbrakk> \<Longrightarrow> subw w a b = a + 2 ^ w - b"
  by (simp add: subw_def)

lemma subw_bound: "subw w a b < 2 ^ w"
  by (simp add: subw_def)

section \<open>Copying into arrays\<close>

text \<open>\<open>overwrite xs i ys\<close> is the array \<open>xs\<close> after \<open>ys\<close> is copied to offset \<open>i\<close>
  (\<open>memcpy(xs + i, ys, length ys)\<close> with the copy inside the array).\<close>

definition overwrite :: "'a list \<Rightarrow> nat \<Rightarrow> 'a list \<Rightarrow> 'a list" where
  "overwrite xs i ys = take i xs @ ys @ drop (i + length ys) xs"

definition slice :: "'a list \<Rightarrow> nat \<Rightarrow> nat \<Rightarrow> 'a list" where
  "slice xs i n = take n (drop i xs)"

lemma length_overwrite [simp]:
  "i + length ys \<le> length xs \<Longrightarrow> length (overwrite xs i ys) = length xs"
  by (simp add: overwrite_def)

lemma nth_overwrite:
  "\<lbrakk>i + length ys \<le> length xs; k < length xs\<rbrakk> \<Longrightarrow>
    overwrite xs i ys ! k = (if i \<le> k \<and> k < i + length ys then ys ! (k - i) else xs ! k)"
  by (auto simp: overwrite_def nth_append min_def)

lemma length_slice [simp]: "i + n \<le> length xs \<Longrightarrow> length (slice xs i n) = n"
  by (simp add: slice_def)

lemma nth_slice: "\<lbrakk>i + n \<le> length xs; k < n\<rbrakk> \<Longrightarrow> slice xs i n ! k = xs ! (i + k)"
  by (simp add: slice_def)

lemma slice_overwrite [simp]:
  "i + length ys \<le> length xs \<Longrightarrow> slice (overwrite xs i ys) i (length ys) = ys"
  by (simp add: slice_def overwrite_def)

lemma slice_overwrite_other:
  assumes "i + length ys \<le> length xs" "j + n \<le> length xs" "j + n \<le> i \<or> i + length ys \<le> j"
  shows "slice (overwrite xs i ys) j n = slice xs j n"
proof (rule nth_equalityI)
  show "length (slice (overwrite xs i ys) j n) = length (slice xs j n)"
    using assms by simp
next
  fix k assume "k < length (slice (overwrite xs i ys) j n)"
  then have "k < n" using assms by simp
  then show "slice (overwrite xs i ys) j n ! k = slice xs j n ! k"
    using assms by (auto simp: nth_slice nth_overwrite)
qed

lemma overwrite_slice [simp]: "i + n \<le> length xs \<Longrightarrow> overwrite xs i (slice xs i n) = xs"
  by (simp add: overwrite_def slice_def)
     (metis append_take_drop_id drop_drop add.commute)

lemma slice_all [simp]: "slice xs 0 (length xs) = xs"
  by (simp add: slice_def)

lemma overwrite_all: "length ys = length xs \<Longrightarrow> overwrite xs 0 ys = ys"
  by (simp add: overwrite_def)

lemma overwrite_Nil [simp]: "overwrite xs i [] = xs"
  by (simp add: overwrite_def)

lemma overwrite_append:
  assumes "i + length (ys @ zs) \<le> length xs"
  shows "overwrite xs i (ys @ zs) = overwrite (overwrite xs i ys) (i + length ys) zs"
proof (rule nth_equalityI)
  fix k assume "k < length (overwrite xs i (ys @ zs))"
  then have k: "k < length xs" using assms by simp
  then show "overwrite xs i (ys @ zs) ! k = overwrite (overwrite xs i ys) (i + length ys) zs ! k"
    using assms by (auto simp: nth_overwrite nth_append)
qed (use assms in simp)

lemma slice_append_split: "slice xs i (n + m) = slice xs i n @ slice xs (i + n) m"
  by (simp add: slice_def take_add drop_drop) (simp add: add.commute)

section \<open>Little-endian encodings\<close>

text \<open>A C object of \<open>n\<close> bytes on a little-endian machine, byte 0 first, and the reverse.\<close>

definition le_bytes :: "nat \<Rightarrow> nat \<Rightarrow> bytes" where
  "le_bytes n x = map (\<lambda>i. word_of_nat (x div 256 ^ i)) [0..<n]"

fun le_nat :: "bytes \<Rightarrow> nat" where
  "le_nat [] = 0"
| "le_nat (b # bs) = unat b + 256 * le_nat bs"

lemma length_le_bytes [simp, le_simps]: "length (le_bytes n x) = n"
  by (simp add: le_bytes_def)

lemma le_bytes_0 [simp]: "le_bytes 0 x = []"
  by (simp add: le_bytes_def)

lemma le_bytes_Suc: "le_bytes (Suc n) x = word_of_nat x # le_bytes n (x div 256)"
proof -
  have "[0..<Suc n] = 0 # map Suc [0..<n]"
    by (metis map_Suc_upt upt_conv_Cons zero_less_Suc)
  then show ?thesis
    by (simp add: le_bytes_def o_def div_mult2_eq)
qed

lemma unat_byte [simp]: "unat (word_of_nat x :: u8) = x mod 256"
  by (simp add: unat_of_nat take_bit_eq_mod)

lemma le_nat_le_bytes: "le_nat (le_bytes n x) = x mod 256 ^ n"
proof (induction n arbitrary: x)
  case 0
  then show ?case by simp
next
  case (Suc n)
  have "x mod (256 * 256 ^ n) = 256 * (x div 256 mod 256 ^ n) + x mod 256"
    by (rule mod_mult2_eq)
  with Suc show ?case by (simp add: le_bytes_Suc)
qed

lemma le_nat_le_bytes_id [le_simps]: "x < 256 ^ n \<Longrightarrow> le_nat (le_bytes n x) = x"
  by (simp add: le_nat_le_bytes)

lemma le_nat_bound: "le_nat bs < 256 ^ length bs"
proof (induction bs)
  case Nil
  then show ?case by simp
next
  case (Cons b bs)
  have "unat b < 256" using unsigned_less [of b, where ?'a = nat] by simp
  with Cons show ?case by simp
qed

lemma le_bytes_le_nat [le_simps]: "le_bytes (length bs) (le_nat bs) = bs"
proof (induction bs)
  case Nil
  then show ?case by simp
next
  case (Cons b bs)
  have b: "unat b < 256" using unsigned_less [of b, where ?'a = nat] by simp
  then have "(unat b + 256 * le_nat bs) div 256 = le_nat bs" by simp
  moreover have "(word_of_nat (unat b + 256 * le_nat bs) :: u8) = b"
    using b by (simp add: word_unat_eq_iff del: word_of_nat_eq_iff of_nat_add)
  ultimately show ?case using Cons by (simp add: le_bytes_Suc)
qed

lemma le_nat_replicate_0 [simp]: "le_nat (replicate n 0) = 0"
  by (induction n) simp_all

lemma le_bytes_zero: "le_bytes n 0 = replicate n 0"
  by (induction n) (simp_all add: le_bytes_Suc)

end
