(* ===== verification/FsDefs.thy ===== *)
theory FsDefs
  imports Prelude
begin

text \<open>
  \<open>fs/defines.h\<close>: the constants of the on-disk layout and the structures stored in blocks, with
  their byte images on the little-endian machine (\<open>*_bytes\<close>) and the casts back (\<open>bytes_*\<close>).
  Integer fields are natural numbers; the byte images truncate them to the width of the C field, and
  \<open>*_fits\<close> says that nothing is lost.
\<close>

abbreviation (input) NINODES :: nat where "NINODES \<equiv> 200"
abbreviation (input) NGROUPS :: nat where "NGROUPS \<equiv> 10"
abbreviation (input) BLOCK_SIZE :: nat where "BLOCK_SIZE \<equiv> 512"
abbreviation (input) LOG_MAX_SIZE :: nat where "LOG_MAX_SIZE \<equiv> 63"
abbreviation (input) INODE_NUM_DIRECT :: nat where "INODE_NUM_DIRECT \<equiv> 12"
abbreviation (input) INODE_NUM_INDIRECT :: nat where "INODE_NUM_INDIRECT \<equiv> 128"
abbreviation (input) INODE_PER_BLOCK :: nat where "INODE_PER_BLOCK \<equiv> 8"
abbreviation (input) INODE_MAX_BLOCKS :: nat where "INODE_MAX_BLOCKS \<equiv> 140"
abbreviation (input) INODE_MAX_BYTES :: nat where "INODE_MAX_BYTES \<equiv> 71680"
abbreviation (input) FILE_NAME_MAX_LENGTH :: nat where "FILE_NAME_MAX_LENGTH \<equiv> 14"
abbreviation (input) BIT_PER_BLOCK :: nat where "BIT_PER_BLOCK \<equiv> 4096"

abbreviation (input) INODE_INVALID :: nat where "INODE_INVALID \<equiv> 0"
abbreviation (input) INODE_DIRECTORY :: nat where "INODE_DIRECTORY \<equiv> 1"
abbreviation (input) INODE_REGULAR :: nat where "INODE_REGULAR \<equiv> 2"
abbreviation (input) INODE_DEVICE :: nat where "INODE_DEVICE \<equiv> 3"

record SuperBlock =
  num_blocks :: nat
  num_log_blocks :: nat
  num_groups :: nat
  num_inodes :: nat
  blocks_per_group :: nat
  sb_log_start :: nat
  bg_start :: nat
  num_inodeblocks_per_group :: nat
  num_bitmap_per_group :: nat
  num_datablocks_per_group :: nat
  bitmap_start_per_group :: nat
  data_start_per_group :: nat

record InodeEntry =
  ity :: nat
  major :: nat
  minor :: nat
  num_links :: nat
  num_bytes :: nat
  addrs :: "nat list"
  indirect :: nat

record DirEntry =
  de_inode_no :: nat
  de_name :: bytes

record LogHeader =
  hdr_num :: nat
  hdr_nos :: "nat list"

section \<open>Arrays of unsigned integers\<close>

definition of_nats :: "nat \<Rightarrow> nat list \<Rightarrow> bytes" where
  "of_nats w xs = concat (map (le_bytes w) xs)"

definition nats_of :: "nat \<Rightarrow> nat \<Rightarrow> bytes \<Rightarrow> nat list" where
  "nats_of w k bs = map (\<lambda>i. le_nat (slice bs (w * i) w)) [0..<k]"

lemma length_of_nats [simp, le_simps]: "length (of_nats w xs) = w * length xs"
  by (induction xs) (simp_all add: of_nats_def)

lemma length_nats_of [simp, le_simps]: "length (nats_of w k bs) = k"
  by (simp add: nats_of_def)

lemma of_nats_Cons: "of_nats w (x # xs) = le_bytes w x @ of_nats w xs"
  by (simp add: of_nats_def)

lemma of_nats_Nil [simp]: "of_nats w [] = []"
  by (simp add: of_nats_def)

lemma nats_of_Suc: "nats_of w (Suc k) bs = le_nat (take w bs) # nats_of w k (drop w bs)"
proof -
  have "[0..<Suc k] = 0 # map Suc [0..<k]" by (metis map_Suc_upt upt_conv_Cons zero_less_Suc)
  then show ?thesis by (simp add: nats_of_def o_def slice_def add.commute)
qed

lemma nats_of_0 [simp]: "nats_of w 0 bs = []"
  by (simp add: nats_of_def)

lemma nats_of_of_nats [le_simps]:
  "\<forall>x\<in>set xs. x < 256 ^ w \<Longrightarrow> nats_of w (length xs) (of_nats w xs @ rest) = xs"
  by (induction xs) (simp_all add: nats_of_Suc of_nats_Cons le_nat_le_bytes_id)

lemma of_nats_nats_of [le_simps]:
  "w * k \<le> length bs \<Longrightarrow> of_nats w (nats_of w k bs) = take (w * k) bs"
proof (induction k arbitrary: bs)
  case 0
  then show ?case by (simp add: of_nats_def)
next
  case (Suc k)
  have "le_bytes w (le_nat (take w bs)) = take w bs"
    using le_bytes_le_nat [of "take w bs"] Suc.prems by simp
  then show ?case using Suc by (simp add: nats_of_Suc of_nats_Cons take_add)
qed

lemma nats_of_bound: "\<lbrakk>x \<in> set (nats_of w k bs)\<rbrakk> \<Longrightarrow> x < 256 ^ w"
proof -
  assume "x \<in> set (nats_of w k bs)"
  then obtain i where x: "x = le_nat (slice bs (w * i) w)" by (auto simp: nats_of_def)
  have "le_nat (slice bs (w * i) w) < 256 ^ length (slice bs (w * i) w)" by (rule le_nat_bound)
  also have "\<dots> \<le> 256 ^ w" by (intro power_increasing) (simp_all add: slice_def)
  finally show ?thesis by (simp add: x)
qed

section \<open>Byte images\<close>

definition entry_bytes :: "InodeEntry \<Rightarrow> bytes" where
  "entry_bytes e = of_nats 2 [ity e, major e, minor e, num_links e] @ of_nats 4 [num_bytes e] @
     of_nats 4 (addrs e) @ of_nats 4 [indirect e]"

definition bytes_entry :: "bytes \<Rightarrow> InodeEntry" where
  "bytes_entry bs =
     \<lparr>ity = le_nat (slice bs 0 2), major = le_nat (slice bs 2 2), minor = le_nat (slice bs 4 2),
      num_links = le_nat (slice bs 6 2), num_bytes = le_nat (slice bs 8 4),
      addrs = nats_of 4 INODE_NUM_DIRECT (drop 12 bs), indirect = le_nat (slice bs 60 4)\<rparr>"

definition entry_fits :: "InodeEntry \<Rightarrow> bool" where
  "entry_fits e \<longleftrightarrow> ity e < 2 ^ 16 \<and> major e < 2 ^ 16 \<and> minor e < 2 ^ 16 \<and> num_links e < 2 ^ 16 \<and>
     num_bytes e < 2 ^ 32 \<and> length (addrs e) = INODE_NUM_DIRECT \<and> (\<forall>a\<in>set (addrs e). a < 2 ^ 32) \<and>
     indirect e < 2 ^ 32"

definition dirent_bytes :: "DirEntry \<Rightarrow> bytes" where
  "dirent_bytes d = le_bytes 2 (de_inode_no d) @ de_name d"

definition bytes_dirent :: "bytes \<Rightarrow> DirEntry" where
  "bytes_dirent bs = \<lparr>de_inode_no = le_nat (take 2 bs), de_name = slice bs 2 FILE_NAME_MAX_LENGTH\<rparr>"

definition header_bytes :: "LogHeader \<Rightarrow> bytes" where
  "header_bytes h = le_bytes 8 (hdr_num h) @ of_nats 8 (hdr_nos h)"

definition bytes_header :: "bytes \<Rightarrow> LogHeader" where
  "bytes_header bs = \<lparr>hdr_num = le_nat (take 8 bs), hdr_nos = nats_of 8 LOG_MAX_SIZE (drop 8 bs)\<rparr>"

definition header_fits :: "LogHeader \<Rightarrow> bool" where
  "header_fits h \<longleftrightarrow> hdr_num h < 2 ^ 64 \<and> length (hdr_nos h) = LOG_MAX_SIZE \<and> (\<forall>b\<in>set (hdr_nos h). b < 2 ^ 64)"

definition sblock_fields :: "SuperBlock \<Rightarrow> nat list" where
  "sblock_fields sb = [num_blocks sb, num_log_blocks sb, num_groups sb, num_inodes sb, blocks_per_group sb,
     sb_log_start sb, bg_start sb, num_inodeblocks_per_group sb, num_bitmap_per_group sb,
     num_datablocks_per_group sb, bitmap_start_per_group sb, data_start_per_group sb]"

definition sblock_bytes :: "SuperBlock \<Rightarrow> bytes" where
  "sblock_bytes sb = of_nats 4 (sblock_fields sb)"

definition bytes_sblock :: "bytes \<Rightarrow> SuperBlock" where
  "bytes_sblock bs = (let f = (\<lambda>i. le_nat (slice bs (4 * i) 4)) in
     \<lparr>num_blocks = f 0, num_log_blocks = f 1, num_groups = f 2, num_inodes = f 3, blocks_per_group = f 4,
      sb_log_start = f 5, bg_start = f 6, num_inodeblocks_per_group = f 7, num_bitmap_per_group = f 8,
      num_datablocks_per_group = f 9, bitmap_start_per_group = f 10, data_start_per_group = f 11\<rparr>)"

lemma length_entry_bytes [simp]: "length (addrs e) = 12 \<Longrightarrow> length (entry_bytes e) = 64"
  by (simp add: entry_bytes_def)

lemma length_dirent_bytes [simp]: "length (de_name d) = 14 \<Longrightarrow> length (dirent_bytes d) = 16"
  by (simp add: dirent_bytes_def)

lemma length_header_bytes [simp]: "length (hdr_nos h) = 63 \<Longrightarrow> length (header_bytes h) = 512"
  by (simp add: header_bytes_def)

lemma slice_of_nats_nth:
  "\<lbrakk>i < length xs; x = xs ! i; x < 256 ^ w\<rbrakk> \<Longrightarrow> le_nat (slice (of_nats w xs @ rest) (w * i) w) = x"
proof (induction xs arbitrary: i)
  case Nil
  then show ?case by simp
next
  case (Cons y xs)
  show ?case
  proof (cases i)
    case 0
    then show ?thesis using Cons.prems by (simp add: of_nats_Cons slice_def le_nat_le_bytes_id)
  next
    case (Suc j)
    then have "slice (of_nats w (y # xs) @ rest) (w * i) w = slice (of_nats w xs @ rest) (w * j) w"
      by (simp add: of_nats_Cons slice_def)
    then show ?thesis using Cons Suc by simp
  qed
qed

lemma bytes_entry_bytes:
  assumes "entry_fits e"
  shows "bytes_entry (entry_bytes e) = e"
proof -
  note f = assms [unfolded entry_fits_def]
  let ?s = "[ity e, major e, minor e, num_links e]"
  let ?r = "of_nats 4 [num_bytes e] @ of_nats 4 (addrs e) @ of_nats 4 [indirect e]"
  have b: "entry_bytes e = of_nats 2 ?s @ ?r" by (simp add: entry_bytes_def)
  have s0: "le_nat (slice (entry_bytes e) 0 2) = ity e"
    using slice_of_nats_nth [of 0 ?s "ity e" 2 ?r] f by (simp add: b)
  have s1: "le_nat (slice (entry_bytes e) 2 2) = major e"
    using slice_of_nats_nth [of 1 ?s "major e" 2 ?r] f by (simp add: b)
  have s2: "le_nat (slice (entry_bytes e) 4 2) = minor e"
    using slice_of_nats_nth [of 2 ?s "minor e" 2 ?r] f by (simp add: b)
  have s3: "le_nat (slice (entry_bytes e) 6 2) = num_links e"
    using slice_of_nats_nth [of 3 ?s "num_links e" 2 ?r] f by (simp add: b)
  have s4: "le_nat (slice (entry_bytes e) 8 4) = num_bytes e"
    using f by (simp add: b slice_def of_nats_Cons le_nat_le_bytes_id)
  have s5: "nats_of 4 12 (drop 12 (entry_bytes e)) = addrs e"
    using f nats_of_of_nats [of "addrs e" 4 "of_nats 4 [indirect e]"] by (simp add: b)
  have s6: "le_nat (slice (entry_bytes e) 60 4) = indirect e"
    using f by (simp add: b slice_def of_nats_Cons le_nat_le_bytes_id)
  show ?thesis by (cases e) (use s0 s1 s2 s3 s4 s5 s6 in \<open>simp add: bytes_entry_def\<close>)
qed

lemma entry_fits_bytes_entry: "length bs = 64 \<Longrightarrow> entry_fits (bytes_entry bs)"
proof -
  assume l: "length bs = 64"
  have "le_nat (slice bs i n) < 256 ^ n" for i n
  proof -
    have "le_nat (slice bs i n) < 256 ^ length (slice bs i n)" by (rule le_nat_bound)
    also have "\<dots> \<le> 256 ^ n" by (intro power_increasing) (simp_all add: slice_def)
    finally show ?thesis .
  qed
  from this [of _ 2] this [of _ 4] show ?thesis
    by (auto simp: entry_fits_def bytes_entry_def dest: nats_of_bound)
qed

lemma entry_bytes_bytes_entry:
  assumes l: "length bs = 64"
  shows "entry_bytes (bytes_entry bs) = bs"
proof -
  have le: "le_bytes n (le_nat (slice bs i n)) = slice bs i n" if "i + n \<le> 64" for i n
    using le_bytes_le_nat [of "slice bs i n"] that l by simp
  have "entry_bytes (bytes_entry bs) = slice bs 0 2 @ slice bs 2 2 @ slice bs 4 2 @ slice bs 6 2 @
      slice bs 8 4 @ slice bs 12 48 @ slice bs 60 4"
    using l by (simp add: entry_bytes_def bytes_entry_def of_nats_Cons le of_nats_nats_of)
       (simp add: of_nats_def slice_def)
  also have "\<dots> = slice bs 0 64"
    using slice_append_split [of bs 0 2 62] slice_append_split [of bs 2 2 60] slice_append_split [of bs 4 2 58]
      slice_append_split [of bs 6 2 56] slice_append_split [of bs 8 4 52] slice_append_split [of bs 12 48 4]
    by (simp add: numeral_2_eq_2 [symmetric])
  also have "\<dots> = bs" using l by (simp add: slice_def)
  finally show ?thesis .
qed

lemma bytes_dirent_bytes:
  "\<lbrakk>de_inode_no d < 2 ^ 16; length (de_name d) = 14\<rbrakk> \<Longrightarrow> bytes_dirent (dirent_bytes d) = d"
  by (cases d) (simp add: bytes_dirent_def dirent_bytes_def slice_def le_nat_le_bytes_id)

lemma dirent_bytes_bytes: "length bs = 16 \<Longrightarrow> dirent_bytes (bytes_dirent bs) = bs"
  using le_bytes_le_nat [of "take 2 bs"] by (simp add: bytes_dirent_def dirent_bytes_def slice_def)

lemma bytes_header_bytes:
  assumes "header_fits h"
  shows "bytes_header (header_bytes h) = h"
proof -
  have "le_nat (le_bytes 8 (hdr_num h)) = hdr_num h"
    using assms by (intro le_nat_le_bytes_id) (simp add: header_fits_def)
  moreover have "nats_of 8 63 (of_nats 8 (hdr_nos h)) = hdr_nos h"
    using assms nats_of_of_nats [of "hdr_nos h" 8 "[]"] by (simp add: header_fits_def)
  ultimately show ?thesis by (cases h) (simp add: bytes_header_def header_bytes_def)
qed

lemma bytes_sblock_bytes:
  assumes "\<forall>x\<in>set (sblock_fields sb). x < 2 ^ 32"
  shows "bytes_sblock (sblock_bytes sb @ rest) = sb"
proof -
  have f: "le_nat (slice (sblock_bytes sb @ rest) (4 * i) 4) = sblock_fields sb ! i" if "i < 12" for i
  proof -
    have l: "length (sblock_fields sb) = 12" by (simp add: sblock_fields_def)
    then have "sblock_fields sb ! i < 2 ^ 32" using assms that by (metis nth_mem)
    then show ?thesis unfolding sblock_bytes_def
      using that l by (intro slice_of_nats_nth) simp_all
  qed
  show ?thesis
    using f [of 0] f [of 1] f [of 2] f [of 3] f [of 4] f [of 5] f [of 6] f [of 7] f [of 8] f [of 9]
      f [of 10] f [of 11]
    by (simp add: bytes_sblock_def Let_def sblock_fields_def)
qed

end
