(* ===== verification/BlockDev.thy ===== *)
theory BlockDev
  imports FsDefs
begin

text \<open>
  \<open>fs/block_device.h\<close>: the block device below the cache.  A device is the content of its blocks and
  the list of block writes it has carried out, oldest first.  A single block is written atomically
  (one sector of the card); a crash keeps a prefix of the writes.
\<close>

type_synonym disk = "nat \<Rightarrow> bytes"

record BlockDevice =
  disk :: disk
  wtrace :: "(nat \<times> bytes) list"

definition dev_read :: "nat \<Rightarrow> BlockDevice \<Rightarrow> bytes" where
  "dev_read block_no d = disk d block_no"

definition dev_write :: "nat \<Rightarrow> bytes \<Rightarrow> BlockDevice \<Rightarrow> BlockDevice" where
  "dev_write block_no buffer d =
     d\<lparr>disk := (disk d)(block_no := buffer), wtrace := wtrace d @ [(block_no, buffer)]\<rparr>"

text \<open>The disk after a list of writes.\<close>

definition apply_writes :: "disk \<Rightarrow> (nat \<times> bytes) list \<Rightarrow> disk" where
  "apply_writes d ws = foldl (\<lambda>d (b, x). d(b := x)) d ws"

lemma apply_writes_simps [simp]:
  "apply_writes d [] = d"
  "apply_writes d ((b, x) # ws) = apply_writes (d(b := x)) ws"
  by (simp_all add: apply_writes_def)

lemma apply_writes_append [simp]: "apply_writes d (ws @ vs) = apply_writes (apply_writes d ws) vs"
  by (simp add: apply_writes_def)

lemma apply_writes_other: "b \<notin> fst ` set ws \<Longrightarrow> apply_writes d ws b = d b"
  by (induction ws arbitrary: d) auto

lemma apply_writes_zip:
  assumes "distinct bs" "length xs = length bs" "i < length bs"
  shows "apply_writes d (zip bs xs) (bs ! i) = xs ! i"
  using assms
proof (induction bs arbitrary: d xs i)
  case Nil
  then show ?case by simp
next
  case (Cons b bs)
  then obtain x ys where xs: "xs = x # ys" by (cases xs) auto
  show ?case
  proof (cases i)
    case 0
    have "b \<notin> fst ` set (zip bs ys)" using Cons.prems(1) by (auto dest: set_zip_leftD)
    then show ?thesis using 0 xs apply_writes_other [of b "zip bs ys"] by simp
  next
    case (Suc j)
    then show ?thesis using Cons xs by simp
  qed
qed

text \<open>Everything the device holds is explained by its initial content and its writes.\<close>

definition dev_from :: "disk \<Rightarrow> (nat \<times> bytes) list \<Rightarrow> BlockDevice \<Rightarrow> bool" where
  "dev_from d0 ws0 d \<longleftrightarrow> (\<exists>ws. wtrace d = ws0 @ ws \<and> disk d = apply_writes d0 ws)"

lemma dev_from_refl [simp]: "dev_from (disk d) (wtrace d) d"
  by (auto simp: dev_from_def intro: exI [of _ "[]"])

lemma dev_from_write: "dev_from d0 ws0 d \<Longrightarrow> dev_from d0 ws0 (dev_write b x d)"
  unfolding dev_from_def dev_write_def
  by (elim exE conjE, rule_tac x = "ws @ [(b, x)]" in exI) simp

end
