(* ===== verification/SpinLock.thy ===== *)
theory SpinLock
  imports Prelude
begin

text \<open>
  \<open>common/rc.c\<close>, \<open>common/spinlock.c\<close> and \<open>core/sleeplock.c\<close>.  The first part gives each operation
  as it runs on one CPU without interference; waiting for another CPU or thread is \<open>Blocked\<close>.
  The second part runs the loads and stores of \<open>acquire_spinlock\<close>/\<open>release_spinlock\<close> on any number
  of CPUs in any order (a step relation over sequentially consistent memory) and shows mutual
  exclusion and the absence of both panics.
\<close>

section \<open>Reference counts\<close>

record RefCount =
  rccount :: u64

definition init_rc :: "RefCount \<Rightarrow> RefCount" where
  "init_rc rc = rc\<lparr>rccount := 0\<rparr>"

definition increment_rc :: "RefCount \<Rightarrow> RefCount" where
  "increment_rc rc = rc\<lparr>rccount := rccount rc + 1\<rparr>"

text \<open>\<open>__atomic_sub_fetch(...) <= 0\<close> on the signed \<open>isize\<close>.\<close>

definition decrement_rc :: "RefCount \<Rightarrow> bool \<times> RefCount" where
  "decrement_rc rc = (let c = rccount rc - 1 in (sint c \<le> 0, rc\<lparr>rccount := c\<rparr>))"

abbreviation rc_val :: "RefCount \<Rightarrow> int" where
  "rc_val rc \<equiv> sint (rccount rc)"

lemma sint64_of_small: "\<lbrakk>0 \<le> i; i < 2 ^ 63\<rbrakk> \<Longrightarrow> sint (word_of_int i :: u64) = i"
  by (simp add: int_word_sint)

lemma rc_val_increment:
  assumes "0 \<le> rc_val rc" "rc_val rc < 2 ^ 63 - 1"
  shows "rc_val (increment_rc rc) = rc_val rc + 1"
proof -
  have "rccount rc + 1 = word_of_int (rc_val rc + 1)" by simp
  then show ?thesis
    using assms sint64_of_small [of "rc_val rc + 1"] by (simp add: increment_rc_def)
qed

lemma decrement_rc_val:
  assumes "0 < rc_val rc"
  shows "fst (decrement_rc rc) \<longleftrightarrow> rc_val rc = 1"
    and "rc_val (snd (decrement_rc rc)) = rc_val rc - 1"
proof -
  have lt: "rc_val rc < 2 ^ 63" using sint_lt [of "rccount rc"] by simp
  have "rccount rc - 1 = word_of_int (rc_val rc - 1)" by simp
  then have eq: "sint (rccount rc - 1) = rc_val rc - 1"
    using assms lt sint64_of_small [of "rc_val rc - 1"] by simp
  show "fst (decrement_rc rc) \<longleftrightarrow> rc_val rc = 1"
    using assms eq by (auto simp: decrement_rc_def Let_def)
  show "rc_val (snd (decrement_rc rc)) = rc_val rc - 1"
    using eq by (simp add: decrement_rc_def Let_def)
qed

section \<open>Spin locks and sleep locks on one CPU\<close>

record SpinLock =
  locked :: bool
  lcpu :: "nat option"
  lname :: string

definition init_spinlock :: "SpinLock \<Rightarrow> string \<Rightarrow> SpinLock" where
  "init_spinlock lock name = lock\<lparr>locked := False, lcpu := None, lname := name\<rparr>"

definition holding_spinlock :: "nat \<Rightarrow> SpinLock \<Rightarrow> bool" where
  "holding_spinlock me lock \<longleftrightarrow> locked lock \<and> lcpu lock = Some me"

definition try_acquire_spinlock :: "nat \<Rightarrow> SpinLock \<Rightarrow> bool \<times> SpinLock" where
  "try_acquire_spinlock me lock =
     (if \<not> locked lock
      then (let lock = lock\<lparr>locked := True\<rparr> in (True, lock\<lparr>lcpu := Some me\<rparr>))
      else (False, lock))"

definition acquire_spinlock :: "nat \<Rightarrow> SpinLock \<Rightarrow> SpinLock res" where
  "acquire_spinlock me lock =
     (if holding_spinlock me lock then Inl (Panic ''acquire: lock already held'')
      else case try_acquire_spinlock me lock of
             (True, lock) \<Rightarrow> Inr lock
           | (False, _) \<Rightarrow> Inl (Blocked ''spinlock''))"

definition release_spinlock :: "nat \<Rightarrow> SpinLock \<Rightarrow> SpinLock res" where
  "release_spinlock me lock =
     (if \<not> holding_spinlock me lock then Inl (Panic ''release: lock not held'')
      else let lock = lock\<lparr>lcpu := None\<rparr> in Inr (lock\<lparr>locked := False\<rparr>))"

definition wait_spinlock :: "nat \<Rightarrow> SpinLock \<Rightarrow> SpinLock res" where
  "wait_spinlock me lock = bnd (acquire_spinlock me lock) (release_spinlock me)"

abbreviation free_lock :: "SpinLock \<Rightarrow> bool" where
  "free_lock lock \<equiv> \<not> locked lock \<and> lcpu lock = None"

lemma acquire_free: "\<not> locked lock \<Longrightarrow>
    acquire_spinlock me lock = Inr (lock\<lparr>locked := True, lcpu := Some me\<rparr>)"
  by (simp add: acquire_spinlock_def try_acquire_spinlock_def holding_spinlock_def)

lemma release_held: "holding_spinlock me lock \<Longrightarrow>
    release_spinlock me lock = Inr (lock\<lparr>locked := False, lcpu := None\<rparr>)"
  by (simp add: release_spinlock_def)

lemma acquire_release: "\<lbrakk>free_lock lock; acquire_spinlock me lock = Inr lock'\<rbrakk> \<Longrightarrow>
    release_spinlock me lock' = Inr lock"
  by (auto simp: acquire_free release_spinlock_def holding_spinlock_def)

lemma acquire_twice_panics: "acquire_spinlock me lock = Inr lock' \<Longrightarrow> panics (acquire_spinlock me lock')"
  by (auto simp: acquire_spinlock_def holding_spinlock_def try_acquire_spinlock_def
      split: if_splits)

text \<open>A sleep lock is a flag under a spin lock; a taken flag puts the caller to sleep.  \<open>wakeups\<close>
  counts the calls \<open>wakeup(lock)\<close> the lock has issued.\<close>

record SleepLock =
  slock :: SpinLock
  slocked :: bool
  wakeups :: nat

definition init_sleeplock :: "SleepLock \<Rightarrow> string \<Rightarrow> SleepLock" where
  "init_sleeplock lock name = lock\<lparr>slock := init_spinlock (slock lock) name, slocked := False\<rparr>"

definition acquire_sleeplock :: "nat \<Rightarrow> SleepLock \<Rightarrow> SleepLock res" where
  "acquire_sleeplock me lock =
     bnd (acquire_spinlock me (slock lock)) (\<lambda>l.
     if slocked lock then Inl (Blocked ''sleeplock'')
     else bnd (release_spinlock me l) (\<lambda>l. Inr (lock\<lparr>slock := l, slocked := True\<rparr>)))"

definition release_sleeplock :: "nat \<Rightarrow> SleepLock \<Rightarrow> SleepLock res" where
  "release_sleeplock me lock =
     bnd (acquire_spinlock me (slock lock)) (\<lambda>l.
     let lock = lock\<lparr>slocked := False\<rparr> in
     bnd (release_spinlock me l) (\<lambda>l. Inr (lock\<lparr>slock := l, wakeups := Suc (wakeups lock)\<rparr>)))"

lemma acquire_sleeplock_free: "\<lbrakk>free_lock (slock lock); \<not> slocked lock\<rbrakk> \<Longrightarrow>
    acquire_sleeplock me lock = Inr (lock\<lparr>slocked := True\<rparr>)"
  by (cases lock) (simp add: acquire_sleeplock_def acquire_free release_spinlock_def holding_spinlock_def)

lemma release_sleeplock_free: "free_lock (slock lock) \<Longrightarrow>
    release_sleeplock me lock = Inr (lock\<lparr>slocked := False, wakeups := Suc (wakeups lock)\<rparr>)"
  by (cases lock) (simp add: Let_def release_sleeplock_def acquire_free release_spinlock_def holding_spinlock_def)

lemma acquire_sleeplock_taken: "\<lbrakk>free_lock (slock lock); slocked lock\<rbrakk> \<Longrightarrow>
    acquire_sleeplock me lock = Inl (Blocked ''sleeplock'')"
  by (simp add: acquire_sleeplock_def acquire_free)

section \<open>Spin locks on many CPUs\<close>

text \<open>
  Where a CPU stands in \<open>acquire_spinlock\<close> and \<open>release_spinlock\<close>, one step per load or store:
  \<open>AHold\<close>/\<open>ACpu\<close> are the two loads of the \<open>holding_spinlock\<close> test of \<open>acquire\<close>, \<open>Spin\<close> the plain load
  of \<open>try_acquire\<close>, \<open>Tas\<close> its test-and-set, \<open>SetCpu\<close> the store of \<open>lock->cpu\<close>, \<open>Crit\<close> the caller's
  critical section, \<open>RHold\<close>/\<open>RCpu\<close> the test of \<open>release\<close>, \<open>ClrCpu\<close> and \<open>Clr\<close> its two stores.
\<close>

datatype pc = Out | AHold | ACpu | Spin | Tas | SetCpu | Crit | RHold | RCpu | ClrCpu | Clr | Dead

record sl_sys =
  lk :: SpinLock
  pcs :: "nat \<Rightarrow> pc"

abbreviation goto :: "sl_sys \<Rightarrow> nat \<Rightarrow> pc \<Rightarrow> sl_sys" where
  "goto s i q \<equiv> s\<lparr>pcs := (pcs s)(i := q)\<rparr>"

inductive sl_step :: "sl_sys \<Rightarrow> sl_sys \<Rightarrow> bool" where
  call_acquire: "pcs s i = Out \<Longrightarrow> sl_step s (goto s i AHold)"
| a_hold: "pcs s i = AHold \<Longrightarrow> sl_step s (goto s i (if locked (lk s) then ACpu else Spin))"
| a_cpu: "pcs s i = ACpu \<Longrightarrow> sl_step s (goto s i (if lcpu (lk s) = Some i then Dead else Spin))"
| spin: "pcs s i = Spin \<Longrightarrow> sl_step s (goto s i (if locked (lk s) then Spin else Tas))"
| tas: "pcs s i = Tas \<Longrightarrow>
    sl_step s ((goto s i (if locked (lk s) then Spin else SetCpu))\<lparr>lk := (lk s)\<lparr>locked := True\<rparr>\<rparr>)"
| set_cpu: "pcs s i = SetCpu \<Longrightarrow> sl_step s ((goto s i Crit)\<lparr>lk := (lk s)\<lparr>lcpu := Some i\<rparr>\<rparr>)"
| call_release: "pcs s i = Crit \<Longrightarrow> sl_step s (goto s i RHold)"
| r_hold: "pcs s i = RHold \<Longrightarrow> sl_step s (goto s i (if locked (lk s) then RCpu else Dead))"
| r_cpu: "pcs s i = RCpu \<Longrightarrow> sl_step s (goto s i (if lcpu (lk s) = Some i then ClrCpu else Dead))"
| clr_cpu: "pcs s i = ClrCpu \<Longrightarrow> sl_step s ((goto s i Clr)\<lparr>lk := (lk s)\<lparr>lcpu := None\<rparr>\<rparr>)"
| clr: "pcs s i = Clr \<Longrightarrow> sl_step s ((goto s i Out)\<lparr>lk := (lk s)\<lparr>locked := False\<rparr>\<rparr>)"

definition sl_init :: "string \<Rightarrow> sl_sys" where
  "sl_init name = \<lparr>lk = init_spinlock \<lparr>locked = True, lcpu = None, lname = []\<rparr> name, pcs = (\<lambda>_. Out)\<rparr>"

inductive sl_reach :: "sl_sys \<Rightarrow> bool" where
  sl_start: "sl_reach (sl_init name)"
| sl_next: "\<lbrakk>sl_reach s; sl_step s t\<rbrakk> \<Longrightarrow> sl_reach t"

text \<open>A CPU owns the lock from its winning test-and-set to the store that clears \<open>locked\<close>; it is
  recorded as owner a little less long.\<close>

definition owns :: "sl_sys \<Rightarrow> nat \<Rightarrow> bool" where
  "owns s i \<longleftrightarrow> pcs s i \<in> {SetCpu, Crit, RHold, RCpu, ClrCpu, Clr}"

definition recorded :: "sl_sys \<Rightarrow> nat \<Rightarrow> bool" where
  "recorded s i \<longleftrightarrow> pcs s i \<in> {Crit, RHold, RCpu, ClrCpu}"

definition sl_inv :: "sl_sys \<Rightarrow> bool" where
  "sl_inv s \<longleftrightarrow>
     (locked (lk s) \<longleftrightarrow> (\<exists>i. owns s i)) \<and>
     (\<forall>i j. owns s i \<longrightarrow> owns s j \<longrightarrow> i = j) \<and>
     (\<forall>i. lcpu (lk s) = Some i \<longleftrightarrow> recorded s i) \<and>
     (\<forall>i. pcs s i \<noteq> Dead)"

lemma sl_inv_init: "sl_inv (sl_init name)"
  by (simp add: sl_inv_def sl_init_def owns_def recorded_def init_spinlock_def)

lemma sl_inv_goto:
  assumes "sl_inv s" "owns (goto s i q) i = owns s i" "recorded (goto s i q) i = recorded s i" "q \<noteq> Dead"
  shows "sl_inv (goto s i q)"
proof -
  have "owns (goto s i q) j = owns s j" "recorded (goto s i q) j = recorded s j" for j
    using assms(2,3) by (cases "j = i"; simp add: owns_def recorded_def)+
  then show ?thesis using assms(1,4) by (simp add: sl_inv_def)
qed

lemma sl_step_inv: "\<lbrakk>sl_step s t; sl_inv s\<rbrakk> \<Longrightarrow> sl_inv t"
proof (induction rule: sl_step.induct)
  case (a_cpu s i)
  then have "lcpu (lk s) \<noteq> Some i" by (auto simp: sl_inv_def recorded_def)
  with a_cpu show ?case by (simp add: sl_inv_goto owns_def recorded_def)
next
  case (tas s i)
  show ?case
  proof (cases "locked (lk s)")
    case True
    then have "(lk s)\<lparr>locked := True\<rparr> = lk s" by (cases "lk s") simp
    then have "(goto s i Spin)\<lparr>lk := (lk s)\<lparr>locked := True\<rparr>\<rparr> = goto s i Spin" by (cases s) simp
    moreover have "sl_inv (goto s i Spin)"
      using tas by (simp add: sl_inv_goto owns_def recorded_def)
    ultimately show ?thesis using True by (simp only: if_True)
  next
    case False
    with tas show ?thesis by (auto simp: sl_inv_def owns_def recorded_def)
  qed
next
  case (set_cpu s i)
  then have "owns s i" by (simp add: owns_def)
  with set_cpu have only: "\<And>j. owns s j \<Longrightarrow> j = i" by (auto simp: sl_inv_def)
  then have "\<And>j. recorded s j \<Longrightarrow> j = i" by (auto simp: owns_def recorded_def)
  then have "recorded ((goto s i Crit)\<lparr>lk := l\<rparr>) j \<longleftrightarrow> j = i" for j l
    by (auto simp: recorded_def)
  moreover have "owns ((goto s i Crit)\<lparr>lk := l\<rparr>) j = owns s j" for j l
    using set_cpu by (simp add: owns_def)
  ultimately show ?case using set_cpu.prems by (auto simp: sl_inv_def)
next
  case (r_hold s i)
  then have "locked (lk s)" by (auto simp: sl_inv_def owns_def)
  with r_hold show ?case by (simp add: sl_inv_goto owns_def recorded_def)
next
  case (r_cpu s i)
  then have "lcpu (lk s) = Some i" by (auto simp: sl_inv_def recorded_def)
  with r_cpu show ?case by (simp add: sl_inv_goto owns_def recorded_def)
next
  case (clr_cpu s i)
  then have "owns s i" by (simp add: owns_def)
  with clr_cpu have "\<And>j. owns s j \<Longrightarrow> j = i" by (auto simp: sl_inv_def)
  then have "\<And>j. recorded s j \<Longrightarrow> j = i" by (auto simp: owns_def recorded_def)
  then have "\<not> recorded ((goto s i Clr)\<lparr>lk := l\<rparr>) j" for j l
    by (auto simp: recorded_def)
  moreover have "owns ((goto s i Clr)\<lparr>lk := l\<rparr>) j = owns s j" for j l
    using clr_cpu by (simp add: owns_def)
  ultimately show ?case using clr_cpu.prems by (auto simp: sl_inv_def)
next
  case (clr s i)
  then have "owns s i" by (simp add: owns_def)
  with clr have "\<And>j. owns s j \<Longrightarrow> j = i" by (auto simp: sl_inv_def)
  then have "\<not> owns ((goto s i Out)\<lparr>lk := l\<rparr>) j" for j l
    by (auto simp: owns_def)
  moreover have "recorded ((goto s i Out)\<lparr>lk := l\<rparr>) j = recorded s j" for j l
    using clr by (simp add: recorded_def)
  ultimately show ?case using clr.prems by (auto simp: sl_inv_def)
qed (simp_all add: sl_inv_goto owns_def recorded_def)

lemma sl_reach_inv: "sl_reach s \<Longrightarrow> sl_inv s"
  by (induction rule: sl_reach.induct) (auto intro: sl_inv_init sl_step_inv)

text \<open>\<open>holding_spinlock\<close> is exact: outside the instants in which a CPU is taking or releasing the
  lock it is true on exactly the CPU in the critical section.\<close>

lemma sl_holding_exact:
  assumes "sl_reach s" "pcs s i \<notin> {RHold, RCpu, ClrCpu}"
  shows "holding_spinlock i (lk s) \<longleftrightarrow> pcs s i = Crit"
proof -
  have inv: "sl_inv s" by (rule sl_reach_inv [OF assms(1)])
  have "holding_spinlock i (lk s) \<longleftrightarrow> recorded s i"
    using inv by (auto simp: sl_inv_def holding_spinlock_def recorded_def owns_def)
  then show ?thesis using assms(2) by (auto simp: recorded_def)
qed

text \<open>The first CPU to call \<open>acquire\<close> reaches its critical section: a concrete run.\<close>

lemma sl_reach_crit: "sl_reach ((goto (sl_init n) i Crit)
    \<lparr>lk := \<lparr>locked = True, lcpu = Some i, lname = n\<rparr>\<rparr>)"
proof -
  let ?s = "sl_init n"
  note simps = sl_init_def init_spinlock_def
  have 1: "sl_reach (goto ?s i AHold)"
    by (rule sl_next [OF sl_start]) (rule call_acquire, simp add: simps)
  have 2: "sl_reach (goto ?s i Spin)"
    using sl_next [OF 1 a_hold [of _ i]] by (simp add: simps)
  have 3: "sl_reach (goto ?s i Tas)"
    using sl_next [OF 2 spin [of _ i]] by (simp add: simps)
  have 4: "sl_reach ((goto ?s i SetCpu)\<lparr>lk := \<lparr>locked = True, lcpu = None, lname = n\<rparr>\<rparr>)"
    using sl_next [OF 3 tas [of _ i]] by (simp add: simps)
  show ?thesis using sl_next [OF 4 set_cpu [of _ i]] by (simp add: simps)
qed

end
