(* ===== verification/Cache.thy ===== *)
theory Cache
  imports BlockDev SpinLock
begin

text \<open>
  \<open>fs/cache.c\<close>: the block cache with its write-ahead log.  The state is the file's static variables;
  \<open>slots\<close> holds the \<open>Block\<close> structures by the order in which the arena handed them out, \<open>lru\<close> is the
  circular list under \<open>head\<close> (most recently used first, \<open>ListNode\<close>), \<open>room\<close> the number of \<open>Block\<close>
  structures the arena can still provide, \<open>ctxs\<close> the memory of the callers' \<open>OpContext\<close>s and
  \<open>woken\<close> the channels passed to \<open>wakeup\<close>.  \<open>usize\<close> arithmetic that can wrap is written with
  \<open>addw 64\<close> and \<open>subw 64\<close>.
\<close>

abbreviation (input) OP_MAX_NUM_BLOCKS :: nat where "OP_MAX_NUM_BLOCKS \<equiv> 10"
abbreviation (input) EVICTION_THRESHOLD :: nat where "EVICTION_THRESHOLD \<equiv> 20"

record Block =
  block_no :: nat
  acquired :: bool
  pinned :: bool
  block_lock :: SleepLock
  valid :: bool
  data :: bytes

record OpContext =
  ctx_lock :: SpinLock
  ts :: nat
  ctx_num :: nat
  ctx_nos :: "nat list"

datatype chan = ChLogUsed | ChPersisted

record bcache =
  sblock :: SuperBlock
  dev :: BlockDevice
  cache_lock :: SpinLock
  slots :: "nat \<Rightarrow> Block"
  lru :: "nat list"
  nslots :: nat
  room :: nat
  header :: LogHeader
  last_allocated_ts :: nat
  last_persisted_ts :: nat
  log_start :: nat
  log_size :: nat
  log_used :: nat
  op_count :: nat
  used_block :: "nat list"
  ctxs :: "nat \<Rightarrow> OpContext"
  woken :: "chan list"

definition upd_slot :: "nat \<Rightarrow> (Block \<Rightarrow> Block) \<Rightarrow> bcache \<Rightarrow> bcache" where
  "upd_slot s f st = st\<lparr>slots := (slots st)(s := f (slots st s))\<rparr>"

definition device_read :: "nat \<Rightarrow> bcache \<Rightarrow> bcache" where
  "device_read s st = upd_slot s (\<lambda>b. b\<lparr>data := dev_read (block_no (slots st s)) (dev st)\<rparr>) st"

definition device_write :: "nat \<Rightarrow> bcache \<Rightarrow> bcache" where
  "device_write s st = st\<lparr>dev := dev_write (block_no (slots st s)) (data (slots st s)) (dev st)\<rparr>"

definition read_header :: "bcache \<Rightarrow> bcache" where
  "read_header st = st\<lparr>header := bytes_header (dev_read (sb_log_start (sblock st)) (dev st))\<rparr>"

definition write_header :: "bcache \<Rightarrow> bcache" where
  "write_header st = st\<lparr>dev := dev_write (sb_log_start (sblock st)) (header_bytes (header st)) (dev st)\<rparr>"

text \<open>\<open>acquire_spinlock(&lock)\<close> and \<open>release_spinlock(&lock)\<close> on the cache's own lock.\<close>

definition lock_cache :: "nat \<Rightarrow> bcache \<Rightarrow> bcache res" where
  "lock_cache me st = bnd (acquire_spinlock me (cache_lock st)) (\<lambda>l. Inr (st\<lparr>cache_lock := l\<rparr>))"

definition unlock_cache :: "nat \<Rightarrow> bcache \<Rightarrow> bcache res" where
  "unlock_cache me st = bnd (release_spinlock me (cache_lock st)) (\<lambda>l. Inr (st\<lparr>cache_lock := l\<rparr>))"

definition init_block :: "Block \<Rightarrow> Block" where
  "init_block b = b\<lparr>block_no := 0, acquired := False, pinned := False,
     block_lock := init_sleeplock (block_lock b) ''block'', valid := False,
     data := replicate BLOCK_SIZE 0\<rparr>"

definition get_num_cached_blocks :: "nat \<Rightarrow> bcache \<Rightarrow> (nat \<times> bcache) res" where
  "get_num_cached_blocks me st =
     bnd (lock_cache me st) (\<lambda>st.
     let count = length (lru st) in
     bnd (unlock_cache me st) (\<lambda>st. Inr (count, st)))"

text \<open>The search loop of \<open>cache_acquire\<close>: a hit ends it, otherwise the last evictable block seen is
  the candidate.\<close>

fun find_slot :: "(nat \<Rightarrow> Block) \<Rightarrow> nat \<Rightarrow> nat list \<Rightarrow> nat option \<Rightarrow> nat option" where
  "find_slot sl b [] slot = slot"
| "find_slot sl b (cur # rest) slot =
     (if block_no (sl cur) = b then Some cur
      else find_slot sl b rest
        (if \<not> acquired (sl cur) \<and> \<not> pinned (sl cur) then Some cur else slot))"

text \<open>\<open>alloc_object(&arena)\<close>: the arena returns a structure that is not in use (theory \<open>Arena\<close>) or
  panics when the page allocator has nothing left.\<close>

definition alloc_block :: "bcache \<Rightarrow> (nat \<times> bcache) res" where
  "alloc_block st =
     (if room st = 0 then Inl (Panic ''arena failed to allocate object'')
      else Inr (nslots st, st\<lparr>nslots := Suc (nslots st), room := room st - 1\<rparr>))"

definition choose_slot :: "nat \<Rightarrow> bcache \<Rightarrow> (nat \<times> bcache) res" where
  "choose_slot b st =
     (let slot = find_slot (slots st) b (lru st) None;
          (slot, st) =
            (case slot of
               None \<Rightarrow> (None, st)
             | Some s \<Rightarrow>
                 if block_no (slots st s) \<noteq> b then
                   if length (lru st) \<ge> EVICTION_THRESHOLD
                   then (Some s, upd_slot s (\<lambda>x. x\<lparr>block_no := b, valid := False\<rparr>) st)
                   else (None, st)
                 else (Some s, st))
      in case slot of
           Some s \<Rightarrow> Inr (s, st)
         | None \<Rightarrow> bnd (alloc_block st) (\<lambda>(s, st).
             let st = upd_slot s init_block st;
                 st = upd_slot s (\<lambda>x. x\<lparr>block_no := b\<rparr>) st
             in Inr (s, st)))"

definition cache_acquire :: "nat \<Rightarrow> nat \<Rightarrow> bcache \<Rightarrow> (nat \<times> bcache) res" where
  "cache_acquire me b st =
     bnd (lock_cache me st) (\<lambda>st.
     bnd (choose_slot b st) (\<lambda>(slot, st).
     let st = st\<lparr>lru := slot # removeAll slot (lru st)\<rparr>;
         st = upd_slot slot (\<lambda>x. x\<lparr>acquired := True\<rparr>) st in
     bnd (unlock_cache me st) (\<lambda>st.
     bnd (acquire_sleeplock me (block_lock (slots st slot))) (\<lambda>l.
     let st = upd_slot slot (\<lambda>x. x\<lparr>block_lock := l\<rparr>) st;
         st = (if \<not> valid (slots st slot)
               then upd_slot slot (\<lambda>x. x\<lparr>valid := True\<rparr>) (device_read slot st) else st)
     in Inr (slot, st)))))"

definition cache_release :: "nat \<Rightarrow> nat \<Rightarrow> bcache \<Rightarrow> bcache res" where
  "cache_release me slot st =
     bnd (release_sleeplock me (block_lock (slots st slot))) (\<lambda>l.
     let st = upd_slot slot (\<lambda>x. x\<lparr>block_lock := l\<rparr>) st in
     bnd (lock_cache me st) (\<lambda>st.
     unlock_cache me (upd_slot slot (\<lambda>x. x\<lparr>acquired := False\<rparr>) st)))"

section \<open>Atomic operations\<close>

definition upd_ctx :: "nat \<Rightarrow> (OpContext \<Rightarrow> OpContext) \<Rightarrow> bcache \<Rightarrow> bcache" where
  "upd_ctx c f st = st\<lparr>ctxs := (ctxs st)(c := f (ctxs st c))\<rparr>"

definition wakeup :: "chan \<Rightarrow> bcache \<Rightarrow> bcache" where
  "wakeup ch st = st\<lparr>woken := woken st @ [ch]\<rparr>"

definition cache_begin_op :: "nat \<Rightarrow> nat \<Rightarrow> bcache \<Rightarrow> bcache res" where
  "cache_begin_op me ctx st =
     (let st = upd_ctx ctx (\<lambda>c. c\<lparr>ctx_lock := init_spinlock (ctx_lock c) ''atomic operation context'',
                 ts := 0, ctx_num := 0, ctx_nos := replicate OP_MAX_NUM_BLOCKS 0\<rparr>) st in
      bnd (lock_cache me st) (\<lambda>st.
      if addw 64 (log_used st) OP_MAX_NUM_BLOCKS > log_size st then Inl (Blocked ''log_used'')
      else
        let st = st\<lparr>log_used := addw 64 (log_used st) OP_MAX_NUM_BLOCKS\<rparr>;
            st = st\<lparr>last_allocated_ts := addw 64 (last_allocated_ts st) 1\<rparr>;
            st = upd_ctx ctx (\<lambda>c. c\<lparr>ts := last_allocated_ts st\<rparr>) st;
            st = st\<lparr>op_count := addw 64 (op_count st) 1\<rparr>
        in unlock_cache me st))"

text \<open>\<open>for (i = 0; i < n; i++) if (a[i] == b) break;\<close> leaves the index of the first hit, else \<open>n\<close>.\<close>

fun index_of :: "nat list \<Rightarrow> nat \<Rightarrow> nat \<Rightarrow> nat" where
  "index_of [] n b = 0"
| "index_of (x # xs) n b = (if n = 0 \<or> x = b then 0 else Suc (index_of xs (n - 1) b))"

definition cache_sync :: "nat \<Rightarrow> nat option \<Rightarrow> nat \<Rightarrow> bcache \<Rightarrow> bcache res" where
  "cache_sync me ctx slot st =
     (case ctx of
        Some c \<Rightarrow>
          bnd (acquire_spinlock me (ctx_lock (ctxs st c))) (\<lambda>l.
          let st = upd_ctx c (\<lambda>x. x\<lparr>ctx_lock := l\<rparr>) st;
              x = ctxs st c;
              b = block_no (slots st slot);
              i = index_of (ctx_nos x) (ctx_num x) b in
          bnd (chk (i < OP_MAX_NUM_BLOCKS) ''i < OP_MAX_NUM_BLOCKS'') (\<lambda>_.
          let st = upd_ctx c (\<lambda>x. x\<lparr>ctx_nos := (ctx_nos x)[i := b],
                     ctx_num := (if i \<ge> ctx_num x then Suc (ctx_num x) else ctx_num x)\<rparr>) st in
          bnd (release_spinlock me (ctx_lock (ctxs st c))) (\<lambda>l.
          let st = upd_ctx c (\<lambda>x. x\<lparr>ctx_lock := l\<rparr>) st in
          bnd (lock_cache me st) (\<lambda>st.
          unlock_cache me (upd_slot slot (\<lambda>x. x\<lparr>pinned := True\<rparr>) st)))))
      | None \<Rightarrow> Inr (device_write slot st))"

text \<open>The loop of \<open>commit\<close> over the context's block numbers: header and number of absorbed entries.\<close>

fun commit_loop :: "nat \<Rightarrow> nat list \<Rightarrow> LogHeader \<Rightarrow> nat \<Rightarrow> (LogHeader \<times> nat) res" where
  "commit_loop lsize [] h absorbed = Inr (h, absorbed)"
| "commit_loop lsize (b # bs) h absorbed =
     (let j = index_of (hdr_nos h) (hdr_num h) b in
      bnd (chk (j < lsize) ''j < log_size'') (\<lambda>_.
      if j \<ge> length (hdr_nos h) then Inl (Fault ''header.block_no'') else
      let h' = h\<lparr>hdr_nos := (hdr_nos h)[j := b]\<rparr> in
      if j < hdr_num h then commit_loop lsize bs h' (Suc absorbed)
      else commit_loop lsize bs (h'\<lparr>hdr_num := Suc (hdr_num h)\<rparr>) absorbed))"

definition commit :: "nat \<Rightarrow> nat \<Rightarrow> bcache \<Rightarrow> bcache res" where
  "commit me ctx st =
     bnd (acquire_spinlock me (ctx_lock (ctxs st ctx))) (\<lambda>l.
     let st = upd_ctx ctx (\<lambda>x. x\<lparr>ctx_lock := l\<rparr>) st;
         x = ctxs st ctx in
     bnd (commit_loop (log_size st) (take (ctx_num x) (ctx_nos x)) (header st) 0) (\<lambda>(h, absorbed).
     let st = st\<lparr>header := h\<rparr> in
     bnd (release_spinlock me (ctx_lock (ctxs st ctx))) (\<lambda>l.
     let st = upd_ctx ctx (\<lambda>x. x\<lparr>ctx_lock := l\<rparr>) st;
         unused = subw 64 OP_MAX_NUM_BLOCKS (ctx_num x);
         st = st\<lparr>log_used := subw 64 (log_used st) (addw 64 unused absorbed)\<rparr>
     in Inr (wakeup ChLogUsed st))))"

text \<open>One iteration of step 3: log block \<open>log_start + i\<close> back to its home location.\<close>

definition replay_one :: "nat \<Rightarrow> nat \<Rightarrow> bcache \<Rightarrow> bcache res" where
  "replay_one me i st =
     (if i \<ge> length (hdr_nos (header st)) then Inl (Fault ''header.block_no'') else
      bnd (cache_acquire me (log_start st + i) st) (\<lambda>(src, st).
      bnd (cache_acquire me (hdr_nos (header st) ! i) st) (\<lambda>(dest, st).
      let st = upd_slot dest (\<lambda>x. x\<lparr>data := data (slots st src)\<rparr>) st in
      bnd (cache_release me src st) (\<lambda>st.
      let st = device_write dest st in
      bnd (lock_cache me st) (\<lambda>st.
      bnd (unlock_cache me (upd_slot dest (\<lambda>x. x\<lparr>pinned := False\<rparr>) st)) (\<lambda>st.
      cache_release me dest st))))))"

fun replay_loop :: "nat \<Rightarrow> nat list \<Rightarrow> bcache \<Rightarrow> bcache res" where
  "replay_loop me [] st = Inr st"
| "replay_loop me (i # is) st = bnd (replay_one me i st) (replay_loop me is)"

definition replay :: "nat \<Rightarrow> bcache \<Rightarrow> bcache res" where
  "replay me st =
     (if hdr_num (header st) = 0 then Inr st
      else bnd (replay_loop me [0..<hdr_num (header st)] st) (\<lambda>st.
        let st = st\<lparr>header := (header st)\<lparr>hdr_num := 0\<rparr>\<rparr>
        in Inr (write_header st)))"

text \<open>One iteration of step 1: a dirty block into the logging area.\<close>

definition log_one :: "nat \<Rightarrow> nat \<Rightarrow> bcache \<Rightarrow> bcache res" where
  "log_one me i st =
     (if i \<ge> length (hdr_nos (header st)) then Inl (Fault ''header.block_no'') else
      bnd (cache_acquire me (hdr_nos (header st) ! i) st) (\<lambda>(src, st).
      bnd (cache_acquire me (log_start st + i) st) (\<lambda>(dest, st).
      let st = upd_slot dest (\<lambda>x. x\<lparr>data := data (slots st src)\<rparr>) st in
      bnd (cache_release me src st) (\<lambda>st.
      let st = device_write dest st in
      cache_release me dest st))))"

fun log_loop :: "nat \<Rightarrow> nat list \<Rightarrow> bcache \<Rightarrow> bcache res" where
  "log_loop me [] st = Inr st"
| "log_loop me (i # is) st = bnd (log_one me i st) (log_loop me is)"

definition checkpoint :: "nat \<Rightarrow> bcache \<Rightarrow> bcache res" where
  "checkpoint me st =
     bnd (log_loop me [0..<hdr_num (header st)] st) (\<lambda>st.
     let st = write_header st in
     bnd (replay me st) (\<lambda>st.
     bnd (lock_cache me st) (\<lambda>st.
     bnd (unlock_cache me (st\<lparr>last_persisted_ts := last_allocated_ts st\<rparr>)) (\<lambda>st.
     Inr (wakeup ChPersisted st)))))"

text \<open>\<open>cache_end_op\<close> up to the point where it either waits or checkpoints; the flag is
  \<open>do_checkpoint\<close>, the number the saved \<open>log_size_copy\<close>.\<close>

definition end_op_commit :: "nat \<Rightarrow> nat \<Rightarrow> bcache \<Rightarrow> (bool \<times> nat \<times> bcache) res" where
  "end_op_commit me ctx st =
     bnd (lock_cache me st) (\<lambda>st.
     bnd (commit me ctx st) (\<lambda>st.
     let st = st\<lparr>op_count := subw 64 (op_count st) 1\<rparr>;
         do_checkpoint = (op_count st = 0);
         log_size_copy = log_size st;
         st = (if do_checkpoint then st\<lparr>log_size := 0\<rparr> else st) in
     Inr (do_checkpoint, log_size_copy, st)))"

definition end_op_finish :: "nat \<Rightarrow> nat \<Rightarrow> bcache \<Rightarrow> bcache res" where
  "end_op_finish me log_size_copy st =
     bnd (checkpoint me st) (\<lambda>st.
     bnd (lock_cache me st) (\<lambda>st.
     let st = st\<lparr>log_size := log_size_copy, log_used := 0\<rparr> in
     bnd (unlock_cache me st) (\<lambda>st.
     Inr (wakeup ChLogUsed st))))"

definition cache_end_op :: "nat \<Rightarrow> nat \<Rightarrow> bcache \<Rightarrow> bcache res" where
  "cache_end_op me ctx st =
     bnd (end_op_commit me ctx st) (\<lambda>(do_checkpoint, log_size_copy, st).
     if \<not> do_checkpoint \<and> ts (ctxs st ctx) > last_persisted_ts st then Inl (Blocked ''last_persisted_ts'')
     else bnd (unlock_cache me st) (\<lambda>st.
       if do_checkpoint then end_op_finish me log_size_copy st else Inr st))"

definition init_bcache :: "nat \<Rightarrow> SuperBlock \<Rightarrow> BlockDevice \<Rightarrow> bcache \<Rightarrow> bcache res" where
  "init_bcache me sb d st =
     (let st = st\<lparr>sblock := sb, dev := d, cache_lock := init_spinlock (cache_lock st) ''block cache'',
                  lru := [], last_allocated_ts := 0, last_persisted_ts := 0,
                  log_start := addw 32 (sb_log_start sb) 1,
                  log_size := min (subw 32 (num_log_blocks sb) 1) LOG_MAX_SIZE,
                  log_used := 0, op_count := 0\<rparr>
      in replay me (read_header st))"

end
