(* ===== verification/CacheInv.thy ===== *)
theory CacheInv
  imports Cache
begin

text \<open>
  The invariant of the block cache and the behaviour of \<open>cache_acquire\<close> and \<open>cache_release\<close>: a block
  is cached at most once (the log header, which bypasses the cache, never), acquired or pinned copies are never evicted, and every copy that is neither
  equals the block on disk.  \<open>view\<close> is the content a client sees.
\<close>

definition cached :: "bcache \<Rightarrow> nat \<Rightarrow> nat option" where
  "cached st b = find (\<lambda>s. block_no (slots st s) = b) (lru st)"

definition view :: "bcache \<Rightarrow> nat \<Rightarrow> bytes" where
  "view st b =
     (case cached st b of
        Some s \<Rightarrow> if valid (slots st s) then data (slots st s) else disk (dev st) b
      | None \<Rightarrow> disk (dev st) b)"

definition held :: "bcache \<Rightarrow> nat set" where
  "held st = {block_no (slots st s) | s. s \<in> set (lru st) \<and> acquired (slots st s)}"

definition pins :: "bcache \<Rightarrow> nat set" where
  "pins st = {block_no (slots st s) | s. s \<in> set (lru st) \<and> pinned (slots st s)}"

definition slot_wf :: "Block \<Rightarrow> bool" where
  "slot_wf x \<longleftrightarrow> free_lock (slock (block_lock x)) \<and> slocked (block_lock x) = acquired x \<and>
     (acquired x \<or> pinned x \<longrightarrow> valid x) \<and> (valid x \<longrightarrow> length (data x) = BLOCK_SIZE)"

definition bc_wf :: "bcache \<Rightarrow> bool" where
  "bc_wf st \<longleftrightarrow> free_lock (cache_lock st) \<and> distinct (lru st) \<and> (\<forall>s\<in>set (lru st). s < nslots st) \<and>
     inj_on (\<lambda>s. block_no (slots st s)) (set (lru st)) \<and>
     (\<forall>s\<in>set (lru st). slot_wf (slots st s)) \<and> (\<forall>b. length (disk (dev st) b) = BLOCK_SIZE) \<and>
     (\<forall>s\<in>set (lru st). block_no (slots st s) \<noteq> sb_log_start (sblock st))"

definition clean :: "bcache \<Rightarrow> nat \<Rightarrow> bool" where
  "clean st s \<longleftrightarrow> (valid (slots st s) \<and> \<not> pinned (slots st s) \<longrightarrow>
     data (slots st s) = disk (dev st) (block_no (slots st s)))"

definition bc_inv :: "bcache \<Rightarrow> bool" where
  "bc_inv st \<longleftrightarrow> bc_wf st \<and> (\<forall>s\<in>set (lru st). \<not> acquired (slots st s) \<longrightarrow> clean st s)"

text \<open>States that differ only in the cached blocks.\<close>

definition cache_only :: "bcache \<Rightarrow> bcache \<Rightarrow> bool" where
  "cache_only st st' \<longleftrightarrow> (\<exists>sl lr n r. st' = st\<lparr>slots := sl, lru := lr, nslots := n, room := r\<rparr>)"

lemma cache_only_refl [simp]: "cache_only st st"
  unfolding cache_only_def
  by (rule exI [of _ "slots st"], rule exI [of _ "lru st"], rule exI [of _ "nslots st"],
      rule exI [of _ "room st"]) simp

lemma cache_only_trans: "\<lbrakk>cache_only st st'; cache_only st' st''\<rbrakk> \<Longrightarrow> cache_only st st''"
  by (auto simp: cache_only_def) blast

lemma cache_onlyD:
  assumes "cache_only st st'"
  shows "dev st' = dev st" "sblock st' = sblock st" "cache_lock st' = cache_lock st"
    "header st' = header st" "last_allocated_ts st' = last_allocated_ts st"
    "last_persisted_ts st' = last_persisted_ts st" "log_start st' = log_start st"
    "log_size st' = log_size st" "log_used st' = log_used st" "op_count st' = op_count st"
    "used_block st' = used_block st" "ctxs st' = ctxs st" "woken st' = woken st"
  using assms by (auto simp: cache_only_def)

section \<open>Locks\<close>

lemma free_lock_upd [simp]: "free_lock l \<Longrightarrow> l\<lparr>locked := False, lcpu := None\<rparr> = l"
  by (cases l) simp

abbreviation taken :: "nat \<Rightarrow> SpinLock \<Rightarrow> SpinLock" where
  "taken me l \<equiv> l\<lparr>locked := True, lcpu := Some me\<rparr>"

lemma lock_cache_free [simp]: "free_lock (cache_lock st) \<Longrightarrow>
    lock_cache me st = Inr (st\<lparr>cache_lock := taken me (cache_lock st)\<rparr>)"
  by (simp add: lock_cache_def acquire_free)

lemma unlock_cache_taken [simp]: "\<lbrakk>cache_lock st = taken me l; free_lock l\<rbrakk> \<Longrightarrow>
    unlock_cache me st = Inr (st\<lparr>cache_lock := l\<rparr>)"
  by (simp add: unlock_cache_def release_held holding_spinlock_def)

section \<open>Looking up\<close>

lemma find_slot_hit:
  "\<lbrakk>s \<in> set xs; block_no (sl s) = b; inj_on (\<lambda>s. block_no (sl s)) (set xs)\<rbrakk> \<Longrightarrow>
    find_slot sl b xs c = Some s"
proof (induction xs arbitrary: c)
  case Nil
  then show ?case by simp
next
  case (Cons x xs)
  show ?case
  proof (cases "block_no (sl x) = b")
    case True
    then have "x = s" using Cons.prems(1,2) inj_onD [OF Cons.prems(3), of x s] by simp
    with True show ?thesis by simp
  next
    case False
    then have "s \<in> set xs" using Cons.prems by auto
    with False Cons.IH Cons.prems show ?thesis by (simp add: inj_on_insert)
  qed
qed

lemma find_slot_miss:
  "\<lbrakk>\<forall>s\<in>set xs. block_no (sl s) \<noteq> b; find_slot sl b xs c = Some s\<rbrakk> \<Longrightarrow>
    c = Some s \<or> (s \<in> set xs \<and> \<not> acquired (sl s) \<and> \<not> pinned (sl s))"
proof (induction xs arbitrary: c)
  case Nil
  then show ?case by simp
next
  case (Cons x xs)
  then show ?case
    by (fastforce split: if_splits)
qed

lemma cached_iff:
  assumes "inj_on (\<lambda>s. block_no (slots st s)) (set (lru st))"
  shows "cached st b = Some s \<longleftrightarrow> s \<in> set (lru st) \<and> block_no (slots st s) = b"
proof
  assume "cached st b = Some s"
  then show "s \<in> set (lru st) \<and> block_no (slots st s) = b"
    by (auto simp: cached_def find_Some_iff dest: nth_mem)
next
  assume a: "s \<in> set (lru st) \<and> block_no (slots st s) = b"
  then have "cached st b \<noteq> None" by (auto simp: cached_def find_None_iff)
  then obtain t where t: "cached st b = Some t" by auto
  then have "t \<in> set (lru st)" "block_no (slots st t) = b"
    by (auto simp: cached_def find_Some_iff dest: nth_mem)
  then have "t = s" using a assms by (auto dest: inj_onD)
  with t show "cached st b = Some s" by simp
qed

lemma cached_None: "cached st b = None \<longleftrightarrow> (\<forall>s\<in>set (lru st). block_no (slots st s) \<noteq> b)"
  by (auto simp: cached_def find_None_iff)

lemma view_slot:
  "\<lbrakk>bc_wf st; s \<in> set (lru st); block_no (slots st s) = b\<rbrakk> \<Longrightarrow>
    view st b = (if valid (slots st s) then data (slots st s) else disk (dev st) b)"
  using cached_iff [of st b s] by (simp add: view_def bc_wf_def)

lemma view_uncached: "(\<forall>s\<in>set (lru st). block_no (slots st s) \<noteq> b) \<Longrightarrow> view st b = disk (dev st) b"
  using cached_None [of st b] by (simp add: view_def)

lemma bc_wf_view_length: "bc_wf st \<Longrightarrow> length (view st b) = BLOCK_SIZE"
proof -
  assume wf: "bc_wf st"
  show ?thesis
  proof (cases "cached st b")
    case None
    then show ?thesis using wf by (simp add: view_def bc_wf_def)
  next
    case (Some s)
    then have "s \<in> set (lru st)" using wf cached_iff [of st b s] by (simp add: bc_wf_def)
    then have "slot_wf (slots st s)" using wf by (simp add: bc_wf_def)
    then show ?thesis using wf Some by (simp add: view_def bc_wf_def slot_wf_def)
  qed
qed

lemma held_slot_unique:
  "\<lbrakk>bc_wf st; s \<in> set (lru st); block_no (slots st s) \<in> held st\<rbrakk> \<Longrightarrow> acquired (slots st s)"
  by (auto simp: held_def bc_wf_def dest: inj_onD)

section \<open>Acquiring a block\<close>

text \<open>\<open>choose_slot\<close> either finds the block's own slot or prepares an empty one, evicting at most an
  idle, unpinned block.\<close>

lemma choose_slot_ok:
  assumes "bc_wf st" "room st > 0"
  shows "\<exists>s x n r. choose_slot b st = Inr (s, st\<lparr>slots := (slots st)(s := x), nslots := n, room := r\<rparr>) \<and>
    s < n \<and> nslots st \<le> n \<and> room st \<le> Suc r \<and> block_no x = b \<and>
    (s \<in> set (lru st) \<and> x = slots st s \<or>
     (\<forall>t\<in>set (lru st). block_no (slots st t) \<noteq> b) \<and> \<not> valid x \<and> \<not> pinned x \<and> \<not> acquired x \<and>
     free_lock (slock (block_lock x)) \<and> \<not> slocked (block_lock x) \<and>
     (s \<in> set (lru st) \<longrightarrow> \<not> acquired (slots st s) \<and> \<not> pinned (slots st s)))"
proof (cases "\<exists>s\<in>set (lru st). block_no (slots st s) = b")
  case True
  then obtain s where s: "s \<in> set (lru st)" "block_no (slots st s) = b" by blast
  then have "find_slot (slots st) b (lru st) None = Some s"
    using assms(1) by (intro find_slot_hit) (simp_all add: bc_wf_def)
  then have "choose_slot b st = Inr (s, st)" using s by (simp add: choose_slot_def)
  moreover have "st\<lparr>slots := (slots st)(s := slots st s), nslots := nslots st, room := room st\<rparr> = st"
    by simp
  ultimately show ?thesis using s assms
    by (intro exI [of _ s] exI [of _ "slots st s"] exI [of _ "nslots st"] exI [of _ "room st"])
       (simp add: bc_wf_def)
next
  case False
  then have miss: "\<forall>s\<in>set (lru st). block_no (slots st s) \<noteq> b" by blast
  show ?thesis
  proof (cases "\<exists>s. find_slot (slots st) b (lru st) None = Some s \<and> length (lru st) \<ge> 20")
    case True
    then obtain s where f: "find_slot (slots st) b (lru st) None = Some s" and l: "length (lru st) \<ge> 20"
      by blast
    with find_slot_miss [OF miss f] have s: "s \<in> set (lru st)" "\<not> acquired (slots st s)" "\<not> pinned (slots st s)"
      by auto
    let ?x = "(slots st s)\<lparr>block_no := b, valid := False\<rparr>"
    have "choose_slot b st = Inr (s, st\<lparr>slots := (slots st)(s := ?x), nslots := nslots st, room := room st\<rparr>)"
      using f l s miss by (simp add: choose_slot_def upd_slot_def)
    moreover have "slot_wf (slots st s)" "s < nslots st" using assms(1) s by (simp_all add: bc_wf_def)
    ultimately show ?thesis using s miss
      by (intro exI [of _ s] exI [of _ ?x] exI [of _ "nslots st"] exI [of _ "room st"])
         (simp add: slot_wf_def)
  next
    case no: False
    let ?s = "nslots st"
    let ?x = "(init_block (slots st ?s))\<lparr>block_no := b\<rparr>"
    have "choose_slot b st =
        Inr (?s, st\<lparr>slots := (slots st)(?s := ?x), nslots := Suc ?s, room := room st - 1\<rparr>)"
    proof (cases "find_slot (slots st) b (lru st) None")
      case None
      then show ?thesis using assms(2)
        by (simp add: choose_slot_def alloc_block_def upd_slot_def Let_def)
    next
      case (Some s)
      with no have "length (lru st) < 20" by auto
      moreover have "block_no (slots st s) \<noteq> b" using find_slot_miss [OF miss Some] miss by auto
      ultimately show ?thesis using Some assms(2)
        by (simp add: choose_slot_def alloc_block_def upd_slot_def Let_def)
    qed
    moreover have "?s \<notin> set (lru st)" using assms(1) by (auto simp: bc_wf_def)
    ultimately show ?thesis using miss assms(2)
      by (intro exI [of _ ?s] exI [of _ ?x] exI [of _ "Suc ?s"] exI [of _ "room st - 1"])
         (simp add: init_block_def init_sleeplock_def init_spinlock_def)
  qed
qed

text \<open>What \<open>cache_acquire\<close> returns and does, for a block nobody holds.\<close>

definition acquired_as :: "bcache \<Rightarrow> nat \<Rightarrow> nat \<Rightarrow> bcache \<Rightarrow> bool" where
  "acquired_as st b s st' \<longleftrightarrow> b \<noteq> sb_log_start (sblock st) \<and>
     (\<exists>y n r. st' = st\<lparr>slots := (slots st)(s := y), lru := s # removeAll s (lru st), nslots := n, room := r\<rparr> \<and>
        s < n \<and> nslots st \<le> n \<and> room st \<le> Suc r \<and> block_no y = b \<and> slot_wf y \<and> acquired y \<and> valid y \<and>
        data y = view st b \<and>
        (s \<in> set (lru st) \<and> block_no (slots st s) = b \<and> pinned y = pinned (slots st s) \<or>
         (\<forall>t\<in>set (lru st). block_no (slots st t) \<noteq> b) \<and> \<not> pinned y \<and>
         (s \<in> set (lru st) \<longrightarrow> \<not> acquired (slots st s) \<and> \<not> pinned (slots st s))))"

lemma cache_acquire_ok:
  assumes inv: "bc_wf st" and nh: "b \<notin> held st" and room: "room st > 0"
    and nhd: "b \<noteq> sb_log_start (sblock st)"
  shows "\<exists>s st'. cache_acquire me b st = Inr (s, st') \<and> acquired_as st b s st'"
proof -
  let ?st0 = "st\<lparr>cache_lock := taken me (cache_lock st)\<rparr>"
  have lk: "free_lock (cache_lock st)" using inv by (simp add: bc_wf_def)
  have choose: "choose_slot b ?st0 = bnd (choose_slot b st)
      (\<lambda>(s, t). Inr (s, t\<lparr>cache_lock := taken me (cache_lock st)\<rparr>))"
    by (simp add: choose_slot_def alloc_block_def upd_slot_def Let_def split: option.split)
  obtain s x n r where c: "choose_slot b st = Inr (s, st\<lparr>slots := (slots st)(s := x), nslots := n, room := r\<rparr>)"
    and n: "s < n" "nslots st \<le> n" "room st \<le> Suc r" and x: "block_no x = b"
    and cs: "s \<in> set (lru st) \<and> x = slots st s \<or>
     (\<forall>t\<in>set (lru st). block_no (slots st t) \<noteq> b) \<and> \<not> valid x \<and> \<not> pinned x \<and> \<not> acquired x \<and>
     free_lock (slock (block_lock x)) \<and> \<not> slocked (block_lock x) \<and>
     (s \<in> set (lru st) \<longrightarrow> \<not> acquired (slots st s) \<and> \<not> pinned (slots st s))"
    using choose_slot_ok [OF inv room, of b] by blast
  have free: "free_lock (slock (block_lock x))" and nsl: "\<not> slocked (block_lock x)"
  proof -
    have "slot_wf x" "\<not> acquired x" if "s \<in> set (lru st)" "x = slots st s"
      using inv that nh x by (auto simp: bc_wf_def held_def)
    then show "free_lock (slock (block_lock x))" "\<not> slocked (block_lock x)"
      using cs by (auto simp: slot_wf_def)
  qed
  define y where "y = x\<lparr>acquired := True, block_lock := (block_lock x)\<lparr>slocked := True\<rparr>,
    data := (if valid x then data x else disk (dev st) b), valid := True\<rparr>"
  let ?st' = "st\<lparr>slots := (slots st)(s := y), lru := s # removeAll s (lru st), nslots := n, room := r\<rparr>"
  have run: "cache_acquire me b st = Inr (s, ?st')"
  proof (cases "valid x")
    case True
    have "y = x\<lparr>acquired := True, block_lock := (block_lock x)\<lparr>slocked := True\<rparr>\<rparr>"
      using True by (auto simp: y_def intro: Block.equality)
    with True show ?thesis using lk free nsl x
      by (simp add: cache_acquire_def choose c upd_slot_def acquire_sleeplock_free Let_def)
  next
    case False
    with lk free nsl x show ?thesis
      by (simp add: cache_acquire_def choose c upd_slot_def device_read_def dev_read_def
          acquire_sleeplock_free Let_def y_def)
  qed
  have v: "data y = view st b"
  proof (cases "s \<in> set (lru st) \<and> x = slots st s")
    case True
    then show ?thesis using view_slot [OF inv, of s b] x by (simp add: y_def)
  next
    case False
    with cs have "\<forall>t\<in>set (lru st). block_no (slots st t) \<noteq> b" "\<not> valid x" by blast+
    then show ?thesis using view_uncached [of st b] by (simp add: y_def)
  qed
  have "slot_wf y" using free v bc_wf_view_length [OF inv, of b]
    by (simp add: slot_wf_def y_def)
  then have "acquired_as st b s ?st'" unfolding acquired_as_def
    using n x cs v nhd
    by (intro conjI exI [of _ y] exI [of _ n] exI [of _ r]) (auto simp: y_def)
  then show ?thesis using run by blast
qed

lemma acquired_as_facts:
  assumes "bc_wf st" "acquired_as st b s st'"
  shows "cache_only st st'" "s \<in> set (lru st')" "block_no (slots st' s) = b" "data (slots st' s) = view st b"
    "acquired (slots st' s)" "valid (slots st' s)" "room st \<le> Suc (room st')"
proof -
  show "cache_only st st'" using assms(2) unfolding acquired_as_def cache_only_def by blast
qed (use assms(2) in \<open>auto simp: acquired_as_def\<close>)

lemma acquired_as_wf:
  assumes wf: "bc_wf st" and a: "acquired_as st b s st'"
  shows "bc_wf st'"
proof -
  from a obtain y n r where st': "st' = st\<lparr>slots := (slots st)(s := y), lru := s # removeAll s (lru st), nslots := n, room := r\<rparr>"
    and y: "s < n" "nslots st \<le> n" "block_no y = b" "slot_wf y"
    and nhd: "b \<noteq> sb_log_start (sblock st)"
    and cs: "s \<in> set (lru st) \<and> block_no (slots st s) = b \<or> (\<forall>t\<in>set (lru st). block_no (slots st t) \<noteq> b)"
    unfolding acquired_as_def by blast
  have inj: "inj_on (\<lambda>t. block_no (slots st t)) (set (lru st))" using wf by (simp add: bc_wf_def)
  have other: "block_no (slots st t) \<noteq> b" if "t \<in> set (lru st)" "t \<noteq> s" for t
    using cs that inj by (auto dest: inj_onD)
  have "inj_on (\<lambda>t. block_no (slots st' t)) (set (lru st'))"
    using inj other y(3) unfolding st' inj_on_def by simp metis
  moreover have "\<forall>t\<in>set (lru st'). slot_wf (slots st' t)" using wf y(4) by (auto simp: st' bc_wf_def)
  moreover have "\<forall>t\<in>set (lru st'). t < nslots st'" using wf y(1,2) by (force simp: st' bc_wf_def)
  moreover have "\<forall>t\<in>set (lru st'). block_no (slots st' t) \<noteq> sb_log_start (sblock st')"
    using wf y(3) nhd by (simp add: st' bc_wf_def)
  ultimately show ?thesis using wf by (simp add: bc_wf_def st' distinct_removeAll)
qed

lemma acquired_as_view:
  assumes wf: "bc_wf st" and inv: "\<forall>t\<in>set (lru st). \<not> acquired (slots st t) \<longrightarrow> clean st t"
    and a: "acquired_as st b s st'"
  shows "view st' c = view st c"
proof -
  have wf': "bc_wf st'" by (rule acquired_as_wf [OF wf a])
  note f = acquired_as_facts [OF wf a]
  from a obtain y n r where st': "st' = st\<lparr>slots := (slots st)(s := y), lru := s # removeAll s (lru st), nslots := n, room := r\<rparr>"
    and y: "block_no y = b" "valid y" "data y = view st b"
    and cs: "s \<in> set (lru st) \<and> block_no (slots st s) = b \<or>
      (\<forall>t\<in>set (lru st). block_no (slots st t) \<noteq> b) \<and> (s \<in> set (lru st) \<longrightarrow> \<not> acquired (slots st s) \<and> \<not> pinned (slots st s))"
    unfolding acquired_as_def by blast
  show ?thesis
  proof (cases "c = b")
    case True
    then show ?thesis using view_slot [OF wf' f(2,3)] f(4,6) by simp
  next
    case cb: False
    show ?thesis
    proof (cases "\<exists>t\<in>set (lru st). block_no (slots st t) = c \<and> t \<noteq> s")
      case True
      then obtain t where t: "t \<in> set (lru st)" "block_no (slots st t) = c" "t \<noteq> s" by blast
      then show ?thesis using view_slot [OF wf t(1,2)] view_slot [OF wf', of t c] by (simp add: st')
    next
      case False
      then have "view st' c = disk (dev st) c"
        using view_uncached [of st' c] cb y(1) unfolding st' by simp metis
      moreover have "view st c = disk (dev st) c"
      proof (cases "s \<in> set (lru st) \<and> block_no (slots st s) = c")
        case True
        then have "\<not> acquired (slots st s)" "\<not> pinned (slots st s)" using cs cb by auto
        then show ?thesis using True view_slot [OF wf, of s c] inv by (auto simp: clean_def)
      next
        case False
        then show ?thesis using \<open>\<not> (\<exists>t\<in>set (lru st). _ t \<and> _ t)\<close> view_uncached [of st c] by auto
      qed
      ultimately show ?thesis by simp
    qed
  qed
qed

lemma acquired_as_held:
  assumes wf: "bc_wf st" and a: "acquired_as st b s st'"
  shows "held st' = insert b (held st)"
proof -
  from a obtain y n r where st': "st' = st\<lparr>slots := (slots st)(s := y), lru := s # removeAll s (lru st), nslots := n, room := r\<rparr>"
    and y: "block_no y = b" "acquired y"
    and cs: "s \<in> set (lru st) \<and> block_no (slots st s) = b \<or> (s \<in> set (lru st) \<longrightarrow> \<not> acquired (slots st s))"
    unfolding acquired_as_def by blast
  have "c \<in> held st' \<longleftrightarrow> c = b \<or> c \<in> held st" for c
    using y cs unfolding held_def st' by (simp) metis
  then show ?thesis by blast
qed

lemma acquired_as_pins:
  assumes wf: "bc_wf st" and a: "acquired_as st b s st'"
  shows "pins st' = pins st"
proof -
  from a obtain y n r where st': "st' = st\<lparr>slots := (slots st)(s := y), lru := s # removeAll s (lru st), nslots := n, room := r\<rparr>"
    and y: "block_no y = b"
    and cs: "s \<in> set (lru st) \<and> block_no (slots st s) = b \<and> pinned y = pinned (slots st s) \<or>
      \<not> pinned y \<and> (s \<in> set (lru st) \<longrightarrow> \<not> pinned (slots st s))"
    unfolding acquired_as_def by blast
  have "c \<in> pins st' \<longleftrightarrow> c \<in> pins st" for c
    using y cs unfolding pins_def st' by (simp) metis
  then show ?thesis by blast
qed

text \<open>Blocks somebody holds are neither evicted nor touched.\<close>

lemma acquired_as_other:
  assumes "acquired_as st b s st'" "b \<notin> held st" "t \<in> set (lru st)" "acquired (slots st t)"
  shows "t \<noteq> s" "t \<in> set (lru st')" "slots st' t = slots st t"
proof -
  show "t \<noteq> s" using assms by (auto simp: acquired_as_def held_def)
  then show "t \<in> set (lru st')" "slots st' t = slots st t"
    using assms by (auto simp: acquired_as_def)
qed

lemma acquired_as_clean:
  assumes inv: "bc_inv st" and a: "acquired_as st b s st'"
  shows "\<forall>t\<in>set (lru st'). \<not> acquired (slots st' t) \<longrightarrow> clean st' t"
proof (intro ballI impI)
  fix t assume t: "t \<in> set (lru st')" "\<not> acquired (slots st' t)"
  from a obtain y n r where st': "st' = st\<lparr>slots := (slots st)(s := y), lru := s # removeAll s (lru st), nslots := n, room := r\<rparr>"
    and y: "acquired y"
    unfolding acquired_as_def by blast
  then have "t \<noteq> s" using t by auto
  then have "t \<in> set (lru st)" "clean st t" using t inv by (auto simp: st' bc_inv_def)
  then show "clean st' t" using \<open>t \<noteq> s\<close> by (simp add: clean_def st')
qed

lemma acquired_as_inv: "\<lbrakk>bc_inv st; acquired_as st b s st'\<rbrakk> \<Longrightarrow> bc_inv st'"
  using acquired_as_wf [of st b s st'] acquired_as_clean [of st b s st'] by (simp add: bc_inv_def)

lemma acquired_as_own_clean:
  assumes inv: "bc_inv st" and a: "acquired_as st b s st'" and nh: "b \<notin> held st"
  shows "clean st' s"
proof -
  from a obtain y n r where st': "st' = st\<lparr>slots := (slots st)(s := y), lru := s # removeAll s (lru st), nslots := n, room := r\<rparr>"
    and y: "block_no y = b" "data y = view st b"
    and cs: "s \<in> set (lru st) \<and> block_no (slots st s) = b \<and> pinned y = pinned (slots st s) \<or>
      (\<forall>t\<in>set (lru st). block_no (slots st t) \<noteq> b)"
    unfolding acquired_as_def by blast
  have wf: "bc_wf st" using inv by (simp add: bc_inv_def)
  from cs show ?thesis
  proof
    assume h: "s \<in> set (lru st) \<and> block_no (slots st s) = b \<and> pinned y = pinned (slots st s)"
    then have "\<not> acquired (slots st s)" using nh by (auto simp: held_def)
    then have "clean st s" using inv h by (simp add: bc_inv_def)
    then show ?thesis using h y view_slot [OF wf, of s b] by (auto simp: clean_def st')
  next
    assume "\<forall>t\<in>set (lru st). block_no (slots st t) \<noteq> b"
    then show ?thesis using y view_uncached [of st b] by (simp add: clean_def st')
  qed
qed

section \<open>Changing one cached block\<close>

text \<open>An update of one slot that keeps its block number and well-formedness.\<close>

lemma upd_slot_simps [simp]:
  "slots (upd_slot s f st) = (slots st)(s := f (slots st s))" "lru (upd_slot s f st) = lru st"
  "dev (upd_slot s f st) = dev st" "cache_lock (upd_slot s f st) = cache_lock st"
  "nslots (upd_slot s f st) = nslots st" "room (upd_slot s f st) = room st"
  "header (upd_slot s f st) = header st" "sblock (upd_slot s f st) = sblock st"
  "log_start (upd_slot s f st) = log_start st" "log_size (upd_slot s f st) = log_size st"
  "log_used (upd_slot s f st) = log_used st" "op_count (upd_slot s f st) = op_count st"
  "last_allocated_ts (upd_slot s f st) = last_allocated_ts st"
  "last_persisted_ts (upd_slot s f st) = last_persisted_ts st"
  "used_block (upd_slot s f st) = used_block st"
  "ctxs (upd_slot s f st) = ctxs st" "woken (upd_slot s f st) = woken st"
  by (simp_all add: upd_slot_def)

lemma cache_only_upd_slot [simp]: "cache_only st (upd_slot s f st)"
proof -
  have "upd_slot s f st = st\<lparr>slots := (slots st)(s := f (slots st s)), lru := lru st, nslots := nslots st, room := room st\<rparr>"
    by (simp add: upd_slot_def)
  then show ?thesis unfolding cache_only_def by blast
qed

lemma upd_slot_wf:
  assumes "bc_wf st" "block_no (f (slots st s)) = block_no (slots st s)" "s \<in> set (lru st) \<Longrightarrow> slot_wf (f (slots st s))"
  shows "bc_wf (upd_slot s f st)"
proof -
  have "(\<lambda>t. block_no (slots (upd_slot s f st) t)) = (\<lambda>t. block_no (slots st t))"
    using assms(2) by auto
  moreover have "\<forall>t\<in>set (lru st). block_no (slots (upd_slot s f st) t) \<noteq> sb_log_start (sblock st)"
    using assms(1,2) by (simp add: bc_wf_def)
  ultimately show ?thesis using assms by (simp add: bc_wf_def)
qed

lemma upd_slot_view:
  assumes "bc_wf st" "s \<in> set (lru st)" "block_no (f (slots st s)) = block_no (slots st s)"
    "slot_wf (f (slots st s))" "valid (f (slots st s))"
  shows "view (upd_slot s f st) = (view st)(block_no (slots st s) := data (f (slots st s)))"
proof
  fix c
  let ?st = "upd_slot s f st"
  have wf': "bc_wf ?st" using assms by (intro upd_slot_wf) simp_all
  show "view ?st c = ((view st)(block_no (slots st s) := data (f (slots st s)))) c"
  proof (cases "\<exists>t\<in>set (lru st). block_no (slots st t) = c")
    case True
    then obtain t where t: "t \<in> set (lru st)" "block_no (slots st t) = c" by blast
    have "block_no (slots st s) = c \<longleftrightarrow> t = s" using t assms(1,2) by (auto simp: bc_wf_def dest: inj_onD)
    then show ?thesis using t assms view_slot [OF assms(1) t] view_slot [OF wf', of t c] by auto
  next
    case False
    then have "view ?st c = disk (dev ?st) c" using assms(3) by (intro view_uncached) auto
    moreover have "view st c = disk (dev st) c" using False by (intro view_uncached) auto
    ultimately show ?thesis using False assms(2) by auto
  qed
qed

lemma upd_slot_view_same:
  assumes "bc_wf st" "s \<in> set (lru st)" "block_no (f (slots st s)) = block_no (slots st s)"
    "slot_wf (f (slots st s))" "valid (slots st s)" "valid (f (slots st s))" "data (f (slots st s)) = data (slots st s)"
  shows "view (upd_slot s f st) = view st"
  using upd_slot_view [of st s f, OF assms(1-4,6)] view_slot [OF assms(1,2) refl] assms(5,7)
  by (simp add: fun_upd_idem)

lemma upd_slot_sets:
  assumes "bc_wf st" "s \<in> set (lru st)" "block_no (f (slots st s)) = block_no (slots st s)"
  shows "held (upd_slot s f st) = (if acquired (f (slots st s)) then insert (block_no (slots st s)) (held st)
      else held st - {block_no (slots st s)})"
    and "pins (upd_slot s f st) = (if pinned (f (slots st s)) then insert (block_no (slots st s)) (pins st)
      else pins st - {block_no (slots st s)})"
proof -
  have inj: "\<And>t. t \<in> set (lru st) \<Longrightarrow> block_no (slots st t) = block_no (slots st s) \<Longrightarrow> t = s"
    using assms(1,2) by (auto simp: bc_wf_def dest: inj_onD)
  have "c \<in> held (upd_slot s f st) \<longleftrightarrow> c \<in> (if acquired (f (slots st s)) then insert (block_no (slots st s)) (held st)
      else held st - {block_no (slots st s)})" for c
    using assms(2,3) inj unfolding held_def by (simp) metis
  then show "held (upd_slot s f st) = (if acquired (f (slots st s)) then insert (block_no (slots st s)) (held st)
      else held st - {block_no (slots st s)})" by blast
  have "c \<in> pins (upd_slot s f st) \<longleftrightarrow> c \<in> (if pinned (f (slots st s)) then insert (block_no (slots st s)) (pins st)
      else pins st - {block_no (slots st s)})" for c
    using assms(2,3) inj unfolding pins_def by (simp) metis
  then show "pins (upd_slot s f st) = (if pinned (f (slots st s)) then insert (block_no (slots st s)) (pins st)
      else pins st - {block_no (slots st s)})" by blast
qed

section \<open>Releasing a block\<close>

abbreviation released :: "Block \<Rightarrow> Block" where
  "released x \<equiv> x\<lparr>block_lock := (block_lock x)\<lparr>slocked := False, wakeups := Suc (wakeups (block_lock x))\<rparr>, acquired := False\<rparr>"

lemma cache_release_ok:
  assumes "bc_wf st" "s \<in> set (lru st)"
  shows "cache_release me s st = Inr (upd_slot s released st)"
proof -
  have "free_lock (slock (block_lock (slots st s)))" "free_lock (cache_lock st)"
    using assms by (simp_all add: bc_wf_def slot_wf_def)
  then show ?thesis
    by (simp add: cache_release_def release_sleeplock_free upd_slot_def Let_def)
qed

lemma slot_wf_released: "slot_wf x \<Longrightarrow> slot_wf (released x)"
  by (auto simp: slot_wf_def)

lemma cache_release_effect:
  assumes "bc_inv st" "s \<in> set (lru st)" "acquired (slots st s)" "clean st s"
    and st': "st' = upd_slot s released st"
  shows "bc_inv st'" "view st' = view st" "held st' = held st - {block_no (slots st s)}" "pins st' = pins st"
proof -
  have wf: "bc_wf st" and c: "\<forall>t\<in>set (lru st). \<not> acquired (slots st t) \<longrightarrow> clean st t"
    using assms(1) by (simp_all add: bc_inv_def)
  have sw: "slot_wf (slots st s)" using wf assms(2) by (simp add: bc_wf_def)
  have sw': "slot_wf (released (slots st s))" using sw by (rule slot_wf_released)
  have v: "valid (slots st s)" using sw assms(3) by (simp add: slot_wf_def)
  have "bc_wf st'" unfolding st' by (rule upd_slot_wf [OF wf]) (simp_all add: sw')
  moreover have "\<forall>t\<in>set (lru st'). \<not> acquired (slots st' t) \<longrightarrow> clean st' t"
  proof (intro ballI impI)
    fix t assume t: "t \<in> set (lru st')" "\<not> acquired (slots st' t)"
    then show "clean st' t" using c assms(4) by (cases "t = s") (simp_all add: st' clean_def)
  qed
  ultimately show "bc_inv st'" by (simp add: bc_inv_def)
  show "view st' = view st" unfolding st'
    by (rule upd_slot_view_same [OF wf assms(2)]) (simp_all add: sw' v)
  show "held st' = held st - {block_no (slots st s)}"
    using upd_slot_sets(1) [OF wf assms(2), of released] by (simp add: st')
  have "pinned (slots st s) \<Longrightarrow> block_no (slots st s) \<in> pins st" using assms(2) by (auto simp: pins_def)
  moreover have "\<not> pinned (slots st s) \<Longrightarrow> block_no (slots st s) \<notin> pins st"
    using assms(2) wf by (auto simp: pins_def bc_wf_def dest: inj_onD)
  ultimately show "pins st' = pins st"
    using upd_slot_sets(2) [OF wf assms(2), of released] by (auto simp: st')
qed

end
