(* ===== verification/CacheLog.thy ===== *)
theory CacheLog
  imports CacheInv
begin

text \<open>
  The redo log of \<open>fs/cache.c\<close>: the exact sequence of block writes of \<open>checkpoint\<close> and \<open>replay\<close>, and
  crash recovery.  \<open>logrun st ws P k st'\<close> summarises a piece of the log code: it leaves the device having
  done the writes \<open>ws\<close>, the view updated by the same writes, the blocks \<open>P\<close> unpinned, no block held,
  and needs at most \<open>k\<close> new \<open>Block\<close> structures.
\<close>

definition dev_writes :: "BlockDevice \<Rightarrow> (nat \<times> bytes) list \<Rightarrow> BlockDevice" where
  "dev_writes d ws = foldl (\<lambda>d (b, x). dev_write b x d) d ws"

lemma dev_writes_simps [simp]:
  "dev_writes d [] = d"
  "dev_writes d ((b, x) # ws) = dev_writes (dev_write b x d) ws"
  "dev_writes d (ws @ vs) = dev_writes (dev_writes d ws) vs"
  by (simp_all add: dev_writes_def)

lemma dev_writes_fields:
  "disk (dev_writes d ws) = apply_writes (disk d) ws" "wtrace (dev_writes d ws) = wtrace d @ ws"
  by (induction ws arbitrary: d) (auto simp: dev_write_def)

definition logrun :: "bcache \<Rightarrow> (nat \<times> bytes) list \<Rightarrow> nat set \<Rightarrow> nat \<Rightarrow> bcache \<Rightarrow> bool" where
  "logrun st ws P k st' \<longleftrightarrow> bc_inv st' \<and> held st' = {} \<and> dev st' = dev_writes (dev st) ws \<and>
     cache_only (st\<lparr>dev := dev st'\<rparr>) st' \<and> view st' = apply_writes (view st) ws \<and>
     pins st' = pins st - P \<and> room st \<le> room st' + k"

lemma logrun_refl: "\<lbrakk>bc_inv st; held st = {}\<rbrakk> \<Longrightarrow> logrun st [] {} 0 st"
  by (simp add: logrun_def)

lemma cache_only_dev:
  "\<lbrakk>cache_only (st\<lparr>dev := d1\<rparr>) st1; cache_only (st1\<lparr>dev := d2\<rparr>) st2\<rbrakk> \<Longrightarrow> cache_only (st\<lparr>dev := d2\<rparr>) st2"
  by (auto simp: cache_only_def) blast

lemma cache_only_dev_upd: "cache_only st st' \<Longrightarrow> cache_only (st\<lparr>dev := d\<rparr>) (st'\<lparr>dev := d\<rparr>)"
  by (cases st; cases st') (auto simp: cache_only_def)

lemma logrun_trans:
  assumes "logrun st ws P k st1" "logrun st1 vs Q l st2"
  shows "logrun st (ws @ vs) (P \<union> Q) (k + l) st2"
  using assms cache_only_dev [of "dev st1" st st1 "dev st2" st2] by (auto simp: logrun_def)

lemma logrun_fields:
  assumes "logrun st ws P k st'"
  shows "header st' = header st" "log_start st' = log_start st" "sblock st' = sblock st"
    "bc_inv st'" "held st' = {}" "view st' = apply_writes (view st) ws" "dev st' = dev_writes (dev st) ws"
    "room st \<le> room st' + k" "pins st' = pins st - P" "ctxs st' = ctxs st"
    "log_size st' = log_size st" "log_used st' = log_used st" "op_count st' = op_count st"
    "last_allocated_ts st' = last_allocated_ts st" "last_persisted_ts st' = last_persisted_ts st"
    "woken st' = woken st" "used_block st' = used_block st"
  using assms cache_onlyD [of "st\<lparr>dev := dev st'\<rparr>" st'] by (auto simp: logrun_def)

section \<open>Writing a cached block to the device\<close>

lemma device_write_simps [simp]:
  "slots (device_write s st) = slots st" "lru (device_write s st) = lru st"
  "cache_lock (device_write s st) = cache_lock st" "sblock (device_write s st) = sblock st"
  "room (device_write s st) = room st" "nslots (device_write s st) = nslots st"
  "held (device_write s st) = held st" "pins (device_write s st) = pins st"
  "dev (device_write s st) = dev_write (block_no (slots st s)) (data (slots st s)) (dev st)"
  by (simp_all add: device_write_def held_def pins_def)

lemma device_write_effect:
  assumes "bc_wf st" "s \<in> set (lru st)" "valid (slots st s)"
  shows "bc_wf (device_write s st)" "view (device_write s st) = view st" "clean (device_write s st) s"
    "\<lbrakk>t \<in> set (lru st); t \<noteq> s\<rbrakk> \<Longrightarrow> clean (device_write s st) t = clean st t"
proof -
  let ?st = "device_write s st"
  have len: "length (data (slots st s)) = 512" using assms by (simp add: bc_wf_def slot_wf_def)
  show wf: "bc_wf ?st" using assms(1) len by (simp add: bc_wf_def dev_write_def)
  show "view ?st = view st"
  proof
    fix c
    show "view ?st c = view st c"
    proof (cases "\<exists>t\<in>set (lru st). block_no (slots st t) = c")
      case True
      then obtain t where t: "t \<in> set (lru st)" "block_no (slots st t) = c" by blast
      have "valid (slots st t) \<or> c \<noteq> block_no (slots st s)"
        using t assms by (auto simp: bc_wf_def dest: inj_onD)
      then show ?thesis using view_slot [OF assms(1) t] view_slot [OF wf, of t c] t
        by (auto simp: dev_write_def)
    next
      case False
      then have "c \<noteq> block_no (slots st s)" using assms(2) by auto
      then show ?thesis using False view_uncached [of st c] view_uncached [of ?st c]
        by (simp add: dev_write_def)
    qed
  qed
  show "clean ?st s" by (simp add: clean_def dev_write_def)
  assume t: "t \<in> set (lru st)" "t \<noteq> s"
  then have "block_no (slots st t) \<noteq> block_no (slots st s)"
    using assms by (auto simp: bc_wf_def dest: inj_onD)
  then show "clean ?st t = clean st t" by (simp add: clean_def dev_write_def)
qed

lemma device_write_inv:
  assumes "bc_inv st" "s \<in> set (lru st)" "valid (slots st s)"
  shows "bc_inv (device_write s st)"
  unfolding bc_inv_def
proof (intro conjI ballI impI)
  have wf: "bc_wf st" using assms(1) by (simp add: bc_inv_def)
  show "bc_wf (device_write s st)" by (rule device_write_effect(1) [OF wf assms(2,3)])
  fix t assume "t \<in> set (lru (device_write s st))" "\<not> acquired (slots (device_write s st) t)"
  then show "clean (device_write s st) t"
    using assms device_write_effect(3,4) [OF wf assms(2,3)] by (cases "t = s") (auto simp: bc_inv_def)
qed

section \<open>One copy between the log and a home block\<close>

text \<open>The common part of the two loops: acquire source and destination, copy, release the source.\<close>

definition copied :: "bcache \<Rightarrow> nat \<Rightarrow> nat \<Rightarrow> nat \<Rightarrow> bcache \<Rightarrow> bool" where
  "copied st a b dest st' \<longleftrightarrow> bc_inv st' \<and> held st' = {b} \<and> cache_only st st' \<and>
     view st' = (view st)(b := view st a) \<and> pins st' = pins st \<and> room st \<le> room st' + 2 \<and>
     dest \<in> set (lru st') \<and> block_no (slots st' dest) = b \<and> acquired (slots st' dest) \<and>
     valid (slots st' dest) \<and> data (slots st' dest) = view st a"

lemma upd_data_inv:
  assumes "bc_inv st" "s \<in> set (lru st)" "acquired (slots st s)" "length d = 512"
  shows "bc_inv (upd_slot s (\<lambda>x. x\<lparr>data := d\<rparr>) st)"
    "view (upd_slot s (\<lambda>x. x\<lparr>data := d\<rparr>) st) = (view st)(block_no (slots st s) := d)"
    "held (upd_slot s (\<lambda>x. x\<lparr>data := d\<rparr>) st) = held st"
    "pins (upd_slot s (\<lambda>x. x\<lparr>data := d\<rparr>) st) = pins st"
proof -
  let ?f = "\<lambda>x. x\<lparr>data := d\<rparr>"
  have wf: "bc_wf st" using assms(1) by (simp add: bc_inv_def)
  have sw: "slot_wf (slots st s)" using wf assms(2) by (simp add: bc_wf_def)
  then have sw': "slot_wf (?f (slots st s))" using assms(4) by (simp add: slot_wf_def)
  have v: "valid (slots st s)" using sw assms(3) by (simp add: slot_wf_def)
  have "bc_wf (upd_slot s ?f st)" by (rule upd_slot_wf [OF wf]) (use sw' in simp_all)
  moreover have "clean (upd_slot s ?f st) t" if "t \<in> set (lru st)" "\<not> acquired (slots (upd_slot s ?f st) t)" for t
    using that assms(1,3) by (cases "t = s") (auto simp: bc_inv_def clean_def)
  ultimately show "bc_inv (upd_slot s ?f st)" by (simp add: bc_inv_def)
  show "view (upd_slot s ?f st) = (view st)(block_no (slots st s) := d)"
    using upd_slot_view [OF wf assms(2), of ?f] sw' v by simp
  show "held (upd_slot s ?f st) = held st" by (simp add: held_def cong: conj_cong) metis
  show "pins (upd_slot s ?f st) = pins st" by (simp add: pins_def cong: conj_cong) metis
qed

lemma clean_unpinned_irrelevant: "pinned (slots st s) \<Longrightarrow> clean st s"
  by (simp add: clean_def)

lemma copy_block:
  assumes inv: "bc_inv st" and h: "held st = {}" and ab: "a \<noteq> b" and room: "room st \<ge> 2"
    and nl: "a \<noteq> sb_log_start (sblock st)" "b \<noteq> sb_log_start (sblock st)"
  obtains src st1 dest st2 where
    "cache_acquire me a st = Inr (src, st1)" "cache_acquire me b st1 = Inr (dest, st2)"
    "header st1 = header st" "log_start st1 = log_start st"
    "cache_release me src (upd_slot dest (\<lambda>x. x\<lparr>data := data (slots st2 src)\<rparr>) st2) =
       Inr (upd_slot src released (upd_slot dest (\<lambda>x. x\<lparr>data := data (slots st2 src)\<rparr>) st2))"
    "copied st a b dest (upd_slot src released (upd_slot dest (\<lambda>x. x\<lparr>data := data (slots st2 src)\<rparr>) st2))"
proof -
  have wf: "bc_wf st" using inv by (simp add: bc_inv_def)
  obtain src st1 where r1: "cache_acquire me a st = Inr (src, st1)" and a1: "acquired_as st a src st1"
    using cache_acquire_ok [OF wf, of a me] h room nl by auto
  note f1 = acquired_as_facts [OF wf a1] and o1 = cache_onlyD [OF acquired_as_facts(1) [OF wf a1]]
  have inv1: "bc_inv st1" by (rule acquired_as_inv [OF inv a1])
  then have wf1: "bc_wf st1" by (simp add: bc_inv_def)
  have h1: "held st1 = {a}" using acquired_as_held [OF wf a1] h by simp
  have "room st1 > 0" using f1(7) room by simp
  then obtain dest st2 where r2: "cache_acquire me b st1 = Inr (dest, st2)" and a2: "acquired_as st1 b dest st2"
    using cache_acquire_ok [OF wf1, of b me] h1 ab nl o1 by auto
  note f2 = acquired_as_facts [OF wf1 a2]
  have inv2: "bc_inv st2" by (rule acquired_as_inv [OF inv1 a2])
  have src: "src \<noteq> dest" "src \<in> set (lru st2)" "slots st2 src = slots st1 src"
    using acquired_as_other [OF a2, of src] h1 ab f1 by auto
  define d where "d = data (slots st2 src)"
  have dv: "d = view st a" using src(3) f1(4) by (simp add: d_def)
  then have ld: "length d = 512" using bc_wf_view_length [OF wf] by simp
  let ?st3 = "upd_slot dest (\<lambda>x. x\<lparr>data := d\<rparr>) st2"
  note u = upd_data_inv [OF inv2 f2(2,5) ld]
  have wf3: "bc_wf ?st3" using u(1) by (simp add: bc_inv_def)
  have src3: "src \<in> set (lru ?st3)" "acquired (slots ?st3 src)" "block_no (slots ?st3 src) = a"
    using src f1 by simp_all
  have "clean st1 src" by (rule acquired_as_own_clean [OF inv a1]) (simp add: h)
  then have c3: "clean ?st3 src" using src cache_onlyD(1) [OF f2(1)] by (simp add: clean_def)
  let ?st4 = "upd_slot src released ?st3"
  have r4: "cache_release me src ?st3 = Inr ?st4" by (rule cache_release_ok [OF wf3 src3(1)])
  note e = cache_release_effect [OF u(1) src3(1,2) c3 refl]
  have "view ?st4 = (view st)(b := view st a)"
  proof -
    have "view st2 = view st"
      using acquired_as_view [OF wf1 _ a2] acquired_as_view [OF wf _ a1] inv inv1
      by (auto simp: bc_inv_def fun_eq_iff)
    then show ?thesis using e(2) u(2) f2(3) dv by simp
  qed
  moreover have "held ?st4 = {b}"
    using e(3) u(3) acquired_as_held [OF wf1 a2] h1 ab src3(3) by auto
  moreover have "pins ?st4 = pins st"
    using e(4) u(4) acquired_as_pins [OF wf1 a2] acquired_as_pins [OF wf a1] by simp
  moreover have "cache_only st ?st4"
    by (rule cache_only_trans [OF f1(1) cache_only_trans [OF f2(1)]])
       (rule cache_only_trans [OF cache_only_upd_slot cache_only_upd_slot])
  moreover have "room st \<le> room ?st4 + 2" using f1(7) f2(7) by simp
  ultimately have "copied st a b dest ?st4"
    using e(1) f2 src(1) dv by (simp add: copied_def)
  with r1 r2 r4 o1 show thesis using that unfolding d_def by blast
qed

text \<open>The copy is on the device and the destination still held.\<close>

definition written :: "bcache \<Rightarrow> (nat \<times> bytes) list \<Rightarrow> nat set \<Rightarrow> nat \<Rightarrow> nat \<Rightarrow> nat \<Rightarrow> bcache \<Rightarrow> bool" where
  "written st ws P k b dest st' \<longleftrightarrow> bc_inv st' \<and> held st' = {b} \<and> dev st' = dev_writes (dev st) ws \<and>
     cache_only (st\<lparr>dev := dev st'\<rparr>) st' \<and> view st' = apply_writes (view st) ws \<and>
     pins st' = pins st - P \<and> room st \<le> room st' + k \<and> dest \<in> set (lru st') \<and>
     block_no (slots st' dest) = b \<and> acquired (slots st' dest) \<and>
     data (slots st' dest) = disk (dev st') b"

lemma copied_written:
  assumes "copied st a b dest st'"
  shows "written st [(b, view st a)] {} 2 b dest (device_write dest st')"
proof -
  note c = assms [unfolded copied_def]
  have wf: "bc_wf st'" using c by (simp add: bc_inv_def)
  let ?st = "device_write dest st'"
  have inv: "bc_inv ?st" using c by (intro device_write_inv) simp_all
  have dv: "dev st' = dev st" using c cache_onlyD(1) [of st st'] by simp
  have "cache_only (st\<lparr>dev := dev ?st\<rparr>) (st'\<lparr>dev := dev ?st\<rparr>)" using c cache_only_dev_upd by blast
  moreover have "st'\<lparr>dev := dev ?st\<rparr> = ?st" by (simp add: device_write_def)
  ultimately have "cache_only (st\<lparr>dev := dev ?st\<rparr>) ?st" by metis
  then show ?thesis using inv c dv device_write_effect(2) [OF wf, of dest]
    by (simp add: written_def) (simp add: dev_write_def)
qed

lemma written_release:
  assumes "written st ws P k b dest st'"
  shows "\<exists>st''. cache_release me dest st' = Inr st'' \<and> logrun st ws P k st''"
proof -
  note w = assms [unfolded written_def]
  have c: "clean st' dest" using w by (simp add: clean_def)
  let ?st = "upd_slot dest released st'"
  have "cache_release me dest st' = Inr ?st"
    using w by (intro cache_release_ok) (simp_all add: bc_inv_def)
  moreover have "cache_only (st\<lparr>dev := dev st'\<rparr>) ?st"
    using w cache_only_trans [OF _ cache_only_upd_slot] by blast
  ultimately show ?thesis
    using w cache_release_effect [of st' dest ?st] c by (auto simp: logrun_def)
qed

lemma written_unpin:
  assumes "written st ws P k b dest st'"
  shows "bnd (lock_cache me st') (\<lambda>s. unlock_cache me (upd_slot dest (\<lambda>x. x\<lparr>pinned := False\<rparr>) s)) =
      Inr (upd_slot dest (\<lambda>x. x\<lparr>pinned := False\<rparr>) st')"
    and "written st ws (insert b P) k b dest (upd_slot dest (\<lambda>x. x\<lparr>pinned := False\<rparr>) st')"
proof -
  note w = assms [unfolded written_def]
  let ?f = "\<lambda>x :: Block. x\<lparr>pinned := False\<rparr>"
  let ?st = "upd_slot dest ?f st'"
  have wf: "bc_wf st'" using w by (simp add: bc_inv_def)
  then have lk: "free_lock (cache_lock st')" by (simp add: bc_wf_def)
  show "bnd (lock_cache me st') (\<lambda>s. unlock_cache me (upd_slot dest ?f s)) = Inr ?st"
    using lk by (simp add: upd_slot_def)
  have sw: "slot_wf (slots st' dest)" using wf w by (simp add: bc_wf_def)
  have sw': "slot_wf (?f (slots st' dest))" using sw w by (auto simp: slot_wf_def)
  have v: "valid (slots st' dest)" using sw w by (simp add: slot_wf_def)
  have wf': "bc_wf ?st" by (rule upd_slot_wf [OF wf]) (use sw' in simp_all)
  have "clean ?st t" if "t \<in> set (lru ?st)" "\<not> acquired (slots ?st t)" for t
    using that w by (cases "t = dest") (auto simp: bc_inv_def clean_def)
  then have "bc_inv ?st" using wf' by (simp add: bc_inv_def)
  moreover have "view ?st = view st'"
    by (rule upd_slot_view_same [OF wf]) (use w sw' v in simp_all)
  moreover have "held ?st = {b}" "pins ?st = pins st - insert b P"
    using upd_slot_sets [OF wf, of dest ?f] w by auto
  moreover have "cache_only (st\<lparr>dev := dev st'\<rparr>) ?st"
    using w cache_only_trans [OF _ cache_only_upd_slot] by blast
  ultimately show "written st ws (insert b P) k b dest ?st" using w by (simp add: written_def)
qed

lemma log_one_logrun:
  assumes inv: "bc_inv st" and h: "held st = {}" and room: "room st \<ge> 2"
    and i: "i < length (hdr_nos (header st))" and a: "a = hdr_nos (header st) ! i" and b: "b = log_start st + i"
    and ab: "a \<noteq> b" and nl: "a \<noteq> sb_log_start (sblock st)" "b \<noteq> sb_log_start (sblock st)"
  shows "\<exists>st'. log_one me i st = Inr st' \<and> logrun st [(b, view st a)] {} 2 st'"
proof (rule copy_block [OF inv h ab room nl, of me])
  fix src st1 dest st2
  let ?st3 = "upd_slot src released (upd_slot dest (\<lambda>x. x\<lparr>data := data (slots st2 src)\<rparr>) st2)"
  assume r: "cache_acquire me a st = Inr (src, st1)" "cache_acquire me b st1 = Inr (dest, st2)"
    "header st1 = header st" "log_start st1 = log_start st"
    "cache_release me src (upd_slot dest (\<lambda>x. x\<lparr>data := data (slots st2 src)\<rparr>) st2) = Inr ?st3"
    and c: "copied st a b dest ?st3"
  from written_release [OF copied_written [OF c], of me]
  show ?thesis using i r by (auto simp: log_one_def a b Let_def)
qed

lemma replay_one_logrun:
  assumes inv: "bc_inv st" and h: "held st = {}" and room: "room st \<ge> 2"
    and i: "i < length (hdr_nos (header st))" and a: "a = log_start st + i" and b: "b = hdr_nos (header st) ! i"
    and ab: "a \<noteq> b" and nl: "a \<noteq> sb_log_start (sblock st)" "b \<noteq> sb_log_start (sblock st)"
  shows "\<exists>st'. replay_one me i st = Inr st' \<and> logrun st [(b, view st a)] {b} 2 st'"
proof (rule copy_block [OF inv h ab room nl, of me])
  fix src st1 dest st2
  let ?st3 = "upd_slot src released (upd_slot dest (\<lambda>x. x\<lparr>data := data (slots st2 src)\<rparr>) st2)"
  let ?st4 = "device_write dest ?st3"
  assume r: "cache_acquire me a st = Inr (src, st1)" "cache_acquire me b st1 = Inr (dest, st2)"
    "header st1 = header st" "log_start st1 = log_start st"
    "cache_release me src (upd_slot dest (\<lambda>x. x\<lparr>data := data (slots st2 src)\<rparr>) st2) = Inr ?st3"
    and c: "copied st a b dest ?st3"
  note w = copied_written [OF c]
  obtain l where l: "lock_cache me ?st4 = Inr l"
      "unlock_cache me (upd_slot dest (\<lambda>x. x\<lparr>pinned := False\<rparr>) l) = Inr (upd_slot dest (\<lambda>x. x\<lparr>pinned := False\<rparr>) ?st4)"
    using written_unpin(1) [OF w, of me] by (auto simp: bnd_Inr_iff)
  from written_release [OF written_unpin(2) [OF w], of me]
  show ?thesis using i r l by (auto simp: replay_one_def a b Let_def)
qed

end
