(* ===== verification/CacheCrash.thy ===== *)
theory CacheCrash
  imports CacheLog
begin

text \<open>
  Crash safety of the log: which writes \<open>checkpoint\<close> and \<open>replay\<close> issue, what \<open>init_bcache\<close> recovers
  from any disk, and that a crash after any number of the writes is recovered to the state before or
  after the whole group of atomic operations.
\<close>

definition log_area :: "SuperBlock \<Rightarrow> nat set" where
  "log_area sb = {sb_log_start sb ..< sb_log_start sb + num_log_blocks sb}"

definition logged :: "LogHeader \<Rightarrow> nat list" where
  "logged H = take (hdr_num H) (hdr_nos H)"

definition hdr_ok :: "SuperBlock \<Rightarrow> LogHeader \<Rightarrow> bool" where
  "hdr_ok sb H \<longleftrightarrow> header_fits H \<and> hdr_num H \<le> LOG_MAX_SIZE \<and> hdr_num H < num_log_blocks sb \<and>
     set (logged H) \<inter> log_area sb = {}"

definition log_writes :: "SuperBlock \<Rightarrow> LogHeader \<Rightarrow> disk \<Rightarrow> (nat \<times> bytes) list" where
  "log_writes sb H v = map (\<lambda>i. (sb_log_start sb + 1 + i, v (hdr_nos H ! i))) [0..<hdr_num H]"

definition home_writes :: "SuperBlock \<Rightarrow> LogHeader \<Rightarrow> disk \<Rightarrow> (nat \<times> bytes) list" where
  "home_writes sb H v = map (\<lambda>i. (hdr_nos H ! i, v (sb_log_start sb + 1 + i))) [0..<hdr_num H]"

definition replay_writes :: "SuperBlock \<Rightarrow> LogHeader \<Rightarrow> disk \<Rightarrow> (nat \<times> bytes) list" where
  "replay_writes sb H v =
     (if hdr_num H = 0 then []
      else home_writes sb H v @ [(sb_log_start sb, header_bytes (H\<lparr>hdr_num := 0\<rparr>))])"

definition recovered :: "SuperBlock \<Rightarrow> disk \<Rightarrow> disk" where
  "recovered sb d = apply_writes d (replay_writes sb (bytes_header (d (sb_log_start sb))) d)"

abbreviation cleared :: "LogHeader \<Rightarrow> LogHeader" where
  "cleared H \<equiv> H\<lparr>hdr_num := 0\<rparr>"

lemma length_logged: "hdr_ok sb H \<Longrightarrow> length (logged H) = hdr_num H"
  by (simp add: hdr_ok_def logged_def header_fits_def)

lemma logged_nth:
  assumes "hdr_ok sb H" "i < hdr_num H"
  shows "hdr_nos H ! i \<notin> log_area sb" "i < length (hdr_nos H)" "hdr_nos H ! i = logged H ! i"
    "hdr_nos H ! i \<in> set (logged H)" "sb_log_start sb + 1 + i \<in> log_area sb" "sb_log_start sb \<in> log_area sb"
proof -
  show i: "i < length (hdr_nos H)" using assms by (simp add: hdr_ok_def header_fits_def)
  show eq: "hdr_nos H ! i = logged H ! i" using assms(2) by (simp add: logged_def)
  show mem: "hdr_nos H ! i \<in> set (logged H)" using assms length_logged eq by (metis nth_mem)
  then show "hdr_nos H ! i \<notin> log_area sb" using assms(1) by (auto simp: hdr_ok_def)
  show "sb_log_start sb + 1 + i \<in> log_area sb" "sb_log_start sb \<in> log_area sb"
    using assms by (auto simp: hdr_ok_def log_area_def)
qed

section \<open>The loops\<close>

lemma log_loop_logrun:
  assumes "bc_inv st" "held st = {}" "log_start st = sb_log_start (sblock st) + 1"
    "hdr_ok (sblock st) (header st)" "set is \<subseteq> {..<hdr_num (header st)}" "room st \<ge> 2 * length is"
  shows "\<exists>st'. log_loop me is st = Inr st' \<and>
    logrun st (map (\<lambda>i. (log_start st + i, view st (hdr_nos (header st) ! i))) is) {} (2 * length is) st'"
  using assms
proof (induction "is" arbitrary: st)
  case Nil
  then show ?case by (simp add: logrun_refl)
next
  case (Cons i "is")
  let ?H = "header st"
  have i: "i < hdr_num ?H" using Cons.prems by simp
  note nth = logged_nth [OF Cons.prems(4) i]
  have ne: "hdr_nos ?H ! i \<noteq> log_start st + i" "hdr_nos ?H ! i \<noteq> sb_log_start (sblock st)"
    using nth Cons.prems(3) by auto
  obtain st1 where r1: "log_one me i st = Inr st1"
    and e1: "logrun st [(log_start st + i, view st (hdr_nos ?H ! i))] {} 2 st1"
    using log_one_logrun [OF Cons.prems(1,2) _ nth(2) refl refl ne] Cons.prems(3,6) by auto
  note f = logrun_fields [OF e1]
  have "room st1 \<ge> 2 * length is" using f(8) Cons.prems(6) by simp
  then obtain st2 where r2: "log_loop me is st1 = Inr st2"
    and e2: "logrun st1 (map (\<lambda>i. (log_start st1 + i, view st1 (hdr_nos (header st1) ! i))) is) {} (2 * length is) st2"
    using Cons.IH [of st1] Cons.prems f by auto
  have "view st1 (hdr_nos ?H ! j) = view st (hdr_nos ?H ! j)" if "j \<in> set is" for j
  proof -
    have "j < hdr_num ?H" using that Cons.prems(5) by auto
    then have "hdr_nos ?H ! j \<noteq> log_start st + i"
      using logged_nth(1) [OF Cons.prems(4), of j] nth(5) Cons.prems(3) by auto
    then show ?thesis using f(6) by simp
  qed
  then have eq: "map (\<lambda>i. (log_start st1 + i, view st1 (hdr_nos (header st1) ! i))) is =
      map (\<lambda>i. (log_start st + i, view st (hdr_nos ?H ! i))) is" using f by simp
  show ?case using r1 r2 logrun_trans [OF e1 e2 [unfolded eq]] by simp
qed

lemma replay_loop_logrun:
  assumes "bc_inv st" "held st = {}" "log_start st = sb_log_start (sblock st) + 1"
    "hdr_ok (sblock st) (header st)" "set is \<subseteq> {..<hdr_num (header st)}" "room st \<ge> 2 * length is"
  shows "\<exists>st'. replay_loop me is st = Inr st' \<and>
    logrun st (map (\<lambda>i. (hdr_nos (header st) ! i, view st (log_start st + i))) is)
      ((\<lambda>i. hdr_nos (header st) ! i) ` set is) (2 * length is) st'"
  using assms
proof (induction "is" arbitrary: st)
  case Nil
  then show ?case by (simp add: logrun_refl)
next
  case (Cons i "is")
  let ?H = "header st"
  have i: "i < hdr_num ?H" using Cons.prems by simp
  note nth = logged_nth [OF Cons.prems(4) i]
  have ne: "log_start st + i \<noteq> hdr_nos ?H ! i" "log_start st + i \<noteq> sb_log_start (sblock st)"
      "hdr_nos ?H ! i \<noteq> sb_log_start (sblock st)"
    using nth Cons.prems(3) by auto
  obtain st1 where r1: "replay_one me i st = Inr st1"
    and e1: "logrun st [(hdr_nos ?H ! i, view st (log_start st + i))] {hdr_nos ?H ! i} 2 st1"
    using replay_one_logrun [OF Cons.prems(1,2) _ nth(2) refl refl ne] Cons.prems(6) by auto
  note f = logrun_fields [OF e1]
  have "room st1 \<ge> 2 * length is" using f(8) Cons.prems(6) by simp
  then obtain st2 where r2: "replay_loop me is st1 = Inr st2"
    and e2: "logrun st1 (map (\<lambda>i. (hdr_nos (header st1) ! i, view st1 (log_start st1 + i))) is)
      ((\<lambda>i. hdr_nos (header st1) ! i) ` set is) (2 * length is) st2"
    using Cons.IH [of st1] Cons.prems f by auto
  have "view st1 (log_start st + j) = view st (log_start st + j)" if "j \<in> set is" for j
  proof -
    have "j < hdr_num ?H" using that Cons.prems(5) by auto
    then have "log_start st + j \<noteq> hdr_nos ?H ! i"
      using logged_nth(5) [OF Cons.prems(4), of j] nth(1) Cons.prems(3) by auto
    then show ?thesis using f(6) by simp
  qed
  then have eq: "map (\<lambda>i. (hdr_nos (header st1) ! i, view st1 (log_start st1 + i))) is =
      map (\<lambda>i. (hdr_nos ?H ! i, view st (log_start st + i))) is" using f by simp
  show ?case using r1 r2 logrun_trans [OF e1 e2 [unfolded eq, unfolded f(1)]] by simp
qed

section \<open>The header\<close>

lemma view_header_upd [simp]: "view (st\<lparr>header := H\<rparr>) = view st"
  by (rule ext) (simp add: view_def cached_def split: option.split)

lemma bc_inv_header_upd [simp]: "bc_inv (st\<lparr>header := H\<rparr>) = bc_inv st"
  by (simp add: bc_inv_def bc_wf_def clean_def)

lemma sets_header_upd [simp]: "held (st\<lparr>header := H\<rparr>) = held st" "pins (st\<lparr>header := H\<rparr>) = pins st"
  by (simp_all add: held_def pins_def)

lemma logrun_header_upd: "logrun st ws P k st' \<Longrightarrow> logrun (st\<lparr>header := H\<rparr>) ws P k (st'\<lparr>header := H\<rparr>)"
proof -
  assume r: "logrun st ws P k st'"
  then have "cache_only (st\<lparr>dev := dev st'\<rparr>) st'" unfolding logrun_def by blast
  then have "cache_only (st\<lparr>header := H, dev := dev (st'\<lparr>header := H\<rparr>)\<rparr>) (st'\<lparr>header := H\<rparr>)"
    by (cases st; cases st') (auto simp: cache_only_def)
  then show ?thesis using r unfolding logrun_def by simp
qed

lemma write_header_logrun:
  assumes inv: "bc_inv st" and h: "held st = {}" and l: "length (hdr_nos (header st)) = 63"
  shows "logrun st [(sb_log_start (sblock st), header_bytes (header st))] {} 0 (write_header st)"
proof -
  let ?st = "write_header st" and ?h = "sb_log_start (sblock st)"
  have wf: "bc_wf st" using inv by (simp add: bc_inv_def)
  then have un: "\<forall>s\<in>set (lru st). block_no (slots st s) \<noteq> ?h" by (simp add: bc_wf_def)
  have wf': "bc_wf ?st" using wf l by (simp add: bc_wf_def write_header_def dev_write_def)
  have "view ?st c = ((view st)(?h := header_bytes (header st))) c" for c
  proof (cases "\<exists>t\<in>set (lru st). block_no (slots st t) = c")
    case True
    then obtain t where t: "t \<in> set (lru st)" "block_no (slots st t) = c" by blast
    then show ?thesis using un view_slot [OF wf t] view_slot [OF wf', of t c]
      by (auto simp: write_header_def dev_write_def)
  next
    case False
    then show ?thesis using view_uncached [of st c] view_uncached [of ?st c]
      by (auto simp: write_header_def dev_write_def)
  qed
  moreover have "clean ?st t" if "t \<in> set (lru st)" "\<not> acquired (slots st t)" for t
    using that inv un by (auto simp: bc_inv_def clean_def write_header_def dev_write_def)
  moreover have "cache_only (st\<lparr>dev := dev ?st\<rparr>) ?st" by (simp add: write_header_def)
  ultimately show ?thesis using wf' h
    by (auto simp: logrun_def bc_inv_def write_header_def held_def pins_def fun_eq_iff)
qed

lemma replay_logrun:
  assumes "bc_inv st" "held st = {}" "log_start st = sb_log_start (sblock st) + 1"
    "hdr_ok (sblock st) (header st)" "room st \<ge> 2 * hdr_num (header st)"
  shows "\<exists>st'. replay me st = Inr st' \<and>
    logrun (st\<lparr>header := cleared (header st)\<rparr>) (replay_writes (sblock st) (header st) (view st))
      (set (logged (header st))) (2 * hdr_num (header st)) st'"
proof (cases "hdr_num (header st) = 0")
  case True
  then have "cleared (header st) = header st" by (cases "header st") simp
  then have eq: "st\<lparr>header := cleared (header st)\<rparr> = st" by (cases st) simp
  show ?thesis unfolding eq using True assms(1,2) logrun_refl [of st]
    by (simp add: replay_def replay_writes_def logged_def)
next
  case False
  let ?H = "header st" and ?n = "hdr_num (header st)"
  obtain st1 where r: "replay_loop me [0..<?n] st = Inr st1"
    and e: "logrun st (map (\<lambda>i. (hdr_nos ?H ! i, view st (log_start st + i))) [0..<?n])
      ((\<lambda>i. hdr_nos ?H ! i) ` {0..<?n}) (2 * ?n) st1"
    using replay_loop_logrun [OF assms(1-4), of "[0..<?n]" me] assms(5)
    by (auto simp: atLeast0LessThan)
  note f = logrun_fields [OF e]
  have w: "map (\<lambda>i. (hdr_nos ?H ! i, view st (log_start st + i))) [0..<?n] = home_writes (sblock st) ?H (view st)"
    by (simp add: home_writes_def assms(3))
  have l: "length (hdr_nos ?H) = 63" "?n \<le> 63" using assms(4) by (simp_all add: hdr_ok_def header_fits_def)
  have p: "(\<lambda>i. hdr_nos ?H ! i) ` {0..<?n} = set (logged ?H)"
    using l nth_image [of ?n "hdr_nos ?H"] by (simp add: logged_def atLeast0LessThan)
  let ?st1 = "st1\<lparr>header := cleared ?H\<rparr>"
  have e1: "logrun (st\<lparr>header := cleared ?H\<rparr>) (home_writes (sblock st) ?H (view st)) (set (logged ?H)) (2 * ?n) ?st1"
    using logrun_header_upd [OF e, of "cleared ?H"] by (simp add: w p)
  have e2: "logrun ?st1 [(sb_log_start (sblock st), header_bytes (cleared ?H))] {} 0 (write_header ?st1)"
    using write_header_logrun [of ?st1] f l by simp
  have run: "replay me st = Inr (write_header ?st1)"
    using False r f(1) by (simp add: replay_def Let_def)
  show ?thesis using run logrun_trans [OF e1 e2] False by (simp add: replay_writes_def)
qed

section \<open>Checkpoint\<close>

definition checkpoint_writes :: "SuperBlock \<Rightarrow> LogHeader \<Rightarrow> disk \<Rightarrow> (nat \<times> bytes) list" where
  "checkpoint_writes sb H v =
     (let lw = log_writes sb H v @ [(sb_log_start sb, header_bytes H)]
      in lw @ replay_writes sb H (apply_writes v lw))"

lemma checkpoint_logrun:
  assumes "bc_inv st" "held st = {}" "log_start st = sb_log_start (sblock st) + 1"
    "hdr_ok (sblock st) (header st)" "room st \<ge> 4 * hdr_num (header st)"
  shows "\<exists>st1. logrun (st\<lparr>header := cleared (header st)\<rparr>) (checkpoint_writes (sblock st) (header st) (view st))
      (set (logged (header st))) (4 * hdr_num (header st)) st1 \<and>
    checkpoint me st = Inr (wakeup ChPersisted (st1\<lparr>last_persisted_ts := last_allocated_ts st1\<rparr>))"
proof -
  let ?H = "header st" and ?n = "hdr_num (header st)" and ?sb = "sblock st"
  obtain st1 where r1: "log_loop me [0..<?n] st = Inr st1"
    and e1: "logrun st (map (\<lambda>i. (log_start st + i, view st (hdr_nos ?H ! i))) [0..<?n]) {} (2 * ?n) st1"
    using log_loop_logrun [OF assms(1-4), of "[0..<?n]" me] assms(5)
    by (auto simp: atLeast0LessThan)
  have e1': "logrun st (log_writes ?sb ?H (view st)) {} (2 * ?n) st1"
    using e1 by (simp add: log_writes_def assms(3))
  note f1 = logrun_fields [OF e1']
  have l: "length (hdr_nos ?H) = 63" using assms(4) by (simp add: hdr_ok_def header_fits_def)
  let ?st2 = "write_header st1"
  have e2: "logrun st1 [(sb_log_start ?sb, header_bytes ?H)] {} 0 ?st2"
    using write_header_logrun [of st1] f1 l by simp
  let ?lw = "log_writes ?sb ?H (view st) @ [(sb_log_start ?sb, header_bytes ?H)]"
  have e12: "logrun st ?lw {} (2 * ?n) ?st2" using logrun_trans [OF e1' e2] by simp
  note f2 = logrun_fields [OF e12]
  obtain st3 where r3: "replay me ?st2 = Inr st3"
    and e3: "logrun (?st2\<lparr>header := cleared ?H\<rparr>) (replay_writes ?sb ?H (view ?st2)) (set (logged ?H)) (2 * ?n) st3"
    using replay_logrun [of ?st2 me] f2 assms by auto
  have e: "logrun (st\<lparr>header := cleared ?H\<rparr>) (checkpoint_writes ?sb ?H (view st)) (set (logged ?H)) (4 * ?n) st3"
    using logrun_trans [OF logrun_header_upd [OF e12, of "cleared ?H"] e3] f2(6)
    by (simp add: checkpoint_writes_def Let_def)
  have "free_lock (cache_lock st3)" using logrun_fields(4) [OF e] by (simp add: bc_inv_def bc_wf_def)
  then have "checkpoint me st = Inr (wakeup ChPersisted (st3\<lparr>last_persisted_ts := last_allocated_ts st3\<rparr>))"
    using r1 r3 by (simp add: checkpoint_def Let_def)
  with e show ?thesis by blast
qed

section \<open>Recovery\<close>

lemma apply_writes_map: "apply_writes d (map (\<lambda>b. (b, v b)) bs) c = (if c \<in> set bs then v c else d c)"
  by (induction bs arbitrary: d) auto

text \<open>Writes done once more in full after any prefix of them leave the same disk.\<close>

lemma apply_writes_last: "apply_writes d ws b =
    (case find (\<lambda>w. fst w = b) (rev ws) of Some w \<Rightarrow> snd w | None \<Rightarrow> d b)"
proof (induction ws arbitrary: d rule: rev_induct)
  case Nil
  then show ?case by simp
next
  case (snoc w ws)
  then show ?case by (cases w) simp
qed

lemma apply_writes_prefix_again: "apply_writes (apply_writes d (take k ws)) ws = apply_writes d ws"
proof
  fix b
  show "apply_writes (apply_writes d (take k ws)) ws b = apply_writes d ws b"
  proof (cases "find (\<lambda>w. fst w = b) (rev ws)")
    case None
    then have "b \<notin> fst ` set ws" by (auto simp: find_None_iff)
    moreover have "set (take k ws) \<subseteq> set ws" by (rule set_take_subset)
    ultimately have "b \<notin> fst ` set (take k ws)" by blast
    then show ?thesis using \<open>b \<notin> fst ` set ws\<close> by (simp add: apply_writes_other)
  next
    case (Some w)
    then show ?thesis using apply_writes_last [of _ ws b] by simp
  qed
qed

lemma log_writes_other:
  assumes "b \<notin> log_area sb \<or> b = sb_log_start sb" "hdr_ok sb H"
  shows "apply_writes d (take k (log_writes sb H v)) b = d b"
proof (rule apply_writes_other)
  have "fst ` set (take k (log_writes sb H v)) \<subseteq> fst ` set (log_writes sb H v)"
    using set_take_subset by (rule image_mono)
  moreover have "b \<notin> fst ` set (log_writes sb H v)"
    using assms logged_nth(5) [OF assms(2)] by (auto simp: log_writes_def)
  ultimately show "b \<notin> fst ` set (take k (log_writes sb H v))" by blast
qed

lemma log_writes_at:
  assumes "i < hdr_num H"
  shows "apply_writes d (log_writes sb H v) (sb_log_start sb + 1 + i) = v (hdr_nos H ! i)"
proof -
  let ?bs = "map (\<lambda>i. sb_log_start sb + 1 + i) [0..<hdr_num H]"
  let ?xs = "map (\<lambda>i. v (hdr_nos H ! i)) [0..<hdr_num H]"
  have "log_writes sb H v = zip ?bs ?xs" by (simp add: log_writes_def zip_map_map zip_same_conv_map)
  moreover have "apply_writes d (zip ?bs ?xs) (?bs ! i) = ?xs ! i"
    using assms by (intro apply_writes_zip) (simp_all add: distinct_map inj_on_def)
  ultimately show ?thesis using assms by simp
qed

text \<open>With the log blocks holding \<open>v\<close>, the home writes are the writes of \<open>v\<close> to the logged blocks.\<close>

lemma home_writes_logged:
  assumes "hdr_ok sb H" "\<forall>i<hdr_num H. d (sb_log_start sb + 1 + i) = v (hdr_nos H ! i)"
  shows "home_writes sb H d = map (\<lambda>b. (b, v b)) (logged H)"
proof (rule nth_equalityI)
  show l: "length (home_writes sb H d) = length (map (\<lambda>b. (b, v b)) (logged H))"
    using length_logged [OF assms(1)] by (simp add: home_writes_def)
  fix i assume "i < length (home_writes sb H d)"
  then have i: "i < hdr_num H" by (simp add: home_writes_def)
  then show "home_writes sb H d ! i = map (\<lambda>b. (b, v b)) (logged H) ! i"
    using assms(2) length_logged [OF assms(1)] logged_nth(3) [OF assms(1) i] by (simp add: home_writes_def)
qed

lemma cleared_fits: "header_fits H \<Longrightarrow> hdr_num (bytes_header (header_bytes (cleared H))) = 0"
  using bytes_header_bytes [of "cleared H"] by (simp add: header_fits_def)

lemma recovered_idle: "hdr_num (bytes_header (d (sb_log_start sb))) = 0 \<Longrightarrow> recovered sb d = d"
  by (simp add: recovered_def replay_writes_def)

lemma recovered_pending:
  assumes H: "bytes_header (d (sb_log_start sb)) = H" "hdr_ok sb H" "hdr_num H \<noteq> 0"
    and l: "\<forall>i<hdr_num H. d (sb_log_start sb + 1 + i) = v (hdr_nos H ! i)" and b: "b \<notin> log_area sb"
  shows "recovered sb d b = (if b \<in> set (logged H) then v b else d b)"
proof -
  have "sb_log_start sb \<in> log_area sb" using logged_nth(6) [OF H(2)] H(3) by blast
  then have "b \<noteq> sb_log_start sb" using b by auto
  then show ?thesis using H home_writes_logged [OF H(2) l]
    by (simp add: recovered_def replay_writes_def apply_writes_map)
qed

text \<open>The state a completed checkpoint leaves at the home locations.\<close>

definition committed :: "LogHeader \<Rightarrow> disk \<Rightarrow> disk \<Rightarrow> disk" where
  "committed H v d = (\<lambda>b. if b \<in> set (logged H) then v b else d b)"

lemma checkpoint_writes_eq:
  assumes "hdr_ok sb H"
  shows "checkpoint_writes sb H v =
    log_writes sb H v @ [(sb_log_start sb, header_bytes H)] @
    (if hdr_num H = 0 then [] else map (\<lambda>b. (b, v b)) (logged H) @ [(sb_log_start sb, header_bytes (cleared H))])"
proof -
  let ?lw = "log_writes sb H v @ [(sb_log_start sb, header_bytes H)]"
  have "\<forall>i<hdr_num H. apply_writes v ?lw (sb_log_start sb + 1 + i) = v (hdr_nos H ! i)"
    using log_writes_at [of _ H v sb v] by simp
  then have "home_writes sb H (apply_writes v ?lw) = map (\<lambda>b. (b, v b)) (logged H)"
    by (rule home_writes_logged [OF assms])
  then show ?thesis by (simp add: checkpoint_writes_def replay_writes_def Let_def)
qed

lemma checkpoint_crash:
  assumes ok: "hdr_ok sb H" and idle: "hdr_num (bytes_header (d (sb_log_start sb))) = 0"
    and b: "b \<notin> log_area sb"
  shows "recovered sb (apply_writes d (take k (checkpoint_writes sb H v))) b =
    (if k \<le> hdr_num H then d b else committed H v d b)"
proof (cases "k \<le> hdr_num H")
  case True
  let ?d = "apply_writes d (take k (log_writes sb H v))"
  have "take k (checkpoint_writes sb H v) = take k (log_writes sb H v)"
    using True by (simp add: checkpoint_writes_eq [OF ok] log_writes_def)
  moreover have "?d (sb_log_start sb) = d (sb_log_start sb)" "?d b = d b"
    using log_writes_other [OF _ ok] b by auto
  ultimately show ?thesis using True idle recovered_idle [of ?d sb] by simp
next
  case k: False
  let ?n = "hdr_num H" and ?h = "sb_log_start sb"
  define d1 where "d1 = apply_writes d (log_writes sb H v @ [(?h, header_bytes H)])"
  have fits: "header_fits H" using ok by (simp add: hdr_ok_def)
  have h: "?h \<in> log_area sb" using ok by (auto simp: hdr_ok_def log_area_def)
  have d1h: "bytes_header (d1 ?h) = H" using bytes_header_bytes [OF fits] by (simp add: d1_def)
  have d1l: "\<forall>i<?n. d1 (?h + 1 + i) = v (hdr_nos H ! i)" using log_writes_at [of _ H d sb v] by (simp add: d1_def)
  have d1b: "d1 b = d b" using log_writes_other [of b sb H d _ v, OF _ ok, of ?n] b h
    by (auto simp: log_writes_def d1_def)
  show ?thesis
  proof (cases "?n = 0")
    case True
    then have "take k (checkpoint_writes sb H v) = log_writes sb H v @ [(?h, header_bytes H)]"
      using k by (simp add: checkpoint_writes_eq [OF ok] log_writes_def)
    then show ?thesis using True k d1h d1b recovered_idle [of d1 sb] by (simp add: committed_def logged_def d1_def)
  next
    case n: False
    define m where "m = k - ?n - 1"
    let ?home = "map (\<lambda>b. (b, v b)) (logged H)"
    define ws where "ws = take m (?home @ [(?h, header_bytes (cleared H))])"
    have "length (log_writes sb H v) = ?n" by (simp add: log_writes_def)
    then have tk: "take k (checkpoint_writes sb H v) = (log_writes sb H v @ [(?h, header_bytes H)]) @ ws"
      using k n by (simp add: checkpoint_writes_eq [OF ok] m_def ws_def take_Cons')
    have lh: "length ?home = ?n" using length_logged [OF ok] by simp
    let ?d2 = "apply_writes d1 ws"
    have goal: "recovered sb ?d2 b = committed H v d b"
    proof (cases "m \<le> ?n")
      case True
      then have ws: "ws = map (\<lambda>b. (b, v b)) (take m (logged H))" using lh by (simp add: take_map ws_def)
      have sub: "set (take m (logged H)) \<subseteq> set (logged H)" by (rule set_take_subset)
      then have same: "?d2 c = d1 c" if "c \<in> log_area sb" for c
        using that ok by (auto simp: ws apply_writes_map hdr_ok_def)
      have "\<forall>i<?n. ?d2 (?h + 1 + i) = v (hdr_nos H ! i)"
        using d1l same logged_nth(5) [OF ok] by metis
      then show ?thesis
        using recovered_pending [of ?d2 sb H v b, OF _ ok n _ b] d1h same [OF h] d1b sub
        by (auto simp: committed_def ws apply_writes_map)
    next
      case False
      then have ws: "ws = ?home @ [(?h, header_bytes (cleared H))]" using lh by (simp add: ws_def)
      have "hdr_num (bytes_header (?d2 ?h)) = 0" using cleared_fits [OF fits] by (simp add: ws)
      moreover have "b \<noteq> ?h" using b h by auto
      ultimately show ?thesis using recovered_idle [of ?d2 sb] d1b
        by (simp add: ws committed_def apply_writes_map)
    qed
    then show ?thesis using k tk by (simp add: d1_def)
  qed
qed

text \<open>A crash during recovery itself is harmless: recovering again gives the same disk.\<close>

lemma recovered_restart:
  assumes ok: "hdr_ok sb H" and H: "H = bytes_header (d (sb_log_start sb))"
  shows "recovered sb (apply_writes d (take k (replay_writes sb H d))) = recovered sb d"
proof (cases "hdr_num H = 0")
  case True
  then show ?thesis by (simp add: replay_writes_def)
next
  case n: False
  let ?h = "sb_log_start sb" and ?n = "hdr_num H"
  define v where "v = (\<lambda>b. apply_writes d (home_writes sb H d) b)"
  have area: "fst ` set (home_writes sb H d) \<inter> log_area sb = {}"
    using logged_nth(1) [OF ok] by (auto simp: home_writes_def)
  show ?thesis
  proof (cases "k \<le> ?n")
    case True
    let ?ws = "take k (home_writes sb H d)"
    let ?d = "apply_writes d ?ws"
    have ws: "take k (replay_writes sb H d) = ?ws" using True n by (simp add: replay_writes_def home_writes_def)
    have "set ?ws \<subseteq> set (home_writes sb H d)" by (rule set_take_subset)
    then have same: "?d c = d c" if "c \<in> log_area sb" for c
      using that area by (intro apply_writes_other) blast
    have h: "?d ?h = d ?h" using same logged_nth(6) [OF ok] n by blast
    have "home_writes sb H ?d = home_writes sb H d"
      using same logged_nth(5) [OF ok] by (auto simp: home_writes_def)
    then have rw: "replay_writes sb H ?d = replay_writes sb H d" by (simp add: replay_writes_def)
    have "apply_writes ?d (home_writes sb H d) = apply_writes d (home_writes sb H d)"
      using apply_writes_prefix_again [of d k "home_writes sb H d"] by simp
    then have "apply_writes ?d (replay_writes sb H d) = apply_writes d (replay_writes sb H d)"
      using n by (simp add: replay_writes_def)
    then show ?thesis using H h rw ws by (simp add: recovered_def)
  next
    case False
    then have "take k (replay_writes sb H d) = replay_writes sb H d"
      using n by (simp add: replay_writes_def home_writes_def)
    moreover have "hdr_num (bytes_header (apply_writes d (replay_writes sb H d) ?h)) = 0"
      using n cleared_fits [of H] ok by (simp add: replay_writes_def hdr_ok_def)
    ultimately show ?thesis using H recovered_idle [of "apply_writes d (replay_writes sb H d)" sb]
      by (simp add: recovered_def)
  qed
qed

end
