(* ===== verification/CacheOps.thy ===== *)
theory CacheOps
  imports CacheCrash
begin

text \<open>
  Atomic operations over the cache: \<open>init_bcache\<close>, \<open>begin_op\<close>, \<open>sync\<close>, \<open>commit\<close> and \<open>end_op\<close>.
  \<open>log_inv A st\<close> is the invariant of the log with \<open>A\<close> the set of running operations: the space
  reserved in the log is exactly what is already committed plus \<open>OP_MAX_NUM_BLOCKS\<close> per running
  operation, and every pinned block belongs to one of them or to the header.
\<close>

definition sb_ok :: "SuperBlock \<Rightarrow> bool" where
  "sb_ok sb \<longleftrightarrow> 0 < num_log_blocks sb \<and> sb_log_start sb + num_log_blocks sb < 2 ^ 32"

definition ctx_blocks :: "bcache \<Rightarrow> nat \<Rightarrow> nat set" where
  "ctx_blocks st c = set (take (ctx_num (ctxs st c)) (ctx_nos (ctxs st c)))"

definition ctx_ok :: "bcache \<Rightarrow> nat \<Rightarrow> bool" where
  "ctx_ok st c \<longleftrightarrow> (let x = ctxs st c in free_lock (ctx_lock x) \<and> ctx_num x \<le> OP_MAX_NUM_BLOCKS \<and>
     length (ctx_nos x) = OP_MAX_NUM_BLOCKS \<and> distinct (take (ctx_num x) (ctx_nos x)) \<and>
     last_persisted_ts st < ts x \<and> ts x \<le> last_allocated_ts st) \<and>
     (\<forall>b\<in>ctx_blocks st c. b < 2 ^ 64 \<and> b \<notin> log_area (sblock st))"

definition log_inv :: "nat set \<Rightarrow> bcache \<Rightarrow> bool" where
  "log_inv A st \<longleftrightarrow> sb_ok (sblock st) \<and> finite A \<and> op_count st = card A \<and>
     log_start st = sb_log_start (sblock st) + 1 \<and> log_size st \<le> LOG_MAX_SIZE \<and>
     log_size st < num_log_blocks (sblock st) \<and>
     header_fits (header st) \<and> set (logged (header st)) \<inter> log_area (sblock st) = {} \<and>
     hdr_num (bytes_header (disk (dev st) (sb_log_start (sblock st)))) = 0 \<and>
     log_used st = hdr_num (header st) + OP_MAX_NUM_BLOCKS * card A \<and> log_used st \<le> log_size st \<and>
     last_persisted_ts st \<le> last_allocated_ts st \<and> (\<forall>c\<in>A. ctx_ok st c) \<and>
     pins st \<subseteq> set (logged (header st)) \<union> (\<Union>c\<in>A. ctx_blocks st c)"

lemma log_inv_hdr_ok: "log_inv A st \<Longrightarrow> hdr_ok (sblock st) (header st)"
  by (auto simp: log_inv_def hdr_ok_def)

lemma log_inv_card: "log_inv A st \<Longrightarrow> card A \<le> 6"
  by (simp add: log_inv_def)

section \<open>Start-up\<close>

lemma init_bcache_recovers:
  assumes sb: "sb_ok sb" and len: "\<forall>b. length (disk d b) = BLOCK_SIZE"
    and hdr: "hdr_ok sb (bytes_header (disk d (sb_log_start sb)))" and room: "room st \<ge> 126"
  shows "\<exists>st'. init_bcache me sb d st = Inr st' \<and> disk (dev st') = recovered sb (disk d) \<and>
    wtrace (dev st') = wtrace d @ replay_writes sb (bytes_header (disk d (sb_log_start sb))) (disk d) \<and>
    view st' = disk (dev st') \<and> bc_inv st' \<and> held st' = {} \<and> log_inv {} st' \<and> sblock st' = sb \<and>
    log_size st' = min (num_log_blocks sb - 1) LOG_MAX_SIZE"
proof -
  let ?H = "bytes_header (disk d (sb_log_start sb))"
  define st0 where "st0 = st\<lparr>sblock := sb, dev := d, cache_lock := init_spinlock (cache_lock st) ''block cache'',
    lru := [], last_allocated_ts := 0, last_persisted_ts := 0,
    log_start := addw 32 (sb_log_start sb) 1, log_size := min (subw 32 (num_log_blocks sb) 1) 63,
    log_used := 0, op_count := 0, header := ?H\<rparr>"
  have run: "init_bcache me sb d st = replay me st0"
    by (simp add: init_bcache_def read_header_def dev_read_def st0_def)
  have ls: "log_start st0 = sb_log_start sb + 1" "log_size st0 = min (num_log_blocks sb - 1) 63"
    using sb by (simp_all add: st0_def sb_ok_def addw_small subw_small)
  have inv0: "bc_inv st0" "held st0 = {}" "pins st0 = {}"
    using len by (simp_all add: st0_def bc_inv_def bc_wf_def init_spinlock_def held_def pins_def)
  have v0: "view st0 = disk d" by (rule ext) (simp add: view_uncached st0_def)
  have f0: "sblock st0 = sb" "header st0 = ?H" "room st0 = room st" "dev st0 = d" by (simp_all add: st0_def)
  have n: "hdr_num ?H \<le> 63" using hdr by (simp add: hdr_ok_def)
  then obtain st' where r: "replay me st0 = Inr st'"
    and e: "logrun (st0\<lparr>header := cleared ?H\<rparr>) (replay_writes sb ?H (disk d)) (set (logged ?H)) (2 * hdr_num ?H) st'"
    using replay_logrun [OF inv0(1,2), of me] ls(1) f0 hdr room v0 by auto
  note f = logrun_fields [OF e]
  have dk: "disk (dev st') = recovered sb (disk d)" "wtrace (dev st') = wtrace d @ replay_writes sb ?H (disk d)"
    using f(7) by (simp_all add: dev_writes_fields f0 recovered_def)
  have vw: "view st' = disk (dev st')" using f(6) v0 dk by (simp add: recovered_def)
  have "hdr_num (bytes_header (recovered sb (disk d) (sb_log_start sb))) = 0"
  proof (cases "hdr_num ?H = 0")
    case True
    then show ?thesis by (simp add: recovered_idle)
  next
    case False
    then show ?thesis using cleared_fits [of ?H] hdr
      by (simp add: recovered_def replay_writes_def hdr_ok_def)
  qed
  then have "log_inv {} st'"
    using f ls sb hdr inv0(3) dk(1)
    by (auto simp: log_inv_def f0 logged_def hdr_ok_def header_fits_def st0_def)
  then show ?thesis using run r dk vw f ls by (simp add: f0)
qed

section \<open>Arrays searched by a loop\<close>

lemma index_of_spec:
  "n \<le> length xs \<Longrightarrow> if b \<in> set (take n xs) then index_of xs n b < n \<and> xs ! index_of xs n b = b
    else index_of xs n b = n"
proof (induction xs arbitrary: n)
  case Nil
  then show ?case by simp
next
  case (Cons x xs)
  then show ?case by (cases n) (auto split: if_splits)
qed

lemma index_of_le: "n \<le> length xs \<Longrightarrow> index_of xs n b \<le> n"
  using index_of_spec [of n xs b] by (auto split: if_splits)

lemma index_of_update_in:
  assumes "n \<le> length xs" "b \<in> set (take n xs)"
  shows "xs[index_of xs n b := b] = xs"
proof -
  have "index_of xs n b < n" "xs ! index_of xs n b = b" using index_of_spec [OF assms(1), of b] assms(2) by simp_all
  then show ?thesis by (metis list_update_id)
qed

lemma take_Suc_update: "n < length xs \<Longrightarrow> take (Suc n) (xs[n := b]) = take n xs @ [b]"
  by (simp add: take_Suc_conv_app_nth)

section \<open>Beginning an operation\<close>

lemma upd_ctx_simps [simp]:
  "slots (upd_ctx c f st) = slots st" "lru (upd_ctx c f st) = lru st" "dev (upd_ctx c f st) = dev st"
  "cache_lock (upd_ctx c f st) = cache_lock st" "nslots (upd_ctx c f st) = nslots st"
  "room (upd_ctx c f st) = room st" "header (upd_ctx c f st) = header st" "sblock (upd_ctx c f st) = sblock st"
  "log_start (upd_ctx c f st) = log_start st" "log_size (upd_ctx c f st) = log_size st"
  "log_used (upd_ctx c f st) = log_used st" "op_count (upd_ctx c f st) = op_count st"
  "last_allocated_ts (upd_ctx c f st) = last_allocated_ts st"
  "last_persisted_ts (upd_ctx c f st) = last_persisted_ts st" "used_block (upd_ctx c f st) = used_block st"
  "ctxs (upd_ctx c f st) = (ctxs st)(c := f (ctxs st c))" "woken (upd_ctx c f st) = woken st"
  by (simp_all add: upd_ctx_def)

text \<open>The parts of the state on which \<open>bc_inv\<close>, \<open>view\<close>, \<open>held\<close> and \<open>pins\<close> depend.\<close>

definition same_blocks :: "bcache \<Rightarrow> bcache \<Rightarrow> bool" where
  "same_blocks st st' \<longleftrightarrow> slots st' = slots st \<and> lru st' = lru st \<and> dev st' = dev st \<and> nslots st' = nslots st \<and>
     sblock st' = sblock st \<and> free_lock (cache_lock st') = free_lock (cache_lock st)"

lemma same_blocks_view: "same_blocks st st' \<Longrightarrow> view st' = view st"
  by (rule ext) (simp add: same_blocks_def view_def cached_def split: option.split)

lemma same_blocks_inv: "same_blocks st st' \<Longrightarrow> bc_inv st' = bc_inv st"
  by (auto simp: same_blocks_def bc_inv_def bc_wf_def clean_def)

lemma same_blocks_sets: "same_blocks st st' \<Longrightarrow> held st' = held st \<and> pins st' = pins st"
  by (simp add: same_blocks_def held_def pins_def)

lemma cache_begin_op_ok:
  assumes inv: "log_inv A st" and lk: "free_lock (cache_lock st)" and c: "c \<notin> A"
    and ts: "last_allocated_ts st + 1 < 2 ^ 64"
    and space: "log_used st + OP_MAX_NUM_BLOCKS \<le> log_size st"
  shows "\<exists>st'. cache_begin_op me c st = Inr st' \<and> log_inv (insert c A) st' \<and> same_blocks st st' \<and>
    ctx_blocks st' c = {} \<and> room st' = room st \<and> used_block st' = used_block st \<and>
    (\<forall>e. e \<noteq> c \<longrightarrow> ctxs st' e = ctxs st e)"
proof -
  note i = inv [unfolded log_inv_def]
  have small: "log_used st + 10 < 2 ^ 64" "op_count st + 1 < 2 ^ 64"
    using i space log_inv_card [OF inv] by simp_all
  define x where "x = (ctxs st c)\<lparr>ctx_lock := init_spinlock (ctx_lock (ctxs st c)) ''atomic operation context'',
    ctx_num := 0, ctx_nos := replicate 10 0, ts := last_allocated_ts st + 1\<rparr>"
  let ?st = "st\<lparr>log_used := log_used st + 10, last_allocated_ts := last_allocated_ts st + 1,
    ctxs := (ctxs st)(c := x), op_count := op_count st + 1\<rparr>"
  have run: "cache_begin_op me c st = Inr ?st"
    using lk space small ts
    by (simp add: cache_begin_op_def upd_ctx_def Let_def addw_small x_def)
  have ctx: "ctx_ok ?st e" if "e \<in> insert c A" for e
  proof (cases "e = c")
    case True
    then show ?thesis using i by (simp add: ctx_ok_def x_def ctx_blocks_def init_spinlock_def)
  next
    case False
    then show ?thesis using that i by (auto simp: ctx_ok_def ctx_blocks_def Let_def)
  qed
  have p: "pins ?st = pins st" by (simp add: pins_def)
  have cb: "ctx_blocks ?st e = ctx_blocks st e" if "e \<in> A" for e
    using that c by (auto simp: ctx_blocks_def)
  have "pins st \<subseteq> set (logged (header st)) \<union> (\<Union>e\<in>insert c A. ctx_blocks ?st e)"
    using i cb by fastforce
  then have "log_inv (insert c A) ?st"
    using i c space ctx p by (simp add: log_inv_def)
  then show ?thesis using run
    by (intro exI [of _ ?st]) (simp add: same_blocks_def ctx_blocks_def x_def)
qed

text \<open>Without room in the log the caller sleeps on \<open>log_used\<close>.\<close>

lemma cache_begin_op_blocks:
  assumes "log_inv A st" "free_lock (cache_lock st)" "log_used st + OP_MAX_NUM_BLOCKS > log_size st"
  shows "cache_begin_op me c st = Inl (Blocked ''log_used'')"
proof -
  have "log_used st + 10 < 2 ^ 64" using assms(1) by (simp add: log_inv_def)
  then show ?thesis using assms(2,3) by (simp add: cache_begin_op_def addw_small Let_def)
qed

section \<open>Recording a block in an operation\<close>

lemma cache_sync_ok:
  assumes inv: "log_inv A st" and bi: "bc_inv st" and c: "c \<in> A"
    and s: "s \<in> set (lru st)" "acquired (slots st s)" "block_no (slots st s) = b"
    and b: "b < 2 ^ 64" "b \<notin> log_area (sblock st)"
    and space: "b \<in> ctx_blocks st c \<or> card (ctx_blocks st c) < OP_MAX_NUM_BLOCKS"
  shows "\<exists>st'. cache_sync me (Some c) s st = Inr st' \<and> log_inv A st' \<and> bc_inv st' \<and> view st' = view st \<and>
    held st' = held st \<and> pins st' = insert b (pins st) \<and> ctx_blocks st' c = insert b (ctx_blocks st c) \<and>
    (\<forall>e. e \<noteq> c \<longrightarrow> ctxs st' e = ctxs st e) \<and> dev st' = dev st \<and> lru st' = lru st \<and>
    slots st' = (slots st)(s := (slots st s)\<lparr>pinned := True\<rparr>) \<and> room st' = room st \<and>
    used_block st' = used_block st \<and> sblock st' = sblock st"
proof -
  note i = inv [unfolded log_inv_def]
  define x where "x = ctxs st c"
  have cx: "ctx_ok st c" using i c by blast
  then have x: "free_lock (ctx_lock x)" "ctx_num x \<le> 10" "length (ctx_nos x) = 10"
      "distinct (take (ctx_num x) (ctx_nos x))"
    and cb: "ctx_blocks st c = set (take (ctx_num x) (ctx_nos x))"
    by (simp_all add: ctx_ok_def Let_def x_def ctx_blocks_def)
  have card: "card (ctx_blocks st c) = ctx_num x" using x by (simp add: cb distinct_card)
  define j where "j = index_of (ctx_nos x) (ctx_num x) b"
  have spec: "if b \<in> ctx_blocks st c then j < ctx_num x \<and> ctx_nos x ! j = b else j = ctx_num x"
    using index_of_spec [of "ctx_num x" "ctx_nos x" b] x by (simp add: j_def cb)
  then have j: "j < 10" using space card x(2) by (auto split: if_splits)
  define y where "y = x\<lparr>ctx_nos := (ctx_nos x)[j := b], ctx_num := (if j \<ge> ctx_num x then Suc (ctx_num x) else ctx_num x)\<rparr>"
  let ?f = "\<lambda>z :: Block. z\<lparr>pinned := True\<rparr>"
  let ?st1 = "upd_ctx c (\<lambda>_. y) st"
  let ?st = "upd_slot s ?f ?st1"
  have lk: "free_lock (cache_lock st)" using bi by (simp add: bc_inv_def bc_wf_def)
  have run: "cache_sync me (Some c) s st = Inr ?st"
    using x(1) lk j s(3)
    by (simp add: cache_sync_def acquire_free release_held holding_spinlock_def upd_ctx_def upd_slot_def
        Let_def x_def [symmetric] j_def [symmetric] y_def)
  have sb: "same_blocks st ?st1" by (simp add: same_blocks_def)
  have bi1: "bc_inv ?st1" using same_blocks_inv [OF sb] bi by simp
  then have wf1: "bc_wf ?st1" by (simp add: bc_inv_def)
  have s1: "s \<in> set (lru ?st1)" "acquired (slots ?st1 s)" using s by simp_all
  have sw: "slot_wf (slots ?st1 s)" using wf1 s1 unfolding bc_wf_def by blast
  then have v: "valid (slots ?st1 s)" using s1(2) by (simp add: slot_wf_def)
  have sw': "slot_wf (?f (slots ?st1 s))" using sw v by (simp add: slot_wf_def)
  have wf: "bc_wf ?st" by (rule upd_slot_wf [OF wf1]) (use sw' in simp_all)
  have cl: "clean ?st t" if "t \<in> set (lru ?st)" "\<not> acquired (slots ?st t)" for t
    using that bi1 by (cases "t = s") (auto simp: bc_inv_def clean_def)
  have bi': "bc_inv ?st" using wf cl by (simp add: bc_inv_def)
  have vw: "view ?st = view st"
    using upd_slot_view_same [OF wf1 s1(1), of ?f] sw' v same_blocks_view [OF sb] by simp
  have hp: "held ?st = held st" "pins ?st = insert b (pins st)"
    using upd_slot_sets [OF wf1 s1(1), of ?f] s same_blocks_sets [OF sb] by (auto simp: held_def)
  have ycb: "ctx_blocks ?st c = insert b (ctx_blocks st c)" and yok: "ctx_num y \<le> 10"
    "length (ctx_nos y) = 10" "distinct (take (ctx_num y) (ctx_nos y))" "free_lock (ctx_lock y)" "ts y = ts x"
  proof -
    show "length (ctx_nos y) = 10" "free_lock (ctx_lock y)" "ts y = ts x" using x by (simp_all add: y_def)
    show "ctx_num y \<le> 10" using j x(2) spec by (auto simp: y_def split: if_splits)
    have "take (ctx_num y) (ctx_nos y) =
        (if b \<in> ctx_blocks st c then take (ctx_num x) (ctx_nos x) else take (ctx_num x) (ctx_nos x) @ [b])"
    proof (cases "b \<in> ctx_blocks st c")
      case True
      then have "(ctx_nos x)[j := b] = ctx_nos x" using spec by (metis list_update_id)
      then show ?thesis using True spec by (simp add: y_def)
    next
      case False
      then show ?thesis using spec j x(3) by (simp add: y_def take_Suc_update)
    qed
    then show "distinct (take (ctx_num y) (ctx_nos y))" "ctx_blocks ?st c = insert b (ctx_blocks st c)"
      using x(4) cb by (auto simp: ctx_blocks_def)
  qed
  have cother: "ctx_blocks ?st e = ctx_blocks st e" if "e \<noteq> c" for e using that by (simp add: ctx_blocks_def)
  have "ctx_ok ?st e" if "e \<in> A" for e
  proof (cases "e = c")
    case True
    then show ?thesis using yok cx ycb b by (simp add: ctx_ok_def Let_def x_def)
  next
    case False
    then show ?thesis using that i cother [OF False] by (simp add: ctx_ok_def Let_def)
  qed
  moreover have "pins ?st \<subseteq> set (logged (header st)) \<union> (\<Union>e\<in>A. ctx_blocks ?st e)"
  proof -
    have "ctx_blocks st e \<subseteq> ctx_blocks ?st e" for e using ycb cother by (cases "e = c") auto
    moreover have "b \<in> ctx_blocks ?st c" using ycb by simp
    ultimately show ?thesis using hp(2) i c by blast
  qed
  ultimately have "log_inv A ?st" using i unfolding log_inv_def by simp
  then show ?thesis using run bi' vw hp ycb by (intro exI [of _ ?st]) simp
qed

section \<open>Committing\<close>

lemma commit_loop_ok:
  assumes "header_fits h" "hdr_num h + length bs \<le> lsize" "lsize \<le> LOG_MAX_SIZE" "\<forall>b\<in>set bs. b < 2 ^ 64"
  shows "\<exists>h' ab. commit_loop lsize bs h a = Inr (h', ab) \<and> header_fits h' \<and>
    hdr_num h' + ab = hdr_num h + length bs + a \<and> a \<le> ab \<and> hdr_num h \<le> hdr_num h' \<and>
    set (logged h') = set (logged h) \<union> set bs"
  using assms
proof (induction bs arbitrary: h a)
  case Nil
  then show ?case by simp
next
  case (Cons b bs)
  have len: "length (hdr_nos h) = 63" and n: "hdr_num h \<le> 62" "hdr_num h < lsize"
    using Cons.prems by (simp_all add: header_fits_def)
  define j where "j = index_of (hdr_nos h) (hdr_num h) b"
  have spec: "if b \<in> set (logged h) then j < hdr_num h \<and> hdr_nos h ! j = b else j = hdr_num h"
    using index_of_spec [of "hdr_num h" "hdr_nos h" b] n len by (simp add: j_def logged_def)
  then have j: "j < lsize" "\<not> j \<ge> length (hdr_nos h)" using n len by (auto split: if_splits)
  show ?case
  proof (cases "b \<in> set (logged h)")
    case True
    then have "j < hdr_num h" using spec by simp
    moreover have "(hdr_nos h)[j := b] = hdr_nos h" using True spec by (metis list_update_id)
    ultimately have step: "commit_loop lsize (b # bs) h a = commit_loop lsize bs h (Suc a)"
      using j by (simp add: j_def [symmetric] Let_def)
    obtain h' ab where r: "commit_loop lsize bs h (Suc a) = Inr (h', ab)" "header_fits h'"
      "hdr_num h' + ab = hdr_num h + length bs + Suc a" "Suc a \<le> ab" "hdr_num h \<le> hdr_num h'"
      "set (logged h') = set (logged h) \<union> set bs"
      using Cons.IH [of h "Suc a"] Cons.prems by auto
    then show ?thesis using step True by (intro exI [of _ h'] exI [of _ ab]) auto
  next
    case False
    then have jn: "j = hdr_num h" using spec by simp
    define h1 where "h1 = h\<lparr>hdr_nos := (hdr_nos h)[j := b], hdr_num := Suc (hdr_num h)\<rparr>"
    have step: "commit_loop lsize (b # bs) h a = commit_loop lsize bs h1 a"
      using j jn by (simp add: j_def [symmetric] Let_def h1_def)
    have b: "b < 2 ^ 64" using Cons.prems by simp
    have "set ((hdr_nos h)[j := b]) \<subseteq> insert b (set (hdr_nos h))" by (rule set_update_subset_insert)
    then have fits: "header_fits h1" using Cons.prems(1) n b by (auto simp: header_fits_def h1_def)
    have lg: "set (logged h1) = insert b (set (logged h))"
      using n len jn by (simp add: logged_def h1_def take_Suc_update)
    obtain h' ab where r: "commit_loop lsize bs h1 a = Inr (h', ab)" "header_fits h'"
      "hdr_num h' + ab = hdr_num h1 + length bs + a" "a \<le> ab" "hdr_num h1 \<le> hdr_num h'"
      "set (logged h') = set (logged h1) \<union> set bs"
      using Cons.IH [OF fits, of a] Cons.prems by (auto simp: h1_def)
    then show ?thesis using step lg by (intro exI [of _ h'] exI [of _ ab]) (auto simp: h1_def)
  qed
qed

lemma end_op_commit_ok:
  assumes inv: "log_inv A st" and lk: "free_lock (cache_lock st)" and c: "c \<in> A"
  shows "\<exists>H w lu. end_op_commit me c st = Inr (A = {c}, log_size st,
      st\<lparr>cache_lock := taken me (cache_lock st), header := H, log_used := lu, woken := w,
        op_count := op_count st - 1, log_size := (if A = {c} then 0 else log_size st)\<rparr>) \<and>
    header_fits H \<and> set (logged H) = set (logged (header st)) \<union> ctx_blocks st c \<and>
    hdr_num (header st) \<le> hdr_num H \<and> lu = hdr_num H + OP_MAX_NUM_BLOCKS * (card A - 1) \<and> lu \<le> log_used st \<and>
    log_inv (A - {c}) (st\<lparr>header := H, log_used := lu, woken := w, op_count := op_count st - 1\<rparr>)"
proof -
  note i = inv [unfolded log_inv_def]
  define x where "x = ctxs st c"
  have cx: "ctx_ok st c" using i c by blast
  then have x: "free_lock (ctx_lock x)" "ctx_num x \<le> 10" "length (ctx_nos x) = 10"
    and cb: "ctx_blocks st c = set (take (ctx_num x) (ctx_nos x))"
    and bs: "\<forall>b\<in>ctx_blocks st c. b < 2 ^ 64 \<and> b \<notin> log_area (sblock st)"
    by (auto simp: ctx_ok_def Let_def x_def ctx_blocks_def)
  have cpos: "card A \<ge> 1" using c i by (metis One_nat_def Suc_leI card_gt_0_iff empty_iff)
  have lb: "length (take (ctx_num x) (ctx_nos x)) = ctx_num x" using x by simp
  have "hdr_num (header st) + ctx_num x \<le> log_size st" using i x(2) cpos by linarith
  then obtain H ab where cl: "commit_loop (log_size st) (take (ctx_num x) (ctx_nos x)) (header st) 0 = Inr (H, ab)"
    and H: "header_fits H" "hdr_num H + ab = hdr_num (header st) + ctx_num x" "hdr_num (header st) \<le> hdr_num H"
      "set (logged H) = set (logged (header st)) \<union> ctx_blocks st c"
    using commit_loop_ok [of "header st" "take (ctx_num x) (ctx_nos x)" "log_size st" 0] i lb bs cb by auto
  define lu where "lu = hdr_num H + 10 * (card A - 1)"
  have lu: "lu + (10 - ctx_num x + ab) = log_used st" using H(2) i x(2) cpos by (simp add: lu_def)
  have small: "log_used st < 2 ^ 64" "op_count st < 2 ^ 64" "(10::nat) < 2 ^ 64"
    using i log_inv_card [OF inv] by simp_all
  have un: "subw 64 10 (ctx_num x) = 10 - ctx_num x" using x(2) by (intro subw_small) simp_all
  have "10 - ctx_num x + ab < 2 ^ 64" using lu small(1) by linarith
  then have sub: "subw 64 (log_used st) (addw 64 (10 - ctx_num x) ab) = lu"
    using lu small(1) by (simp add: addw_small subw_small)
  have oc: "subw 64 (op_count st) 1 = op_count st - 1"
    using i cpos small(2) by (intro subw_small) simp_all
  have last: "op_count st - 1 = 0 \<longleftrightarrow> A = {c}"
    using i c cpos by (metis One_nat_def card_1_singletonE card.empty card_insert_disjoint
        diff_is_0_eq empty_iff finite.emptyI le_antisym singletonD singleton_iff)
  let ?w = "woken st @ [ChLogUsed]"
  have cc: "commit me c (st\<lparr>cache_lock := taken me (cache_lock st)\<rparr>) =
      Inr (st\<lparr>cache_lock := taken me (cache_lock st), header := H, log_used := lu, woken := ?w\<rparr>)"
  proof -
    have "(ctxs st)(c := x) = ctxs st" by (simp add: x_def)
    moreover have "x\<lparr>ctx_lock := ctx_lock x\<rparr> = x" by simp
    ultimately show ?thesis using x(1) cl un sub
      by (simp add: commit_def acquire_free release_held holding_spinlock_def upd_ctx_def Let_def
          x_def [symmetric] wakeup_def)
  qed
  have run: "end_op_commit me c st = Inr (A = {c}, log_size st,
      st\<lparr>cache_lock := taken me (cache_lock st), header := H, log_used := lu, woken := ?w,
        op_count := op_count st - 1, log_size := (if A = {c} then 0 else log_size st)\<rparr>)"
    using lk cc oc last by (simp add: end_op_commit_def Let_def)
  let ?st = "st\<lparr>header := H, log_used := lu, woken := ?w, op_count := op_count st - 1\<rparr>"
  have p: "pins ?st = pins st" by (simp add: pins_def)
  have ctx: "ctx_ok ?st e = ctx_ok st e" "ctx_blocks ?st e = ctx_blocks st e" for e
    by (simp_all add: ctx_ok_def ctx_blocks_def)
  have "pins st \<subseteq> set (logged H) \<union> (\<Union>e\<in>A - {c}. ctx_blocks st e)" using i H(4) by blast
  moreover have "set (logged H) \<inter> log_area (sblock st) = {}" using i H(4) bs by blast
  moreover have "card (A - {c}) = card A - 1" using c i by simp
  moreover have "lu \<le> log_used st" using lu by linarith
  ultimately have "log_inv (A - {c}) ?st"
    using i H(1) ctx p unfolding log_inv_def by (auto simp: lu_def)
  then show ?thesis using run H(1,3,4) \<open>lu \<le> log_used st\<close> lu_def by blast
qed

lemma view_disk:
  assumes "bc_inv st" "held st = {}" "pins st = {}"
  shows "view st = disk (dev st)"
proof
  fix b
  have wf: "bc_wf st" using assms(1) by (simp add: bc_inv_def)
  show "view st b = disk (dev st) b"
  proof (cases "\<exists>s\<in>set (lru st). block_no (slots st s) = b")
    case True
    then obtain s where s: "s \<in> set (lru st)" "block_no (slots st s) = b" by blast
    then have "\<not> acquired (slots st s)" "\<not> pinned (slots st s)"
      using assms(2,3) by (auto simp: held_def pins_def)
    then show ?thesis using s assms(1) view_slot [OF wf s] by (auto simp: bc_inv_def clean_def)
  qed (auto intro: view_uncached)
qed

section \<open>Ending the last operation\<close>

lemma checkpoint_header_idle:
  assumes "hdr_ok sb H"
  shows "hdr_num (bytes_header (apply_writes d (checkpoint_writes sb H v) (sb_log_start sb))) = 0"
proof -
  have fits: "header_fits H" using assms by (simp add: hdr_ok_def)
  show ?thesis
    using cleared_fits [OF fits] bytes_header_bytes [OF fits]
    by (simp add: checkpoint_writes_eq [OF assms])
qed

lemma checkpoint_view:
  assumes "hdr_ok sb H" "b \<notin> log_area sb"
  shows "apply_writes v (checkpoint_writes sb H v) b = v b"
proof -
  have "sb_log_start sb \<in> log_area sb" using assms(1) by (auto simp: hdr_ok_def log_area_def)
  then have "b \<noteq> sb_log_start sb" using assms(2) by auto
  moreover have "apply_writes v (log_writes sb H v) b = v b"
    using log_writes_other [of b sb H v "hdr_num H" v] assms by (simp add: log_writes_def)
  ultimately show ?thesis by (simp add: checkpoint_writes_eq [OF assms(1)] apply_writes_map)
qed

lemma cache_end_op_last:
  assumes inv: "log_inv {c} st" and bi: "bc_inv st" and h: "held st = {}" and room: "room st \<ge> 252"
  shows "\<exists>st' H. cache_end_op me c st = Inr st' \<and> log_inv {} st' \<and> bc_inv st' \<and> held st' = {} \<and>
    view st' = disk (dev st') \<and> (\<forall>b. b \<notin> log_area (sblock st) \<longrightarrow> disk (dev st') b = view st b) \<and>
    hdr_ok (sblock st) H \<and> set (logged H) = set (logged (header st)) \<union> ctx_blocks st c \<and>
    dev st' = dev_writes (dev st) (checkpoint_writes (sblock st) H (view st)) \<and>
    log_size st' = log_size st \<and> sblock st' = sblock st \<and> last_persisted_ts st' = last_allocated_ts st' \<and>
    last_allocated_ts st' = last_allocated_ts st \<and> used_block st' = used_block st \<and> ctxs st' = ctxs st \<and>
    room st \<le> room st' + 252"
proof -
  have wf: "bc_wf st" and lk: "free_lock (cache_lock st)" using bi by (simp_all add: bc_inv_def bc_wf_def)
  obtain H w lu where r: "end_op_commit me c st = Inr ({c} = {c}, log_size st,
      st\<lparr>cache_lock := taken me (cache_lock st), header := H, log_used := lu, woken := w,
        op_count := op_count st - 1, log_size := (if {c} = {c} then 0 else log_size st)\<rparr>)"
    and H: "header_fits H" "set (logged H) = set (logged (header st)) \<union> ctx_blocks st c"
    and li: "log_inv ({c} - {c}) (st\<lparr>header := H, log_used := lu, woken := w, op_count := op_count st - 1\<rparr>)"
    using end_op_commit_ok [OF inv lk, of c me] by blast
  let ?st2 = "st\<lparr>header := H, log_used := lu, woken := w, op_count := op_count st - 1, log_size := 0\<rparr>"
  have eq2: "st\<lparr>header := H, log_used := lu, woken := w, op_count := op_count st - 1, log_size := 0, cache_lock := cache_lock st\<rparr> = ?st2"
    by (cases st) simp
  have sb: "same_blocks st ?st2" by (simp add: same_blocks_def)
  have hok: "hdr_ok (sblock st) H" using log_inv_hdr_ok [OF li] by simp
  have hn: "hdr_num H \<le> 63" using hok by (simp add: hdr_ok_def)
  have ls: "log_start st = sb_log_start (sblock st) + 1" using inv by (simp add: log_inv_def)
  obtain st3 where e: "logrun (?st2\<lparr>header := cleared H\<rparr>) (checkpoint_writes (sblock st) H (view st))
      (set (logged H)) (4 * hdr_num H) st3"
    and cp: "checkpoint me ?st2 = Inr (wakeup ChPersisted (st3\<lparr>last_persisted_ts := last_allocated_ts st3\<rparr>))"
    using checkpoint_logrun [of ?st2 me] same_blocks_inv [OF sb] same_blocks_sets [OF sb] same_blocks_view [OF sb]
      bi h ls hok hn room by auto
  note f = logrun_fields [OF e]
  have v2: "view (?st2\<lparr>header := cleared H\<rparr>) = view st"
    by (rule same_blocks_view) (simp add: same_blocks_def)
  have lk3: "free_lock (cache_lock st3)" using f(4) by (simp add: bc_inv_def bc_wf_def)
  define st' where "st' = st3\<lparr>last_persisted_ts := last_allocated_ts st3, woken := woken st3 @ [ChPersisted, ChLogUsed],
    log_size := log_size st, log_used := 0\<rparr>"
  have run: "cache_end_op me c st = Inr st'"
    using r lk3 lk cp eq2
    by (simp add: cache_end_op_def end_op_finish_def wakeup_def Let_def st'_def)
  have sb': "same_blocks st3 st'" by (simp add: same_blocks_def st'_def)
  have pins: "pins st = {} \<or> pins st \<subseteq> set (logged H)" using inv H(2) by (auto simp: log_inv_def)
  moreover have "pins (?st2\<lparr>header := cleared H\<rparr>) = pins st" by (simp add: pins_def)
  ultimately have p3: "pins st3 = {}" using f(9) by auto
  have bi': "bc_inv st'" and h': "held st' = {}" and p': "pins st' = {}" and v': "view st' = view st3"
    using same_blocks_inv [OF sb'] same_blocks_sets [OF sb'] same_blocks_view [OF sb'] f p3 by simp_all
  have vd: "view st' = disk (dev st')" by (rule view_disk [OF bi' h' p'])
  have dv: "dev st' = dev_writes (dev st) (checkpoint_writes (sblock st) H (view st))"
    using f(7) by (simp add: st'_def)
  have "disk (dev st') b = view st b" if "b \<notin> log_area (sblock st)" for b
    using vd v' f(6) [unfolded v2] checkpoint_view [OF hok that, of "view st"] by metis
  moreover have "log_inv {} st'"
    using inv f hok p' checkpoint_header_idle [OF hok, of "disk (dev st)" "view st"]
    by (auto simp: log_inv_def st'_def dev_writes_fields hdr_ok_def logged_def header_fits_def)
  ultimately show ?thesis using run bi' h' vd dv hok H(2) f hn
    by (intro exI [of _ st'] exI [of _ H]) (simp add: st'_def)
qed

text \<open>Any other operation that ends waits for the next checkpoint, with its blocks committed.\<close>

lemma cache_end_op_waits:
  assumes inv: "log_inv A st" and lk: "free_lock (cache_lock st)" and c: "c \<in> A" "A \<noteq> {c}"
  shows "cache_end_op me c st = Inl (Blocked ''last_persisted_ts'')"
proof -
  have "ctx_ok st c" using inv c(1) by (simp add: log_inv_def)
  then have "last_persisted_ts st < ts (ctxs st c)" by (simp add: ctx_ok_def Let_def)
  then show ?thesis using end_op_commit_ok [OF inv lk c(1), of me] c(2) by (auto simp: cache_end_op_def)
qed

end
