(* ===== verification/BlockCache.thy ===== *)
theory BlockCache
  imports CacheOps
begin

text \<open>
  The interface \<open>BlockCache\<close> of \<open>fs/cache.h\<close>.  A client acquires a block, reads or changes its data,
  records the change in an atomic operation with \<open>sync\<close>, and releases it.  The locale \<open>block_store\<close>
  states what the client may rely on: \<open>vw\<close> is the content of every block as the client sees it,
  \<open>hb\<close> maps the \<open>Block\<close> structures it holds to block numbers, \<open>dirty\<close> are the held blocks changed
  without \<open>sync\<close>, \<open>opset c\<close> the blocks recorded in operation \<open>c\<close>.  The locale is interpreted on
  \<open>cache_acquire\<close>, \<open>cache_release\<close> and \<open>cache_sync\<close>.
\<close>

locale block_store =
  fixes acq :: "nat \<Rightarrow> 'c \<Rightarrow> (nat \<times> 'c) res"
    and rel :: "nat \<Rightarrow> 'c \<Rightarrow> 'c res"
    and syn :: "nat option \<Rightarrow> nat \<Rightarrow> 'c \<Rightarrow> 'c res"
    and getd :: "nat \<Rightarrow> 'c \<Rightarrow> bytes"
    and setd :: "nat \<Rightarrow> bytes \<Rightarrow> 'c \<Rightarrow> 'c"
    and inv :: "'c \<Rightarrow> bool"
    and vw :: "'c \<Rightarrow> disk"
    and hb :: "'c \<Rightarrow> nat \<rightharpoonup> nat"
    and dirty :: "'c \<Rightarrow> nat set"
    and opset :: "nat \<Rightarrow> 'c \<Rightarrow> nat set"
    and ops :: "nat set"
    and usable :: "nat \<Rightarrow> bool"
    and cap :: "'c \<Rightarrow> nat"
    and aux :: "'c \<Rightarrow> 'a"
  assumes vw_length: "inv st \<Longrightarrow> length (vw st b) = BLOCK_SIZE"
    and get_held: "\<lbrakk>inv st; hb st s = Some b\<rbrakk> \<Longrightarrow> getd s st = vw st b"
    and dirty_held: "\<lbrakk>inv st; b \<in> dirty st\<rbrakk> \<Longrightarrow> b \<in> Map.ran (hb st)"
    and acq_ok: "\<lbrakk>inv st; usable b; b \<notin> Map.ran (hb st); 0 < cap st\<rbrakk> \<Longrightarrow>
      \<exists>s st'. acq b st = Inr (s, st') \<and> inv st' \<and> hb st s = None \<and> hb st' = (hb st)(s \<mapsto> b) \<and>
        vw st' = vw st \<and> dirty st' = dirty st \<and> (\<forall>c. opset c st' = opset c st) \<and>
        cap st \<le> Suc (cap st') \<and> aux st' = aux st"
    and set_ok: "\<lbrakk>inv st; hb st s = Some b; length d = BLOCK_SIZE\<rbrakk> \<Longrightarrow>
      inv (setd s d st) \<and> hb (setd s d st) = hb st \<and> vw (setd s d st) = (vw st)(b := d) \<and>
      dirty (setd s d st) - {b} = dirty st - {b} \<and> (\<forall>c. opset c (setd s d st) = opset c st) \<and>
      cap (setd s d st) = cap st \<and> aux (setd s d st) = aux st"
    and sync_ok: "\<lbrakk>inv st; c \<in> ops; hb st s = Some b; usable b; b \<in> opset c st \<or> card (opset c st) < OP_MAX_NUM_BLOCKS\<rbrakk> \<Longrightarrow>
      \<exists>st'. syn (Some c) s st = Inr st' \<and> inv st' \<and> hb st' = hb st \<and> vw st' = vw st \<and>
        dirty st' = dirty st - {b} \<and> opset c st' = insert b (opset c st) \<and>
        (\<forall>e. e \<noteq> c \<longrightarrow> opset e st' = opset e st) \<and> cap st' = cap st \<and> aux st' = aux st"
    and rel_ok: "\<lbrakk>inv st; hb st s = Some b; b \<notin> dirty st\<rbrakk> \<Longrightarrow>
      \<exists>st'. rel s st = Inr st' \<and> inv st' \<and> hb st' = (hb st)(s := None) \<and> vw st' = vw st \<and>
        dirty st' = dirty st \<and> (\<forall>c. opset c st' = opset c st) \<and> cap st' = cap st \<and> aux st' = aux st"
begin

text \<open>Two patterns make up all the client code: reading a block, and changing one.\<close>

lemma read_block:
  assumes "inv st" "usable b" "b \<notin> Map.ran (hb st)" "0 < cap st"
  obtains s st1 st2 where "acq b st = Inr (s, st1)" "getd s st1 = vw st b" "rel s st1 = Inr st2"
    "inv st2" "hb st2 = hb st" "vw st2 = vw st" "dirty st2 = dirty st" "\<And>c. opset c st2 = opset c st"
    "cap st \<le> Suc (cap st2)" "aux st2 = aux st"
proof -
  obtain s st1 where a: "acq b st = Inr (s, st1)" "inv st1" "hb st s = None" "hb st1 = (hb st)(s \<mapsto> b)"
      "vw st1 = vw st" "dirty st1 = dirty st" "\<forall>c. opset c st1 = opset c st" "cap st \<le> Suc (cap st1)" "aux st1 = aux st"
    using acq_ok [OF assms] by blast
  have h: "hb st1 s = Some b" using a by simp
  have "b \<notin> dirty st1" using a(6) dirty_held [OF assms(1)] assms(3) by blast
  then obtain st2 where r: "rel s st1 = Inr st2" "inv st2" "hb st2 = (hb st1)(s := None)" "vw st2 = vw st1"
      "dirty st2 = dirty st1" "\<forall>c. opset c st2 = opset c st1" "cap st2 = cap st1" "aux st2 = aux st1"
    using rel_ok [OF a(2) h] by blast
  moreover have "hb st2 = hb st" using r(3) a(3,4) by auto
  moreover have "getd s st1 = vw st b" using get_held [OF a(2) h] a(5) by simp
  ultimately show thesis using that a by auto
qed

lemma change_block:
  assumes "inv st" "usable b" "b \<notin> Map.ran (hb st)" "0 < cap st" "length (f (vw st b)) = BLOCK_SIZE"
    "c \<in> ops" "b \<in> opset c st \<or> card (opset c st) < OP_MAX_NUM_BLOCKS"
  obtains s st1 st2 st3 where "acq b st = Inr (s, st1)" "getd s st1 = vw st b"
    "syn (Some c) s (setd s (f (vw st b)) st1) = Inr st2" "rel s st2 = Inr st3"
    "inv st3" "hb st3 = hb st" "vw st3 = (vw st)(b := f (vw st b))" "dirty st3 = dirty st"
    "opset c st3 = insert b (opset c st)" "\<And>e. e \<noteq> c \<Longrightarrow> opset e st3 = opset e st"
    "cap st \<le> Suc (cap st3)" "aux st3 = aux st"
proof -
  obtain s st1 where a: "acq b st = Inr (s, st1)" "inv st1" "hb st s = None" "hb st1 = (hb st)(s \<mapsto> b)"
      "vw st1 = vw st" "dirty st1 = dirty st" "\<forall>c. opset c st1 = opset c st" "cap st \<le> Suc (cap st1)" "aux st1 = aux st"
    using acq_ok [OF assms(1-4)] by blast
  have h: "hb st1 s = Some b" using a by simp
  let ?d = "f (vw st b)"
  let ?st = "setd s ?d st1"
  have u: "inv ?st" "hb ?st = hb st1" "vw ?st = (vw st1)(b := ?d)" "dirty ?st - {b} = dirty st1 - {b}"
      "\<forall>c. opset c ?st = opset c st1" "cap ?st = cap st1" "aux ?st = aux st1"
    using set_ok [OF a(2) h assms(5)] by blast+
  have h': "hb ?st s = Some b" and sp: "b \<in> opset c ?st \<or> card (opset c ?st) < 10" using u h a(7) assms(7) by simp_all
  obtain st2 where y: "syn (Some c) s ?st = Inr st2" "inv st2" "hb st2 = hb ?st" "vw st2 = vw ?st"
      "dirty st2 = dirty ?st - {b}" "opset c st2 = insert b (opset c ?st)"
      "\<forall>e. e \<noteq> c \<longrightarrow> opset e st2 = opset e ?st" "cap st2 = cap ?st" "aux st2 = aux ?st"
    using sync_ok [OF u(1) assms(6) h' assms(2) sp] by blast
  have hy: "hb st2 s = Some b" using y(3) h' by simp
  have nd: "b \<notin> dirty st2" using y(5) by simp
  obtain st3 where r: "rel s st2 = Inr st3" "inv st3" "hb st3 = (hb st2)(s := None)" "vw st3 = vw st2"
      "dirty st3 = dirty st2" "\<forall>c. opset c st3 = opset c st2" "cap st3 = cap st2" "aux st3 = aux st2"
    using rel_ok [OF y(2) hy nd] by blast
  have hb3: "hb st3 = hb st" using r(3) y(3) u(2) a(3,4) by auto
  have "b \<notin> dirty st" using dirty_held [OF assms(1)] assms(3) by blast
  then have "dirty st3 = dirty st" using r(5) y(5) u(4) a(6) by simp
  moreover have "opset c st3 = insert b (opset c st)" "\<And>e. e \<noteq> c \<Longrightarrow> opset e st3 = opset e st"
    using r(6) y(6,7) u(5) a(7) by simp_all
  moreover have "vw st3 = (vw st)(b := ?d)" "cap st \<le> Suc (cap st3)" "aux st3 = aux st"
    using r(4,7,8) y(4,8,9) u(3,6,7) a(5,8,9) by simp_all
  moreover have "getd s st1 = vw st b" using get_held [OF a(2) h] a(5) by simp
  ultimately show thesis using that a(1) y(1) r(1,2) hb3 by blast
qed

end

section \<open>The cache provides the interface\<close>

definition block_data :: "nat \<Rightarrow> bcache \<Rightarrow> bytes" where
  "block_data s st = data (slots st s)"

definition set_block_data :: "nat \<Rightarrow> bytes \<Rightarrow> bcache \<Rightarrow> bcache" where
  "set_block_data s d st = upd_slot s (\<lambda>x. x\<lparr>data := d\<rparr>) st"

definition hblock :: "bcache \<Rightarrow> nat \<rightharpoonup> nat" where
  "hblock st s = (if s \<in> set (lru st) \<and> acquired (slots st s) then Some (block_no (slots st s)) else None)"

definition dirty_blocks :: "bcache \<Rightarrow> nat set" where
  "dirty_blocks st = {block_no (slots st s) | s. s \<in> set (lru st) \<and> acquired (slots st s) \<and> \<not> clean st s}"

definition client_block :: "SuperBlock \<Rightarrow> nat \<Rightarrow> bool" where
  "client_block sb b \<longleftrightarrow> b < 2 ^ 64 \<and> b \<notin> log_area sb"

definition client_inv :: "SuperBlock \<Rightarrow> nat set \<Rightarrow> bcache \<Rightarrow> bool" where
  "client_inv sb A st \<longleftrightarrow> sblock st = sb \<and> bc_inv st \<and> log_inv A st"

lemma ran_hblock: "Map.ran (hblock st) = held st"
  by (auto simp: Map.ran_def hblock_def held_def split: if_splits)

lemma hblock_Some: "hblock st s = Some b \<longleftrightarrow> s \<in> set (lru st) \<and> acquired (slots st s) \<and> block_no (slots st s) = b"
  by (auto simp: hblock_def)

lemma dirty_blocks_iff:
  assumes "bc_wf st" "s \<in> set (lru st)" "acquired (slots st s)"
  shows "block_no (slots st s) \<in> dirty_blocks st \<longleftrightarrow> \<not> clean st s"
  using assms by (auto simp: dirty_blocks_def bc_wf_def dest: inj_onD)

lemma log_inv_blocks:
  "\<lbrakk>log_inv A st; cache_only st st'; pins st' = pins st\<rbrakk> \<Longrightarrow> log_inv A st'"
  using cache_onlyD [of st st'] by (simp add: log_inv_def ctx_ok_def ctx_blocks_def)

text \<open>One slot changes, keeping its block number and whether it is held: the other held blocks keep
  their dirtiness.\<close>

lemma dirty_upd_slot:
  assumes "bc_wf st" "s \<in> set (lru st)" "block_no (f (slots st s)) = block_no (slots st s)" "acquired (f (slots st s)) = acquired (slots st s)"
  shows "dirty_blocks (upd_slot s f st) - {block_no (slots st s)} = dirty_blocks st - {block_no (slots st s)}"
proof -
  have inj: "t = s" if "t \<in> set (lru st)" "block_no (slots st t) = block_no (slots st s)" for t
    using that assms(1,2) by (auto simp: bc_wf_def dest: inj_onD)
  have cl: "clean (upd_slot s f st) t = clean st t" if "t \<noteq> s" for t using that by (simp add: clean_def)
  have "b \<in> dirty_blocks (upd_slot s f st) \<longleftrightarrow> b \<in> dirty_blocks st" if "b \<noteq> block_no (slots st s)" for b
    using that assms(3,4) cl unfolding dirty_blocks_def by (simp) metis
  then show ?thesis by blast
qed

lemma bc_acquire_law:
  assumes "client_inv sb A st" "client_block sb b" "b \<notin> Map.ran (hblock st)" "0 < room st"
  shows "\<exists>s st'. cache_acquire me b st = Inr (s, st') \<and> client_inv sb A st' \<and> hblock st s = None \<and>
    hblock st' = (hblock st)(s \<mapsto> b) \<and> view st' = view st \<and> dirty_blocks st' = dirty_blocks st \<and>
    (\<forall>c. ctx_blocks st' c = ctx_blocks st c) \<and> room st \<le> Suc (room st') \<and> used_block st' = used_block st"
proof -
  have bi: "bc_inv st" and li: "log_inv A st" and sb: "sblock st = sb" using assms(1) by (simp_all add: client_inv_def)
  have wf: "bc_wf st" using bi by (simp add: bc_inv_def)
  have nh: "b \<notin> held st" using assms(3) by (simp add: ran_hblock)
  have "sb_log_start sb \<in> log_area sb" using li sb by (simp add: log_inv_def sb_ok_def log_area_def)
  then have "b \<noteq> sb_log_start (sblock st)" using assms(2) sb by (auto simp: client_block_def)
  then obtain s st' where r: "cache_acquire me b st = Inr (s, st')" and a: "acquired_as st b s st'"
    using cache_acquire_ok [OF wf nh assms(4)] by blast
  note f = acquired_as_facts [OF wf a] and o = cache_onlyD [OF acquired_as_facts(1) [OF wf a]]
  have none: "hblock st s = None" using acquired_as_other(1) [OF a nh, of s] by (auto simp: hblock_def)
  from a obtain y n r' where st': "st' = st\<lparr>slots := (slots st)(s := y), lru := s # removeAll s (lru st), nslots := n, room := r'\<rparr>"
    and y: "block_no y = b" "acquired y"
    unfolding acquired_as_def by blast
  have hb: "hblock st' = (hblock st)(s \<mapsto> b)" using y by (auto simp: hblock_def st' fun_eq_iff)
  have vw: "view st' = view st" using acquired_as_view [OF wf _ a] bi by (auto simp: bc_inv_def)
  have own: "clean st' s" by (rule acquired_as_own_clean [OF bi a nh])
  have "c \<in> dirty_blocks st' \<longleftrightarrow> c \<in> dirty_blocks st" for c
  proof -
    have cl: "clean st' t = clean st t" if "t \<noteq> s" for t using that by (simp add: clean_def st')
    have "\<not> (s \<in> set (lru st) \<and> acquired (slots st s))" using none by (auto simp: hblock_def)
    then show ?thesis using own cl unfolding dirty_blocks_def st' by (simp) metis
  qed
  then have "dirty_blocks st' = dirty_blocks st" by blast
  moreover have "client_inv sb A st'"
    using acquired_as_inv [OF bi a] log_inv_blocks [OF li f(1) acquired_as_pins [OF wf a]] o sb
    by (simp add: client_inv_def)
  ultimately show ?thesis using r none hb vw f o by (intro exI [of _ s] exI [of _ st']) (simp add: ctx_blocks_def)
qed

lemma bc_set_law:
  assumes "client_inv sb A st" "hblock st s = Some b" "length d = BLOCK_SIZE"
  shows "client_inv sb A (set_block_data s d st) \<and> hblock (set_block_data s d st) = hblock st \<and>
    view (set_block_data s d st) = (view st)(b := d) \<and>
    dirty_blocks (set_block_data s d st) - {b} = dirty_blocks st - {b} \<and>
    (\<forall>c. ctx_blocks (set_block_data s d st) c = ctx_blocks st c) \<and>
    room (set_block_data s d st) = room st \<and> used_block (set_block_data s d st) = used_block st"
proof -
  have bi: "bc_inv st" and li: "log_inv A st" and sb: "sblock st = sb" using assms(1) by (simp_all add: client_inv_def)
  have wf: "bc_wf st" using bi by (simp add: bc_inv_def)
  have s: "s \<in> set (lru st)" "acquired (slots st s)" "block_no (slots st s) = b"
    using assms(2) by (simp_all add: hblock_Some)
  note u = upd_data_inv [OF bi s(1,2) assms(3)]
  have "hblock (set_block_data s d st) = hblock st"
    by (rule ext) (simp add: hblock_def set_block_data_def)
  moreover have "log_inv A (set_block_data s d st)" unfolding set_block_data_def
    by (rule log_inv_blocks [OF li cache_only_upd_slot u(4)])
  ultimately show ?thesis
    using u sb s dirty_upd_slot [OF wf s(1), of "\<lambda>x. x\<lparr>data := d\<rparr>"]
    by (simp add: client_inv_def set_block_data_def ctx_blocks_def)
qed

lemma bc_sync_law:
  assumes "client_inv sb A st" "c \<in> A" "hblock st s = Some b" "client_block sb b"
    "b \<in> ctx_blocks st c \<or> card (ctx_blocks st c) < OP_MAX_NUM_BLOCKS"
  shows "\<exists>st'. cache_sync me (Some c) s st = Inr st' \<and> client_inv sb A st' \<and> hblock st' = hblock st \<and>
    view st' = view st \<and> dirty_blocks st' = dirty_blocks st - {b} \<and>
    ctx_blocks st' c = insert b (ctx_blocks st c) \<and> (\<forall>e. e \<noteq> c \<longrightarrow> ctx_blocks st' e = ctx_blocks st e) \<and>
    room st' = room st \<and> used_block st' = used_block st"
proof -
  have bi: "bc_inv st" and li: "log_inv A st" and sb: "sblock st = sb" using assms(1) by (simp_all add: client_inv_def)
  have wf: "bc_wf st" using bi by (simp add: bc_inv_def)
  have s: "s \<in> set (lru st)" "acquired (slots st s)" "block_no (slots st s) = b"
    using assms(3) by (simp_all add: hblock_Some)
  have b: "b < 2 ^ 64" "b \<notin> log_area (sblock st)" using assms(4) sb by (simp_all add: client_block_def)
  obtain st' where r: "cache_sync me (Some c) s st = Inr st'" and
    e: "log_inv A st'" "bc_inv st'" "view st' = view st" "ctx_blocks st' c = insert b (ctx_blocks st c)"
    "\<forall>e. e \<noteq> c \<longrightarrow> ctxs st' e = ctxs st e" "dev st' = dev st" "lru st' = lru st"
    "slots st' = (slots st)(s := (slots st s)\<lparr>pinned := True\<rparr>)" "room st' = room st"
    "used_block st' = used_block st" "sblock st' = sblock st"
    using cache_sync_ok [OF li bi assms(2) s b assms(5), of me] by blast
  have hb: "hblock st' = hblock st" by (rule ext) (simp add: hblock_def e(7,8))
  have own: "clean st' s" by (simp add: clean_def e(8))
  have cl: "clean st' t = clean st t" if "t \<noteq> s" for t using that by (simp add: clean_def e(6,8))
  have inj: "t = s" if "t \<in> set (lru st)" "block_no (slots st t) = b" for t
    using that s wf by (auto simp: bc_wf_def dest: inj_onD)
  have "x \<in> dirty_blocks st' \<longleftrightarrow> x \<in> dirty_blocks st \<and> x \<noteq> b" for x
  proof
    assume "x \<in> dirty_blocks st'"
    then obtain t where t: "t \<in> set (lru st)" "acquired (slots st' t)" "\<not> clean st' t" "x = block_no (slots st' t)"
      by (auto simp: dirty_blocks_def e(7))
    then have ts: "t \<noteq> s" using own by auto
    then have "acquired (slots st t)" "\<not> clean st t" "x = block_no (slots st t)" using t cl e(8) by simp_all
    then show "x \<in> dirty_blocks st \<and> x \<noteq> b" using t(1) ts inj by (auto simp: dirty_blocks_def)
  next
    assume x: "x \<in> dirty_blocks st \<and> x \<noteq> b"
    then obtain t where t: "t \<in> set (lru st)" "acquired (slots st t)" "\<not> clean st t" "x = block_no (slots st t)"
      by (auto simp: dirty_blocks_def)
    then have "t \<noteq> s" using x s by auto
    then show "x \<in> dirty_blocks st'" using t cl e(7,8) by (auto simp: dirty_blocks_def)
  qed
  then have "dirty_blocks st' = dirty_blocks st - {b}" by blast
  then show ?thesis using r e hb sb
    by (intro exI [of _ st']) (simp add: client_inv_def ctx_blocks_def)
qed

lemma bc_release_law:
  assumes "client_inv sb A st" "hblock st s = Some b" "b \<notin> dirty_blocks st"
  shows "\<exists>st'. cache_release me s st = Inr st' \<and> client_inv sb A st' \<and> hblock st' = (hblock st)(s := None) \<and>
    view st' = view st \<and> dirty_blocks st' = dirty_blocks st \<and> (\<forall>c. ctx_blocks st' c = ctx_blocks st c) \<and>
    room st' = room st \<and> used_block st' = used_block st"
proof -
  have bi: "bc_inv st" and li: "log_inv A st" and sb: "sblock st = sb" using assms(1) by (simp_all add: client_inv_def)
  have wf: "bc_wf st" using bi by (simp add: bc_inv_def)
  have s: "s \<in> set (lru st)" "acquired (slots st s)" "block_no (slots st s) = b"
    using assms(2) by (simp_all add: hblock_Some)
  have c: "clean st s" using dirty_blocks_iff [OF wf s(1,2)] s(3) assms(3) by simp
  let ?st = "upd_slot s released st"
  have r: "cache_release me s st = Inr ?st" by (rule cache_release_ok [OF wf s(1)])
  note e = cache_release_effect [OF bi s(1,2) c refl]
  have hb: "hblock ?st = (hblock st)(s := None)" by (rule ext) (simp add: hblock_def)
  have cl: "clean ?st t = clean st t" for t by (simp add: clean_def)
  have "x \<in> dirty_blocks ?st \<longleftrightarrow> x \<in> dirty_blocks st" for x
    using c cl unfolding dirty_blocks_def by (simp) metis
  then have "dirty_blocks ?st = dirty_blocks st" by blast
  moreover have "log_inv A ?st" by (rule log_inv_blocks [OF li cache_only_upd_slot e(4)])
  ultimately show ?thesis using r e hb sb
    by (intro exI [of _ ?st]) (simp add: client_inv_def ctx_blocks_def)
qed

interpretation bc: block_store "cache_acquire me" "cache_release me" "cache_sync me" block_data set_block_data
  "client_inv sb A" view hblock dirty_blocks "\<lambda>c st. ctx_blocks st c" A "client_block sb" room used_block
  for me sb A
proof
  fix st :: bcache and b s
  assume inv: "client_inv sb A st"
  then have wf: "bc_wf st" by (simp add: client_inv_def bc_inv_def)
  show "length (view st b) = 512" by (rule bc_wf_view_length [OF wf])
  show "block_data s st = view st b" if "hblock st s = Some b"
  proof -
    have s: "s \<in> set (lru st)" "acquired (slots st s)" "block_no (slots st s) = b" using that by (simp_all add: hblock_Some)
    then have "slot_wf (slots st s)" using wf by (simp add: bc_wf_def)
    then show ?thesis using s view_slot [OF wf s(1,3)] by (simp add: slot_wf_def block_data_def)
  qed
  show "b \<in> Map.ran (hblock st)" if "b \<in> dirty_blocks st"
    using that unfolding ran_hblock by (auto simp: dirty_blocks_def held_def)
qed (rule bc_acquire_law bc_set_law bc_sync_law bc_release_law; assumption)+

end
