(* ===== verification/CString.thy ===== *)
theory CString
  imports Prelude
begin

text \<open>
  \<open>common/string.c\<close>.  A pointer to an array is its contents from that address on, \<open>nat \<Rightarrow> u8\<close>; the
  functions whose arguments are \<open>restrict\<close> or only read work on such arrays.  \<open>memmove\<close>, whose
  regions may overlap, works on one memory with 64-bit addresses.  Characters are unsigned, as on
  the AArch64 target.
\<close>

type_synonym arr = "nat \<Rightarrow> u8"
type_synonym mem = "u64 \<Rightarrow> u8"

definition arr_of :: "bytes \<Rightarrow> arr" where
  "arr_of bs = (\<lambda>i. if i < length bs then bs ! i else 0)"

section \<open>The functions\<close>

function memset_loop :: "arr \<Rightarrow> u8 \<Rightarrow> nat \<Rightarrow> nat \<Rightarrow> arr" where
  "memset_loop s c i n = (if i < n then memset_loop (s(i := c)) c (Suc i) n else s)"
  by pat_completeness auto
termination by (relation "measure (\<lambda>(s, c, i, n). n - i)") auto

definition memset :: "arr \<Rightarrow> u32 \<Rightarrow> nat \<Rightarrow> arr" where
  "memset s c n = memset_loop s (ucast (c AND 0xff)) 0 n"

function memcpy_loop :: "arr \<Rightarrow> arr \<Rightarrow> nat \<Rightarrow> nat \<Rightarrow> arr" where
  "memcpy_loop dest src i n = (if i < n then memcpy_loop (dest(i := src i)) src (Suc i) n else dest)"
  by pat_completeness auto
termination by (relation "measure (\<lambda>(d, s, i, n). n - i)") auto

definition memcpy :: "arr \<Rightarrow> arr \<Rightarrow> nat \<Rightarrow> arr" where
  "memcpy dest src n = memcpy_loop dest src 0 n"

function memcmp_loop :: "arr \<Rightarrow> arr \<Rightarrow> nat \<Rightarrow> nat \<Rightarrow> int" where
  "memcmp_loop s1 s2 i n =
     (if i < n
      then (let c1 = uint (s1 i); c2 = uint (s2 i)
            in if c1 \<noteq> c2 then c1 - c2 else memcmp_loop s1 s2 (Suc i) n)
      else 0)"
  by pat_completeness auto
termination by (relation "measure (\<lambda>(s1, s2, i, n). n - i)") auto

definition memcmp :: "arr \<Rightarrow> arr \<Rightarrow> nat \<Rightarrow> int" where
  "memcmp s1 s2 n = memcmp_loop s1 s2 0 n"

text \<open>\<open>while (n-- > 0) *--d = *--s\<close> and \<open>while (n-- > 0) *d++ = *s++\<close>.\<close>

fun move_down :: "u64 \<Rightarrow> u64 \<Rightarrow> nat \<Rightarrow> mem \<Rightarrow> mem" where
  "move_down d s 0 m = m"
| "move_down d s (Suc n) m = move_down (d - 1) (s - 1) n (m(d - 1 := m (s - 1)))"

fun move_up :: "u64 \<Rightarrow> u64 \<Rightarrow> nat \<Rightarrow> mem \<Rightarrow> mem" where
  "move_up d s 0 m = m"
| "move_up d s (Suc n) m = move_up (d + 1) (s + 1) n (m(d := m s))"

definition memmove :: "u64 \<Rightarrow> u64 \<Rightarrow> nat \<Rightarrow> mem \<Rightarrow> mem" where
  "memmove d s n m =
     (if s < d \<and> unat (d - s) < n
      then move_down (d + of_nat n) (s + of_nat n) n m
      else move_up d s n m)"

function copy_str :: "arr \<Rightarrow> arr \<Rightarrow> nat \<Rightarrow> nat \<Rightarrow> nat \<times> arr" where
  "copy_str dest src i n =
     (if i < n \<and> src i \<noteq> 0 then copy_str (dest(i := src i)) src (Suc i) n else (i, dest))"
  by pat_completeness auto
termination by (relation "measure (\<lambda>(d, s, i, n). n - i)") auto

definition strncpy :: "arr \<Rightarrow> arr \<Rightarrow> nat \<Rightarrow> arr" where
  "strncpy dest src n = (case copy_str dest src 0 n of (i, d) \<Rightarrow> memset_loop d 0 i n)"

definition strncpy_fast :: "arr \<Rightarrow> arr \<Rightarrow> nat \<Rightarrow> arr" where
  "strncpy_fast dest src n =
     (case copy_str dest src 0 n of (i, d) \<Rightarrow> if i < n then d(i := 0) else d)"

function strncmp_loop :: "arr \<Rightarrow> arr \<Rightarrow> nat \<Rightarrow> nat \<Rightarrow> int" where
  "strncmp_loop s1 s2 i n =
     (if i < n
      then (if s1 i \<noteq> s2 i then uint (s1 i) - uint (s2 i)
            else if s1 i = 0 \<or> s2 i = 0 then 0
            else strncmp_loop s1 s2 (Suc i) n)
      else 0)"
  by pat_completeness auto
termination by (relation "measure (\<lambda>(s1, s2, i, n). n - i)") auto

definition strncmp :: "arr \<Rightarrow> arr \<Rightarrow> nat \<Rightarrow> int" where
  "strncmp s1 s2 n = strncmp_loop s1 s2 0 n"

text \<open>\<open>strlen\<close> returns only if it finds the terminator.\<close>

partial_function (option) strlen_from :: "arr \<Rightarrow> nat \<Rightarrow> nat option" where
  "strlen_from s i = (if s i \<noteq> 0 then strlen_from s (Suc i) else Some i)"

definition strlen :: "arr \<Rightarrow> nat option" where
  "strlen s = strlen_from s 0"

declare memset_loop.simps [simp del] memcpy_loop.simps [simp del] memcmp_loop.simps [simp del]
  copy_str.simps [simp del] strncmp_loop.simps [simp del]

section \<open>Filling and copying\<close>

lemma memset_loop_nth: "memset_loop s c i n k = (if i \<le> k \<and> k < n then c else s k)"
proof (induction s c i n rule: memset_loop.induct)
  case (1 s c i n)
  show ?case
  proof (cases "i < n")
    case True
    have "memset_loop s c i n k = memset_loop (s(i := c)) c (Suc i) n k"
      by (subst memset_loop.simps) (simp add: True)
    also have "\<dots> = (if Suc i \<le> k \<and> k < n then c else (s(i := c)) k)" by (rule "1.IH" [OF True])
    finally show ?thesis using True by auto
  qed (auto simp: memset_loop.simps [of s c i n])
qed

lemma memset_nth: "memset s c n k = (if k < n then ucast (c AND 0xff) else s k)"
  by (simp add: memset_def memset_loop_nth)

lemma memcpy_loop_nth: "memcpy_loop d s i n k = (if i \<le> k \<and> k < n then s k else d k)"
proof (induction d s i n rule: memcpy_loop.induct)
  case (1 d s i n)
  show ?case
  proof (cases "i < n")
    case True
    have "memcpy_loop d s i n k = memcpy_loop (d(i := s i)) s (Suc i) n k"
      by (subst memcpy_loop.simps) (simp add: True)
    also have "\<dots> = (if Suc i \<le> k \<and> k < n then s k else (d(i := s i)) k)" by (rule "1.IH" [OF True])
    finally show ?thesis using True by (auto simp: le_less_Suc_eq not_less_eq_eq)
  qed (auto simp: memcpy_loop.simps [of d s i n])
qed

lemma memcpy_nth: "memcpy d s n k = (if k < n then s k else d k)"
  by (simp add: memcpy_def memcpy_loop_nth)

lemma all_from: "(\<forall>k. i \<le> k \<and> k < n \<longrightarrow> P k) \<longleftrightarrow> (i < n \<longrightarrow> P i \<and> (\<forall>k. Suc i \<le> k \<and> k < n \<longrightarrow> P k))"
  for n :: nat
proof -
  have "i \<le> k \<longleftrightarrow> k = i \<or> Suc i \<le> k" for k by auto
  then show ?thesis by auto
qed

lemma memcmp_loop_0: "memcmp_loop s1 s2 i n = 0 \<longleftrightarrow> (\<forall>k. i \<le> k \<and> k < n \<longrightarrow> s1 k = s2 k)"
proof (induction s1 s2 i n rule: memcmp_loop.induct)
  case (1 s1 s2 i n)
  then show ?case
    by (subst all_from) (auto simp: memcmp_loop.simps [of s1 s2 i n] Let_def simp flip: word_uint_eq_iff)
qed

lemma memcmp_0: "memcmp s1 s2 n = 0 \<longleftrightarrow> (\<forall>k<n. s1 k = s2 k)"
  by (simp add: memcmp_def memcmp_loop_0)

section \<open>Overlapping moves\<close>

text \<open>Addresses of one region are distinct as long as it does not wrap around the address space.\<close>

lemma unat_off: "unat a + i < 2 ^ 64 \<Longrightarrow> unat (a + of_nat i :: u64) = unat a + i"
  by (simp add: unat_word_ariths unat_of_nat)

lemma off_eq_iff: "\<lbrakk>unat a + i < 2 ^ 64; unat b + j < 2 ^ 64\<rbrakk> \<Longrightarrow>
    (a + of_nat i :: u64) = b + of_nat j \<longleftrightarrow> unat a + i = unat b + j"
  by (simp add: word_unat_eq_iff unat_off)

lemma move_up_nth:
  assumes "unat d + n \<le> 2 ^ 64" "unat s + n \<le> 2 ^ 64" "unat d \<le> unat s \<or> unat s + n \<le> unat d"
  shows "(i < n \<longrightarrow> move_up d s n m (d + of_nat i) = m (s + of_nat i)) \<and>
    (\<forall>a. (\<forall>i<n. a \<noteq> d + of_nat i) \<longrightarrow> move_up d s n m a = m a)"
  using assms
proof (induction n arbitrary: d s m i)
  case 0
  then show ?case by simp
next
  case (Suc n)
  show ?case
  proof (cases n)
    case 0
    then show ?thesis by auto
  next
    case (Suc n')
    let ?m = "m(d := m s)"
    have d1: "unat (d + 1) = unat d + 1" and s1: "unat (s + 1) = unat s + 1"
      using Suc.prems Suc unat_off [of d 1] unat_off [of s 1] by simp_all
    have IH: "(j < n \<longrightarrow> move_up (d + 1) (s + 1) n ?m (d + 1 + of_nat j) = ?m (s + 1 + of_nat j)) \<and>
        (\<forall>a. (\<forall>i<n. a \<noteq> d + 1 + of_nat i) \<longrightarrow> move_up (d + 1) (s + 1) n ?m a = ?m a)" for j
      using Suc.prems d1 s1 by (intro Suc.IH) auto
    have outside: "move_up d s (Suc n) m a = m a" if "\<forall>i<Suc n. a \<noteq> d + of_nat i" for a
    proof -
      have "\<forall>i<n. a \<noteq> d + 1 + of_nat i"
      proof (intro allI impI)
        fix i assume "i < n"
        then show "a \<noteq> d + 1 + of_nat i" using that [rule_format, of "Suc i"] by (simp add: add.assoc)
      qed
      moreover have "a \<noteq> d" using that [rule_format, of 0] by simp
      ultimately show ?thesis using IH by simp
    qed
    have inside: "move_up d s (Suc n) m (d + of_nat i) = m (s + of_nat i)" if i: "i < Suc n"
    proof (cases i)
      case 0
      have "d \<noteq> d + 1 + of_nat k" if "k < n" for k
        using off_eq_iff [of "d + 1" k d 0] that Suc.prems d1 by simp
      then show ?thesis using IH 0 by simp
    next
      case (Suc j)
      have ne: "s + 1 + of_nat j \<noteq> d"
        using off_eq_iff [of "s + 1" j d 0] i Suc Suc.prems s1 by auto
      have "move_up d s (Suc n) m (d + of_nat i) = ?m (s + 1 + of_nat j)"
        using IH [of j] i Suc by (simp add: add.assoc)
      with ne Suc show ?thesis by (simp add: add.assoc)
    qed
    show ?thesis using inside outside by blast
  qed
qed

lemma move_down_nth:
  assumes "unat d + n \<le> 2 ^ 64" "unat s + n \<le> 2 ^ 64" "unat s \<le> unat d"
  shows "(i < n \<longrightarrow> move_down (d + of_nat n) (s + of_nat n) n m (d + of_nat i) = m (s + of_nat i)) \<and>
    (\<forall>a. (\<forall>i<n. a \<noteq> d + of_nat i) \<longrightarrow> move_down (d + of_nat n) (s + of_nat n) n m a = m a)"
  using assms
proof (induction n arbitrary: m i)
  case 0
  then show ?case by simp
next
  case (Suc n)
  let ?m = "m(d + of_nat n := m (s + of_nat n))"
  have step: "move_down (d + of_nat (Suc n)) (s + of_nat (Suc n)) (Suc n) m =
      move_down (d + of_nat n) (s + of_nat n) n ?m"
    by simp
  have IH: "(j < n \<longrightarrow> move_down (d + of_nat n) (s + of_nat n) n ?m (d + of_nat j) = ?m (s + of_nat j)) \<and>
      (\<forall>a. (\<forall>i<n. a \<noteq> d + of_nat i) \<longrightarrow> move_down (d + of_nat n) (s + of_nat n) n ?m a = ?m a)" for j
    using Suc.prems by (intro Suc.IH) auto
  have outside: "move_down (d + of_nat n) (s + of_nat n) n ?m a = m a"
    if "\<forall>i<Suc n. a \<noteq> d + of_nat i" for a
    using IH that by simp
  have inside: "move_down (d + of_nat n) (s + of_nat n) n ?m (d + of_nat i) = m (s + of_nat i)"
    if i: "i < Suc n"
  proof (cases "i = n")
    case True
    have "d + of_nat n \<noteq> d + (of_nat k :: u64)" if "k < n" for k
      using off_eq_iff [of d n d k] that Suc.prems by simp
    then show ?thesis using IH True by simp
  next
    case False
    then have "s + of_nat i \<noteq> d + (of_nat n :: u64)"
      using off_eq_iff [of s i d n] i Suc.prems by simp
    then show ?thesis using IH [of i] i False by simp
  qed
  show ?case using inside outside unfolding step by blast
qed

lemma memmove_nth:
  assumes "unat d + n \<le> 2 ^ 64" "unat s + n \<le> 2 ^ 64"
  shows "(\<forall>i<n. memmove d s n m (d + of_nat i) = m (s + of_nat i)) \<and>
    (\<forall>a. (\<forall>i<n. a \<noteq> d + of_nat i) \<longrightarrow> memmove d s n m a = m a)"
proof (cases "s < d \<and> unat (d - s) < n")
  case True
  then have "unat s \<le> unat d" by (simp add: word_less_nat_alt)
  then show ?thesis using True move_down_nth [OF assms] by (simp add: memmove_def)
next
  case False
  have "unat d \<le> unat s \<or> unat s + n \<le> unat d"
  proof (cases "s < d")
    case True
    then have "unat (d - s) = unat d - unat s" by (simp add: unat_sub)
    with False True show ?thesis by auto
  next
    case False
    then show ?thesis by (simp add: word_less_nat_alt)
  qed
  then show ?thesis using False move_up_nth [OF assms] by (simp add: memmove_def) blast
qed

section \<open>Bounded C strings\<close>

text \<open>\<open>cstr s n\<close> is the string in an \<open>n\<close>-byte field: the bytes before the first NUL.\<close>

function cstr_from :: "arr \<Rightarrow> nat \<Rightarrow> nat \<Rightarrow> bytes" where
  "cstr_from s i n = (if i < n \<and> s i \<noteq> 0 then s i # cstr_from s (Suc i) n else [])"
  by pat_completeness auto
termination by (relation "measure (\<lambda>(s, i, n). n - i)") auto

declare cstr_from.simps [simp del]

definition cstr :: "arr \<Rightarrow> nat \<Rightarrow> bytes" where
  "cstr s n = cstr_from s 0 n"

lemma cstr_from_eq:
  "\<lbrakk>i \<le> e; e \<le> n; \<forall>j. i \<le> j \<and> j < e \<longrightarrow> s j \<noteq> 0; e < n \<longrightarrow> s e = 0\<rbrakk> \<Longrightarrow> cstr_from s i n = map s [i..<e]"
proof (induction s i n rule: cstr_from.induct)
  case (1 s i n)
  show ?case
  proof (cases "i = e")
    case True
    have "\<not> (i < n \<and> s i \<noteq> 0)" using True "1.prems" by auto
    then show ?thesis using True by (subst cstr_from.simps) simp
  next
    case False
    then have lt: "i < e" using "1.prems" by simp
    then have "cstr_from s (Suc i) n = map s [Suc i..<e]"
      using "1.prems" by (intro "1.IH") auto
    then show ?thesis using lt "1.prems" by (simp add: cstr_from.simps [of s i n] upt_conv_Cons)
  qed
qed

lemma strncmp_loop_0: "strncmp_loop s1 s2 i n = 0 \<longleftrightarrow> cstr_from s1 i n = cstr_from s2 i n"
proof (induction s1 s2 i n rule: strncmp_loop.induct)
  case (1 s1 s2 i n)
  show ?case
  proof (cases "i < n \<and> s1 i = s2 i \<and> s1 i \<noteq> 0")
    case True
    then show ?thesis using 1
      by (simp add: strncmp_loop.simps [of s1 s2 i n] cstr_from.simps [of s1 i n] cstr_from.simps [of s2 i n])
  next
    case False
    then show ?thesis
      by (auto simp: strncmp_loop.simps [of s1 s2 i n] cstr_from.simps [of s1 i n]
          cstr_from.simps [of s2 i n] word_uint_eq_iff)
  qed
qed

lemma strncmp_0: "strncmp s1 s2 n = 0 \<longleftrightarrow> cstr s1 n = cstr s2 n"
  by (simp add: strncmp_def cstr_def strncmp_loop_0)

lemma copy_str_spec:
  "i \<le> n \<Longrightarrow> \<exists>e d'. copy_str d s i n = (e, d') \<and> i \<le> e \<and> e \<le> n \<and> (\<forall>j. i \<le> j \<and> j < e \<longrightarrow> s j \<noteq> 0) \<and>
     (e < n \<longrightarrow> s e = 0) \<and> (\<forall>j. d' j = (if i \<le> j \<and> j < e then s j else d j))"
proof (induction d s i n rule: copy_str.induct)
  case (1 d s i n)
  show ?case
  proof (cases "i < n \<and> s i \<noteq> 0")
    case False
    then show ?thesis using "1.prems" by (auto simp: copy_str.simps [of d s i n])
  next
    case True
    then have "Suc i \<le> n" by simp
    from "1.IH" [OF True this] obtain e d' where e: "copy_str (d(i := s i)) s (Suc i) n = (e, d')"
      "Suc i \<le> e" "e \<le> n" "\<forall>j. Suc i \<le> j \<and> j < e \<longrightarrow> s j \<noteq> 0" "e < n \<longrightarrow> s e = 0"
      "\<forall>j. d' j = (if Suc i \<le> j \<and> j < e then s j else (d(i := s i)) j)"
      by blast
    have "copy_str d s i n = (e, d')" using True e(1) by (simp add: copy_str.simps [of d s i n])
    moreover have "\<forall>j. i \<le> j \<and> j < e \<longrightarrow> s j \<noteq> 0"
      using True e(2,4) by (subst all_from) simp
    moreover have "\<forall>j. d' j = (if i \<le> j \<and> j < e then s j else d j)"
      using e(2,6) by auto
    ultimately show ?thesis using e by (intro exI [of _ e] exI [of _ d']) auto
  qed
qed

lemma strncpy_spec:
  "\<exists>e\<le>n. (\<forall>j<e. s j \<noteq> 0) \<and> (e < n \<longrightarrow> s e = 0) \<and>
     strncpy d s n = (\<lambda>j. if j < e then s j else if j < n then 0 else d j)"
proof -
  from copy_str_spec [of 0 n d s] obtain e d' where e: "copy_str d s 0 n = (e, d')" "e \<le> n"
    "\<forall>j<e. s j \<noteq> 0" "e < n \<longrightarrow> s e = 0" "\<forall>j. d' j = (if j < e then s j else d j)"
    by auto
  then show ?thesis
    by (intro exI [of _ e]) (auto simp: strncpy_def memset_loop_nth)
qed

lemma cstr_strncpy: "cstr (strncpy d s n) n = cstr s n"
proof -
  obtain e where e: "e \<le> n" "\<forall>j<e. s j \<noteq> 0" "e < n \<longrightarrow> s e = 0"
    "strncpy d s n = (\<lambda>j. if j < e then s j else if j < n then 0 else d j)"
    using strncpy_spec by blast
  have "cstr s n = map s [0..<e]" unfolding cstr_def
    using e by (intro cstr_from_eq) auto
  moreover have "cstr (strncpy d s n) n = map (strncpy d s n) [0..<e]" unfolding cstr_def
    using e by (intro cstr_from_eq) auto
  ultimately show ?thesis using e by simp
qed

lemma cstr_strncpy_fast: "cstr (strncpy_fast d s n) n = cstr s n"
proof -
  from copy_str_spec [of 0 n d s] obtain e d' where e: "copy_str d s 0 n = (e, d')" "e \<le> n"
    "\<forall>j<e. s j \<noteq> 0" "e < n \<longrightarrow> s e = 0" "\<forall>j. d' j = (if j < e then s j else d j)"
    by auto
  then have f: "strncpy_fast d s n = (\<lambda>j. if j < e then s j else if j = e \<and> e < n then 0 else d j)"
    by (auto simp: strncpy_fast_def)
  have "cstr s n = map s [0..<e]" unfolding cstr_def
    using e by (intro cstr_from_eq) auto
  moreover have "cstr (strncpy_fast d s n) n = map (strncpy_fast d s n) [0..<e]" unfolding cstr_def
    using e f by (intro cstr_from_eq) auto
  ultimately show ?thesis using f by simp
qed

lemma strlen_from_found: "\<lbrakk>i \<le> e; \<forall>j. i \<le> j \<and> j < e \<longrightarrow> s j \<noteq> 0; s e = 0\<rbrakk> \<Longrightarrow> strlen_from s i = Some e"
proof (induction "e - i" arbitrary: i)
  case 0
  then show ?case by (simp add: strlen_from.simps [of s i])
next
  case (Suc n)
  then have "i < e" "s i \<noteq> 0" by auto
  moreover have "strlen_from s (Suc i) = Some e" using Suc by (intro Suc.hyps(1)) auto
  ultimately show ?case by (simp add: strlen_from.simps [of s i])
qed

lemma strlen_found: "\<lbrakk>\<forall>j<e. s j \<noteq> 0; s e = 0\<rbrakk> \<Longrightarrow> strlen s = Some e"
  by (simp add: strlen_def strlen_from_found)

end
