(* ===== verification/Inode.thy ===== *)
theory Inode
  imports BlockCache CString
begin

text \<open>
  \<open>fs/inode.c\<close>, the inode layer: inodes on disk and in memory, the map from file offsets to blocks,
  reading and writing.  As in the source the layer works through the function pointers of a
  \<open>BlockCache\<close>; \<open>'c\<close> is the cache's state.  In-memory inodes are named by the arena slot they live
  in; a freed slot keeps its contents until it is handed out again (\<open>alloc_object\<close> does not clear
  memory).  Every operation takes the CPU \<open>me\<close> it runs on.
\<close>

record 'c BlockCache =
  bc_acquire :: "nat \<Rightarrow> 'c \<Rightarrow> (nat \<times> 'c) res"
  bc_release :: "nat \<Rightarrow> 'c \<Rightarrow> 'c res"
  bc_begin_op :: "nat \<Rightarrow> 'c \<Rightarrow> 'c res"
  bc_sync :: "nat option \<Rightarrow> nat \<Rightarrow> 'c \<Rightarrow> 'c res"
  bc_end_op :: "nat \<Rightarrow> 'c \<Rightarrow> 'c res"
  bc_alloc :: "nat option \<Rightarrow> 'c \<Rightarrow> (nat \<times> 'c) res"
  bc_allocg :: "nat option \<Rightarrow> nat \<Rightarrow> 'c \<Rightarrow> (nat \<times> 'c) res"
  bc_free :: "nat option \<Rightarrow> nat \<Rightarrow> 'c \<Rightarrow> 'c res"
  bc_data :: "nat \<Rightarrow> 'c \<Rightarrow> bytes"
  bc_set_data :: "nat \<Rightarrow> bytes \<Rightarrow> 'c \<Rightarrow> 'c"
  bc_used :: "'c \<Rightarrow> nat list"

record Inode =
  ilock :: SpinLock
  irc :: RefCount
  inode_no :: nat
  ivalid :: bool
  entry :: InodeEntry

record 'c itree =
  it_sb :: SuperBlock
  it_lock :: SpinLock
  it_head :: "nat list"
  it_nodes :: "nat \<Rightarrow> Inode"
  it_next :: nat
  it_free :: "nat list"
  it_room :: nat
  it_cache :: 'c

abbreviation ino_of :: "'c itree \<Rightarrow> nat \<Rightarrow> Inode" where
  "ino_of st p \<equiv> it_nodes st p"

definition upd_inode :: "nat \<Rightarrow> (Inode \<Rightarrow> Inode) \<Rightarrow> 'c itree \<Rightarrow> 'c itree" where
  "upd_inode p f st = st\<lparr>it_nodes := (it_nodes st)(p := f (it_nodes st p))\<rparr>"

definition upd_entry :: "nat \<Rightarrow> (InodeEntry \<Rightarrow> InodeEntry) \<Rightarrow> 'c itree \<Rightarrow> 'c itree" where
  "upd_entry p f st = upd_inode p (\<lambda>i. i\<lparr>entry := f (entry i)\<rparr>) st"

text \<open>A call of a cache operation from the inode layer.\<close>

definition call :: "('c \<Rightarrow> ('a \<times> 'c) res) \<Rightarrow> 'c itree \<Rightarrow> ('a \<times> 'c itree) res" where
  "call f st = bnd (f (it_cache st)) (\<lambda>(x, c). Inr (x, st\<lparr>it_cache := c\<rparr>))"

definition callu :: "('c \<Rightarrow> 'c res) \<Rightarrow> 'c itree \<Rightarrow> 'c itree res" where
  "callu f st = bnd (f (it_cache st)) (\<lambda>c. Inr (st\<lparr>it_cache := c\<rparr>))"

definition set_data :: "'c BlockCache \<Rightarrow> nat \<Rightarrow> bytes \<Rightarrow> 'c itree \<Rightarrow> 'c itree" where
  "set_data cache s d st = st\<lparr>it_cache := bc_set_data cache s d (it_cache st)\<rparr>"

section \<open>Inodes on disk\<close>

definition GINODES :: "SuperBlock \<Rightarrow> nat" where
  "GINODES sb = num_inodes sb div num_groups sb"

text \<open>\<open>inode_no - 1\<close> is a \<open>usize\<close> subtraction; a zero \<open>GINODES\<close> would be a division by zero.\<close>

definition to_block_no :: "SuperBlock \<Rightarrow> nat \<Rightarrow> nat" where
  "to_block_no sb ino =
     bg_start sb + blocks_per_group sb * (subw 64 ino 1 div GINODES sb) +
     subw 64 ino 1 mod GINODES sb div INODE_PER_BLOCK"

text \<open>\<open>get_entry\<close>: the byte offset of the inode's entry in its block, and reading and writing it.\<close>

definition entry_offset :: "nat \<Rightarrow> nat" where
  "entry_offset ino = 64 * (ino mod INODE_PER_BLOCK)"

definition get_entry :: "bytes \<Rightarrow> nat \<Rightarrow> InodeEntry" where
  "get_entry d ino = bytes_entry (slice d (entry_offset ino) 64)"

definition put_entry :: "bytes \<Rightarrow> nat \<Rightarrow> InodeEntry \<Rightarrow> bytes" where
  "put_entry d ino e = overwrite d (entry_offset ino) (entry_bytes e)"

definition get_addrs :: "bytes \<Rightarrow> nat list" where
  "get_addrs d = nats_of 4 INODE_NUM_INDIRECT d"

definition zero_entry :: InodeEntry where
  "zero_entry = \<lparr>ity = 0, major = 0, minor = 0, num_links = 0, num_bytes = 0,
     addrs = replicate INODE_NUM_DIRECT 0, indirect = 0\<rparr>"

text \<open>One iteration of the two allocation loops: claim inode \<open>ino\<close> if its entry is free.\<close>

definition try_inode :: "'c BlockCache \<Rightarrow> nat option \<Rightarrow> nat \<Rightarrow> nat \<Rightarrow> 'c itree \<Rightarrow> (bool \<times> 'c itree) res" where
  "try_inode cache ctx type ino st =
     bnd (call (bc_acquire cache (to_block_no (it_sb st) ino)) st) (\<lambda>(block, st).
     let d = bc_data cache block (it_cache st) in
     if ity (get_entry d ino) = INODE_INVALID then
       let st = set_data cache block (put_entry d ino (zero_entry\<lparr>ity := type\<rparr>)) st in
       bnd (callu (bc_sync cache ctx block) st) (\<lambda>st.
       bnd (callu (bc_release cache block) st) (\<lambda>st. Inr (True, st)))
     else bnd (callu (bc_release cache block) st) (\<lambda>st. Inr (False, st)))"

fun alloc_inos :: "'c BlockCache \<Rightarrow> nat option \<Rightarrow> nat \<Rightarrow> nat list \<Rightarrow> 'c itree \<Rightarrow> (nat \<times> 'c itree) res" where
  "alloc_inos cache ctx type [] st = Inr (0, st)"
| "alloc_inos cache ctx type (ino # inos) st =
     bnd (try_inode cache ctx type ino st) (\<lambda>(hit, st).
     if hit then Inr (ino, st) else alloc_inos cache ctx type inos st)"

definition inode_alloc :: "'c BlockCache \<Rightarrow> nat option \<Rightarrow> nat \<Rightarrow> 'c itree \<Rightarrow> (nat \<times> 'c itree) res" where
  "inode_alloc cache ctx type st =
     bnd (chk (type \<noteq> INODE_INVALID) ''type != INODE_INVALID'') (\<lambda>_.
     alloc_inos cache ctx type [1..<Suc (num_inodes (it_sb st))] st)"

text \<open>The loop that looks for the emptiest group: final \<open>i\<close>, \<open>used\<close> and \<open>gno\<close>.\<close>

fun emptiest :: "nat list \<Rightarrow> nat \<Rightarrow> nat \<Rightarrow> nat \<Rightarrow> nat \<times> nat \<times> nat" where
  "emptiest [] i used gno = (i, used, gno)"
| "emptiest (u # us) i used gno =
     (if u < used then emptiest us (Suc i) u i else emptiest us (Suc i) used gno)"

text \<open>The inode numbers \<open>ino + gno * (NINODES / NGROUPS)\<close> of groups \<open>gno, ..., NGROUPS - 1\<close>.\<close>

definition group_inos :: "SuperBlock \<Rightarrow> nat \<Rightarrow> nat list" where
  "group_inos sb gno = concat (map (\<lambda>g. map (\<lambda>ino. ino + g * (NINODES div NGROUPS)) [1..<Suc (GINODES sb)]) [gno..<NGROUPS])"

fun alloc_group_inos :: "'c BlockCache \<Rightarrow> nat option \<Rightarrow> nat \<Rightarrow> nat list \<Rightarrow> 'c itree \<Rightarrow> (nat \<times> 'c itree) res" where
  "alloc_group_inos cache ctx type [] st = Inr (0, st)"
| "alloc_group_inos cache ctx type (tino # inos) st =
     bnd (chk (tino \<le> NINODES) ''tino <= NINODES'') (\<lambda>_.
     bnd (try_inode cache ctx type tino st) (\<lambda>(hit, st).
     if hit then Inr (tino, st) else alloc_group_inos cache ctx type inos st))"

abbreviation (input) FSSIZE :: nat where "FSSIZE \<equiv> 10000 + 2 + LOG_MAX_SIZE"

definition inode_alloc_group :: "'c BlockCache \<Rightarrow> nat option \<Rightarrow> nat \<Rightarrow> nat \<Rightarrow> 'c itree \<Rightarrow> (nat \<times> 'c itree) res" where
  "inode_alloc_group cache ctx type gno st =
     bnd (chk (type \<noteq> INODE_INVALID) ''type != INODE_INVALID'') (\<lambda>_.
     let (i, gno) = (if type = INODE_DIRECTORY
                     then let (i, used, g) = emptiest (take NGROUPS (bc_used cache (it_cache st))) 0 FSSIZE gno in (i, g)
                     else (0, gno))
     in if type = INODE_DIRECTORY \<and> i = NGROUPS then Inr (0, st)
        else alloc_group_inos cache ctx type (group_inos (it_sb st) gno) st)"

section \<open>Inodes in memory\<close>

definition lock_tree :: "nat \<Rightarrow> 'c itree \<Rightarrow> 'c itree res" where
  "lock_tree me st = bnd (acquire_spinlock me (it_lock st)) (\<lambda>l. Inr (st\<lparr>it_lock := l\<rparr>))"

definition unlock_tree :: "nat \<Rightarrow> 'c itree \<Rightarrow> 'c itree res" where
  "unlock_tree me st = bnd (release_spinlock me (it_lock st)) (\<lambda>l. Inr (st\<lparr>it_lock := l\<rparr>))"

definition init_inode :: "Inode \<Rightarrow> Inode" where
  "init_inode i = i\<lparr>ilock := init_spinlock (ilock i) ''inode'', irc := init_rc (irc i), inode_no := 0, ivalid := False\<rparr>"

definition inode_sync :: "'c BlockCache \<Rightarrow> nat option \<Rightarrow> nat \<Rightarrow> bool \<Rightarrow> 'c itree \<Rightarrow> 'c itree res" where
  "inode_sync cache ctx p do_write st =
     (let ino = inode_no (ino_of st p) in
      bnd (call (bc_acquire cache (to_block_no (it_sb st) ino)) st) (\<lambda>(block, st).
      let d = bc_data cache block (it_cache st) in
      bnd (if ivalid (ino_of st p) \<and> do_write then
             callu (bc_sync cache ctx block) (set_data cache block (put_entry d ino (entry (ino_of st p))) st)
           else if \<not> ivalid (ino_of st p) then
             Inr (upd_inode p (\<lambda>i. i\<lparr>entry := get_entry d ino, ivalid := True\<rparr>) st)
           else Inr st) (\<lambda>st.
      callu (bc_release cache block) st)))"

definition inode_lock :: "'c BlockCache \<Rightarrow> nat \<Rightarrow> nat \<Rightarrow> 'c itree \<Rightarrow> 'c itree res" where
  "inode_lock cache me p st =
     bnd (chk (rc_val (irc (ino_of st p)) > 0) ''inode->rc.count > 0'') (\<lambda>_.
     bnd (acquire_spinlock me (ilock (ino_of st p))) (\<lambda>l.
     let st = upd_inode p (\<lambda>i. i\<lparr>ilock := l\<rparr>) st in
     bnd (if \<not> ivalid (ino_of st p) then inode_sync cache None p False st else Inr st) (\<lambda>st.
     bnd (chk (ity (entry (ino_of st p)) \<noteq> INODE_INVALID) ''inode->entry.type != INODE_INVALID'') (\<lambda>_.
     Inr st))))"

definition inode_unlock :: "nat \<Rightarrow> nat \<Rightarrow> 'c itree \<Rightarrow> 'c itree res" where
  "inode_unlock me p st =
     bnd (chk (holding_spinlock me (ilock (ino_of st p))) ''holding_spinlock(&inode->lock)'') (\<lambda>_.
     bnd (chk (rc_val (irc (ino_of st p)) > 0) ''inode->rc.count > 0'') (\<lambda>_.
     bnd (release_spinlock me (ilock (ino_of st p))) (\<lambda>l.
     Inr (upd_inode p (\<lambda>i. i\<lparr>ilock := l\<rparr>) st))))"

definition alloc_inode_obj :: "'c itree \<Rightarrow> (nat \<times> 'c itree) res" where
  "alloc_inode_obj st =
     (case it_free st of
        p # ps \<Rightarrow> Inr (p, st\<lparr>it_free := ps\<rparr>)
      | [] \<Rightarrow> if it_room st = 0 then Inl (Panic ''arena failed to allocate object'')
              else Inr (it_next st, st\<lparr>it_next := Suc (it_next st), it_room := it_room st - 1\<rparr>))"

definition inode_get :: "nat \<Rightarrow> nat \<Rightarrow> 'c itree \<Rightarrow> (nat \<times> 'c itree) res" where
  "inode_get me ino st =
     bnd (chk (ino > 0) ''inode_no > 0'') (\<lambda>_.
     bnd (chk (ino \<le> num_inodes (it_sb st)) ''inode_no <= sblock->num_inodes'') (\<lambda>_.
     bnd (lock_tree me st) (\<lambda>st.
     bnd (case find (\<lambda>q. rc_val (irc (ino_of st q)) > 0 \<and> inode_no (ino_of st q) = ino) (it_head st) of
            Some p \<Rightarrow> Inr (p, upd_inode p (\<lambda>i. i\<lparr>irc := increment_rc (irc i)\<rparr>) st)
          | None \<Rightarrow>
              bnd (alloc_inode_obj st) (\<lambda>(p, st).
              let st = upd_inode p init_inode st;
                  st = upd_inode p (\<lambda>i. i\<lparr>inode_no := ino\<rparr>) st;
                  st = upd_inode p (\<lambda>i. i\<lparr>irc := increment_rc (irc i)\<rparr>) st
              in Inr (p, st\<lparr>it_head := p # it_head st\<rparr>))) (\<lambda>(p, st).
     bnd (unlock_tree me st) (\<lambda>st. Inr (p, st))))))"

definition inode_share :: "nat \<Rightarrow> nat \<Rightarrow> 'c itree \<Rightarrow> (nat \<times> 'c itree) res" where
  "inode_share me p st =
     bnd (lock_tree me st) (\<lambda>st.
     let st = upd_inode p (\<lambda>i. i\<lparr>irc := increment_rc (irc i)\<rparr>) st in
     bnd (unlock_tree me st) (\<lambda>st. Inr (p, st)))"

section \<open>Discarding contents\<close>

fun free_addrs :: "'c BlockCache \<Rightarrow> nat option \<Rightarrow> nat list \<Rightarrow> 'c itree \<Rightarrow> 'c itree res" where
  "free_addrs cache ctx [] st = Inr st"
| "free_addrs cache ctx (a # as) st =
     bnd (if a \<noteq> 0 then callu (bc_free cache ctx a) st else Inr st) (free_addrs cache ctx as)"

definition inode_clear :: "'c BlockCache \<Rightarrow> nat option \<Rightarrow> nat \<Rightarrow> 'c itree \<Rightarrow> 'c itree res" where
  "inode_clear cache ctx p st =
     bnd (free_addrs cache ctx (addrs (entry (ino_of st p))) st) (\<lambda>st.
     let st = upd_entry p (\<lambda>e. e\<lparr>addrs := replicate INODE_NUM_DIRECT 0\<rparr>) st;
         iaddr = indirect (entry (ino_of st p)) in
     bnd (if iaddr \<noteq> 0 then
            bnd (call (bc_acquire cache iaddr) st) (\<lambda>(block, st).
            bnd (free_addrs cache ctx (get_addrs (bc_data cache block (it_cache st))) st) (\<lambda>st.
            bnd (callu (bc_release cache block) st) (\<lambda>st.
            bnd (callu (bc_free cache ctx iaddr) st) (\<lambda>st.
            Inr (upd_entry p (\<lambda>e. e\<lparr>indirect := 0\<rparr>) st)))))
          else Inr st) (\<lambda>st.
     let st = upd_entry p (\<lambda>e. e\<lparr>num_bytes := 0\<rparr>) st in
     inode_sync cache ctx p True st))"

definition inode_put :: "'c BlockCache \<Rightarrow> nat \<Rightarrow> nat option \<Rightarrow> nat \<Rightarrow> 'c itree \<Rightarrow> 'c itree res" where
  "inode_put cache me ctx p st =
     bnd (lock_tree me st) (\<lambda>st.
     let is_last = (rc_val (irc (ino_of st p)) \<le> 1 \<and> num_links (entry (ino_of st p)) = 0) in
     bnd (if is_last then
            bnd (inode_lock cache me p st) (\<lambda>st.
            bnd (unlock_tree me st) (\<lambda>st.
            bnd (inode_clear cache ctx p st) (\<lambda>st.
            let st = upd_entry p (\<lambda>e. e\<lparr>ity := INODE_INVALID\<rparr>) st in
            bnd (inode_sync cache ctx p True st) (\<lambda>st.
            bnd (inode_unlock me p st) (\<lambda>st.
            lock_tree me st)))))
          else Inr st) (\<lambda>st.
     let (zero, rc) = decrement_rc (irc (ino_of st p));
         st = upd_inode p (\<lambda>i. i\<lparr>irc := rc\<rparr>) st;
         st = (if zero then st\<lparr>it_head := removeAll p (it_head st), it_free := p # it_free st\<rparr> else st)
     in unlock_tree me st))"

section \<open>The block map\<close>

abbreviation (input) NINBLOCKS_PER_GROUP :: nat where
  "NINBLOCKS_PER_GROUP \<equiv> (BLOCK_SIZE div 4) div (NGROUPS - 1) * 2 + 1"

text \<open>The search for a group that is not full.  Once \<open>tgno\<close> wraps, \<open>step\<close> is 1 and \<open>tgno\<close> is below
  \<open>NGROUPS\<close>, so the second test never ends the loop: with every group full it runs forever.\<close>

partial_function (option) find_group :: "nat list \<Rightarrow> nat \<Rightarrow> nat \<Rightarrow> nat \<Rightarrow> nat option" where
  "find_group used full tgno step =
     (if used ! tgno = full then
        let tgno = tgno + step;
            (tgno, step) = (if tgno \<ge> NGROUPS then (0, 1) else (tgno, step)) in
        if step = 1 \<and> tgno \<ge> NGROUPS then Some tgno else find_group used full tgno step
      else Some tgno)"

text \<open>\<open>(x = (u32)cache->allocg(ctx, gno)) == 0\<close> with \<open>alloc\<close> as fallback.\<close>

definition alloc_near :: "'c BlockCache \<Rightarrow> nat option \<Rightarrow> nat \<Rightarrow> 'c itree \<Rightarrow> (nat \<times> 'c itree) res" where
  "alloc_near cache ctx gno st =
     bnd (call (bc_allocg cache ctx gno) st) (\<lambda>(b, st).
     let b = b mod 2 ^ 32 in
     if b = 0 then bnd (call (bc_alloc cache ctx) st) (\<lambda>(b, st). Inr (b mod 2 ^ 32, st))
     else Inr (b, st))"

definition inode_map :: "'c BlockCache \<Rightarrow> nat option \<Rightarrow> nat \<Rightarrow> nat \<Rightarrow> 'c itree \<Rightarrow> (nat \<times> bool \<times> 'c itree) res" where
  "inode_map cache ctx p offset st =
     (let index = offset div BLOCK_SIZE;
          gno = subw 32 (inode_no (ino_of st p) mod 2 ^ 32) 1 div (NINODES div NGROUPS) in
      if index < INODE_NUM_DIRECT then
        if addrs (entry (ino_of st p)) ! index = 0 then
          bnd (alloc_near cache ctx gno st) (\<lambda>(b, st).
          let st = upd_entry p (\<lambda>e. e\<lparr>addrs := (addrs e)[index := b]\<rparr>) st in
          Inr (addrs (entry (ino_of st p)) ! index, True, st))
        else Inr (addrs (entry (ino_of st p)) ! index, False, st)
      else
        let index = index - INODE_NUM_DIRECT in
        bnd (chk (index < INODE_NUM_INDIRECT) ''index < INODE_NUM_INDIRECT'') (\<lambda>_.
        bnd (if indirect (entry (ino_of st p)) = 0 then
               bnd (alloc_near cache ctx gno st) (\<lambda>(b, st).
               Inr (True, upd_entry p (\<lambda>e. e\<lparr>indirect := b\<rparr>) st))
             else Inr (False, st)) (\<lambda>(modified, st).
        bnd (call (bc_acquire cache (indirect (entry (ino_of st p)))) st) (\<lambda>(block, st).
        bnd (if get_addrs (bc_data cache block (it_cache st)) ! index = 0 then
               let tgno = (index div NINBLOCKS_PER_GROUP + 1) mod NGROUPS in
               case find_group (bc_used cache (it_cache st)) (num_datablocks_per_group (it_sb st)) tgno 2 of
                 None \<Rightarrow> Inl (Blocked ''inode_map: every group is full'')
               | Some tgno \<Rightarrow>
                   bnd (call (bc_allocg cache ctx tgno) st) (\<lambda>(b, st).
                   let d = bc_data cache block (it_cache st);
                       d = overwrite d (4 * index) (le_bytes 4 (b mod 2 ^ 32));
                       st = set_data cache block d st in
                   bnd (callu (bc_sync cache ctx block) st) (\<lambda>st. Inr (True, st)))
             else Inr (modified, st)) (\<lambda>(modified, st).
        let addr = get_addrs (bc_data cache block (it_cache st)) ! index in
        bnd (callu (bc_release cache block) st) (\<lambda>st.
        Inr (addr, modified, st)))))))"

section \<open>Reading and writing\<close>

text \<open>The device branch calls the console (\<open>core/console.c\<close>), a parameter here: it gets the inode and
  the count and returns the bytes and the result.\<close>

type_synonym 'c console_in = "nat \<Rightarrow> nat \<Rightarrow> 'c itree \<Rightarrow> (bytes \<times> nat \<times> 'c itree) res"
type_synonym 'c console_out = "nat \<Rightarrow> bytes \<Rightarrow> nat \<Rightarrow> 'c itree \<Rightarrow> (nat \<times> 'c itree) res"

function read_loop :: "'c BlockCache \<Rightarrow> nat \<Rightarrow> nat \<Rightarrow> nat \<Rightarrow> bytes \<Rightarrow> 'c itree \<Rightarrow> (bytes \<times> 'c itree) res" where
  "read_loop cache p begin fin dest st =
     (if begin < fin then
        bnd (inode_map cache None p begin st) (\<lambda>(bno, modified, st).
        bnd (chk (\<not> modified) ''!modified'') (\<lambda>_.
        bnd (call (bc_acquire cache bno) st) (\<lambda>(block, st).
        let index = begin mod BLOCK_SIZE;
            step = min (fin - begin) (BLOCK_SIZE - index);
            dest = dest @ slice (bc_data cache block (it_cache st)) index step in
        bnd (callu (bc_release cache block) st) (\<lambda>st.
        read_loop cache p (begin + step) fin dest st))))
      else Inr (dest, st))"
  by pat_completeness auto
termination by (relation "measure (\<lambda>(cache, p, begin, fin, dest, st). fin - begin)") auto

declare read_loop.simps [simp del]

definition inode_read :: "'c BlockCache \<Rightarrow> 'c console_in \<Rightarrow> nat \<Rightarrow> nat \<Rightarrow> nat \<Rightarrow> 'c itree \<Rightarrow> (bytes \<times> nat \<times> 'c itree) res" where
  "inode_read cache console_read p offset count st =
     (let e = entry (ino_of st p) in
      if ity e = INODE_DEVICE then
        bnd (chk (major e = 1) ''inode->entry.major == 1'') (\<lambda>_. console_read p count st)
      else
        let count = (if addw 64 count offset > num_bytes e then subw 64 (num_bytes e) offset else count);
            fin = addw 64 offset count in
        bnd (chk (offset \<le> num_bytes e) ''offset <= entry->num_bytes'') (\<lambda>_.
        bnd (chk (fin \<le> num_bytes e) ''end <= entry->num_bytes'') (\<lambda>_.
        bnd (chk (offset \<le> fin) ''offset <= end'') (\<lambda>_.
        bnd (read_loop cache p offset fin [] st) (\<lambda>(dest, st).
        Inr (dest, count, st))))))"

function write_loop :: "'c BlockCache \<Rightarrow> nat option \<Rightarrow> nat \<Rightarrow> nat \<Rightarrow> nat \<Rightarrow> bytes \<Rightarrow> bool \<Rightarrow> 'c itree \<Rightarrow> (bool \<times> 'c itree) res" where
  "write_loop cache ctx p begin fin src modified st =
     (if begin < fin then
        bnd (inode_map cache ctx p begin st) (\<lambda>(bno, m, st).
        bnd (call (bc_acquire cache bno) st) (\<lambda>(block, st).
        let index = begin mod BLOCK_SIZE;
            step = min (fin - begin) (BLOCK_SIZE - index);
            st = set_data cache block (overwrite (bc_data cache block (it_cache st)) index (take step src)) st in
        bnd (callu (bc_sync cache ctx block) st) (\<lambda>st.
        bnd (callu (bc_release cache block) st) (\<lambda>st.
        write_loop cache ctx p (begin + step) fin (drop step src) (modified \<or> m) st))))
      else Inr (modified, st))"
  by pat_completeness auto
termination by (relation "measure (\<lambda>(cache, ctx, p, begin, fin, src, modified, st). fin - begin)") auto

declare write_loop.simps [simp del]

text \<open>\<open>src\<close> holds the \<open>count\<close> bytes to write.\<close>

definition inode_write :: "'c BlockCache \<Rightarrow> 'c console_out \<Rightarrow> nat option \<Rightarrow> nat \<Rightarrow> bytes \<Rightarrow> nat \<Rightarrow> nat \<Rightarrow> 'c itree \<Rightarrow> (nat \<times> 'c itree) res" where
  "inode_write cache console_write ctx p src offset count st =
     (let e = entry (ino_of st p);
          fin = addw 64 offset count in
      if ity e = INODE_DEVICE then
        bnd (chk (major e = 1) ''inode->entry.major == 1'') (\<lambda>_. console_write p src count st)
      else
        bnd (chk (offset \<le> num_bytes e) ''offset <= entry->num_bytes'') (\<lambda>_.
        bnd (chk (fin \<le> INODE_MAX_BYTES) ''end <= INODE_MAX_BYTES'') (\<lambda>_.
        bnd (chk (offset \<le> fin) ''offset <= end'') (\<lambda>_.
        bnd (write_loop cache ctx p offset fin src False st) (\<lambda>(modified, st).
        let grow = (fin > num_bytes (entry (ino_of st p)));
            st = (if grow then upd_entry p (\<lambda>e. e\<lparr>num_bytes := fin mod 2 ^ 32\<rparr>) st else st) in
        bnd (if modified \<or> grow then inode_sync cache ctx p True st else Inr st) (\<lambda>st.
        Inr (count, st)))))))"

definition init_inodes :: "nat \<Rightarrow> SuperBlock \<Rightarrow> 'c itree \<Rightarrow> (nat option \<times> 'c itree) res" where
  "init_inodes me sb st =
     (let st = st\<lparr>it_lock := init_spinlock (it_lock st) ''inode tree'', it_head := [], it_sb := sb\<rparr> in
      if 1 < num_inodes sb then bnd (inode_get me 1 st) (\<lambda>(p, st). Inr (Some p, st))
      else Inr (None, st))"

end
