(* ===== verification/Dir.thy ===== *)
theory Dir
  imports Inode
begin

text \<open>
  The directory operations, path walking and \<open>stati\<close> of \<open>fs/inode.c\<close>.  A directory is a file of
  16-byte \<open>DirEntry\<close>s.  \<open>buf\<close> is the memory of the local variable \<open>dentry\<close>, whose first contents are
  whatever the stack held.  A \<open>const char *\<close> path or name is the bytes before its NUL.
\<close>

abbreviation (input) DIRENT_SIZE :: nat where "DIRENT_SIZE \<equiv> 16"

text \<open>\<open>inode_read(inode, (u8 * )&dentry, offset, sizeof(dentry))\<close>: the bytes read replace the front of the
  buffer.\<close>

definition read_dentry :: "'c BlockCache \<Rightarrow> 'c console_in \<Rightarrow> nat \<Rightarrow> nat \<Rightarrow> bytes \<Rightarrow> 'c itree \<Rightarrow> (bytes \<times> nat \<times> 'c itree) res" where
  "read_dentry cache con p offset buf st =
     bnd (inode_read cache con p offset DIRENT_SIZE st) (\<lambda>(bs, n, st).
     Inr (overwrite buf 0 bs, n, st))"

text \<open>The loops run over the size the directory has at the start: reading does not change it.\<close>

function lookup_loop :: "'c BlockCache \<Rightarrow> 'c console_in \<Rightarrow> nat \<Rightarrow> bytes \<Rightarrow> nat \<Rightarrow> nat \<Rightarrow> bytes \<Rightarrow> 'c itree \<Rightarrow> (nat \<times> nat option \<times> 'c itree) res" where
  "lookup_loop cache con p name offset fin buf st =
     (if offset < fin then
        bnd (read_dentry cache con p offset buf st) (\<lambda>(buf, n, st).
        let dentry = bytes_dirent buf in
        if de_inode_no dentry \<noteq> 0 \<and> strncmp (arr_of name) (arr_of (de_name dentry)) FILE_NAME_MAX_LENGTH = 0
        then Inr (de_inode_no dentry, Some (offset div DIRENT_SIZE), st)
        else lookup_loop cache con p name (offset + DIRENT_SIZE) fin buf st)
      else Inr (0, None, st))"
  by pat_completeness auto
termination by (relation "measure (\<lambda>(cache, con, p, name, offset, fin, buf, st). fin - offset)") auto

declare lookup_loop.simps [simp del]

definition inode_lookup :: "'c BlockCache \<Rightarrow> 'c console_in \<Rightarrow> nat \<Rightarrow> bytes \<Rightarrow> bytes \<Rightarrow> 'c itree \<Rightarrow> (nat \<times> nat option \<times> 'c itree) res" where
  "inode_lookup cache con p name buf st =
     (let e = entry (ino_of st p) in
      bnd (chk (ity e = INODE_DIRECTORY) ''entry->type == INODE_DIRECTORY'') (\<lambda>_.
      lookup_loop cache con p name 0 (num_bytes e) buf st))"

function empty_loop :: "'c BlockCache \<Rightarrow> 'c console_in \<Rightarrow> nat \<Rightarrow> nat \<Rightarrow> nat \<Rightarrow> bytes \<Rightarrow> 'c itree \<Rightarrow> (bool \<times> 'c itree) res" where
  "empty_loop cache con p offset fin buf st =
     (if offset < fin then
        bnd (read_dentry cache con p offset buf st) (\<lambda>(buf, n, st).
        bnd (chk (n = DIRENT_SIZE) ''inode_empty'') (\<lambda>_.
        if de_inode_no (bytes_dirent buf) \<noteq> 0 then Inr (False, st)
        else empty_loop cache con p (offset + DIRENT_SIZE) fin buf st))
      else Inr (True, st))"
  by pat_completeness auto
termination by (relation "measure (\<lambda>(cache, con, p, offset, fin, buf, st). fin - offset)") auto

declare empty_loop.simps [simp del]

definition inode_empty :: "'c BlockCache \<Rightarrow> 'c console_in \<Rightarrow> nat \<Rightarrow> bytes \<Rightarrow> 'c itree \<Rightarrow> (bool \<times> 'c itree) res" where
  "inode_empty cache con p buf st =
     (let e = entry (ino_of st p) in
      bnd (chk (ity e = INODE_DIRECTORY) ''entry->type == INODE_DIRECTORY'') (\<lambda>_.
      empty_loop cache con p (2 * DIRENT_SIZE) (num_bytes e) buf st))"

function insert_loop :: "'c BlockCache \<Rightarrow> 'c console_in \<Rightarrow> nat \<Rightarrow> nat \<Rightarrow> nat \<Rightarrow> bytes \<Rightarrow> 'c itree \<Rightarrow> (nat \<times> bytes \<times> 'c itree) res" where
  "insert_loop cache con p offset fin buf st =
     (if offset < fin then
        bnd (read_dentry cache con p offset buf st) (\<lambda>(buf, n, st).
        if de_inode_no (bytes_dirent buf) = 0 then Inr (offset, buf, st)
        else insert_loop cache con p (offset + DIRENT_SIZE) fin buf st)
      else Inr (offset, buf, st))"
  by pat_completeness auto
termination by (relation "measure (\<lambda>(cache, con, p, offset, fin, buf, st). fin - offset)") auto

declare insert_loop.simps [simp del]

text \<open>\<open>strncpy(dentry.name, name, FILE_NAME_MAX_LENGTH)\<close> on the 14 bytes of the field.\<close>

definition name_field :: "bytes \<Rightarrow> bytes \<Rightarrow> bytes" where
  "name_field old name = map (strncpy (arr_of old) (arr_of name) FILE_NAME_MAX_LENGTH) [0..<FILE_NAME_MAX_LENGTH]"

definition inode_insert :: "'c BlockCache \<Rightarrow> 'c console_in \<Rightarrow> 'c console_out \<Rightarrow> nat option \<Rightarrow> nat \<Rightarrow> bytes \<Rightarrow> nat \<Rightarrow> bytes \<Rightarrow> 'c itree \<Rightarrow> (nat \<times> 'c itree) res" where
  "inode_insert cache con cout ctx p name ino buf st =
     (let e = entry (ino_of st p) in
      bnd (chk (ity e = INODE_DIRECTORY) ''entry->type == INODE_DIRECTORY'') (\<lambda>_.
      bnd (insert_loop cache con p 0 (num_bytes e) buf st) (\<lambda>(offset, buf, st).
      let dentry = (bytes_dirent buf)\<lparr>de_inode_no := ino mod 2 ^ 16\<rparr>;
          dentry = dentry\<lparr>de_name := name_field (de_name dentry) name\<rparr> in
      bnd (inode_write cache cout ctx p (dirent_bytes dentry) offset DIRENT_SIZE st) (\<lambda>(n, st).
      Inr (offset div DIRENT_SIZE, st)))))"

definition inode_remove :: "'c BlockCache \<Rightarrow> 'c console_out \<Rightarrow> nat option \<Rightarrow> nat \<Rightarrow> nat \<Rightarrow> 'c itree \<Rightarrow> 'c itree res" where
  "inode_remove cache cout ctx p index st =
     (let e = entry (ino_of st p) in
      bnd (chk (ity e = INODE_DIRECTORY) ''entry->type == INODE_DIRECTORY'') (\<lambda>_.
      let offset = (index * DIRENT_SIZE) mod 2 ^ 64 in
      if offset \<ge> num_bytes e then Inr st
      else bnd (inode_write cache cout ctx p (replicate DIRENT_SIZE 0) offset DIRENT_SIZE st) (\<lambda>(n, st). Inr st)))"

section \<open>Paths\<close>

abbreviation (input) SLASH :: u8 where "SLASH \<equiv> 47"
abbreviation (input) DOT :: u8 where "DOT \<equiv> 46"

text \<open>\<open>skipelem\<close>: the rest of the path and the new contents of the 14-byte buffer \<open>name\<close>, or nothing when no
  element is left.\<close>

definition skipelem :: "bytes \<Rightarrow> bytes \<Rightarrow> (bytes \<times> bytes) option" where
  "skipelem path name =
     (let path = dropWhile (\<lambda>c. c = SLASH) path in
      if path = [] then None
      else
        let s = takeWhile (\<lambda>c. c \<noteq> SLASH) path;
            path = dropWhile (\<lambda>c. c \<noteq> SLASH) path;
            name = (if length s \<ge> FILE_NAME_MAX_LENGTH then overwrite name 0 (take FILE_NAME_MAX_LENGTH s)
                    else (overwrite name 0 s)[length s := 0])
        in Some (dropWhile (\<lambda>c. c = SLASH) path, name))"

lemma skipelem_shorter: "skipelem path name = Some (rest, name') \<Longrightarrow> length rest < length path"
proof -
  assume s: "skipelem path name = Some (rest, name')"
  let ?p = "dropWhile (\<lambda>c. c = 47) path" and ?w = "\<lambda>c. c = (47 :: u8)"
  from s have ne: "?p \<noteq> []" and rest: "rest = dropWhile ?w (dropWhile (\<lambda>c. c \<noteq> 47) ?p)"
    by (auto simp: skipelem_def Let_def split: if_splits)
  obtain c cs where p: "?p = c # cs" using ne by (cases ?p) auto
  then have c: "c \<noteq> 47" using hd_dropWhile [of ?w path] ne by auto
  have "length rest \<le> length (dropWhile (\<lambda>c. c \<noteq> 47) cs)" using rest p c by (simp add: length_dropWhile_le)
  also have "\<dots> \<le> length cs" by (rule length_dropWhile_le)
  also have "\<dots> < length ?p" by (simp add: p)
  also have "\<dots> \<le> length path" by (rule length_dropWhile_le)
  finally show ?thesis .
qed

text \<open>The loop of \<open>namex\<close>.  \<open>inodes.lookup\<close> is called twice, as in the source, with its own local buffer.\<close>

function namex_loop :: "'c BlockCache \<Rightarrow> 'c console_in \<Rightarrow> nat \<Rightarrow> bytes \<Rightarrow> bool \<Rightarrow> nat \<Rightarrow> bytes \<Rightarrow> bytes \<Rightarrow> nat \<Rightarrow> 'c itree \<Rightarrow> (nat option \<times> bytes \<times> 'c itree) res" where
  "namex_loop cache con me buf parent ctx path name ip st =
     (case skipelem path name of
        Some (path', name) \<Rightarrow>
          bnd (inode_lock cache me ip st) (\<lambda>st.
          if ity (entry (ino_of st ip)) \<noteq> INODE_DIRECTORY then
            bnd (inode_unlock me ip st) (\<lambda>st.
            bnd (callu (bc_begin_op cache ctx) st) (\<lambda>st.
            bnd (inode_put cache me (Some ctx) ip st) (\<lambda>st.
            bnd (callu (bc_end_op cache ctx) st) (\<lambda>st.
            Inr (None, name, st)))))
          else if parent \<and> path' = [] then
            bnd (inode_unlock me ip st) (\<lambda>st. Inr (Some ip, name, st))
          else if path' = [DOT] then
            bnd (inode_unlock me ip st) (\<lambda>st. Inr (Some ip, name, st))
          else
            bnd (inode_lookup cache con ip name buf st) (\<lambda>(ino, idx, st).
            if ino = 0 then
              bnd (inode_unlock me ip st) (\<lambda>st.
              bnd (inode_put cache me (Some ctx) ip st) (\<lambda>st. Inr (None, name, st)))
            else
              bnd (inode_lookup cache con ip name buf st) (\<lambda>(ino, idx, st).
              bnd (inode_get me ino st) (\<lambda>(next, st).
              bnd (inode_unlock me ip st) (\<lambda>st.
              bnd (inode_put cache me (Some ctx) ip st) (\<lambda>st.
              namex_loop cache con me buf parent ctx path' name next st))))))
      | None \<Rightarrow>
          if parent then
            bnd (callu (bc_begin_op cache ctx) st) (\<lambda>st.
            bnd (inode_put cache me (Some ctx) ip st) (\<lambda>st.
            bnd (callu (bc_end_op cache ctx) st) (\<lambda>st. Inr (None, name, st))))
          else Inr (Some ip, name, st))"
  by pat_completeness auto
termination
  by (relation "measure (\<lambda>(cache, con, me, buf, parent, ctx, path, name, ip, st). length path)")
    (auto dest: skipelem_shorter)

declare namex_loop.simps [simp del]

text \<open>\<open>cwd\<close> is \<open>thiscpu()->proc->cwd\<close>.\<close>

definition namex :: "'c BlockCache \<Rightarrow> 'c console_in \<Rightarrow> nat \<Rightarrow> bytes \<Rightarrow> nat \<Rightarrow> bytes \<Rightarrow> bool \<Rightarrow> bytes \<Rightarrow> nat \<Rightarrow> 'c itree \<Rightarrow> (nat option \<times> bytes \<times> 'c itree) res" where
  "namex cache con me buf cwd path parent name ctx st =
     bnd (if path \<noteq> [] \<and> hd path = SLASH then inode_get me 1 st else inode_share me cwd st) (\<lambda>(ip, st).
     namex_loop cache con me buf parent ctx path name ip st)"

definition namei :: "'c BlockCache \<Rightarrow> 'c console_in \<Rightarrow> nat \<Rightarrow> bytes \<Rightarrow> nat \<Rightarrow> bytes \<Rightarrow> bytes \<Rightarrow> nat \<Rightarrow> 'c itree \<Rightarrow> (nat option \<times> 'c itree) res" where
  "namei cache con me buf cwd path local_name ctx st =
     bnd (namex cache con me buf cwd path False local_name ctx st) (\<lambda>(ip, name, st). Inr (ip, st))"

definition nameiparent :: "'c BlockCache \<Rightarrow> 'c console_in \<Rightarrow> nat \<Rightarrow> bytes \<Rightarrow> nat \<Rightarrow> bytes \<Rightarrow> bytes \<Rightarrow> nat \<Rightarrow> 'c itree \<Rightarrow> (nat option \<times> bytes \<times> 'c itree) res" where
  "nameiparent cache con me buf cwd path name ctx st = namex cache con me buf cwd path True name ctx st"

section \<open>stati\<close>

record stat =
  st_dev :: nat
  st_ino :: nat
  st_nlink :: nat
  st_size :: nat
  st_mode :: nat

abbreviation (input) S_IFDIR :: nat where "S_IFDIR \<equiv> 0x4000"
abbreviation (input) S_IFREG :: nat where "S_IFREG \<equiv> 0x8000"

definition stati :: "Inode \<Rightarrow> stat \<Rightarrow> stat res" where
  "stati ip st =
     (let st = st\<lparr>st_dev := 1, st_ino := inode_no ip, st_nlink := num_links (entry ip), st_size := num_bytes (entry ip)\<rparr> in
      if ity (entry ip) = INODE_REGULAR then Inr (st\<lparr>st_mode := S_IFREG\<rparr>)
      else if ity (entry ip) = INODE_DIRECTORY then Inr (st\<lparr>st_mode := S_IFDIR\<rparr>)
      else if ity (entry ip) = INODE_DEVICE then Inr (st\<lparr>st_mode := 0\<rparr>)
      else Inl (Panic ''unexpected stat type''))"

end
