(* ===== verification/Bitmap.thy ===== *)
theory Bitmap
  imports Prelude
begin

text \<open>
  \<open>common/bitmap.h\<close>, \<open>common/bitmap.c\<close> and the rounding helpers of \<open>common/defines.h\<close>.
  A bitmap is its array of 64-bit cells; \<open>bm_set\<close> is the set of indices it represents, and the
  operations are shown to be the set operations (locale \<open>bit_array\<close>, interpreted on the cells).
  \<open>cells_of\<close>/\<open>bytes_of\<close> are the casts between a block's bytes and its bitmap cells, and
  \<open>first_clear\<close> is the scan for a clear bit that the arena and the block allocator share.
\<close>

section \<open>Rounding\<close>

definition round_down :: "u64 \<Rightarrow> u64 \<Rightarrow> u64" where
  "round_down a b = a - a mod b"

definition round_up :: "u64 \<Rightarrow> u64 \<Rightarrow> u64" where
  "round_up a b = round_down (a + b - 1) b"

lemma unat_round_down: "unat (round_down a b) = unat a - unat a mod unat b"
proof -
  have "a mod b \<le> a" by (simp add: word_le_nat_alt unat_mod)
  then show ?thesis by (simp add: round_down_def unat_sub unat_mod)
qed

lemma unat_round_up:
  assumes "0 < unat b" "unat a + unat b - 1 < 2 ^ 64"
  shows "unat (round_up a b) = (unat a + unat b - 1) - (unat a + unat b - 1) mod unat b"
proof -
  have "unat (a + b - 1) = unat a + unat b - 1"
  proof -
    have b1: "unat (b - 1) = unat b - 1"
      using assms(1) by (subst unat_minus_one) auto
    have eq: "a + b - 1 = a + (b - 1)" by simp
    have "unat a + unat (b - 1) < 2 ^ LENGTH(64)" using assms b1 by simp
    then have "unat (a + (b - 1)) = unat a + unat (b - 1)"
      by (simp only: unat_add_lem)
    with b1 assms(1) show ?thesis unfolding eq by simp
  qed
  then show ?thesis by (simp add: round_up_def unat_round_down)
qed

section \<open>Bitmap cells\<close>

type_synonym cells = "u64 list"

abbreviation (input) BITMAP_BITS_PER_CELL :: nat where "BITMAP_BITS_PER_CELL \<equiv> 64"

definition BITMAP_TO_NUM_CELLS :: "nat \<Rightarrow> nat" where
  "BITMAP_TO_NUM_CELLS sz = (sz + BITMAP_BITS_PER_CELL - 1) div BITMAP_BITS_PER_CELL"

definition BIT :: "nat \<Rightarrow> u64" where
  "BIT i = push_bit i 1"

definition BITMAP_PARSE_INDEX :: "nat \<Rightarrow> nat \<times> nat" where
  "BITMAP_PARSE_INDEX index = (index div BITMAP_BITS_PER_CELL, index mod BITMAP_BITS_PER_CELL)"

text \<open>\<open>init_bitmap\<close> clears the cells that hold \<open>size\<close> bits.\<close>

definition init_bitmap :: "cells \<Rightarrow> nat \<Rightarrow> cells res" where
  "init_bitmap bm sz =
     (let n = BITMAP_TO_NUM_CELLS sz in
      if n \<le> length bm then Inr (replicate n 0 @ drop n bm) else Inl (Fault ''bitmap''))"

definition bitmap_get :: "cells \<Rightarrow> nat \<Rightarrow> bool res" where
  "bitmap_get bm index =
     (let (idx, offset) = BITMAP_PARSE_INDEX index in
      if idx < length bm then Inr (drop_bit offset (bm ! idx) AND 1 \<noteq> 0)
      else Inl (Fault ''bitmap''))"

definition bitmap_set :: "cells \<Rightarrow> nat \<Rightarrow> cells res" where
  "bitmap_set bm index =
     (let (idx, offset) = BITMAP_PARSE_INDEX index in
      if idx < length bm then Inr (bm[idx := bm ! idx OR BIT offset])
      else Inl (Fault ''bitmap''))"

definition bitmap_clear :: "cells \<Rightarrow> nat \<Rightarrow> cells res" where
  "bitmap_clear bm index =
     (let (idx, offset) = BITMAP_PARSE_INDEX index in
      if idx < length bm then Inr (bm[idx := bm ! idx AND NOT (BIT offset)])
      else Inl (Fault ''bitmap''))"

text \<open>\<open>for (j = lo; j < hi; j++) if (!bitmap_get(bitmap, j)) ...\<close>: the first clear bit.\<close>

function first_clear :: "cells \<Rightarrow> nat \<Rightarrow> nat \<Rightarrow> nat option res" where
  "first_clear bm lo hi =
     (if lo < hi
      then bnd (bitmap_get bm lo) (\<lambda>b. if b then first_clear bm (Suc lo) hi else Inr (Some lo))
      else Inr None)"
  by pat_completeness auto
termination
  by (relation "measure (\<lambda>(bm, lo, hi). hi - lo)") auto

declare first_clear.simps [simp del]

section \<open>The set a bitmap represents\<close>

definition bm_set :: "cells \<Rightarrow> nat set" where
  "bm_set bm = {i. i < 64 * length bm \<and> bit (bm ! (i div 64)) (i mod 64)}"

definition bm_size :: "cells \<Rightarrow> nat" where
  "bm_size bm = 64 * length bm"

lemma idx_bound: "i < 64 * n \<longleftrightarrow> i div 64 < (n::nat)"
  by (simp add: less_mult_imp_div_less mult.commute div_less_iff_less_mult)

lemma finite_bm_set [simp]: "finite (bm_set bm)"
  by (rule finite_subset [of _ "{..<64 * length bm}"]) (auto simp: bm_set_def)

lemma bit_BIT: "i < 64 \<Longrightarrow> bit (BIT i) j \<longleftrightarrow> j = i"
  by (auto simp: BIT_def bit_exp_iff)

lemma bitmap_get_Inr: "i < bm_size bm \<Longrightarrow> bitmap_get bm i = Inr (i \<in> bm_set bm)"
  by (auto simp: bitmap_get_def BITMAP_PARSE_INDEX_def Let_def bm_size_def bm_set_def idx_bound
      bit_iff_and_drop_bit_eq_1 and_one_eq mod_2_eq_odd)

lemma bitmap_set_ok:
  assumes "i < bm_size bm"
  obtains bm' where "bitmap_set bm i = Inr bm'" "bm_set bm' = insert i (bm_set bm)"
    "bm_size bm' = bm_size bm"
proof
  let ?bm = "bm[i div 64 := bm ! (i div 64) OR BIT (i mod 64)]"
  have lt: "i div 64 < length bm" using assms by (simp add: bm_size_def idx_bound)
  then show "bitmap_set bm i = Inr ?bm"
    by (simp add: bitmap_set_def BITMAP_PARSE_INDEX_def)
  show "bm_size ?bm = bm_size bm" by (simp add: bm_size_def)
  show "bm_set ?bm = insert i (bm_set bm)"
  proof (rule set_eqI)
    fix k
    have "k div 64 = i div 64 \<and> k mod 64 = i mod 64 \<longleftrightarrow> k = i"
      by (metis div_mult_mod_eq)
    then show "k \<in> bm_set ?bm \<longleftrightarrow> k \<in> insert i (bm_set bm)"
      using lt assms by (auto simp: bm_set_def bm_size_def nth_list_update bit_or_iff bit_BIT idx_bound)
  qed
qed

lemma bitmap_clear_ok:
  assumes "i < bm_size bm"
  obtains bm' where "bitmap_clear bm i = Inr bm'" "bm_set bm' = bm_set bm - {i}"
    "bm_size bm' = bm_size bm"
proof
  let ?bm = "bm[i div 64 := bm ! (i div 64) AND NOT (BIT (i mod 64))]"
  have lt: "i div 64 < length bm" using assms by (simp add: bm_size_def idx_bound)
  then show "bitmap_clear bm i = Inr ?bm"
    by (simp add: bitmap_clear_def BITMAP_PARSE_INDEX_def)
  show "bm_size ?bm = bm_size bm" by (simp add: bm_size_def)
  show "bm_set ?bm = bm_set bm - {i}"
  proof (rule set_eqI)
    fix k
    have "k div 64 = i div 64 \<and> k mod 64 = i mod 64 \<longleftrightarrow> k = i"
      by (metis div_mult_mod_eq)
    moreover have "possible_bit TYPE(64 word) (k mod 64)" by simp
    ultimately show "k \<in> bm_set ?bm \<longleftrightarrow> k \<in> bm_set bm - {i}"
      using lt assms
      by (auto simp: bm_set_def bm_size_def nth_list_update bit_and_iff bit_not_iff bit_BIT idx_bound)
  qed
qed

section \<open>The interface of a bitmap\<close>

text \<open>What the arena and the block allocator rely on: a fixed number of bits, read, set and
  cleared one at a time.\<close>

locale bit_array =
  fixes width :: "'b \<Rightarrow> nat"
    and members :: "'b \<Rightarrow> nat set"
    and get :: "'b \<Rightarrow> nat \<Rightarrow> bool res"
    and ins :: "'b \<Rightarrow> nat \<Rightarrow> 'b res"
    and del :: "'b \<Rightarrow> nat \<Rightarrow> 'b res"
  assumes members_bound: "members b \<subseteq> {..<width b}"
    and get_members: "i < width b \<Longrightarrow> get b i = Inr (i \<in> members b)"
    and ins_ex: "i < width b \<Longrightarrow> \<exists>b'. ins b i = Inr b'"
    and ins_members: "ins b i = Inr b' \<Longrightarrow> members b' = insert i (members b) \<and> width b' = width b"
    and del_ex: "i < width b \<Longrightarrow> \<exists>b'. del b i = Inr b'"
    and del_members: "del b i = Inr b' \<Longrightarrow> members b' = members b - {i} \<and> width b' = width b"
begin

lemma finite_members: "finite (members b)"
  using members_bound finite_subset by blast

lemma get_ins:
  "\<lbrakk>ins b i = Inr b'; j < width b\<rbrakk> \<Longrightarrow> get b' j = Inr (j = i \<or> j \<in> members b)"
  using ins_members [of b i b'] get_members [of j b'] by auto

lemma get_del:
  "\<lbrakk>del b i = Inr b'; j < width b\<rbrakk> \<Longrightarrow> get b' j = Inr (j \<noteq> i \<and> j \<in> members b)"
  using del_members [of b i b'] get_members [of j b'] by auto

lemma ins_card: "\<lbrakk>ins b i = Inr b'; i \<notin> members b\<rbrakk> \<Longrightarrow> card (members b') = Suc (card (members b))"
  by (simp add: ins_members finite_members)

lemma del_card: "\<lbrakk>del b i = Inr b'; i \<in> members b\<rbrakk> \<Longrightarrow> Suc (card (members b')) = card (members b)"
  using del_members [of b i b'] card_Suc_Diff1 [OF finite_members, of i b] by simp

lemma ins_del_members:
  "\<lbrakk>i \<notin> members b; ins b i = Inr b1; del b1 i = Inr b2\<rbrakk> \<Longrightarrow> members b2 = members b"
  by (simp add: ins_members del_members)

end

interpretation cells: bit_array bm_size bm_set bitmap_get bitmap_set bitmap_clear
proof
  fix b i b'
  show "bm_set b \<subseteq> {..<bm_size b}" by (auto simp: bm_set_def bm_size_def)
  show "i < bm_size b \<Longrightarrow> bitmap_get b i = Inr (i \<in> bm_set b)" by (rule bitmap_get_Inr)
  show "i < bm_size b \<Longrightarrow> \<exists>b'. bitmap_set b i = Inr b'" by (meson bitmap_set_ok)
  show "i < bm_size b \<Longrightarrow> \<exists>b'. bitmap_clear b i = Inr b'" by (meson bitmap_clear_ok)
  show "bitmap_set b i = Inr b' \<Longrightarrow> bm_set b' = insert i (bm_set b) \<and> bm_size b' = bm_size b"
  proof -
    assume eq: "bitmap_set b i = Inr b'"
    then have "i < bm_size b"
      by (simp add: bitmap_set_def BITMAP_PARSE_INDEX_def bm_size_def idx_bound split: if_splits)
    with eq show ?thesis by (metis bitmap_set_ok sum.inject(2))
  qed
  show "bitmap_clear b i = Inr b' \<Longrightarrow> bm_set b' = bm_set b - {i} \<and> bm_size b' = bm_size b"
  proof -
    assume eq: "bitmap_clear b i = Inr b'"
    then have "i < bm_size b"
      by (simp add: bitmap_clear_def BITMAP_PARSE_INDEX_def bm_size_def idx_bound split: if_splits)
    with eq show ?thesis by (metis bitmap_clear_ok sum.inject(2))
  qed
qed

lemma bitmap_set_length: "bitmap_set bm i = Inr bm' \<Longrightarrow> length bm' = length bm"
  by (auto simp: bitmap_set_def BITMAP_PARSE_INDEX_def split: if_splits)

lemma bitmap_clear_length: "bitmap_clear bm i = Inr bm' \<Longrightarrow> length bm' = length bm"
  by (auto simp: bitmap_clear_def BITMAP_PARSE_INDEX_def split: if_splits)

lemma init_bitmap_empty:
  "init_bitmap bm n = Inr bm' \<Longrightarrow> i < n \<Longrightarrow> i \<notin> bm_set bm'"
  by (auto simp: init_bitmap_def BITMAP_TO_NUM_CELLS_def bm_set_def nth_append Let_def
      split: if_splits)

text \<open>The scan: a hit is the least clear index of the range, a miss means all are set.\<close>

lemma first_clear_cases:
  assumes "hi \<le> bm_size bm"
  shows "(\<exists>j. first_clear bm lo hi = Inr (Some j) \<and> lo \<le> j \<and> j < hi \<and> j \<notin> bm_set bm \<and>
              {lo..<j} \<subseteq> bm_set bm) \<or>
         (first_clear bm lo hi = Inr None \<and> {lo..<hi} \<subseteq> bm_set bm)"
  using assms
proof (induction bm lo hi rule: first_clear.induct)
  case (1 bm lo hi)
  note unf = first_clear.simps [of bm lo hi]
  show ?case
  proof (cases "lo < hi")
    case False
    then show ?thesis by (simp add: unf)
  next
    case True
    then have g: "bitmap_get bm lo = Inr (lo \<in> bm_set bm)"
      using "1.prems" by (simp add: bitmap_get_Inr)
    show ?thesis
    proof (cases "lo \<in> bm_set bm")
      case False
      with True g show ?thesis by (simp add: unf)
    next
      case mem: True
      have split: "{lo..<k} = insert lo {Suc lo..<k}" if "lo < k" for k
        using that by auto
      have rec: "first_clear bm lo hi = first_clear bm (Suc lo) hi"
        using True g mem by (simp add: unf)
      have "(\<exists>j. first_clear bm (Suc lo) hi = Inr (Some j) \<and> Suc lo \<le> j \<and> j < hi \<and>
                j \<notin> bm_set bm \<and> {Suc lo..<j} \<subseteq> bm_set bm) \<or>
            (first_clear bm (Suc lo) hi = Inr None \<and> {Suc lo..<hi} \<subseteq> bm_set bm)"
        by (rule "1.IH" [OF True g mem "1.prems"])
      then show ?thesis
      proof (elim disjE exE conjE)
        fix j assume j: "first_clear bm (Suc lo) hi = Inr (Some j)" "Suc lo \<le> j" "j < hi"
          "j \<notin> bm_set bm" "{Suc lo..<j} \<subseteq> bm_set bm"
        then have "{lo..<j} \<subseteq> bm_set bm" using split [of j] mem by simp
        with j show ?thesis using rec by auto
      next
        assume "first_clear bm (Suc lo) hi = Inr None" "{Suc lo..<hi} \<subseteq> bm_set bm"
        then show ?thesis using rec mem split [OF True] by simp
      qed
    qed
  qed
qed

lemma first_clear_SomeD:
  "\<lbrakk>first_clear bm lo hi = Inr (Some j); hi \<le> bm_size bm\<rbrakk> \<Longrightarrow>
    lo \<le> j \<and> j < hi \<and> j \<notin> bm_set bm \<and> {lo..<j} \<subseteq> bm_set bm"
  using first_clear_cases [of hi bm lo] by auto

lemma first_clear_NoneD:
  "\<lbrakk>first_clear bm lo hi = Inr None; hi \<le> bm_size bm\<rbrakk> \<Longrightarrow> {lo..<hi} \<subseteq> bm_set bm"
  using first_clear_cases [of hi bm lo] by auto

lemma first_clear_ok: "hi \<le> bm_size bm \<Longrightarrow> ok (first_clear bm lo hi)"
  using first_clear_cases [of hi bm lo] by auto

lemma first_clear_hit: "\<lbrakk>hi \<le> bm_size bm; \<not> {lo..<hi} \<subseteq> bm_set bm\<rbrakk> \<Longrightarrow>
    \<exists>j. first_clear bm lo hi = Inr (Some j)"
  using first_clear_cases [of hi bm lo] by auto

section \<open>A bitmap block as bytes\<close>

text \<open>\<open>(BitmapCell * )block->data\<close>: the bytes of a block read as little-endian 64-bit cells, and the
  bytes the cells leave behind.\<close>

definition cells_of :: "bytes \<Rightarrow> cells" where
  "cells_of bs = map (\<lambda>k. word_of_nat (le_nat (slice bs (8 * k) 8))) [0..<length bs div 8]"

definition bytes_of :: "cells \<Rightarrow> bytes" where
  "bytes_of cs = concat (map (\<lambda>c. le_bytes 8 (unat c)) cs)"

lemma length_cells_of [simp]: "length (cells_of bs) = length bs div 8"
  by (simp add: cells_of_def)

lemma length_bytes_of [simp]: "length (bytes_of cs) = 8 * length cs"
  by (induction cs) (simp_all add: bytes_of_def)

lemma bytes_of_Cons: "bytes_of (c # cs) = le_bytes 8 (unat c) @ bytes_of cs"
  by (simp add: bytes_of_def)

lemma slice_bytes_of: "k < length cs \<Longrightarrow> slice (bytes_of cs) (8 * k) 8 = le_bytes 8 (unat (cs ! k))"
proof (induction cs arbitrary: k)
  case Nil
  then show ?case by simp
next
  case (Cons c cs)
  show ?case
  proof (cases k)
    case 0
    then show ?thesis by (simp add: bytes_of_Cons slice_def)
  next
    case (Suc j)
    then have "slice (bytes_of (c # cs)) (8 * k) 8 = slice (bytes_of cs) (8 * j) 8"
      by (simp add: bytes_of_Cons slice_def)
    with Cons Suc show ?thesis by simp
  qed
qed

lemma cells_of_bytes_of [simp]: "cells_of (bytes_of cs) = cs"
proof (rule nth_equalityI)
  fix k assume "k < length (cells_of (bytes_of cs))"
  then have k: "k < length cs" by simp
  have "unat (cs ! k) < 256 ^ 8" using unsigned_less [of "cs ! k", where ?'a = nat] by simp
  then show "cells_of (bytes_of cs) ! k = cs ! k"
    using k by (simp add: cells_of_def slice_bytes_of le_nat_le_bytes_id)
qed simp

lemma bytes_of_cells_of:
  assumes "8 dvd length bs"
  shows "bytes_of (cells_of bs) = bs"
proof -
  from assms obtain n where n: "length bs = 8 * n" by (elim dvdE)
  show ?thesis
  proof (rule nth_equalityI)
    show len: "length (bytes_of (cells_of bs)) = length bs" using n by simp
    fix i assume "i < length (bytes_of (cells_of bs))"
    then have i: "i < 8 * n" and k: "i div 8 < n" using n by auto
    let ?k = "i div 8" and ?s = "slice bs (8 * (i div 8)) 8"
    have sl: "length ?s = 8" using k n by (intro length_slice) linarith
    have small: "le_nat ?s < 2 ^ 64" using le_nat_bound [of ?s] sl by simp
    have "slice (bytes_of (cells_of bs)) (8 * ?k) 8 = le_bytes 8 (unat (cells_of bs ! ?k))"
      using k n by (intro slice_bytes_of) simp
    also have "unat (cells_of bs ! ?k) = le_nat ?s"
      using k n small by (simp add: cells_of_def unat_of_nat)
    also have "le_bytes 8 (le_nat ?s) = ?s" using le_bytes_le_nat [of ?s] sl by simp
    finally have eq: "slice (bytes_of (cells_of bs)) (8 * ?k) 8 = ?s" .
    have split: "8 * ?k + i mod 8 = i" and m: "i mod 8 < 8" by simp_all
    have "bytes_of (cells_of bs) ! i = slice (bytes_of (cells_of bs)) (8 * ?k) 8 ! (i mod 8)"
      using split m k n len by (subst nth_slice) auto
    also have "\<dots> = bs ! i" using eq split m k n by (simp add: nth_slice)
    finally show "bytes_of (cells_of bs) ! i = bs ! i" .
  qed
qed

text \<open>Bit \<open>i\<close> of the cells is bit \<open>i mod 8\<close> of byte \<open>i div 8\<close>: the layout \<open>mkfs\<close> writes.\<close>

lemma bit_le_nat: "bit (le_nat bs) i \<longleftrightarrow> i < 8 * length bs \<and> bit (bs ! (i div 8)) (i mod 8)"
proof (induction bs arbitrary: i)
  case Nil
  then show ?case by simp
next
  case (Cons b bs)
  have high: "bit (unat b) n \<Longrightarrow> n < 8" for n
    by (auto simp: bit_unsigned_iff dest: bit_imp_le_length)
  have "le_nat (b # bs) = unat b + push_bit 8 (le_nat bs)"
    by (simp add: push_bit_eq_mult)
  also have "\<dots> = unat b OR push_bit 8 (le_nat bs)"
    using high by (intro disjunctive_add) (auto simp: bit_push_bit_iff dest!: high)
  finally have "bit (le_nat (b # bs)) i \<longleftrightarrow> bit (unat b) i \<or> (8 \<le> i \<and> bit (le_nat bs) (i - 8))"
    by (auto simp: bit_or_iff bit_push_bit_iff)
  moreover have "i div 8 = Suc ((i - 8) div 8)" "i mod 8 = (i - 8) mod 8" if "8 \<le> i"
    using that by (simp_all add: le_div_geq le_mod_geq)
  ultimately show ?case
    using Cons.IH [of "i - 8"] high [of i]
    by (cases "i < 8") (auto simp: bit_unsigned_iff)
qed

lemma bm_set_cells_of:
  assumes "length bs = 8 * n"
  shows "i \<in> bm_set (cells_of bs) \<longleftrightarrow> i < 8 * length bs \<and> bit (bs ! (i div 8)) (i mod 8)"
proof (cases "i < 64 * n")
  case False
  then show ?thesis using assms by (simp add: bm_set_def)
next
  case True
  let ?s = "slice bs (8 * (i div 64)) 8"
  have k: "i div 64 < n" using True by (simp add: idx_bound)
  have sl: "length ?s = 8" using k assms by (intro length_slice) linarith
  have m64: "i mod 64 = 8 * (i div 8 mod 8) + i mod 8" and d64: "i div 64 = i div 8 div 8"
    using mod_mult2_eq [of i 8 8] div_mult2_eq [of i 8 8] by simp_all
  have "i mod 64 div 8 = i div 8 mod 8" by (simp add: m64)
  then have "i mod 64 div 8 < 8" and "8 * (i div 64) + i mod 64 div 8 = i div 8"
    by (simp_all add: d64)
  then have "?s ! (i mod 64 div 8) = bs ! (i div 8)"
    using k assms by (subst nth_slice) auto
  then show ?thesis
    using True k assms sl mod_mod_cancel [of 8 64 i]
    by (simp add: bm_set_def cells_of_def bit_of_nat_iff bit_le_nat)
qed

end
