(* ===== verification/CacheAlloc.thy ===== *)
theory CacheAlloc
  imports BlockCache Bitmap
begin

text \<open>
  \<open>fs/cache.c\<close>: allocation of blocks from the bitmaps of the block groups (\<open>cache_alloc\<close>,
  \<open>cache_allocg\<close>, \<open>cache_free\<close>), and \<open>fs/fs.c\<close>, which counts the used blocks of each group at boot.
  The bit of block \<open>bg_start + h * blocks_per_group + k\<close> is bit \<open>k\<close> of group \<open>h\<close>'s bitmap.
\<close>

text \<open>The offsets \<open>i = 0; i < blocks_per_group; i += BIT_PER_BLOCK\<close>.\<close>

definition bitmap_offs :: "SuperBlock \<Rightarrow> nat list" where
  "bitmap_offs sb = map (\<lambda>k. BIT_PER_BLOCK * k) [0..<(blocks_per_group sb + BIT_PER_BLOCK - 1) div BIT_PER_BLOCK]"

text \<open>The body of the two allocation loops: scan bitmap block \<open>bno\<close> for a clear bit below \<open>lim\<close>; on
  a hit set it, and clear the block \<open>first + j\<close> it stands for.\<close>

definition scan_bitmap :: "nat \<Rightarrow> nat option \<Rightarrow> nat \<Rightarrow> nat \<Rightarrow> nat \<Rightarrow> bcache \<Rightarrow> (nat option \<times> bcache) res" where
  "scan_bitmap me ctx bno lim first st =
     bnd (cache_acquire me bno st) (\<lambda>(block, st).
     let bitmap = cells_of (block_data block st) in
     bnd (first_clear bitmap 0 lim) (\<lambda>r.
     case r of
       Some j \<Rightarrow>
         bnd (bitmap_set bitmap j) (\<lambda>bitmap.
         let st = set_block_data block (bytes_of bitmap) st in
         bnd (cache_sync me ctx block st) (\<lambda>st.
         bnd (cache_release me block st) (\<lambda>st.
         bnd (cache_acquire me (first + j) st) (\<lambda>(block, st).
         let st = set_block_data block (replicate BLOCK_SIZE 0) st in
         bnd (cache_sync me ctx block st) (\<lambda>st.
         bnd (cache_release me block st) (\<lambda>st.
         Inr (Some (first + j), st)))))))
     | None \<Rightarrow> bnd (cache_release me block st) (\<lambda>st. Inr (None, st))))"

definition count_used :: "nat \<Rightarrow> bcache \<Rightarrow> bcache res" where
  "count_used h st =
     (if h < length (used_block st)
      then Inr (st\<lparr>used_block := (used_block st)[h := addw 32 (used_block st ! h) 1]\<rparr>)
      else Inl (Fault ''used_block''))"

fun alloc_loop :: "nat \<Rightarrow> nat option \<Rightarrow> (nat \<times> nat) list \<Rightarrow> bcache \<Rightarrow> (nat \<times> bcache) res" where
  "alloc_loop me ctx [] st = Inl (Panic ''cache_alloc: no free block'')"
| "alloc_loop me ctx ((h, i) # rest) st =
     (let sb = sblock st;
          base = bg_start sb + h * blocks_per_group sb in
      bnd (scan_bitmap me ctx (base + bitmap_start_per_group sb + i div BIT_PER_BLOCK)
             (min BIT_PER_BLOCK (blocks_per_group sb - i)) (base + i) st) (\<lambda>(r, st).
      case r of
        Some bn \<Rightarrow> bnd (count_used h st) (\<lambda>st. Inr (bn, st))
      | None \<Rightarrow> alloc_loop me ctx rest st))"

definition cache_alloc :: "nat \<Rightarrow> nat option \<Rightarrow> bcache \<Rightarrow> (nat \<times> bcache) res" where
  "cache_alloc me ctx st =
     alloc_loop me ctx (List.product [0..<num_groups (sblock st)] (bitmap_offs (sblock st))) st"

text \<open>\<open>cache_allocg\<close> computes the group's base in 32 bits, and its inner loop stops at
  \<open>blocks_per_group\<close> counted from the start of each bitmap block.\<close>

fun allocg_loop :: "nat \<Rightarrow> nat option \<Rightarrow> nat \<Rightarrow> nat list \<Rightarrow> bcache \<Rightarrow> (nat \<times> bcache) res" where
  "allocg_loop me ctx gno [] st = Inr (0, st)"
| "allocg_loop me ctx gno (i # rest) st =
     (let sb = sblock st;
          goff = (gno * blocks_per_group sb) mod 2 ^ 32 in
      bnd (scan_bitmap me ctx
             (addw 32 (addw 32 (bg_start sb) (bitmap_start_per_group sb)) goff + i div BIT_PER_BLOCK)
             (min BIT_PER_BLOCK (blocks_per_group sb)) (addw 32 (bg_start sb) goff + i) st) (\<lambda>(r, st).
      case r of
        Some bn \<Rightarrow> bnd (count_used gno st) (\<lambda>st. Inr (bn, st))
      | None \<Rightarrow> allocg_loop me ctx gno rest st))"

definition cache_allocg :: "nat \<Rightarrow> nat option \<Rightarrow> nat \<Rightarrow> bcache \<Rightarrow> (nat \<times> bcache) res" where
  "cache_allocg me ctx gno st =
     bnd (chk (gno < NGROUPS) ''gno < NGROUPS'') (\<lambda>_.
     allocg_loop me ctx gno (bitmap_offs (sblock st)) st)"

definition cache_free :: "nat \<Rightarrow> nat option \<Rightarrow> nat \<Rightarrow> bcache \<Rightarrow> bcache res" where
  "cache_free me ctx bn st =
     (let sb = sblock st in
      if blocks_per_group sb = 0 then Inl (Fault ''division by zero'') else
      let rel = subw 64 bn (bg_start sb);
          h = rel div blocks_per_group sb;
          off = rel mod blocks_per_group sb;
          i = off div BIT_PER_BLOCK;
          j = off mod BIT_PER_BLOCK in
      bnd (cache_acquire me (bg_start sb + h * blocks_per_group sb + bitmap_start_per_group sb + i) st) (\<lambda>(block, st).
      let bitmap = cells_of (block_data block st) in
      bnd (bitmap_get bitmap j) (\<lambda>b.
      bnd (chk b ''bitmap_get(bitmap, j)'') (\<lambda>_.
      bnd (bitmap_clear bitmap j) (\<lambda>bitmap.
      let st = set_block_data block (bytes_of bitmap) st in
      if h \<ge> length (used_block st) then Inl (Fault ''used_block'') else
      let st = st\<lparr>used_block := (used_block st)[h := subw 32 (used_block st ! h) 1]\<rparr> in
      bnd (cache_sync me ctx block st) (\<lambda>st.
      cache_release me block st))))))"

text \<open>\<open>init_filesystem\<close>: the loop over one bitmap block, from \<open>data_start_per_group\<close> on.\<close>

fun count_bits :: "cells \<Rightarrow> nat list \<Rightarrow> nat \<Rightarrow> nat res" where
  "count_bits bitmap [] n = Inr n"
| "count_bits bitmap (j # js) n =
     bnd (bitmap_get bitmap j) (\<lambda>b. count_bits bitmap js (if b then addw 32 n 1 else n))"

definition used_range :: "SuperBlock \<Rightarrow> nat \<Rightarrow> nat list" where
  "used_range sb i = [data_start_per_group sb ..< min (BIT_PER_BLOCK - i) (blocks_per_group sb)]"

fun used_in_group :: "SuperBlock \<Rightarrow> disk \<Rightarrow> nat \<Rightarrow> nat list \<Rightarrow> nat \<Rightarrow> nat res" where
  "used_in_group sb d h [] n = Inr n"
| "used_in_group sb d h (i # is) n =
     bnd (count_bits (cells_of (d ((bg_start sb + h * blocks_per_group sb + bitmap_start_per_group sb +
            i div BIT_PER_BLOCK) mod 2 ^ 32))) (used_range sb i) n) (used_in_group sb d h is)"

fun used_groups :: "SuperBlock \<Rightarrow> disk \<Rightarrow> nat list \<Rightarrow> nat list \<Rightarrow> nat list res" where
  "used_groups sb d [] ub = Inr ub"
| "used_groups sb d (h # hs) ub =
     bnd (used_in_group sb d h (bitmap_offs sb) (ub ! h)) (\<lambda>n. used_groups sb d hs (ub[h := n]))"

text \<open>The cache part of \<open>init_filesystem\<close>: the super block is sector 1 of the device.\<close>

definition init_filesystem :: "nat \<Rightarrow> BlockDevice \<Rightarrow> bcache \<Rightarrow> bcache res" where
  "init_filesystem me d st =
     (let sb = bytes_sblock (dev_read 1 d) in
      bnd (init_bcache me sb d st) (\<lambda>st.
      bnd (used_groups sb (disk (dev st)) [0..<NGROUPS] (used_block st)) (\<lambda>ub.
      Inr (st\<lparr>used_block := ub\<rparr>))))"

section \<open>The allocation map\<close>

text \<open>The bit of block \<open>b\<close>: which bitmap block, which bit.\<close>

definition bit_block :: "SuperBlock \<Rightarrow> nat \<Rightarrow> nat" where
  "bit_block sb b = bg_start sb + (b - bg_start sb) div blocks_per_group sb * blocks_per_group sb +
     bitmap_start_per_group sb + (b - bg_start sb) mod blocks_per_group sb div BIT_PER_BLOCK"

definition bit_index :: "SuperBlock \<Rightarrow> nat \<Rightarrow> nat" where
  "bit_index sb b = (b - bg_start sb) mod blocks_per_group sb mod BIT_PER_BLOCK"

definition group_area :: "SuperBlock \<Rightarrow> nat set" where
  "group_area sb = {bg_start sb ..< bg_start sb + num_groups sb * blocks_per_group sb}"

definition allocated :: "SuperBlock \<Rightarrow> disk \<Rightarrow> nat set" where
  "allocated sb v = {b \<in> group_area sb. bit_index sb b \<in> bm_set (cells_of (v (bit_block sb b)))}"

definition bitmap_blocks :: "SuperBlock \<Rightarrow> nat set" where
  "bitmap_blocks sb = bit_block sb ` group_area sb"

text \<open>A layout in which the groups, their bitmaps and the log do not collide: the bitmap blocks lie
  inside the groups and are marked used.\<close>

definition layout_ok :: "SuperBlock \<Rightarrow> bool" where
  "layout_ok sb \<longleftrightarrow> sb_ok sb \<and> 0 < blocks_per_group sb \<and> num_groups sb \<le> NGROUPS \<and>
     sb_log_start sb + num_log_blocks sb \<le> bg_start sb \<and>
     bitmap_start_per_group sb + (blocks_per_group sb + BIT_PER_BLOCK - 1) div BIT_PER_BLOCK \<le> blocks_per_group sb \<and>
     bg_start sb + num_groups sb * blocks_per_group sb < 2 ^ 32"

end
