(* ===== verification/CacheAllocInv.thy ===== *)
theory CacheAllocInv
  imports CacheAlloc
begin

text \<open>
  Correctness of the block allocator: an allocated block was free, is zeroed, and its bit is the only
  one that changes; \<open>cache_alloc\<close> finds a block whenever one is free; \<open>cache_free\<close> undoes it.
\<close>

section \<open>Where a block's bit lives\<close>

lemma bit_of_block:
  assumes l: "layout_ok sb" and h: "h < num_groups sb" and i: "i \<in> set (bitmap_offs sb)"
    and j: "j < min BIT_PER_BLOCK (blocks_per_group sb - i)" and b: "b = bg_start sb + h * blocks_per_group sb + i + j"
  shows "bit_block sb b = bg_start sb + h * blocks_per_group sb + bitmap_start_per_group sb + i div BIT_PER_BLOCK"
    "bit_index sb b = j" "b \<in> group_area sb" "(b - bg_start sb) div blocks_per_group sb = h"
proof -
  let ?n = "blocks_per_group sb"
  have ij: "i + j < ?n" "j < 4096" using j by auto
  obtain k where k: "i = 4096 * k" using i by (auto simp: bitmap_offs_def)
  have p: "b - bg_start sb = h * ?n + (i + j)" using b by simp
  have dv: "(b - bg_start sb) div ?n = h" "(b - bg_start sb) mod ?n = i + j"
    using ij(1) by (simp_all add: p)
  then show "(b - bg_start sb) div ?n = h" by simp
  have "(i + j) div 4096 = k" "(i + j) mod 4096 = j" using ij(2) k by simp_all
  then show "bit_block sb b = bg_start sb + h * ?n + bitmap_start_per_group sb + i div BIT_PER_BLOCK"
    "bit_index sb b = j" using dv k by (simp_all add: bit_block_def bit_index_def)
  have "h * ?n + ?n \<le> num_groups sb * ?n" using h by (metis Suc_leI add.commute mult_Suc mult_le_mono1)
  then show "b \<in> group_area sb" using b ij(1) by (simp add: group_area_def)
qed

lemma block_of_bit:
  assumes l: "layout_ok sb" and b: "b \<in> group_area sb"
  obtains h i j where "h < num_groups sb" "i \<in> set (bitmap_offs sb)" "j < min BIT_PER_BLOCK (blocks_per_group sb - i)"
    "b = bg_start sb + h * blocks_per_group sb + i + j"
proof -
  let ?n = "blocks_per_group sb"
  define p where "p = b - bg_start sb"
  have n: "0 < ?n" using l by (simp add: layout_ok_def)
  have p: "b = bg_start sb + p" "p < num_groups sb * ?n" using b by (auto simp: p_def group_area_def)
  define h where "h = p div ?n"
  define off where "off = p mod ?n"
  have h: "h < num_groups sb" using p(2) n by (simp add: h_def less_mult_imp_div_less)
  have off: "off < ?n" using n by (simp add: off_def)
  have po: "p = h * ?n + off" by (simp add: h_def off_def)
  define i where "i = 4096 * (off div 4096)"
  define j where "j = off mod 4096"
  have ij: "off = i + j" "j < 4096" by (simp_all add: i_def j_def)
  have "off div 4096 < (?n + 4096 - 1) div 4096" using off by linarith
  then have "i \<in> set (bitmap_offs sb)" by (auto simp: bitmap_offs_def i_def)
  then show thesis using that [of h i j] h ij off p(1) po by simp
qed

lemma bit_block_range:
  assumes l: "layout_ok sb" and b: "b \<in> group_area sb"
  shows "(bit_block sb b - bg_start sb) div blocks_per_group sb = (b - bg_start sb) div blocks_per_group sb"
    "(bit_block sb b - bg_start sb) mod blocks_per_group sb =
       bitmap_start_per_group sb + (b - bg_start sb) mod blocks_per_group sb div BIT_PER_BLOCK"
    "bit_block sb b \<in> group_area sb"
proof -
  let ?n = "blocks_per_group sb" and ?p = "b - bg_start sb"
  let ?r = "bitmap_start_per_group sb + ?p mod ?n div 4096"
  have n: "0 < ?n" using l by (simp add: layout_ok_def)
  have "?p mod ?n < ?n" using n by simp
  then have "?p mod ?n div 4096 < (?n + 4096 - 1) div 4096" by linarith
  then have r: "?r < ?n" using l by (simp add: layout_ok_def)
  have q: "bit_block sb b - bg_start sb = ?p div ?n * ?n + ?r" by (simp add: bit_block_def)
  show "(bit_block sb b - bg_start sb) div ?n = ?p div ?n" "(bit_block sb b - bg_start sb) mod ?n = ?r"
    unfolding q using r n by simp_all
  have "?p < num_groups sb * ?n" using b by (auto simp: group_area_def)
  then have "?p div ?n < num_groups sb" by (simp add: less_mult_imp_div_less)
  then have "?p div ?n * ?n + ?n \<le> num_groups sb * ?n" by (metis Suc_leI add.commute mult_Suc mult_le_mono1)
  then show "bit_block sb b \<in> group_area sb" using r by (simp add: group_area_def bit_block_def)
qed

text \<open>Different blocks have different bits.\<close>

lemma bit_inj:
  assumes l: "layout_ok sb" and b: "b \<in> group_area sb" "c \<in> group_area sb"
    and e: "bit_block sb b = bit_block sb c" "bit_index sb b = bit_index sb c"
  shows "b = c"
proof -
  let ?n = "blocks_per_group sb"
  have dv: "(b - bg_start sb) div ?n = (c - bg_start sb) div ?n"
    using bit_block_range(1) [OF l b(1)] bit_block_range(1) [OF l b(2)] e(1) by simp
  have "(b - bg_start sb) mod ?n div 4096 = (c - bg_start sb) mod ?n div 4096"
    using bit_block_range(2) [OF l b(1)] bit_block_range(2) [OF l b(2)] e(1) by simp
  then have "(b - bg_start sb) mod ?n = (c - bg_start sb) mod ?n"
    using e(2) unfolding bit_index_def by (metis div_mult_mod_eq)
  then have "b - bg_start sb = c - bg_start sb" using dv by (metis div_mult_mod_eq)
  then show ?thesis using b by (auto simp: group_area_def)
qed

lemma group_area_client:
  assumes "layout_ok sb" "b \<in> group_area sb"
  shows "client_block sb b"
proof -
  have "b < 2 ^ 32" using assms by (auto simp: layout_ok_def group_area_def)
  also have "(2::nat) ^ 32 \<le> 2 ^ 64" by simp
  finally show ?thesis using assms by (auto simp: layout_ok_def group_area_def log_area_def client_block_def)
qed

section \<open>Scanning one bitmap block\<close>

text \<open>What an operation of the allocator leaves alone: everything but the view, the operation's block
  set and the group counters.\<close>

definition steps_to :: "SuperBlock \<Rightarrow> nat set \<Rightarrow> nat \<Rightarrow> bcache \<Rightarrow> bcache \<Rightarrow> bool" where
  "steps_to sb A k st st' \<longleftrightarrow> client_inv sb A st' \<and> hblock st' = hblock st \<and>
     dirty_blocks st' = dirty_blocks st \<and> room st \<le> room st' + k"

lemma steps_to_trans: "\<lbrakk>steps_to sb A k st st1; steps_to sb A l st1 st2\<rbrakk> \<Longrightarrow> steps_to sb A (k + l) st st2"
  by (simp add: steps_to_def)

lemma steps_to_mono: "\<lbrakk>steps_to sb A k st st'; k \<le> l\<rbrakk> \<Longrightarrow> steps_to sb A l st st'"
  by (simp add: steps_to_def)

lemma bm_size_block: "length v = BLOCK_SIZE \<Longrightarrow> bm_size (cells_of v) = BIT_PER_BLOCK"
  by (simp add: bm_size_def)

lemma scan_bitmap_miss:
  assumes inv: "client_inv sb A st" and bno: "client_block sb bno" "bno \<notin> held st" and room: "0 < room st"
    and lim: "lim \<le> BIT_PER_BLOCK" "{0..<lim} \<subseteq> bm_set (cells_of (view st bno))"
  shows "\<exists>st'. scan_bitmap me ctx bno lim first st = Inr (None, st') \<and> steps_to sb A 1 st st' \<and>
    view st' = view st \<and> (\<forall>c. ctx_blocks st' c = ctx_blocks st c) \<and> used_block st' = used_block st"
proof -
  have nr: "bno \<notin> Map.ran (hblock st)" using bno(2) by (simp add: ran_hblock)
  obtain s st1 st2 where r: "cache_acquire me bno st = Inr (s, st1)" "block_data s st1 = view st bno"
    "cache_release me s st1 = Inr st2" and e: "client_inv sb A st2" "hblock st2 = hblock st" "view st2 = view st"
    "dirty_blocks st2 = dirty_blocks st" "\<And>c. ctx_blocks st2 c = ctx_blocks st c" "room st \<le> Suc (room st2)"
    "used_block st2 = used_block st"
    by (rule bc.read_block [OF inv bno(1) nr room, of me]) blast
  have "first_clear (cells_of (view st bno)) 0 lim = Inr None"
    using first_clear_cases [of lim "cells_of (view st bno)" 0] lim bm_size_block [of "view st bno"]
      bc.vw_length [OF inv] by auto
  then have "scan_bitmap me ctx bno lim first st = Inr (None, st2)"
    using r by (simp add: scan_bitmap_def Let_def)
  then show ?thesis using e by (auto simp: steps_to_def)
qed

lemma scan_bitmap_hit:
  assumes inv: "client_inv sb A st" and bno: "client_block sb bno" "bno \<notin> held st" and room: "2 \<le> room st"
    and lim: "lim \<le> BIT_PER_BLOCK" "\<not> {0..<lim} \<subseteq> bm_set (cells_of (view st bno))"
    and c: "c \<in> A" and fst: "\<And>j. \<lbrakk>j < lim; j \<notin> bm_set (cells_of (view st bno))\<rbrakk> \<Longrightarrow> client_block sb (first + j) \<and> first + j \<notin> held st"
    and space: "\<And>j. j < lim \<Longrightarrow> card (insert (first + j) (insert bno (ctx_blocks st c))) \<le> OP_MAX_NUM_BLOCKS"
  shows "\<exists>j v st'. scan_bitmap me (Some c) bno lim first st = Inr (Some (first + j), st') \<and> j < lim \<and>
    j \<notin> bm_set (cells_of (view st bno)) \<and> steps_to sb A 2 st st' \<and> length v = BLOCK_SIZE \<and>
    bm_set (cells_of v) = insert j (bm_set (cells_of (view st bno))) \<and>
    view st' = (view st)(bno := v, first + j := replicate BLOCK_SIZE 0) \<and>
    ctx_blocks st' c = insert (first + j) (insert bno (ctx_blocks st c)) \<and>
    (\<forall>e. e \<noteq> c \<longrightarrow> ctx_blocks st' e = ctx_blocks st e) \<and> used_block st' = used_block st"
proof -
  let ?bm = "cells_of (view st bno)"
  have size: "bm_size ?bm = 4096" using bm_size_block bc.vw_length [OF inv] by simp
  obtain j where fc: "first_clear ?bm 0 lim = Inr (Some j)" and j: "j < lim" "j \<notin> bm_set ?bm"
    using first_clear_cases [of lim ?bm 0] lim size by auto
  have "j < bm_size ?bm" using j(1) lim(1) size by simp
  then obtain bm' where bm': "bitmap_set ?bm j = Inr bm'" "bm_set bm' = insert j (bm_set ?bm)" "bm_size bm' = bm_size ?bm"
    using bitmap_set_ok by blast
  define v where "v = bytes_of bm'"
  have v: "length v = 512" "cells_of v = bm'" using bm'(3) size by (simp_all add: v_def bm_size_def)
  have nr: "bno \<notin> Map.ran (hblock st)" using bno(2) by (simp add: ran_hblock)
  have fin: "finite (ctx_blocks st c)" by (simp add: ctx_blocks_def)
  have sp: "card (insert bno (ctx_blocks st c)) \<le> 10" "first + j \<in> insert bno (ctx_blocks st c) \<or> card (insert bno (ctx_blocks st c)) < 10"
    using space [OF j(1)] fin by (auto simp: card_insert_if split: if_splits)
  have sp1: "bno \<in> ctx_blocks st c \<or> card (ctx_blocks st c) < 10" using sp(1) fin by (auto simp: card_insert_if split: if_splits)
  have r0: "0 < room st" using room by simp
  obtain s st1 st2 st3 where r: "cache_acquire me bno st = Inr (s, st1)" "block_data s st1 = view st bno"
    "cache_sync me (Some c) s (set_block_data s v st1) = Inr st2" "cache_release me s st2 = Inr st3"
    and e: "client_inv sb A st3" "hblock st3 = hblock st" "view st3 = (view st)(bno := v)" "dirty_blocks st3 = dirty_blocks st"
      "ctx_blocks st3 c = insert bno (ctx_blocks st c)" "\<And>e. e \<noteq> c \<Longrightarrow> ctx_blocks st3 e = ctx_blocks st e"
      "room st \<le> Suc (room st3)" "used_block st3 = used_block st"
    by (rule bc.change_block [OF inv bno(1) nr r0, of "\<lambda>_. v" c me]) (use v c sp1 in auto)
  have b: "client_block sb (first + j)" "first + j \<notin> Map.ran (hblock st3)"
    using fst [OF j] e(2) by (simp_all add: ran_hblock)
  have r3: "0 < room st3" using e(7) room by simp
  have sp3: "first + j \<in> ctx_blocks st3 c \<or> card (ctx_blocks st3 c) < 10" using sp(2) e(5) by simp
  obtain s' st4 st5 st6 where r': "cache_acquire me (first + j) st3 = Inr (s', st4)" "block_data s' st4 = view st3 (first + j)"
    "cache_sync me (Some c) s' (set_block_data s' (replicate 512 0) st4) = Inr st5" "cache_release me s' st5 = Inr st6"
    and e': "client_inv sb A st6" "hblock st6 = hblock st3" "view st6 = (view st3)(first + j := replicate 512 0)" "dirty_blocks st6 = dirty_blocks st3"
      "ctx_blocks st6 c = insert (first + j) (ctx_blocks st3 c)" "\<And>e. e \<noteq> c \<Longrightarrow> ctx_blocks st6 e = ctx_blocks st3 e"
      "room st3 \<le> Suc (room st6)" "used_block st6 = used_block st3"
    by (rule bc.change_block [OF e(1) b r3, of "\<lambda>_. replicate 512 0" c me]) (use c sp3 in auto)
  have "scan_bitmap me (Some c) bno lim first st = Inr (Some (first + j), st6)"
    using r r' fc bm'(1) by (simp add: scan_bitmap_def Let_def v_def)
  then show ?thesis using j v bm'(2) e e' by (intro exI [of _ j] exI [of _ v] exI [of _ st6]) (simp add: steps_to_def)
qed

section \<open>The group counters\<close>

lemma used_block_upd [simp]:
  "view (st\<lparr>used_block := u\<rparr>) = view st" "hblock (st\<lparr>used_block := u\<rparr>) = hblock st"
  "dirty_blocks (st\<lparr>used_block := u\<rparr>) = dirty_blocks st" "ctx_blocks (st\<lparr>used_block := u\<rparr>) c = ctx_blocks st c"
  "client_inv sb A (st\<lparr>used_block := u\<rparr>) = client_inv sb A st"
proof -
  have sb: "same_blocks st (st\<lparr>used_block := u\<rparr>)" by (simp add: same_blocks_def)
  have c: "clean (st\<lparr>used_block := u\<rparr>) = clean st" by (rule ext) (simp add: clean_def)
  have p: "pins (st\<lparr>used_block := u\<rparr>) = pins st" using same_blocks_sets [OF sb] by simp
  have x: "\<And>c. ctx_blocks (st\<lparr>used_block := u\<rparr>) c = ctx_blocks st c" by (simp add: ctx_blocks_def)
  show "view (st\<lparr>used_block := u\<rparr>) = view st" by (rule same_blocks_view [OF sb])
  show "hblock (st\<lparr>used_block := u\<rparr>) = hblock st" by (rule ext) (simp add: hblock_def)
  show "dirty_blocks (st\<lparr>used_block := u\<rparr>) = dirty_blocks st" by (simp add: dirty_blocks_def c)
  show "ctx_blocks (st\<lparr>used_block := u\<rparr>) c = ctx_blocks st c" by (rule x)
  show "client_inv sb A (st\<lparr>used_block := u\<rparr>) = client_inv sb A st"
    using same_blocks_inv [OF sb] by (simp add: client_inv_def log_inv_def ctx_ok_def p x)
qed

definition group_of :: "SuperBlock \<Rightarrow> nat \<Rightarrow> nat" where
  "group_of sb b = (b - bg_start sb) div blocks_per_group sb"

lemma group_of_bound: "\<lbrakk>layout_ok sb; b \<in> group_area sb\<rbrakk> \<Longrightarrow> group_of sb b < num_groups sb"
  by (auto simp: group_of_def group_area_def less_mult_imp_div_less)

section \<open>Allocation\<close>

definition alloc_pre :: "SuperBlock \<Rightarrow> nat set \<Rightarrow> nat \<Rightarrow> bcache \<Rightarrow> bool" where
  "alloc_pre sb A c st \<longleftrightarrow> layout_ok sb \<and> client_inv sb A st \<and> c \<in> A \<and> bitmap_blocks sb \<subseteq> allocated sb (view st) \<and>
     held st \<inter> bitmap_blocks sb = {} \<and> held st \<inter> group_area sb \<subseteq> allocated sb (view st) \<and>
     card (ctx_blocks st c) + 2 \<le> OP_MAX_NUM_BLOCKS \<and> length (used_block st) = NGROUPS"

definition alloc_post :: "SuperBlock \<Rightarrow> nat set \<Rightarrow> nat \<Rightarrow> nat \<Rightarrow> bcache \<Rightarrow> nat \<Rightarrow> bcache \<Rightarrow> bool" where
  "alloc_post sb A c k st b st' \<longleftrightarrow> b \<in> group_area sb \<and> b \<notin> allocated sb (view st) \<and> steps_to sb A k st st' \<and>
     allocated sb (view st') = insert b (allocated sb (view st)) \<and> view st' b = replicate BLOCK_SIZE 0 \<and>
     (\<forall>x. x \<noteq> b \<longrightarrow> x \<notin> bitmap_blocks sb \<longrightarrow> view st' x = view st x) \<and>
     ctx_blocks st' c = insert b (insert (bit_block sb b) (ctx_blocks st c)) \<and>
     (\<forall>e. e \<noteq> c \<longrightarrow> ctx_blocks st' e = ctx_blocks st e) \<and>
     used_block st' = (used_block st)[group_of sb b := addw 32 (used_block st ! group_of sb b) 1]"

lemma allocated_insert:
  assumes l: "layout_ok sb" and b: "b \<in> group_area sb" "b \<notin> bitmap_blocks sb"
    and v: "bm_set (cells_of v) = insert (bit_index sb b) (bm_set (cells_of (w (bit_block sb b))))"
  shows "allocated sb (w(bit_block sb b := v, b := z)) = insert b (allocated sb w)"
proof -
  let ?w = "w(bit_block sb b := v, b := z)"
  have "x \<in> allocated sb ?w \<longleftrightarrow> x = b \<or> x \<in> allocated sb w" if x: "x \<in> group_area sb" for x
  proof -
    have "bit_block sb x \<noteq> b" using b(2) x by (auto simp: bitmap_blocks_def)
    then have "?w (bit_block sb x) = (if bit_block sb x = bit_block sb b then v else w (bit_block sb x))" by simp
    then show ?thesis using x b(1) v bit_inj [OF l x b(1)] by (auto simp: allocated_def)
  qed
  moreover have "allocated sb f \<subseteq> group_area sb" for f by (auto simp: allocated_def)
  ultimately show ?thesis using b(1) by blast
qed

text \<open>One bitmap block of the search: either its hit is a correct allocation, or all its blocks are in
  use and the search goes on.\<close>

lemma scan_step:
  assumes pre: "alloc_pre sb A c st" and h: "h < num_groups sb" and i: "i \<in> set (bitmap_offs sb)"
    and room: "2 \<le> room st" and base: "base = bg_start sb + h * blocks_per_group sb"
  shows "(\<exists>b st' st''. scan_bitmap me (Some c) (base + bitmap_start_per_group sb + i div BIT_PER_BLOCK)
        (min BIT_PER_BLOCK (blocks_per_group sb - i)) (base + i) st = Inr (Some b, st') \<and>
        count_used h st' = Inr st'' \<and> alloc_post sb A c 2 st b st'' \<and> group_of sb b = h) \<or>
    (\<exists>st'. scan_bitmap me (Some c) (base + bitmap_start_per_group sb + i div BIT_PER_BLOCK)
        (min BIT_PER_BLOCK (blocks_per_group sb - i)) (base + i) st = Inr (None, st') \<and>
        steps_to sb A 1 st st' \<and> view st' = view st \<and> (\<forall>c. ctx_blocks st' c = ctx_blocks st c) \<and>
        used_block st' = used_block st \<and>
        (\<forall>j<min BIT_PER_BLOCK (blocks_per_group sb - i). base + i + j \<in> allocated sb (view st)))"
proof -
  note p = pre [unfolded alloc_pre_def]
  let ?lim = "min BIT_PER_BLOCK (blocks_per_group sb - i)"
  let ?bno = "base + bitmap_start_per_group sb + i div BIT_PER_BLOCK"
  have l: "layout_ok sb" and inv: "client_inv sb A st" using p by simp_all
  have lim: "?lim \<le> 4096" by simp
  have bit: "bit_block sb (base + i + j) = ?bno" "bit_index sb (base + i + j) = j" "base + i + j \<in> group_area sb"
      "group_of sb (base + i + j) = h" if "j < ?lim" for j
    using bit_of_block [OF l h i that] base by (simp_all add: group_of_def)
  have al: "base + i + j \<in> allocated sb (view st) \<longleftrightarrow> j \<in> bm_set (cells_of (view st ?bno))" if "j < ?lim" for j
    using bit [OF that] by (simp add: allocated_def)
  have pos: "0 < ?lim" using i by (auto simp: bitmap_offs_def)
  have bm: "?bno \<in> bitmap_blocks sb" using bit(1,3) [OF pos] unfolding bitmap_blocks_def by (metis imageI)
  then have bg: "?bno \<in> group_area sb" using bit_block_range(3) [OF l] by (auto simp: bitmap_blocks_def)
  have bno: "client_block sb ?bno" "?bno \<notin> held st" using group_area_client [OF l bg] p bm by auto
  show ?thesis
  proof (cases "{0..<?lim} \<subseteq> bm_set (cells_of (view st ?bno))")
    case True
    then have "\<forall>j<?lim. base + i + j \<in> allocated sb (view st)" using al by auto
    moreover have "0 < room st" using room by simp
    ultimately show ?thesis using scan_bitmap_miss [OF inv bno _ lim True, of me "Some c" "base + i"] by blast
  next
    case False
    have cl: "client_block sb (base + i + j) \<and> base + i + j \<notin> held st"
      if "j < ?lim" "j \<notin> bm_set (cells_of (view st ?bno))" for j
      using group_area_client [OF l bit(3) [OF that(1)]] p al [OF that(1)] that(2) bit(3) [OF that(1)] by auto
    have sp: "card (insert (base + i + j) (insert ?bno (ctx_blocks st c))) \<le> 10" for j
    proof -
      have "card (insert (base + i + j) (insert ?bno (ctx_blocks st c))) \<le> Suc (Suc (card (ctx_blocks st c)))"
        by (simp add: card_insert_if ctx_blocks_def)
      then show ?thesis using p by simp
    qed
    obtain j v st' where r: "scan_bitmap me (Some c) ?bno ?lim (base + i) st = Inr (Some (base + i + j), st')"
      and j: "j < ?lim" "j \<notin> bm_set (cells_of (view st ?bno))" and e: "steps_to sb A 2 st st'"
      and v: "bm_set (cells_of v) = insert j (bm_set (cells_of (view st ?bno)))"
      and vw: "view st' = (view st)(?bno := v, base + i + j := replicate 512 0)"
      and cx: "ctx_blocks st' c = insert (base + i + j) (insert ?bno (ctx_blocks st c))"
        "\<forall>e. e \<noteq> c \<longrightarrow> ctx_blocks st' e = ctx_blocks st e" "used_block st' = used_block st"
      using scan_bitmap_hit [OF inv bno room lim False _ cl sp, of me] p by blast
    let ?b = "base + i + j"
    have na: "?b \<notin> allocated sb (view st)" using al [OF j(1)] j(2) by simp
    then have nb: "?b \<notin> bitmap_blocks sb" using p by blast
    have hl: "h < length (used_block st')" using h cx(3) p l by (simp add: layout_ok_def)
    let ?st = "st'\<lparr>used_block := (used_block st')[h := addw 32 (used_block st' ! h) 1]\<rparr>"
    have cu: "count_used h st' = Inr ?st" using hl by (simp add: count_used_def)
    have "allocated sb (view st') = insert ?b (allocated sb (view st))"
      using allocated_insert [OF l bit(3) [OF j(1)] nb, of v "view st" "replicate 512 0"] v vw bit [OF j(1)] by simp
    moreover have "x \<notin> bitmap_blocks sb \<Longrightarrow> x \<noteq> ?b \<Longrightarrow> view st' x = view st x" for x using bm vw by auto
    ultimately have "alloc_post sb A c 2 st ?b ?st"
      using e na vw cx bit [OF j(1)] by (simp add: alloc_post_def steps_to_def)
    then show ?thesis using r cu bit(4) [OF j(1)] by blast
  qed
qed

lemma alloc_post_later:
  assumes "steps_to sb A k st st1" "view st1 = view st" "\<forall>c. ctx_blocks st1 c = ctx_blocks st c"
    "used_block st1 = used_block st" "alloc_post sb A c l st1 b st'"
  shows "alloc_post sb A c (k + l) st b st'"
  using assms steps_to_trans [of sb A k st st1 l st'] by (simp add: alloc_post_def)

lemma alloc_pre_later:
  assumes "alloc_pre sb A c st" "steps_to sb A k st st1" "view st1 = view st"
    "\<forall>c. ctx_blocks st1 c = ctx_blocks st c" "used_block st1 = used_block st"
  shows "alloc_pre sb A c st1"
proof -
  have "held st1 = held st" using assms(2) ran_hblock by (metis steps_to_def)
  then show ?thesis using assms by (simp add: alloc_pre_def steps_to_def)
qed

lemma alloc_loop_ok:
  assumes "alloc_pre sb A c st" "\<forall>(h, i)\<in>set hs. h < num_groups sb \<and> i \<in> set (bitmap_offs sb)"
    "Suc (length hs) \<le> room st"
    "\<exists>(h, i)\<in>set hs. \<exists>j<min BIT_PER_BLOCK (blocks_per_group sb - i).
       bg_start sb + h * blocks_per_group sb + i + j \<notin> allocated sb (view st)"
  shows "\<exists>b st'. alloc_loop me (Some c) hs st = Inr (b, st') \<and> alloc_post sb A c (Suc (length hs)) st b st'"
  using assms
proof (induction hs arbitrary: st)
  case Nil
  then show ?case by simp
next
  case (Cons hi hs)
  obtain h i where hi: "hi = (h, i)" by (cases hi)
  have h: "h < num_groups sb" "i \<in> set (bitmap_offs sb)" using Cons.prems(2) hi by auto
  have room: "2 \<le> room st" using Cons.prems(3) by simp
  have sb: "sblock st = sb" using Cons.prems(1) by (simp add: alloc_pre_def client_inv_def)
  note step = scan_step [OF Cons.prems(1) h room refl, of me]
  from step show ?case
  proof (elim disjE exE conjE)
    fix b st' st''
    assume r: "scan_bitmap me (Some c) (bg_start sb + h * blocks_per_group sb + bitmap_start_per_group sb + i div 4096)
        (min 4096 (blocks_per_group sb - i)) (bg_start sb + h * blocks_per_group sb + i) st = Inr (Some b, st')"
      "count_used h st' = Inr st''" and p: "alloc_post sb A c 2 st b st''" and "group_of sb b = h"
    have "alloc_post sb A c (Suc (length (hi # hs))) st b st''"
      using p steps_to_mono [of sb A 2 st st'' "Suc (length (hi # hs))"] by (simp add: alloc_post_def)
    then show ?thesis using r by (simp add: hi sb Let_def)
  next
    fix st1
    assume r: "scan_bitmap me (Some c) (bg_start sb + h * blocks_per_group sb + bitmap_start_per_group sb + i div 4096)
        (min 4096 (blocks_per_group sb - i)) (bg_start sb + h * blocks_per_group sb + i) st = Inr (None, st1)"
      and e: "steps_to sb A 1 st st1" "view st1 = view st" "\<forall>c. ctx_blocks st1 c = ctx_blocks st c"
        "used_block st1 = used_block st"
      and full: "\<forall>j<min 4096 (blocks_per_group sb - i). bg_start sb + h * blocks_per_group sb + i + j \<in> allocated sb (view st)"
    have "Suc (length hs) \<le> room st1" using e(1) Cons.prems(3) by (simp add: steps_to_def)
    moreover have "\<exists>(h, i)\<in>set hs. \<exists>j<min 4096 (blocks_per_group sb - i).
       bg_start sb + h * blocks_per_group sb + i + j \<notin> allocated sb (view st1)"
      using Cons.prems(4) full e(2) by (auto simp: hi)
    ultimately obtain b st' where r': "alloc_loop me (Some c) hs st1 = Inr (b, st')"
      and p: "alloc_post sb A c (Suc (length hs)) st1 b st'"
      using Cons.IH [OF alloc_pre_later [OF Cons.prems(1) e]] Cons.prems(2) by auto
    have "alloc_post sb A c (1 + Suc (length hs)) st b st'" by (rule alloc_post_later [OF e p])
    then show ?thesis using r r' by (auto simp: hi sb Let_def)
  qed
qed

definition bitmap_scans :: "SuperBlock \<Rightarrow> nat" where
  "bitmap_scans sb = num_groups sb * length (bitmap_offs sb)"

lemma cache_alloc_ok:
  assumes pre: "alloc_pre sb A c st" and free: "\<not> group_area sb \<subseteq> allocated sb (view st)"
    and room: "Suc (bitmap_scans sb) \<le> room st"
  shows "\<exists>b st'. cache_alloc me (Some c) st = Inr (b, st') \<and> alloc_post sb A c (Suc (bitmap_scans sb)) st b st'"
proof -
  let ?hs = "List.product [0..<num_groups sb] (bitmap_offs sb)"
  have sb: "sblock st = sb" and l: "layout_ok sb" using pre by (simp_all add: alloc_pre_def client_inv_def)
  have len: "length ?hs = bitmap_scans sb" by (simp add: bitmap_scans_def)
  obtain x where x: "x \<in> group_area sb" "x \<notin> allocated sb (view st)" using free by blast
  obtain h i j where hij: "h < num_groups sb" "i \<in> set (bitmap_offs sb)" "j < min 4096 (blocks_per_group sb - i)"
    "x = bg_start sb + h * blocks_per_group sb + i + j" by (rule block_of_bit [OF l x(1)])
  have "\<exists>(h, i)\<in>set ?hs. \<exists>j<min 4096 (blocks_per_group sb - i).
       bg_start sb + h * blocks_per_group sb + i + j \<notin> allocated sb (view st)"
    using hij x(2) by force
  then show ?thesis
    using alloc_loop_ok [OF pre, of ?hs me] room by (auto simp: cache_alloc_def sb len [symmetric])
qed

text \<open>In a group that fits one bitmap block \<open>cache_allocg\<close> allocates inside the group, and returns 0
  without any effect exactly when the group is full.\<close>

lemma cache_allocg_ok:
  assumes pre: "alloc_pre sb A c st" and g: "gno < num_groups sb" and small: "blocks_per_group sb \<le> BIT_PER_BLOCK"
    and room: "2 \<le> room st"
  shows "(\<exists>b st'. cache_allocg me (Some c) gno st = Inr (b, st') \<and> b \<noteq> 0 \<and> group_of sb b = gno \<and> alloc_post sb A c 2 st b st') \<or>
    (\<exists>st'. cache_allocg me (Some c) gno st = Inr (0, st') \<and> steps_to sb A 1 st st' \<and> view st' = view st \<and>
      (\<forall>c. ctx_blocks st' c = ctx_blocks st c) \<and> used_block st' = used_block st \<and>
      {b \<in> group_area sb. group_of sb b = gno} \<subseteq> allocated sb (view st))"
proof -
  have sb: "sblock st = sb" and l: "layout_ok sb" using pre by (simp_all add: alloc_pre_def client_inv_def)
  have n: "0 < blocks_per_group sb" "num_groups sb \<le> 10" using l by (simp_all add: layout_ok_def)
  have "(blocks_per_group sb + 4096 - 1) div 4096 = 1" using n(1) small by (intro div_nat_eqI) simp_all
  then have offs: "bitmap_offs sb = [0]" by (simp add: bitmap_offs_def)
  have i0: "(0::nat) \<in> set (bitmap_offs sb)" by (simp add: offs)
  let ?base = "bg_start sb + gno * blocks_per_group sb"
  have gb: "gno * blocks_per_group sb + blocks_per_group sb \<le> num_groups sb * blocks_per_group sb"
    using g by (metis Suc_leI add.commute mult_Suc mult_le_mono1)
  have bnd: "?base + blocks_per_group sb < 2 ^ 32" "bitmap_start_per_group sb < blocks_per_group sb"
    using l gb n(1) by (auto simp: layout_ok_def div_eq_0_iff)
  then have a32: "(gno * blocks_per_group sb) mod 2 ^ 32 = gno * blocks_per_group sb"
    "addw 32 (bg_start sb) (gno * blocks_per_group sb) = ?base"
    "addw 32 (addw 32 (bg_start sb) (bitmap_start_per_group sb)) (gno * blocks_per_group sb) = ?base + bitmap_start_per_group sb"
    using gb by (simp_all add: addw_def)
  have eq: "cache_allocg me (Some c) gno st =
      bnd (scan_bitmap me (Some c) (?base + bitmap_start_per_group sb + 0 div 4096)
        (min 4096 (blocks_per_group sb - 0)) (?base + 0) st)
      (\<lambda>(r, st). case r of Some bn \<Rightarrow> bnd (count_used gno st) (\<lambda>st. Inr (bn, st)) | None \<Rightarrow> Inr (0, st))"
    using g n(2) by (simp add: cache_allocg_def offs sb Let_def a32 del: power_numeral cong: option.case_cong)
  have bg0: "0 < bg_start sb" using l by (auto simp: layout_ok_def sb_ok_def)
  from scan_step [OF pre g i0 room refl, of me] show ?thesis
  proof (elim disjE exE conjE)
    fix b st' st''
    assume r: "scan_bitmap me (Some c) (?base + bitmap_start_per_group sb + 0 div 4096)
        (min 4096 (blocks_per_group sb - 0)) (?base + 0) st = Inr (Some b, st')"
      "count_used gno st' = Inr st''" and p: "alloc_post sb A c 2 st b st''" and g': "group_of sb b = gno"
    then have "b \<noteq> 0" using bg0 by (auto simp: alloc_post_def group_area_def)
    then show ?thesis using eq r p g' by auto
  next
    fix st'
    assume r: "scan_bitmap me (Some c) (?base + bitmap_start_per_group sb + 0 div 4096)
        (min 4096 (blocks_per_group sb - 0)) (?base + 0) st = Inr (None, st')"
      and e: "steps_to sb A 1 st st'" "view st' = view st" "\<forall>c. ctx_blocks st' c = ctx_blocks st c" "used_block st' = used_block st"
      and full: "\<forall>j<min 4096 (blocks_per_group sb - 0). ?base + 0 + j \<in> allocated sb (view st)"
    have "x \<in> allocated sb (view st)" if x: "x \<in> group_area sb" "group_of sb x = gno" for x
    proof -
      obtain h i j where hij: "h < num_groups sb" "i \<in> set (bitmap_offs sb)" "j < min 4096 (blocks_per_group sb - i)"
        "x = bg_start sb + h * blocks_per_group sb + i + j" by (rule block_of_bit [OF l x(1)])
      then have "h = gno" using bit_of_block(4) [OF l hij] x(2) by (simp add: group_of_def)
      then show ?thesis using full hij by (simp add: offs)
    qed
    then show ?thesis using eq r e by auto
  qed
qed

section \<open>Freeing\<close>

definition free_post :: "SuperBlock \<Rightarrow> nat set \<Rightarrow> nat \<Rightarrow> bcache \<Rightarrow> nat \<Rightarrow> bcache \<Rightarrow> bool" where
  "free_post sb A c st b st' \<longleftrightarrow> steps_to sb A 1 st st' \<and>
     allocated sb (view st') = allocated sb (view st) - {b} \<and>
     (\<forall>x. x \<noteq> bit_block sb b \<longrightarrow> view st' x = view st x) \<and>
     ctx_blocks st' c = insert (bit_block sb b) (ctx_blocks st c) \<and>
     (\<forall>e. e \<noteq> c \<longrightarrow> ctx_blocks st' e = ctx_blocks st e) \<and>
     used_block st' = (used_block st)[group_of sb b := subw 32 (used_block st ! group_of sb b) 1]"

lemma allocated_remove:
  assumes l: "layout_ok sb" and b: "b \<in> group_area sb"
    and v: "bm_set (cells_of v) = bm_set (cells_of (w (bit_block sb b))) - {bit_index sb b}"
  shows "allocated sb (w(bit_block sb b := v)) = allocated sb w - {b}"
proof -
  have "x \<in> allocated sb (w(bit_block sb b := v)) \<longleftrightarrow> x \<noteq> b \<and> x \<in> allocated sb w" if x: "x \<in> group_area sb" for x
    using x b v bit_inj [OF l x b] by (auto simp: allocated_def)
  moreover have "allocated sb f \<subseteq> group_area sb" for f by (auto simp: allocated_def)
  ultimately show ?thesis by blast
qed

lemma free_position:
  assumes l: "layout_ok sb" and b: "b \<in> group_area sb"
  shows "subw 64 b (bg_start sb) = b - bg_start sb"
    "bg_start sb + group_of sb b * blocks_per_group sb + bitmap_start_per_group sb +
       (b - bg_start sb) mod blocks_per_group sb div BIT_PER_BLOCK = bit_block sb b"
proof -
  have "b < 2 ^ 64" using group_area_client [OF l b] by (simp add: client_block_def)
  moreover have "bg_start sb \<le> b" using b by (simp add: group_area_def)
  ultimately show "subw 64 b (bg_start sb) = b - bg_start sb" by (intro subw_small)
  show "bg_start sb + group_of sb b * blocks_per_group sb + bitmap_start_per_group sb +
       (b - bg_start sb) mod blocks_per_group sb div BIT_PER_BLOCK = bit_block sb b"
    by (simp add: bit_block_def group_of_def)
qed

lemma cache_free_ok:
  assumes pre: "alloc_pre sb A c st" and b: "b \<in> allocated sb (view st)" and room: "0 < room st"
  shows "\<exists>st'. cache_free me (Some c) b st = Inr st' \<and> free_post sb A c st b st'"
proof -
  note p = pre [unfolded alloc_pre_def]
  have l: "layout_ok sb" and inv: "client_inv sb A st" and sb: "sblock st = sb" and c: "c \<in> A"
    using p by (simp_all add: client_inv_def)
  have bg: "b \<in> group_area sb" using b by (simp add: allocated_def)
  let ?bno = "bit_block sb b" and ?j = "bit_index sb b"
  let ?bm = "cells_of (view st ?bno)"
  have bm: "?bno \<in> bitmap_blocks sb" using bg by (simp add: bitmap_blocks_def)
  have bno: "client_block sb ?bno" "?bno \<notin> Map.ran (hblock st)"
    using group_area_client [OF l bit_block_range(3) [OF l bg]] p bm by (auto simp: ran_hblock)
  have size: "bm_size ?bm = 4096" using bm_size_block bc.vw_length [OF inv] by simp
  have j: "?j < bm_size ?bm" by (simp add: size bit_index_def)
  have get: "bitmap_get ?bm ?j = Inr True" using bitmap_get_Inr [OF j] b by (simp add: allocated_def)
  obtain bm' where bm': "bitmap_clear ?bm ?j = Inr bm'" "bm_set bm' = bm_set ?bm - {?j}" "bm_size bm' = bm_size ?bm"
    using bitmap_clear_ok [OF j] by blast
  define v where "v = bytes_of bm'"
  have v: "length v = 512" "cells_of v = bm'" using bm'(3) size by (simp_all add: v_def bm_size_def)
  obtain s st1 where a: "cache_acquire me ?bno st = Inr (s, st1)" "client_inv sb A st1" "hblock st s = None"
      "hblock st1 = (hblock st)(s \<mapsto> ?bno)" "view st1 = view st" "dirty_blocks st1 = dirty_blocks st"
      "\<forall>c. ctx_blocks st1 c = ctx_blocks st c" "room st \<le> Suc (room st1)" "used_block st1 = used_block st"
    using bc.acq_ok [OF inv bno room, of me] by blast
  have hs: "hblock st1 s = Some ?bno" using a(4) by simp
  have d1: "block_data s st1 = view st ?bno" using bc.get_held [OF a(2) hs] a(5) by simp
  let ?h = "group_of sb b"
  define u where "u = (used_block st)[?h := subw 32 (used_block st ! ?h) 1]"
  let ?st2 = "(set_block_data s v st1)\<lparr>used_block := u\<rparr>"
  note e = bc.set_ok [OF a(2) hs v(1)]
  have hl: "?h < length (used_block st)" using group_of_bound [OF l bg] p l by (simp add: layout_ok_def)
  have i2: "client_inv sb A ?st2" "hblock ?st2 s = Some ?bno" using e hs by simp_all
  have sp: "?bno \<in> ctx_blocks ?st2 c \<or> card (ctx_blocks ?st2 c) < 10" using e a(7) p by simp
  obtain st3 where y: "cache_sync me (Some c) s ?st2 = Inr st3" "client_inv sb A st3" "hblock st3 = hblock ?st2"
      "view st3 = view ?st2" "dirty_blocks st3 = dirty_blocks ?st2 - {?bno}"
      "ctx_blocks st3 c = insert ?bno (ctx_blocks ?st2 c)" "\<forall>e. e \<noteq> c \<longrightarrow> ctx_blocks st3 e = ctx_blocks ?st2 e"
      "room st3 = room ?st2" "used_block st3 = used_block ?st2"
    using bc.sync_ok [OF i2(1) c i2(2) bno(1) sp, of me] by blast
  have h3: "hblock st3 s = Some ?bno" and nd: "?bno \<notin> dirty_blocks st3" using y(3,5) i2(2) by simp_all
  obtain st4 where r: "cache_release me s st3 = Inr st4" "client_inv sb A st4" "hblock st4 = (hblock st3)(s := None)"
      "view st4 = view st3" "dirty_blocks st4 = dirty_blocks st3" "\<forall>c. ctx_blocks st4 c = ctx_blocks st3 c"
      "room st4 = room st3" "used_block st4 = used_block st3"
    using bc.rel_ok [OF y(2) h3 nd, of me] by blast
  have n: "blocks_per_group sb \<noteq> 0" using l by (simp add: layout_ok_def)
  have ul: "used_block (set_block_data s v st1) = used_block st" using e a(9) by simp
  have run: "cache_free me (Some c) b st = Inr st4"
    using n a(1) d1 get bm'(1) hl y(1) r(1) ul free_position [OF l bg]
    by (simp add: cache_free_def sb Let_def group_of_def bit_index_def v_def u_def)
  have "?bno \<notin> dirty_blocks st" using bc.dirty_held [OF inv] bno(2) by blast
  then have "dirty_blocks st4 = dirty_blocks st" using r(5) y(5) e a(6) by simp
  moreover have "hblock st4 = hblock st" using r(3) y(3) e a(3,4) by auto
  moreover have "view st4 = (view st)(?bno := v)" using r(4) y(4) e a(5) by simp
  moreover have "allocated sb ((view st)(?bno := v)) = allocated sb (view st) - {b}"
    by (rule allocated_remove [OF l bg]) (use v bm' in simp)
  ultimately have "free_post sb A c st b st4"
    using r y e a ul by (simp add: free_post_def steps_to_def u_def)
  then show ?thesis using run by blast
qed

text \<open>A block whose bit is clear is not freed twice: the assertion stops the kernel.\<close>

lemma cache_free_twice:
  assumes pre: "alloc_pre sb A c st" and b: "b \<in> group_area sb" "b \<notin> allocated sb (view st)" and room: "0 < room st"
  shows "panics (cache_free me ctx b st)"
proof -
  note p = pre [unfolded alloc_pre_def]
  have l: "layout_ok sb" and inv: "client_inv sb A st" and sb: "sblock st = sb"
    using p by (simp_all add: client_inv_def)
  let ?bno = "bit_block sb b" and ?j = "bit_index sb b"
  let ?bm = "cells_of (view st ?bno)"
  have bm: "?bno \<in> bitmap_blocks sb" using b(1) by (simp add: bitmap_blocks_def)
  have bno: "client_block sb ?bno" "?bno \<notin> Map.ran (hblock st)"
    using group_area_client [OF l bit_block_range(3) [OF l b(1)]] p bm by (auto simp: ran_hblock)
  have size: "bm_size ?bm = 4096" using bm_size_block bc.vw_length [OF inv] by simp
  have j: "?j < bm_size ?bm" by (simp add: size bit_index_def)
  have get: "bitmap_get ?bm ?j = Inr False" using bitmap_get_Inr [OF j] b by (simp add: allocated_def)
  obtain s st1 where a: "cache_acquire me ?bno st = Inr (s, st1)" "client_inv sb A st1"
      "hblock st1 = (hblock st)(s \<mapsto> ?bno)" "view st1 = view st"
    using bc.acq_ok [OF inv bno room, of me] by blast
  then have "block_data s st1 = view st ?bno" using bc.get_held [OF a(2), of s ?bno] by simp
  moreover have "blocks_per_group sb \<noteq> 0" using l by (simp add: layout_ok_def)
  ultimately show ?thesis using a(1) get free_position [OF l b(1)]
    by (simp add: cache_free_def sb Let_def group_of_def bit_index_def)
qed

end
