(* ===== verification/BlockMap.thy ===== *)
theory BlockMap
  imports Inode CacheAllocInv
begin

text \<open>
  The whole \<open>BlockCache\<close> interface as the inode layer relies on it: \<open>block_store\<close> plus allocation.
  \<open>area\<close> is the set of blocks under the bitmaps, \<open>meta\<close> the bitmap blocks, \<open>alloced\<close> the blocks in
  use, \<open>bitof b\<close> the bitmap block of \<open>b\<close> and \<open>grp b\<close> its group.  The locale \<open>block_cache\<close> is
  interpreted on the operations of \<open>fs/cache.c\<close> (\<open>bcache_ops\<close>).
\<close>

locale block_map =
  block_store "bc_acquire cache" "bc_release cache" "bc_sync cache" "bc_data cache" "bc_set_data cache"
    inv vw hb dirty opset ops usable cap "bc_used cache"
  for cache :: "'c BlockCache" and inv vw hb dirty opset ops usable cap +
  fixes area :: "nat set"
    and meta :: "nat set"
    and alloced :: "'c \<Rightarrow> nat set"
    and bitof :: "nat \<Rightarrow> nat"
    and grp :: "nat \<Rightarrow> nat"
    and groups :: nat
    and cost :: nat
  assumes area_usable: "\<lbrakk>inv st; b \<in> area\<rbrakk> \<Longrightarrow> usable b \<and> b \<noteq> 0 \<and> b < 2 ^ 32"
    and alloced_area: "alloced st \<subseteq> area"
    and meta_area: "inv st \<Longrightarrow> meta \<subseteq> area"
    and bitof_meta: "b \<in> area \<Longrightarrow> bitof b \<in> meta"
    and finite_area: "finite area"
    and grp_bound: "\<lbrakk>inv st; b \<in> area\<rbrakk> \<Longrightarrow> grp b < groups \<and> groups \<le> NGROUPS"
    and finite_opset: "finite (opset c st)"
    and alloced_cong: "\<forall>b\<in>meta. vw st' b = vw st b \<Longrightarrow> alloced st' = alloced st"
begin

definition keeps :: "nat \<Rightarrow> 'c \<Rightarrow> 'c \<Rightarrow> bool" where
  "keeps k st st' \<longleftrightarrow> inv st' \<and> hb st' = hb st \<and> dirty st' = dirty st \<and> cap st \<le> cap st' + k"

text \<open>The state in which an operation may allocate or free: the bitmaps are marked used, and no
  bitmap block and no free block is held.\<close>

definition ready :: "nat \<Rightarrow> 'c \<Rightarrow> bool" where
  "ready c st \<longleftrightarrow> inv st \<and> c \<in> ops \<and> meta \<subseteq> alloced st \<and> meta \<inter> Map.ran (hb st) = {} \<and>
     area \<inter> Map.ran (hb st) \<subseteq> alloced st \<and> length (bc_used cache st) = NGROUPS"

definition grabs :: "nat \<Rightarrow> nat \<Rightarrow> 'c \<Rightarrow> nat \<Rightarrow> 'c \<Rightarrow> bool" where
  "grabs c k st b st' \<longleftrightarrow> b \<in> area \<and> b \<notin> alloced st \<and> keeps k st st' \<and> alloced st' = insert b (alloced st) \<and>
     vw st' b = replicate BLOCK_SIZE 0 \<and> (\<forall>x. x \<noteq> b \<longrightarrow> x \<notin> meta \<longrightarrow> vw st' x = vw st x) \<and>
     opset c st' = insert b (insert (bitof b) (opset c st)) \<and> (\<forall>e. e \<noteq> c \<longrightarrow> opset e st' = opset e st) \<and>
     bc_used cache st' = (bc_used cache st)[grp b := addw 32 (bc_used cache st ! grp b) 1]"

definition frees :: "nat \<Rightarrow> 'c \<Rightarrow> nat \<Rightarrow> 'c \<Rightarrow> bool" where
  "frees c st b st' \<longleftrightarrow> keeps 1 st st' \<and> alloced st' = alloced st - {b} \<and>
     (\<forall>x. x \<notin> meta \<longrightarrow> vw st' x = vw st x) \<and> opset c st' = insert (bitof b) (opset c st) \<and>
     (\<forall>e. e \<noteq> c \<longrightarrow> opset e st' = opset e st) \<and>
     bc_used cache st' = (bc_used cache st)[grp b := subw 32 (bc_used cache st ! grp b) 1]"

lemma keeps_refl: "inv st \<Longrightarrow> keeps 0 st st"
  by (simp add: keeps_def)

lemma keeps_trans: "\<lbrakk>keeps k st st1; keeps l st1 st2\<rbrakk> \<Longrightarrow> keeps (k + l) st st2"
  by (simp add: keeps_def)

lemma keeps_mono: "\<lbrakk>keeps k st st'; k \<le> l\<rbrakk> \<Longrightarrow> keeps l st st'"
  by (simp add: keeps_def)

lemma ready_grabs:
  assumes "ready c st" "grabs c k st b st'"
  shows "ready c st'"
  using assms by (auto simp: ready_def grabs_def keeps_def)

end

locale block_cache =
  block_map cache inv vw hb dirty opset ops usable cap area meta alloced bitof grp groups cost
  for cache :: "'c BlockCache" and inv vw hb dirty opset ops usable cap area meta alloced bitof grp groups cost +
  assumes alloc_law: "\<lbrakk>ready c st; card (opset c st) + 2 \<le> OP_MAX_NUM_BLOCKS; \<not> area \<subseteq> alloced st; cost \<le> cap st\<rbrakk> \<Longrightarrow>
      \<exists>b st'. bc_alloc cache (Some c) st = Inr (b, st') \<and> grabs c cost st b st'"
    and allocg_law: "\<lbrakk>ready c st; card (opset c st) + 2 \<le> OP_MAX_NUM_BLOCKS; g < groups; 2 \<le> cap st\<rbrakk> \<Longrightarrow>
      (\<exists>b st'. bc_allocg cache (Some c) g st = Inr (b, st') \<and> grp b = g \<and> grabs c 2 st b st') \<or>
      (\<exists>st'. bc_allocg cache (Some c) g st = Inr (0, st') \<and> keeps 1 st st' \<and> vw st' = vw st \<and>
         (\<forall>e. opset e st' = opset e st) \<and> bc_used cache st' = bc_used cache st \<and>
         {b \<in> area. grp b = g} \<subseteq> alloced st)"
    and free_law: "\<lbrakk>ready c st; b \<in> alloced st; card (opset c st) + 2 \<le> OP_MAX_NUM_BLOCKS; 0 < cap st\<rbrakk> \<Longrightarrow>
      \<exists>st'. bc_free cache (Some c) b st = Inr st' \<and> frees c st b st'"

section \<open>The cache's own operations\<close>

definition bcache_ops :: "nat \<Rightarrow> bcache BlockCache" where
  "bcache_ops me = \<lparr>bc_acquire = cache_acquire me, bc_release = cache_release me, bc_begin_op = cache_begin_op me,
     bc_sync = cache_sync me, bc_end_op = cache_end_op me, bc_alloc = cache_alloc me, bc_allocg = cache_allocg me,
     bc_free = cache_free me, bc_data = block_data, bc_set_data = set_block_data, bc_used = used_block\<rparr>"

text \<open>A file system whose groups fit one bitmap block, as \<open>mkfs\<close> lays it out.\<close>

definition fs_inv :: "SuperBlock \<Rightarrow> nat set \<Rightarrow> bcache \<Rightarrow> bool" where
  "fs_inv sb A st \<longleftrightarrow> client_inv sb A st \<and> layout_ok sb \<and> blocks_per_group sb \<le> BIT_PER_BLOCK"

lemma bcache_ops_simps [simp]:
  "bc_acquire (bcache_ops me) = cache_acquire me" "bc_release (bcache_ops me) = cache_release me"
  "bc_sync (bcache_ops me) = cache_sync me" "bc_data (bcache_ops me) = block_data"
  "bc_set_data (bcache_ops me) = set_block_data" "bc_used (bcache_ops me) = used_block"
  "bc_alloc (bcache_ops me) = cache_alloc me" "bc_allocg (bcache_ops me) = cache_allocg me"
  "bc_free (bcache_ops me) = cache_free me" "bc_begin_op (bcache_ops me) = cache_begin_op me"
  "bc_end_op (bcache_ops me) = cache_end_op me"
  by (simp_all add: bcache_ops_def)

interpretation bm: block_map "bcache_ops me" "fs_inv sb A" view hblock dirty_blocks "\<lambda>c st. ctx_blocks st c" A
  "client_block sb" room "group_area sb" "bitmap_blocks sb" "\<lambda>st. allocated sb (view st)" "bit_block sb" "group_of sb"
  "num_groups sb" "Suc (bitmap_scans sb)"
  for me sb A
proof (unfold_locales, unfold bcache_ops_simps)
  fix st st' :: bcache and b s d c
  note d = fs_inv_def
  show "length (view st b) = 512" if "fs_inv sb A st" using that bc.vw_length [of sb A st b] by (simp add: d)
  show "block_data s st = view st b" if "fs_inv sb A st" "hblock st s = Some b" using that bc.get_held [of sb A st s b] by (simp add: d)
  show "b \<in> Map.ran (hblock st)" if "fs_inv sb A st" "b \<in> dirty_blocks st" using that bc.dirty_held [of sb A st b] by (simp add: d)
  show "\<exists>s st'. cache_acquire me b st = Inr (s, st') \<and> fs_inv sb A st' \<and> hblock st s = None \<and>
      hblock st' = (hblock st)(s \<mapsto> b) \<and> view st' = view st \<and> dirty_blocks st' = dirty_blocks st \<and>
      (\<forall>c. ctx_blocks st' c = ctx_blocks st c) \<and> room st \<le> Suc (room st') \<and> used_block st' = used_block st"
    if "fs_inv sb A st" "client_block sb b" "b \<notin> Map.ran (hblock st)" "0 < room st"
    using that bc.acq_ok [of sb A st b me] unfolding d by blast
  show "fs_inv sb A (set_block_data s d st) \<and> hblock (set_block_data s d st) = hblock st \<and>
      view (set_block_data s d st) = (view st)(b := d) \<and>
      dirty_blocks (set_block_data s d st) - {b} = dirty_blocks st - {b} \<and>
      (\<forall>c. ctx_blocks (set_block_data s d st) c = ctx_blocks st c) \<and>
      room (set_block_data s d st) = room st \<and> used_block (set_block_data s d st) = used_block st"
    if "fs_inv sb A st" "hblock st s = Some b" "length d = 512"
    using that bc.set_ok [of sb A st s b d] by (simp add: d)
  show "\<exists>st'. cache_sync me (Some c) s st = Inr st' \<and> fs_inv sb A st' \<and> hblock st' = hblock st \<and> view st' = view st \<and>
      dirty_blocks st' = dirty_blocks st - {b} \<and> ctx_blocks st' c = insert b (ctx_blocks st c) \<and>
      (\<forall>e. e \<noteq> c \<longrightarrow> ctx_blocks st' e = ctx_blocks st e) \<and> room st' = room st \<and> used_block st' = used_block st"
    if "fs_inv sb A st" "c \<in> A" "hblock st s = Some b" "client_block sb b" "b \<in> ctx_blocks st c \<or> card (ctx_blocks st c) < 10"
    using that bc.sync_ok [of sb A st c s b me] unfolding d by blast
  show "\<exists>st'. cache_release me s st = Inr st' \<and> fs_inv sb A st' \<and> hblock st' = (hblock st)(s := None) \<and> view st' = view st \<and>
      dirty_blocks st' = dirty_blocks st \<and> (\<forall>c. ctx_blocks st' c = ctx_blocks st c) \<and> room st' = room st \<and>
      used_block st' = used_block st"
    if "fs_inv sb A st" "hblock st s = Some b" "b \<notin> dirty_blocks st"
    using that bc.rel_ok [of sb A st s b me] unfolding d by blast
  show "client_block sb b \<and> b \<noteq> 0 \<and> b < 2 ^ 32" if "fs_inv sb A st" "b \<in> group_area sb"
    using that group_area_client [of sb b] by (auto simp: d layout_ok_def sb_ok_def group_area_def)
  show "allocated sb (view st) \<subseteq> group_area sb" by (auto simp: allocated_def)
  show "bitmap_blocks sb \<subseteq> group_area sb" if "fs_inv sb A st"
    using that bit_block_range(3) [of sb] by (auto simp: d bitmap_blocks_def)
  show "bit_block sb b \<in> bitmap_blocks sb" if "b \<in> group_area sb" using that by (simp add: bitmap_blocks_def)
  show "finite (group_area sb)" by (simp add: group_area_def)
  show "group_of sb b < num_groups sb \<and> num_groups sb \<le> 10" if "fs_inv sb A st" "b \<in> group_area sb"
    using that group_of_bound [of sb b] by (simp add: d layout_ok_def)
  show "finite (ctx_blocks st c)" by (simp add: ctx_blocks_def)
  show "allocated sb (view st') = allocated sb (view st)" if "\<forall>b\<in>bitmap_blocks sb. view st' b = view st b"
    using that by (auto simp: allocated_def bitmap_blocks_def)
qed

lemma steps_to_keeps:
  "\<lbrakk>steps_to sb A k st st'; fs_inv sb A st\<rbrakk> \<Longrightarrow> bm.keeps sb A k st st'"
  by (simp add: bm.keeps_def steps_to_def fs_inv_def)

lemma ready_alloc_pre:
  "\<lbrakk>bm.ready me sb A c st; card (ctx_blocks st c) + 2 \<le> OP_MAX_NUM_BLOCKS\<rbrakk> \<Longrightarrow> alloc_pre sb A c st"
  by (auto simp: bm.ready_def alloc_pre_def fs_inv_def ran_hblock)

lemma alloc_post_grabs:
  "\<lbrakk>alloc_post sb A c k st b st'; fs_inv sb A st\<rbrakk> \<Longrightarrow> bm.grabs me sb A c k st b st'"
  by (simp add: bm.grabs_def alloc_post_def steps_to_keeps)

interpretation bmc: block_cache "bcache_ops me" "fs_inv sb A" view hblock dirty_blocks "\<lambda>c st. ctx_blocks st c" A
  "client_block sb" room "group_area sb" "bitmap_blocks sb" "\<lambda>st. allocated sb (view st)" "bit_block sb" "group_of sb"
  "num_groups sb" "Suc (bitmap_scans sb)"
  for me sb A
proof (unfold_locales, unfold bcache_ops_simps)
  fix c st b g
  assume r: "bm.ready me sb A c st" and sp: "card (ctx_blocks st c) + 2 \<le> 10"
  have pre: "alloc_pre sb A c st" by (rule ready_alloc_pre [OF r sp])
  have inv: "fs_inv sb A st" using r by (simp add: bm.ready_def)
  show "\<exists>b st'. cache_alloc me (Some c) st = Inr (b, st') \<and> bm.grabs me sb A c (Suc (bitmap_scans sb)) st b st'"
    if "\<not> group_area sb \<subseteq> allocated sb (view st)" "Suc (bitmap_scans sb) \<le> room st"
    using cache_alloc_ok [OF pre that, of me] alloc_post_grabs [OF _ inv] by blast
  show "(\<exists>b st'. cache_allocg me (Some c) g st = Inr (b, st') \<and> group_of sb b = g \<and> bm.grabs me sb A c 2 st b st') \<or>
      (\<exists>st'. cache_allocg me (Some c) g st = Inr (0, st') \<and> bm.keeps sb A 1 st st' \<and> view st' = view st \<and>
        (\<forall>e. ctx_blocks st' e = ctx_blocks st e) \<and> used_block st' = used_block st \<and>
        {b \<in> group_area sb. group_of sb b = g} \<subseteq> allocated sb (view st))"
    if "g < num_groups sb" "2 \<le> room st"
  proof -
    have "blocks_per_group sb \<le> 4096" using inv by (simp add: fs_inv_def)
    from cache_allocg_ok [OF pre that(1) this that(2), of me] show ?thesis
      using alloc_post_grabs [OF _ inv] steps_to_keeps [OF _ inv] by blast
  qed
  show "\<exists>st'. cache_free me (Some c) b st = Inr st' \<and> bm.frees me sb A c st b st'"
    if al: "b \<in> allocated sb (view st)" and rm: "0 < room st"
  proof -
    obtain st' where r: "cache_free me (Some c) b st = Inr st'" and f: "free_post sb A c st b st'"
      using cache_free_ok [OF pre al rm, of me] by blast
    have "b \<in> group_area sb" using al by (simp add: allocated_def)
    then have "bit_block sb b \<in> bitmap_blocks sb" by (simp add: bitmap_blocks_def)
    then have "x \<noteq> bit_block sb b" if "x \<notin> bitmap_blocks sb" for x using that by auto
    then have "bm.frees me sb A c st b st'"
      using f steps_to_keeps [OF _ inv] by (simp add: bm.frees_def free_post_def)
    then show ?thesis using r by blast
  qed
qed

end
