(* ===== verification/InodeFile.thy ===== *)
theory InodeFile
  imports BlockMap
begin

text \<open>
  What an inode's entry and the blocks of the disk say about a file: \<open>fblock v e k\<close> is the block of
  the file's \<open>k\<close>-th block (0 for none), \<open>fbyte v e q\<close> its byte at offset \<open>q\<close>.  \<open>fmap_ok\<close> says that the
  block map is sound: blocks come from \<open>S\<close>, and no block is used twice.
\<close>

definition fblock :: "disk \<Rightarrow> InodeEntry \<Rightarrow> nat \<Rightarrow> nat" where
  "fblock v e k =
     (if k < INODE_NUM_DIRECT then addrs e ! k
      else if indirect e = 0 then 0 else get_addrs (v (indirect e)) ! (k - INODE_NUM_DIRECT))"

definition fbyte :: "disk \<Rightarrow> InodeEntry \<Rightarrow> nat \<Rightarrow> u8" where
  "fbyte v e q = v (fblock v e (q div BLOCK_SIZE)) ! (q mod BLOCK_SIZE)"

definition file_blocks :: "disk \<Rightarrow> InodeEntry \<Rightarrow> nat set" where
  "file_blocks v e = (fblock v e ` {..<INODE_MAX_BLOCKS} \<union> {indirect e}) - {0}"

definition fmap_ok :: "disk \<Rightarrow> InodeEntry \<Rightarrow> nat set \<Rightarrow> bool" where
  "fmap_ok v e S \<longleftrightarrow> length (addrs e) = INODE_NUM_DIRECT \<and> file_blocks v e \<subseteq> S \<and>
     (\<forall>j<INODE_MAX_BLOCKS. \<forall>k<INODE_MAX_BLOCKS. fblock v e j \<noteq> 0 \<longrightarrow> fblock v e j = fblock v e k \<longrightarrow> j = k) \<and>
     (\<forall>k<INODE_MAX_BLOCKS. indirect e \<noteq> 0 \<longrightarrow> fblock v e k \<noteq> indirect e)"

text \<open>A file whose bytes below \<open>num_bytes\<close> all have blocks.\<close>

definition file_ok :: "disk \<Rightarrow> InodeEntry \<Rightarrow> nat set \<Rightarrow> bool" where
  "file_ok v e S \<longleftrightarrow> fmap_ok v e S \<and> num_bytes e \<le> INODE_MAX_BYTES \<and>
     (\<forall>k. BLOCK_SIZE * k < num_bytes e \<longrightarrow> fblock v e k \<noteq> 0)"

text \<open>The blocks touched by the bytes from \<open>a\<close> to \<open>b\<close>.\<close>

definition touched :: "nat \<Rightarrow> nat \<Rightarrow> nat" where
  "touched a b = (if a < b then (b + BLOCK_SIZE - 1) div BLOCK_SIZE - a div BLOCK_SIZE else 0)"

lemma touched_step:
  assumes "a < b" "s = min (b - a) (BLOCK_SIZE - a mod BLOCK_SIZE)"
  shows "0 < s" "a + s \<le> b" "a mod BLOCK_SIZE + s \<le> BLOCK_SIZE" "touched a b = Suc (touched (a + s) b)"
    "a + s < b \<Longrightarrow> (a + s) div BLOCK_SIZE = Suc (a div BLOCK_SIZE)"
proof -
  have m: "a mod 512 < 512" by simp
  show s: "0 < s" "a + s \<le> b" "a mod 512 + s \<le> 512" using assms m by auto
  have a: "a = 512 * (a div 512) + a mod 512" by simp
  show nx: "(a + s) div 512 = Suc (a div 512)" if "a + s < b"
  proof -
    have "s = 512 - a mod 512" using that assms(2) by auto
    then have "a + s = 512 * Suc (a div 512)" unfolding mult_Suc_right using a m by linarith
    then show ?thesis by simp
  qed
  show "touched a b = Suc (touched (a + s) b)"
  proof (cases "a + s < b")
    case True
    then have "Suc (a div 512) \<le> (b + 511) div 512"
      using nx [OF True] div_le_mono [of "a + s" "b + 511" 512] by linarith
    then show ?thesis using nx [OF True] True assms(1) by (simp add: touched_def add.commute Suc_diff_le [symmetric])
  next
    case False
    then have b: "b = a + s" using s(2) by simp
    have "b \<le> 512 * (a div 512) + 512" using s(3) b a by linarith
    moreover have "512 * (a div 512) < b" using a b s(1) by linarith
    ultimately have "(b + 511) div 512 = Suc (a div 512)" by (intro div_nat_eqI) simp_all
    then show ?thesis using assms(1) b by (simp add: touched_def)
  qed
qed

lemma same_block:
  assumes "a mod BLOCK_SIZE + i < BLOCK_SIZE"
  shows "(a + i) div BLOCK_SIZE = a div BLOCK_SIZE" "(a + i) mod BLOCK_SIZE = a mod BLOCK_SIZE + i"
proof -
  obtain q r where qr: "q = a div 512" "r = a mod 512" by simp
  then have a: "a = 512 * q + r" by simp
  have lt: "r + i < 512" using assms qr(2) by simp
  have "(512 * q + (r + i)) div 512 = q" "(512 * q + (r + i)) mod 512 = r + i" using lt by simp_all
  then show "(a + i) div 512 = a div 512" "(a + i) mod 512 = a mod 512 + i"
    using a qr by (metis add.assoc)+
qed

section \<open>Address blocks\<close>

lemma length_get_addrs [simp]: "length (get_addrs d) = INODE_NUM_INDIRECT"
  by (simp add: get_addrs_def)

lemma get_addrs_zero: "i < INODE_NUM_INDIRECT \<Longrightarrow> get_addrs (replicate BLOCK_SIZE 0) ! i = 0"
  by (simp add: get_addrs_def nats_of_def slice_def min_def)

lemma get_addrs_nth: "i < INODE_NUM_INDIRECT \<Longrightarrow> get_addrs d ! i = le_nat (slice d (4 * i) 4)"
  by (simp add: get_addrs_def nats_of_def)

lemma get_addrs_bound: "i < INODE_NUM_INDIRECT \<Longrightarrow> get_addrs d ! i < 2 ^ 32"
  using nats_of_bound [of "get_addrs d ! i" 4 128 d] nth_mem [of i "get_addrs d"] by (simp add: get_addrs_def)

lemma get_addrs_overwrite:
  assumes "length d = BLOCK_SIZE" "i < INODE_NUM_INDIRECT" "j < INODE_NUM_INDIRECT" "b < 2 ^ 32"
  shows "get_addrs (overwrite d (4 * i) (le_bytes 4 b)) ! j = (if j = i then b else get_addrs d ! j)"
proof (cases "j = i")
  case True
  have "4 * i + length (le_bytes 4 b) \<le> length d" using assms by simp
  from slice_overwrite [OF this] have "slice (overwrite d (4 * i) (le_bytes 4 b)) (4 * i) 4 = le_bytes 4 b" by simp
  then show ?thesis using True assms(3,4) by (simp add: get_addrs_nth le_nat_le_bytes_id)
next
  case False
  have "slice (overwrite d (4 * i) (le_bytes 4 b)) (4 * j) 4 = slice d (4 * j) 4"
    using assms False by (intro slice_overwrite_other) auto
  then show ?thesis using False assms(3) by (simp add: get_addrs_nth)
qed

section \<open>Changing the block map\<close>

lemma fblock_direct_upd:
  assumes "i < INODE_NUM_DIRECT" "length (addrs e) = INODE_NUM_DIRECT" "indirect e \<noteq> 0 \<Longrightarrow> v' (indirect e) = v (indirect e)"
  shows "fblock v' (e\<lparr>addrs := (addrs e)[i := b]\<rparr>) k = (if k = i then b else fblock v e k)"
  using assms by (auto simp: fblock_def nth_list_update)

lemma fblock_indirect_upd:
  assumes "12 \<le> i" "i < INODE_MAX_BLOCKS" "indirect e \<noteq> 0" "length (v (indirect e)) = BLOCK_SIZE" "b < 2 ^ 32"
    "v' (indirect e) = overwrite (v (indirect e)) (4 * (i - 12)) (le_bytes 4 b)" "k < INODE_MAX_BLOCKS"
  shows "fblock v' e k = (if k = i then b else fblock v e k)"
proof (cases "k < 12")
  case True
  then show ?thesis using assms(1) by (simp add: fblock_def)
next
  case False
  then have "k - 12 = i - 12 \<longleftrightarrow> k = i" using assms(1) by auto
  then show ?thesis using False assms get_addrs_overwrite [OF assms(4), of "i - 12" "k - 12" b]
    by (simp add: fblock_def)
qed

text \<open>Adding one fresh block to a sound block map.\<close>

lemma fmap_ok_add:
  assumes ok: "fmap_ok v e S" and i: "i < INODE_MAX_BLOCKS" "fblock v e i = 0"
    and b: "b \<noteq> 0" "b \<in> T" "b \<notin> S" "S \<subseteq> T"
    and e': "length (addrs e') = INODE_NUM_DIRECT" "indirect e' = indirect e"
    and f: "\<And>k. k < INODE_MAX_BLOCKS \<Longrightarrow> fblock v' e' k = (if k = i then b else fblock v e k)"
  shows "fmap_ok v' e' T" "file_blocks v' e' = insert b (file_blocks v e)"
proof -
  have fb: "fblock v e k \<in> S" if "k < 140" "fblock v e k \<noteq> 0" for k
    using ok that by (auto simp: fmap_ok_def file_blocks_def)
  have ind: "indirect e \<in> S" if "indirect e \<noteq> 0" using ok that by (auto simp: fmap_ok_def file_blocks_def)
  show fbs: "file_blocks v' e' = insert b (file_blocks v e)"
  proof -
    have "fblock v' e' ` {..<140} - {0} = insert b (fblock v e ` {..<140} - {0})"
    proof (intro equalityI subsetI)
      fix x assume "x \<in> fblock v' e' ` {..<140} - {0}"
      then obtain k where k: "k < 140" "x = fblock v' e' k" "x \<noteq> 0" by auto
      then show "x \<in> insert b (fblock v e ` {..<140} - {0})" using f [OF k(1)] by (cases "k = i") auto
    next
      fix x assume x: "x \<in> insert b (fblock v e ` {..<140} - {0})"
      show "x \<in> fblock v' e' ` {..<140} - {0}"
      proof (cases "x = b")
        case True
        then have "x = fblock v' e' i" using f [OF i(1)] by simp
        then show ?thesis using i(1) b(1) True by blast
      next
        case False
        then obtain k where k: "k < 140" "x = fblock v e k" "x \<noteq> 0" using x by auto
        then have "x = fblock v' e' k" using i(2) f [OF k(1)] by auto
        then show ?thesis using k(1,3) by blast
      qed
    qed
    then show ?thesis unfolding file_blocks_def e'(2) Un_Diff Un_insert_left [symmetric]
      by (rule arg_cong)
  qed
  have nind: "fblock v e k \<noteq> indirect e" if "k < 140" "indirect e \<noteq> 0" for k
    using ok that unfolding fmap_ok_def by blast
  show "fmap_ok v' e' T" unfolding fmap_ok_def
  proof (intro conjI allI impI)
    show "length (addrs e') = 12" by (rule e'(1))
    show "file_blocks v' e' \<subseteq> T" using fbs b(2,4) ok by (auto simp: fmap_ok_def)
    fix j k assume jk: "j < (140::nat)" "k < (140::nat)" "fblock v' e' j \<noteq> 0" "fblock v' e' j = fblock v' e' k"
    have notb: "fblock v e k \<noteq> b" if "k < 140" for k using fb [OF that] b(1,3) by auto
    show "j = k"
    proof (cases "j = i \<or> k = i")
      case True
      then show ?thesis using jk f [OF jk(1)] f [OF jk(2)] notb [OF jk(1)] notb [OF jk(2)] by (auto split: if_splits)
    next
      case False
      then have "fblock v e j \<noteq> 0" "fblock v e j = fblock v e k" using jk f [OF jk(1)] f [OF jk(2)] by simp_all
      then show ?thesis using ok jk(1,2) unfolding fmap_ok_def by blast
    qed
  next
    fix k assume k: "k < (140::nat)" "indirect e' \<noteq> 0"
    then show "fblock v' e' k \<noteq> indirect e'"
      using f [OF k(1)] e'(2) ind b(3) nind [OF k(1)] by (cases "k = i") auto
  qed
qed

lemma fmap_ok_inj:
  assumes "fmap_ok v e S" "i < INODE_MAX_BLOCKS" "fblock v e i \<noteq> 0"
  shows "fblock v e i \<in> file_blocks v e" "fblock v e i \<in> S" "fblock v e i \<noteq> indirect e"
    "\<And>j. j < INODE_MAX_BLOCKS \<Longrightarrow> fblock v e j = fblock v e i \<longleftrightarrow> j = i"
proof -
  show m: "fblock v e i \<in> file_blocks v e" using assms(2,3) by (auto simp: file_blocks_def)
  then show "fblock v e i \<in> S" using assms(1) by (auto simp: fmap_ok_def)
  show "fblock v e i \<noteq> indirect e" using assms unfolding fmap_ok_def by metis
  show "\<And>j. j < 140 \<Longrightarrow> fblock v e j = fblock v e i \<longleftrightarrow> j = i" using assms unfolding fmap_ok_def by metis
qed

text \<open>Adding the (empty) address block.\<close>

lemma fmap_ok_add_indirect:
  assumes ok: "fmap_ok v e S" and i: "indirect e = 0"
    and b: "b \<noteq> 0" "b \<in> T" "b \<notin> S" "S \<subseteq> T" and z: "v' b = replicate BLOCK_SIZE 0"
  shows "fmap_ok v' (e\<lparr>indirect := b\<rparr>) T" "file_blocks v' (e\<lparr>indirect := b\<rparr>) = insert b (file_blocks v e)"
    "\<And>k. k < INODE_MAX_BLOCKS \<Longrightarrow> fblock v' (e\<lparr>indirect := b\<rparr>) k = fblock v e k"
proof -
  let ?e = "e\<lparr>indirect := b\<rparr>"
  show f: "fblock v' ?e k = fblock v e k" if "k < 140" for k
    using that i b(1) z get_addrs_zero [of "k - 12"] by (simp add: fblock_def)
  have im: "fblock v' ?e ` {..<140} = fblock v e ` {..<140}" using f by (intro image_cong) auto
  show fbs: "file_blocks v' ?e = insert b (file_blocks v e)" using b(1) i im by (auto simp: file_blocks_def)
  have nb: "fblock v e k \<noteq> b" if "k < 140" for k
    using that ok b(1,3) by (auto simp: fmap_ok_def file_blocks_def)
  show "fmap_ok v' ?e T" unfolding fmap_ok_def
  proof (intro conjI allI impI)
    show "length (addrs ?e) = 12" using ok by (simp add: fmap_ok_def)
    show "file_blocks v' ?e \<subseteq> T" using fbs b(2,4) ok by (auto simp: fmap_ok_def)
    fix j k assume "j < (140::nat)" "k < (140::nat)" "fblock v' ?e j \<noteq> 0" "fblock v' ?e j = fblock v' ?e k"
    then show "j = k" using ok f unfolding fmap_ok_def by metis
  next
    fix k assume "k < (140::nat)" "indirect ?e \<noteq> 0"
    then show "fblock v' ?e k \<noteq> indirect ?e" using f nb by simp
  qed
qed

lemma fblock_frame:
  assumes "indirect e \<noteq> 0 \<Longrightarrow> v' (indirect e) = v (indirect e)"
  shows "fblock v' e k = fblock v e k"
  using assms by (simp add: fblock_def)

lemma file_blocks_frame:
  assumes "\<And>x. x \<in> file_blocks v e \<Longrightarrow> v' x = v x"
  shows "file_blocks v' e = file_blocks v e" "fblock v' e k = fblock v e k"
    "fblock v e (q div BLOCK_SIZE) \<noteq> 0 \<Longrightarrow> q div BLOCK_SIZE < INODE_MAX_BLOCKS \<Longrightarrow> fbyte v' e q = fbyte v e q"
proof -
  have "v' (indirect e) = v (indirect e)" if "indirect e \<noteq> 0" using that assms by (simp add: file_blocks_def)
  then have f: "fblock v' e k = fblock v e k" for k by (rule fblock_frame)
  then show "file_blocks v' e = file_blocks v e" "fblock v' e k = fblock v e k" by (simp_all add: file_blocks_def)
  show "fblock v e (q div 512) \<noteq> 0 \<Longrightarrow> q div 512 < 140 \<Longrightarrow> fbyte v' e q = fbyte v e q"
    using assms [of "fblock v e (q div 512)"] f by (auto simp: fbyte_def file_blocks_def)
qed

end
