(* ===== verification/InodeRead.thy ===== *)
theory InodeRead
  imports InodeFile
begin

text \<open>
  Reading through the inode layer, for any cache that satisfies \<open>block_cache\<close>: \<open>inode_map\<close> finds the
  block of an offset, \<open>inode_read\<close> returns exactly the bytes of the file, and the view of the disk and
  the running operations are untouched.
\<close>

context block_cache
begin

text \<open>Operations that only look: nothing but the cached copies changes.\<close>

definition looks :: "nat \<Rightarrow> 'c itree \<Rightarrow> 'c itree \<Rightarrow> bool" where
  "looks k st st' \<longleftrightarrow> st' = st\<lparr>it_cache := it_cache st'\<rparr> \<and> keeps k (it_cache st) (it_cache st') \<and>
     vw (it_cache st') = vw (it_cache st) \<and> (\<forall>c. opset c (it_cache st') = opset c (it_cache st)) \<and>
     bc_used cache (it_cache st') = bc_used cache (it_cache st)"

lemma looks_refl: "inv (it_cache st) \<Longrightarrow> looks 0 st st"
  by (simp add: looks_def keeps_refl)

lemma looks_trans: "\<lbrakk>looks k st st1; looks l st1 st2\<rbrakk> \<Longrightarrow> looks (k + l) st st2"
  unfolding looks_def using keeps_trans by (cases st; cases st1; cases st2) auto

lemma looks_fields:
  assumes "looks k st st'"
  shows "it_sb st' = it_sb st" "it_nodes st' = it_nodes st" "it_head st' = it_head st" "it_lock st' = it_lock st"
    "it_next st' = it_next st" "it_free st' = it_free st" "it_room st' = it_room st"
    "vw (it_cache st') = vw (it_cache st)" "inv (it_cache st')" "hb (it_cache st') = hb (it_cache st)"
    "cap (it_cache st) \<le> cap (it_cache st') + k" "dirty (it_cache st') = dirty (it_cache st)"
    "opset c (it_cache st') = opset c (it_cache st)" "bc_used cache (it_cache st') = bc_used cache (it_cache st)"
proof -
  have "st' = st\<lparr>it_cache := it_cache st'\<rparr>" using assms by (simp add: looks_def)
  then show "it_sb st' = it_sb st" "it_nodes st' = it_nodes st" "it_head st' = it_head st" "it_lock st' = it_lock st"
    "it_next st' = it_next st" "it_free st' = it_free st" "it_room st' = it_room st"
    by (metis itree.simps itree.select_convs itree.surjective itree.update_convs(8))+
qed (use assms in \<open>simp_all add: looks_def keeps_def\<close>)

lemma look_block:
  assumes "inv (it_cache st)" "usable b" "b \<notin> Map.ran (hb (it_cache st))" "0 < cap (it_cache st)"
  shows "\<exists>s c1 st2. call (bc_acquire cache b) st = Inr (s, st\<lparr>it_cache := c1\<rparr>) \<and>
    bc_data cache s c1 = vw (it_cache st) b \<and> callu (bc_release cache s) (st\<lparr>it_cache := c1\<rparr>) = Inr st2 \<and> looks 1 st st2"
proof -
  obtain s c1 c2 where r: "bc_acquire cache b (it_cache st) = Inr (s, c1)" "bc_data cache s c1 = vw (it_cache st) b"
    "bc_release cache s c1 = Inr c2" and e: "inv c2" "hb c2 = hb (it_cache st)" "vw c2 = vw (it_cache st)"
    "dirty c2 = dirty (it_cache st)" "\<And>c. opset c c2 = opset c (it_cache st)" "cap (it_cache st) \<le> Suc (cap c2)"
    "bc_used cache c2 = bc_used cache (it_cache st)"
    by (rule read_block [OF assms]) blast
  have "looks 1 st (st\<lparr>it_cache := c2\<rparr>)" using e by (simp add: looks_def keeps_def)
  then show ?thesis using r
    by (intro exI [of _ s] exI [of _ c1] exI [of _ "st\<lparr>it_cache := c2\<rparr>"]) (simp add: call_def callu_def)
qed

text \<open>The blocks of a file as the reader needs them: usable, and held by nobody.\<close>

definition readable :: "'c itree \<Rightarrow> nat \<Rightarrow> bool" where
  "readable st p \<longleftrightarrow> (let v = vw (it_cache st); e = entry (ino_of st p) in
     (\<forall>b\<in>file_blocks v e. usable b \<and> b \<notin> Map.ran (hb (it_cache st))))"

lemma readable_looks: "\<lbrakk>looks k st st'; readable st p\<rbrakk> \<Longrightarrow> readable st' p"
  using looks_fields [of k st st'] by (simp add: readable_def)

lemma inode_map_found:
  assumes inv: "inv (it_cache st)" and cap: "0 < cap (it_cache st)" and rd: "readable st p"
    and k: "offset div BLOCK_SIZE < INODE_MAX_BLOCKS"
    and b: "fblock (vw (it_cache st)) (entry (ino_of st p)) (offset div BLOCK_SIZE) = b" "b \<noteq> 0"
  shows "\<exists>st'. inode_map cache ctx p offset st = Inr (b, False, st') \<and> looks 1 st st'"
proof (cases "offset div 512 < 12")
  case True
  have "looks 1 st st" using looks_refl [OF inv] by (simp add: looks_def keeps_def)
  then show ?thesis using True b by (simp add: inode_map_def fblock_def Let_def)
next
  case False
  let ?e = "entry (ino_of st p)" and ?v = "vw (it_cache st)"
  have i: "indirect ?e \<noteq> 0" "get_addrs (?v (indirect ?e)) ! (offset div 512 - 12) = b"
    using False b by (auto simp: fblock_def split: if_splits)
  then have "indirect ?e \<in> file_blocks ?v ?e" by (simp add: file_blocks_def)
  then have u: "usable (indirect ?e)" "indirect ?e \<notin> Map.ran (hb (it_cache st))"
    using rd by (auto simp: readable_def Let_def)
  obtain s c1 st2 where r: "call (bc_acquire cache (indirect ?e)) st = Inr (s, st\<lparr>it_cache := c1\<rparr>)"
    "bc_data cache s c1 = ?v (indirect ?e)" "callu (bc_release cache s) (st\<lparr>it_cache := c1\<rparr>) = Inr st2" "looks 1 st st2"
    using look_block [OF inv u cap] by blast
  have "offset div 512 - 12 < 128" using k False by simp
  then have "inode_map cache ctx p offset st = Inr (b, False, st2)"
    using False i r(1-3) b(2) by (simp add: inode_map_def Let_def)
  then show ?thesis using r(4) by blast
qed

lemma read_loop_ok:
  assumes "inv (it_cache st)" "readable st p" "2 * touched from0 fin \<le> cap (it_cache st)"
    "file_ok (vw (it_cache st)) (entry (ino_of st p)) S" "fin \<le> num_bytes (entry (ino_of st p))" "from0 \<le> fin"
  shows "\<exists>st'. read_loop cache p from0 fin dest st =
      Inr (dest @ map (fbyte (vw (it_cache st)) (entry (ino_of st p))) [from0..<fin], st') \<and> looks (2 * touched from0 fin) st st'"
  using assms
proof (induction "fin - from0" arbitrary: from0 dest st rule: less_induct)
  case less
  let ?e = "entry (ino_of st p)" and ?v = "vw (it_cache st)"
  show ?case
  proof (cases "from0 < fin")
    case False
    then have "read_loop cache p from0 fin dest st = Inr (dest, st)" by (subst read_loop.simps) simp
    then show ?thesis using False looks_refl [OF less.prems(1)] by (simp add: touched_def)
  next
    case True
    define s where "s = min (fin - from0) (512 - from0 mod 512)"
    note ts = touched_step [OF True s_def]
    let ?k = "from0 div 512"
    have bn: "512 * ?k < num_bytes ?e" using True less.prems(5) by (meson le_less_trans less_le_trans times_div_less_eq_dividend)
    have kb: "?k < 140"
    proof -
      have "512 * ?k < 512 * 140" using bn less.prems(4) by (simp add: file_ok_def)
      then show ?thesis by simp
    qed
    define b where "b = fblock ?v ?e ?k"
    have b0: "b \<noteq> 0" using less.prems(4) bn by (simp add: file_ok_def b_def)
    have bf: "b \<in> file_blocks ?v ?e" using kb b0 by (auto simp: b_def file_blocks_def)
    have cap: "2 \<le> cap (it_cache st)" using less.prems(3) ts(4) by simp
    obtain st1 where m: "inode_map cache None p from0 st = Inr (b, False, st1)" and l1: "looks 1 st st1"
      using inode_map_found [OF less.prems(1) _ less.prems(2) kb, of b None] b0 cap by (auto simp: b_def)
    note f1 = looks_fields [OF l1]
    have rd1: "readable st1 p" by (rule readable_looks [OF l1 less.prems(2)])
    have u: "usable b" "b \<notin> Map.ran (hb (it_cache st1))" using rd1 bf f1 by (auto simp: readable_def Let_def)
    have c1: "0 < cap (it_cache st1)" using f1(11) cap by simp
    obtain q c2 st3 where r: "call (bc_acquire cache b) st1 = Inr (q, st1\<lparr>it_cache := c2\<rparr>)"
      "bc_data cache q c2 = vw (it_cache st1) b" "callu (bc_release cache q) (st1\<lparr>it_cache := c2\<rparr>) = Inr st3" and l3: "looks 1 st1 st3"
      using look_block [OF f1(9) u c1] by blast
    have l13: "looks 2 st st3" using looks_trans [OF l1 l3] by (simp add: numeral_2_eq_2)
    note f3 = looks_fields [OF l13]
    have len: "length (?v b) = 512" by (rule vw_length [OF less.prems(1)])
    have sl: "slice (?v b) (from0 mod 512) s = map (fbyte ?v ?e) [from0..<from0 + s]"
    proof (rule nth_equalityI)
      show "length (slice (?v b) (from0 mod 512) s) = length (map (fbyte ?v ?e) [from0..<from0 + s])"
        using len ts(3) by simp
      fix i assume "i < length (slice (?v b) (from0 mod 512) s)"
      then have i: "i < s" using len ts(3) by simp
      have "(from0 + i) div 512 = ?k" "(from0 + i) mod 512 = from0 mod 512 + i"
        using same_block [of from0 i] i ts(3) by simp_all
      then show "slice (?v b) (from0 mod 512) s ! i = map (fbyte ?v ?e) [from0..<from0 + s] ! i"
        using i len ts(3) by (simp add: nth_slice fbyte_def b_def)
    qed
    have "2 * touched (from0 + s) fin \<le> cap (it_cache st3)" using less.prems(3) ts(4) f3(11) by simp
    moreover have "fin - (from0 + s) < fin - from0" using ts(1) True by simp
    ultimately obtain st' where ih: "read_loop cache p (from0 + s) fin (dest @ map (fbyte ?v ?e) [from0..<from0 + s]) st3 =
        Inr ((dest @ map (fbyte ?v ?e) [from0..<from0 + s]) @ map (fbyte ?v ?e) [from0 + s..<fin], st')"
      and l': "looks (2 * touched (from0 + s) fin) st3 st'"
      using less.hyps [of "from0 + s" st3 "dest @ map (fbyte ?v ?e) [from0..<from0 + s]"] less.prems ts(2) f3
        readable_looks [OF l13 less.prems(2)] by auto
    have "[from0..<from0 + s] @ [from0 + s..<fin] = [from0..<fin]" using ts(2) by (metis le_add1 le_add_diff_inverse upt_add_eq_append)
    then have cat: "map (fbyte ?v ?e) [from0..<from0 + s] @ map (fbyte ?v ?e) [from0 + s..<fin] = map (fbyte ?v ?e) [from0..<fin]"
      by (metis map_append)
    have "read_loop cache p from0 fin dest st = Inr (dest @ map (fbyte ?v ?e) [from0..<fin], st')"
      using True m r ih sl f1(8) cat by (simp add: read_loop.simps [of cache p from0] Let_def s_def [symmetric])
    moreover have "looks (2 * touched from0 fin) st st'" using looks_trans [OF l13 l'] ts(4) by simp
    ultimately show ?thesis by blast
  qed
qed

text \<open>\<open>inode_read\<close> returns the bytes from \<open>offset\<close>, cut at the end of the file.\<close>

lemma inode_read_ok:
  assumes inv: "inv (it_cache st)" and rd: "readable st p" and e: "e = entry (ino_of st p)" "ity e \<noteq> INODE_DEVICE"
    and ok: "file_ok (vw (it_cache st)) e S" and off: "offset \<le> num_bytes e" "offset + count < 2 ^ 64"
    and n: "n = min count (num_bytes e - offset)" and cap: "2 * touched offset (offset + n) \<le> cap (it_cache st)"
  shows "\<exists>st'. inode_read cache con p offset count st =
      Inr (map (fbyte (vw (it_cache st)) e) [offset..<offset + n], n, st') \<and> looks (2 * touched offset (offset + n)) st st'"
proof -
  have nb: "num_bytes e \<le> 71680" using ok by (simp add: file_ok_def)
  then have small: "num_bytes e < 2 ^ 64" by simp
  have cnt: "(if addw 64 count offset > num_bytes e then subw 64 (num_bytes e) offset else count) = n"
    using off n small by (auto simp: addw_small subw_small add.commute min_def)
  have fin: "addw 64 offset n = offset + n" "offset + n \<le> num_bytes e" using off n small by (simp_all add: addw_small)
  obtain st' where r: "read_loop cache p offset (offset + n) [] st =
      Inr ([] @ map (fbyte (vw (it_cache st)) e) [offset..<offset + n], st')" "looks (2 * touched offset (offset + n)) st st'"
    using read_loop_ok [OF inv rd cap, of S "[]"] ok fin e(1) by auto
  show ?thesis using e off(1) r fin unfolding inode_read_def Let_def e(1) [symmetric] cnt
    by (intro exI [of _ st']) simp
qed

end

end
