(* ===== verification/InodeGrow.thy ===== *)
theory InodeGrow
  imports InodeRead
begin

text \<open>
  Growing a file, for any cache that satisfies \<open>block_cache\<close>: the search for a group, allocation near
  the inode, a new entry in the address block, and the relation \<open>grows\<close> between the states before and
  after.
\<close>

section \<open>The search for a group\<close>

lemma find_group_up:
  assumes "tgno \<le> g" "g < NGROUPS" "used ! g \<noteq> full"
  shows "\<exists>t. find_group used full tgno 1 = Some t \<and> t < NGROUPS \<and> used ! t \<noteq> full"
  using assms
proof (induction "g - tgno" arbitrary: tgno rule: less_induct)
  case less
  show ?case
  proof (cases "used ! tgno = full")
    case False
    then have "find_group used full tgno 1 = Some tgno" by (subst find_group.simps) simp
    then show ?thesis using less.prems False by auto
  next
    case True
    then have lt: "tgno < g" using less.prems by (metis le_neq_implies_less)
    then have "find_group used full tgno 1 = find_group used full (tgno + 1) 1"
      using True less.prems(2) by (subst find_group.simps) simp
    then show ?thesis using less.hyps [of "tgno + 1"] less.prems lt by simp
  qed
qed

text \<open>The search ends as soon as one group has room.\<close>

lemma find_group_ok:
  assumes "tgno < NGROUPS" "0 < step" "g < NGROUPS" "used ! g \<noteq> full"
  shows "\<exists>t. find_group used full tgno step = Some t \<and> t < NGROUPS \<and> used ! t \<noteq> full"
  using assms(1)
proof (induction "NGROUPS - tgno" arbitrary: tgno rule: less_induct)
  case less
  show ?case
  proof (cases "used ! tgno = full")
    case False
    then have "find_group used full tgno step = Some tgno" by (subst find_group.simps) simp
    then show ?thesis using less.prems False by auto
  next
    case True
    show ?thesis
    proof (cases "tgno + step \<ge> 10")
      case wrap: True
      then have "find_group used full tgno step = find_group used full 0 1"
        using True by (subst find_group.simps) simp
      then show ?thesis using find_group_up [of 0 g used full] assms by simp
    next
      case False
      then have "find_group used full tgno step = find_group used full (tgno + step) step"
        using True by (subst find_group.simps) simp
      then show ?thesis using less.hyps [of "tgno + step"] less.prems False assms(2) by simp
    qed
  qed
qed

context block_cache
begin

section \<open>Group counters\<close>

text \<open>\<open>used_block[g]\<close> counts the data blocks in use: it equals \<open>full\<close> exactly when the group is full.\<close>

definition counted :: "nat \<Rightarrow> 'c \<Rightarrow> bool" where
  "counted full k \<longleftrightarrow> full < 2 ^ 32 \<and> (\<forall>g<NGROUPS. bc_used cache k ! g + card {b \<in> area. grp b = g} =
     full + card {b \<in> alloced k. grp b = g})"

lemma counted_not_full:
  assumes "counted full k" "g < NGROUPS"
  shows "bc_used cache k ! g \<noteq> full \<longleftrightarrow> \<not> {b \<in> area. grp b = g} \<subseteq> alloced k"
proof -
  let ?a = "{b \<in> area. grp b = g}" and ?u = "{b \<in> alloced k. grp b = g}"
  have fin: "finite ?a" using finite_area by simp
  have sub: "?u \<subseteq> ?a" using alloced_area by auto
  have eq: "bc_used cache k ! g + card ?a = full + card ?u" using assms by (simp add: counted_def)
  have "card ?u = card ?a \<longleftrightarrow> ?u = ?a" using card_subset_eq [OF fin sub] by auto
  moreover have "?u = ?a \<longleftrightarrow> ?a \<subseteq> alloced k" using sub by auto
  ultimately show ?thesis using eq by auto
qed

lemma counted_free_group:
  assumes "counted full k" "inv k" "b \<in> area" "b \<notin> alloced k"
  shows "bc_used cache k ! grp b \<noteq> full" "bc_used cache k ! grp b < full" "grp b < NGROUPS"
proof -
  show g: "grp b < 10" using grp_bound [OF assms(2,3)] by simp
  show ne: "bc_used cache k ! grp b \<noteq> full" using counted_not_full [OF assms(1) g] assms(3,4) by auto
  have "{x \<in> alloced k. grp x = grp b} \<subseteq> {x \<in> area. grp x = grp b}" using alloced_area by auto
  then have "card {x \<in> alloced k. grp x = grp b} \<le> card {x \<in> area. grp x = grp b}"
    using finite_area by (intro card_mono) simp_all
  moreover have "bc_used cache k ! grp b + card {x \<in> area. grp x = grp b} = full + card {x \<in> alloced k. grp x = grp b}"
    using assms(1) g by (simp add: counted_def)
  ultimately show "bc_used cache k ! grp b < full" using ne by linarith
qed

lemma counted_grabs:
  assumes c: "counted full k" and r: "ready c k" and gr: "grabs c n k b k'"
  shows "counted full k'"
proof -
  have inv: "inv k" and len: "length (bc_used cache k) = 10" using r by (simp_all add: ready_def)
  have b: "b \<in> area" "b \<notin> alloced k" and al: "alloced k' = insert b (alloced k)"
    and us: "bc_used cache k' = (bc_used cache k)[grp b := addw 32 (bc_used cache k ! grp b) 1]"
    using gr by (simp_all add: grabs_def)
  note f = counted_free_group [OF c inv b]
  have full: "full < 2 ^ 32" using c by (simp add: counted_def)
  then have add: "addw 32 (bc_used cache k ! grp b) 1 = Suc (bc_used cache k ! grp b)"
    using f(2) by (simp add: addw_small)
  have fin: "finite (alloced k)" using finite_subset [OF alloced_area finite_area] .
  have "bc_used cache k' ! g + card {x \<in> area. grp x = g} = full + card {x \<in> alloced k'. grp x = g}" if g: "g < 10" for g
  proof (cases "g = grp b")
    case True
    have "{x \<in> alloced k'. grp x = g} = insert b {x \<in> alloced k. grp x = g}" using al True by auto
    moreover have "b \<notin> {x \<in> alloced k. grp x = g}" using b by simp
    ultimately have "card {x \<in> alloced k'. grp x = g} = Suc (card {x \<in> alloced k. grp x = g})" using fin by simp
    then show ?thesis using c g True us add len by (simp add: counted_def)
  next
    case False
    then have "{x \<in> alloced k'. grp x = g} = {x \<in> alloced k. grp x = g}" using al by auto
    then show ?thesis using c g False us len by (simp add: counted_def)
  qed
  then show ?thesis using full by (simp add: counted_def)
qed

section \<open>Allocating near the inode\<close>

lemma grabs_later:
  assumes "keeps l k k1" "vw k1 = vw k" "\<forall>e. opset e k1 = opset e k" "bc_used cache k1 = bc_used cache k" "grabs c n k1 b k2"
  shows "grabs c (l + n) k b k2"
proof -
  have "alloced k1 = alloced k" using assms(2) by (intro alloced_cong) simp
  then show ?thesis using assms keeps_trans [of l k k1 n k2] by (simp add: grabs_def)
qed

lemma ready_later:
  assumes "ready c k" "keeps l k k1" "vw k1 = vw k" "bc_used cache k1 = bc_used cache k"
  shows "ready c k1" "alloced k1 = alloced k"
proof -
  show "alloced k1 = alloced k" using assms(3) by (intro alloced_cong) simp
  then show "ready c k1" using assms by (simp add: ready_def keeps_def)
qed

lemma grabs_mono: "\<lbrakk>grabs c n k b k'; n \<le> m\<rbrakk> \<Longrightarrow> grabs c m k b k'"
  using keeps_mono [of n k k' m] by (simp add: grabs_def)

lemma alloc_near_ok:
  assumes r: "ready c (it_cache st)" and sp: "card (opset c (it_cache st)) + 2 \<le> OP_MAX_NUM_BLOCKS" and g: "gno < groups"
    and free: "\<not> area \<subseteq> alloced (it_cache st)" and cap: "cost + 2 \<le> cap (it_cache st)"
  shows "\<exists>b k'. alloc_near cache (Some c) gno st = Inr (b, st\<lparr>it_cache := k'\<rparr>) \<and> grabs c (cost + 2) (it_cache st) b k'"
proof -
  have inv: "inv (it_cache st)" using r by (simp add: ready_def)
  have cap2: "2 \<le> cap (it_cache st)" using cap by simp
  from allocg_law [OF r sp g cap2] show ?thesis
  proof (elim disjE exE conjE)
    fix b k'
    assume a: "bc_allocg cache (Some c) gno (it_cache st) = Inr (b, k')" and gr: "grabs c 2 (it_cache st) b k'"
    have "b \<noteq> 0" "b < 2 ^ 32" using gr area_usable [OF inv, of b] by (simp_all add: grabs_def)
    then have "alloc_near cache (Some c) gno st = Inr (b, st\<lparr>it_cache := k'\<rparr>)"
      using a by (simp add: alloc_near_def call_def Let_def)
    then show ?thesis using grabs_mono [OF gr] by auto
  next
    fix k1
    assume a: "bc_allocg cache (Some c) gno (it_cache st) = Inr (0, k1)" and e: "keeps 1 (it_cache st) k1"
      "vw k1 = vw (it_cache st)" "\<forall>e. opset e k1 = opset e (it_cache st)" "bc_used cache k1 = bc_used cache (it_cache st)"
    note l = ready_later [OF r e(1,2,4)]
    have "cost \<le> cap k1" using cap e(1) by (simp add: keeps_def)
    then obtain b k2 where b: "bc_alloc cache (Some c) k1 = Inr (b, k2)" and gr: "grabs c cost k1 b k2"
      using alloc_law [OF l(1)] sp e(3) free l(2) by auto
    have "b < 2 ^ 32" using gr area_usable [OF inv, of b] by (simp add: grabs_def)
    then have "alloc_near cache (Some c) gno st = Inr (b, st\<lparr>it_cache := k2\<rparr>)"
      using a b by (simp add: alloc_near_def call_def Let_def)
    moreover have "grabs c (cost + 2) (it_cache st) b k2"
      by (rule grabs_mono [OF grabs_later [OF e gr]]) simp
    ultimately show ?thesis by blast
  qed
qed

section \<open>Adding an address to the address block\<close>

text \<open>The address block \<open>ind\<close> stays held while the new block is allocated.\<close>

lemma add_addr:
  assumes r: "ready c k" and ct: "counted full k" and ind: "ind \<in> alloced k" "ind \<notin> meta" "ind \<notin> Map.ran (hb k)"
    and t: "tgno < NGROUPS" "NGROUPS \<le> groups" "bc_used cache k ! tgno \<noteq> full"
    and sp: "card (opset c k) + (if ind \<in> opset c k then 2 else 3) \<le> OP_MAX_NUM_BLOCKS" and cap: "3 \<le> cap k" and i: "i < INODE_NUM_INDIRECT"
  shows "\<exists>s k1 b k2 k3 k4 d. bc_acquire cache ind k = Inr (s, k1) \<and> bc_data cache s k1 = vw k ind \<and>
    bc_used cache k1 = bc_used cache k \<and> bc_allocg cache (Some c) tgno k1 = Inr (b, k2) \<and>
    bc_data cache s k2 = vw k ind \<and> d = overwrite (vw k ind) (4 * i) (le_bytes 4 b) \<and>
    bc_sync cache (Some c) s (bc_set_data cache s d k2) = Inr k3 \<and> bc_data cache s k3 = d \<and>
    bc_release cache s k3 = Inr k4 \<and> b \<in> area \<and> b \<notin> alloced k \<and> keeps 3 k k4 \<and> ready c k4 \<and> counted full k4 \<and>
    alloced k4 = insert b (alloced k) \<and> vw k4 ind = d \<and> vw k4 b = replicate BLOCK_SIZE 0 \<and>
    (\<forall>x. x \<noteq> b \<longrightarrow> x \<noteq> ind \<longrightarrow> x \<notin> meta \<longrightarrow> vw k4 x = vw k x) \<and>
    opset c k4 = insert ind (insert b (insert (bitof b) (opset c k))) \<and> (\<forall>e. e \<noteq> c \<longrightarrow> opset e k4 = opset e k)"
proof -
  have inv: "inv k" and c: "c \<in> ops" using r by (simp_all add: ready_def)
  have ia: "ind \<in> area" using ind(1) alloced_area by blast
  have us: "usable ind" using area_usable [OF inv ia] by simp
  have cap0: "0 < cap k" using cap by simp
  obtain s k1 where a: "bc_acquire cache ind k = Inr (s, k1)" "inv k1" "hb k s = None" "hb k1 = (hb k)(s \<mapsto> ind)"
      "vw k1 = vw k" "dirty k1 = dirty k" "\<forall>c. opset c k1 = opset c k" "cap k \<le> Suc (cap k1)" "bc_used cache k1 = bc_used cache k"
    using acq_ok [OF inv us ind(3) cap0] by blast
  have al1: "alloced k1 = alloced k" using a(5) by (intro alloced_cong) simp
  have rn: "Map.ran (hb k1) = insert ind (Map.ran (hb k))" using a(3,4) by (simp add: Map.ran_map_upd)
  have r1: "ready c k1" using r a(2,9) al1 rn ind(1,2) by (auto simp: ready_def)
  have ct1: "counted full k1" using ct a(9) al1 by (simp add: counted_def)
  have hs1: "hb k1 s = Some ind" using a(4) by simp
  have sp1: "card (opset c k1) + 2 \<le> 10" and cap1: "2 \<le> cap k1" using sp a(7,8) cap by (auto split: if_splits)
  have nf: "\<not> {b \<in> area. grp b = tgno} \<subseteq> alloced k1"
    using counted_not_full [OF ct1, of tgno] t a(9) by simp
  obtain b k2 where b: "bc_allocg cache (Some c) tgno k1 = Inr (b, k2)" and g: "grabs c 2 k1 b k2"
    using allocg_law [OF r1 sp1 less_le_trans [OF t(1,2)] cap1] nf by blast
  note gd = g [unfolded grabs_def keeps_def]
  have r2: "ready c k2" by (rule ready_grabs [OF r1 g])
  have ct2: "counted full k2" by (rule counted_grabs [OF ct1 r1 g])
  have bn: "b \<noteq> ind" using gd al1 ind(1) by auto
  have hs2: "hb k2 s = Some ind" using gd hs1 by simp
  have v2: "vw k2 ind = vw k ind" using gd bn ind(2) a(5) by auto
  have d2: "bc_data cache s k2 = vw k ind" using get_held [of k2 s ind] gd hs2 v2 by simp
  define d where "d = overwrite (vw k ind) (4 * i) (le_bytes 4 b)"
  have ld: "length d = 512" using vw_length [OF inv, of ind] i by (simp add: d_def)
  let ?k = "bc_set_data cache s d k2"
  have i2: "inv k2" using gd by simp
  have u: "inv ?k" "hb ?k = hb k2" "vw ?k = (vw k2)(ind := d)" "dirty ?k - {ind} = dirty k2 - {ind}"
      "\<forall>c. opset c ?k = opset c k2" "cap ?k = cap k2" "bc_used cache ?k = bc_used cache k2"
    using set_ok [OF i2 hs2 ld] by blast+
  have card2: "card (opset c k2) \<le> card (opset c k) + 2"
    using gd a(7) finite_opset [of c k] by (simp add: card_insert_if)
  moreover have "opset c k \<subseteq> opset c k2" using gd a(7) by auto
  ultimately have sp3: "ind \<in> opset c ?k \<or> card (opset c ?k) < 10" using u(5) sp by (auto split: if_splits)
  have hsu: "hb ?k s = Some ind" using u(2) hs2 by simp
  obtain k3 where y: "bc_sync cache (Some c) s ?k = Inr k3" "inv k3" "hb k3 = hb ?k" "vw k3 = vw ?k"
      "dirty k3 = dirty ?k - {ind}" "opset c k3 = insert ind (opset c ?k)"
      "\<forall>e. e \<noteq> c \<longrightarrow> opset e k3 = opset e ?k" "cap k3 = cap ?k" "bc_used cache k3 = bc_used cache ?k"
    using sync_ok [OF u(1) c hsu us sp3] by blast
  have hs3: "hb k3 s = Some ind" using y(3) hsu by simp
  have d3: "bc_data cache s k3 = d" using get_held [OF y(2) hs3] y(4) u(3) by simp
  have nd: "ind \<notin> dirty k3" using y(5) by simp
  obtain k4 where q: "bc_release cache s k3 = Inr k4" "inv k4" "hb k4 = (hb k3)(s := None)" "vw k4 = vw k3"
      "dirty k4 = dirty k3" "\<forall>c. opset c k4 = opset c k3" "cap k4 = cap k3" "bc_used cache k4 = bc_used cache k3"
    using rel_ok [OF y(2) hs3 nd] by blast
  have hb4: "hb k4 = hb k" using q(3) y(3) u(2) gd a(3,4) by auto
  have "ind \<notin> dirty k" using dirty_held [OF inv] ind(3) by blast
  then have dt: "dirty k4 = dirty k" using q(5) y(5) u(4) gd a(6) by simp
  have v4: "vw k4 = (vw k2)(ind := d)" using q(4) y(4) u(3) by simp
  have al4: "alloced k4 = alloced k2" using v4 ind(2) by (intro alloced_cong) auto
  then have al: "alloced k4 = insert b (alloced k)" using gd al1 by simp
  have us4: "bc_used cache k4 = bc_used cache k2" using q(8) y(9) u(7) by simp
  have kp: "keeps 3 k k4" using q(2,7) y(8) u(6) gd a(8) hb4 dt by (simp add: keeps_def)
  have r4: "ready c k4" using r al us4 q(2) hb4 gd a(9) by (auto simp: ready_def)
  have ct4: "counted full k4" using ct2 us4 al4 by (simp add: counted_def)
  have "vw k4 x = vw k x" if "x \<noteq> b" "x \<noteq> ind" "x \<notin> meta" for x using that v4 gd a(5) by simp
  moreover have "opset c k4 = insert ind (insert b (insert (bitof b) (opset c k)))" "\<forall>e. e \<noteq> c \<longrightarrow> opset e k4 = opset e k"
    using q(6) y(6,7) u(5) gd a(7) by simp_all
  moreover have "vw k4 b = replicate 512 0" "vw k4 ind = d" using v4 bn gd by simp_all
  moreover have "bc_data cache s k1 = vw k ind" using get_held [OF a(2) hs1] a(5) by simp
  moreover have "b \<in> area" "b \<notin> alloced k" using gd al1 by simp_all
  ultimately show ?thesis using a(1,9) b d2 y(1) d3 q(1) kp r4 ct4 al d_def by blast
qed

section \<open>The block map of a file that grows\<close>

text \<open>The state in which the file of inode \<open>p\<close> may be changed by operation \<open>c\<close>.\<close>

definition good :: "nat \<Rightarrow> nat \<Rightarrow> 'c itree \<Rightarrow> bool" where
  "good c p st \<longleftrightarrow> (let k = it_cache st; e = entry (ino_of st p) in
     ready c k \<and> counted (num_datablocks_per_group (it_sb st)) k \<and> NGROUPS \<le> groups \<and>
     0 < inode_no (ino_of st p) \<and> inode_no (ino_of st p) \<le> NINODES \<and>
     fmap_ok (vw k) e (alloced k - meta) \<and> file_blocks (vw k) e \<inter> Map.ran (hb k) = {})"

text \<open>Only the cache and the two address fields of the entry change; blocks are only added, and what
  is neither a bitmap block nor a block of the file keeps its content.\<close>

definition grows :: "nat \<Rightarrow> nat \<Rightarrow> nat \<Rightarrow> 'c itree \<Rightarrow> 'c itree \<Rightarrow> bool" where
  "grows c n p st st' \<longleftrightarrow>
     (let k = it_cache st; k' = it_cache st'; e = entry (ino_of st p); e' = entry (ino_of st' p) in
      good c p st' \<and> keeps n k k' \<and> st' = upd_entry p (\<lambda>_. e') (st\<lparr>it_cache := k'\<rparr>) \<and>
      e' = e\<lparr>addrs := addrs e', indirect := indirect e'\<rparr> \<and> alloced k \<subseteq> alloced k' \<and>
      file_blocks (vw k) e \<subseteq> file_blocks (vw k') e' \<and>
      file_blocks (vw k') e' \<subseteq> file_blocks (vw k) e \<union> (alloced k' - alloced k) \<and>
      (\<forall>i<INODE_MAX_BLOCKS. fblock (vw k) e i \<noteq> 0 \<longrightarrow> fblock (vw k') e' i = fblock (vw k) e i) \<and>
      (\<forall>x. x \<notin> meta \<longrightarrow> x \<notin> file_blocks (vw k') e' \<longrightarrow> vw k' x = vw k x) \<and>
      (\<forall>d. d \<noteq> c \<longrightarrow> opset d k' = opset d k))"

lemma grows_refl: "good c p st \<Longrightarrow> grows c 0 p st st"
  unfolding grows_def Let_def upd_entry_def upd_inode_def
  by (cases st) (auto simp: good_def ready_def keeps_refl Let_def fun_upd_idem)

lemma grows_mono: "\<lbrakk>grows c n p st st'; n \<le> m\<rbrakk> \<Longrightarrow> grows c m p st st'"
  using keeps_mono by (auto simp: grows_def Let_def)

lemma grows_good: "grows c n p st st' \<Longrightarrow> good c p st'"
  by (simp add: grows_def Let_def)

lemma upd_entry_twice:
  "upd_entry p (\<lambda>_. e') ((upd_entry p (\<lambda>_. e) (st\<lparr>it_cache := k\<rparr>))\<lparr>it_cache := k'\<rparr>) = upd_entry p (\<lambda>_. e') (st\<lparr>it_cache := k'\<rparr>)"
  by (cases st) (simp add: upd_entry_def upd_inode_def)

lemma grows_trans:
  assumes a: "grows c n p st st1" and b: "grows c m p st1 st2"
  shows "grows c (n + m) p st st2"
proof -
  note A = a [unfolded grows_def Let_def] and B = b [unfolded grows_def Let_def]
  let ?e1 = "entry (ino_of st1 p)" and ?e2 = "entry (ino_of st2 p)" and ?e = "entry (ino_of st p)"
  have "keeps (n + m) (it_cache st) (it_cache st2)" using A B keeps_trans by blast
  moreover have "st2 = upd_entry p (\<lambda>_. ?e2) (st\<lparr>it_cache := it_cache st2\<rparr>)"
    using A B upd_entry_twice by metis
  moreover have "?e2 = ?e\<lparr>addrs := addrs ?e2, indirect := indirect ?e2\<rparr>"
  proof -
    obtain a1 i1 where 1: "?e1 = ?e\<lparr>addrs := a1, indirect := i1\<rparr>" using A by blast
    obtain a2 i2 where 2: "?e2 = ?e1\<lparr>addrs := a2, indirect := i2\<rparr>" using B by blast
    show ?thesis unfolding 2 1 by simp
  qed
  moreover have "fblock (vw (it_cache st2)) ?e2 i = fblock (vw (it_cache st)) ?e i"
    if "i < 140" "fblock (vw (it_cache st)) ?e i \<noteq> 0" for i using A B that by metis
  moreover have "vw (it_cache st2) x = vw (it_cache st) x"
    if "x \<notin> meta" "x \<notin> file_blocks (vw (it_cache st2)) ?e2" for x using A B that by (metis subsetD)
  moreover have "file_blocks (vw (it_cache st2)) ?e2 \<subseteq> file_blocks (vw (it_cache st)) ?e \<union> (alloced (it_cache st2) - alloced (it_cache st))"
    using A B by blast
  moreover have "good c p st2" "alloced (it_cache st) \<subseteq> alloced (it_cache st2)"
    "file_blocks (vw (it_cache st)) ?e \<subseteq> file_blocks (vw (it_cache st2)) ?e2" using A B by blast+
  moreover have "opset d (it_cache st2) = opset d (it_cache st)" if "d \<noteq> c" for d using A B that by metis
  ultimately show ?thesis unfolding grows_def Let_def by blast
qed

end

end
