(* ===== verification/InodeMap.thy ===== *)
theory InodeMap
  imports InodeGrow
begin

text \<open>
  \<open>inode_map\<close> with allocation, for any cache that satisfies \<open>block_cache\<close>: every offset of a file gets a
  block, and the blocks it already has stay.
\<close>

lemma upd_entry_const: "upd_entry p f st = upd_entry p (\<lambda>_. f (entry (ino_of st p))) st"
  by (simp add: upd_entry_def upd_inode_def)

lemma upd_entry_fields [simp]:
  "it_cache (upd_entry p f st) = it_cache st" "it_sb (upd_entry p f st) = it_sb st"
  "entry (ino_of (upd_entry p f st) p) = f (entry (ino_of st p))"
  "inode_no (ino_of (upd_entry p f st) q) = inode_no (ino_of st q)"
  "ivalid (ino_of (upd_entry p f st) q) = ivalid (ino_of st q)"
  by (simp_all add: upd_entry_def upd_inode_def)

lemma upd_entry_same: "upd_entry p (\<lambda>_. entry (ino_of st p)) (st\<lparr>it_cache := k\<rparr>) = st\<lparr>it_cache := k\<rparr>"
  by (cases st) (simp add: upd_entry_def upd_inode_def fun_upd_idem)

context block_cache
begin

text \<open>What a write may still record in its operation (\<open>load\<close>, at most \<open>OP_MAX_NUM_BLOCKS\<close>; the address
  block counts in advance) and the blocks left on the disk (\<open>spare\<close>).\<close>

definition load :: "nat \<Rightarrow> nat \<Rightarrow> 'c itree \<Rightarrow> nat" where
  "load c p st = (let o1 = opset c (it_cache st); i = indirect (entry (ino_of st p)) in
     card o1 + (if i \<noteq> 0 \<and> i \<in> o1 then 0 else 2))"

definition spare :: "nat \<Rightarrow> 'c itree \<Rightarrow> nat" where
  "spare p st = card (area - alloced (it_cache st)) + (if indirect (entry (ino_of st p)) \<noteq> 0 then 1 else 0)"

lemma goodD:
  assumes "good c p st"
  shows "ready c (it_cache st)" "inv (it_cache st)" "c \<in> ops" "meta \<subseteq> alloced (it_cache st)"
    "counted (num_datablocks_per_group (it_sb st)) (it_cache st)" "NGROUPS \<le> groups"
    "fmap_ok (vw (it_cache st)) (entry (ino_of st p)) (alloced (it_cache st) - meta)"
    "file_blocks (vw (it_cache st)) (entry (ino_of st p)) \<inter> Map.ran (hb (it_cache st)) = {}"
    "subw 32 (inode_no (ino_of st p) mod 2 ^ 32) 1 div (NINODES div NGROUPS) < groups"
proof -
  note g = assms [unfolded good_def Let_def]
  then show "ready c (it_cache st)" "inv (it_cache st)" "c \<in> ops" "meta \<subseteq> alloced (it_cache st)"
    "counted (num_datablocks_per_group (it_sb st)) (it_cache st)" "NGROUPS \<le> groups"
    "fmap_ok (vw (it_cache st)) (entry (ino_of st p)) (alloced (it_cache st) - meta)"
    "file_blocks (vw (it_cache st)) (entry (ino_of st p)) \<inter> Map.ran (hb (it_cache st)) = {}"
    by (simp_all add: ready_def)
  have i: "0 < inode_no (ino_of st p)" "inode_no (ino_of st p) \<le> 200" using g by simp_all
  then have "inode_no (ino_of st p) mod 2 ^ 32 = inode_no (ino_of st p)" by simp
  then have "subw 32 (inode_no (ino_of st p) mod 2 ^ 32) 1 = inode_no (ino_of st p) - 1"
    using i by (simp add: subw_small)
  moreover have "(inode_no (ino_of st p) - 1) div 20 < 10" using i by linarith
  ultimately show "subw 32 (inode_no (ino_of st p) mod 2 ^ 32) 1 div (200 div 10) < groups" using g by simp
qed

lemma spare_free: "area - alloced k \<noteq> {} \<Longrightarrow> \<not> area \<subseteq> alloced k"
  by blast

lemma card_spare_grab:
  assumes "b \<in> area" "b \<notin> alloced k" "alloced k' = insert b (alloced k)"
  shows "card (area - alloced k) = Suc (card (area - alloced k'))"
proof -
  have "area - alloced k = insert b (area - alloced k')" using assms by blast
  moreover have "b \<notin> area - alloced k'" using assms by blast
  ultimately show ?thesis using finite_area by simp
qed

text \<open>A freshly allocated block that enters the entry.\<close>

lemma grows_grab:
  assumes g: "good c p st" and gr: "grabs c n (it_cache st) b k'" and e: "e = entry (ino_of st p)"
    and e': "e' = e\<lparr>addrs := addrs e', indirect := indirect e'\<rparr>"
    and fm: "fmap_ok (vw k') e' (alloced k' - meta)" "file_blocks (vw k') e' = insert b (file_blocks (vw (it_cache st)) e)"
    and kept: "\<And>i. i < INODE_MAX_BLOCKS \<Longrightarrow> fblock (vw (it_cache st)) e i \<noteq> 0 \<Longrightarrow> fblock (vw k') e' i = fblock (vw (it_cache st)) e i"
  shows "grows c n p st (upd_entry p (\<lambda>_. e') (st\<lparr>it_cache := k'\<rparr>))"
proof -
  note G = goodD [OF g] and D = gr [unfolded grabs_def]
  have r': "ready c k'" by (rule ready_grabs [OF G(1) gr])
  have ct: "counted (num_datablocks_per_group (it_sb st)) k'" by (rule counted_grabs [OF G(5,1) gr])
  have hb: "hb k' = hb (it_cache st)" using D by (simp add: keeps_def)
  have "b \<notin> Map.ran (hb (it_cache st))" using D G(1) by (auto simp: ready_def)
  then have disj: "file_blocks (vw k') e' \<inter> Map.ran (hb k') = {}" using fm(2) hb G(8) e by simp
  have good: "good c p (upd_entry p (\<lambda>_. e') (st\<lparr>it_cache := k'\<rparr>))"
    using r' ct disj fm(1) g by (simp add: good_def Let_def)
  have b: "b \<in> alloced k' - alloced (it_cache st)" using D by simp
  have "vw k' x = vw (it_cache st) x" if "x \<notin> meta" "x \<notin> file_blocks (vw k') e'" for x
    using D that fm(2) by (metis insertI1)
  then show ?thesis unfolding grows_def Let_def
    using good D b fm(2) e e' kept by (auto simp: upd_entry_def upd_inode_def)
qed

lemma grows_load:
  assumes "grows c n p st st'" "opset c (it_cache st') = insert b (insert (bitof b) (opset c (it_cache st)))"
    "indirect (entry (ino_of st' p)) = indirect (entry (ino_of st p))"
  shows "load c p st' \<le> load c p st + 2"
proof -
  let ?o = "opset c (it_cache st)"
  have "card (insert b (insert (bitof b) ?o)) \<le> card ?o + 2" using finite_opset by (simp add: card_insert_if)
  then show ?thesis using assms(2,3) by (auto simp: load_def Let_def)
qed

lemma map_direct:
  assumes g: "good c p st" and l: "load c p st + 2 \<le> OP_MAX_NUM_BLOCKS" and sp: "2 \<le> spare p st"
    and cap: "cost + 2 \<le> cap (it_cache st)" and i: "offset div BLOCK_SIZE = i" "i < INODE_NUM_DIRECT"
    and z: "addrs (entry (ino_of st p)) ! i = 0"
  shows "\<exists>b st'. inode_map cache (Some c) p offset st = Inr (b, True, st') \<and> grows c (cost + 2) p st st' \<and> b \<noteq> 0 \<and>
    fblock (vw (it_cache st')) (entry (ino_of st' p)) i = b \<and> b \<in> opset c (it_cache st') \<and>
    load c p st' \<le> load c p st + 2 \<and> spare p st \<le> spare p st' + 1 \<and>
    (\<forall>x\<in>alloced (it_cache st) - meta. vw (it_cache st') x = vw (it_cache st) x)"
proof -
  note G = goodD [OF g]
  let ?e = "entry (ino_of st p)"
  have crd: "card (opset c (it_cache st)) + 2 \<le> 10" using l by (auto simp: load_def Let_def split: if_splits)
  have free: "\<not> area \<subseteq> alloced (it_cache st)" using sp spare_free [of "it_cache st"] by (fastforce simp: spare_def split: if_splits)
  obtain b k' where a: "alloc_near cache (Some c) (subw 32 (inode_no (ino_of st p) mod 2 ^ 32) 1 div (200 div 10)) st = Inr (b, st\<lparr>it_cache := k'\<rparr>)"
    and gr: "grabs c (cost + 2) (it_cache st) b k'"
    using alloc_near_ok [OF G(1) crd G(9) free cap] by blast
  note D = gr [unfolded grabs_def]
  have len: "length (addrs ?e) = 12" using G(7) by (simp add: fmap_ok_def)
  define e' where "e' = ?e\<lparr>addrs := (addrs ?e)[i := b]\<rparr>"
  have ind: "vw k' (indirect ?e) = vw (it_cache st) (indirect ?e)" if "indirect ?e \<noteq> 0"
  proof -
    have "indirect ?e \<in> alloced (it_cache st) - meta" using G(7) that by (auto simp: fmap_ok_def file_blocks_def)
    then show ?thesis using D by auto
  qed
  have f: "fblock (vw k') e' k = (if k = i then b else fblock (vw (it_cache st)) ?e k)" for k
    unfolding e'_def by (rule fblock_direct_upd [OF i(2) len]) (rule ind)
  have b: "b \<noteq> 0" "b \<in> alloced k' - meta" "b \<notin> alloced (it_cache st) - meta" "alloced (it_cache st) - meta \<subseteq> alloced k' - meta"
    using D area_usable [OF G(2), of b] G(4) by auto
  have z': "fblock (vw (it_cache st)) ?e i = 0" "i < 140" using z i(2) by (simp_all add: fblock_def)
  have e'f: "length (addrs e') = 12" "indirect e' = indirect ?e" using len by (simp_all add: e'_def)
  note fm = fmap_ok_add [OF G(7) z'(2,1) b e'f f]
  define st' where "st' = upd_entry p (\<lambda>_. e') (st\<lparr>it_cache := k'\<rparr>)"
  have gw: "grows c (cost + 2) p st st'" unfolding st'_def
    by (rule grows_grab [OF g gr refl _ fm]) (use f z'(1) in \<open>auto simp: e'_def\<close>)
  have "inode_map cache (Some c) p offset st = Inr (b, True, st')"
    using i z a len upd_entry_const [of p "\<lambda>e. e\<lparr>addrs := (addrs e)[i := b]\<rparr>" "st\<lparr>it_cache := k'\<rparr>"]
    by (simp add: inode_map_def Let_def st'_def e'_def)
  moreover have "load c p st' \<le> load c p st + 2"
    by (rule grows_load [OF gw]) (use D in \<open>simp_all add: st'_def e'_def\<close>)
  moreover have "spare p st \<le> spare p st' + 1"
    using card_spare_grab [of b "it_cache st" k'] D by (simp add: spare_def st'_def e'_def)
  moreover have "vw k' x = vw (it_cache st) x" if "x \<in> alloced (it_cache st) - meta" for x using D that by auto
  ultimately show ?thesis using gw b(1) f D by (intro exI [of _ b] exI [of _ st']) (simp add: st'_def)
qed

text \<open>A missing address block is allocated first.\<close>

lemma map_address_block:
  assumes g: "good c p st" and l: "load c p st + 2 \<le> OP_MAX_NUM_BLOCKS" and sp: "2 \<le> spare p st"
    and cap: "cost + 2 \<le> cap (it_cache st)" and z: "indirect (entry (ino_of st p)) = 0"
    and gno: "gno = subw 32 (inode_no (ino_of st p) mod 2 ^ 32) 1 div (NINODES div NGROUPS)"
  shows "\<exists>b k' st1. alloc_near cache (Some c) gno st = Inr (b, st\<lparr>it_cache := k'\<rparr>) \<and>
    st1 = upd_entry p (\<lambda>e. e\<lparr>indirect := b\<rparr>) (st\<lparr>it_cache := k'\<rparr>) \<and> grows c (cost + 2) p st st1 \<and>
    indirect (entry (ino_of st1 p)) \<noteq> 0 \<and>
    (\<forall>i<INODE_MAX_BLOCKS. fblock (vw k') (entry (ino_of st1 p)) i = fblock (vw (it_cache st)) (entry (ino_of st p)) i) \<and>
    load c p st1 \<le> load c p st \<and> spare p st = spare p st1 \<and>
    (\<forall>x\<in>alloced (it_cache st) - meta. vw k' x = vw (it_cache st) x)"
proof -
  note G = goodD [OF g]
  let ?e = "entry (ino_of st p)"
  have crd: "card (opset c (it_cache st)) + 2 \<le> 10" using l by (auto simp: load_def Let_def split: if_splits)
  have free: "\<not> area \<subseteq> alloced (it_cache st)" using sp spare_free [of "it_cache st"] by (fastforce simp: spare_def split: if_splits)
  obtain b k' where a: "alloc_near cache (Some c) gno st = Inr (b, st\<lparr>it_cache := k'\<rparr>)"
    and gr: "grabs c (cost + 2) (it_cache st) b k'"
    using alloc_near_ok [OF G(1) crd G(9) free cap] gno by blast
  note D = gr [unfolded grabs_def]
  define e' where "e' = ?e\<lparr>indirect := b\<rparr>"
  have b: "b \<noteq> 0" "b \<in> alloced k' - meta" "b \<notin> alloced (it_cache st) - meta" "alloced (it_cache st) - meta \<subseteq> alloced k' - meta"
    using D area_usable [OF G(2), of b] G(4) by auto
  have v: "vw k' b = replicate 512 0" using D by simp
  note fm = fmap_ok_add_indirect [of _ _ _ b _ "vw k'", OF G(7) z b v, folded e'_def]
  define st1 where "st1 = upd_entry p (\<lambda>_. e') (st\<lparr>it_cache := k'\<rparr>)"
  have st1: "st1 = upd_entry p (\<lambda>e. e\<lparr>indirect := b\<rparr>) (st\<lparr>it_cache := k'\<rparr>)"
    using upd_entry_const [of p "\<lambda>e. e\<lparr>indirect := b\<rparr>" "st\<lparr>it_cache := k'\<rparr>"] by (simp add: st1_def e'_def)
  have "grows c (cost + 2) p st st1" unfolding st1_def
    by (rule grows_grab [OF g gr refl _ fm(1,2)]) (use fm(3) in \<open>auto simp: e'_def\<close>)
  moreover have "card (opset c k') \<le> card (opset c (it_cache st)) + 2" "b \<in> opset c k'"
    using D finite_opset [of c "it_cache st"] by (simp_all add: card_insert_if)
  then have "load c p st1 \<le> load c p st" using z b(1) by (simp add: load_def Let_def st1_def e'_def)
  moreover have "spare p st = spare p st1"
    using card_spare_grab [of b "it_cache st" k'] D z b(1) by (simp add: spare_def st1_def e'_def)
  moreover have "vw k' x = vw (it_cache st) x" if "x \<in> alloced (it_cache st) - meta" for x using D that by auto
  moreover have "entry (ino_of st1 p) = e'" by (simp add: st1_def)
  ultimately show ?thesis using a st1 fm(3) b(1) by (intro exI [of _ b] exI [of _ k'] exI [of _ st1]) (simp add: e'_def)
qed

text \<open>An empty slot of the address block is filled.\<close>

lemma map_slot:
  assumes g: "good c p st" and l: "load c p st + 2 \<le> OP_MAX_NUM_BLOCKS" and sp: "2 \<le> spare p st"
    and cap: "3 \<le> cap (it_cache st)" and i: "offset div BLOCK_SIZE = i" "INODE_NUM_DIRECT \<le> i" "i < INODE_MAX_BLOCKS"
    and n: "indirect (entry (ino_of st p)) \<noteq> 0" and z: "fblock (vw (it_cache st)) (entry (ino_of st p)) i = 0"
  shows "\<exists>b st'. inode_map cache (Some c) p offset st = Inr (b, True, st') \<and> grows c 3 p st st' \<and> b \<noteq> 0 \<and>
    fblock (vw (it_cache st')) (entry (ino_of st' p)) i = b \<and> b \<in> opset c (it_cache st') \<and>
    load c p st' \<le> load c p st + 2 \<and> spare p st \<le> spare p st' + 1 \<and> entry (ino_of st' p) = entry (ino_of st p) \<and>
    (\<forall>x\<in>alloced (it_cache st) - meta. x \<noteq> indirect (entry (ino_of st' p)) \<longrightarrow> vw (it_cache st') x = vw (it_cache st) x)"
proof -
  note G = goodD [OF g]
  let ?e = "entry (ino_of st p)" and ?k = "it_cache st"
  let ?ind = "indirect ?e" and ?i = "i - 12"
  have ind: "?ind \<in> alloced ?k" "?ind \<notin> meta" "?ind \<notin> Map.ran (hb ?k)" "?ind \<in> file_blocks (vw ?k) ?e"
    using G(7,8) n by (auto simp: fmap_ok_def file_blocks_def)
  have "0 < card (area - alloced ?k)" using sp n by (simp add: spare_def)
  then obtain b0 where b0: "b0 \<in> area" "b0 \<notin> alloced ?k" by (metis Diff_iff all_not_in_conv card.empty less_irrefl)
  note fg = counted_free_group [OF G(5,2) b0]
  let ?t = "(?i div 29 + 1) mod 10"
  obtain t where t: "find_group (bc_used cache ?k) (num_datablocks_per_group (it_sb st)) ?t 2 = Some t"
      "t < 10" "bc_used cache ?k ! t \<noteq> num_datablocks_per_group (it_sb st)"
    using find_group_ok [of ?t 2 "grp b0" "bc_used cache ?k" "num_datablocks_per_group (it_sb st)"] fg by auto
  have crd: "card (opset c ?k) + (if ?ind \<in> opset c ?k then 2 else 3) \<le> 10"
    using l n by (auto simp: load_def Let_def split: if_splits)
  have i12: "?i < 128" using i by simp
  obtain s k1 b k2 k3 k4 d where r: "bc_acquire cache ?ind ?k = Inr (s, k1)" "bc_data cache s k1 = vw ?k ?ind"
      "bc_used cache k1 = bc_used cache ?k" "bc_allocg cache (Some c) t k1 = Inr (b, k2)" "bc_data cache s k2 = vw ?k ?ind"
      "d = overwrite (vw ?k ?ind) (4 * ?i) (le_bytes 4 b)" "bc_sync cache (Some c) s (bc_set_data cache s d k2) = Inr k3"
      "bc_data cache s k3 = d" "bc_release cache s k3 = Inr k4"
    and b: "b \<in> area" "b \<notin> alloced ?k" and k4: "keeps 3 ?k k4" "ready c k4"
      "counted (num_datablocks_per_group (it_sb st)) k4" "alloced k4 = insert b (alloced ?k)"
      "vw k4 ?ind = d" "vw k4 b = replicate 512 0" "\<forall>x. x \<noteq> b \<longrightarrow> x \<noteq> ?ind \<longrightarrow> x \<notin> meta \<longrightarrow> vw k4 x = vw ?k x"
      "opset c k4 = insert ?ind (insert b (insert (bitof b) (opset c ?k)))" "\<forall>e. e \<noteq> c \<longrightarrow> opset e k4 = opset e ?k"
    using add_addr [OF G(1,5) ind(1-3) t(2) G(6) t(3) crd cap i12] by blast
  have b32: "b < 2 ^ 32" "b \<noteq> 0" using area_usable [OF G(2) b(1)] by simp_all
  have len: "length (vw ?k ?ind) = 512" by (rule vw_length [OF G(2)])
  have f: "fblock (vw k4) ?e k = (if k = i then b else fblock (vw ?k) ?e k)" if "k < 140" for k
    using fblock_indirect_upd [of i ?e "vw ?k" b "vw k4" k] i(2,3) n len b32(1) that k4(5) r(6) by simp
  have bs: "b \<in> alloced k4 - meta" "b \<notin> alloced ?k - meta" "alloced ?k - meta \<subseteq> alloced k4 - meta"
    using b k4(4) G(4) by auto
  have la: "length (addrs ?e) = 12" using G(7) by (simp add: fmap_ok_def)
  note fm = fmap_ok_add [OF G(7) i(3) z b32(2) bs la refl f]
  define st' where "st' = st\<lparr>it_cache := k4\<rparr>"
  have zi: "get_addrs (vw ?k ?ind) ! ?i = 0" and bi: "get_addrs d ! ?i = b"
    using z i(2) n f [OF i(3)] k4(5) by (simp_all add: fblock_def)
  have res: "inode_map cache (Some c) p offset st = Inr (b, True, st')"
    using i i12 n r t zi bi b32(1) by (simp add: inode_map_def Let_def call_def callu_def set_data_def st'_def)
  have hb: "hb k4 = hb ?k" using k4(1) by (simp add: keeps_def)
  have "b \<notin> Map.ran (hb ?k)" using b G(1) by (auto simp: ready_def)
  then have "file_blocks (vw k4) ?e \<inter> Map.ran (hb k4) = {}" using fm(2) hb G(8) by simp
  then have good': "good c p st'" using g k4(2,3) fm(1) by (simp add: good_def Let_def st'_def)
  have frame: "vw k4 x = vw ?k x" if "x \<notin> meta" "x \<notin> file_blocks (vw k4) ?e" for x
    using k4(7) that fm(2) ind(4) by (metis insertCI)
  have gw: "grows c 3 p st st'" unfolding grows_def Let_def
    using good' k4(1,4,9) fm(2) f z frame bs by (auto simp: st'_def upd_entry_def upd_inode_def fun_upd_idem)
  have "card (opset c k4) + (if ?ind \<in> opset c ?k then 0 else 2) \<le> card (opset c ?k) + (if ?ind \<in> opset c ?k then 2 else 5)"
    unfolding k4(8) using finite_opset [of c ?k] by (auto simp: card_insert_if)
  then have "load c p st' \<le> load c p st + 2" using n k4(8) by (auto simp: load_def Let_def st'_def split: if_splits)
  moreover have "spare p st \<le> spare p st' + 1" using card_spare_grab [OF b k4(4)] by (simp add: spare_def st'_def)
  moreover have "\<forall>x\<in>alloced ?k - meta. x \<noteq> ?ind \<longrightarrow> vw k4 x = vw ?k x" using k4(7) b(2) by (metis DiffD1 DiffD2)
  ultimately show ?thesis using res gw b32(2) f [OF i(3)] k4(8) by (intro exI [of _ b] exI [of _ st']) (simp add: st'_def)
qed

text \<open>\<open>inode_map\<close> always finds or creates the block of an offset below \<open>INODE_MAX_BYTES\<close>.\<close>

lemma inode_map_ok:
  assumes g: "good c p st" and l: "load c p st + 2 \<le> OP_MAX_NUM_BLOCKS" and sp: "2 \<le> spare p st"
    and cap: "cost + 5 \<le> cap (it_cache st)" and i: "offset div BLOCK_SIZE = i" "i < INODE_MAX_BLOCKS"
  shows "\<exists>b m st'. inode_map cache (Some c) p offset st = Inr (b, m, st') \<and> grows c (cost + 5) p st st' \<and> b \<noteq> 0 \<and>
    fblock (vw (it_cache st')) (entry (ino_of st' p)) i = b \<and>
    (b \<in> opset c (it_cache st') \<and> load c p st' \<le> load c p st + 2 \<or>
     opset c (it_cache st') = opset c (it_cache st) \<and> entry (ino_of st' p) = entry (ino_of st p)) \<and>
    (\<not> m \<longrightarrow> entry (ino_of st' p) = entry (ino_of st p)) \<and> spare p st \<le> spare p st' + 1 \<and>
    (\<forall>x\<in>alloced (it_cache st) - meta. x \<noteq> indirect (entry (ino_of st' p)) \<longrightarrow> vw (it_cache st') x = vw (it_cache st) x)"
proof -
  note G = goodD [OF g]
  let ?e = "entry (ino_of st p)" and ?v = "vw (it_cache st)"
  consider (found) "fblock ?v ?e i \<noteq> 0" | (direct) "fblock ?v ?e i = 0" "i < 12"
    | (slot) "fblock ?v ?e i = 0" "12 \<le> i" "indirect ?e \<noteq> 0" | (both) "12 \<le> i" "indirect ?e = 0"
    by (metis not_less)
  then show ?thesis
  proof cases
    case found
    have "file_blocks ?v ?e \<subseteq> area" using G(7) alloced_area by (auto simp: fmap_ok_def)
    then have rd: "readable st p" using G(8) area_usable [OF G(2)] unfolding readable_def Let_def by blast
    have cap0: "0 < cap (it_cache st)" using cap by simp
    obtain st' where r: "inode_map cache (Some c) p offset st = Inr (fblock ?v ?e i, False, st')" and lk: "looks 1 st st'"
      using inode_map_found [OF G(2) cap0 rd, of offset "fblock ?v ?e i" "Some c"] found i by auto
    note F = looks_fields [OF lk]
    have al: "alloced (it_cache st') = alloced (it_cache st)" using F(8) by (intro alloced_cong) simp
    have st': "st' = upd_entry p (\<lambda>_. entry (ino_of st p)) (st\<lparr>it_cache := it_cache st'\<rparr>)"
      using lk unfolding looks_def upd_entry_same by blast
    have "good c p st'" using g F al by (simp add: good_def Let_def ready_def counted_def)
    moreover have "keeps (cost + 5) (it_cache st) (it_cache st')" using lk keeps_mono by (auto simp: looks_def)
    ultimately have "grows c (cost + 5) p st st'" using F al st' by (simp add: grows_def Let_def)
    then show ?thesis using r found F al by (intro exI [of _ "fblock ?v ?e i"] exI [of _ False] exI [of _ st']) (simp add: spare_def)
  next
    case direct
    have z: "addrs ?e ! i = 0" using direct by (simp add: fblock_def)
    have cap': "cost + 2 \<le> cap (it_cache st)" using cap by simp
    show ?thesis using map_direct [OF g l sp cap' i(1) direct(2) z] grows_mono [of c "cost + 2" p st _ "cost + 5"] by fastforce
  next
    case slot
    have cap': "3 \<le> cap (it_cache st)" using cap by simp
    show ?thesis using map_slot [OF g l sp cap' i(1) slot(2) i(2) slot(3,1)] grows_mono [of c 3 p st _ "cost + 5"] by fastforce
  next
    case both
    let ?gno = "subw 32 (inode_no (ino_of st p) mod 2 ^ 32) 1 div (200 div 10)"
    have cap': "cost + 2 \<le> cap (it_cache st)" using cap by simp
    obtain b k' st1 where a: "alloc_near cache (Some c) ?gno st = Inr (b, st\<lparr>it_cache := k'\<rparr>)"
        "st1 = upd_entry p (\<lambda>e. e\<lparr>indirect := b\<rparr>) (st\<lparr>it_cache := k'\<rparr>)" and gw: "grows c (cost + 2) p st st1"
      and n: "indirect (entry (ino_of st1 p)) \<noteq> 0"
      and fb: "\<forall>i<140. fblock (vw k') (entry (ino_of st1 p)) i = fblock ?v ?e i"
      and ls: "load c p st1 \<le> load c p st" "spare p st = spare p st1" and fr: "\<forall>x\<in>alloced (it_cache st) - meta. vw k' x = ?v x"
      using map_address_block [OF g l sp cap' both(2) refl] by blast
    have k': "it_cache st1 = k'" by (simp add: a(2))
    have z1: "fblock (vw (it_cache st1)) (entry (ino_of st1 p)) i = 0"
    proof -
      have "fblock (vw (it_cache st1)) (entry (ino_of st1 p)) i = fblock ?v ?e i" using fb i(2) k' by simp
      also have "... = 0" using both by (simp add: fblock_def)
      finally show ?thesis .
    qed
    note g1 = grows_good [OF gw]
    have "keeps (cost + 2) (it_cache st) (it_cache st1)" using gw by (simp add: grows_def Let_def)
    then have cap1: "3 \<le> cap (it_cache st1)" using cap by (simp add: keeps_def)
    have l1: "load c p st1 + 2 \<le> 10" and sp1: "2 \<le> spare p st1" using l sp ls by simp_all
    obtain b2 st' where r: "inode_map cache (Some c) p offset st1 = Inr (b2, True, st')" and gw2: "grows c 3 p st1 st'"
      and o: "b2 \<noteq> 0" "fblock (vw (it_cache st')) (entry (ino_of st' p)) i = b2" "b2 \<in> opset c (it_cache st')"
        "load c p st' \<le> load c p st1 + 2" "spare p st1 \<le> spare p st' + 1"
      and fr2: "\<forall>x\<in>alloced (it_cache st1) - meta. x \<noteq> indirect (entry (ino_of st' p)) \<longrightarrow> vw (it_cache st') x = vw (it_cache st1) x"
      using map_slot [OF g1 l1 sp1 cap1 i(1) both(1) i(2) n z1] by blast
    have i12: "\<not> i < 12" and i128: "i - 12 < 128" using i(2) both(1) by simp_all
    have "inode_map cache (Some c) p offset st = Inr (b2, True, st')"
    proof (cases "call (bc_acquire cache (indirect (entry (ino_of st1 p)))) st1")
      case (Inl x)
      then show ?thesis using r n i(1) i12 i128 by (simp add: inode_map_def Let_def)
    next
      case (Inr y)
      obtain s st2 where y: "y = (s, st2)" by (cases y)
      have "get_addrs (bc_data cache s (it_cache st2)) ! (i - 12) = 0"
      proof (rule ccontr)
        assume "get_addrs (bc_data cache s (it_cache st2)) ! (i - 12) \<noteq> 0"
        then show False using r n i(1) i12 i128 Inr y
          by (cases "callu (bc_release cache s) st2") (simp_all add: inode_map_def Let_def)
      qed
      then show ?thesis using r n i(1) i12 i128 Inr y both(2) a(1) a(2) [symmetric]
        by (simp add: inode_map_def Let_def)
    qed
    moreover have "grows c (cost + 5) p st st'" using grows_trans [OF gw gw2] by (simp add: numeral_Bit1 numeral_2_eq_2)
    moreover have "vw (it_cache st') x = ?v x" if "x \<in> alloced (it_cache st) - meta" "x \<noteq> indirect (entry (ino_of st' p))" for x
    proof -
      have "x \<in> alloced (it_cache st1) - meta" using that(1) gw by (auto simp: grows_def Let_def)
      then show ?thesis using fr fr2 that k' by auto
    qed
    moreover have "load c p st' \<le> load c p st + 2" "spare p st \<le> spare p st' + 1" using o ls by simp_all
    ultimately show ?thesis using o by (intro exI [of _ b2] exI [of _ True] exI [of _ st']) simp
  qed
qed

end

end
