(* ===== verification/InodeWrite.thy ===== *)
theory InodeWrite
  imports InodeMap
begin

text \<open>
  Writing through the inode layer, for any cache that satisfies \<open>block_cache\<close>: the loop of
  \<open>inode_write\<close>, \<open>inode_sync\<close>, and \<open>inode_write\<close> itself.
\<close>

lemma upd_entry_cache: "(upd_entry p f st)\<lparr>it_cache := k\<rparr> = upd_entry p f (st\<lparr>it_cache := k\<rparr>)"
  by (cases st) (simp add: upd_entry_def upd_inode_def)

lemma upd_entry_idem: "f (entry (ino_of st p)) = entry (ino_of st p) \<Longrightarrow> upd_entry p f st = st"
  by (cases st) (simp add: upd_entry_def upd_inode_def fun_upd_idem)

section \<open>Entries in their block\<close>

lemma entry_offset_bound: "entry_offset ino + 64 \<le> BLOCK_SIZE"
  using mod_less_divisor [of 8 ino] unfolding entry_offset_def by linarith

text \<open>The place of an entry on disk determines its inode number.\<close>

lemma inode_place_inj:
  assumes "0 < a" "0 < b" "a < 2 ^ 64" "b < 2 ^ 64" "0 < GINODES sb" "(GINODES sb - 1) div INODE_PER_BLOCK < blocks_per_group sb"
    "to_block_no sb a = to_block_no sb b" "entry_offset a = entry_offset b"
  shows "a = b"
proof -
  let ?g = "GINODES sb"
  have q: "x mod ?g div 8 < blocks_per_group sb" for x
  proof -
    have "x mod ?g \<le> ?g - 1" using mod_less_divisor [OF assms(5), of x] by linarith
    then show ?thesis using div_le_mono [of "x mod ?g" "?g - 1" 8] assms(6) by linarith
  qed
  have eq: "blocks_per_group sb * ((a - 1) div ?g) + (a - 1) mod ?g div 8 = blocks_per_group sb * ((b - 1) div ?g) + (b - 1) mod ?g div 8"
    using assms(1-4,7) by (simp add: to_block_no_def subw_small)
  have d: "(a - 1) div ?g = (b - 1) div ?g" "(a - 1) mod ?g div 8 = (b - 1) mod ?g div 8"
    using arg_cong [OF eq, of "\<lambda>x. x div blocks_per_group sb"] arg_cong [OF eq, of "\<lambda>x. x mod blocks_per_group sb"]
      q [of "a - 1"] q [of "b - 1"] assms(5,6) by simp_all
  have m: "a mod 8 = b mod 8" using assms(8) by (simp add: entry_offset_def)
  define s where "s = ?g * ((a - 1) div ?g)"
  have ab: "a = s + (a - 1) mod ?g + 1" "b = s + (b - 1) mod ?g + 1"
    using assms(1) unfolding s_def apply simp
    using assms(2) unfolding s_def d(1) by simp
  have near: "x < y + 8" if "x div 8 = y div 8" for x y :: nat using that by linarith
  have close: "s + x + 1 < s + y + 1 + 8" if "x < y + 8" for x y :: nat using that by simp
  have "a < b + 8" "b < a + 8"
    using close [OF near [OF d(2)]] close [OF near [OF d(2) [symmetric]]] unfolding ab [symmetric] by auto
  moreover have "x = y" if "x \<le> y" "y < x + 8" "x mod 8 = y mod 8" for x y :: nat
    using that mod_eq_dvd_iff_nat [of x y 8] nat_dvd_not_less [of "y - x" 8] by force
  ultimately show ?thesis using m by (metis nat_le_linear)
qed

lemma get_put_entry:
  assumes "length d = BLOCK_SIZE" "entry_fits e"
  shows "get_entry (put_entry d ino e) ino = e"
    "j mod INODE_PER_BLOCK \<noteq> ino mod INODE_PER_BLOCK \<Longrightarrow> get_entry (put_entry d ino e) j = get_entry d j"
proof -
  have l: "length (entry_bytes e) = 64" using assms(2) by (simp add: entry_fits_def)
  note ob = entry_offset_bound [of ino]
  have "slice (put_entry d ino e) (entry_offset ino) 64 = entry_bytes e"
    using slice_overwrite [of "entry_offset ino" "entry_bytes e" d] assms(1) l ob by (simp add: put_entry_def)
  then show "get_entry (put_entry d ino e) ino = e" using assms(2) by (simp add: get_entry_def bytes_entry_bytes)
  assume ne: "j mod 8 \<noteq> ino mod 8"
  have "slice (put_entry d ino e) (entry_offset j) 64 = slice d (entry_offset j) 64" unfolding put_entry_def
    by (rule slice_overwrite_other) (use assms(1) l ob ne in \<open>auto simp: entry_offset_def\<close>)
  then show "get_entry (put_entry d ino e) j = get_entry d j" by (simp add: get_entry_def)
qed

context block_cache
begin

text \<open>Changing the data of one block of the file.\<close>

lemma write_block:
  assumes g: "good c p st" and i: "i < INODE_MAX_BLOCKS" "fblock (vw (it_cache st)) (entry (ino_of st p)) i = b" "b \<noteq> 0"
    and cap: "0 < cap (it_cache st)" and len: "length (f (vw (it_cache st) b)) = BLOCK_SIZE"
    and sp: "b \<in> opset c (it_cache st) \<or> card (opset c (it_cache st)) < OP_MAX_NUM_BLOCKS"
  shows "\<exists>s k1 k2 k3. bc_acquire cache b (it_cache st) = Inr (s, k1) \<and> bc_data cache s k1 = vw (it_cache st) b \<and>
    bc_sync cache (Some c) s (bc_set_data cache s (f (vw (it_cache st) b)) k1) = Inr k2 \<and> bc_release cache s k2 = Inr k3 \<and>
    grows c 1 p st (st\<lparr>it_cache := k3\<rparr>) \<and> vw k3 = (vw (it_cache st))(b := f (vw (it_cache st) b)) \<and>
    opset c k3 = insert b (opset c (it_cache st)) \<and> alloced k3 = alloced (it_cache st)"
proof -
  note G = goodD [OF g]
  let ?e = "entry (ino_of st p)" and ?k = "it_cache st"
  note inj = fmap_ok_inj [OF G(7) i(1), unfolded i(2), OF i(3)]
  have us: "usable b" using inj(2) alloced_area area_usable [OF G(2), of b] by blast
  have nh: "b \<notin> Map.ran (hb ?k)" using inj(1) G(8) by blast
  obtain s k1 k2 k3 where r: "bc_acquire cache b ?k = Inr (s, k1)" "bc_data cache s k1 = vw ?k b"
    "bc_sync cache (Some c) s (bc_set_data cache s (f (vw ?k b)) k1) = Inr k2" "bc_release cache s k2 = Inr k3"
    and k3: "inv k3" "hb k3 = hb ?k" "vw k3 = (vw ?k)(b := f (vw ?k b))" "dirty k3 = dirty ?k"
    "opset c k3 = insert b (opset c ?k)" "\<And>e. e \<noteq> c \<Longrightarrow> opset e k3 = opset e ?k"
    "cap ?k \<le> Suc (cap k3)" "bc_used cache k3 = bc_used cache ?k"
    by (rule change_block [where f = f, OF G(2) us nh cap len G(3) sp]) blast
  have al: "alloced k3 = alloced ?k" using k3(3) inj(2) by (intro alloced_cong) auto
  have fb: "fblock (vw k3) ?e j = fblock (vw ?k) ?e j" for j
    using inj(3) k3(3) by (intro fblock_frame) auto
  then have fbs: "file_blocks (vw k3) ?e = file_blocks (vw ?k) ?e" by (simp add: file_blocks_def)
  have fm: "fmap_ok (vw k3) ?e S = fmap_ok (vw ?k) ?e S" for S by (simp add: fmap_ok_def fb fbs)
  have "good c p (st\<lparr>it_cache := k3\<rparr>)"
    using g k3(1,2,8) al fm fbs by (simp add: good_def Let_def ready_def counted_def)
  moreover have "keeps 1 ?k k3" using k3 by (simp add: keeps_def)
  moreover have "vw k3 x = vw ?k x" if "x \<notin> file_blocks (vw ?k) ?e" for x using that inj(1) k3(3) by auto
  ultimately have "grows c 1 p st (st\<lparr>it_cache := k3\<rparr>)"
    using k3(6) al fb fbs by (simp add: grows_def Let_def upd_entry_same)
  then show ?thesis using r k3(3,5) al by blast
qed

text \<open>One iteration of the loop.\<close>

lemma write_step:
  assumes g: "good c p st" and l: "load c p st + 2 \<le> OP_MAX_NUM_BLOCKS" and sp: "2 \<le> spare p st"
    and cap: "cost + 6 \<le> cap (it_cache st)" and a: "a < fin" "fin \<le> INODE_MAX_BYTES"
    and s: "s = min (fin - a) (BLOCK_SIZE - a mod BLOCK_SIZE)" and src: "length src = fin - a"
    and v: "v = vw (it_cache st)" and e: "e = entry (ino_of st p)"
  shows "\<exists>m st2. write_loop cache (Some c) p a fin src m0 st = write_loop cache (Some c) p (a + s) fin (drop s src) (m0 \<or> m) st2 \<and>
    grows c (cost + 6) p st st2 \<and> load c p st2 \<le> load c p st + 2 \<and> spare p st \<le> spare p st2 + 1 \<and>
    (\<not> m \<longrightarrow> entry (ino_of st2 p) = e) \<and>
    (\<forall>q. a \<le> q \<and> q < a + s \<longrightarrow> fblock (vw (it_cache st2)) (entry (ino_of st2 p)) (q div BLOCK_SIZE) \<noteq> 0 \<and>
       fbyte (vw (it_cache st2)) (entry (ino_of st2 p)) q = src ! (q - a)) \<and>
    (\<forall>q. (q < a \<or> a + s \<le> q) \<and> q div BLOCK_SIZE < INODE_MAX_BLOCKS \<and> fblock v e (q div BLOCK_SIZE) \<noteq> 0 \<longrightarrow>
       fbyte (vw (it_cache st2)) (entry (ino_of st2 p)) q = fbyte v e q)"
proof -
  let ?i = "a div 512" and ?j = "a mod 512"
  have sj: "0 < s" "?j + s \<le> 512" "s \<le> length src" using touched_step(1,3) [OF a(1) s] s src by auto
  have i: "?i < 140"
  proof -
    have "512 * ?i \<le> a" by simp
    then show ?thesis using a by linarith
  qed
  have cap5: "cost + 5 \<le> cap (it_cache st)" using cap by simp
  obtain b m st1 where r: "inode_map cache (Some c) p a st = Inr (b, m, st1)" and g1: "grows c (cost + 5) p st st1" and b: "b \<noteq> 0"
      "fblock (vw (it_cache st1)) (entry (ino_of st1 p)) ?i = b"
    and ld: "b \<in> opset c (it_cache st1) \<and> load c p st1 \<le> load c p st + 2 \<or>
      opset c (it_cache st1) = opset c (it_cache st) \<and> entry (ino_of st1 p) = e"
    and m: "\<not> m \<longrightarrow> entry (ino_of st1 p) = e" and sp1: "spare p st \<le> spare p st1 + 1"
    and fr: "\<forall>x\<in>alloced (it_cache st) - meta. x \<noteq> indirect (entry (ino_of st1 p)) \<longrightarrow> vw (it_cache st1) x = v x"
    using inode_map_ok [OF g l sp cap5 refl i] unfolding e v by blast
  let ?v1 = "vw (it_cache st1)" and ?e1 = "entry (ino_of st1 p)"
  note G1 = goodD [OF grows_good [OF g1]]
  let ?f = "\<lambda>d. overwrite d ?j (take s src)"
  have kp: "keeps (cost + 5) (it_cache st) (it_cache st1)" using g1 by (simp add: grows_def Let_def)
  then have cap1: "0 < cap (it_cache st1)" using cap by (simp add: keeps_def)
  have lv: "length (?v1 b) = 512" by (rule vw_length [OF G1(2)])
  then have lf: "length (?f (?v1 b)) = 512" using sj by simp
  have spc: "b \<in> opset c (it_cache st1) \<or> card (opset c (it_cache st1)) < 10"
  proof -
    have "card (opset c (it_cache st)) < 10" using l by (auto simp: load_def Let_def split: if_splits)
    then show ?thesis using ld by metis
  qed
  obtain q k1 k2 k3 where w: "bc_acquire cache b (it_cache st1) = Inr (q, k1)" "bc_data cache q k1 = ?v1 b"
    "bc_sync cache (Some c) q (bc_set_data cache q (?f (?v1 b)) k1) = Inr k2" "bc_release cache q k2 = Inr k3"
    and g2: "grows c 1 p st1 (st1\<lparr>it_cache := k3\<rparr>)" and v3: "vw k3 = ?v1(b := ?f (?v1 b))"
    and o3: "opset c k3 = insert b (opset c (it_cache st1))" and al3: "alloced k3 = alloced (it_cache st1)"
    using write_block [where f = ?f, OF grows_good [OF g1] i b(2,1) cap1 lf spc] by blast
  let ?st2 = "st1\<lparr>it_cache := k3\<rparr>"
  have run: "write_loop cache (Some c) p a fin src m0 st = write_loop cache (Some c) p (a + s) fin (drop s src) (m0 \<or> m) ?st2"
    using a(1) r w s by (subst write_loop.simps) (simp add: call_def callu_def set_data_def Let_def)
  have fb: "fblock (vw k3) ?e1 k = fblock ?v1 ?e1 k" for k
    using fmap_ok_inj(3) [OF G1(7) i] b v3 by (intro fblock_frame) auto
  have gw: "grows c (cost + 6) p st ?st2" using grows_trans [OF g1 g2] by (simp add: add.commute)
  have l2: "load c p ?st2 \<le> load c p st + 2"
  proof (cases "b \<in> opset c (it_cache st1)")
    case True
    then have "opset c k3 = opset c (it_cache st1)" using o3 by auto
    then have "load c p ?st2 = load c p st1" by (simp add: load_def Let_def)
    moreover have "load c p st1 = load c p st" if "opset c (it_cache st1) = opset c (it_cache st)" "?e1 = entry (ino_of st p)"
      using that by (simp add: load_def Let_def)
    ultimately show ?thesis using ld e by auto
  next
    case False
    then have "card (opset c k3) = Suc (card (opset c (it_cache st1)))" using o3 finite_opset by simp
    moreover have "opset c (it_cache st1) = opset c (it_cache st)" "?e1 = entry (ino_of st p)" using False ld e by blast+
    ultimately show ?thesis using o3 by (simp add: load_def Let_def)
  qed
  have new: "fblock (vw k3) ?e1 (x div 512) \<noteq> 0 \<and> fbyte (vw k3) ?e1 x = src ! (x - a)" if x: "a \<le> x" "x < a + s" for x
  proof -
    obtain d where "x = a + d" using le_Suc_ex [OF x(1)] by blast
    then have d: "x = a + d" "d < s" using x(2) by simp_all
    have "x div 512 = ?i" "x mod 512 = ?j + d" using same_block [of a d] d sj(2) by simp_all
    then show ?thesis using b fb v3 d sj lv by (simp add: fbyte_def nth_overwrite)
  qed
  have old: "fbyte (vw k3) ?e1 x = fbyte v e x"
    if x: "x < a \<or> a + s \<le> x" "x div 512 < 140" "fblock v e (x div 512) \<noteq> 0" for x
  proof -
    let ?y = "fblock v e (x div 512)"
    have y1: "fblock ?v1 ?e1 (x div 512) = ?y" using g1 x(2,3) v e by (simp add: grows_def Let_def)
    have iy: "?y \<noteq> indirect ?e1" "?y = b \<longleftrightarrow> x div 512 = ?i"
      using fmap_ok_inj(3) [OF G1(7) x(2)] fmap_ok_inj(4) [OF G1(7) x(2) _ i] y1 x(3) b(2) by metis+
    have "?y \<in> alloced (it_cache st) - meta" using fmap_ok_inj(2) [OF goodD(7) [OF g] x(2)] x(3) v e by simp
    then have vy: "?v1 ?y = v ?y" using fr iy(1) by blast
    have "(?v1(b := ?f (?v1 b))) ?y ! (x mod 512) = v ?y ! (x mod 512)"
    proof (cases "x div 512 = ?i")
      case True
      have "x mod 512 < ?j \<or> ?j + s \<le> x mod 512"
        using x(1) True div_mult_mod_eq [of x 512] div_mult_mod_eq [of a 512] by linarith
      then show ?thesis using True iy vy lv sj by (auto simp: nth_overwrite)
    qed (use iy vy in auto)
    then show ?thesis using y1 fb v3 by (simp add: fbyte_def)
  qed
  have "spare p st \<le> spare p ?st2 + 1" using sp1 al3 by (simp add: spare_def)
  then show ?thesis using run gw l2 new old m by (intro exI [of _ m] exI [of _ ?st2]) (simp add: e)
qed

lemma write_loop_ok:
  assumes "good c p st" "load c p st + 2 * touched a fin \<le> OP_MAX_NUM_BLOCKS" "Suc (touched a fin) \<le> spare p st"
    "(cost + 6) * touched a fin \<le> cap (it_cache st)" "a \<le> fin" "fin \<le> INODE_MAX_BYTES" "length src = fin - a"
    "v = vw (it_cache st)" "e = entry (ino_of st p)"
  shows "\<exists>m st'. write_loop cache (Some c) p a fin src m0 st = Inr (m, st') \<and>
    grows c ((cost + 6) * touched a fin) p st st' \<and> load c p st' \<le> load c p st + 2 * touched a fin \<and>
    (m0 \<longrightarrow> m) \<and> (\<not> m \<longrightarrow> entry (ino_of st' p) = e) \<and>
    (\<forall>q. a \<le> q \<and> q < fin \<longrightarrow> fblock (vw (it_cache st')) (entry (ino_of st' p)) (q div BLOCK_SIZE) \<noteq> 0 \<and>
       fbyte (vw (it_cache st')) (entry (ino_of st' p)) q = src ! (q - a)) \<and>
    (\<forall>q. (q < a \<or> fin \<le> q) \<and> q div BLOCK_SIZE < INODE_MAX_BLOCKS \<and> fblock v e (q div BLOCK_SIZE) \<noteq> 0 \<longrightarrow>
       fbyte (vw (it_cache st')) (entry (ino_of st' p)) q = fbyte v e q)"
  using assms
proof (induction "fin - a" arbitrary: a src st m0 v e rule: less_induct)
  case less
  show ?case
  proof (cases "a < fin")
    case False
    then have "write_loop cache (Some c) p a fin src m0 st = Inr (m0, st)" by (subst write_loop.simps) simp
    then show ?thesis using False grows_refl [OF less.prems(1)] less.prems by (simp add: touched_def)
  next
    case True
    define s where "s = min (fin - a) (512 - a mod 512)"
    note ts = touched_step [OF True s_def]
    have pre: "load c p st + 2 \<le> 10" "2 \<le> spare p st" "cost + 6 \<le> cap (it_cache st)"
      using less.prems(2-4) ts(4) by simp_all
    obtain m st2 where w: "write_loop cache (Some c) p a fin src m0 st = write_loop cache (Some c) p (a + s) fin (drop s src) (m0 \<or> m) st2"
      and g2: "grows c (cost + 6) p st st2" and l2: "load c p st2 \<le> load c p st + 2" "spare p st \<le> spare p st2 + 1"
      and m: "\<not> m \<longrightarrow> entry (ino_of st2 p) = e"
      and new: "\<forall>q. a \<le> q \<and> q < a + s \<longrightarrow> fblock (vw (it_cache st2)) (entry (ino_of st2 p)) (q div 512) \<noteq> 0 \<and>
         fbyte (vw (it_cache st2)) (entry (ino_of st2 p)) q = src ! (q - a)"
      and old: "\<forall>q. (q < a \<or> a + s \<le> q) \<and> q div 512 < 140 \<and> fblock v e (q div 512) \<noteq> 0 \<longrightarrow>
         fbyte (vw (it_cache st2)) (entry (ino_of st2 p)) q = fbyte v e q"
      using write_step [OF less.prems(1) pre True less.prems(6) s_def less.prems(7-9), of m0] by blast
    let ?v2 = "vw (it_cache st2)" and ?e2 = "entry (ino_of st2 p)"
    have kp: "keeps (cost + 6) (it_cache st) (it_cache st2)" using g2 by (simp add: grows_def Let_def)
    have p2: "load c p st2 + 2 * touched (a + s) fin \<le> 10" "Suc (touched (a + s) fin) \<le> spare p st2"
        "(cost + 6) * touched (a + s) fin \<le> cap (it_cache st2)" "length (drop s src) = fin - (a + s)" "fin - (a + s) < fin - a"
      using less.prems(2-4,7) ts l2 kp True by (simp_all add: keeps_def)
    obtain m' st' where ih: "write_loop cache (Some c) p (a + s) fin (drop s src) (m0 \<or> m) st2 = Inr (m', st')"
      and g': "grows c ((cost + 6) * touched (a + s) fin) p st2 st'" and l': "load c p st' \<le> load c p st2 + 2 * touched (a + s) fin"
      and m': "m0 \<or> m \<longrightarrow> m'" "\<not> m' \<longrightarrow> entry (ino_of st' p) = ?e2"
      and new': "\<forall>q. a + s \<le> q \<and> q < fin \<longrightarrow> fblock (vw (it_cache st')) (entry (ino_of st' p)) (q div 512) \<noteq> 0 \<and>
         fbyte (vw (it_cache st')) (entry (ino_of st' p)) q = drop s src ! (q - (a + s))"
      and old': "\<forall>q. (q < a + s \<or> fin \<le> q) \<and> q div 512 < 140 \<and> fblock ?v2 ?e2 (q div 512) \<noteq> 0 \<longrightarrow>
         fbyte (vw (it_cache st')) (entry (ino_of st' p)) q = fbyte ?v2 ?e2 q"
      using less.hyps [OF p2(5) grows_good [OF g2] p2(1-3) ts(2) less.prems(6) p2(4) refl refl, of "m0 \<or> m"] by blast
    have kept: "fblock (vw (it_cache st')) (entry (ino_of st' p)) i = fblock ?v2 ?e2 i" if "i < 140" "fblock ?v2 ?e2 i \<noteq> 0" for i
      using g' that by (simp add: grows_def Let_def)
    have kept2: "fblock ?v2 ?e2 i = fblock v e i" if "i < 140" "fblock v e i \<noteq> 0" for i
      using g2 that less.prems(8,9) by (simp add: grows_def Let_def)
    have bnd: "q div 512 < 140" if "q < fin" for q using that less.prems(6) by linarith
    have "fblock (vw (it_cache st')) (entry (ino_of st' p)) (q div 512) \<noteq> 0 \<and>
        fbyte (vw (it_cache st')) (entry (ino_of st' p)) q = src ! (q - a)" if q: "a \<le> q" "q < fin" for q
    proof (cases "q < a + s")
      case True
      then show ?thesis using new old' kept [OF bnd [OF q(2)]] q bnd [OF q(2)] by simp
    next
      case False
      then have "s + (q - (a + s)) = q - a" using q by simp
      then show ?thesis using False new' q less.prems(7) ts(2) by (simp add: nth_drop)
    qed
    moreover have "fbyte (vw (it_cache st')) (entry (ino_of st' p)) q = fbyte v e q"
      if q: "q < a \<or> fin \<le> q" "q div 512 < 140" "fblock v e (q div 512) \<noteq> 0" for q
    proof -
      have "q < a \<or> a + s \<le> q" "q < a + s \<or> fin \<le> q" using q(1) ts(2) by auto
      then show ?thesis using old old' kept2 [OF q(2,3)] q(2,3) by simp
    qed
    moreover have "grows c ((cost + 6) * touched a fin) p st st'" using grows_trans [OF g2 g'] ts(4) by simp
    moreover have "load c p st' \<le> load c p st + 2 * touched a fin" using l' l2 ts(4) by simp
    ultimately show ?thesis using w ih m m' by (intro exI [of _ m'] exI [of _ st']) auto
  qed
qed

section \<open>Writing back the inode\<close>

text \<open>The block of the inode's entry belongs to the file system, not to the file.\<close>

definition inode_home :: "nat \<Rightarrow> 'c itree \<Rightarrow> nat" where
  "inode_home p st = to_block_no (it_sb st) (inode_no (ino_of st p))"

definition homed :: "nat \<Rightarrow> 'c itree \<Rightarrow> bool" where
  "homed p st \<longleftrightarrow> (let b = inode_home p st; k = it_cache st in
     b \<in> alloced k \<and> b \<notin> meta \<and> b \<notin> Map.ran (hb k) \<and> b \<notin> file_blocks (vw k) (entry (ino_of st p)) \<and> ivalid (ino_of st p))"

lemma homed_grows:
  assumes "homed p st" "grows c n p st st'"
  shows "homed p st'" "inode_home p st' = inode_home p st"
proof -
  note D = assms(2) [unfolded grows_def Let_def keeps_def]
  have st': "st' = upd_entry p (\<lambda>_. entry (ino_of st' p)) (st\<lparr>it_cache := it_cache st'\<rparr>)" using D by blast
  have f: "it_sb st' = it_sb st" "inode_no (ino_of st' p) = inode_no (ino_of st p)" "ivalid (ino_of st' p) = ivalid (ino_of st p)"
    by (subst st', simp)+
  then show h: "inode_home p st' = inode_home p st" by (simp add: inode_home_def)
  have "inode_home p st \<notin> file_blocks (vw (it_cache st')) (entry (ino_of st' p))"
    using assms(1) D by (auto simp: homed_def Let_def)
  moreover have "inode_home p st \<in> alloced (it_cache st')" using assms(1) D by (auto simp: homed_def Let_def)
  ultimately show "homed p st'" using assms(1) D f h by (simp add: homed_def Let_def)
qed

lemma inode_sync_ok:
  assumes g: "good c p st" and h: "homed p st" and cap: "0 < cap (it_cache st)"
    and sp: "card (opset c (it_cache st)) < OP_MAX_NUM_BLOCKS" and b: "b = inode_home p st"
    and d: "d = put_entry (vw (it_cache st) b) (inode_no (ino_of st p)) (entry (ino_of st p))"
    and fits: "length (addrs (entry (ino_of st p))) = INODE_NUM_DIRECT"
  shows "\<exists>k'. inode_sync cache (Some c) p True st = Inr (st\<lparr>it_cache := k'\<rparr>) \<and> keeps 1 (it_cache st) k' \<and>
    vw k' = (vw (it_cache st))(b := d) \<and> opset c k' = insert b (opset c (it_cache st)) \<and>
    (\<forall>e. e \<noteq> c \<longrightarrow> opset e k' = opset e (it_cache st)) \<and> alloced k' = alloced (it_cache st) \<and>
    good c p (st\<lparr>it_cache := k'\<rparr>)"
proof -
  note G = goodD [OF g] and H = h [unfolded homed_def Let_def, folded b]
  let ?e = "entry (ino_of st p)" and ?k = "it_cache st"
  let ?f = "\<lambda>d. put_entry d (inode_no (ino_of st p)) ?e"
  have us: "usable b" using H alloced_area area_usable [OF G(2), of b] by blast
  have nh: "b \<notin> Map.ran (hb ?k)" using H by blast
  have len: "length (?f (vw ?k b)) = 512"
  proof -
    have "64 * (inode_no (ino_of st p) mod 8) + 64 \<le> 512"
      using mod_less_divisor [of 8 "inode_no (ino_of st p)"] by linarith
    then show ?thesis using vw_length [OF G(2), of b] fits by (simp add: put_entry_def entry_offset_def)
  qed
  have sp': "b \<in> opset c ?k \<or> card (opset c ?k) < 10" using sp by simp
  obtain s k1 k2 k3 where r: "bc_acquire cache b ?k = Inr (s, k1)" "bc_data cache s k1 = vw ?k b"
    "bc_sync cache (Some c) s (bc_set_data cache s (?f (vw ?k b)) k1) = Inr k2" "bc_release cache s k2 = Inr k3"
    and k3: "inv k3" "hb k3 = hb ?k" "vw k3 = (vw ?k)(b := ?f (vw ?k b))" "dirty k3 = dirty ?k"
    "opset c k3 = insert b (opset c ?k)" "\<And>e. e \<noteq> c \<Longrightarrow> opset e k3 = opset e ?k"
    "cap ?k \<le> Suc (cap k3)" "bc_used cache k3 = bc_used cache ?k"
    by (rule change_block [where f = ?f, OF G(2) us nh cap len G(3) sp']) blast
  have al: "alloced k3 = alloced ?k" using k3(3) H by (intro alloced_cong) auto
  have fr: "vw k3 x = vw ?k x" if "x \<in> file_blocks (vw ?k) ?e" for x using that H k3(3) by auto
  note F = file_blocks_frame(1,2) [of "vw ?k" ?e "vw k3", OF fr]
  have fm: "fmap_ok (vw k3) ?e S = fmap_ok (vw ?k) ?e S" for S by (simp add: fmap_ok_def F)
  have "good c p (st\<lparr>it_cache := k3\<rparr>)"
    using g k3(1,2,8) al fm F(1) by (simp add: good_def Let_def ready_def counted_def)
  moreover have "inode_sync cache (Some c) p True st = Inr (st\<lparr>it_cache := k3\<rparr>)"
    using r H b by (simp add: inode_sync_def inode_home_def Let_def call_def callu_def set_data_def)
  moreover have "keeps 1 ?k k3" using k3 by (simp add: keeps_def)
  ultimately show ?thesis using k3(3,5,6) al d by blast
qed

section \<open>inode_write\<close>

lemma grows_fits:
  assumes g: "grows c n p st st'" and f: "entry_fits (entry (ino_of st p))"
  shows "entry_fits (entry (ino_of st' p))"
proof -
  let ?e = "entry (ino_of st p)" and ?e' = "entry (ino_of st' p)"
  note G = goodD [OF grows_good [OF g]]
  have e': "?e' = ?e\<lparr>addrs := addrs ?e', indirect := indirect ?e'\<rparr>" using g by (simp add: grows_def Let_def)
  have l: "length (addrs ?e') = 12" and sub: "file_blocks (vw (it_cache st')) ?e' \<subseteq> area"
    using G(7) alloced_area by (auto simp: fmap_ok_def)
  have lt: "x < 2 ^ 32" if "x = 0 \<or> x \<in> file_blocks (vw (it_cache st')) ?e'" for x
    using that sub area_usable [OF G(2)] by fastforce
  have "\<forall>a\<in>set (addrs ?e'). a < 2 ^ 32"
  proof
    fix a assume "a \<in> set (addrs ?e')"
    then obtain i where i: "i < 12" "a = addrs ?e' ! i" using l by (metis in_set_conv_nth)
    then have "a = fblock (vw (it_cache st')) ?e' i" by (simp add: fblock_def)
    then have "a = 0 \<or> a \<in> file_blocks (vw (it_cache st')) ?e'" using i(1) by (auto simp: file_blocks_def)
    then show "a < 2 ^ 32" by (rule lt)
  qed
  moreover have "indirect ?e' < 2 ^ 32" by (rule lt) (auto simp: file_blocks_def)
  moreover have "ity ?e' = ity ?e" "major ?e' = major ?e" "minor ?e' = minor ?e" "num_links ?e' = num_links ?e" "num_bytes ?e' = num_bytes ?e"
    by (subst e', simp)+
  ultimately show ?thesis using f l by (simp add: entry_fits_def)
qed

text \<open>The file after a write of \<open>src\<close> at \<open>offset\<close>: its bytes, its entry on disk, and what is left alone.\<close>

definition write_post :: "nat \<Rightarrow> nat \<Rightarrow> nat \<Rightarrow> bytes \<Rightarrow> 'c itree \<Rightarrow> 'c itree \<Rightarrow> bool" where
  "write_post c p offset src st st' \<longleftrightarrow>
     (let k = it_cache st; k' = it_cache st'; e = entry (ino_of st p); e' = entry (ino_of st' p);
          v = vw k; v' = vw k'; home = inode_home p st; ino = inode_no (ino_of st p); fin = offset + length src in
      good c p st' \<and> homed p st' \<and> hb k' = hb k \<and> dirty k' = dirty k \<and> cap k \<le> cap k' + Suc ((cost + 6) * touched offset fin) \<and>
      st' = upd_entry p (\<lambda>_. e') (st\<lparr>it_cache := k'\<rparr>) \<and> entry_fits e' \<and>
      e' = e\<lparr>num_bytes := max (num_bytes e) fin, addrs := addrs e', indirect := indirect e'\<rparr> \<and>
      file_ok v' e' (alloced k' - meta) \<and>
      (\<forall>q<num_bytes e'. fbyte v' e' q = (if offset \<le> q \<and> q < fin then src ! (q - offset) else fbyte v e q)) \<and>
      get_entry (v' home) ino = e' \<and>
      (\<forall>j. j mod INODE_PER_BLOCK \<noteq> ino mod INODE_PER_BLOCK \<longrightarrow> get_entry (v' home) j = get_entry (v home) j) \<and>
      alloced k \<subseteq> alloced k' \<and> file_blocks v' e' \<subseteq> file_blocks v e \<union> (alloced k' - alloced k) \<and>
      (\<forall>x. x \<notin> meta \<longrightarrow> x \<notin> file_blocks v' e' \<longrightarrow> x \<noteq> home \<longrightarrow> v' x = v x) \<and>
      (\<forall>d. d \<noteq> c \<longrightarrow> opset d k' = opset d k))"

text \<open>\<open>num_bytes\<close> plays no part in the block map.\<close>

lemma num_bytes_upd [simp]:
  "fblock v (e\<lparr>num_bytes := n\<rparr>) = fblock v e" "file_blocks v (e\<lparr>num_bytes := n\<rparr>) = file_blocks v e"
  "fmap_ok v (e\<lparr>num_bytes := n\<rparr>) S = fmap_ok v e S" "fbyte v (e\<lparr>num_bytes := n\<rparr>) = fbyte v e"
proof -
  show f: "fblock v (e\<lparr>num_bytes := n\<rparr>) = fblock v e" by (rule ext) (simp add: fblock_def)
  then show b: "file_blocks v (e\<lparr>num_bytes := n\<rparr>) = file_blocks v e" by (simp add: file_blocks_def)
  show "fmap_ok v (e\<lparr>num_bytes := n\<rparr>) S = fmap_ok v e S" by (simp add: fmap_ok_def f b)
  show "fbyte v (e\<lparr>num_bytes := n\<rparr>) = fbyte v e" by (rule ext) (simp add: fbyte_def f)
qed

lemma good_num_bytes: "good c p (upd_entry p (\<lambda>e. e\<lparr>num_bytes := n\<rparr>) st) = good c p st"
  by (simp add: good_def Let_def)

lemma homed_num_bytes: "homed p (upd_entry p (\<lambda>e. e\<lparr>num_bytes := n\<rparr>) st) = homed p st"
  by (simp add: homed_def Let_def inode_home_def)

text \<open>The file's own state before the write.\<close>

definition open_file :: "nat \<Rightarrow> 'c itree \<Rightarrow> bool" where
  "open_file p st \<longleftrightarrow> (let e = entry (ino_of st p); k = it_cache st in
     homed p st \<and> entry_fits e \<and> file_ok (vw k) e (alloced k - meta) \<and>
     get_entry (vw k (inode_home p st)) (inode_no (ino_of st p)) = e)"

lemma file_ok_extend:
  assumes ok: "file_ok v e S" and fm: "fmap_ok v1 e1 T" and n: "num_bytes e1 = max (num_bytes e) fin" and off: "a \<le> num_bytes e" "fin \<le> INODE_MAX_BYTES"
    and kept: "\<And>i. i < INODE_MAX_BLOCKS \<Longrightarrow> fblock v e i \<noteq> 0 \<Longrightarrow> fblock v1 e1 i = fblock v e i"
    and new: "\<And>q. a \<le> q \<Longrightarrow> q < fin \<Longrightarrow> fblock v1 e1 (q div BLOCK_SIZE) \<noteq> 0"
  shows "file_ok v1 e1 T"
proof -
  have nb: "num_bytes e \<le> 71680" using ok by (simp add: file_ok_def)
  have "fblock v1 e1 i \<noteq> 0" if i: "512 * i < num_bytes e1" for i
  proof (cases "512 * i < num_bytes e")
    case True
    then have "fblock v e i \<noteq> 0" "i < 140" using ok nb by (simp_all add: file_ok_def)
    then show ?thesis using kept by simp
  next
    case False
    then have "a \<le> 512 * i" "512 * i < fin" using off i n by auto
    then show ?thesis using new [of "512 * i"] by simp
  qed
  then show ?thesis using fm nb n off(2) by (simp add: file_ok_def)
qed

lemma inode_write_ok:
  assumes g: "good c p st" and o: "open_file p st" and e: "e = entry (ino_of st p)" "ity e \<noteq> INODE_DEVICE"
    and off: "offset \<le> num_bytes e" "fin = offset + length src" "fin \<le> INODE_MAX_BYTES"
    and l: "load c p st + 2 * touched offset fin < OP_MAX_NUM_BLOCKS" and sp: "Suc (touched offset fin) \<le> spare p st"
    and cap: "(cost + 6) * touched offset fin < cap (it_cache st)"
  shows "\<exists>st'. inode_write cache con (Some c) p src offset (length src) st = Inr (length src, st') \<and> write_post c p offset src st st'"
proof -
  note O = o [unfolded open_file_def Let_def, folded e(1)]
  define v where "v = vw (it_cache st)"
  have l': "load c p st + 2 * touched offset fin \<le> 10" and cap': "(cost + 6) * touched offset fin \<le> cap (it_cache st)"
    and ofin: "offset \<le> fin" "length src = fin - offset" using l cap off(2) by simp_all
  obtain m st1 where w: "write_loop cache (Some c) p offset fin src False st = Inr (m, st1)"
    and g1: "grows c ((cost + 6) * touched offset fin) p st st1" and l1: "load c p st1 \<le> load c p st + 2 * touched offset fin"
    and m: "\<not> m \<longrightarrow> entry (ino_of st1 p) = e"
    and new: "\<forall>q. offset \<le> q \<and> q < fin \<longrightarrow> fblock (vw (it_cache st1)) (entry (ino_of st1 p)) (q div 512) \<noteq> 0 \<and>
       fbyte (vw (it_cache st1)) (entry (ino_of st1 p)) q = src ! (q - offset)"
    and old: "\<forall>q. (q < offset \<or> fin \<le> q) \<and> q div 512 < 140 \<and> fblock v e (q div 512) \<noteq> 0 \<longrightarrow>
       fbyte (vw (it_cache st1)) (entry (ino_of st1 p)) q = fbyte v e q"
    using write_loop_ok [OF g l' sp cap' ofin(1) off(3) ofin(2) v_def e(1), of False] by blast
  note D = g1 [unfolded grows_def Let_def, folded e(1) v_def]
  let ?v1 = "vw (it_cache st1)" and ?e1 = "entry (ino_of st1 p)"
  have nb1: "num_bytes ?e1 = num_bytes e"
  proof -
    have "?e1 = e\<lparr>addrs := addrs ?e1, indirect := indirect ?e1\<rparr>" using D by blast
    then show ?thesis by (metis InodeEntry.select_convs(5) InodeEntry.surjective InodeEntry.update_convs(6,7))
  qed
  define n where "n = max (num_bytes e) fin"
  define e2 where "e2 = ?e1\<lparr>num_bytes := n\<rparr>"
  define st2 where "st2 = upd_entry p (\<lambda>e. e\<lparr>num_bytes := n\<rparr>) st1"
  have fits1: "entry_fits ?e1" using grows_fits [OF g1] O e(1) by simp
  have e2: "entry (ino_of st2 p) = e2" "entry_fits e2" "num_bytes e2 = max (num_bytes e) fin"
    using fits1 nb1 O off(3) by (simp_all add: st2_def e2_def n_def entry_fits_def)
  have small: "fin mod 2 ^ 32 = fin" using off(3) by simp
  have st2: "(if fin > num_bytes ?e1 then upd_entry p (\<lambda>e. e\<lparr>num_bytes := fin mod 2 ^ 32\<rparr>) st1 else st1) = st2"
    unfolding st2_def small using nb1 by (auto simp: n_def upd_entry_idem max_def)
  have good2: "good c p st2" "homed p st2" "inode_home p st2 = inode_home p st"
    using grows_good [OF g1] homed_grows [OF _ g1] O by (simp_all add: st2_def good_num_bytes homed_num_bytes inode_home_def)
  have ok2: "file_ok ?v1 e2 (alloced (it_cache st1) - meta)"
    by (rule file_ok_extend [of v e "alloced (it_cache st) - meta" _ _ _ fin offset])
      (use O D goodD(7) [OF grows_good [OF g1]] new off e2(3) in \<open>simp_all add: v_def e2_def\<close>)
  have bytes2: "fbyte ?v1 e2 q = (if offset \<le> q \<and> q < fin then src ! (q - offset) else fbyte v e q)" if q: "q < num_bytes e2" for q
  proof (cases "offset \<le> q \<and> q < fin")
    case True
    then show ?thesis using new by (simp add: e2_def)
  next
    case False
    then have qn: "q < num_bytes e" using q e2(3) off(1) by auto
    then have k: "512 * (q div 512) < num_bytes e" by (meson le_less_trans times_div_less_eq_dividend)
    have "num_bytes e \<le> 71680" using O by (simp add: file_ok_def)
    then have "q div 512 < 140" using qn by linarith
    moreover have "fblock v e (q div 512) \<noteq> 0" using O k by (simp add: file_ok_def v_def)
    ultimately show ?thesis using False old by (auto simp: e2_def)
  qed
  let ?h = "inode_home p st" and ?ino = "inode_no (ino_of st p)"
  have H2: "?h \<notin> file_blocks ?v1 e2" "?h \<notin> meta"
    using good2 by (simp_all add: homed_def Let_def st2_def e2_def)
  have vh: "?v1 ?h = v ?h" using D H2 by (simp add: e2_def)
  have ino2: "inode_no (ino_of st2 p) = ?ino"
  proof -
    have "st1 = upd_entry p (\<lambda>_. ?e1) (st\<lparr>it_cache := it_cache st1\<rparr>)" using D by blast
    then have "inode_no (ino_of st1 p) = ?ino" by (metis upd_entry_fields(4) itree.select_convs(4) itree.surjective itree.update_convs(8))
    then show ?thesis by (simp add: st2_def)
  qed
  have lv: "length (v ?h) = 512" using vw_length [OF goodD(2) [OF g]] by (simp add: v_def)
  have fin64: "addw 64 offset (length src) = fin" using off by (simp add: addw_small)
  have run0: "inode_write cache con (Some c) p src offset (length src) st =
      bnd (if m \<or> fin > num_bytes ?e1 then inode_sync cache (Some c) p True st2 else Inr st2) (\<lambda>st. Inr (length src, st))"
    unfolding inode_write_def Let_def fin64 e(1) [symmetric] 
    using e(2) off(1,3) ofin(1) w st2 by (cases "fin > num_bytes ?e1") simp_all
  have put: "get_entry (put_entry (v ?h) ?ino e2) ?ino = e2"
      "\<forall>j. j mod 8 \<noteq> ?ino mod 8 \<longrightarrow> get_entry (put_entry (v ?h) ?ino e2) j = get_entry (v ?h) j"
    using get_put_entry [OF lv e2(2)] by blast+
  have "\<exists>k' d. inode_write cache con (Some c) p src offset (length src) st = Inr (length src, st2\<lparr>it_cache := k'\<rparr>) \<and>
      keeps 1 (it_cache st1) k' \<and> vw k' = ?v1(?h := d) \<and> get_entry d ?ino = e2 \<and>
      (\<forall>j. j mod 8 \<noteq> ?ino mod 8 \<longrightarrow> get_entry d j = get_entry (v ?h) j) \<and> alloced k' = alloced (it_cache st1) \<and>
      (\<forall>d. d \<noteq> c \<longrightarrow> opset d k' = opset d (it_cache st1)) \<and> good c p (st2\<lparr>it_cache := k'\<rparr>)"
  proof (cases "m \<or> fin > num_bytes ?e1")
    case True
    have "keeps ((cost + 6) * touched offset fin) (it_cache st) (it_cache st1)" using D by blast
    then have cp: "0 < cap (it_cache st2)" using cap by (simp add: keeps_def st2_def)
    have card: "card (opset c (it_cache st2)) < 10"
      using l l1 by (auto simp: load_def Let_def st2_def split: if_splits)
    have len: "length (addrs (entry (ino_of st2 p))) = 12" using e2 by (simp add: entry_fits_def)
    obtain k' where "inode_sync cache (Some c) p True st2 = Inr (st2\<lparr>it_cache := k'\<rparr>)" "keeps 1 (it_cache st1) k'"
      "vw k' = ?v1(?h := put_entry (v ?h) ?ino e2)" "\<forall>e. e \<noteq> c \<longrightarrow> opset e k' = opset e (it_cache st1)"
      "alloced k' = alloced (it_cache st1)" "good c p (st2\<lparr>it_cache := k'\<rparr>)"
      using inode_sync_ok [OF good2(1,2) cp card refl refl len] good2(3) e2(1) ino2 vh by (auto simp: st2_def)
    then show ?thesis using True put run0
      by (intro exI [of _ k'] exI [of _ "put_entry (v ?h) ?ino e2"]) simp
  next
    case False
    then have "e2 = e" using m nb1 by (simp add: e2_def n_def)
    then have "get_entry (?v1 ?h) ?ino = e2" using O vh by (simp add: v_def)
    moreover have "st2 = st1" using st2 False by simp
    moreover have "inv (it_cache st1)" using goodD(2) [OF grows_good [OF g1]] .
    ultimately show ?thesis using False run0 good2(1) vh
      by (intro exI [of _ "it_cache st1"] exI [of _ "?v1 ?h"]) (simp add: keeps_def fun_upd_idem)
  qed
  then obtain k' d where run: "inode_write cache con (Some c) p src offset (length src) st = Inr (length src, st2\<lparr>it_cache := k'\<rparr>)"
    and k': "keeps 1 (it_cache st1) k'" "vw k' = ?v1(?h := d)" "get_entry d ?ino = e2"
      "\<forall>j. j mod 8 \<noteq> ?ino mod 8 \<longrightarrow> get_entry d j = get_entry (v ?h) j" "alloced k' = alloced (it_cache st1)"
      "\<forall>d. d \<noteq> c \<longrightarrow> opset d k' = opset d (it_cache st1)" "good c p (st2\<lparr>it_cache := k'\<rparr>)" by blast
  define st' where "st' = st2\<lparr>it_cache := k'\<rparr>"
  have f': "it_cache st' = k'" "entry (ino_of st' p) = e2" using e2(1) by (simp_all add: st'_def)
  have fr: "vw k' x = ?v1 x" if "x \<in> file_blocks ?v1 e2" for x using that k'(2) H2(1) by auto
  note F = file_blocks_frame [of ?v1 e2 "vw k'", OF fr]
  have fm: "fmap_ok (vw k') e2 S = fmap_ok ?v1 e2 S" for S by (simp add: fmap_ok_def F(1,2))
  have hbs: "hb k' = hb (it_cache st)" "dirty k' = dirty (it_cache st)" "hb k' = hb (it_cache st1)"
      "cap (it_cache st) \<le> cap k' + Suc ((cost + 6) * touched offset fin)"
    using k'(1) D by (simp_all add: keeps_def)
  have "file_ok (vw k') e2 (alloced k' - meta)" using ok2 k'(5) by (simp add: file_ok_def fm F(2))
  moreover have "fbyte (vw k') e2 q = (if offset \<le> q \<and> q < fin then src ! (q - offset) else fbyte v e q)" if q: "q < num_bytes e2" for q
  proof -
    have "512 * (q div 512) < num_bytes e2" using q by (meson le_less_trans times_div_less_eq_dividend)
    then have "fblock ?v1 e2 (q div 512) \<noteq> 0" "q div 512 < 140" using ok2 by (simp_all add: file_ok_def)
    then show ?thesis using F(3) bytes2 [OF q] by simp
  qed
  moreover have "homed p st'" using good2 hbs(3) k'(5) F(1) f' by (simp add: homed_def Let_def st'_def st2_def inode_home_def e2_def)
  moreover have "e2 = e\<lparr>num_bytes := max (num_bytes e) fin, addrs := addrs e2, indirect := indirect e2\<rparr>"
  proof -
    have "?e1 = e\<lparr>addrs := addrs ?e1, indirect := indirect ?e1\<rparr>" using D by blast
    then show ?thesis unfolding e2_def n_def by (metis InodeEntry.surjective InodeEntry.update_convs(5,6,7) InodeEntry.select_convs(6,7))
  qed
  moreover have "file_blocks (vw k') e2 \<subseteq> file_blocks v e \<union> (alloced k' - alloced (it_cache st))" "alloced (it_cache st) \<subseteq> alloced k'"
    using D k'(5) F(1) by (simp_all add: e2_def)
  moreover have "vw k' x = v x" if "x \<notin> meta" "x \<notin> file_blocks (vw k') e2" "x \<noteq> ?h" for x
  proof -
    have "x \<notin> file_blocks ?v1 e2" using that(2) by (simp only: F(1) not_False_eq_True)
    then show ?thesis using D that(1,3) k'(2) by (simp add: e2_def)
  qed
  moreover have "opset d k' = opset d (it_cache st)" if "d \<noteq> c" for d using D that k'(6) by simp
  moreover have "st' = upd_entry p (\<lambda>_. e2) (st\<lparr>it_cache := k'\<rparr>)"
  proof -
    have "st1 = upd_entry p (\<lambda>_. ?e1) (st\<lparr>it_cache := it_cache st1\<rparr>)" using D by blast
    then show ?thesis unfolding st'_def st2_def
      by (metis upd_entry_const upd_entry_cache upd_entry_twice e2_def)
  qed
  ultimately have "write_post c p offset src st st'"
    unfolding write_post_def Let_def f' off(2) [symmetric] e(1) [symmetric] v_def [symmetric]
    using k' hbs(1,2,4) e2(2) by (simp add: st'_def)
  then show ?thesis using run by (auto simp: st'_def)
qed

end

end
