(* ===== verification/Sample.thy ===== *)
theory Sample
  imports InodeWrite
begin

text \<open>
  A concrete file system: ten groups of eight blocks (three inode blocks, a bitmap, four data blocks, the first of
  them in use), one regular empty file (inode 1), a directory (inode 2) with one entry, in block 70, that names the
  file \<open>a\<close>, an empty cache and one running operation.  The instances of the
  properties evaluate on it.
\<close>

definition sample_sb :: SuperBlock where
  "sample_sb = \<lparr>num_blocks = 146, num_log_blocks = 64, num_groups = 10, num_inodes = 200, blocks_per_group = 8,
     sb_log_start = 2, bg_start = 66, num_inodeblocks_per_group = 3, num_bitmap_per_group = 1,
     num_datablocks_per_group = 4, bitmap_start_per_group = 3, data_start_per_group = 4\<rparr>"

definition sample_entry :: InodeEntry where
  "sample_entry = zero_entry\<lparr>ity := INODE_REGULAR, num_links := 1\<rparr>"

definition sample_direntry :: InodeEntry where
  "sample_direntry = zero_entry\<lparr>ity := INODE_DIRECTORY, num_links := 1, num_bytes := 16, addrs := 70 # replicate 11 0\<rparr>"

definition sample_name :: DirEntry where
  "sample_name = \<lparr>de_inode_no = 1, de_name = 97 # replicate 13 0\<rparr>"

definition sample_disk :: disk where
  "sample_disk b =
     (if b = 66 then put_entry (put_entry (replicate BLOCK_SIZE 0) 1 sample_entry) 2 sample_direntry
      else if 66 \<le> b \<and> b < 146 \<and> b mod 8 = 5 then 31 # replicate 511 0
      else if b = 70 then dirent_bytes sample_name @ replicate 496 0
      else replicate BLOCK_SIZE 0)"

definition sample_lock :: SpinLock where
  "sample_lock = \<lparr>locked = False, lcpu = None, lname = ''sample''\<rparr>"

definition sample_block :: Block where
  "sample_block = \<lparr>block_no = 0, acquired = False, pinned = False,
     block_lock = \<lparr>slock = sample_lock, slocked = False, wakeups = 0\<rparr>, valid = False, data = replicate BLOCK_SIZE 0\<rparr>"

definition sample_cache :: bcache where
  "sample_cache = \<lparr>sblock = sample_sb, dev = \<lparr>disk = sample_disk, wtrace = []\<rparr>, cache_lock = sample_lock,
     slots = (\<lambda>_. sample_block), lru = [], nslots = 0, room = 1000,
     header = \<lparr>hdr_num = 0, hdr_nos = replicate LOG_MAX_SIZE 0\<rparr>, last_allocated_ts = 1, last_persisted_ts = 0,
     log_start = 3, log_size = 63, log_used = 10, op_count = 1, used_block = replicate NGROUPS 1,
     ctxs = (\<lambda>_. \<lparr>ctx_lock = sample_lock, ts = 1, ctx_num = 0, ctx_nos = replicate OP_MAX_NUM_BLOCKS 0\<rparr>), woken = []\<rparr>"

definition sample_tree :: "bcache itree" where
  "sample_tree = \<lparr>it_sb = sample_sb, it_lock = sample_lock, it_head = [1, 0],
     it_nodes = (\<lambda>p. \<lparr>ilock = sample_lock, irc = \<lparr>rccount = 1\<rparr>, inode_no = (if p = 1 then 2 else 1), ivalid = True,
       entry = (if p = 1 then sample_direntry else sample_entry)\<rparr>),
     it_next = 2, it_free = [], it_room = 100, it_cache = sample_cache\<rparr>"

lemma sample_entry_fits: "entry_fits sample_entry" "entry_fits sample_direntry"
  by (simp_all add: sample_entry_def sample_direntry_def zero_entry_def entry_fits_def)

lemma sample_disk_length: "length (sample_disk b) = BLOCK_SIZE"
  using sample_entry_fits by (simp add: sample_disk_def sample_name_def put_entry_def entry_offset_def entry_fits_def)

lemma sample_layout: "layout_ok sample_sb" "sb_ok sample_sb"
  by (simp_all add: layout_ok_def sb_ok_def sample_sb_def)

lemma sample_view: "view sample_cache = sample_disk"
  by (rule ext) (simp add: view_def cached_def sample_cache_def)

lemma sample_held: "held sample_cache = {}" "hblock sample_cache = Map.empty" "pins sample_cache = {}"
  by (auto simp: held_def hblock_def pins_def sample_cache_def)

lemma sample_room: "room sample_cache = 1000"
  by (simp add: sample_cache_def)

lemma sample_ctx: "ctx_blocks sample_cache c = {}"
  by (simp add: ctx_blocks_def sample_cache_def)

lemma sample_bc_inv: "bc_inv sample_cache"
  using sample_disk_length by (simp add: bc_inv_def bc_wf_def sample_cache_def sample_lock_def)

lemma header_zero: "hdr_num (bytes_header (replicate BLOCK_SIZE 0)) = 0"
  by (simp add: bytes_header_def slice_def min_def)

lemma header_fits_bytes: "header_fits (bytes_header bs)"
proof -
  have "le_nat (slice bs 0 8) < 256 ^ length (slice bs 0 8)" by (rule le_nat_bound)
  also have "\<dots> \<le> 256 ^ 8" by (intro power_increasing) (simp_all add: slice_def)
  finally have "le_nat (take 8 bs) < 2 ^ 64" by (simp add: slice_def)
  moreover have "b < 2 ^ 64" if "b \<in> set (nats_of 8 63 (drop 8 bs))" for b using nats_of_bound [OF that] by simp
  ultimately show ?thesis by (simp add: header_fits_def bytes_header_def slice_def)
qed

lemma sample_header_ok: "hdr_ok sample_sb (bytes_header (disk (dev sample_cache) (sb_log_start sample_sb)))"
proof -
  have "disk (dev sample_cache) (sb_log_start sample_sb) = replicate 512 0"
    by (simp add: sample_cache_def sample_sb_def sample_disk_def)
  moreover have "header_fits (bytes_header (replicate 512 0))" by (rule header_fits_bytes)
  ultimately show ?thesis using header_zero by (simp add: hdr_ok_def logged_def sample_sb_def)
qed

lemma sample_log_inv: "log_inv {0} sample_cache"
  using header_zero sample_layout(2) sample_ctx [of 0]
  by (simp add: log_inv_def ctx_ok_def sample_held header_fits_def logged_def)
    (simp add: sample_cache_def sample_sb_def sample_disk_def sample_lock_def)

lemma sample_fs_inv: "fs_inv sample_sb {0} sample_cache"
  using sample_bc_inv sample_log_inv sample_layout
  by (simp add: fs_inv_def client_inv_def) (simp add: sample_cache_def sample_sb_def)

lemma sample_area: "group_area sample_sb = {66..<146}"
  by (simp add: group_area_def sample_sb_def)

lemma sample_bit: "66 \<le> b \<Longrightarrow> bit_index sample_sb b = (b - 66) mod 8" "bit_block sample_sb b = 69 + 8 * ((b - 66) div 8)"
  by (simp_all add: bit_index_def bit_block_def sample_sb_def)

lemma bitmap_31: "i \<in> bm_set (cells_of (31 # replicate 511 0)) \<longleftrightarrow> i < 5"
proof -
  have m: "(31 :: u8) = mask 5" by (simp add: mask_eq_exp_minus_1)
  have "bit (31 :: u8) i \<longleftrightarrow> i < 5" for i unfolding m by (auto simp: bit_mask_iff)
  note b = this
  have l: "length (31 # replicate 511 (0 :: u8)) = 8 * 64" by simp
  show ?thesis
  proof (cases "i < 8")
    case True
    then show ?thesis using b [of i] bm_set_cells_of [OF l, of i] by simp
  next
    case False
    then obtain k where k: "i div 8 = Suc k" by (metis div_less_iff_less_mult less_Suc_eq_0_disj mult.commute not_less_eq zero_less_numeral mult_1 One_nat_def old.nat.exhaust)
    then show ?thesis using False bm_set_cells_of [OF l, of i] by (cases "i < 4096") (auto simp: less_mult_imp_div_less)
  qed
qed

lemma sample_allocated: "allocated sample_sb sample_disk = {b \<in> {66..<146}. (b - 66) mod 8 < 5}"
proof -
  have "sample_disk (69 + 8 * k) = 31 # replicate 511 0" if "k < 10" for k
  proof -
    have "(69 + 8 * k) mod 8 = 5" by presburger
    then show ?thesis using that by (simp add: sample_disk_def)
  qed
  then have "b \<in> allocated sample_sb sample_disk \<longleftrightarrow> (b - 66) mod 8 < 5" if "b \<in> {66..<146}" for b
  proof -
    have "(b - 66) div 8 < 10" using that by auto
    then show ?thesis using that bitmap_31 [of "(b - 66) mod 8"] \<open>\<And>k. k < 10 \<Longrightarrow> sample_disk (69 + 8 * k) = _\<close>
      by (simp add: allocated_def sample_area sample_bit)
  qed
  then show ?thesis by (auto simp: allocated_def sample_area)
qed

end
