(* ===== verification/CacheSteps.thy ===== *)
theory CacheSteps
  imports CacheOps
begin

text \<open>
  Interleavings of cache operations by several threads, one call at a time: \<open>running\<close> are the
  operations between \<open>begin_op\<close> and \<open>end_op\<close>, \<open>waiting\<close> those asleep in \<open>end_op\<close> on
  \<open>last_persisted_ts\<close>.  Threads follow the rules of \<open>cache.h\<close>: they change a block only while they
  hold it and \<open>sync\<close> it before releasing it, and leave the log area alone.
\<close>

lemma cache_sync_full:
  assumes inv: "log_inv A st" and c: "c \<in> A"
    and full: "block_no (slots st s) \<notin> ctx_blocks st c" "card (ctx_blocks st c) \<ge> OP_MAX_NUM_BLOCKS"
  shows "panics (cache_sync me (Some c) s st)"
proof -
  define x where "x = ctxs st c"
  have "ctx_ok st c" using inv c by (simp add: log_inv_def)
  then have x: "free_lock (ctx_lock x)" "ctx_num x \<le> 10" "length (ctx_nos x) = 10" "distinct (take (ctx_num x) (ctx_nos x))"
    and cb: "ctx_blocks st c = set (take (ctx_num x) (ctx_nos x))"
    by (simp_all add: ctx_ok_def Let_def x_def ctx_blocks_def)
  then have "ctx_num x = 10" using full(2) by (simp add: distinct_card)
  moreover have "index_of (ctx_nos x) (ctx_num x) (block_no (slots st s)) = ctx_num x"
    using index_of_spec [of "ctx_num x" "ctx_nos x" "block_no (slots st s)"] full(1) x(2,3) by (simp add: cb)
  ultimately show ?thesis using x(1)
    by (simp add: cache_sync_def acquire_free upd_ctx_def Let_def x_def [symmetric])
qed

record csys =
  running :: "nat set"
  waiting :: "nat set"
  cst :: bcache

inductive c_step :: "csys \<Rightarrow> csys \<Rightarrow> bool" where
  s_begin: "\<lbrakk>c \<notin> running y; c \<notin> waiting y; last_allocated_ts (cst y) + 1 < 2 ^ 64;
    cache_begin_op me c (cst y) = Inr st'\<rbrakk> \<Longrightarrow>
    c_step y (y\<lparr>running := insert c (running y), cst := st'\<rparr>)"
| s_acquire: "\<lbrakk>b \<notin> held (cst y); b \<notin> log_area (sblock (cst y)); room (cst y) > 0;
    cache_acquire me b (cst y) = Inr (s, st')\<rbrakk> \<Longrightarrow> c_step y (y\<lparr>cst := st'\<rparr>)"
| s_write: "\<lbrakk>s \<in> set (lru (cst y)); acquired (slots (cst y) s); length d = BLOCK_SIZE\<rbrakk> \<Longrightarrow>
    c_step y (y\<lparr>cst := upd_slot s (\<lambda>x. x\<lparr>data := d\<rparr>) (cst y)\<rparr>)"
| s_sync: "\<lbrakk>c \<in> running y; s \<in> set (lru (cst y)); acquired (slots (cst y) s);
    block_no (slots (cst y) s) < 2 ^ 64; block_no (slots (cst y) s) \<notin> log_area (sblock (cst y));
    cache_sync me (Some c) s (cst y) = Inr st'\<rbrakk> \<Longrightarrow> c_step y (y\<lparr>cst := st'\<rparr>)"
| s_release: "\<lbrakk>s \<in> set (lru (cst y)); acquired (slots (cst y) s); clean (cst y) s;
    cache_release me s (cst y) = Inr st'\<rbrakk> \<Longrightarrow> c_step y (y\<lparr>cst := st'\<rparr>)"
| s_commit: "\<lbrakk>c \<in> running y; running y \<noteq> {c}; end_op_commit me c (cst y) = Inr (dc, sz, st1);
    unlock_cache me st1 = Inr st'\<rbrakk> \<Longrightarrow>
    c_step y (y\<lparr>running := running y - {c}, waiting := insert c (waiting y), cst := st'\<rparr>)"
| s_end: "\<lbrakk>running y = {c}; held (cst y) = {}; room (cst y) \<ge> 252; cache_end_op me c (cst y) = Inr st'\<rbrakk> \<Longrightarrow>
    c_step y (y\<lparr>running := {}, cst := st'\<rparr>)"
| s_wake: "\<lbrakk>c \<in> waiting y; ts (ctxs (cst y) c) \<le> last_persisted_ts (cst y)\<rbrakk> \<Longrightarrow>
    c_step y (y\<lparr>waiting := waiting y - {c}\<rparr>)"

inductive_cases c_stepE: "c_step y z"

inductive c_reach :: "csys \<Rightarrow> csys \<Rightarrow> bool" where
  c_refl: "c_reach y y"
| c_next: "\<lbrakk>c_reach y z; c_step z w\<rbrakk> \<Longrightarrow> c_reach y w"

definition c_inv :: "csys \<Rightarrow> bool" where
  "c_inv y \<longleftrightarrow> bc_inv (cst y) \<and> log_inv (running y) (cst y) \<and> running y \<inter> waiting y = {} \<and>
     (\<forall>c\<in>waiting y. ts (ctxs (cst y) c) \<le> last_allocated_ts (cst y)) \<and>
     (running y = {} \<longrightarrow> (\<forall>c\<in>waiting y. ts (ctxs (cst y) c) \<le> last_persisted_ts (cst y)))"

text \<open>\<open>log_inv\<close> only looks at the log's variables, the contexts and the pinned blocks.\<close>

lemma log_inv_cong:
  assumes "log_inv A st" "cache_only st st'" "pins st' = pins st"
  shows "log_inv A st'"
  using assms(1,3) cache_onlyD [OF assms(2)]
  by (simp add: log_inv_def ctx_ok_def ctx_blocks_def)

lemma c_step_inv:
  assumes "c_step y z" "c_inv y"
  shows "c_inv z"
  using assms
proof (induction rule: c_step.induct)
  case (s_begin c y me st')
  then have lk: "free_lock (cache_lock (cst y))" by (simp add: c_inv_def bc_inv_def bc_wf_def)
  have li: "log_inv (running y) (cst y)" using s_begin by (simp add: c_inv_def)
  have space: "log_used (cst y) + 10 \<le> log_size (cst y)"
    using cache_begin_op_blocks [OF li lk, of me c] s_begin(4) by fastforce
  from cache_begin_op_ok [OF li lk s_begin(1,3) space, of me] s_begin(4)
  have st': "log_inv (insert c (running y)) st'" "same_blocks (cst y) st'"
    "\<forall>e. e \<noteq> c \<longrightarrow> ctxs st' e = ctxs (cst y) e" by auto
  have la: "last_allocated_ts (cst y) \<le> last_allocated_ts st'"
    using s_begin(3,4) space lk by (auto simp: cache_begin_op_def Let_def addw_small split: if_splits)
  have "ts (ctxs st' e) \<le> last_allocated_ts st'" if "e \<in> waiting y" for e
  proof -
    have "e \<noteq> c" using that s_begin(2) by auto
    then show ?thesis using st'(3) that la s_begin.prems by (force simp: c_inv_def)
  qed
  then show ?case using s_begin st' same_blocks_inv [OF st'(2)] by (auto simp: c_inv_def)
next
  case (s_acquire b y me s st')
  then have bi: "bc_inv (cst y)" and wf: "bc_wf (cst y)" and li: "log_inv (running y) (cst y)"
    by (simp_all add: c_inv_def bc_inv_def)
  have "sb_log_start (sblock (cst y)) \<in> log_area (sblock (cst y))"
    using li by (simp add: log_inv_def sb_ok_def log_area_def)
  then have "b \<noteq> sb_log_start (sblock (cst y))" using s_acquire(2) by auto
  then have a: "acquired_as (cst y) b s st'"
    using cache_acquire_ok [OF wf s_acquire(1,3), of me] s_acquire(4) by auto
  note f = acquired_as_facts [OF wf a]
  have "log_inv (running y) st'" by (rule log_inv_cong [OF li f(1) acquired_as_pins [OF wf a]])
  then show ?case using s_acquire.prems acquired_as_inv [OF bi a] cache_onlyD [OF f(1)]
    by (simp add: c_inv_def)
next
  case (s_write s y d)
  then have bi: "bc_inv (cst y)" and li: "log_inv (running y) (cst y)" by (simp_all add: c_inv_def)
  note u = upd_data_inv [OF bi s_write(1-3)]
  have "log_inv (running y) (upd_slot s (\<lambda>x. x\<lparr>data := d\<rparr>) (cst y))"
    by (rule log_inv_cong [OF li cache_only_upd_slot u(4)])
  then show ?case using u(1) s_write.prems by (simp add: c_inv_def)
next
  case (s_sync c y s me st')
  then have bi: "bc_inv (cst y)" and li: "log_inv (running y) (cst y)" by (simp_all add: c_inv_def)
  have space: "block_no (slots (cst y) s) \<in> ctx_blocks (cst y) c \<or> card (ctx_blocks (cst y) c) < 10"
    using cache_sync_full [OF li s_sync(1), of s me] s_sync(6) by (metis not_le panics_simps(4))
  from cache_sync_ok [OF li bi s_sync(1-3) refl s_sync(4,5) space, of me] s_sync(6)
  have st': "log_inv (running y) st'" "bc_inv st'" "\<forall>e. e \<noteq> c \<longrightarrow> ctxs st' e = ctxs (cst y) e" by auto
  have ne: "e \<noteq> c" if "e \<in> waiting y" for e using that s_sync(1) s_sync.prems by (auto simp: c_inv_def)
  have "last_allocated_ts st' = last_allocated_ts (cst y)" "last_persisted_ts st' = last_persisted_ts (cst y)"
    using s_sync(6) by (auto simp: cache_sync_def Let_def bnd_Inr_iff lock_cache_def unlock_cache_def)
  then show ?case using st' ne s_sync.prems by (auto simp: c_inv_def)
next
  case (s_release s y me st')
  then have bi: "bc_inv (cst y)" and wf: "bc_wf (cst y)" and li: "log_inv (running y) (cst y)"
    by (simp_all add: c_inv_def bc_inv_def)
  have st': "st' = upd_slot s released (cst y)" using cache_release_ok [OF wf s_release(1), of me] s_release(4) by simp
  note e = cache_release_effect [OF bi s_release(1-3) st']
  have "log_inv (running y) st'" unfolding st'
    by (rule log_inv_cong [OF li cache_only_upd_slot]) (use e(4) st' in simp)
  then show ?case using e(1) s_release.prems st' by (simp add: c_inv_def)
next
  case (s_commit c y me dc sz st1 st')
  then have bi: "bc_inv (cst y)" and li: "log_inv (running y) (cst y)" by (simp_all add: c_inv_def)
  have lk: "free_lock (cache_lock (cst y))" using bi by (simp add: bc_inv_def bc_wf_def)
  obtain H w lu where st1: "st1 = (cst y)\<lparr>cache_lock := taken me (cache_lock (cst y)), header := H, log_used := lu, woken := w,
        op_count := op_count (cst y) - 1, log_size := log_size (cst y)\<rparr>"
    and li': "log_inv (running y - {c}) ((cst y)\<lparr>header := H, log_used := lu, woken := w, op_count := op_count (cst y) - 1\<rparr>)"
    using end_op_commit_ok [OF li lk s_commit(1), of me] s_commit(2,3) by auto
  let ?st = "(cst y)\<lparr>header := H, log_used := lu, woken := w, op_count := op_count (cst y) - 1\<rparr>"
  have "st' = ?st"
    using s_commit(4) lk by (cases "cst y") (simp add: st1)
  moreover have "same_blocks (cst y) ?st" by (simp add: same_blocks_def)
  moreover have "ts (ctxs (cst y) c) \<le> last_allocated_ts (cst y)"
    using li s_commit(1) by (auto simp: log_inv_def ctx_ok_def Let_def)
  moreover have "running y - {c} \<noteq> {}" using s_commit(1,2) by blast
  ultimately show ?case using li' bi same_blocks_inv s_commit.prems by (auto simp: c_inv_def)
next
  case (s_end y c me st')
  then have bi: "bc_inv (cst y)" and li: "log_inv {c} (cst y)" by (simp_all add: c_inv_def)
  from cache_end_op_last [OF li bi s_end(2,3), of me] s_end(4)
  have "log_inv {} st'" "bc_inv st'" "last_persisted_ts st' = last_allocated_ts st'"
    "last_allocated_ts st' = last_allocated_ts (cst y)" "ctxs st' = ctxs (cst y)" by auto
  then show ?case using s_end.prems by (auto simp: c_inv_def)
next
  case (s_wake c y)
  then show ?case by (auto simp: c_inv_def)
qed

lemma c_reach_inv: "\<lbrakk>c_reach y z; c_inv y\<rbrakk> \<Longrightarrow> c_inv z"
  by (induction rule: c_reach.induct) (auto intro: c_step_inv)

text \<open>In every reachable state ending an operation gets past \<open>commit\<close>'s assertion, and a begin that
  finds space succeeds.\<close>

lemma c_inv_commit_ok:
  assumes "c_inv y" "c \<in> running y"
  shows "ok (end_op_commit me c (cst y))"
proof -
  have "log_inv (running y) (cst y)" "free_lock (cache_lock (cst y))"
    using assms(1) by (auto simp: c_inv_def bc_inv_def bc_wf_def)
  then show ?thesis using end_op_commit_ok [of "running y" "cst y" c me] assms(2) by fastforce
qed

section \<open>Crashes during end_op\<close>

lemma view_unpinned:
  assumes "bc_inv st" "held st = {}" "b \<notin> pins st"
  shows "view st b = disk (dev st) b"
proof (cases "cached st b")
  case None
  then show ?thesis by (simp add: view_def)
next
  case (Some s)
  then have s: "s \<in> set (lru st)" "block_no (slots st s) = b" by (auto simp: cached_def find_Some_iff)
  then have "\<not> acquired (slots st s)" "\<not> pinned (slots st s)" using assms(2,3) by (auto simp: held_def pins_def)
  then have "clean st s" using assms(1) s by (auto simp: bc_inv_def)
  then show ?thesis using Some s(2) \<open>\<not> pinned (slots st s)\<close> by (simp add: view_def clean_def)
qed

lemma end_op_atomic:
  assumes inv: "log_inv {c} st" and bi: "bc_inv st" and h: "held st = {}" and room: "room st \<ge> 252"
  shows "\<exists>st' ws. cache_end_op me c st = Inr st' \<and> dev st' = dev_writes (dev st) ws \<and>
    (\<forall>b. b \<notin> log_area (sblock st) \<longrightarrow> disk (dev st') b = view st b) \<and> last_persisted_ts st' = last_allocated_ts st' \<and>
    (\<forall>k. (\<forall>b. b \<notin> log_area (sblock st) \<longrightarrow>
            recovered (sblock st) (apply_writes (disk (dev st)) (take k ws)) b = disk (dev st) b) \<or>
         (\<forall>b. b \<notin> log_area (sblock st) \<longrightarrow>
            recovered (sblock st) (apply_writes (disk (dev st)) (take k ws)) b = view st b))"
proof -
  obtain st' H where r: "cache_end_op me c st = Inr st'" and d: "\<forall>b. b \<notin> log_area (sblock st) \<longrightarrow> disk (dev st') b = view st b"
    and H: "hdr_ok (sblock st) H" "set (logged H) = set (logged (header st)) \<union> ctx_blocks st c"
    and w: "dev st' = dev_writes (dev st) (checkpoint_writes (sblock st) H (view st))"
    and t: "last_persisted_ts st' = last_allocated_ts st'"
    using cache_end_op_last [OF inv bi h room, of me] by blast
  have idle: "hdr_num (bytes_header (disk (dev st) (sb_log_start (sblock st)))) = 0"
    and pins: "pins st \<subseteq> set (logged H)" using inv H(2) by (auto simp: log_inv_def)
  have com: "committed H (view st) (disk (dev st)) b = view st b" for b
    using view_unpinned [OF bi h, of b] pins unfolding committed_def by (metis subsetD)
  let ?ws = "checkpoint_writes (sblock st) H (view st)"
  have "(\<forall>b. b \<notin> log_area (sblock st) \<longrightarrow> recovered (sblock st) (apply_writes (disk (dev st)) (take k ?ws)) b = disk (dev st) b) \<or>
      (\<forall>b. b \<notin> log_area (sblock st) \<longrightarrow> recovered (sblock st) (apply_writes (disk (dev st)) (take k ?ws)) b = view st b)" for k
    using checkpoint_crash [of "sblock st" H "disk (dev st)" _ k "view st"] H(1) idle com by (cases "k \<le> hdr_num H") simp_all
  then show ?thesis using r d w t by blast
qed

end
