(* ===== verification/FileSys.thy ===== *)
theory FileSys
  imports Sample CacheSteps
begin

text \<open>
  The inode layer on top of the block cache of \<open>fs/cache.c\<close>: the interface results of \<open>InodeRead\<close> and
  \<open>InodeWrite\<close>, with the conditions and the outcome written over the cache's own state.
\<close>

definition groups_counted :: "SuperBlock \<Rightarrow> nat \<Rightarrow> bcache \<Rightarrow> bool" where
  "groups_counted sb n k \<longleftrightarrow> n < 2 ^ 32 \<and> (\<forall>g<NGROUPS. used_block k ! g + card {b \<in> group_area sb. group_of sb b = g} =
     n + card {b \<in> allocated sb (view k). group_of sb b = g})"

definition home_block :: "nat \<Rightarrow> bcache itree \<Rightarrow> nat" where
  "home_block p st = to_block_no (it_sb st) (inode_no (ino_of st p))"

text \<open>A file that operation \<open>c\<close> may write: the cache and the log are sound, the bitmaps and the group
  counters are right, the inode is loaded and equal to its entry on disk, and its blocks are allocated,
  its own, and held by nobody.\<close>

definition write_ready :: "SuperBlock \<Rightarrow> nat set \<Rightarrow> nat \<Rightarrow> bcache itree \<Rightarrow> bool" where
  "write_ready sb A c st \<longleftrightarrow> (let k = it_cache st; v = view k in
     fs_inv sb A k \<and> c \<in> A \<and> NGROUPS \<le> num_groups sb \<and> bitmap_blocks sb \<subseteq> allocated sb v \<and>
     held k \<inter> bitmap_blocks sb = {} \<and> held k \<inter> group_area sb \<subseteq> allocated sb v \<and> length (used_block k) = NGROUPS \<and>
     groups_counted sb (num_datablocks_per_group (it_sb st)) k)"

definition file_state :: "SuperBlock \<Rightarrow> nat \<Rightarrow> bcache itree \<Rightarrow> bool" where
  "file_state sb p st \<longleftrightarrow> (let k = it_cache st; v = view k; e = entry (ino_of st p); home = home_block p st in
     0 < inode_no (ino_of st p) \<and> inode_no (ino_of st p) \<le> NINODES \<and> ivalid (ino_of st p) \<and> entry_fits e \<and>
     file_ok v e (allocated sb v - bitmap_blocks sb) \<and> file_blocks v e \<inter> held k = {} \<and>
     home \<in> allocated sb v - bitmap_blocks sb \<and> home \<notin> held k \<and> home \<notin> file_blocks v e \<and>
     get_entry (v home) (inode_no (ino_of st p)) = e)"

lemma write_ready_good:
  assumes "write_ready sb A c st" "file_state sb p st"
  shows "bmc.good me sb A c p st"
proof -
  note d = assms [unfolded write_ready_def file_state_def Let_def]
  then show ?thesis
    by (auto simp: bmc.good_def bm.ready_def bmc.counted_def groups_counted_def ran_hblock file_ok_def Let_def)
qed

lemma file_state_open: "file_state sb p st \<Longrightarrow> bmc.open_file sb p st"
  by (auto simp: file_state_def bmc.open_file_def bmc.homed_def bmc.inode_home_def home_block_def ran_hblock Let_def)

text \<open>What a write of \<open>src\<close> at \<open>offset\<close> leaves behind: the new bytes of the file and its size, its entry
  on disk, the allocation map, and everything else as it was.\<close>

definition file_written :: "SuperBlock \<Rightarrow> nat \<Rightarrow> nat \<Rightarrow> bytes \<Rightarrow> bcache itree \<Rightarrow> bcache itree \<Rightarrow> bool" where
  "file_written sb p offset src st st' \<longleftrightarrow>
     (let v = view (it_cache st); v' = view (it_cache st'); e = entry (ino_of st p); e' = entry (ino_of st' p);
          home = home_block p st; ino = inode_no (ino_of st p); fin = offset + length src;
          al = allocated sb v; al' = allocated sb v' in
      e' = e\<lparr>num_bytes := max (num_bytes e) fin, addrs := addrs e', indirect := indirect e'\<rparr> \<and>
      file_ok v' e' (al' - bitmap_blocks sb) \<and>
      (\<forall>q<num_bytes e'. fbyte v' e' q = (if offset \<le> q \<and> q < fin then src ! (q - offset) else fbyte v e q)) \<and>
      get_entry (v' home) ino = e' \<and>
      (\<forall>j. j mod INODE_PER_BLOCK \<noteq> ino mod INODE_PER_BLOCK \<longrightarrow> get_entry (v' home) j = get_entry (v home) j) \<and>
      al \<subseteq> al' \<and> file_blocks v' e' \<subseteq> file_blocks v e \<union> (al' - al) \<and>
      (\<forall>x. x \<notin> bitmap_blocks sb \<longrightarrow> x \<notin> file_blocks v' e' \<longrightarrow> x \<noteq> home \<longrightarrow> v' x = v x))"

text \<open>The blocks a write may still record in operation \<open>c\<close>, the free blocks it may need, and the
  \<open>Block\<close> structures.\<close>

definition write_space :: "SuperBlock \<Rightarrow> nat \<Rightarrow> nat \<Rightarrow> nat \<Rightarrow> bcache itree \<Rightarrow> bool" where
  "write_space sb c offset fin st \<longleftrightarrow> (let k = it_cache st; t = touched offset fin in
     card (ctx_blocks k c) + 2 + 2 * t < OP_MAX_NUM_BLOCKS \<and> t < card (group_area sb - allocated sb (view k)) \<and>
     (bitmap_scans sb + 7) * t < room k)"

lemma inode_write_bcache:
  assumes w: "write_ready sb A c st" and f: "file_state sb p st" and ty: "ity (entry (ino_of st p)) \<noteq> INODE_DEVICE"
    and off: "offset \<le> num_bytes (entry (ino_of st p))" "fin = offset + length src" "fin \<le> INODE_MAX_BYTES"
    and sp: "write_space sb c offset fin st"
  shows "\<exists>st'. inode_write (bcache_ops me) con (Some c) p src offset (length src) st = Inr (length src, st') \<and>
    file_written sb p offset src st st' \<and> write_ready sb A c st' \<and> file_state sb p st' \<and> home_block p st' = home_block p st \<and>
    inode_no (ino_of st' p) = inode_no (ino_of st p) \<and> held (it_cache st') = held (it_cache st) \<and>
    room (it_cache st) \<le> room (it_cache st') + Suc ((bitmap_scans sb + 7) * touched offset fin)"
proof -
  note S = sp [unfolded write_space_def Let_def]
  have l: "bmc.load c p st + 2 * touched offset fin < 10"
    using S by (auto simp: bmc.load_def Let_def)
  have sp: "Suc (touched offset fin) \<le> bmc.spare sb p st" using S by (auto simp: bmc.spare_def)
  have cap: "(Suc (bitmap_scans sb) + 6) * touched offset fin < room (it_cache st)" using S by (simp add: add.commute)
  obtain st' where r: "inode_write (bcache_ops me) con (Some c) p src offset (length src) st = Inr (length src, st')"
    and p: "bmc.write_post me sb A c p offset src st st'"
    using bmc.inode_write_ok [OF write_ready_good [OF w f] file_state_open [OF f] refl ty off l sp cap] by blast
  note P = p [unfolded bmc.write_post_def Let_def]
  let ?e' = "entry (ino_of st' p)"
  have st': "st' = upd_entry p (\<lambda>_. ?e') (st\<lparr>it_cache := it_cache st'\<rparr>)" using P by blast
  have same: "it_sb st' = it_sb st" "inode_no (ino_of st' p) = inode_no (ino_of st p)" "ivalid (ino_of st' p) = ivalid (ino_of st p)"
    by (subst st', simp)+
  then have home: "home_block p st' = home_block p st" "bmc.inode_home p st = home_block p st"
    by (simp_all add: home_block_def bmc.inode_home_def)
  have "file_written sb p offset src st st'"
    using P home(2) by (simp add: file_written_def Let_def)
  moreover have "write_ready sb A c st'"
  proof -
    have g: "bmc.good me sb A c p st'" using P by blast
    then show ?thesis using w
      by (auto simp: write_ready_def bmc.good_def bm.ready_def bmc.counted_def groups_counted_def ran_hblock Let_def)
  qed
  moreover have "file_state sb p st'"
  proof -
    have h: "bmc.homed sb p st'" and g: "bmc.good me sb A c p st'" and e: "entry_fits ?e'"
      "file_ok (view (it_cache st')) ?e' (allocated sb (view (it_cache st')) - bitmap_blocks sb)"
      "get_entry (view (it_cache st') (home_block p st)) (inode_no (ino_of st p)) = ?e'"
      using P unfolding home(2) by blast+
    then show ?thesis using f home same
      by (auto simp: file_state_def bmc.homed_def bmc.good_def bmc.inode_home_def home_block_def ran_hblock Let_def)
  qed
  moreover have "held (it_cache st') = held (it_cache st)" using P by (metis ran_hblock)
  moreover have "room (it_cache st) \<le> room (it_cache st') + Suc ((bitmap_scans sb + 7) * touched offset fin)"
    using P off(2) by (simp add: add.commute)
  ultimately show ?thesis using r home(1) same(2) by blast
qed

lemma inode_read_bcache:
  assumes inv: "fs_inv sb A (it_cache st)" and f: "file_state sb p st" and e: "e = entry (ino_of st p)" "ity e \<noteq> INODE_DEVICE"
    and off: "offset \<le> num_bytes e" "offset + count < 2 ^ 64" and n: "n = min count (num_bytes e - offset)"
    and cap: "2 * touched offset (offset + n) \<le> room (it_cache st)"
  shows "\<exists>k'. inode_read (bcache_ops me) con p offset count st =
      Inr (map (fbyte (view (it_cache st)) e) [offset..<offset + n], n, st\<lparr>it_cache := k'\<rparr>) \<and> view k' = view (it_cache st) \<and>
      fs_inv sb A k' \<and> held k' = held (it_cache st) \<and> (\<forall>c. ctx_blocks k' c = ctx_blocks (it_cache st) c) \<and>
      used_block k' = used_block (it_cache st) \<and> room (it_cache st) \<le> room k' + 2 * touched offset (offset + n)"
proof -
  note F = f [unfolded file_state_def Let_def]
  have usable: "client_block sb b" if "b \<in> allocated sb v" for b v
    using that inv bm.area_usable [of sb A "it_cache st" b] by (auto simp: allocated_def)
  then have rd: "bmc.readable sb st p" using F e by (auto simp: bmc.readable_def Let_def ran_hblock file_ok_def fmap_ok_def)
  have ok: "file_ok (view (it_cache st)) e (allocated sb (view (it_cache st)) - bitmap_blocks sb)" using F e by blast
  obtain st' where r: "inode_read (bcache_ops me) con p offset count st =
      Inr (map (fbyte (view (it_cache st)) e) [offset..<offset + n], n, st')"
    and l: "bmc.looks me sb A (2 * touched offset (offset + n)) st st'"
    using bmc.inode_read_ok [OF inv rd e ok off n cap] by blast
  have "st' = st\<lparr>it_cache := it_cache st'\<rparr>" using l by (simp add: bmc.looks_def)
  then show ?thesis using r l ran_hblock [of "it_cache st"] ran_hblock [of "it_cache st'"]
    by (intro exI [of _ "it_cache st'"]) (simp add: bmc.looks_def bm.keeps_def)
qed

section \<open>The sample file system is ready\<close>

lemma sample_bitmap_blocks: "bitmap_blocks sample_sb \<subseteq> {b \<in> {66..<146}. (b - 66) mod 8 = 3}" "66 \<notin> bitmap_blocks sample_sb"
proof -
  have "69 + 8 * ((b - 66) div 8) < 146 \<and> (69 + 8 * ((b - 66) div 8) - 66) mod 8 = 3" if "b < 146" for b :: nat
  proof -
    have "(b - 66) div 8 < 10" using that by linarith
    moreover have "(3 + 8 * ((b - 66) div 8)) mod 8 = 3" by simp
    ultimately show ?thesis by simp
  qed
  then show "bitmap_blocks sample_sb \<subseteq> {b \<in> {66..<146}. (b - 66) mod 8 = 3}"
    by (auto simp: bitmap_blocks_def sample_area sample_bit)
  then show "66 \<notin> bitmap_blocks sample_sb" by auto
qed

lemma sample_group: "group_of sample_sb b = (b - 66) div 8"
  by (simp add: group_of_def sample_sb_def)

lemma sample_counted: "groups_counted sample_sb 4 sample_cache"
proof -
  have "card {b \<in> {66..<146}. (b - 66) div 8 = g} = 8 \<and> card {b \<in> {66..<146}. (b - 66) mod 8 < 5 \<and> (b - 66) div 8 = g} = 5"
    if g: "g < 10" for g :: nat
  proof -
    have d: "(66 + 8 * g + r - 66) div 8 = g" "(66 + 8 * g + r - 66) mod 8 = r" if "r < 8" for r using that by simp_all
    have ex: "b = 66 + 8 * ((b - 66) div 8) + (b - 66) mod 8" if "66 \<le> b" for b :: nat using that by simp
    have "{b \<in> {66..<146}. (b - 66) div 8 = g} = {66 + 8 * g..<66 + 8 * g + 8}" (is "?l = ?r")
    proof (intro equalityI subsetI)
      fix b assume "b \<in> ?l"
      then have "b = 66 + 8 * g + (b - 66) mod 8" using ex [of b] by auto
      then show "b \<in> ?r" using mod_less_divisor [of 8 "b - 66"] unfolding atLeastLessThan_iff by linarith
    next
      fix b assume "b \<in> ?r"
      then obtain r where "b = 66 + 8 * g + r" "r < 8" by (metis add_less_cancel_left atLeastLessThan_iff nat_le_iff_add)
      then show "b \<in> ?l" using d g by simp
    qed
    moreover have "{b \<in> {66..<146}. (b - 66) mod 8 < 5 \<and> (b - 66) div 8 = g} = {66 + 8 * g..<66 + 8 * g + 5}" (is "?l = ?r")
    proof (intro equalityI subsetI)
      fix b assume "b \<in> ?l"
      then have "b = 66 + 8 * g + (b - 66) mod 8" "(b - 66) mod 8 < 5" using ex [of b] by auto
      then show "b \<in> ?r" unfolding atLeastLessThan_iff by linarith
    next
      fix b assume "b \<in> ?r"
      then obtain r where "b = 66 + 8 * g + r" "r < 5" by (metis add_less_cancel_left atLeastLessThan_iff nat_le_iff_add)
      then show "b \<in> ?l" using d g by simp
    qed
    ultimately show ?thesis by simp
  qed
  moreover have "used_block sample_cache = replicate 10 1" by (simp add: sample_cache_def)
  ultimately show ?thesis
    by (simp add: groups_counted_def sample_area sample_group sample_view sample_allocated)
qed

lemma sample_write_ready: "write_ready sample_sb {0} 0 sample_tree"
proof -
  have "num_datablocks_per_group sample_sb = 4" "num_groups sample_sb = 10" by (simp_all add: sample_sb_def)
  moreover have "length (used_block sample_cache) = 10" by (simp add: sample_cache_def)
  ultimately show ?thesis using sample_fs_inv sample_counted sample_bitmap_blocks
    by (auto simp: write_ready_def Let_def sample_tree_def sample_held sample_view sample_allocated)
qed

lemma zero_map:
  assumes "addrs e = replicate 12 0" "indirect e = 0"
  shows "file_blocks v e = {}" "fmap_ok v e S"
proof -
  have f: "fblock v e k = 0" if "k < 140" for k using that assms by (simp add: fblock_def)
  then show b: "file_blocks v e = {}" using assms(2) by (auto simp: file_blocks_def)
  show "fmap_ok v e S" using f b assms by (simp add: fmap_ok_def)
qed

lemma sample_on_disk: "get_entry (sample_disk 66) 1 = sample_entry" "get_entry (sample_disk 66) 2 = sample_direntry"
proof -
  let ?d = "put_entry (replicate 512 0) 1 sample_entry"
  have l: "length ?d = 512" using sample_entry_fits by (simp add: put_entry_def entry_offset_def entry_fits_def)
  show "get_entry (sample_disk 66) 2 = sample_direntry" using get_put_entry(1) [OF l sample_entry_fits(2)] by (simp add: sample_disk_def)
  show "get_entry (sample_disk 66) 1 = sample_entry"
    using get_put_entry(2) [OF l sample_entry_fits(2), of 1 2] get_put_entry(1) [of "replicate 512 0" sample_entry 1] sample_entry_fits
    by (simp add: sample_disk_def)
qed

lemma sample_dir_map:
  "file_blocks v sample_direntry = {70}" "70 \<in> S \<Longrightarrow> file_ok v sample_direntry S"
proof -
  have a: "addrs sample_direntry = 70 # replicate 11 0" "indirect sample_direntry = 0" "num_bytes sample_direntry = 16"
    by (simp_all add: sample_direntry_def zero_entry_def)
  have f: "fblock v sample_direntry k = (if k = 0 then 70 else 0)" if "k < 140" for k
    using that by (cases k) (simp_all add: fblock_def a)
  then have im: "fblock v sample_direntry ` {..<140} = {70, 0}" by (auto intro!: image_eqI [of _ _ 0] image_eqI [of _ _ 1])
  then show b: "file_blocks v sample_direntry = {70}" by (auto simp: file_blocks_def a)
  show "70 \<in> S \<Longrightarrow> file_ok v sample_direntry S" using f b a by (simp add: file_ok_def fmap_ok_def split: if_splits)
qed

lemma sample_file_state: "file_state sample_sb 0 sample_tree" "file_state sample_sb 1 sample_tree"
proof -
  have home: "home_block p sample_tree = 66" for p
    by (simp add: home_block_def sample_tree_def to_block_no_def GINODES_def subw_small sample_sb_def)
  have z: "addrs sample_entry = replicate 12 0" "indirect sample_entry = 0" "num_bytes sample_entry = 0"
    by (simp_all add: sample_entry_def zero_entry_def)
  have fm: "file_blocks v sample_entry = {}" "file_ok v sample_entry S" for v S
    using zero_map [OF z(1,2)] z(3) by (simp_all add: file_ok_def)
  have al: "66 \<in> allocated sample_sb sample_disk" "70 \<in> allocated sample_sb sample_disk" "70 \<notin> bitmap_blocks sample_sb"
    using sample_bitmap_blocks(1) by (auto simp: sample_allocated)
  have e: "entry (ino_of sample_tree p) = (if p = 1 then sample_direntry else sample_entry)" "view (it_cache sample_tree) = sample_disk"
    "inode_no (ino_of sample_tree p) = (if p = 1 then 2 else 1)" "ivalid (ino_of sample_tree p)" "held (it_cache sample_tree) = {}" for p
    by (simp_all add: sample_tree_def sample_view sample_held)
  show "file_state sample_sb 0 sample_tree" "file_state sample_sb 1 sample_tree"
    using fm sample_dir_map sample_entry_fits sample_bitmap_blocks(2) home al sample_on_disk
    by (simp_all add: file_state_def Let_def e)
qed

lemma sample_alloc_pre: "alloc_pre sample_sb {0} 0 sample_cache"
  using sample_write_ready sample_layout sample_fs_inv sample_ctx
  by (simp add: alloc_pre_def write_ready_def Let_def sample_tree_def fs_inv_def)

lemma sample_space: "touched 0 n \<le> 3 \<Longrightarrow> write_space sample_sb 0 0 n sample_tree"
proof -
  assume t: "touched 0 n \<le> 3"
  have "{127, 128, 129, 135} \<subseteq> {66..<146} - allocated sample_sb sample_disk" by (auto simp: sample_allocated)
  then have "card {127, 128, 129, 135 :: nat} \<le> card ({66..<146} - allocated sample_sb sample_disk)" by (intro card_mono) auto
  moreover have "bitmap_scans sample_sb = 10" by (simp add: bitmap_scans_def bitmap_offs_def sample_sb_def)
  moreover have "room sample_cache = 1000" by (simp add: sample_cache_def)
  ultimately show ?thesis using t sample_ctx [of 0]
    by (simp add: write_space_def Let_def sample_tree_def sample_view sample_area)
qed

end
