(* ===== verification/DirSpec.thy ===== *)
theory DirSpec
  imports Dir FileSys
begin

text \<open>
  Directories on top of the block cache: a directory is the list of its entries (\<open>dir_entries\<close>), lookup
  finds the first entry of that name, insert fills the first free slot or appends, remove clears a slot.
  \<open>path_elems\<close> is what \<open>skipelem\<close> walks through.
\<close>

definition dir_entries :: "disk \<Rightarrow> InodeEntry \<Rightarrow> DirEntry list" where
  "dir_entries v e = map (\<lambda>i. bytes_dirent (map (fbyte v e) [16 * i..<16 * i + 16])) [0..<num_bytes e div DIRENT_SIZE]"

definition dir_state :: "SuperBlock \<Rightarrow> nat \<Rightarrow> bcache itree \<Rightarrow> bool" where
  "dir_state sb p st \<longleftrightarrow> file_state sb p st \<and> ity (entry (ino_of st p)) = INODE_DIRECTORY \<and>
     num_bytes (entry (ino_of st p)) mod DIRENT_SIZE = 0"

definition hit :: "bytes \<Rightarrow> DirEntry \<Rightarrow> bool" where
  "hit name d \<longleftrightarrow> de_inode_no d \<noteq> 0 \<and>
     cstr (arr_of name) FILE_NAME_MAX_LENGTH = cstr (arr_of (de_name d)) FILE_NAME_MAX_LENGTH"

fun first_hit :: "bytes \<Rightarrow> DirEntry list \<Rightarrow> nat \<Rightarrow> nat \<times> nat option" where
  "first_hit name [] i = (0, None)"
| "first_hit name (d # ds) i = (if hit name d then (de_inode_no d, Some i) else first_hit name ds (Suc i))"

fun first_free :: "DirEntry list \<Rightarrow> nat \<Rightarrow> nat" where
  "first_free [] i = i"
| "first_free (d # ds) i = (if de_inode_no d = 0 then i else first_free ds (Suc i))"

definition put_at :: "'a list \<Rightarrow> nat \<Rightarrow> 'a \<Rightarrow> 'a list" where
  "put_at xs k x = (if k < length xs then xs[k := x] else xs @ [x])"

section \<open>Reading entries\<close>

lemma touched_16: "touched (16 * i) (16 * i + 16) = 1"
proof -
  have "16 * i mod 512 + 16 \<le> 512"
  proof -
    have "16 * i mod 512 = 16 * (i mod 32)" by (simp add: mult_mod_right)
    then show ?thesis using mod_less_divisor [of 32 i] by linarith
  qed
  then have m: "16 = min (16 * i + 16 - 16 * i) (512 - 16 * i mod 512)" by simp
  from touched_step(4) [OF _ m] show ?thesis by (simp add: touched_def)
qed

lemma dir_entries_nth:
  "i < num_bytes e div 16 \<Longrightarrow> dir_entries v e ! i = bytes_dirent (map (fbyte v e) [16 * i..<16 * i + 16])"
  "length (dir_entries v e) = num_bytes e div 16"
  by (simp_all add: dir_entries_def)

text \<open>States that differ only in what the cache holds.\<close>

definition same_view :: "SuperBlock \<Rightarrow> nat set \<Rightarrow> nat \<Rightarrow> bcache itree \<Rightarrow> bcache itree \<Rightarrow> bool" where
  "same_view sb A n st st' \<longleftrightarrow> (\<exists>k'. st' = st\<lparr>it_cache := k'\<rparr> \<and> view k' = view (it_cache st) \<and> fs_inv sb A k' \<and>
     held k' = held (it_cache st) \<and> (\<forall>c. ctx_blocks k' c = ctx_blocks (it_cache st) c) \<and>
     used_block k' = used_block (it_cache st) \<and> room (it_cache st) \<le> room k' + n)"

lemma same_view_refl: "fs_inv sb A (it_cache st) \<Longrightarrow> same_view sb A 0 st st"
  unfolding same_view_def by (rule exI [of _ "it_cache st"]) simp

lemma same_view_trans:
  assumes "same_view sb A n st st1" "same_view sb A m st1 st2"
  shows "same_view sb A (n + m) st st2"
proof -
  from assms(1) obtain k1 where 1: "st1 = st\<lparr>it_cache := k1\<rparr>" "view k1 = view (it_cache st)" "held k1 = held (it_cache st)"
    "\<forall>c. ctx_blocks k1 c = ctx_blocks (it_cache st) c" "used_block k1 = used_block (it_cache st)" "room (it_cache st) \<le> room k1 + n"
    unfolding same_view_def by blast
  from assms(2) obtain k2 where "st2 = st1\<lparr>it_cache := k2\<rparr>" "view k2 = view (it_cache st1)" "fs_inv sb A k2" "held k2 = held (it_cache st1)"
    "\<forall>c. ctx_blocks k2 c = ctx_blocks (it_cache st1) c" "used_block k2 = used_block (it_cache st1)" "room (it_cache st1) \<le> room k2 + m"
    unfolding same_view_def by blast
  then show ?thesis using 1 unfolding same_view_def by (intro exI [of _ k2]) simp
qed

lemma same_view_keeps:
  assumes "same_view sb A n st st'"
  shows "fs_inv sb A (it_cache st')" "view (it_cache st') = view (it_cache st)" "ino_of st' = ino_of st" "it_sb st' = it_sb st"
    "room (it_cache st) \<le> room (it_cache st') + n" "ctx_blocks (it_cache st') c = ctx_blocks (it_cache st) c"
    "file_state sb p st \<Longrightarrow> file_state sb p st'" "write_ready sb A c st \<Longrightarrow> write_ready sb A c st'" "dir_state sb p st \<Longrightarrow> dir_state sb p st'"
proof -
  from assms obtain k' where k: "st' = st\<lparr>it_cache := k'\<rparr>" "view k' = view (it_cache st)" "fs_inv sb A k'" "held k' = held (it_cache st)"
    "\<forall>c. ctx_blocks k' c = ctx_blocks (it_cache st) c" "used_block k' = used_block (it_cache st)" "room (it_cache st) \<le> room k' + n"
    unfolding same_view_def by blast
  then show "fs_inv sb A (it_cache st')" "view (it_cache st') = view (it_cache st)" "ino_of st' = ino_of st" "it_sb st' = it_sb st"
    "room (it_cache st) \<le> room (it_cache st') + n" "ctx_blocks (it_cache st') c = ctx_blocks (it_cache st) c" by simp_all
  show f: "file_state sb p st \<Longrightarrow> file_state sb p st'" using k by (simp add: file_state_def home_block_def Let_def)
  then show "dir_state sb p st \<Longrightarrow> dir_state sb p st'" using k by (simp add: dir_state_def)
  show "write_ready sb A c st \<Longrightarrow> write_ready sb A c st'" using k by (simp add: write_ready_def groups_counted_def Let_def)
qed

lemma read_dentry_ok:
  assumes inv: "fs_inv sb A (it_cache st)" and d: "dir_state sb p st" and e: "e = entry (ino_of st p)"
    and i: "i < num_bytes e div 16" and cap: "2 \<le> room (it_cache st)" and buf: "length buf = 16"
  shows "\<exists>buf' st'. read_dentry (bcache_ops me) con p (16 * i) buf st = Inr (buf', 16, st') \<and> same_view sb A 2 st st' \<and>
    length buf' = 16 \<and> bytes_dirent buf' = dir_entries (view (it_cache st)) e ! i"
proof -
  have f: "file_state sb p st" and ty: "ity e \<noteq> 3" and m: "num_bytes e mod 16 = 0"
    using d e by (auto simp: dir_state_def)
  have b: "16 * i + 16 \<le> num_bytes e" using i m by linarith
  have nb: "num_bytes e \<le> 71680" using f e by (simp add: file_state_def Let_def file_ok_def)
  have off: "16 * i \<le> num_bytes e" "16 * i + 16 < 2 ^ 64" "16 = min 16 (num_bytes e - 16 * i)" using b nb by auto
  have c: "2 * touched (16 * i) (16 * i + 16) \<le> room (it_cache st)" using cap touched_16 [of i] by simp
  obtain k' where r: "inode_read (bcache_ops me) con p (16 * i) 16 st =
      Inr (map (fbyte (view (it_cache st)) e) [16 * i..<16 * i + 16], 16, st\<lparr>it_cache := k'\<rparr>)"
    and k: "view k' = view (it_cache st)" "fs_inv sb A k'" "held k' = held (it_cache st)"
      "\<forall>c. ctx_blocks k' c = ctx_blocks (it_cache st) c" "used_block k' = used_block (it_cache st)" "room (it_cache st) \<le> room k' + 2"
    using inode_read_bcache [OF inv f e ty off c, of me con] touched_16 [of i] by auto
  let ?bs = "map (fbyte (view (it_cache st)) e) [16 * i..<16 * i + 16]"
  have o: "overwrite buf 0 ?bs = ?bs" using buf by (simp add: overwrite_def)
  have sv: "same_view sb A 2 st (st\<lparr>it_cache := k'\<rparr>)" unfolding same_view_def using k by (intro exI [of _ k']) simp
  show ?thesis using r o sv dir_entries_nth(1) [OF i]
    by (intro exI [of _ ?bs] exI [of _ "st\<lparr>it_cache := k'\<rparr>"]) (simp add: read_dentry_def)
qed

section \<open>Lookup\<close>

lemma lookup_loop_ok:
  assumes "fs_inv sb A (it_cache st)" "dir_state sb p st" "e = entry (ino_of st p)" "v = view (it_cache st)"
    "i \<le> num_bytes e div 16" "2 * (num_bytes e div 16 - i) \<le> room (it_cache st)" "length buf = 16"
  shows "\<exists>st'. lookup_loop (bcache_ops me) con p name (16 * i) (num_bytes e) buf st =
      (case first_hit name (drop i (dir_entries v e)) i of (ino, idx) \<Rightarrow> Inr (ino, idx, st')) \<and>
    same_view sb A (2 * (num_bytes e div 16 - i)) st st'"
  using assms
proof (induction "num_bytes e div 16 - i" arbitrary: i buf st)
  case 0
  have "num_bytes e mod 16 = 0" using 0 by (simp add: dir_state_def)
  then have "num_bytes e = 16 * (num_bytes e div 16)" by (simp add: mod_0_imp_dvd)
  moreover have "i = num_bytes e div 16" using 0 by simp
  ultimately have "num_bytes e = 16 * i" by simp
  then show ?case using 0 same_view_refl [of sb A st] by (simp add: lookup_loop.simps [of _ _ _ _ "16 * i"] dir_entries_nth)
next
  case (Suc n)
  have i: "i < num_bytes e div 16" using Suc.hyps(2) by simp
  then have lt: "16 * i < num_bytes e" by linarith
  have cap: "2 \<le> room (it_cache st)" using Suc.prems(6) i by simp
  obtain buf' st1 where r: "read_dentry (bcache_ops me) con p (16 * i) buf st = Inr (buf', 16, st1)" and sv: "same_view sb A 2 st st1"
    and b: "length buf' = 16" "bytes_dirent buf' = dir_entries v e ! i"
    using read_dentry_ok [OF Suc.prems(1-3) i cap Suc.prems(7), of me con] Suc.prems(4) by blast
  note K = same_view_keeps [OF sv]
  let ?d = "dir_entries v e ! i"
  have dr: "drop i (dir_entries v e) = ?d # drop (Suc i) (dir_entries v e)"
    using i by (simp add: Cons_nth_drop_Suc dir_entries_nth(2))
  have h: "de_inode_no ?d \<noteq> 0 \<and> strncmp (arr_of name) (arr_of (de_name ?d)) 14 = 0 \<longleftrightarrow> hit name ?d"
    by (simp add: hit_def strncmp_0)
  show ?case
  proof (cases "hit name ?d")
    case True
    have "same_view sb A (2 * (num_bytes e div 16 - i)) st st1"
      using sv i unfolding same_view_def by (elim exE conjE) (rule exI, auto)
    then show ?thesis using True r b h lt dr by (subst lookup_loop.simps) (auto simp: Let_def)
  next
    case False
    have n: "n = num_bytes e div 16 - Suc i" using Suc.hyps(2) by simp
    have "\<exists>st'. lookup_loop (bcache_ops me) con p name (16 * Suc i) (num_bytes e) buf' st1 =
        (case first_hit name (drop (Suc i) (dir_entries v e)) (Suc i) of (ino, idx) \<Rightarrow> Inr (ino, idx, st')) \<and>
      same_view sb A (2 * (num_bytes e div 16 - Suc i)) st1 st'"
      by (rule Suc.hyps(1) [OF n K(1) K(9) [OF Suc.prems(2)]]) (use Suc.prems i K b in auto)
    then obtain st' where ih: "lookup_loop (bcache_ops me) con p name (16 * Suc i) (num_bytes e) buf' st1 =
        (case first_hit name (drop (Suc i) (dir_entries v e)) (Suc i) of (ino, idx) \<Rightarrow> Inr (ino, idx, st'))"
      and sv': "same_view sb A (2 * (num_bytes e div 16 - Suc i)) st1 st'" by blast
    have "2 + 2 * (num_bytes e div 16 - Suc i) = 2 * (num_bytes e div 16 - i)" using i by simp
    then have "same_view sb A (2 * (num_bytes e div 16 - i)) st st'" using same_view_trans [OF sv sv'] by simp
    then show ?thesis using False r b h lt dr ih by (subst lookup_loop.simps) (auto simp: Let_def add.commute)
  qed
qed

lemma inode_lookup_ok:
  assumes "fs_inv sb A (it_cache st)" "dir_state sb p st" "e = entry (ino_of st p)"
    "2 * (num_bytes e div 16) \<le> room (it_cache st)" "length buf = 16"
  shows "\<exists>st'. inode_lookup (bcache_ops me) con p name buf st =
      (case first_hit name (dir_entries (view (it_cache st)) e) 0 of (ino, idx) \<Rightarrow> Inr (ino, idx, st')) \<and>
    same_view sb A (2 * (num_bytes e div 16)) st st'"
  using lookup_loop_ok [OF assms(1-3) refl, of 0 buf me con name] assms(2-5)
  by (simp add: inode_lookup_def dir_state_def Let_def)

lemma inode_lookup_entries:
  assumes "write_ready sb A c st" "dir_state sb p st" "dir_entries (view (it_cache st)) (entry (ino_of st p)) = ds"
    "2 * length ds \<le> room (it_cache st)" "length buf = 16" "first_hit name ds 0 = (ino, idx)"
  shows "\<exists>st'. inode_lookup (bcache_ops me) con p name buf st = Inr (ino, idx, st')"
proof -
  have i: "fs_inv sb A (it_cache st)" using assms(1) by (simp add: write_ready_def Let_def)
  have n: "2 * (num_bytes (entry (ino_of st p)) div 16) \<le> room (it_cache st)"
    using assms(4) unfolding assms(3) [symmetric] by (simp add: dir_entries_nth(2))
  from inode_lookup_ok [OF i assms(2) refl n assms(5), of me con name] show ?thesis unfolding assms(3) assms(6) by auto
qed

section \<open>Insertion and removal\<close>

lemma first_free_range: "i \<le> first_free ds i" "first_free ds i \<le> i + length ds"
  by (induction ds arbitrary: i) (auto, meson Suc_leD, metis add_Suc_right add_Suc_shift)

lemma insert_loop_ok:
  assumes "fs_inv sb A (it_cache st)" "dir_state sb p st" "e = entry (ino_of st p)" "v = view (it_cache st)"
    "i \<le> num_bytes e div 16" "2 * (num_bytes e div 16 - i) \<le> room (it_cache st)" "length buf = 16"
  shows "\<exists>buf' st'. insert_loop (bcache_ops me) con p (16 * i) (num_bytes e) buf st =
      Inr (16 * first_free (drop i (dir_entries v e)) i, buf', st') \<and> length buf' = 16 \<and>
    same_view sb A (2 * (num_bytes e div 16 - i)) st st'"
  using assms
proof (induction "num_bytes e div 16 - i" arbitrary: i buf st)
  case 0
  have "num_bytes e mod 16 = 0" using 0 by (simp add: dir_state_def)
  then have "num_bytes e = 16 * (num_bytes e div 16)" by (simp add: mod_0_imp_dvd)
  moreover have "i = num_bytes e div 16" using 0 by simp
  ultimately have "num_bytes e = 16 * i" by simp
  then show ?case using 0 same_view_refl [of sb A st] by (simp add: insert_loop.simps [of _ _ _ "16 * i"] dir_entries_nth)
next
  case (Suc n)
  have i: "i < num_bytes e div 16" using Suc.hyps(2) by simp
  then have lt: "16 * i < num_bytes e" by linarith
  have cap: "2 \<le> room (it_cache st)" using Suc.prems(6) i by simp
  obtain buf' st1 where r: "read_dentry (bcache_ops me) con p (16 * i) buf st = Inr (buf', 16, st1)" and sv: "same_view sb A 2 st st1"
    and b: "length buf' = 16" "bytes_dirent buf' = dir_entries v e ! i"
    using read_dentry_ok [OF Suc.prems(1-3) i cap Suc.prems(7), of me con] Suc.prems(4) by blast
  note K = same_view_keeps [OF sv]
  let ?d = "dir_entries v e ! i"
  have dr: "drop i (dir_entries v e) = ?d # drop (Suc i) (dir_entries v e)"
    using i by (simp add: Cons_nth_drop_Suc dir_entries_nth(2))
  show ?case
  proof (cases "de_inode_no ?d = 0")
    case True
    have "same_view sb A (2 * (num_bytes e div 16 - i)) st st1"
      using sv i unfolding same_view_def by (elim exE conjE) (rule exI, auto)
    then show ?thesis using True r b lt dr by (subst insert_loop.simps) auto
  next
    case False
    have n: "n = num_bytes e div 16 - Suc i" using Suc.hyps(2) by simp
    have "\<exists>buf2 st'. insert_loop (bcache_ops me) con p (16 * Suc i) (num_bytes e) buf' st1 =
        Inr (16 * first_free (drop (Suc i) (dir_entries v e)) (Suc i), buf2, st') \<and> length buf2 = 16 \<and>
      same_view sb A (2 * (num_bytes e div 16 - Suc i)) st1 st'"
      by (rule Suc.hyps(1) [OF n K(1) K(9) [OF Suc.prems(2)]]) (use Suc.prems i K b in auto)
    then obtain buf2 st' where ih: "insert_loop (bcache_ops me) con p (16 * Suc i) (num_bytes e) buf' st1 =
        Inr (16 * first_free (drop (Suc i) (dir_entries v e)) (Suc i), buf2, st')" "length buf2 = 16"
      and sv': "same_view sb A (2 * (num_bytes e div 16 - Suc i)) st1 st'" by blast
    have "2 + 2 * (num_bytes e div 16 - Suc i) = 2 * (num_bytes e div 16 - i)" using i by simp
    then have "same_view sb A (2 * (num_bytes e div 16 - i)) st st'" using same_view_trans [OF sv sv'] by simp
    then show ?thesis using False r b lt dr ih by (subst insert_loop.simps) (auto simp: add.commute)
  qed
qed

text \<open>A write of one whole entry changes one element of the list.\<close>

lemma dir_entries_written:
  assumes w: "file_written sb p (16 * k) (dirent_bytes d) st st'" and ds: "dir_state sb p st"
    and d: "de_inode_no d < 2 ^ 16" "length (de_name d) = 14"
    and k: "k \<le> num_bytes (entry (ino_of st p)) div 16"
  shows "dir_entries (view (it_cache st')) (entry (ino_of st' p)) =
      put_at (dir_entries (view (it_cache st)) (entry (ino_of st p))) k d"
    "num_bytes (entry (ino_of st' p)) mod 16 = 0" "ity (entry (ino_of st' p)) = INODE_DIRECTORY"
proof -
  let ?e = "entry (ino_of st p)" and ?e' = "entry (ino_of st' p)" and ?v = "view (it_cache st)" and ?v' = "view (it_cache st')"
  note W = w [unfolded file_written_def Let_def]
  have ld: "length (dirent_bytes d) = 16" using d by simp
  obtain n where n: "num_bytes ?e = 16 * n" using ds by (auto simp: dir_state_def dest: mod_0_imp_dvd)
  have e': "?e' = ?e\<lparr>num_bytes := max (16 * n) (16 * k + 16), addrs := addrs ?e', indirect := indirect ?e'\<rparr>"
    using W ld n by simp
  have nb: "num_bytes ?e' = max (16 * n) (16 * k + 16)" "ity ?e' = ity ?e" by (subst e', simp)+
  then show "ity ?e' = 1" using ds by (simp add: dir_state_def)
  define n' where "n' = max n (Suc k)"
  have nb': "num_bytes ?e' = 16 * n'" using nb by (simp add: n'_def max_def)
  then show "num_bytes ?e' mod 16 = 0" by simp
  have by': "fbyte ?v' ?e' q = (if 16 * k \<le> q \<and> q < 16 * k + 16 then dirent_bytes d ! (q - 16 * k) else fbyte ?v ?e q)" if "q < 16 * n'" for q
    using W ld nb' that by simp
  have kn: "k \<le> n" using k n by simp
  show "dir_entries ?v' ?e' = put_at (dir_entries ?v ?e) k d"
  proof (rule nth_equalityI)
    show "length (dir_entries ?v' ?e') = length (put_at (dir_entries ?v ?e) k d)"
      using kn n nb' by (simp add: dir_entries_nth(2) put_at_def n'_def)
    fix i assume "i < length (dir_entries ?v' ?e')"
    then have i: "i < n'" using nb' by (simp add: dir_entries_nth(2))
    have ent: "dir_entries ?v' ?e' ! i = bytes_dirent (map (fbyte ?v' ?e') [16 * i..<16 * i + 16])"
      using i nb' by (simp add: dir_entries_nth(1))
    show "dir_entries ?v' ?e' ! i = put_at (dir_entries ?v ?e) k d ! i"
    proof (cases "i = k")
      case True
      have "map (fbyte ?v' ?e') [16 * i..<16 * i + 16] = dirent_bytes d"
        using True i ld by' by (intro nth_equalityI) auto
      then show ?thesis using ent True d kn n
        by (simp add: put_at_def dir_entries_nth(2) bytes_dirent_bytes nth_append)
    next
      case False
      then have lt: "i < n" using i kn by (simp add: n'_def max_def split: if_splits)
      have eq: "map (fbyte ?v' ?e') [16 * i..<16 * i + 16] = map (fbyte ?v ?e) [16 * i..<16 * i + 16]"
        using False i by' by (intro map_cong) (auto simp: atLeastLessThan_iff)
      have "dir_entries ?v' ?e' ! i = dir_entries ?v ?e ! i"
        using ent lt n unfolding eq by (simp add: dir_entries_nth(1))
      then show ?thesis using False lt n by (simp add: put_at_def dir_entries_nth(2) nth_append)
    qed
  qed
qed

lemma name_field_props: "length (name_field old name) = 14" "cstr (arr_of (name_field old name)) 14 = cstr (arr_of name) 14"
proof -
  show "length (name_field old name) = 14" by (simp add: name_field_def)
  have cong: "cstr_from s i n = cstr_from t i n" if "\<forall>j<n. s j = t j" for s t i n
    using that by (induction s i n rule: cstr_from.induct) (subst (1 2) cstr_from.simps, auto)
  have "cstr (arr_of (name_field old name)) 14 = cstr (strncpy (arr_of old) (arr_of name) 14) 14"
    unfolding cstr_def by (rule cong) (simp add: arr_of_def name_field_def)
  then show "cstr (arr_of (name_field old name)) 14 = cstr (arr_of name) 14" by (simp add: cstr_strncpy)
qed

definition dir_space :: "SuperBlock \<Rightarrow> nat \<Rightarrow> nat \<Rightarrow> bcache itree \<Rightarrow> bool" where
  "dir_space sb c p st \<longleftrightarrow> (let k = it_cache st; n = num_bytes (entry (ino_of st p)) div DIRENT_SIZE in
     card (ctx_blocks k c) + 4 < OP_MAX_NUM_BLOCKS \<and> 1 < card (group_area sb - allocated sb (view k)) \<and>
     2 * n + bitmap_scans sb + 7 < room k \<and> n < INODE_MAX_BYTES div DIRENT_SIZE)"

text \<open>\<open>inode_insert\<close> fills the first free slot, or appends.\<close>

lemma inode_insert_ok:
  assumes w: "write_ready sb A c st" and d: "dir_state sb p st" and sp: "dir_space sb c p st" and buf: "length buf = 16"
    and ds: "ds = dir_entries (view (it_cache st)) (entry (ino_of st p))" and k: "k = first_free ds 0"
  shows "\<exists>st' x. inode_insert (bcache_ops me) con cout (Some c) p name ino buf st = Inr (k, st') \<and>
    write_ready sb A c st' \<and> dir_state sb p st' \<and> dir_entries (view (it_cache st')) (entry (ino_of st' p)) = put_at ds k x \<and>
    de_inode_no x = ino mod 2 ^ 16 \<and> cstr (arr_of (de_name x)) 14 = cstr (arr_of name) 14"
proof -
  let ?e = "entry (ino_of st p)" and ?n = "num_bytes (entry (ino_of st p)) div 16"
  note S = sp [unfolded dir_space_def Let_def]
  have inv: "fs_inv sb A (it_cache st)" using w by (simp add: write_ready_def Let_def)
  have r2: "2 * (?n - 0) \<le> room (it_cache st)" using S by simp
  obtain buf' st1 where r: "insert_loop (bcache_ops me) con p (16 * 0) (num_bytes ?e) buf st = Inr (16 * k, buf', st1)"
    and b: "length buf' = 16" and sv: "same_view sb A (2 * (?n - 0)) st st1"
    using insert_loop_ok [OF inv d refl refl _ r2 buf, of me con] ds k by auto
  note K = same_view_keeps [OF sv]
  define x where "x = (bytes_dirent buf')\<lparr>de_inode_no := ino mod 2 ^ 16, de_name := name_field (de_name (bytes_dirent buf')) name\<rparr>"
  have x: "de_inode_no x < 2 ^ 16" "length (de_name x) = 14" "de_inode_no x = ino mod 2 ^ 16" "cstr (arr_of (de_name x)) 14 = cstr (arr_of name) 14"
    using name_field_props [of "de_name (bytes_dirent buf')" name] by (simp_all add: x_def)
  have lx: "length (dirent_bytes x) = 16" using x(2) by simp
  have kn: "k \<le> ?n" using first_free_range(2) [of ds 0] ds k dir_entries_nth(2) [of "view (it_cache st)" ?e] by simp
  have w1: "write_ready sb A c st1" and d1: "dir_state sb p st1" using K(8) [OF w] K(9) [OF d] by simp_all
  have f1: "file_state sb p st1" "ity (entry (ino_of st1 p)) \<noteq> 3" using d1 by (auto simp: dir_state_def)
  have nb: "num_bytes ?e = 16 * ?n" using d by (auto simp: dir_state_def dest: mod_0_imp_dvd)
  have off: "16 * k \<le> num_bytes (entry (ino_of st1 p))" using kn nb K(3) by (metis mult_le_mono2)
  have fin: "16 * k + 16 = 16 * k + length (dirent_bytes x)" "16 * k + 16 \<le> 71680" using lx S kn by simp_all
  have space: "write_space sb c (16 * k) (16 * k + 16) st1"
    using S K(2,5) K(6) [of c] touched_16 [of k] by (simp add: write_space_def Let_def)
  obtain st' where wr: "inode_write (bcache_ops me) cout (Some c) p (dirent_bytes x) (16 * k) (length (dirent_bytes x)) st1 = Inr (length (dirent_bytes x), st')"
    and fw: "file_written sb p (16 * k) (dirent_bytes x) st1 st'" and post: "write_ready sb A c st'" "file_state sb p st'"
    using inode_write_bcache [OF w1 f1 off fin space, of me cout] by blast
  have kn1: "k \<le> num_bytes (entry (ino_of st1 p)) div 16" using kn K(3) by simp
  note E = dir_entries_written [OF fw d1 x(1,2) kn1]
  have "inode_insert (bcache_ops me) con cout (Some c) p name ino buf st = Inr (k, st')"
    using r wr lx d by (simp add: inode_insert_def dir_state_def Let_def x_def)
  moreover have "dir_state sb p st'" using post(2) E by (simp add: dir_state_def)
  ultimately show ?thesis using post(1) E(1) K(2,3) ds x(3,4) by (intro exI [of _ st'] exI [of _ x]) simp
qed

text \<open>Lookup of the inserted name: found, unless an older entry of the same name comes first.\<close>

lemma first_hit_skip: "\<forall>d\<in>set ds. \<not> hit name d \<Longrightarrow> first_hit name ds i = (0, None)"
  by (induction ds arbitrary: i) auto

lemma first_hit_append: "\<forall>d\<in>set ds. \<not> hit name d \<Longrightarrow> first_hit name (ds @ es) i = first_hit name es (i + length ds)"
  by (induction ds arbitrary: i) auto

lemma first_hit_put_at:
  assumes "\<forall>d\<in>set ds. \<not> hit name d" "hit name x" "k \<le> length ds"
  shows "first_hit name (put_at ds k x) 0 = (de_inode_no x, Some k)"
proof -
  have "put_at ds k x = take k ds @ x # drop (Suc k) ds"
    using assms(3) by (simp add: put_at_def upd_conv_take_nth_drop)
  moreover have "\<forall>d\<in>set (take k ds). \<not> hit name d" using assms(1) by (auto dest: in_set_takeD)
  ultimately show ?thesis using assms(2,3) first_hit_append [of "take k ds" name "x # drop (Suc k) ds" 0] by simp
qed

text \<open>\<open>inode_remove\<close> clears one slot.\<close>

lemma zero_dirent: "replicate 16 0 = dirent_bytes \<lparr>de_inode_no = 0, de_name = replicate 14 0\<rparr>"
  by (simp add: dirent_bytes_def le_bytes_def numeral_nat)

lemma inode_remove_ok:
  assumes w: "write_ready sb A c st" and d: "dir_state sb p st" and sp: "dir_space sb c p st"
    and ds: "ds = dir_entries (view (it_cache st)) (entry (ino_of st p))" and k: "k < length ds"
  shows "\<exists>st'. inode_remove (bcache_ops me) cout (Some c) p k st = Inr st' \<and> write_ready sb A c st' \<and> dir_state sb p st' \<and>
    dir_entries (view (it_cache st')) (entry (ino_of st' p)) = ds[k := \<lparr>de_inode_no = 0, de_name = replicate 14 0\<rparr>]"
proof -
  let ?e = "entry (ino_of st p)" and ?n = "num_bytes (entry (ino_of st p)) div 16"
  let ?x = "\<lparr>de_inode_no = 0, de_name = replicate 14 0\<rparr> :: DirEntry"
  note S = sp [unfolded dir_space_def Let_def]
  have kn: "k < ?n" using k ds by (simp add: dir_entries_nth(2))
  have f: "file_state sb p st" "ity ?e \<noteq> 3" using d by (auto simp: dir_state_def)
  have nb: "num_bytes ?e = 16 * ?n" using d by (auto simp: dir_state_def dest: mod_0_imp_dvd)
  have small: "(k * 16) mod 2 ^ 64 = 16 * k" using kn S by simp
  have off: "16 * k \<le> num_bytes ?e" "16 * k < num_bytes ?e" using kn by linarith+
  have lx: "length (dirent_bytes ?x) = 16" by simp
  have fin: "16 * k + 16 = 16 * k + length (dirent_bytes ?x)" "16 * k + 16 \<le> 71680" using lx S kn by simp_all
  have space: "write_space sb c (16 * k) (16 * k + 16) st"
    using S touched_16 [of k] by (simp add: write_space_def Let_def)
  obtain st' where wr: "inode_write (bcache_ops me) cout (Some c) p (dirent_bytes ?x) (16 * k) (length (dirent_bytes ?x)) st = Inr (length (dirent_bytes ?x), st')"
    and fw: "file_written sb p (16 * k) (dirent_bytes ?x) st st'" and post: "write_ready sb A c st'" "file_state sb p st'"
    using inode_write_bcache [OF w f off(1) fin space, of me cout] by blast
  have x: "de_inode_no ?x < 2 ^ 16" "length (de_name ?x) = 14" by simp_all
  note E = dir_entries_written [OF fw d x less_imp_le [OF kn]]
  have run: "inode_remove (bcache_ops me) cout (Some c) p k st = Inr st'"
    unfolding inode_remove_def Let_def small zero_dirent using wr d off(2) lx by (simp add: dir_state_def)
  have "put_at ds k ?x = ds[k := ?x]" using k by (simp add: put_at_def)
  then show ?thesis using run post E ds by (intro exI [of _ st']) (simp add: dir_state_def)
qed

section \<open>Path elements\<close>

fun comps :: "bytes \<Rightarrow> bytes \<Rightarrow> bytes list" where
  "comps acc [] = [acc]"
| "comps acc (c # cs) = (if c = SLASH then acc # comps [] cs else comps (acc @ [c]) cs)"

definition path_elems :: "bytes \<Rightarrow> bytes list" where
  "path_elems path = filter (\<lambda>e. e \<noteq> []) (comps [] path)"

lemma comps_elem: "comps acc (s @ cs) = comps (acc @ s) cs" if "\<forall>c\<in>set s. c \<noteq> SLASH"
  using that by (induction s arbitrary: acc) auto

lemma path_elems_slashes: "path_elems (dropWhile (\<lambda>c. c = SLASH) path) = path_elems path"
  by (induction path) (auto simp: path_elems_def)

lemma path_elems_Nil: "path_elems [] = []"
  by (simp add: path_elems_def)

lemma path_elems_step:
  assumes "s \<noteq> []" "\<forall>c\<in>set s. c \<noteq> SLASH" "cs = [] \<or> hd cs = SLASH"
  shows "path_elems (s @ cs) = s # path_elems cs"
  using assms comps_elem [OF assms(2), of "[]" cs] by (cases cs) (auto simp: path_elems_def)

lemma cstr_take:
  assumes "\<forall>j<e. s j \<noteq> 0" "e \<le> n" "e < n \<longrightarrow> s e = 0"
  shows "cstr s n = map s [0..<e]"
  unfolding cstr_def using assms by (intro cstr_from_eq) auto

lemma skipelem_elems:
  assumes nul: "0 \<notin> set path" and len: "length name = 14"
  shows "case skipelem path name of
      None \<Rightarrow> path_elems path = []
    | Some (rest, name') \<Rightarrow> \<exists>e. path_elems path = e # path_elems rest \<and> cstr (arr_of name') 14 = take 14 e \<and>
        length name' = 14 \<and> (rest = [] \<or> hd rest \<noteq> SLASH) \<and> 0 \<notin> set rest"
proof -
  define p where "p = dropWhile (\<lambda>c. c = 47) path"
  define s where "s = takeWhile (\<lambda>c. c \<noteq> 47) p"
  define cs where "cs = dropWhile (\<lambda>c. c \<noteq> 47) p"
  define rest where "rest = dropWhile (\<lambda>c. c = 47) cs"
  have sub: "set p \<subseteq> set path" "set s \<subseteq> set p" "set rest \<subseteq> set cs" "set cs \<subseteq> set p"
    by (auto simp: p_def s_def cs_def rest_def dest: set_dropWhileD set_takeWhileD)
  show ?thesis
  proof (cases "p = []")
    case True
    then have "skipelem path name = None" by (simp add: skipelem_def p_def)
    moreover have "path_elems path = []" using path_elems_slashes [of path] True path_elems_Nil by (metis p_def)
    ultimately show ?thesis by simp
  next
    case False
    have hp: "hd p \<noteq> 47" using hd_dropWhile [of "\<lambda>c. c = 47" path] False by (simp add: p_def)
    have s: "s \<noteq> []" "\<forall>c\<in>set s. c \<noteq> 47" "cs = [] \<or> hd cs = 47" "p = s @ cs"
      using False hp hd_dropWhile [of "\<lambda>c. c \<noteq> 47" p] by (auto simp: s_def cs_def takeWhile_eq_Nil_iff dest: set_takeWhileD)
    have el: "path_elems path = s # path_elems rest"
      using path_elems_slashes [of path] path_elems_slashes [of cs] path_elems_step [OF s(1-3)] s(4)
      by (simp add: p_def [symmetric] rest_def)
    define name' where "name' = (if length s \<ge> 14 then overwrite name 0 (take 14 s) else (overwrite name 0 s)[length s := 0])"
    have r: "skipelem path name = Some (rest, name')"
      using False by (simp add: skipelem_def Let_def p_def [symmetric] s_def [symmetric] cs_def [symmetric] rest_def name'_def)
    have ln: "length name' = 14" using len by (simp add: name'_def min_def)
    have nz: "\<forall>c\<in>set s. c \<noteq> 0" using sub nul by blast
    let ?e = "min 14 (length s)"
    have nth: "arr_of name' j = s ! j" if "j < ?e" for j
    proof -
      have j: "j < 14" "j < length s" using that by simp_all
      then show ?thesis using ln len by (cases "14 \<le> length s") (simp_all add: arr_of_def name'_def nth_overwrite nth_list_update)
    qed
    have fin: "arr_of name' (length s) = 0" if "length s < 14"
      using that ln len by (auto simp: arr_of_def name'_def nth_overwrite nth_list_update min_def)
    have "cstr (arr_of name') 14 = map (arr_of name') [0..<?e]"
    proof (rule cstr_take)
      show "\<forall>j<?e. arr_of name' j \<noteq> 0"
      proof (intro allI impI)
        fix j assume j: "j < ?e"
        then have "s ! j \<in> set s" by simp
        then show "arr_of name' j \<noteq> 0" using nth [OF j] nz by simp
      qed
      show "?e < 14 \<longrightarrow> arr_of name' ?e = 0" using fin by (simp add: min_def)
    qed simp
    also have "\<dots> = take 14 s" using nth by (intro nth_equalityI) auto
    finally have "cstr (arr_of name') 14 = take 14 s" .
    moreover have "rest = [] \<or> hd rest \<noteq> 47" using hd_dropWhile [of "\<lambda>c. c = 47" cs] by (auto simp: rest_def)
    moreover have "0 \<notin> set rest" using sub nul by blast
    ultimately show ?thesis using r el ln by auto
  qed
qed

text \<open>Names other than the inserted one are found as before: the slot taken was free.\<close>

lemma first_free_slot: "first_free ds i < i + length ds \<Longrightarrow> de_inode_no (ds ! (first_free ds i - i)) = 0"
proof (induction ds arbitrary: i)
  case (Cons d ds)
  show ?case
  proof (cases "de_inode_no d = 0")
    case False
    then have "Suc i \<le> first_free ds (Suc i)" by (intro first_free_range(1))
    then have "first_free ds (Suc i) - i = Suc (first_free ds (Suc i) - Suc i)" by simp
    then show ?thesis using Cons False by simp
  qed simp
qed simp

lemma first_hit_swap: "\<lbrakk>\<not> hit name x; \<not> hit name y\<rbrakk> \<Longrightarrow> first_hit name (as @ x # bs) i = first_hit name (as @ y # bs) i"
  by (induction as arbitrary: i) auto

lemma first_hit_end: "\<not> hit name x \<Longrightarrow> first_hit name (ds @ [x]) i = first_hit name ds i"
  by (induction ds arbitrary: i) auto

lemma first_hit_other:
  assumes "k = first_free ds 0" "\<not> hit name x"
  shows "first_hit name (put_at ds k x) 0 = first_hit name ds 0"
proof (cases "k < length ds")
  case True
  then have "de_inode_no (ds ! k) = 0" using first_free_slot [of ds 0] assms(1) by simp
  then have "\<not> hit name (ds ! k)" by (simp add: hit_def)
  then show ?thesis using True first_hit_swap [OF assms(2), of "ds ! k" "take k ds" "drop (Suc k) ds" 0]
    by (simp add: put_at_def upd_conv_take_nth_drop id_take_nth_drop [symmetric])
qed (use assms(2) in \<open>simp add: put_at_def first_hit_end\<close>)

section \<open>The sample directory\<close>

lemma sample_dir: "dir_state sample_sb 1 sample_tree" "dir_space sample_sb 0 1 sample_tree"
  "dir_entries (view (it_cache sample_tree)) (entry (ino_of sample_tree 1)) = [sample_name]"
proof -
  have e: "entry (ino_of sample_tree 1) = sample_direntry" "it_cache sample_tree = sample_cache" by (simp_all add: sample_tree_def)
  have z: "ity sample_direntry = 1" "num_bytes sample_direntry = 16" "addrs sample_direntry = 70 # replicate 11 0"
    by (simp_all add: sample_direntry_def zero_entry_def)
  show "dir_state sample_sb 1 sample_tree" using sample_file_state(2) e z by (simp add: dir_state_def)
  have "length (dirent_bytes sample_name) = 16" "de_inode_no sample_name < 2 ^ 16" "length (de_name sample_name) = 14"
    by (simp_all add: sample_name_def)
  note l = this
  have "map (fbyte sample_disk sample_direntry) [0..<16] = dirent_bytes sample_name"
  proof (rule nth_equalityI)
    fix i assume "i < length (map (fbyte sample_disk sample_direntry) [0..<16])"
    then have i: "i < 16" by simp
    then have "fbyte sample_disk sample_direntry i = sample_disk 70 ! i" by (simp add: fbyte_def fblock_def z)
    also have "\<dots> = dirent_bytes sample_name ! i" using i l(1) by (simp add: sample_disk_def nth_append)
    finally show "map (fbyte sample_disk sample_direntry) [0..<16] ! i = dirent_bytes sample_name ! i" using i by simp
  qed (simp add: l)
  then show "dir_entries (view (it_cache sample_tree)) (entry (ino_of sample_tree 1)) = [sample_name]"
    using l bytes_dirent_bytes [of sample_name] unfolding e by (simp add: dir_entries_def z sample_view)
  have "write_space sample_sb 0 0 512 sample_tree" by (rule sample_space) (simp add: touched_def)
  then have "1 < card (group_area sample_sb - allocated sample_sb (view sample_cache))" by (simp add: write_space_def Let_def touched_def e)
  moreover have "bitmap_scans sample_sb = 10" by (simp add: bitmap_scans_def bitmap_offs_def sample_sb_def)
  ultimately show "dir_space sample_sb 0 1 sample_tree" using e z sample_ctx [of 0] sample_room by (simp add: dir_space_def Let_def)
qed

end
