(* ===== verification/Format.thy ===== *)
theory Format
  imports Prelude
begin

text \<open>
  \<open>common/format.c\<close>: the kernel's \<open>printf\<close> engine.  The \<open>put_char\<close> callback is the output string it
  produces.  The digit loop fills the static \<open>buf[64]\<close> least significant digit first; writing past
  it is a \<open>Fault\<close>, and \<open>digit_loop_ok\<close> shows it never happens for a base of at least two.
\<close>

definition digit :: string where
  "digit = ''0123456789abcdef''"

text \<open>\<open>do { *pos++ = digit[v % base]; } while (v /= base);\<close> with \<open>buf\<close> what was stored so far.\<close>

function digit_loop :: "u64 \<Rightarrow> u64 \<Rightarrow> string \<Rightarrow> string res" where
  "digit_loop v base buf =
     (if length buf \<ge> 64 \<or> unat (v mod base) \<ge> length digit then Inl (Fault ''buf'')
      else let buf = buf @ [digit ! unat (v mod base)]; v = v div base
           in if v \<noteq> 0 then digit_loop v base buf else Inr buf)"
  by pat_completeness auto
termination by (relation "measure (\<lambda>(v, base, buf). 64 - length buf)") auto

declare digit_loop.simps [simp del]

definition print_int :: "u64 \<Rightarrow> u64 \<Rightarrow> bool \<Rightarrow> string res" where
  "print_int u base is_signed =
     (let neg = (is_signed \<and> sint u < 0);
          v = (if neg then - u else u)
      in bnd (digit_loop v base []) (\<lambda>buf. Inr ((if neg then ''-'' else []) @ rev buf)))"

text \<open>A variadic argument is an integer register or a string pointer (\<open>None\<close> is \<open>NULL\<close>).\<close>

datatype farg = FInt u64 | FStr "string option"

datatype fty = U32 | I32 | U64

text \<open>\<open>(i64)va_arg(arg, type)\<close>: the register read at its type and widened to 64 bits.\<close>

fun widen :: "fty \<Rightarrow> u64 \<Rightarrow> u64" where
  "widen U32 x = ucast (ucast x :: u32)"
| "widen I32 x = scast (ucast x :: u32)"
| "widen U64 x = x"

text \<open>The \<open>_INT_CASE\<close> lines in their order: directive, argument type, base, signed.\<close>

definition int_cases :: "(string \<times> fty \<times> u64 \<times> bool) list" where
  "int_cases =
    [(''u'', U32, 10, False), (''llu'', U64, 10, False), (''d'', I32, 10, True),
     (''lld'', U64, 10, True), (''x'', U32, 16, False), (''llx'', U64, 16, False),
     (''p'', U64, 16, False), (''zu'', U64, 10, False), (''zd'', U64, 10, True)]"

definition match_int :: "string \<Rightarrow> (string \<times> fty \<times> u64 \<times> bool) option" where
  "match_int pos = find (\<lambda>(ident, _). take (length ident) pos = ident) int_cases"

lemma match_int_nonempty: "match_int pos = Some (ident, r) \<Longrightarrow> ident \<noteq> [] \<and> length ident \<le> length pos"
proof -
  assume "match_int pos = Some (ident, r)"
  then have "(ident, r) \<in> set int_cases" "take (length ident) pos = ident"
    by (auto simp: match_int_def find_Some_iff dest: nth_mem)
  moreover from this(2) have "length ident \<le> length pos"
    by (metis length_take min.cobounded1)
  ultimately show ?thesis by (auto simp: int_cases_def)
qed

definition va_int :: "farg list \<Rightarrow> (u64 \<times> farg list) res" where
  "va_int args = (case args of FInt x # rest \<Rightarrow> Inr (x, rest) | _ \<Rightarrow> Inl (Fault ''va_arg''))"

definition va_str :: "farg list \<Rightarrow> (string option \<times> farg list) res" where
  "va_str args = (case args of FStr x # rest \<Rightarrow> Inr (x, rest) | _ \<Rightarrow> Inl (Fault ''va_arg''))"

definition emit :: "string \<Rightarrow> string res \<Rightarrow> string res" where
  "emit out r = bnd r (\<lambda>s. Inr (out @ s))"

text \<open>One iteration per character of the format; a directive consumes its identifier too.\<close>

function (sequential) vformat :: "string \<Rightarrow> farg list \<Rightarrow> string res" where
  "vformat [] arg = Inr []"
| "vformat (c # pos) arg =
     (if c = CHR ''%'' then
        if take 1 pos = ''%'' then emit ''%'' (vformat (drop 1 pos) arg)
        else if take 1 pos = ''c'' then
          bnd (va_int arg) (\<lambda>(x, arg). emit [char_of (unat x)] (vformat (drop 1 pos) arg))
        else if take 1 pos = ''s'' then
          bnd (va_str arg) (\<lambda>(s, arg).
            emit (case s of None \<Rightarrow> ''(null)'' | Some s \<Rightarrow> s) (vformat (drop 1 pos) arg))
        else (case match_int pos of
            Some (ident, ty, base, sg) \<Rightarrow>
              bnd (va_int arg) (\<lambda>(x, arg).
              bnd (print_int (widen ty x) base sg) (\<lambda>out.
              emit out (vformat (drop (length ident) pos) arg)))
          | None \<Rightarrow> emit [c] (vformat pos arg))
      else emit [c] (vformat pos arg))"
  by pat_completeness auto
termination
  by (relation "measure (\<lambda>(fmt, arg). length fmt)") (auto simp: match_int_nonempty)

section \<open>Digits\<close>

text \<open>The value of a digit string, most significant digit first.\<close>

fun digit_val :: "char \<Rightarrow> nat" where
  "digit_val c = (case find (\<lambda>i. digit ! i = c) [0..<16] of Some i \<Rightarrow> i | None \<Rightarrow> 0)"

fun rev_val :: "nat \<Rightarrow> string \<Rightarrow> nat" where
  "rev_val base [] = 0"
| "rev_val base (c # cs) = digit_val c + base * rev_val base cs"

definition num_val :: "nat \<Rightarrow> string \<Rightarrow> nat" where
  "num_val base s = rev_val base (rev s)"

lemma length_digit [simp]: "length digit = 16"
  by (simp add: digit_def)

lemma digit_val_digit: "i < 16 \<Longrightarrow> digit_val (digit ! i) = i"
proof -
  have "\<forall>i\<in>set [0..<16]. digit_val (digit ! i) = i" by (simp add: digit_def upt_rec)
  then show "i < 16 \<Longrightarrow> digit_val (digit ! i) = i" by simp
qed

lemma rev_val_append: "rev_val b (xs @ ys) = rev_val b xs + b ^ length xs * rev_val b ys"
  by (induction xs) (simp_all add: algebra_simps)

text \<open>With at least \<open>v < base ^ (64 - length buf)\<close> the loop stays inside the buffer and appends the
  digits of \<open>v\<close>.\<close>

lemma digit_loop_val:
  assumes "2 \<le> unat base" "unat base \<le> 16" "length buf < 64"
    "unat v < unat base ^ (64 - length buf)"
  shows "\<exists>ds. digit_loop v base buf = Inr (buf @ ds) \<and> ds \<noteq> [] \<and> length (buf @ ds) \<le> 64 \<and>
    rev_val (unat base) ds = unat v"
  using assms
proof (induction v base buf rule: digit_loop.induct)
  case (1 v base buf)
  let ?d = "digit ! unat (v mod base)"
  have m: "unat (v mod base) < unat base" using "1.prems"(1) by (simp add: unat_mod)
  have dv: "digit_val ?d = unat v mod unat base"
    using digit_val_digit [of "unat (v mod base)"] m "1.prems"(2) by (simp add: unat_mod)
  have guard: "\<not> (length buf \<ge> 64 \<or> unat (v mod base) \<ge> length digit)"
    using m "1.prems"(2,3) by simp
  show ?case
  proof (cases "v div base = 0")
    case True
    then have "unat v div unat base = 0" by (metis unat_div unat_0)
    then have "rev_val (unat base) [?d] = unat v"
      using dv div_mult_mod_eq [of "unat v" "unat base"] by simp
    moreover have "digit_loop v base buf = Inr (buf @ [?d])"
      using guard True by (simp add: digit_loop.simps [of v base buf] Let_def)
    ultimately show ?thesis using "1.prems"(3) by (intro exI [of _ "[?d]"]) simp
  next
    case False
    have step: "digit_loop v base buf = digit_loop (v div base) base (buf @ [?d])"
      using guard False by (simp add: digit_loop.simps [of v base buf] Let_def)
    have e: "64 - length buf = Suc (64 - length (buf @ [?d]))" using "1.prems"(3) by simp
    have lt: "unat (v div base) < unat base ^ (64 - length (buf @ [?d]))"
      using "1.prems"(1,4) e by (simp add: unat_div div_less_iff_less_mult mult.commute)
    have "length (buf @ [?d]) < 64"
    proof (rule ccontr)
      assume "\<not> ?thesis"
      then have "unat (v div base) = 0" using lt by simp
      then show False using False by (simp add: unat_eq_zero)
    qed
    with lt guard False "1.prems"(1,2) obtain ds where ds:
      "digit_loop (v div base) base (buf @ [?d]) = Inr ((buf @ [?d]) @ ds)"
      "length ((buf @ [?d]) @ ds) \<le> 64" "rev_val (unat base) ds = unat (v div base)"
      using "1.IH" [OF guard refl refl False] by blast
    have "rev_val (unat base) (?d # ds) = unat v"
      using ds(3) dv by (simp add: unat_div)
    then show ?thesis using step ds by (intro exI [of _ "?d # ds"]) simp
  qed
qed

lemma digit_loop_ok:
  assumes "2 \<le> unat base" "unat base \<le> 16"
  shows "\<exists>ds. digit_loop v base [] = Inr ds \<and> ds \<noteq> [] \<and> length ds \<le> 64 \<and> rev_val (unat base) ds = unat v"
proof -
  have "unat v < 2 ^ 64" using unsigned_less [of v, where ?'a = nat] by simp
  also have "(2::nat) ^ 64 \<le> unat base ^ 64" using assms(1) by (rule power_mono) simp
  finally show ?thesis using digit_loop_val [of base "[]" v] assms by simp
qed

text \<open>What \<open>_print_int\<close> prints, read back, is the number it was given.\<close>

definition int_val :: "nat \<Rightarrow> string \<Rightarrow> int" where
  "int_val base s = (if take 1 s = ''-'' then - int (num_val base (tl s)) else int (num_val base s))"

lemma digit_no_minus: "i < 16 \<Longrightarrow> digit ! i \<noteq> CHR ''-''"
proof -
  have "CHR ''-'' \<notin> set digit" by (simp add: digit_def)
  then show "i < 16 \<Longrightarrow> digit ! i \<noteq> CHR ''-''" by (metis length_digit nth_mem)
qed

lemma digit_loop_chars: "\<lbrakk>digit_loop v base buf = Inr ds; CHR ''-'' \<notin> set buf\<rbrakk> \<Longrightarrow> CHR ''-'' \<notin> set ds"
proof (induction v base buf rule: digit_loop.induct)
  case (1 v base buf)
  show ?case
  proof (cases "length buf \<ge> 64 \<or> unat (v mod base) \<ge> length digit")
    case True
    then show ?thesis using "1.prems" by (simp add: digit_loop.simps [of v base buf])
  next
    case False
    then have nm: "CHR ''-'' \<notin> set (buf @ [digit ! unat (v mod base)])"
      using "1.prems"(2) digit_no_minus [of "unat (v mod base)"] by auto
    show ?thesis
    proof (cases "v div base = 0")
      case True
      then show ?thesis using False "1.prems"(1) nm
        by (auto simp: digit_loop.simps [of v base buf] Let_def)
    next
      case nz: False
      have "digit_loop (v div base) base (buf @ [digit ! unat (v mod base)]) = Inr ds"
        using False nz "1.prems"(1) by (simp add: digit_loop.simps [of v base buf] Let_def)
      then show ?thesis by (rule "1.IH" [OF False refl refl nz _ nm])
    qed
  qed
qed

lemma int_val_digits: "CHR ''-'' \<notin> set s \<Longrightarrow> int_val base s = int (num_val base s)"
  by (cases s) (auto simp: int_val_def)

lemma unat_uminus_neg: "sint (u :: u64) < 0 \<Longrightarrow> int (unat (- u)) = - sint u"
proof -
  assume neg: "sint u < 0"
  have ge: "- (2 ^ 63) \<le> sint u" using sint_ge [of u] by simp
  have "- u = word_of_int (- sint u)" by simp
  then have "uint (- u) = (- sint u) mod 2 ^ 64"
    by (simp only: uint_word_of_int) simp
  also have "\<dots> = - sint u" using neg ge by (intro mod_pos_pos_trivial) simp_all
  finally have "uint (- u) = - sint u" .
  then show ?thesis by simp
qed

lemma sint_nonneg_uint: "0 \<le> sint (u :: u64) \<Longrightarrow> sint u = uint u"
proof -
  assume nn: "0 \<le> sint u"
  have "uint u = sint u mod 2 ^ 64"
    using uint_word_of_int [of "sint u", where ?'a = 64] by simp
  also have "\<dots> = sint u"
    using nn sint_lt [of u] by (intro mod_pos_pos_trivial) simp_all
  finally show "sint u = uint u" by simp
qed

lemma print_int_val:
  assumes "2 \<le> unat base" "unat base \<le> 16"
  shows "\<exists>out. print_int u base sg = Inr out \<and> length out \<le> 65 \<and>
    int_val (unat base) out = (if sg then sint u else uint u)"
proof -
  define neg where "neg = (sg \<and> sint u < 0)"
  define v where "v = (if neg then - u else u)"
  obtain ds where ds: "digit_loop v base [] = Inr ds" "ds \<noteq> []" "length ds \<le> 64"
    "rev_val (unat base) ds = unat v"
    using digit_loop_ok [OF assms] by blast
  then have nm: "CHR ''-'' \<notin> set (rev ds)" using digit_loop_chars [of v base "[]" ds] by simp
  have p: "print_int u base sg = Inr ((if neg then ''-'' else []) @ rev ds)"
    using ds(1) by (simp add: print_int_def Let_def neg_def v_def)
  have val: "int_val (unat base) ((if neg then ''-'' else []) @ rev ds) = (if sg then sint u else uint u)"
  proof (cases neg)
    case True
    then show ?thesis using ds(4) unat_uminus_neg [of u]
      by (simp add: int_val_def num_val_def neg_def v_def)
  next
    case False
    have "sg \<Longrightarrow> sint u = uint u"
      using False by (simp add: neg_def sint_nonneg_uint)
    then show ?thesis using False ds(4) int_val_digits [OF nm]
      by (simp add: num_val_def v_def)
  qed
  show ?thesis using p val ds(3) by (intro exI [of _ "(if neg then ''-'' else []) @ rev ds"]) simp
qed

end
