(* ===== verification/ListNode.thy ===== *)
theory ListNode
  imports Prelude
begin

text \<open>
  \<open>common/list.c\<close>: circular doubly linked lists of embedded nodes.  The heap maps a node's address
  to its \<open>prev\<close> and \<open>next\<close> fields; \<open>ring h xs\<close> says that the nodes \<open>xs\<close> form one circular list in
  that order.  Merging and detaching are shown to be concatenation and removal on \<open>xs\<close>, and the
  locale \<open>head_list\<close> states what the block cache, the inode cache and the arena use of them.
\<close>

record lheap =
  prevp :: "addr \<Rightarrow> addr"
  nextp :: "addr \<Rightarrow> addr"

definition init_list_node :: "addr \<Rightarrow> lheap \<Rightarrow> lheap" where
  "init_list_node node h =
     (let h = h\<lparr>prevp := (prevp h)(node := node)\<rparr>
      in h\<lparr>nextp := (nextp h)(node := node)\<rparr>)"

text \<open>The four stores in the order of the source; node3 and node4 are read before them.\<close>

definition merge_list :: "addr \<Rightarrow> addr \<Rightarrow> lheap \<Rightarrow> addr \<times> lheap" where
  "merge_list node1 node2 h =
     (if node1 = 0 then (node2, h)
      else if node2 = 0 then (node1, h)
      else
        let node3 = nextp h node1;
            node4 = prevp h node2;
            h = h\<lparr>nextp := (nextp h)(node1 := node2)\<rparr>;
            h = h\<lparr>prevp := (prevp h)(node2 := node1)\<rparr>;
            h = h\<lparr>nextp := (nextp h)(node4 := node3)\<rparr>;
            h = h\<lparr>prevp := (prevp h)(node3 := node4)\<rparr>
        in (node1, h))"

definition detach_from_list :: "addr \<Rightarrow> lheap \<Rightarrow> addr \<times> lheap" where
  "detach_from_list node h =
     (let prev = prevp h node;
          h = h\<lparr>nextp := (nextp h)(prevp h node := nextp h node)\<rparr>;
          h = h\<lparr>prevp := (prevp h)(nextp h node := prevp h node)\<rparr>;
          h = init_list_node node h
      in (if prev = node then 0 else prev, h))"

section \<open>Circular lists\<close>

fun seg :: "lheap \<Rightarrow> addr list \<Rightarrow> bool" where
  "seg h (x # y # zs) = (nextp h x = y \<and> prevp h y = x \<and> seg h (y # zs))"
| "seg h _ = True"

definition ring :: "lheap \<Rightarrow> addr list \<Rightarrow> bool" where
  "ring h xs \<longleftrightarrow> xs \<noteq> [] \<and> distinct xs \<and> seg h (xs @ [hd xs])"

lemma seg_append: "seg h (xs @ y # zs) \<longleftrightarrow> seg h (xs @ [y]) \<and> seg h (y # zs)"
proof (induction xs)
  case Nil
  then show ?case by simp
next
  case (Cons x xs)
  then show ?case by (cases xs) auto
qed

lemma seg_prefix: "seg h (xs @ ys) \<Longrightarrow> seg h xs"
  by (induction h xs rule: seg.induct) auto

lemma seg_suffix: "seg h (x # ys) \<Longrightarrow> seg h ys"
  by (cases ys) auto

lemma seg_frame:
  "\<lbrakk>\<forall>x\<in>set (butlast zs). nextp h' x = nextp h x; \<forall>x\<in>set (tl zs). prevp h' x = prevp h x\<rbrakk>
    \<Longrightarrow> seg h' zs = seg h zs"
  by (induction h zs rule: seg.induct) auto

lemma ring_single: "ring h [x] \<longleftrightarrow> nextp h x = x \<and> prevp h x = x"
  by (auto simp: ring_def)

lemma ring_init [simp]: "ring (init_list_node x h) [x]"
  by (simp add: ring_single init_list_node_def Let_def)

lemma ring_rotate: "ring h (x # xs @ y # ys) \<longleftrightarrow> ring h (y # ys @ x # xs)"
proof -
  have "seg h ((x # xs) @ (y # ys) @ [x]) \<longleftrightarrow> seg h ((y # ys) @ (x # xs) @ [y])"
    using seg_append [of h "x # xs" y "ys @ [x]"] seg_append [of h "y # ys" x "xs @ [y]"] by auto
  then show ?thesis by (auto simp: ring_def)
qed

lemma ring_nextD: "ring h (x # xs) \<Longrightarrow> nextp h x = hd (xs @ [x])"
  by (cases xs) (simp_all add: ring_def)

lemma ring_prevD: "ring h (x # xs) \<Longrightarrow> prevp h x = last (x # xs)"
proof -
  assume r: "ring h (x # xs)"
  show ?thesis
  proof (cases xs rule: rev_cases)
    case Nil
    with r show ?thesis by (simp add: ring_single)
  next
    case (snoc ys y)
    with r have "seg h ((x # ys) @ [y, x])" by (simp add: ring_def)
    then have "prevp h x = y" unfolding seg_append [of h "x # ys" y "[x]"] by simp
    with snoc show ?thesis by simp
  qed
qed

text \<open>A ring is unchanged by stores to nodes outside it.\<close>

lemma ring_frame:
  assumes "ring h xs" "\<forall>x\<in>set xs. nextp h' x = nextp h x \<and> prevp h' x = prevp h x"
  shows "ring h' xs"
proof -
  have "set (tl (xs @ [hd xs])) \<subseteq> set xs" using assms(1)
    by (cases xs) (auto simp: ring_def)
  then have "seg h' (xs @ [hd xs]) = seg h (xs @ [hd xs])"
    using assms(2) by (intro seg_frame) (auto simp: butlast_append)
  then show ?thesis using assms(1) by (simp add: ring_def)
qed

section \<open>Merging and detaching\<close>

lemma merge_list_fields:
  assumes "node1 \<noteq> 0" "node2 \<noteq> 0" "merge_list node1 node2 h = (r, h')"
    and n3: "node3 = nextp h node1" and n4: "node4 = prevp h node2"
  shows "r = node1"
    and "nextp h' = (nextp h)(node1 := node2, node4 := node3)"
    and "prevp h' = (prevp h)(node2 := node1, node3 := node4)"
  using assms by (auto simp: merge_list_def Let_def)

lemma merge_list_ring:
  assumes r1: "ring h (node1 # xs)" and r2: "ring h (node2 # ys)"
    and disj: "set (node1 # xs) \<inter> set (node2 # ys) = {}"
    and nz: "node1 \<noteq> 0" "node2 \<noteq> 0"
    and m: "merge_list node1 node2 h = (r, h')"
  shows "ring h' (node1 # node2 # ys @ xs)" and "r = node1"
proof -
  define node3 where "node3 = nextp h node1"
  define node4 where "node4 = prevp h node2"
  have n3: "node3 = hd (xs @ [node1])" using ring_nextD [OF r1] by (simp add: node3_def)
  have n4: "node4 = last (node2 # ys)" using ring_prevD [OF r2] by (simp add: node4_def)
  note f = merge_list_fields [OF nz m node3_def node4_def]
  show "r = node1" by (rule f(1))
  have d1: "distinct (node1 # xs)" and d2: "distinct (node2 # ys)"
    using r1 r2 by (simp_all add: ring_def)
  have n4_in: "node4 \<in> set (node2 # ys)" using n4 by (metis last_in_set list.discI)
  have n3_in: "node3 \<in> set (node1 # xs)" using n3 by (cases xs) auto
  have split2: "node2 # ys = butlast (node2 # ys) @ [node4]"
    using n4 by (metis append_butlast_last_id list.discI)
  have n4_nb: "node4 \<notin> set (butlast (node2 # ys))" using d2 split2
    by (metis distinct_append disjoint_iff list.set_intros(1))
  have s2: "seg h' (node2 # ys)"
  proof -
    have "seg h (node2 # ys)" using r2 seg_prefix [of h "node2 # ys" "[node2]"] by (simp add: ring_def)
    moreover have "seg h' (node2 # ys) = seg h (node2 # ys)"
    proof (rule seg_frame)
      show "\<forall>x\<in>set (butlast (node2 # ys)). nextp h' x = nextp h x"
        using disj n4_nb by (auto simp: f(2) dest: in_set_butlastD split: if_splits)
      show "\<forall>x\<in>set (tl (node2 # ys)). prevp h' x = prevp h x"
        using disj n3_in d2 by (auto simp: f(3))
    qed
    ultimately show ?thesis by simp
  qed
  have s1: "seg h' (xs @ [node1])"
  proof -
    have "seg h (xs @ [node1])" using r1 by (cases xs) (simp_all add: ring_def)
    moreover have "seg h' (xs @ [node1]) = seg h (xs @ [node1])"
    proof (rule seg_frame)
      show "\<forall>x\<in>set (butlast (xs @ [node1])). nextp h' x = nextp h x"
        using disj n4_in d1 by (auto simp: f(2))
      show "\<forall>x\<in>set (tl (xs @ [node1])). prevp h' x = prevp h x"
        using disj n3 d1 by (cases xs) (auto simp: f(3))
    qed
    ultimately show ?thesis by simp
  qed
  have l12: "nextp h' node1 = node2" "prevp h' node2 = node1"
    using disj n4_in n3_in by (auto simp: f(2,3))
  have l43: "nextp h' node4 = node3" "prevp h' node3 = node4"
    by (simp_all add: f(2,3))
  have "seg h' (node4 # xs @ [node1])"
    using l43 s1 n3 by (cases xs) simp_all
  then have "seg h' (node2 # ys @ xs @ [node1])"
    using s2 split2 seg_append [of h' "butlast (node2 # ys)" node4 "xs @ [node1]"]
    by (metis append.assoc append_Cons append_Nil)
  then have "seg h' ((node1 # node2 # ys @ xs) @ [node1])" using l12 by simp
  moreover have "distinct (node1 # node2 # ys @ xs)" using d1 d2 disj by auto
  ultimately show "ring h' (node1 # node2 # ys @ xs)" by (simp add: ring_def)
qed

lemma detach_single:
  "ring h [node] \<Longrightarrow> detach_from_list node h = (0, h') \<longleftrightarrow> h' = h"
  by (cases h) (auto simp: ring_single detach_from_list_def init_list_node_def Let_def fun_upd_idem)

lemma detach_fields:
  assumes "ring h (node # xs)" "xs \<noteq> []" "detach_from_list node h = (r, h')"
  shows "r = last xs"
    and "nextp h' = (nextp h)(last xs := hd xs, node := node)"
    and "prevp h' = (prevp h)(hd xs := last xs, node := node)"
proof -
  have n: "nextp h node = hd xs" and p: "prevp h node = last xs"
    using ring_nextD [OF assms(1)] ring_prevD [OF assms(1)] assms(2) by simp_all
  have d: "node \<noteq> last xs" "node \<noteq> hd xs"
    using assms(1,2) by (auto simp: ring_def)
  show "r = last xs" "nextp h' = (nextp h)(last xs := hd xs, node := node)"
    "prevp h' = (prevp h)(hd xs := last xs, node := node)"
    using assms(3) n p d by (auto simp: detach_from_list_def init_list_node_def Let_def)
qed

lemma detach_ring:
  assumes r: "ring h (node # xs)" and ne: "xs \<noteq> []"
    and d: "detach_from_list node h = (r, h')"
  shows "ring h' xs" and "ring h' [node]" and "r = last xs"
proof -
  note f = detach_fields [OF r ne d]
  show "r = last xs" by (rule f(1))
  show "ring h' [node]" by (simp add: ring_single f)
  have dx: "distinct (node # xs)" using r by (simp add: ring_def)
  have sx: "seg h xs"
    using r seg_prefix [of h "node # xs" "[node]"] seg_suffix [of h node xs] by (simp add: ring_def)
  have "seg h' xs = seg h xs"
  proof (rule seg_frame)
    have "last xs \<notin> set (butlast xs)" using dx ne
      by (metis append_butlast_last_id distinct.simps(2) distinct_append disjoint_iff list.set_intros(1))
    then show "\<forall>x\<in>set (butlast xs). nextp h' x = nextp h x"
      using dx by (auto simp: f(2) dest: in_set_butlastD split: if_splits)
    show "\<forall>x\<in>set (tl xs). prevp h' x = prevp h x"
      using dx ne by (cases xs) (auto simp: f(3))
  qed
  then have "seg h' xs" using sx by simp
  moreover have "nextp h' (last xs) = hd xs" "prevp h' (hd xs) = last xs"
    using dx ne by (auto simp: f(2,3))
  ultimately have "seg h' (butlast xs @ last xs # [hd xs])"
    using ne seg_append [of h' "butlast xs" "last xs" "[hd xs]"] by simp
  then show "ring h' xs" using ne dx
    by (simp add: ring_def) (metis append_Cons append_Nil append_assoc append_butlast_last_id)
qed

section \<open>Lists under a head node\<close>

text \<open>
  The interface the caches use: a list hangs under a fixed head node, single nodes are pushed to
  its front and any member is taken out.  \<open>rep h xs\<close> is the list in order from the head's \<open>next\<close>.
\<close>

locale head_list =
  fixes rep :: "'h \<Rightarrow> addr list \<Rightarrow> bool"
    and single :: "'h \<Rightarrow> addr \<Rightarrow> bool"
    and usable :: "addr \<Rightarrow> bool"
    and push :: "addr \<Rightarrow> 'h \<Rightarrow> 'h"
    and take_out :: "addr \<Rightarrow> 'h \<Rightarrow> 'h"
  assumes rep_distinct: "rep h xs \<Longrightarrow> distinct xs"
    and push_rep: "\<lbrakk>rep h xs; single h x; usable x; x \<notin> set xs\<rbrakk> \<Longrightarrow> rep (push x h) (x # xs)"
    and take_out_rep: "\<lbrakk>rep h (as @ x # bs); usable x\<rbrakk> \<Longrightarrow> rep (take_out x h) (as @ bs)"
    and take_out_single: "\<lbrakk>rep h (as @ x # bs); usable x\<rbrakk> \<Longrightarrow> single (take_out x h) x"
begin

lemma move_to_front:
  assumes "rep h xs" "x \<in> set xs" "usable x"
  shows "rep (push x (take_out x h)) (x # remove1 x xs)"
proof -
  from assms(2) obtain as bs where xs: "xs = as @ x # bs" "x \<notin> set as"
    by (meson split_list_first)
  have "distinct xs" using assms(1) by (rule rep_distinct)
  then have "remove1 x xs = as @ bs" "x \<notin> set (as @ bs)"
    using xs by (simp_all add: remove1_append)
  then show ?thesis
    using assms xs push_rep take_out_rep take_out_single by metis
qed

end

interpretation headed: head_list
  "\<lambda>h xs. ring h (head # xs) \<and> head \<noteq> 0" "\<lambda>h x. ring h [x]" "\<lambda>x. x \<noteq> 0 \<and> x \<noteq> head"
  "\<lambda>x h. snd (merge_list head x h)" "\<lambda>x h. snd (detach_from_list x h)" for head
proof
  fix h xs x as bs
  show "ring h (head # xs) \<and> head \<noteq> 0 \<Longrightarrow> distinct xs" by (simp add: ring_def)
  show "\<lbrakk>ring h (head # xs) \<and> head \<noteq> 0; ring h [x]; x \<noteq> 0 \<and> x \<noteq> head; x \<notin> set xs\<rbrakk> \<Longrightarrow>
      ring (snd (merge_list head x h)) (head # x # xs) \<and> head \<noteq> 0"
    using merge_list_ring(1) [of h head xs x "[]"] by (cases "merge_list head x h") auto
  show "\<lbrakk>ring h (head # as @ x # bs) \<and> head \<noteq> 0; x \<noteq> 0 \<and> x \<noteq> head\<rbrakk> \<Longrightarrow>
      ring (snd (detach_from_list x h)) (head # as @ bs) \<and> head \<noteq> 0"
  proof -
    assume a: "ring h (head # as @ x # bs) \<and> head \<noteq> 0"
    then have "ring h (x # bs @ head # as)" using ring_rotate [of h head as x bs] by simp
    then have "ring (snd (detach_from_list x h)) (bs @ head # as)"
      using detach_ring(1) [of h x "bs @ head # as"] by (cases "detach_from_list x h") auto
    then show ?thesis using a ring_rotate [of "snd (detach_from_list x h)" _ _ head as]
      by (cases bs) auto
  qed
  show "\<lbrakk>ring h (head # as @ x # bs) \<and> head \<noteq> 0; x \<noteq> 0 \<and> x \<noteq> head\<rbrakk> \<Longrightarrow>
      ring (snd (detach_from_list x h)) [x]"
  proof -
    assume a: "ring h (head # as @ x # bs) \<and> head \<noteq> 0"
    then have "ring h (x # bs @ head # as)" using ring_rotate [of h head as x bs] by simp
    then show ?thesis
      using detach_ring(2) [of h x "bs @ head # as"] by (cases "detach_from_list x h") auto
  qed
qed

end
