(* ===== verification/PhysMem.thy ===== *)
theory PhysMem
  imports Bitmap SpinLock
begin

text \<open>
  \<open>core/physical_memory.c\<close>: the free list of physical pages.  The link of a free page is stored in the
  page itself; \<open>fl_mem\<close> is that word for every page address.  \<open>free_chain\<close> reads the list back, and the
  locale \<open>page_allocator\<close> states what the users of \<open>kalloc\<close>/\<open>kfree\<close> rely on.
\<close>

abbreviation (input) PAGE_SIZE :: nat where "PAGE_SIZE \<equiv> 4096"
abbreviation (input) KSPACE_MASK :: nat where "KSPACE_MASK \<equiv> 18446462598732840960"

definition P2K :: "nat \<Rightarrow> nat" where "P2K a = addw 64 a KSPACE_MASK"

record FreeList =
  fl_next :: addr
  fl_mem :: "addr \<Rightarrow> addr"

definition freelist_alloc :: "FreeList \<Rightarrow> addr \<times> FreeList" where
  "freelist_alloc f = (let p = fl_next f in (p, if p \<noteq> 0 then f\<lparr>fl_next := fl_mem f p\<rparr> else f))"

definition freelist_free :: "FreeList \<Rightarrow> addr \<Rightarrow> FreeList" where
  "freelist_free f v = (let f = f\<lparr>fl_mem := (fl_mem f)(v := fl_next f)\<rparr> in f\<lparr>fl_next := v\<rparr>)"

text \<open>The loop \<open>for (p = start; p + PAGE_SIZE <= end; p += PAGE_SIZE)\<close> on 64-bit pointers; near the top of
  the address space \<open>p + PAGE_SIZE\<close> wraps and the loop does not end.\<close>

partial_function (option) free_loop :: "(FreeList \<Rightarrow> addr \<Rightarrow> FreeList) \<Rightarrow> FreeList \<Rightarrow> addr \<Rightarrow> addr \<Rightarrow> FreeList option" where
  "free_loop fr f p fin =
     (if addw 64 p PAGE_SIZE \<le> fin then free_loop fr (fr f p) (addw 64 p PAGE_SIZE) fin else Some f)"

definition init_freelist :: "FreeList \<Rightarrow> addr \<Rightarrow> addr \<Rightarrow> FreeList option" where
  "init_freelist f start fin = free_loop freelist_free f start fin"

record MemmoryManagerTable =
  memmory_manager :: FreeList
  page_init :: "FreeList \<Rightarrow> addr \<Rightarrow> addr \<Rightarrow> FreeList option"
  page_alloc :: "FreeList \<Rightarrow> addr \<times> FreeList"
  page_free :: "FreeList \<Rightarrow> addr \<Rightarrow> FreeList"
  mmt_lock :: SpinLock

definition init_memmory_manager_table :: "FreeList \<Rightarrow> MemmoryManagerTable \<Rightarrow> MemmoryManagerTable" where
  "init_memmory_manager_table freelist m =
     m\<lparr>memmory_manager := freelist, page_init := init_freelist, page_alloc := freelist_alloc, page_free := freelist_free\<rparr>"

text \<open>\<open>kend\<close> is the linker's \<open>end\<close>; \<open>freelist\<close> the (zero-initialised) global.\<close>

definition init_memory_manager :: "addr \<Rightarrow> FreeList \<Rightarrow> MemmoryManagerTable \<Rightarrow> MemmoryManagerTable option" where
  "init_memory_manager kend freelist m =
     (let phystop = 1056964608;
          roundup_end = unat (round_up (word_of_nat kend) (word_of_nat PAGE_SIZE));
          m = init_memmory_manager_table freelist m
      in case page_init m (memmory_manager m) roundup_end (P2K phystop) of
           None \<Rightarrow> None
         | Some f \<Rightarrow> Some (m\<lparr>memmory_manager := f, mmt_lock := init_spinlock (mmt_lock m) ''memory''\<rparr>))"

definition free_range :: "addr \<Rightarrow> addr \<Rightarrow> MemmoryManagerTable \<Rightarrow> MemmoryManagerTable option" where
  "free_range start fin m = map_option (\<lambda>f. m\<lparr>memmory_manager := f\<rparr>) (free_loop (page_free m) (memmory_manager m) start fin)"

definition kalloc :: "nat \<Rightarrow> MemmoryManagerTable \<Rightarrow> (addr \<times> MemmoryManagerTable) res" where
  "kalloc me m =
     bnd (acquire_spinlock me (mmt_lock m)) (\<lambda>l.
     let (p, f) = page_alloc m (memmory_manager m) in
     bnd (release_spinlock me l) (\<lambda>l. Inr (p, m\<lparr>memmory_manager := f, mmt_lock := l\<rparr>)))"

definition kfree :: "nat \<Rightarrow> addr \<Rightarrow> MemmoryManagerTable \<Rightarrow> MemmoryManagerTable res" where
  "kfree me va m =
     bnd (acquire_spinlock me (mmt_lock m)) (\<lambda>l.
     let f = page_free m (memmory_manager m) va in
     bnd (release_spinlock me l) (\<lambda>l. Inr (m\<lparr>memmory_manager := f, mmt_lock := l\<rparr>)))"

section \<open>The list of free pages\<close>

fun chain :: "(addr \<Rightarrow> addr) \<Rightarrow> addr \<Rightarrow> addr list \<Rightarrow> bool" where
  "chain mem x [] = (x = 0)"
| "chain mem x (p # ps) = (x = p \<and> p \<noteq> 0 \<and> p \<notin> set ps \<and> chain mem (mem p) ps)"

definition free_pages :: "FreeList \<Rightarrow> addr list \<Rightarrow> bool" where
  "free_pages f ps \<longleftrightarrow> chain (fl_mem f) (fl_next f) ps"

lemma chain_frame: "\<lbrakk>chain mem x ps; \<forall>p\<in>set ps. mem' p = mem p\<rbrakk> \<Longrightarrow> chain mem' x ps"
  by (induction ps arbitrary: x) auto

lemma chain_distinct: "chain mem x ps \<Longrightarrow> distinct ps \<and> 0 \<notin> set ps"
  by (induction ps arbitrary: x) auto

lemma chain_det: "\<lbrakk>chain mem x ps; chain mem x qs\<rbrakk> \<Longrightarrow> ps = qs"
proof (induction ps arbitrary: x qs)
  case Nil
  then show ?case by (cases qs) auto
next
  case (Cons p ps)
  then show ?case by (cases qs) auto
qed

text \<open>A page's owner may write anything into it: the chain only reads free pages.\<close>

lemma free_pages_write:
  "\<lbrakk>free_pages f ps; p \<notin> set ps\<rbrakk> \<Longrightarrow> free_pages (f\<lparr>fl_mem := (fl_mem f)(p := w)\<rparr>) ps"
  unfolding free_pages_def by (simp, rule chain_frame) auto

lemma freelist_alloc_pages:
  assumes "free_pages f ps"
  shows "freelist_alloc f = (case ps of [] \<Rightarrow> (0, f) | p # ps' \<Rightarrow> (p, f\<lparr>fl_next := fl_mem f p\<rparr>)) \<and>
    free_pages (snd (freelist_alloc f)) (tl ps)"
proof (cases ps)
  case Nil
  then show ?thesis using assms by (simp add: free_pages_def freelist_alloc_def)
next
  case (Cons p qs)
  then have "fl_next f = p" "p \<noteq> 0" "chain (fl_mem f) (fl_mem f p) qs" using assms by (simp_all add: free_pages_def)
  then show ?thesis using Cons by (simp add: free_pages_def freelist_alloc_def)
qed

lemma freelist_free_pages:
  assumes "free_pages f ps" "p \<noteq> 0" "p \<notin> set ps"
  shows "free_pages (freelist_free f p) (p # ps)"
proof -
  have "chain ((fl_mem f)(p := fl_next f)) (fl_next f) ps"
  proof (rule chain_frame)
    show "chain (fl_mem f) (fl_next f) ps" using assms(1) by (simp add: free_pages_def)
    show "\<forall>q\<in>set ps. ((fl_mem f)(p := fl_next f)) q = fl_mem f q" using assms(3) by (simp add: fun_upd_def)
  qed
  then show ?thesis using assms by (simp add: free_pages_def freelist_free_def Let_def)
qed

lemma freelist_alloc_free: "\<lbrakk>p \<noteq> 0\<rbrakk> \<Longrightarrow> freelist_alloc (freelist_free f p) = (p, f\<lparr>fl_mem := (fl_mem f)(p := fl_next f)\<rparr>)"
  by (simp add: freelist_alloc_def freelist_free_def Let_def)

lemma free_loop_pages:
  assumes "free_pages f ps" "0 < p" "fin + 2 * PAGE_SIZE < 2 ^ 64" "\<forall>q\<in>set ps. q < p" "p \<le> fin + PAGE_SIZE"
  shows "\<exists>f'. free_loop freelist_free f p fin = Some f' \<and>
    free_pages f' (rev (map (\<lambda>i. p + PAGE_SIZE * i) [0..<(fin - p) div PAGE_SIZE]) @ ps)"
  using assms
proof (induction "(fin - p) div 4096" arbitrary: f p ps)
  case 0
  show ?case
  proof (cases "p + 4096 \<le> fin")
    case True
    then have "(fin - p) div 4096 \<noteq> 0" by simp
    then show ?thesis using "0.hyps" by simp
  next
    case False
    moreover have "addw 64 p 4096 = p + 4096 \<or> 2 ^ 64 \<le> p + 4096" by (auto simp: addw_def)
    ultimately show ?thesis using 0 by (subst free_loop.simps) (auto simp: addw_def)
  qed
next
  case (Suc n)
  have le: "p + 4096 \<le> fin"
  proof (rule ccontr)
    assume "\<not> p + 4096 \<le> fin"
    then have "fin - p < 4096" by linarith
    then show False using Suc.hyps(2) by simp
  qed
  have a: "addw 64 p 4096 = p + 4096" using le Suc.prems(3) by (simp add: addw_def)
  have "fin - p = fin - (p + 4096) + 4096" using le by simp
  then have "(fin - p) div 4096 = Suc ((fin - (p + 4096)) div 4096)" by (metis div_add_self2 Suc_eq_plus1 zero_neq_numeral)
  then have n: "n = (fin - (p + 4096)) div 4096" using Suc.hyps(2) by simp
  have f: "free_pages (freelist_free f p) (p # ps)"
    using Suc.prems by (intro freelist_free_pages) auto
  have "\<exists>f'. free_loop freelist_free (freelist_free f p) (p + 4096) fin = Some f' \<and>
    free_pages f' (rev (map (\<lambda>i. p + 4096 + 4096 * i) [0..<(fin - (p + 4096)) div 4096]) @ p # ps)"
    using Suc.prems le by (intro Suc.hyps(1) [OF n f]) auto
  moreover have "rev (map (\<lambda>i. p + 4096 * i) [0..<Suc n]) = rev (map (\<lambda>i. p + 4096 + 4096 * i) [0..<n]) @ [p]"
  proof -
    have "[0..<Suc n] = 0 # map Suc [0..<n]" by (metis map_Suc_upt upt_conv_Cons zero_less_Suc)
    then show ?thesis by (simp add: o_def)
  qed
  ultimately show ?case using le a n unfolding Suc.hyps(2) [symmetric] by (subst free_loop.simps) simp
qed

section \<open>The page allocator interface\<close>

definition page_addr :: "addr \<Rightarrow> bool" where
  "page_addr p \<longleftrightarrow> p \<noteq> 0 \<and> p mod PAGE_SIZE = 0 \<and> p + PAGE_SIZE \<le> 2 ^ 64"

locale page_allocator =
  fixes ready :: "'k \<Rightarrow> bool"
    and avail :: "'k \<Rightarrow> addr set"
    and alloc :: "'k \<Rightarrow> (addr \<times> 'k) res"
    and give :: "addr \<Rightarrow> 'k \<Rightarrow> 'k res"
  assumes alloc_ok: "ready k \<Longrightarrow> \<exists>p k'. alloc k = Inr (p, k') \<and> ready k' \<and> avail k' = avail k - {p} \<and>
      (p = 0 \<and> avail k = {} \<or> p \<in> avail k)"
    and give_ok: "\<lbrakk>ready k; page_addr p; p \<notin> avail k\<rbrakk> \<Longrightarrow> \<exists>k'. give p k = Inr k' \<and> ready k' \<and> avail k' = insert p (avail k)"
    and avail_page: "\<lbrakk>ready k; p \<in> avail k\<rbrakk> \<Longrightarrow> page_addr p"
begin

lemma give_alloc:
  assumes "ready k" "page_addr p" "p \<notin> avail k"
  shows "\<exists>k' q k''. give p k = Inr k' \<and> alloc k' = Inr (q, k'') \<and> page_addr q \<and> avail k'' = insert p (avail k) - {q}"
proof -
  obtain k' where k': "give p k = Inr k'" "ready k'" "avail k' = insert p (avail k)" using give_ok [OF assms] by blast
  obtain q k'' where "alloc k' = Inr (q, k'')" "avail k'' = avail k' - {q}" "q = 0 \<and> avail k' = {} \<or> q \<in> avail k'"
    using alloc_ok [OF k'(2)] by blast
  then show ?thesis using k' avail_page [OF k'(2), of q] by auto
qed

end

definition mm_avail :: "MemmoryManagerTable \<Rightarrow> addr set" where
  "mm_avail m = {p. \<exists>ps. free_pages (memmory_manager m) ps \<and> p \<in> set ps}"

definition mm_ready :: "MemmoryManagerTable \<Rightarrow> bool" where
  "mm_ready m \<longleftrightarrow> page_alloc m = freelist_alloc \<and> page_free m = freelist_free \<and> free_lock (mmt_lock m) \<and>
     (\<exists>ps. free_pages (memmory_manager m) ps \<and> (\<forall>p\<in>set ps. page_addr p))"

lemma mm_avail_eq: "free_pages (memmory_manager m) ps \<Longrightarrow> mm_avail m = set ps"
  unfolding mm_avail_def free_pages_def using chain_det by blast

lemma kalloc_eq:
  assumes "free_lock (mmt_lock m)" "page_alloc m = freelist_alloc"
  shows "kalloc me m = Inr (fst (freelist_alloc (memmory_manager m)), m\<lparr>memmory_manager := snd (freelist_alloc (memmory_manager m))\<rparr>)"
  using assms acquire_free [of "mmt_lock m" me] by (cases m) (simp add: kalloc_def split_def Let_def release_spinlock_def holding_spinlock_def)

lemma kfree_eq:
  assumes "free_lock (mmt_lock m)" "page_free m = freelist_free"
  shows "kfree me p m = Inr (m\<lparr>memmory_manager := freelist_free (memmory_manager m) p\<rparr>)"
  using assms acquire_free [of "mmt_lock m" me] by (cases m) (simp add: kfree_def Let_def release_spinlock_def holding_spinlock_def)

interpretation km: page_allocator mm_ready mm_avail "kalloc me" "kfree me" for me
proof
  fix k :: MemmoryManagerTable and p
  assume r: "mm_ready k"
  then obtain ps where ps: "free_pages (memmory_manager k) ps" "\<forall>p\<in>set ps. page_addr p" by (auto simp: mm_ready_def)
  have av: "mm_avail k = set ps" by (rule mm_avail_eq [OF ps(1)])
  show "p \<in> mm_avail k \<Longrightarrow> page_addr p" using av ps(2) by blast
  let ?f = "freelist_alloc (memmory_manager k)"
  note al = freelist_alloc_pages [OF ps(1)]
  have run: "kalloc me k = Inr (fst ?f, k\<lparr>memmory_manager := snd ?f\<rparr>)" using r by (intro kalloc_eq) (simp_all add: mm_ready_def)
  have av': "mm_avail (k\<lparr>memmory_manager := snd ?f\<rparr>) = set (tl ps)" using conjunct2 [OF al] by (intro mm_avail_eq) simp
  have rd: "mm_ready (k\<lparr>memmory_manager := snd ?f\<rparr>)"
    using r al ps(2) list.set_sel(2) [of ps] unfolding mm_ready_def by (cases ps) auto
  have d: "distinct ps" "0 \<notin> set ps" using ps(1) chain_distinct by (auto simp: free_pages_def)
  show "\<exists>p k'. kalloc me k = Inr (p, k') \<and> mm_ready k' \<and> mm_avail k' = mm_avail k - {p} \<and> (p = 0 \<and> mm_avail k = {} \<or> p \<in> mm_avail k)"
    using run rd av av' al d by (cases ps) auto
  show "\<exists>k'. kfree me p k = Inr k' \<and> mm_ready k' \<and> mm_avail k' = insert p (mm_avail k)" if p: "page_addr p" "p \<notin> mm_avail k"
  proof -
    have f: "free_pages (freelist_free (memmory_manager k) p) (p # ps)"
      using p av ps(1) by (intro freelist_free_pages) (auto simp: page_addr_def)
    have "mm_avail (k\<lparr>memmory_manager := freelist_free (memmory_manager k) p\<rparr>) = insert p (set ps)"
      using mm_avail_eq [of "k\<lparr>memmory_manager := freelist_free (memmory_manager k) p\<rparr>" "p # ps"] f by simp
    moreover have "mm_ready (k\<lparr>memmory_manager := freelist_free (memmory_manager k) p\<rparr>)"
      using r f p ps(2) by (auto simp: mm_ready_def intro!: exI [of _ "p # ps"])
    ultimately show ?thesis using kfree_eq [of k me p] r av by (simp add: mm_ready_def)
  qed
qed

text \<open>Boot: every whole page between the end of the kernel image and the top of physical memory is free.\<close>

definition boot_pages :: "addr \<Rightarrow> addr list" where
  "boot_pages kend = (let lo = ((kend + PAGE_SIZE - 1) div PAGE_SIZE) * PAGE_SIZE in
     rev (map (\<lambda>i. lo + PAGE_SIZE * i) [0..<(P2K 1056964608 - lo) div PAGE_SIZE]))"

lemma init_memory_manager_ok:
  assumes "0 < kend" "kend \<le> P2K 1056964608" "fl_next freelist = 0"
  shows "\<exists>m'. init_memory_manager kend freelist m = Some m' \<and> mm_ready m' \<and> mm_avail m' = set (boot_pages kend)"
proof -
  define lo where "lo = ((kend + 4095) div 4096) * 4096"
  define hi where "hi = P2K 1056964608"
  have hi: "hi = 18446462599789805568" by (simp add: hi_def P2K_def addw_def)
  have small: "kend < 2 ^ 64" "kend + 4096 - 1 < 2 ^ 64" using assms(2) hi unfolding hi_def by simp_all
  have "unat (word_of_nat kend :: u64) = kend" using small(1) by (simp add: unat_of_nat take_bit_eq_mod)
  then have up: "unat (round_up (word_of_nat kend) (word_of_nat 4096)) = lo"
    using unat_round_up [of "word_of_nat 4096" "word_of_nat kend"] small(2) by (simp add: lo_def minus_mod_eq_div_mult)
  have lo: "0 < lo" "lo \<le> hi + 4096" "lo mod 4096 = 0"
  proof -
    have "kend + 4095 = lo + (kend + 4095) mod 4096" by (simp add: lo_def)
    moreover have "(kend + 4095) mod 4096 < 4096" by simp
    ultimately show "0 < lo" "lo \<le> hi + 4096" using assms(1,2) unfolding hi_def by linarith+
  qed (simp add: lo_def)
  have "free_pages freelist []" using assms(3) by (simp add: free_pages_def)
  from free_loop_pages [OF this lo(1), of hi] lo(2) hi
  obtain f where f: "free_loop freelist_free freelist lo hi = Some f"
    "free_pages f (rev (map (\<lambda>i. lo + 4096 * i) [0..<(hi - lo) div 4096]))" by auto
  have b: "boot_pages kend = rev (map (\<lambda>i. lo + 4096 * i) [0..<(hi - lo) div 4096])"
    by (simp add: boot_pages_def lo_def hi_def Let_def add.commute)
  have pg: "page_addr p" if mem: "p \<in> set (boot_pages kend)" for p
  proof -
    obtain i where i: "p = lo + 4096 * i" "i < (hi - lo) div 4096" using mem b by auto
    then have "4096 * i + 4096 \<le> hi - lo" by (simp add: less_eq_div_iff_mult_less_eq Suc_le_eq [symmetric])
    then have "p + 4096 \<le> hi" using i lo(2) by linarith
    then show ?thesis using i(1) lo hi by (simp add: page_addr_def)
  qed
  let ?m = "(init_memmory_manager_table freelist m)\<lparr>memmory_manager := f,
    mmt_lock := init_spinlock (mmt_lock (init_memmory_manager_table freelist m)) ''memory''\<rparr>"
  have "init_memory_manager kend freelist m = Some ?m"
    using f(1) up by (simp add: init_memory_manager_def init_memmory_manager_table_def init_freelist_def hi_def Let_def)
  moreover have "mm_avail ?m = set (boot_pages kend)" using f(2) b mm_avail_eq [of ?m] by simp
  moreover have "mm_ready ?m" using f(2) b pg
    by (auto simp: mm_ready_def init_memmory_manager_table_def init_spinlock_def intro!: exI [of _ "boot_pages kend"])
  ultimately show ?thesis by blast
qed

end
