(* ===== verification/Arena.thy ===== *)
theory Arena
  imports PhysMem ListNode
begin

text \<open>
  \<open>core/arena.c\<close>: a slab allocator of equally sized objects on pages.  Each page starts with a header of 64
  bytes (the arena, the list node, a bitmap of 256 bits, a count) and is linked in a ring whose head is the
  page to allocate from.  \<open>arenas\<close>, \<open>apages\<close> and \<open>anodes\<close> are the structures at their addresses, \<open>kern\<close> the
  state of the page allocator behind the two function pointers.
\<close>

abbreviation (input) ARENA_PAGE_SIZE :: nat where "ARENA_PAGE_SIZE \<equiv> 4096"
abbreviation (input) ARENA_MIN_OBJECT_SIZE :: nat where "ARENA_MIN_OBJECT_SIZE \<equiv> 16"
abbreviation (input) ARENA_BITMAP_SIZE :: nat where "ARENA_BITMAP_SIZE \<equiv> 256"
abbreviation (input) ARENA_HEADER_SIZE :: nat where "ARENA_HEADER_SIZE \<equiv> 64"
abbreviation (input) ARENA_PAGE_CAPACITY :: nat where "ARENA_PAGE_CAPACITY \<equiv> 4032"

record ArenaPage =
  pg_arena :: addr
  used :: cells
  count :: nat

record 'k Arena =
  ar_lock :: SpinLock
  allocate :: "nat \<Rightarrow> 'k \<Rightarrow> (addr \<times> 'k) res"
  ar_free :: "nat \<Rightarrow> addr \<Rightarrow> 'k \<Rightarrow> 'k res"
  object_size :: nat
  max_count :: nat
  pages :: addr
  num_objects :: nat
  num_pages :: nat

record 'k aheap =
  arenas :: "addr \<Rightarrow> 'k Arena"
  apages :: "addr \<Rightarrow> ArenaPage"
  anodes :: lheap
  kern :: 'k

definition upd_arena :: "addr \<Rightarrow> ('k Arena \<Rightarrow> 'k Arena) \<Rightarrow> 'k aheap \<Rightarrow> 'k aheap" where
  "upd_arena a f h = h\<lparr>arenas := (arenas h)(a := f (arenas h a))\<rparr>"

definition upd_page :: "addr \<Rightarrow> (ArenaPage \<Rightarrow> ArenaPage) \<Rightarrow> 'k aheap \<Rightarrow> 'k aheap" where
  "upd_page p f h = h\<lparr>apages := (apages h)(p := f (apages h p))\<rparr>"

text \<open>\<open>&page->list\<close> and \<open>container_of(node, ArenaPage, list)\<close>.\<close>

definition node_of :: "addr \<Rightarrow> addr" where "node_of p = addw 64 p 8"
definition page_of :: "addr \<Rightarrow> addr" where "page_of n = subw 64 n 8"

definition init_arena :: "addr \<Rightarrow> nat \<Rightarrow> (nat \<Rightarrow> 'k \<Rightarrow> (addr \<times> 'k) res) \<Rightarrow> (nat \<Rightarrow> addr \<Rightarrow> 'k \<Rightarrow> 'k res) \<Rightarrow> 'k aheap \<Rightarrow> 'k aheap res" where
  "init_arena a osz al fr h =
     bnd (chk (osz \<ge> ARENA_MIN_OBJECT_SIZE) ''object_size is too small'') (\<lambda>_.
     bnd (chk (osz \<le> ARENA_PAGE_CAPACITY) ''object_size is too large'') (\<lambda>_.
     Inr (upd_arena a (\<lambda>r. r\<lparr>ar_lock := init_spinlock (ar_lock r) ''arena'', allocate := al, ar_free := fr,
       object_size := osz, max_count := ARENA_PAGE_CAPACITY div osz, pages := 0, num_objects := 0, num_pages := 0\<rparr>) h)))"

text \<open>The \<open>do ... while (current != head)\<close> loop; \<open>next\<close> is read before the page is given back.\<close>

partial_function (option) clear_loop :: "nat \<Rightarrow> addr \<Rightarrow> addr \<Rightarrow> addr \<Rightarrow> 'k aheap \<Rightarrow> 'k aheap res option" where
  "clear_loop me a head current h =
     (let nxt = nextp (anodes h) current in
      case ar_free (arenas h a) me (page_of current) (kern h) of
        Inl e \<Rightarrow> Some (Inl e)
      | Inr k \<Rightarrow> (let h = h\<lparr>kern := k\<rparr> in if nxt \<noteq> head then clear_loop me a head nxt h else Some (Inr h)))"

definition clear_arena :: "nat \<Rightarrow> addr \<Rightarrow> 'k aheap \<Rightarrow> 'k aheap res option" where
  "clear_arena me a h =
     (case acquire_spinlock me (ar_lock (arenas h a)) of
        Inl e \<Rightarrow> Some (Inl e)
      | Inr l \<Rightarrow>
        let h = upd_arena a (\<lambda>r. r\<lparr>ar_lock := l\<rparr>) h;
            r = (if pages (arenas h a) \<noteq> 0
                 then map_option (\<lambda>m. bnd m (\<lambda>h. Inr (upd_arena a (\<lambda>r. r\<lparr>pages := 0, num_objects := 0, num_pages := 0\<rparr>) h)))
                        (let head = node_of (pages (arenas h a)) in clear_loop me a head head h)
                 else Some (Inr h))
        in map_option (\<lambda>m. bnd m (\<lambda>h. bnd (release_spinlock me (ar_lock (arenas h a))) (\<lambda>l.
             Inr (upd_arena a (\<lambda>r. r\<lparr>ar_lock := l\<rparr>) h)))) r)"

definition init_arena_page :: "addr \<Rightarrow> addr \<Rightarrow> 'k aheap \<Rightarrow> 'k aheap res" where
  "init_arena_page a p h =
     (let h = upd_page p (\<lambda>g. g\<lparr>pg_arena := a\<rparr>) h;
          h = h\<lparr>anodes := init_list_node (node_of p) (anodes h)\<rparr> in
      bnd (init_bitmap (used (apages h p)) ARENA_BITMAP_SIZE) (\<lambda>bm.
      Inr (upd_page p (\<lambda>g. g\<lparr>used := bm, count := 0\<rparr>) h)))"

definition insert_page :: "addr \<Rightarrow> addr \<Rightarrow> 'k aheap \<Rightarrow> 'k aheap" where
  "insert_page a p h =
     (if pages (arenas h a) \<noteq> 0
      then let (head, ns) = merge_list (node_of p) (node_of (pages (arenas h a))) (anodes h)
           in upd_arena a (\<lambda>r. r\<lparr>pages := page_of head\<rparr>) (h\<lparr>anodes := ns\<rparr>)
      else upd_arena a (\<lambda>r. r\<lparr>pages := p\<rparr>) h)"

definition add_page :: "nat \<Rightarrow> addr \<Rightarrow> 'k aheap \<Rightarrow> (addr \<times> 'k aheap) res" where
  "add_page me a h =
     bnd (allocate (arenas h a) me (kern h)) (\<lambda>(p, k).
     let h = h\<lparr>kern := k\<rparr> in
     bnd (chk (p mod ARENA_PAGE_SIZE = 0) ''page address must be aligned on ARENA_PAGE_SIZE'') (\<lambda>_.
     if p \<noteq> 0
     then bnd (init_arena_page a p h) (\<lambda>h.
          Inr (p, upd_arena a (\<lambda>r. r\<lparr>num_pages := addw 64 (num_pages r) 1\<rparr>) (insert_page a p h)))
     else Inr (p, h)))"

definition alloc_object :: "nat \<Rightarrow> addr \<Rightarrow> 'k aheap \<Rightarrow> (addr \<times> 'k aheap) res" where
  "alloc_object me a h =
     bnd (acquire_spinlock me (ar_lock (arenas h a))) (\<lambda>l.
     let h = upd_arena a (\<lambda>r. r\<lparr>ar_lock := l\<rparr>) h in
     bnd (if pages (arenas h a) = 0 \<or> count (apages h (pages (arenas h a))) \<ge> max_count (arenas h a)
          then add_page me a h else Inr (0, h)) (\<lambda>(_, h).
     let p = pages (arenas h a) in
     bnd (if p = 0 \<and> 0 < max_count (arenas h a) then Inl (Fault ''page'')
          else first_clear (used (apages h p)) 0 (max_count (arenas h a))) (\<lambda>r.
     case r of
       None \<Rightarrow> Inl (Panic ''arena failed to allocate object'')
     | Some index \<Rightarrow>
         let object = addw 64 (addw 64 p ARENA_HEADER_SIZE) (index * object_size (arenas h a)) in
         bnd (bitmap_set (used (apages h p)) index) (\<lambda>bm.
         let h = upd_page p (\<lambda>g. g\<lparr>used := bm, count := addw 64 (count g) 1\<rparr>) h;
             h = upd_arena a (\<lambda>r. r\<lparr>num_objects := addw 64 (num_objects r) 1\<rparr>) h in
         bnd (chk (object \<noteq> 0) ''arena failed to allocate object'') (\<lambda>_.
         let h = (if count (apages h p) \<ge> max_count (arenas h a)
                  then upd_arena a (\<lambda>r. r\<lparr>pages := page_of (nextp (anodes h) (node_of p))\<rparr>) h else h) in
         bnd (release_spinlock me (ar_lock (arenas h a))) (\<lambda>l.
         Inr (object, upd_arena a (\<lambda>r. r\<lparr>ar_lock := l\<rparr>) h)))))))"

definition get_container_page :: "addr \<Rightarrow> addr" where
  "get_container_page object = unat (round_down (word_of_nat object) (word_of_nat ARENA_PAGE_SIZE))"

definition move_page_to_head :: "addr \<Rightarrow> addr \<Rightarrow> 'k aheap \<Rightarrow> 'k aheap" where
  "move_page_to_head a p h =
     (if pages (arenas h a) \<noteq> p
      then insert_page a p (h\<lparr>anodes := snd (detach_from_list (node_of p) (anodes h))\<rparr>)
      else h)"

definition free_object :: "nat \<Rightarrow> addr \<Rightarrow> 'k aheap \<Rightarrow> 'k aheap res" where
  "free_object me object h =
     (let p = get_container_page object; a = pg_arena (apages h p) in
      bnd (acquire_spinlock me (ar_lock (arenas h a))) (\<lambda>l.
      let h = upd_arena a (\<lambda>r. r\<lparr>ar_lock := l\<rparr>) h;
          offset = subw 64 object (addw 64 p ARENA_HEADER_SIZE) in
      bnd (chk (offset mod object_size (arenas h a) = 0) ''unexpected object offset'') (\<lambda>_.
      let index = offset div object_size (arenas h a) in
      bnd (bitmap_get (used (apages h p)) index) (\<lambda>b.
      bnd (chk b ''double free object'') (\<lambda>_.
      bnd (bitmap_clear (used (apages h p)) index) (\<lambda>bm.
      let h = upd_page p (\<lambda>g. g\<lparr>used := bm, count := subw 64 (count g) 1\<rparr>) h;
          h = upd_arena a (\<lambda>r. r\<lparr>num_objects := subw 64 (num_objects r) 1\<rparr>) h;
          h = move_page_to_head a p h in
      bnd (release_spinlock me (ar_lock (arenas h a))) (\<lambda>l.
      Inr (upd_arena a (\<lambda>r. r\<lparr>ar_lock := l\<rparr>) h))))))))"

end
