(* ===== verification/ArenaSpec.thy ===== *)
theory ArenaSpec
  imports Arena
begin

text \<open>
  The arena as a set of live objects.  \<open>linked\<close>: the ring of pages; \<open>arena_inv\<close>: the bitmaps, the counts and
  the order of the pages (full ones last); \<open>objs\<close>: the addresses handed out.  The allocation results hold for
  every page allocator that satisfies \<open>page_allocator\<close>.
\<close>

lemma page_arith:
  assumes "page_addr p"
  shows "node_of p = p + 8" "page_of (p + 8) = p" "node_of p \<noteq> 0" "addw 64 p 64 = p + 64" "p \<noteq> 0"
proof -
  have b: "p + 4096 \<le> 2 ^ 64" "p \<noteq> 0" using assms by (simp_all add: page_addr_def)
  then show "node_of p = p + 8" "page_of (p + 8) = p" "addw 64 p 64 = p + 64" "p \<noteq> 0"
    by (simp_all add: node_of_def page_of_def addw_small subw_small)
  then show "node_of p \<noteq> 0" by simp
qed

lemma upd_arena_simps [simp]:
  "arenas (upd_arena a f h) b = (if b = a then f (arenas h a) else arenas h b)" "apages (upd_arena a f h) = apages h"
  "anodes (upd_arena a f h) = anodes h" "kern (upd_arena a f h) = kern h"
  by (simp_all add: upd_arena_def)

lemma upd_page_simps [simp]:
  "arenas (upd_page p g h) = arenas h" "apages (upd_page p g h) q = (if q = p then g (apages h p) else apages h q)"
  "anodes (upd_page p g h) = anodes h" "kern (upd_page p g h) = kern h"
  by (simp_all add: upd_page_def)

section \<open>The ring of pages\<close>

definition linked :: "'k aheap \<Rightarrow> addr \<Rightarrow> addr list \<Rightarrow> bool" where
  "linked h a ps \<longleftrightarrow> (\<forall>p\<in>set ps. page_addr p) \<and>
     (if ps = [] then pages (arenas h a) = 0 else pages (arenas h a) = hd ps \<and> ring (anodes h) (map node_of ps))"

lemma linked_pages: "linked h a ps \<Longrightarrow> pages (arenas h a) = (if ps = [] then 0 else hd ps)"
  by (auto simp: linked_def)

lemma linked_distinct: "linked h a ps \<Longrightarrow> distinct ps"
  by (auto simp: linked_def ring_def distinct_map split: if_splits)

lemma linked_frame:
  "\<lbrakk>linked h a ps; pages (arenas h' a) = pages (arenas h a); anodes h' = anodes h\<rbrakk> \<Longrightarrow> linked h' a ps"
  by (simp add: linked_def)

lemma node_inj: "\<lbrakk>page_addr p; page_addr q\<rbrakk> \<Longrightarrow> node_of p = node_of q \<longleftrightarrow> p = q"
  by (simp add: page_arith)

lemma insert_page_linked:
  assumes l: "linked h a ps" and r: "ring (anodes h) [node_of p]" and p: "page_addr p" "p \<notin> set ps"
  shows "linked (insert_page a p h) a (p # ps)"
    and "\<exists>ns. insert_page a p h = upd_arena a (\<lambda>r. r\<lparr>pages := p\<rparr>) (h\<lparr>anodes := ns\<rparr>)"
proof -
  have "linked (insert_page a p h) a (p # ps) \<and> (\<exists>ns. insert_page a p h = upd_arena a (\<lambda>r. r\<lparr>pages := p\<rparr>) (h\<lparr>anodes := ns\<rparr>))"
  proof (cases ps)
    case Nil
    then show ?thesis using l r p
      by (auto simp: linked_def insert_page_def upd_arena_def intro!: exI [of _ "anodes h"])
  next
    case (Cons q qs)
    have q: "page_addr q" and pg: "pages (arenas h a) = q" and rq: "ring (anodes h) (node_of q # map node_of qs)"
      using l Cons by (simp_all add: linked_def)
    have "pages (arenas h a) \<noteq> 0" using pg page_arith(5) [OF q] by simp
    moreover obtain w ns where m: "merge_list (node_of p) (node_of q) (anodes h) = (w, ns)" by fastforce
    have "node_of p \<notin> set (map node_of (q # qs))" using l p Cons node_inj by (auto simp: linked_def)
    then have "ring ns (node_of p # node_of q # map node_of qs @ [])" "w = node_of p"
      using merge_list_ring [OF r rq _ _ _ m] page_arith(3) [OF q] page_arith(3) [OF p(1)] by auto
    ultimately show ?thesis using m pg l p Cons page_arith [OF p(1)]
      by (auto simp: linked_def insert_page_def)
  qed
  then show "linked (insert_page a p h) a (p # ps)"
    "\<exists>ns. insert_page a p h = upd_arena a (\<lambda>r. r\<lparr>pages := p\<rparr>) (h\<lparr>anodes := ns\<rparr>)" by blast+
qed

lemma move_page_linked:
  assumes l: "linked h a ps" and p: "p \<in> set ps"
  shows "linked (move_page_to_head a p h) a (p # remove1 p ps)"
    and "\<exists>ns. move_page_to_head a p h = upd_arena a (\<lambda>r. r\<lparr>pages := p\<rparr>) (h\<lparr>anodes := ns\<rparr>)"
proof -
  have "linked (move_page_to_head a p h) a (p # remove1 p ps) \<and>
    (\<exists>ns. move_page_to_head a p h = upd_arena a (\<lambda>r. r\<lparr>pages := p\<rparr>) (h\<lparr>anodes := ns\<rparr>))"
  proof (cases "pages (arenas h a) = p")
    case True
    then have "ps = p # remove1 p ps" using l p by (cases ps) (auto simp: linked_def)
    moreover have "move_page_to_head a p h = upd_arena a (\<lambda>r. r\<lparr>pages := p\<rparr>) (h\<lparr>anodes := anodes h\<rparr>)"
      using True by (cases h) (simp add: move_page_to_head_def upd_arena_def fun_upd_idem)
    ultimately show ?thesis using l True by (metis move_page_to_head_def)
  next
    case False
    obtain q qs where ps: "ps = q # qs" using p by (cases ps) auto
    have rq: "ring (anodes h) (node_of q # map node_of qs)" and pg: "pages (arenas h a) = q" and all: "\<forall>x\<in>set ps. page_addr x"
      using l ps by (simp_all add: linked_def)
    have pq: "p \<in> set qs" "p \<noteq> q" using p ps False pg by auto
    then obtain as bs where s: "qs = as @ p # bs" by (meson split_list)
    define ns where "ns = snd (detach_from_list (node_of p) (anodes h))"
    have rot: "ring (anodes h) (node_of p # map node_of bs @ node_of q # map node_of as)"
      using rq ring_rotate [of "anodes h" "node_of q" "map node_of as" "node_of p" "map node_of bs"] s by simp
    obtain w where d: "detach_from_list (node_of p) (anodes h) = (w, ns)" unfolding ns_def by (metis prod.collapse)
    have r1: "ring ns (map node_of bs @ node_of q # map node_of as)" and r2: "ring ns [node_of p]"
      using detach_ring(1,2) [OF rot _ d] by simp_all
    have r3: "ring ns (node_of q # map node_of as @ map node_of bs)"
    proof (cases bs)
      case (Cons b bs')
      then show ?thesis using r1 ring_rotate [of ns "node_of b" "map node_of bs'" "node_of q" "map node_of as"] by simp
    qed (use r1 in simp)
    have dist: "distinct ps" by (rule linked_distinct [OF l])
    then have rem: "remove1 p ps = q # as @ bs" using ps s pq by (auto simp: remove1_append)
    have l2: "linked (h\<lparr>anodes := ns\<rparr>) a (q # as @ bs)" using r3 all pg ps s by (auto simp: linked_def)
    have "p \<notin> set (q # as @ bs)" using dist ps s by auto
    then have "linked (insert_page a p (h\<lparr>anodes := ns\<rparr>)) a (p # q # as @ bs)"
      and ex: "\<exists>ns'. insert_page a p (h\<lparr>anodes := ns\<rparr>) = upd_arena a (\<lambda>r. r\<lparr>pages := p\<rparr>) (h\<lparr>anodes := ns, anodes := ns'\<rparr>)"
      using insert_page_linked [OF l2] r2 all p by auto
    moreover have "move_page_to_head a p h = insert_page a p (h\<lparr>anodes := ns\<rparr>)"
      using False by (simp add: move_page_to_head_def ns_def)
    ultimately show ?thesis using rem by auto
  qed
  then show "linked (move_page_to_head a p h) a (p # remove1 p ps)"
    "\<exists>ns. move_page_to_head a p h = upd_arena a (\<lambda>r. r\<lparr>pages := p\<rparr>) (h\<lparr>anodes := ns\<rparr>)" by blast+
qed

lemma next_page_linked:
  assumes l: "linked h a (p # qs)"
  shows "page_of (nextp (anodes h) (node_of p)) = hd (qs @ [p])"
    and "linked (upd_arena a (\<lambda>r. r\<lparr>pages := hd (qs @ [p])\<rparr>) h) a (qs @ [p])"
proof -
  have r: "ring (anodes h) (node_of p # map node_of qs)" and all: "\<forall>x\<in>set (p # qs). page_addr x"
    using l by (simp_all add: linked_def)
  have "nextp (anodes h) (node_of p) = hd (map node_of (qs @ [p]))" using ring_nextD [OF r] by simp
  also have "\<dots> = node_of (hd (qs @ [p]))" by (cases qs) simp_all
  finally show "page_of (nextp (anodes h) (node_of p)) = hd (qs @ [p])"
    using all page_arith by (cases qs) simp_all
  have "ring (anodes h) (map node_of (qs @ [p]))"
  proof (cases qs)
    case (Cons q qs')
    then show ?thesis using r ring_rotate [of "anodes h" "node_of p" "[]" "node_of q" "map node_of qs'"] by simp
  qed (use r in simp)
  then show "linked (upd_arena a (\<lambda>r. r\<lparr>pages := hd (qs @ [p])\<rparr>) h) a (qs @ [p])"
    using all by (simp add: linked_def)
qed

section \<open>The invariant\<close>

definition full :: "'k aheap \<Rightarrow> addr \<Rightarrow> addr \<Rightarrow> bool" where
  "full h a p \<longleftrightarrow> max_count (arenas h a) \<le> count (apages h p)"

definition page_ok :: "'k aheap \<Rightarrow> addr \<Rightarrow> addr \<Rightarrow> bool" where
  "page_ok h a p \<longleftrightarrow> pg_arena (apages h p) = a \<and> bm_set (used (apages h p)) \<subseteq> {..<max_count (arenas h a)} \<and>
     count (apages h p) = card (bm_set (used (apages h p)))"

definition arena_inv :: "'k aheap \<Rightarrow> addr \<Rightarrow> addr list \<Rightarrow> bool" where
  "arena_inv h a ps \<longleftrightarrow> ARENA_MIN_OBJECT_SIZE \<le> object_size (arenas h a) \<and> object_size (arenas h a) \<le> ARENA_PAGE_CAPACITY \<and>
     max_count (arenas h a) = ARENA_PAGE_CAPACITY div object_size (arenas h a) \<and> linked h a ps \<and>
     (\<forall>p. length (used (apages h p)) = 4) \<and> (\<forall>p\<in>set ps. page_ok h a p) \<and>
     num_objects (arenas h a) = (\<Sum>p\<leftarrow>ps. count (apages h p)) \<and> num_pages (arenas h a) = length ps \<and>
     sorted_wrt (\<lambda>p q. full h a p \<longrightarrow> full h a q) ps"

definition objs :: "'k aheap \<Rightarrow> addr \<Rightarrow> addr list \<Rightarrow> addr set" where
  "objs h a ps = {p + ARENA_HEADER_SIZE + i * object_size (arenas h a) |p i. p \<in> set ps \<and> i \<in> bm_set (used (apages h p))}"

lemma arena_sizes:
  assumes "arena_inv h a ps"
  shows "0 < max_count (arenas h a)" "max_count (arenas h a) \<le> 252"
    "i < max_count (arenas h a) \<Longrightarrow> i * object_size (arenas h a) + object_size (arenas h a) \<le> 4032"
proof -
  let ?s = "object_size (arenas h a)"
  have s: "16 \<le> ?s" "?s \<le> 4032" and m: "max_count (arenas h a) = 4032 div ?s" using assms by (simp_all add: arena_inv_def)
  show "0 < max_count (arenas h a)" using s m by (simp add: div_greater_zero_iff)
  have "4032 div ?s \<le> 4032 div 16" using s(1) by (intro div_le_mono2) simp_all
  then show "max_count (arenas h a) \<le> 252" using m by simp
  show "i < max_count (arenas h a) \<Longrightarrow> i * ?s + ?s \<le> 4032"
  proof -
    assume "i < max_count (arenas h a)"
    then have "Suc i * ?s \<le> (4032 div ?s) * ?s" unfolding m by (intro mult_le_mono1) simp
    also have "\<dots> \<le> 4032" by simp
    finally show ?thesis by (simp add: add.commute)
  qed
qed

lemma arena_page:
  assumes "arena_inv h a ps" "p \<in> set ps"
  shows "page_addr p" "pg_arena (apages h p) = a" "bm_set (used (apages h p)) \<subseteq> {..<max_count (arenas h a)}"
    "count (apages h p) = card (bm_set (used (apages h p)))"
proof -
  have "linked h a ps" "page_ok h a p" using assms unfolding arena_inv_def by blast+
  then show "page_addr p" "pg_arena (apages h p) = a" "bm_set (used (apages h p)) \<subseteq> {..<max_count (arenas h a)}"
    "count (apages h p) = card (bm_set (used (apages h p)))" using assms(2) unfolding linked_def page_ok_def by blast+
qed

lemma full_iff:
  assumes "arena_inv h a ps" "p \<in> set ps"
  shows "full h a p \<longleftrightarrow> bm_set (used (apages h p)) = {..<max_count (arenas h a)}" "count (apages h p) \<le> max_count (arenas h a)"
proof -
  note sub = arena_page(3) [OF assms] and c = arena_page(4) [OF assms]
  show "count (apages h p) \<le> max_count (arenas h a)" using card_mono [OF _ sub] c by simp
  show "full h a p \<longleftrightarrow> bm_set (used (apages h p)) = {..<max_count (arenas h a)}"
    unfolding full_def c using card_seteq [OF finite_lessThan sub] by (metis card_lessThan order_refl)
qed

text \<open>An object's address determines its page and slot.\<close>

lemma object_slot:
  assumes p: "page_addr p" and i: "i * s + s \<le> 4032" "0 < s" and o: "object = p + 64 + i * s"
  shows "get_container_page object = p" "subw 64 object (addw 64 p 64) = i * s" "object < 2 ^ 64"
    "addw 64 (addw 64 p 64) (i * s) = object" "object \<noteq> 0"
proof -
  have b: "p + 4096 \<le> 2 ^ 64" "p mod 4096 = 0" using p by (simp_all add: page_addr_def)
  show lt: "object < 2 ^ 64" using b i o by linarith
  then have "unat (word_of_nat object :: u64) = object" by (simp add: unat_of_nat take_bit_eq_mod)
  then have "get_container_page object = object - object mod 4096"
    by (simp add: get_container_page_def unat_round_down)
  moreover have "object mod 4096 = 64 + i * s"
  proof -
    have "object mod 4096 = (64 + i * s) mod 4096" using o b(2) by (metis add.assoc mod_add_left_eq add_0)
    then show ?thesis using i by simp
  qed
  ultimately show "get_container_page object = p" using o by simp
  show "subw 64 object (addw 64 p 64) = i * s" using lt o by (simp add: page_arith(4) [OF p] subw_small)
  show "addw 64 (addw 64 p 64) (i * s) = object" using lt o by (simp add: page_arith(4) [OF p] addw_small)
  show "object \<noteq> 0" using o by simp
qed

lemma objs_iff:
  assumes inv: "arena_inv h a ps" and p: "p \<in> set ps" and i: "i < max_count (arenas h a)"
  shows "p + 64 + i * object_size (arenas h a) \<in> objs h a ps \<longleftrightarrow> i \<in> bm_set (used (apages h p))"
proof
  let ?s = "object_size (arenas h a)"
  have s: "0 < ?s" using inv by (simp add: arena_inv_def)
  have pg: "page_addr q" "bm_set (used (apages h q)) \<subseteq> {..<max_count (arenas h a)}" if "q \<in> set ps" for q
    using arena_page [OF inv that] by blast+
  assume "p + 64 + i * ?s \<in> objs h a ps"
  then obtain q j where q: "q \<in> set ps" "j \<in> bm_set (used (apages h q))" "p + 64 + i * ?s = q + 64 + j * ?s" by (auto simp: objs_def)
  have j: "j < max_count (arenas h a)" using pg(2) [OF q(1)] q(2) by auto
  note sz = arena_sizes(3) [OF inv i] arena_sizes(3) [OF inv j]
  have "p = q" using object_slot(1) [OF pg(1) [OF p] sz(1) s refl] object_slot(1) [OF pg(1) [OF q(1)] sz(2) s q(3)] by simp
  then have "i = j" using q(3) s by simp
  then show "i \<in> bm_set (used (apages h p))" using q(2) \<open>p = q\<close> by simp
qed (use p in \<open>auto simp: objs_def\<close>)

text \<open>Live objects are inside the data of their page and do not overlap.\<close>

lemma objs_disjoint:
  assumes inv: "arena_inv h a ps" and o: "x \<in> objs h a ps" "y \<in> objs h a ps" "x \<noteq> y"
  shows "x + object_size (arenas h a) \<le> y \<or> y + object_size (arenas h a) \<le> x"
proof -
  let ?s = "object_size (arenas h a)"
  have pg: "page_addr q" "bm_set (used (apages h q)) \<subseteq> {..<max_count (arenas h a)}" if "q \<in> set ps" for q
    using arena_page [OF inv that] by blast+
  obtain p i q j where x: "x = p + 64 + i * ?s" "p \<in> set ps" "i \<in> bm_set (used (apages h p))"
    and y: "y = q + 64 + j * ?s" "q \<in> set ps" "j \<in> bm_set (used (apages h q))" using o by (auto simp: objs_def)
  have "i < max_count (arenas h a)" "j < max_count (arenas h a)" using pg(2) x y by auto
  note sz = arena_sizes(3) [OF inv this(1)] arena_sizes(3) [OF inv this(2)]
  have al: "p mod 4096 = 0" "q mod 4096 = 0" using pg(1) x(2) y(2) by (simp_all add: page_addr_def)
  show ?thesis
  proof (cases "p = q")
    case True
    then have "i \<noteq> j" using o(3) x y by auto
    then have "Suc i \<le> j \<or> Suc j \<le> i" by linarith
    then have "Suc i * ?s \<le> j * ?s \<or> Suc j * ?s \<le> i * ?s" using mult_le_mono1 by blast
    then show ?thesis using x(1) y(1) True by (simp add: add.commute)
  next
    case False
    moreover obtain k m where km: "p = 4096 * k" "q = 4096 * m" using al by (auto elim!: dvdE dest!: mod_0_imp_dvd)
    ultimately have "k < m \<or> m < k" by auto
    then have "p + 4096 \<le> q \<or> q + 4096 \<le> p" using km by linarith
    then show ?thesis using x(1) y(1) sz by linarith
  qed
qed

section \<open>Changing one page\<close>

lemma arena_inv_page:
  assumes inv: "arena_inv h a ps" and p: "p \<in> set ps" and pg: "apages h' = (apages h)(p := g)"
    and g: "pg_arena g = a" "length (used g) = 4" "bm_set (used g) \<subseteq> {..<max_count (arenas h a)}" "count g = card (bm_set (used g))"
    and ar: "object_size (arenas h' a) = object_size (arenas h a)" "max_count (arenas h' a) = max_count (arenas h a)"
      "num_pages (arenas h' a) = num_pages (arenas h a)"
      "num_objects (arenas h' a) + count (apages h p) = num_objects (arenas h a) + count g"
    and l: "linked h' a ps'" "set ps' = set ps" and o: "sorted_wrt (\<lambda>p q. full h' a p \<longrightarrow> full h' a q) ps'"
  shows "arena_inv h' a ps'"
proof -
  note I = inv [unfolded arena_inv_def]
  have d: "distinct ps" "distinct ps'" using I l(1) linked_distinct by blast+
  then have len: "length ps' = length ps" using l(2) by (metis distinct_card)
  have sum: "(\<Sum>q\<leftarrow>qs. f q) = f p + sum f (set qs - {p})" if "distinct qs" "p \<in> set qs" for qs and f :: "addr \<Rightarrow> nat"
    using that sum.remove [of "set qs" p f] by (simp add: sum_list_distinct_conv_sum_set)
  have "(\<Sum>q\<leftarrow>ps'. count (apages h' q)) = count g + sum (\<lambda>q. count (apages h' q)) (set ps - {p})"
    using sum [OF d(2), of "\<lambda>q. count (apages h' q)"] p l(2) pg by simp
  also have "sum (\<lambda>q. count (apages h' q)) (set ps - {p}) = sum (\<lambda>q. count (apages h q)) (set ps - {p})"
    by (rule sum.cong) (simp_all add: pg)
  finally have "num_objects (arenas h' a) = (\<Sum>q\<leftarrow>ps'. count (apages h' q))"
    using ar(4) I sum [OF d(1) p, of "\<lambda>q. count (apages h q)"] by simp
  moreover have "page_ok h' a q" if "q \<in> set ps'" for q
  proof (cases "q = p")
    case True
    then show ?thesis using pg g ar(2) unfolding page_ok_def by simp
  next
    case False
    then show ?thesis using pg ar(2) arena_page [OF inv, of q] that l(2) unfolding page_ok_def by simp
  qed
  moreover have "\<forall>q. length (used (apages h' q)) = 4" using I pg g(2) by simp
  ultimately show ?thesis using I ar len l(1) o unfolding arena_inv_def by simp
qed

lemma objs_page:
  assumes "apages h' = (apages h)(p := g)" "object_size (arenas h' a) = s" "object_size (arenas h a) = s" "set ps' = set ps" "p \<in> set ps"
  shows "bm_set (used g) = insert i (bm_set (used (apages h p))) \<Longrightarrow> objs h' a ps' = insert (p + 64 + i * s) (objs h a ps)"
    and "\<lbrakk>arena_inv h a ps; i < max_count (arenas h a); bm_set (used g) = bm_set (used (apages h p)) - {i}\<rbrakk> \<Longrightarrow>
      objs h' a ps' = objs h a ps - {p + 64 + i * s}"
proof -
  show "bm_set (used g) = insert i (bm_set (used (apages h p))) \<Longrightarrow> objs h' a ps' = insert (p + 64 + i * s) (objs h a ps)"
    unfolding objs_def assms(2,3,4) using assms(1,5) by (auto split: if_splits)
  assume inv: "arena_inv h a ps" and i: "i < max_count (arenas h a)" and g: "bm_set (used g) = bm_set (used (apages h p)) - {i}"
  have u: "q = p \<and> j = i" if q: "q \<in> set ps" "j \<in> bm_set (used (apages h q))" and e: "q + 64 + j * s = p + 64 + i * s" for q j
  proof -
    have s: "0 < s" using inv assms(3) by (auto simp: arena_inv_def)
    have j: "j < max_count (arenas h a)" using arena_page(3) [OF inv q(1)] q(2) by auto
    have "i * s + s \<le> 4032" "j * s + s \<le> 4032" using arena_sizes(3) [OF inv i] arena_sizes(3) [OF inv j] assms(3) by simp_all
    then have "q = p" using object_slot(1) [OF arena_page(1) [OF inv q(1)] _ s e [symmetric]] object_slot(1) [OF arena_page(1) [OF inv assms(5)] _ s refl, of i] by simp
    then show ?thesis using e s by simp
  qed
  show "objs h' a ps' = objs h a ps - {p + 64 + i * s}"
  proof (intro equalityI subsetI)
    fix x assume "x \<in> objs h' a ps'"
    then obtain q j where x: "x = q + 64 + j * s" "q \<in> set ps" "j \<in> bm_set (used (apages h' q))" unfolding objs_def assms(2,4) by blast
    have "j \<in> bm_set (used (apages h q))" "\<not> (q = p \<and> j = i)" using x(3) assms(1) g by (auto split: if_splits)
    then show "x \<in> objs h a ps - {p + 64 + i * s}" using x(1,2) u [of q j] unfolding objs_def assms(3) by auto
  next
    fix x assume "x \<in> objs h a ps - {p + 64 + i * s}"
    then obtain q j where x: "x = q + 64 + j * s" "q \<in> set ps" "j \<in> bm_set (used (apages h q))" "\<not> (q = p \<and> j = i)" unfolding objs_def assms(3) by blast
    then have "j \<in> bm_set (used (apages h' q))" using assms(1) g by (auto split: if_splits)
    then show "x \<in> objs h' a ps'" using x unfolding objs_def assms(2,4) by blast
  qed
qed

lemma linked_bound: "linked h a ps \<Longrightarrow> length ps \<le> 2 ^ 52"
proof -
  assume l: "linked h a ps"
  have "set ps \<subseteq> (\<lambda>i. 4096 * i) ` {..<2 ^ 52}"
  proof
    fix p assume "p \<in> set ps"
    then have "p mod 4096 = 0" "p + 4096 \<le> 2 ^ 64" using l by (auto simp: linked_def page_addr_def)
    then have "p = 4096 * (p div 4096)" "p div 4096 < 2 ^ 52" by auto
    then show "p \<in> (\<lambda>i. 4096 * i) ` {..<2 ^ 52}" by blast
  qed
  then have "card (set ps) \<le> card ((\<lambda>i. 4096 * i) ` {..<2 ^ 52 :: nat})" by (intro card_mono) simp_all
  also have "\<dots> \<le> 2 ^ 52" using card_image_le [of "{..<2 ^ 52 :: nat}" "\<lambda>i. 4096 * i"] by simp
  finally show ?thesis using linked_distinct [OF l] by (simp add: distinct_card)
qed

lemma arena_bounds:
  assumes inv: "arena_inv h a ps"
  shows "num_pages (arenas h a) + 1 < 2 ^ 64" "num_objects (arenas h a) + 1 < 2 ^ 64" "p \<in> set ps \<Longrightarrow> count (apages h p) + 1 < 2 ^ 64"
    "p \<in> set ps \<Longrightarrow> count (apages h p) \<le> num_objects (arenas h a)"
proof -
  have l: "linked h a ps" and n: "num_pages (arenas h a) = length ps" "num_objects (arenas h a) = (\<Sum>p\<leftarrow>ps. count (apages h p))"
    using inv by (simp_all add: arena_inv_def)
  note b = linked_bound [OF l]
  have c: "count (apages h p) \<le> 252" if "p \<in> set ps" for p using full_iff(2) [OF inv that] arena_sizes(2) [OF inv] by simp
  have "(\<Sum>p\<leftarrow>qs. count (apages h p)) \<le> 252 * length qs" if "set qs \<subseteq> set ps" for qs
    using that c by (induction qs) fastforce+
  then have "num_objects (arenas h a) \<le> 252 * length ps" using n(2) by simp
  then show "num_pages (arenas h a) + 1 < 2 ^ 64" "num_objects (arenas h a) + 1 < 2 ^ 64" using b n(1) by simp_all
  show "p \<in> set ps \<Longrightarrow> count (apages h p) + 1 < 2 ^ 64" using c [of p] by simp
  show "p \<in> set ps \<Longrightarrow> count (apages h p) \<le> num_objects (arenas h a)"
    unfolding n(2) using member_le_sum_list [of "count (apages h p)" "map (\<lambda>p. count (apages h p)) ps"] by simp
qed

section \<open>Allocation and release\<close>

lemma used_range:
  assumes "arena_inv h a ps" "i < max_count (arenas h a)"
  shows "i < bm_size (used (apages h p))"
proof -
  have "length (used (apages h p)) = 4" using assms(1) by (simp add: arena_inv_def)
  then show ?thesis using arena_sizes(2) [OF assms(1)] assms(2) by (simp add: bm_size_def)
qed

context page_allocator
begin

lemma add_page_ok:
  assumes inv: "arena_inv h a ps" and al: "allocate (arenas h a) me = alloc" and k: "ready (kern h)" "set ps \<inter> avail (kern h) = {}"
    and some: "avail (kern h) \<noteq> {}" and f: "\<forall>p\<in>set ps. full h a p"
  shows "\<exists>p h'. add_page me a h = Inr (p, h') \<and> arena_inv h' a (p # ps) \<and> objs h' a (p # ps) = objs h a ps \<and> \<not> full h' a p \<and>
    p \<in> avail (kern h) \<and> ready (kern h') \<and> avail (kern h') = avail (kern h) - {p} \<and>
    ar_lock (arenas h' a) = ar_lock (arenas h a) \<and> allocate (arenas h' a) me = alloc \<and> num_objects (arenas h' a) = num_objects (arenas h a) \<and>
    object_size (arenas h' a) = object_size (arenas h a)"
proof -
  note I = inv [unfolded arena_inv_def]
  obtain p k' where p: "alloc (kern h) = Inr (p, k')" "ready k'" "avail k' = avail (kern h) - {p}" "p \<in> avail (kern h)"
    using alloc_ok [OF k(1)] some by blast
  have pa: "page_addr p" "p \<notin> set ps" using avail_page [OF k(1) p(4)] k(2) p(4) by auto
  define h1 where "h1 = upd_page p (\<lambda>g. g\<lparr>pg_arena := a, used := replicate 4 0, count := 0\<rparr>)
    (h\<lparr>kern := k', anodes := init_list_node (node_of p) (anodes h)\<rparr>)"
  have "length (used (apages h p)) = 4" using I by blast
  then have ini: "init_arena_page a p (h\<lparr>kern := k'\<rparr>) = Inr h1"
    by (simp add: init_arena_page_def h1_def init_bitmap_def BITMAP_TO_NUM_CELLS_def upd_page_def)
  have l1: "linked h1 a ps"
  proof (cases "ps = []")
    case False
    have "ring (anodes h) (map node_of ps)" using I False by (simp add: linked_def)
    then have "ring (init_list_node (node_of p) (anodes h)) (map node_of ps)"
      by (rule ring_frame) (use I pa in \<open>auto simp: init_list_node_def linked_def node_inj\<close>)
    then show ?thesis using I False by (simp add: linked_def h1_def)
  qed (use I in \<open>simp add: linked_def h1_def\<close>)
  have r1: "ring (anodes h1) [node_of p]" by (simp add: h1_def)
  note L = insert_page_linked [OF l1 r1 pa]
  obtain ns where ns: "insert_page a p h1 = upd_arena a (\<lambda>r. r\<lparr>pages := p\<rparr>) (h1\<lparr>anodes := ns\<rparr>)" using L(2) by blast
  define h2 where "h2 = upd_arena a (\<lambda>r. r\<lparr>num_pages := addw 64 (num_pages r) 1\<rparr>) (insert_page a p h1)"
  have run: "add_page me a h = Inr (p, h2)"
    using p(1) al pa(1) ini by (simp add: add_page_def page_addr_def h2_def)
  have ar: "arenas h2 a = (arenas h a)\<lparr>pages := p, num_pages := addw 64 (num_pages (arenas h a)) 1\<rparr>"
    and pg: "apages h2 = (apages h)(p := (apages h p)\<lparr>pg_arena := a, used := replicate 4 0, count := 0\<rparr>)" and kn: "kern h2 = k'"
    unfolding h2_def ns by (simp_all add: h1_def upd_page_def)
  have z: "bm_set (replicate 4 0) = {}" by (auto simp: bm_set_def idx_bound)
  have nf: "\<not> full h2 a p" using arena_sizes(1) [OF inv] by (simp add: full_def ar pg)
  have fq: "full h2 a q" if "q \<in> set ps" for q using f that pa(2) by (auto simp: full_def ar pg)
  have ok: "page_ok h2 a q" if "q \<in> set (p # ps)" for q
  proof (cases "q = p")
    case False
    then show ?thesis using arena_page [OF inv, of q] that unfolding page_ok_def ar pg by simp
  qed (simp add: page_ok_def pg z)
  have "map (\<lambda>q. count (apages h2 q)) ps = map (\<lambda>q. count (apages h q)) ps" using pa(2) by (auto simp: pg)
  then have sum: "(\<Sum>q\<leftarrow>p # ps. count (apages h2 q)) = (\<Sum>q\<leftarrow>ps. count (apages h q))"
    using arg_cong [where f = sum_list] by (simp only: list.map sum_list.Cons) (simp add: pg)
  have len: "\<forall>q. length (used (apages h2 q)) = 4" using I by (simp add: pg)
  have ord: "sorted_wrt (\<lambda>p q. full h2 a p \<longrightarrow> full h2 a q) (p # ps)" using nf fq by (simp add: sorted_wrt_iff_nth_less)
  have "linked h2 a (p # ps)" by (rule linked_frame [OF L(1)]) (simp_all add: h2_def)
  then have "arena_inv h2 a (p # ps)" unfolding arena_inv_def
    unfolding sum using I ok len ord arena_bounds(1) [OF inv] by (simp add: ar addw_small)
  moreover have "objs h2 a (p # ps) = objs h a ps" unfolding objs_def using pa(2) z by (auto simp: ar pg)
  ultimately show ?thesis using run nf p kn al by (intro exI [of _ p] exI [of _ h2]) (simp add: ar)
qed

lemma alloc_object_ok:
  assumes inv: "arena_inv h a ps" and lk: "free_lock (ar_lock (arenas h a))" and al: "allocate (arenas h a) me = alloc"
    and k: "ready (kern h)" "set ps \<inter> avail (kern h) = {}" and some: "avail (kern h) \<noteq> {} \<or> (\<exists>p\<in>set ps. \<not> full h a p)"
  shows "\<exists>object h' ps'. alloc_object me a h = Inr (object, h') \<and> arena_inv h' a ps' \<and> object \<notin> objs h a ps \<and>
    objs h' a ps' = insert object (objs h a ps) \<and> free_lock (ar_lock (arenas h' a)) \<and> allocate (arenas h' a) me = alloc \<and>
    ready (kern h') \<and> set ps' \<inter> avail (kern h') = {} \<and>
    num_objects (arenas h' a) = Suc (num_objects (arenas h a)) \<and> ((\<exists>p\<in>set ps. \<not> full h a p) \<longrightarrow> set ps' = set ps) \<and>
    object_size (arenas h' a) = object_size (arenas h a)"
proof -
  define L where "L = (ar_lock (arenas h a))\<lparr>locked := True, lcpu := Some me\<rparr>"
  define h0 where "h0 = upd_arena a (\<lambda>r. r\<lparr>ar_lock := L\<rparr>) h"
  have acq: "acquire_spinlock me (ar_lock (arenas h a)) = Inr L" using lk by (simp add: acquire_free L_def)
  have l0: "linked h0 a ps" by (rule linked_frame [of h]) (use inv in \<open>simp_all add: arena_inv_def h0_def\<close>)
  have eq0: "full h0 a = full h a" "page_ok h0 a = page_ok h a" by (simp_all add: fun_eq_iff full_def page_ok_def h0_def)
  have inv0: "arena_inv h0 a ps" using inv l0 eq0 by (simp add: arena_inv_def) (simp add: h0_def)
  have o0: "objs h0 a ps = objs h a ps" by (simp add: objs_def h0_def)
  have full0: "(pages (arenas h0 a) = 0 \<or> count (apages h0 (pages (arenas h0 a))) \<ge> max_count (arenas h0 a)) \<longleftrightarrow> (\<forall>p\<in>set ps. full h0 a p)"
  proof (cases ps)
    case Nil
    then show ?thesis using linked_pages [OF l0] by simp
  next
    case (Cons q qs)
    have "sorted_wrt (\<lambda>p q. full h0 a p \<longrightarrow> full h0 a q) (q # qs)" using inv0 Cons by (simp add: arena_inv_def)
    moreover have "q \<noteq> 0" using arena_page(1) [OF inv0, of q] Cons by (simp add: page_addr_def)
    ultimately show ?thesis using linked_pages [OF l0] Cons by (auto simp: full_def)
  qed
  obtain x h1 p qs where pre: "(if pages (arenas h0 a) = 0 \<or> count (apages h0 (pages (arenas h0 a))) \<ge> max_count (arenas h0 a)
        then add_page me a h0 else Inr (0, h0)) = Inr (x, h1)"
    and inv1: "arena_inv h1 a (p # qs)" and o1: "objs h1 a (p # qs) = objs h a ps" and nf: "\<not> full h1 a p"
    and k1: "ready (kern h1)" "set (p # qs) \<inter> avail (kern h1) = {}" and lk1: "ar_lock (arenas h1 a) = L" and al1: "allocate (arenas h1 a) me = alloc"
    and no: "num_objects (arenas h1 a) = num_objects (arenas h a)" "object_size (arenas h1 a) = object_size (arenas h a)" and sm: "(\<exists>p\<in>set ps. \<not> full h a p) \<longrightarrow> p # qs = ps"
  proof (cases "\<forall>p\<in>set ps. full h0 a p")
    case True
    have h0k: "ready (kern h0)" "set ps \<inter> avail (kern h0) = {}" "allocate (arenas h0 a) me = alloc" using k al by (simp_all add: h0_def)
    have "avail (kern h0) \<noteq> {}" using some True eq0 by (auto simp: h0_def)
    from add_page_ok [OF inv0 h0k(3,1,2) this True] obtain p h1 where
      A: "add_page me a h0 = Inr (p, h1)" "arena_inv h1 a (p # ps)" "objs h1 a (p # ps) = objs h0 a ps" "\<not> full h1 a p" "ready (kern h1)"
        "avail (kern h1) = avail (kern h0) - {p}" "ar_lock (arenas h1 a) = ar_lock (arenas h0 a)" "allocate (arenas h1 a) me = alloc"
        "num_objects (arenas h1 a) = num_objects (arenas h0 a)" "object_size (arenas h1 a) = object_size (arenas h0 a)" by blast
    show thesis by (rule that [of p h1 p ps]) (use A True full0 o0 h0k(2) eq0 in \<open>auto simp: h0_def\<close>)
  next
    case False
    then obtain q qs where ps: "ps = q # qs" by (cases ps) auto
    have "\<not> full h0 a q" using False inv0 ps by (auto simp: arena_inv_def)
    then show thesis by (intro that [of 0 h0 q qs]) (use False full0 inv0 o0 k al ps in \<open>auto simp: h0_def\<close>)
  qed
  let ?s = "object_size (arenas h1 a)" and ?n = "max_count (arenas h1 a)"
  have s: "0 < ?s" using inv1 by (simp add: arena_inv_def)
  have pm: "p \<in> set (p # qs)" by simp
  note P = arena_page [OF inv1 pm]
  have pages1: "pages (arenas h1 a) = p" "p \<noteq> 0" using inv1 P(1) by (simp_all add: arena_inv_def linked_def page_addr_def)
  have rng: "i < ?n \<Longrightarrow> i < bm_size (used (apages h1 p))" for i by (rule used_range [OF inv1])
  then have "?n \<le> bm_size (used (apages h1 p))" using arena_sizes(1) [OF inv1] by (metis Suc_leI Suc_pred lessI)
  from first_clear_cases [OF this, of 0]
  obtain i where i: "first_clear (used (apages h1 p)) 0 ?n = Inr (Some i)" "i < ?n" "i \<notin> bm_set (used (apages h1 p))"
    using nf full_iff(1) [OF inv1 pm] P(3) by (auto simp: lessThan_atLeast0)
  obtain bm where bm: "bitmap_set (used (apages h1 p)) i = Inr bm" "bm_set bm = insert i (bm_set (used (apages h1 p)))"
    "bm_size bm = bm_size (used (apages h1 p))" using bitmap_set_ok [OF rng [OF i(2)]] by blast
  define object where "object = p + 64 + i * ?s"
  note S = object_slot [OF P(1) arena_sizes(3) [OF inv1 i(2)] s object_def]
  define g where "g = (apages h1 p)\<lparr>used := bm, count := Suc (count (apages h1 p))\<rparr>"
  have cnt: "addw 64 (count (apages h1 p)) 1 = Suc (count (apages h1 p))" "addw 64 (num_objects (arenas h1 a)) 1 = Suc (num_objects (arenas h1 a))"
    using arena_bounds(2) [OF inv1] arena_bounds(3) [OF inv1 pm] by (simp_all add: addw_small)
  define h2 where "h2 = upd_arena a (\<lambda>r. r\<lparr>num_objects := Suc (num_objects (arenas h1 a))\<rparr>) (upd_page p (\<lambda>_. g) h1)"
  have l2: "linked h2 a (p # qs)" by (rule linked_frame [of h1]) (use inv1 in \<open>simp_all add: arena_inv_def h2_def\<close>)
  define ps' where "ps' = (if ?n \<le> count g then qs @ [p] else p # qs)"
  define h3 where "h3 = (if ?n \<le> count g then upd_arena a (\<lambda>r. r\<lparr>pages := hd (qs @ [p])\<rparr>) h2 else h2)"
  define h4 where "h4 = upd_arena a (\<lambda>r. r\<lparr>ar_lock := ar_lock (arenas h a)\<rparr>) h3"
  have l3: "linked h3 a ps'" using next_page_linked(2) [OF l2] l2 by (simp add: h3_def ps'_def)
  then have l4: "linked h4 a ps'" by (rule linked_frame) (simp_all add: h4_def)
  have rel: "release_spinlock me (ar_lock (arenas h3 a)) = Inr (ar_lock (arenas h a))"
    using lk lk1 acquire_release [OF lk acq] by (simp add: h3_def h2_def)
  have np: "page_of (nextp (anodes h2) (node_of p)) = hd (qs @ [p])" by (rule next_page_linked(1) [OF l2])
  have h2': "upd_arena a (\<lambda>r. r\<lparr>num_objects := addw 64 (num_objects r) 1\<rparr>) (upd_page p (\<lambda>g. g\<lparr>used := bm, count := addw 64 (count g) 1\<rparr>) h1) = h2"
    using cnt by (simp add: h2_def g_def upd_arena_def upd_page_def)
  have f2: "count (apages h2 p) = count g" "max_count (arenas h2 a) = ?n" by (simp_all add: h2_def)
  have run: "alloc_object me a h = Inr (object, h4)"
    unfolding alloc_object_def acq bnd_simps Let_def h0_def [symmetric] pre
    by (simp only: bnd_simps prod.case Let_def pages1 simp_thms if_False i(1) option.case bm(1) S(4) S(5) h2' chk_simps f2 np
        h3_def [symmetric] rel h4_def)
  have pg4: "apages h4 = (apages h1)(p := g)" by (simp add: h4_def h3_def h2_def upd_page_def)
  have card: "count g = card (bm_set (used g))" using P(4) i(3) bm(2) by (simp add: g_def)
  have sub: "bm_set (used g) \<subseteq> {..<?n}" using P(3) i(2) bm(2) by (simp add: g_def)
  have len4: "length (used g) = 4" using bm(3) inv1 by (simp add: g_def bm_size_def arena_inv_def)
  have ar4: "object_size (arenas h4 a) = ?s" "max_count (arenas h4 a) = ?n" "num_pages (arenas h4 a) = num_pages (arenas h1 a)"
      "num_objects (arenas h4 a) = Suc (num_objects (arenas h1 a))" "ar_lock (arenas h4 a) = ar_lock (arenas h a)" "kern h4 = kern h1"
      "allocate (arenas h4 a) me = alloc"
    using al1 by (simp_all add: h4_def h3_def h2_def)
  have set': "set ps' = set (p # qs)" by (auto simp: ps'_def)
  have pq: "p \<notin> set qs" using linked_distinct [OF l2] by simp
  have f4: "full h4 a q = full h1 a q" if "q \<in> set qs" for q using that pq by (auto simp: full_def pg4 ar4)
  have fp: "full h4 a p \<longleftrightarrow> ?n \<le> count g" by (simp add: full_def pg4 ar4)
  have sq: "sorted_wrt (\<lambda>p q. full h4 a p \<longrightarrow> full h4 a q) qs"
    using inv1 f4 sorted_wrt_mono_rel [of qs "\<lambda>p q. full h1 a p \<longrightarrow> full h1 a q"] by (auto simp: arena_inv_def)
  have "sorted_wrt (\<lambda>p q. full h4 a p \<longrightarrow> full h4 a q) ps'" using sq fp by (auto simp: ps'_def sorted_wrt_append)
  then have inv4: "arena_inv h4 a ps'"
    by (intro arena_inv_page [OF inv1 pm pg4 _ len4 sub card _ _ _ _ l4 set']) (use ar4 P(2) in \<open>simp_all add: g_def\<close>)
  have "bm_set (used g) = insert i (bm_set (used (apages h1 p)))" using bm(2) by (simp add: g_def)
  then have "objs h4 a ps' = insert object (objs h1 a (p # qs))"
    using objs_page(1) [OF pg4 ar4(1) refl set' pm] by (simp add: object_def)
  moreover have "object \<notin> objs h1 a (p # qs)" using objs_iff [OF inv1 pm i(2)] i(3) by (simp add: object_def)
  ultimately show ?thesis using run inv4 o1 lk ar4 k1 set' no sm by (intro exI [of _ object] exI [of _ h4] exI [of _ ps']) auto
qed

end

lemma free_object_ok:
  assumes inv: "arena_inv h a ps" and lk: "free_lock (ar_lock (arenas h a))" and o: "object \<in> objs h a ps"
  shows "\<exists>h' ps'. free_object me object h = Inr h' \<and> arena_inv h' a ps' \<and> set ps' = set ps \<and>
    objs h' a ps' = objs h a ps - {object} \<and> ar_lock (arenas h' a) = ar_lock (arenas h a) \<and> kern h' = kern h \<and>
    allocate (arenas h' a) = allocate (arenas h a) \<and>
    Suc (num_objects (arenas h' a)) = num_objects (arenas h a) \<and> \<not> full h' a (get_container_page object)"
proof -
  let ?s = "object_size (arenas h a)" and ?n = "max_count (arenas h a)"
  have s: "0 < ?s" using inv by (simp add: arena_inv_def)
  obtain p i where pi: "object = p + 64 + i * ?s" "p \<in> set ps" "i \<in> bm_set (used (apages h p))" using o by (auto simp: objs_def)
  note P = arena_page [OF inv pi(2)]
  have i: "i < ?n" using P(3) pi(3) by auto
  note S = object_slot [OF P(1) arena_sizes(3) [OF inv i] s pi(1)]
  note rng = used_range [OF inv i, of p]
  obtain bm where bm: "bitmap_clear (used (apages h p)) i = Inr bm" "bm_set bm = bm_set (used (apages h p)) - {i}"
    "bm_size bm = bm_size (used (apages h p))" using bitmap_clear_ok [OF rng] by blast
  define L where "L = (ar_lock (arenas h a))\<lparr>locked := True, lcpu := Some me\<rparr>"
  have acq: "acquire_spinlock me (ar_lock (arenas h a)) = Inr L" using lk by (simp add: acquire_free L_def)
  define h0 where "h0 = upd_arena a (\<lambda>r. r\<lparr>ar_lock := L\<rparr>) h"
  have A0: "object_size (arenas h0 a) = ?s" "apages h0 = apages h" by (simp_all add: h0_def)
  have c1: "0 < count (apages h p)" using P(4) pi(3) by (auto simp: card_gt_0_iff)
  then have cn: "0 < num_objects (arenas h a)" using arena_bounds(4) [OF inv pi(2)] by simp
  define g where "g = (apages h p)\<lparr>used := bm, count := count (apages h p) - 1\<rparr>"
  define h1 where "h1 = upd_arena a (\<lambda>r. r\<lparr>num_objects := num_objects (arenas h a) - 1\<rparr>) (upd_page p (\<lambda>_. g) h0)"
  have cnt: "subw 64 (count (apages h p)) 1 = count (apages h p) - 1" "subw 64 (num_objects (arenas h a)) 1 = num_objects (arenas h a) - 1"
    using arena_bounds(2) [OF inv] arena_bounds(3) [OF inv pi(2)] c1 cn by (simp_all add: subw_small)
  have h1': "upd_arena a (\<lambda>r. r\<lparr>num_objects := subw 64 (num_objects r) 1\<rparr>) (upd_page p (\<lambda>g. g\<lparr>used := bm, count := subw 64 (count g) 1\<rparr>) h0) = h1"
    using cnt by (simp add: h1_def h0_def g_def upd_arena_def upd_page_def)
  have l1: "linked h1 a ps" by (rule linked_frame [of h]) (use inv in \<open>simp_all add: arena_inv_def h1_def h0_def\<close>)
  define ps' where "ps' = p # remove1 p ps"
  note M = move_page_linked [OF l1 pi(2)]
  obtain ns where ns: "move_page_to_head a p h1 = upd_arena a (\<lambda>r. r\<lparr>pages := p\<rparr>) (h1\<lparr>anodes := ns\<rparr>)" using M(2) by blast
  define h2 where "h2 = upd_arena a (\<lambda>r. r\<lparr>ar_lock := ar_lock (arenas h a)\<rparr>) (move_page_to_head a p h1)"
  have rel: "release_spinlock me (ar_lock (arenas (move_page_to_head a p h1) a)) = Inr (ar_lock (arenas h a))"
    unfolding ns using acquire_release [OF lk acq] by (simp add: h1_def h0_def)
  have dm: "i * ?s mod ?s = 0" "i * ?s div ?s = i" using s by simp_all
  have get: "bitmap_get (used (apages h p)) i = Inr True" using bitmap_get_Inr [OF rng] pi(3) by simp
  have run: "free_object me object h = Inr h2"
    unfolding free_object_def S(1) P(2) Let_def acq bnd_simps h0_def [symmetric] A0 S(2) dm get bm(1) h1' h2_def
    by (simp only: chk_simps simp_thms bnd_simps rel)
  have l2: "linked h2 a ps'" by (rule linked_frame [OF M(1) [folded ps'_def]]) (simp_all add: h2_def)
  have pg2: "apages h2 = (apages h)(p := g)" unfolding h2_def ns by (simp add: h1_def h0_def upd_page_def)
  have ar2: "object_size (arenas h2 a) = ?s" "max_count (arenas h2 a) = ?n" "num_pages (arenas h2 a) = num_pages (arenas h a)"
    "num_objects (arenas h2 a) = num_objects (arenas h a) - 1" "ar_lock (arenas h2 a) = ar_lock (arenas h a)" "kern h2 = kern h"
    "allocate (arenas h2 a) = allocate (arenas h a)"
    unfolding h2_def ns by (simp_all add: h1_def h0_def)
  have dist: "distinct ps" using inv linked_distinct by (auto simp: arena_inv_def)
  have set': "set ps' = set ps" using pi(2) dist by (auto simp: ps'_def)
  have card: "count g = card (bm_set (used g))" using P(4) pi(3) bm(2) by (simp add: g_def)
  have sub: "bm_set (used g) \<subseteq> {..<?n}" using P(3) bm(2) by (auto simp: g_def)
  have len: "length (used g) = 4" using bm(3) inv by (simp add: g_def bm_size_def arena_inv_def)
  have nf: "\<not> full h2 a p" using full_iff(2) [OF inv pi(2)] c1 by (simp add: full_def pg2 ar2 g_def) 
  have "sorted_wrt (\<lambda>p q. full h a p \<longrightarrow> full h a q) (remove1 p ps)"
    using inv dist by (simp add: arena_inv_def distinct_remove1_removeAll removeAll_filter_not_eq sorted_wrt_filter)
  then have "sorted_wrt (\<lambda>p q. full h2 a p \<longrightarrow> full h2 a q) (remove1 p ps)"
    by (rule sorted_wrt_mono_rel [rotated]) (use dist in \<open>auto simp: full_def pg2 ar2\<close>)
  then have ord: "sorted_wrt (\<lambda>p q. full h2 a p \<longrightarrow> full h2 a q) ps'" using nf by (simp add: ps'_def)
  have inv2: "arena_inv h2 a ps'"
    by (rule arena_inv_page [OF inv pi(2) pg2 _ len sub card _ _ _ _ l2 set' ord]) (use ar2 P(2) c1 cn in \<open>simp_all add: g_def\<close>)
  have "objs h2 a ps' = objs h a ps - {object}"
    using objs_page(2) [OF pg2 ar2(1) refl set' pi(2) inv i] bm(2) by (simp add: g_def pi(1))
  then show ?thesis using run inv2 set' ar2 cn nf S(1) by (intro exI [of _ h2] exI [of _ ps']) simp
qed

text \<open>A second release of the same object is caught.\<close>

lemma free_object_twice:
  assumes inv: "arena_inv h a ps" and lk: "free_lock (ar_lock (arenas h a))" and p: "p \<in> set ps" and i: "i < max_count (arenas h a)"
    and o: "object = p + 64 + i * object_size (arenas h a)" "object \<notin> objs h a ps"
  shows "panics (free_object me object h)"
proof -
  let ?s = "object_size (arenas h a)"
  have s: "0 < ?s" using inv by (simp add: arena_inv_def)
  note P = arena_page [OF inv p]
  note S = object_slot [OF P(1) arena_sizes(3) [OF inv i] s o(1)]
  have "i \<notin> bm_set (used (apages h p))" using objs_iff [OF inv p i] o by simp
  then have get: "bitmap_get (used (apages h p)) i = Inr False" using bitmap_get_Inr [OF used_range [OF inv i, of p]] by simp
  have A0: "object_size (arenas (upd_arena a (\<lambda>r. r\<lparr>ar_lock := l\<rparr>) h) a) = ?s" for l by simp
  have dm: "i * ?s mod ?s = 0" "i * ?s div ?s = i" using s by simp_all
  show ?thesis using lk unfolding free_object_def S(1) P(2) Let_def A0 S(2) dm by (simp add: acquire_free get)
qed

context page_allocator
begin

lemma clear_loop_ok:
  assumes "seg (anodes h) (map node_of (p # rs) @ [head])" "head \<notin> node_of ` set rs" "\<forall>q\<in>set (p # rs). page_addr q"
    "distinct (p # rs)" "ar_free (arenas h a) me = give" "ready (kern h)" "set (p # rs) \<inter> avail (kern h) = {}"
  shows "\<exists>k'. clear_loop me a head (node_of p) h = Some (Inr (h\<lparr>kern := k'\<rparr>)) \<and> ready k' \<and> avail k' = set (p # rs) \<union> avail (kern h)"
  using assms
proof (induction rs arbitrary: p h)
  case Nil
  obtain k' where k': "give p (kern h) = Inr k'" "ready k'" "avail k' = insert p (avail (kern h))"
    using give_ok [of "kern h" p] Nil by auto
  have "page_of (node_of p) = p" using page_arith(1,2) [of p] Nil by simp
  then show ?case using Nil k' by (intro exI [of _ k'], subst clear_loop.simps) (simp add: Let_def)
next
  case (Cons q rs)
  obtain k' where k': "give p (kern h) = Inr k'" "ready k'" "avail k' = insert p (avail (kern h))"
    using give_ok [of "kern h" p] Cons.prems by auto
  have pn: "page_of (node_of p) = p" using page_arith(1,2) [of p] Cons.prems by simp
  have "\<exists>k''. clear_loop me a head (node_of q) (h\<lparr>kern := k'\<rparr>) = Some (Inr (h\<lparr>kern := k', kern := k''\<rparr>)) \<and> ready k'' \<and>
      avail k'' = set (q # rs) \<union> avail (kern (h\<lparr>kern := k'\<rparr>))"
    by (rule Cons.IH) (use Cons.prems k' in auto)
  moreover have "nextp (anodes h) (node_of p) = node_of q" "node_of q \<noteq> head" using Cons.prems by auto
  ultimately show ?case using k' pn Cons.prems(5) by (subst clear_loop.simps) (auto simp: Let_def)
qed

lemma clear_arena_ok:
  assumes inv: "arena_inv h a ps" and lk: "free_lock (ar_lock (arenas h a))" and fr: "ar_free (arenas h a) me = give"
    and k: "ready (kern h)" "set ps \<inter> avail (kern h) = {}"
  shows "\<exists>h'. clear_arena me a h = Some (Inr h') \<and> arena_inv h' a [] \<and> objs h' a [] = {} \<and> ready (kern h') \<and>
    avail (kern h') = avail (kern h) \<union> set ps"
proof -
  define L where "L = (ar_lock (arenas h a))\<lparr>locked := True, lcpu := Some me\<rparr>"
  have acq: "acquire_spinlock me (ar_lock (arenas h a)) = Inr L" using lk by (simp add: acquire_free L_def)
  have rel: "release_spinlock me L = Inr (ar_lock (arenas h a))" by (rule acquire_release [OF lk acq])
  define h0 where "h0 = upd_arena a (\<lambda>r. r\<lparr>ar_lock := L\<rparr>) h"
  have I: "16 \<le> object_size (arenas h a)" "object_size (arenas h a) \<le> 4032" "max_count (arenas h a) = 4032 div object_size (arenas h a)"
    "linked h a ps" "\<forall>p. length (used (apages h p)) = 4" "num_objects (arenas h a) = (\<Sum>p\<leftarrow>ps. count (apages h p))" "num_pages (arenas h a) = length ps"
    using inv unfolding arena_inv_def by blast+
  have empty: "arena_inv h' a []" if "object_size (arenas h' a) = object_size (arenas h a)" "max_count (arenas h' a) = max_count (arenas h a)"
    "pages (arenas h' a) = 0" "num_objects (arenas h' a) = 0" "num_pages (arenas h' a) = 0" "apages h' = apages h" for h' :: "'a aheap"
    using I that by (simp add: arena_inv_def linked_def)
  show ?thesis
  proof (cases ps)
    case Nil
    then have "pages (arenas h a) = 0" using I(4) by (simp add: linked_def)
    then have "clear_arena me a h = Some (Inr (upd_arena a (\<lambda>r. r\<lparr>ar_lock := ar_lock (arenas h a)\<rparr>) h0))"
      by (simp add: clear_arena_def acq rel Let_def h0_def)
    moreover have "arena_inv (upd_arena a (\<lambda>r. r\<lparr>ar_lock := ar_lock (arenas h a)\<rparr>) h0) a []"
      by (rule empty) (use I Nil \<open>pages (arenas h a) = 0\<close> in \<open>simp_all add: h0_def\<close>)
    ultimately show ?thesis using k Nil by (auto simp: objs_def h0_def)
  next
    case (Cons p qs)
    have pg: "pages (arenas h0 a) = p" "p \<noteq> 0" and r: "ring (anodes h0) (node_of p # map node_of qs)" and all: "\<forall>q\<in>set (p # qs). page_addr q"
      using I(4) Cons by (simp_all add: linked_def h0_def page_addr_def)
    have sg: "seg (anodes h0) (map node_of (p # qs) @ [node_of p])" "node_of p \<notin> node_of ` set qs"
      using r by (simp_all add: ring_def)
    have "distinct (p # qs)" using linked_distinct [OF I(4)] Cons by simp
    from clear_loop_ok [OF sg all this, of a me] fr k Cons obtain k' where
      cl: "clear_loop me a (node_of p) (node_of p) h0 = Some (Inr (h0\<lparr>kern := k'\<rparr>))" "ready k'" "avail k' = set ps \<union> avail (kern h)"
      by (auto simp: h0_def)
    define h1 where "h1 = upd_arena a (\<lambda>r. r\<lparr>ar_lock := ar_lock (arenas h a)\<rparr>)
      (upd_arena a (\<lambda>r. r\<lparr>pages := 0, num_objects := 0, num_pages := 0\<rparr>) (h0\<lparr>kern := k'\<rparr>))"
    have la: "ar_lock (arenas h0 a) = L" by (simp add: h0_def)
    have "clear_arena me a h = Some (Inr h1)"
      unfolding clear_arena_def acq Let_def sum.case h0_def [symmetric] pg(1) using pg(2) cl(1) rel la by (simp add: h1_def)
    moreover have "arena_inv h1 a []" by (rule empty) (simp_all add: h1_def h0_def)
    moreover have "kern h1 = k'" by (simp add: h1_def)
    ultimately show ?thesis using cl by (auto simp: objs_def)
  qed
qed

end

end
