(* ===== verification/Memory.thy ===== *)
theory Memory
  imports ArenaSpec
begin

text \<open>
  The properties of the kernel's memory allocators: the page allocator of \<open>core/physical_memory.c\<close> and the
  arenas of \<open>core/arena.c\<close> on top of it, through the interface \<open>page_allocator\<close> interpreted on \<open>kalloc\<close> and
  \<open>kfree\<close>.
\<close>

text \<open>A small instance: one free page, one arena of 1000-byte objects without pages.\<close>

definition sample_mm :: MemmoryManagerTable where
  "sample_mm = \<lparr>memmory_manager = \<lparr>fl_next = 8192, fl_mem = (\<lambda>_. 0)\<rparr>, page_init = init_freelist, page_alloc = freelist_alloc,
     page_free = freelist_free, mmt_lock = \<lparr>locked = False, lcpu = None, lname = ''memory''\<rparr>\<rparr>"

definition sample_heap :: "MemmoryManagerTable aheap" where
  "sample_heap = \<lparr>arenas = (\<lambda>_. \<lparr>ar_lock = \<lparr>locked = False, lcpu = None, lname = ''arena''\<rparr>, allocate = kalloc, ar_free = kfree,
      object_size = 1000, max_count = 4, pages = 0, num_objects = 0, num_pages = 0\<rparr>),
     apages = (\<lambda>_. \<lparr>pg_arena = 0, used = replicate 4 0, count = 0\<rparr>), anodes = \<lparr>prevp = (\<lambda>_. 0), nextp = (\<lambda>_. 0)\<rparr>, kern = sample_mm\<rparr>"

lemma sample_mm: "mm_ready sample_mm" "mm_avail sample_mm = {8192}"
proof -
  have f: "free_pages (memmory_manager sample_mm) [8192]" by (simp add: free_pages_def sample_mm_def)
  then show "mm_avail sample_mm = {8192}" using mm_avail_eq [OF f] by simp
  show "mm_ready sample_mm" using f unfolding mm_ready_def by (intro conjI exI [of _ "[8192]"]) (simp_all add: sample_mm_def page_addr_def)
qed

lemma sample_arena: "arena_inv sample_heap 64 []" "free_lock (ar_lock (arenas sample_heap 64))" "kern sample_heap = sample_mm"
  "allocate (arenas sample_heap 64) = kalloc" "ar_free (arenas sample_heap 64) = kfree"
  by (simp_all add: arena_inv_def linked_def sample_heap_def)

text \<open>C19: after boot exactly the whole pages between the end of the kernel image and the top of memory are free;
  the initialisation loop ends.\<close>

theorem boot_free_pages:
  assumes "0 < kend" "kend \<le> P2K 1056964608" "fl_next freelist = 0"
  shows "\<exists>m'. init_memory_manager kend freelist m = Some m' \<and> mm_ready m' \<and>
    mm_avail m' = {p. p mod PAGE_SIZE = 0 \<and> kend \<le> p \<and> p + PAGE_SIZE \<le> P2K 1056964608}"
proof -
  define lo where "lo = ((kend + 4095) div 4096) * 4096"
  define hi where "hi = P2K 1056964608"
  have lo: "kend \<le> lo" "lo < kend + 4096" "lo mod 4096 = 0"
  proof -
    have "kend + 4095 = lo + (kend + 4095) mod 4096" by (simp add: lo_def)
    moreover have "(kend + 4095) mod 4096 < 4096" by simp
    ultimately show "kend \<le> lo" "lo < kend + 4096" by linarith+
  qed (simp add: lo_def)
  have "boot_pages kend = rev (map (\<lambda>i. lo + 4096 * i) [0..<(hi - lo) div 4096])"
    by (simp add: boot_pages_def lo_def hi_def Let_def add.commute)
  then have b: "set (boot_pages kend) = (\<lambda>i. lo + 4096 * i) ` {0..<(hi - lo) div 4096}" by simp
  have "p \<in> set (boot_pages kend) \<longleftrightarrow> p mod 4096 = 0 \<and> kend \<le> p \<and> p + 4096 \<le> hi" for p
  proof
    assume "p \<in> set (boot_pages kend)"
    then obtain i where i: "p = lo + 4096 * i" "i < (hi - lo) div 4096" using b by auto
    then have "Suc i * 4096 \<le> (hi - lo) div 4096 * 4096" by (intro mult_le_mono1) simp
    also have "\<dots> \<le> hi - lo" by simp
    finally show "p mod 4096 = 0 \<and> kend \<le> p \<and> p + 4096 \<le> hi" using i(1) lo by simp
  next
    assume p: "p mod 4096 = 0 \<and> kend \<le> p \<and> p + 4096 \<le> hi"
    obtain k j where kj: "p = 4096 * k" "lo = 4096 * j" using p lo(3) by (auto elim!: dvdE dest!: mod_0_imp_dvd)
    then have "j \<le> k" using p lo by linarith
    then obtain n where "k = j + n" using le_Suc_ex by blast
    then have n: "p = lo + 4096 * n" using kj by simp
    then have "n * 4096 + 4096 \<le> hi - lo" using p by linarith
    then have "n < (hi - lo) div 4096" by (simp add: less_eq_div_iff_mult_less_eq Suc_le_eq [symmetric])
    then show "p \<in> set (boot_pages kend)" using n unfolding b by auto
  qed
  then have eq: "set (boot_pages kend) = {p. p mod 4096 = 0 \<and> kend \<le> p \<and> p + 4096 \<le> hi}" by (intro set_eqI) simp
  obtain m' where "init_memory_manager kend freelist m = Some m'" "mm_ready m'" "mm_avail m' = set (boot_pages kend)"
    using init_memory_manager_ok [OF assms, of m] by blast
  then show ?thesis using eq by (intro exI [of _ m'] conjI) (simp_all only: hi_def)
qed

theorem boot_free_pages_witness:
  "\<exists>m'. init_memory_manager (P2K 524288) \<lparr>fl_next = 0, fl_mem = (\<lambda>_. 0)\<rparr> sample_mm = Some m' \<and> P2K 528384 \<in> mm_avail m'"
  using boot_free_pages [of "P2K 524288" "\<lparr>fl_next = 0, fl_mem = (\<lambda>_. 0)\<rparr>" sample_mm] by (auto simp: P2K_def addw_def)

text \<open>C18: \<open>kalloc\<close> hands out a free page and takes it off the list, or returns 0 when none is left; \<open>kfree\<close> puts a
  page back, and whatever the owner of a page writes into it does not disturb the list.\<close>

theorem page_allocator_correct:
  assumes "mm_ready m" "page_addr q" "q \<notin> mm_avail m"
  shows "(\<exists>p m'. kalloc me m = Inr (p, m') \<and> mm_ready m' \<and> mm_avail m' = mm_avail m - {p} \<and>
      (p = 0 \<and> mm_avail m = {} \<or> p \<in> mm_avail m \<and> page_addr p)) \<and>
    (\<exists>m'. kfree me q m = Inr m' \<and> mm_ready m' \<and> mm_avail m' = insert q (mm_avail m)) \<and>
    (let m' = m\<lparr>memmory_manager := (memmory_manager m)\<lparr>fl_mem := (fl_mem (memmory_manager m))(q := w)\<rparr>\<rparr> in
      mm_ready m' \<and> mm_avail m' = mm_avail m)"
proof -
  obtain ps where ps: "free_pages (memmory_manager m) ps" "\<forall>p\<in>set ps. page_addr p" using assms(1) by (auto simp: mm_ready_def)
  have q: "q \<notin> set ps" using assms(3) mm_avail_eq [OF ps(1)] by simp
  let ?m = "m\<lparr>memmory_manager := (memmory_manager m)\<lparr>fl_mem := (fl_mem (memmory_manager m))(q := w)\<rparr>\<rparr>"
  have f: "free_pages (memmory_manager ?m) ps" using free_pages_write [OF ps(1) q, of w] by simp
  then have "mm_avail ?m = mm_avail m" using mm_avail_eq [OF ps(1)] mm_avail_eq [OF f] by simp
  moreover have "mm_ready ?m" using assms(1) f ps(2) unfolding mm_ready_def by (intro conjI exI [of _ ps]) auto
  ultimately show ?thesis
    using km.alloc_ok [OF assms(1), of me] km.give_ok [OF assms, of me] km.avail_page [OF assms(1)] by (simp add: Let_def) blast
qed

theorem page_allocator_correct_witness:
  "(\<exists>m'. kalloc 0 sample_mm = Inr (8192, m') \<and> mm_avail m' = {}) \<and> (\<exists>m'. kfree 0 4096 sample_mm = Inr m' \<and> mm_avail m' = {4096, 8192})"
proof -
  have "page_addr 4096" "4096 \<notin> mm_avail sample_mm" using sample_mm(2) by (simp_all add: page_addr_def)
  note P = page_allocator_correct [OF sample_mm(1) this, of 0 0, unfolded sample_mm(2)]
  then obtain p m' where "kalloc 0 sample_mm = Inr (p, m')" "mm_avail m' = {8192} - {p}" "p \<in> {8192}" by blast
  then show ?thesis using P by auto
qed

text \<open>C15: \<open>alloc_object\<close> on an arena over \<open>kalloc\<close> returns a new object: aligned in a page of the arena, overlapping no
  live object; the counters follow, and a new page is taken only when every page is full.\<close>

theorem arena_alloc_correct:
  assumes "arena_inv h a ps" "free_lock (ar_lock (arenas h a))" "allocate (arenas h a) = kalloc" "mm_ready (kern h)"
    "set ps \<inter> mm_avail (kern h) = {}" "mm_avail (kern h) \<noteq> {} \<or> (\<exists>p\<in>set ps. \<not> full h a p)"
  shows "\<exists>object h' ps'. alloc_object me a h = Inr (object, h') \<and> arena_inv h' a ps' \<and>
    objs h' a ps' = insert object (objs h a ps) \<and>
    (\<forall>x\<in>objs h a ps. x + object_size (arenas h a) \<le> object \<or> object + object_size (arenas h a) \<le> x) \<and>
    num_objects (arenas h' a) = Suc (num_objects (arenas h a)) \<and> ((\<exists>p\<in>set ps. \<not> full h a p) \<longrightarrow> set ps' = set ps) \<and>
    free_lock (ar_lock (arenas h' a)) \<and> mm_ready (kern h') \<and> set ps' \<inter> mm_avail (kern h') = {}"
proof -
  obtain object h' ps' where r: "alloc_object me a h = Inr (object, h')" "arena_inv h' a ps'" "object \<notin> objs h a ps"
    "objs h' a ps' = insert object (objs h a ps)" "free_lock (ar_lock (arenas h' a))" "mm_ready (kern h')" "set ps' \<inter> mm_avail (kern h') = {}"
    "num_objects (arenas h' a) = Suc (num_objects (arenas h a))" "(\<exists>p\<in>set ps. \<not> full h a p) \<longrightarrow> set ps' = set ps"
    "object_size (arenas h' a) = object_size (arenas h a)"
    using km.alloc_object_ok [OF assms(1,2) fun_cong [OF assms(3)] assms(4-6), of me] by blast
  have "x + object_size (arenas h a) \<le> object \<or> object + object_size (arenas h a) \<le> x" if "x \<in> objs h a ps" for x
  proof -
    have "x \<in> objs h' a ps'" "object \<in> objs h' a ps'" "x \<noteq> object" using that r(3,4) by auto
    from objs_disjoint [OF r(2) this] show ?thesis using r(10) by simp
  qed
  then show ?thesis using r by (intro exI [of _ object] exI [of _ h'] exI [of _ ps']) blast
qed

theorem arena_alloc_correct_witness:
  "\<exists>object h'. alloc_object 0 64 sample_heap = Inr (object, h') \<and> num_objects (arenas h' 64) = 1"
  using arena_alloc_correct [OF sample_arena(1,2,4), of 0] sample_mm sample_arena(3) by (auto simp: sample_heap_def)

text \<open>C16: \<open>free_object\<close> of a live object removes exactly it and leaves its page first in line for the next allocation;
  freeing the address of a free slot panics.\<close>

theorem arena_free_correct:
  assumes "arena_inv h a ps" "free_lock (ar_lock (arenas h a))"
    "p \<in> set ps" "i < max_count (arenas h a)" "object = p + ARENA_HEADER_SIZE + i * object_size (arenas h a)"
  shows "if object \<in> objs h a ps
    then \<exists>h' ps'. free_object me object h = Inr h' \<and> arena_inv h' a ps' \<and> set ps' = set ps \<and> objs h' a ps' = objs h a ps - {object} \<and>
      Suc (num_objects (arenas h' a)) = num_objects (arenas h a) \<and> \<not> full h' a p \<and> free_lock (ar_lock (arenas h' a))
    else panics (free_object me object h)"
proof (cases "object \<in> objs h a ps")
  case True
  have s: "0 < object_size (arenas h a)" using assms(1) by (simp add: arena_inv_def)
  have "get_container_page object = p"
    using object_slot(1) [OF arena_page(1) [OF assms(1,3)] arena_sizes(3) [OF assms(1,4)] s assms(5)] .
  then show ?thesis using True free_object_ok [OF assms(1,2) True, of me] assms(2) by auto
next
  case False
  then show ?thesis using free_object_twice [OF assms(1-4) assms(5)] by simp
qed

theorem arena_free_correct_witness:
  "\<exists>object h h'. alloc_object 0 64 sample_heap = Inr (object, h) \<and> free_object 0 object h = Inr h' \<and> num_objects (arenas h' 64) = 0"
proof -
  have k: "mm_ready (kern sample_heap)" "set [] \<inter> mm_avail (kern sample_heap) = {}" "mm_avail (kern sample_heap) \<noteq> {} \<or> (\<exists>p\<in>set []. \<not> full sample_heap 64 p)"
    using sample_mm sample_arena(3) by simp_all
  obtain object h ps where a: "alloc_object 0 64 sample_heap = Inr (object, h)" "arena_inv h 64 ps" "objs h 64 ps = insert object (objs sample_heap 64 [])"
    "free_lock (ar_lock (arenas h 64))" "num_objects (arenas h 64) = Suc (num_objects (arenas sample_heap 64))"
    using km.alloc_object_ok [OF sample_arena(1,2) fun_cong [OF sample_arena(4)] k] by blast
  then have "object \<in> objs h 64 ps" by simp
  then obtain p i where p: "object = p + 64 + i * object_size (arenas h 64)" "p \<in> set ps" "i \<in> bm_set (used (apages h p))"
    unfolding objs_def by blast
  have i: "i < max_count (arenas h 64)" using arena_page(3) [OF a(2) p(2)] p(3) by auto
  show ?thesis using arena_free_correct [OF a(2,4) p(2) i p(1), of 0] a by (auto simp: sample_heap_def)
qed

text \<open>C17: \<open>clear_arena\<close> ends, empties the arena and gives every page back to the page allocator.\<close>

theorem clear_arena_correct:
  assumes "arena_inv h a ps" "free_lock (ar_lock (arenas h a))" "ar_free (arenas h a) = kfree" "mm_ready (kern h)" "set ps \<inter> mm_avail (kern h) = {}"
  shows "\<exists>h'. clear_arena me a h = Some (Inr h') \<and> arena_inv h' a [] \<and> objs h' a [] = {} \<and> mm_ready (kern h') \<and>
    mm_avail (kern h') = mm_avail (kern h) \<union> set ps"
  using km.clear_arena_ok [OF assms(1,2) _ assms(4,5), of me] assms(3) by auto

theorem clear_arena_correct_witness: "\<exists>h'. clear_arena 0 64 sample_heap = Some (Inr h') \<and> mm_avail (kern h') = {8192}"
  using clear_arena_correct [OF sample_arena(1,2,5), of 0] sample_mm sample_arena(3) by auto

end
