(* ===== verification/Console.thy ===== *)
theory Console
  imports Inode Format
begin

text \<open>
  \<open>core/console.c\<close> and the output path of \<open>driver/uart.c\<close>.  Kernel messages go to the device under
  \<open>con_lock\<close>; the terminal keeps a ring buffer of 128 characters with the three 64-bit indices \<open>r\<close>, \<open>w\<close> and
  \<open>e\<close> of the source, which are allowed to wrap.  \<open>con_out\<close> is the sequence of bytes sent to the UART and
  \<open>con_wakeups\<close> counts \<open>wakeup(&input.r)\<close>.  \<open>char\<close> is unsigned, as on AArch64.
\<close>

abbreviation (input) INPUT_BUF :: nat where "INPUT_BUF \<equiv> 128"
abbreviation (input) CTRL_D :: u8 where "CTRL_D \<equiv> 4"
abbreviation (input) CTRL_H :: u8 where "CTRL_H \<equiv> 8"
abbreviation (input) CTRL_P :: u8 where "CTRL_P \<equiv> 16"
abbreviation (input) CTRL_U :: u8 where "CTRL_U \<equiv> 21"
abbreviation (input) DEL :: u8 where "DEL \<equiv> 127"
abbreviation (input) NEWLINE :: u8 where "NEWLINE \<equiv> 10"
abbreviation (input) CR :: u8 where "CR \<equiv> 13"

record Input =
  ibuf :: bytes
  ir :: u64
  iw :: u64
  ie :: u64

record console =
  con_lock :: SpinLock
  panicked_flag :: bool
  conslock :: SpinLock
  con_out :: bytes
  input :: Input
  con_wakeups :: nat

text \<open>\<open>uart_put_char\<close>, without the wait for the transmitter.\<close>

definition uart_put_char :: "u8 \<Rightarrow> bytes \<Rightarrow> bytes" where
  "uart_put_char c out = (if c = NEWLINE then out @ [c, CR] else out @ [c])"

definition init_console :: "console \<Rightarrow> console" where
  "init_console s = s\<lparr>con_lock := init_spinlock (con_lock s) ''console'', conslock := init_spinlock (conslock s) ''conslock''\<rparr>"

section \<open>Kernel messages\<close>

text \<open>\<open>no_return\<close> stops the CPU for good.\<close>

definition no_return :: "'a res" where "no_return = Inl (Blocked ''no_return'')"

definition check_panicked :: "nat \<Rightarrow> console \<Rightarrow> console res" where
  "check_panicked me s =
     (if panicked_flag s then bnd (release_spinlock me (con_lock s)) (\<lambda>_. no_return) else Inr s)"

definition put_all :: "bytes \<Rightarrow> console \<Rightarrow> console" where
  "put_all cs s = s\<lparr>con_out := fold uart_put_char cs (con_out s)\<rparr>"

definition str_bytes :: "string \<Rightarrow> bytes" where
  "str_bytes str = map (\<lambda>c. word_of_nat (of_char c)) str"

definition puts :: "nat \<Rightarrow> bytes \<Rightarrow> console \<Rightarrow> console res" where
  "puts me str s =
     bnd (acquire_spinlock me (con_lock s)) (\<lambda>l.
     bnd (check_panicked me (s\<lparr>con_lock := l\<rparr>)) (\<lambda>s.
     let s = put_all (takeWhile (\<lambda>c. c \<noteq> 0) str) s;
         s = put_all [NEWLINE] s in
     bnd (release_spinlock me (con_lock s)) (\<lambda>l. Inr (s\<lparr>con_lock := l\<rparr>))))"

definition vprintf :: "nat \<Rightarrow> string \<Rightarrow> farg list \<Rightarrow> console \<Rightarrow> console res" where
  "vprintf me fmt arg s =
     bnd (acquire_spinlock me (con_lock s)) (\<lambda>l.
     bnd (check_panicked me (s\<lparr>con_lock := l\<rparr>)) (\<lambda>s.
     bnd (vformat fmt arg) (\<lambda>str.
     let s = put_all (str_bytes str) s in
     bnd (release_spinlock me (con_lock s)) (\<lambda>l. Inr (s\<lparr>con_lock := l\<rparr>)))))"

definition printf :: "nat \<Rightarrow> string \<Rightarrow> farg list \<Rightarrow> console \<Rightarrow> console res" where
  "printf me fmt arg s = vprintf me fmt arg s"

text \<open>\<open>_panic\<close>: the state in which the CPU stops.\<close>

definition panic_at :: "nat \<Rightarrow> string \<Rightarrow> u64 \<Rightarrow> string \<Rightarrow> farg list \<Rightarrow> console \<Rightarrow> console res" where
  "panic_at me file line fmt arg s =
     bnd (acquire_spinlock me (con_lock s)) (\<lambda>l.
     bnd (check_panicked me (s\<lparr>con_lock := l\<rparr>)) (\<lambda>s.
     let s = s\<lparr>panicked_flag := True\<rparr>;
         s = put_all (replicate 32 61) s;
         s = put_all [NEWLINE] s in
     bnd (vformat (''KERNEL PANIC at CPU %zu:'' @ [CHR 0x0A]) [FInt (of_nat me)]) (\<lambda>str.
     let s = put_all (str_bytes str) s in
     bnd (vformat (''file: %s'' @ [CHR 0x0A]) [FStr (Some file)]) (\<lambda>str.
     let s = put_all (str_bytes str) s in
     bnd (vformat (''line: %zu'' @ [CHR 0x0A]) [FInt line]) (\<lambda>str.
     let s = put_all (str_bytes str) s in
     bnd (vformat fmt arg) (\<lambda>str.
     let s = put_all (str_bytes str) s;
         s = put_all [NEWLINE] s in
     bnd (release_spinlock me (con_lock s)) (\<lambda>l. Inr (s\<lparr>con_lock := l\<rparr>))))))))"

section \<open>The terminal\<close>

text \<open>\<open>None\<close> is \<open>BACKSPACE\<close>.\<close>

definition consputc :: "u8 option \<Rightarrow> console \<Rightarrow> console" where
  "consputc c s = (case c of None \<Rightarrow> put_all [8, 32, 8] s | Some c \<Rightarrow> put_all [c] s)"

definition buf_at :: "Input \<Rightarrow> u64 \<Rightarrow> u8" where
  "buf_at i k = ibuf i ! unat (k mod 128)"

definition upd_input :: "(Input \<Rightarrow> Input) \<Rightarrow> console \<Rightarrow> console" where
  "upd_input f s = s\<lparr>input := f (input s)\<rparr>"

definition console_write :: "'c BlockCache \<Rightarrow> nat \<Rightarrow> nat \<Rightarrow> bytes \<Rightarrow> console \<Rightarrow> 'c itree \<Rightarrow> (nat \<times> console \<times> 'c itree) res" where
  "console_write cache me ip buf s st =
     bnd (inode_unlock me ip st) (\<lambda>st.
     bnd (acquire_spinlock me (conslock s)) (\<lambda>l.
     let s = fold (\<lambda>c. consputc (Some c)) buf (s\<lparr>conslock := l\<rparr>) in
     bnd (release_spinlock me (conslock s)) (\<lambda>l.
     let s = s\<lparr>conslock := l\<rparr> in
     bnd (inode_lock cache me ip st) (\<lambda>st. Inr (length buf, s, st)))))"

text \<open>The loop of \<open>console_read\<close>: \<open>n\<close> characters still wanted of \<open>target\<close>, \<open>dst\<close> stored so far.  It stops at the end of
  the request or the line, finds the process killed, or must sleep; asleep, the same arguments resume it.\<close>

datatype read_stop = RDone | RKilled | RSleep

fun cread_loop :: "bool \<Rightarrow> nat \<Rightarrow> nat \<Rightarrow> bytes \<Rightarrow> Input \<Rightarrow> read_stop \<times> nat \<times> bytes \<times> Input" where
  "cread_loop killed target 0 dst i = (RDone, 0, dst, i)"
| "cread_loop killed target (Suc n) dst i =
     (if ir i = iw i then (if killed then RKilled else RSleep, Suc n, dst, i)
      else let c = buf_at i (ir i); i = i\<lparr>ir := ir i + 1\<rparr> in
        if c = CTRL_D then (RDone, Suc n, dst, if Suc n < target then i\<lparr>ir := ir i - 1\<rparr> else i)
        else if c = NEWLINE then (RDone, n, dst @ [c], i)
        else cread_loop killed target n (dst @ [c]) i)"

definition console_read :: "'c BlockCache \<Rightarrow> nat \<Rightarrow> bool \<Rightarrow> nat \<Rightarrow> nat \<Rightarrow> console \<Rightarrow> 'c itree \<Rightarrow> (bytes \<times> int \<times> console \<times> 'c itree) res" where
  "console_read cache me killed ip n s st =
     bnd (inode_unlock me ip st) (\<lambda>st.
     bnd (acquire_spinlock me (conslock s)) (\<lambda>l.
     case cread_loop killed n n [] (input s) of (r, left, dst, i) \<Rightarrow>
     if r = RSleep then Inl (Blocked ''input.r'')
     else
       let s = s\<lparr>conslock := l, input := i\<rparr> in
       bnd (release_spinlock me (conslock s)) (\<lambda>l.
       let s = s\<lparr>conslock := l\<rparr> in
       bnd (inode_lock cache me ip st) (\<lambda>st.
       Inr (dst, if r = RKilled then -1 else int n - int left, s, st)))))"

text \<open>\<open>^U\<close>: erase back to the last newline.  The loop runs at most \<open>e - w\<close> times.\<close>

function kill_loop :: "console \<Rightarrow> console" where
  "kill_loop s =
     (let i = input s in
      if ie i \<noteq> iw i \<and> buf_at i (ie i - 1) \<noteq> NEWLINE
      then kill_loop (consputc None (upd_input (\<lambda>i. i\<lparr>ie := ie i - 1\<rparr>) s))
      else s)"
  by pat_completeness auto
termination
proof (relation "measure (\<lambda>s. unat (ie (input s) - iw (input s)))")
  fix s :: console and i
  assume i: "i = input s" and n: "ie i \<noteq> iw i \<and> buf_at i (ie i - 1) \<noteq> 10"
  let ?s = "consputc None (upd_input (\<lambda>i. i\<lparr>ie := ie i - 1\<rparr>) s)"
  have "ie (input ?s) - iw (input ?s) = (ie i - iw i) - 1"
    by (simp add: consputc_def put_all_def upd_input_def i)
  moreover have "ie i - iw i \<noteq> 0" using n by simp
  ultimately show "(?s, s) \<in> measure (\<lambda>s. unat (ie (input s) - iw (input s)))"
    using i by (simp add: measure_unat)
qed simp

declare kill_loop.simps [simp del]

definition console_char :: "u8 \<Rightarrow> console \<Rightarrow> console" where
  "console_char c s =
     (if c = CTRL_P then s
      else if c = CTRL_U then kill_loop s
      else if c = CTRL_H \<or> c = DEL then
        if ie (input s) \<noteq> iw (input s) then consputc None (upd_input (\<lambda>i. i\<lparr>ie := ie i - 1\<rparr>) s) else s
      else if c \<noteq> 0 \<and> ie (input s) - ir (input s) < 128 then
        let c = (if c = CR then NEWLINE else c);
            s = upd_input (\<lambda>i. i\<lparr>ibuf := (ibuf i)[unat (ie i mod 128) := c], ie := ie i + 1\<rparr>) s;
            s = consputc (Some c) s in
        if c = NEWLINE \<or> c = CTRL_D \<or> ie (input s) = ir (input s) + 128
        then (upd_input (\<lambda>i. i\<lparr>iw := ie i\<rparr>) s)\<lparr>con_wakeups := Suc (con_wakeups s)\<rparr>
        else s
      else s)"

text \<open>\<open>getc\<close> delivers the characters \<open>cs\<close> and then 0xff.  The static \<open>panicked\<close> of this file is never set, so its
  branch is not taken.\<close>

definition console_intr :: "nat \<Rightarrow> bytes \<Rightarrow> console \<Rightarrow> console res" where
  "console_intr me cs s =
     bnd (acquire_spinlock me (conslock s)) (\<lambda>l.
     let s = fold console_char (takeWhile (\<lambda>c. c \<noteq> 255) cs) (s\<lparr>conslock := l\<rparr>) in
     bnd (release_spinlock me (conslock s)) (\<lambda>l. Inr (s\<lparr>conslock := l\<rparr>)))"

end
