(* ===== verification/ConsoleSpec.thy ===== *)
theory ConsoleSpec
  imports Console
begin

text \<open>
  The terminal as two strings: the lines ready to be read and the line being edited.  The ring buffer of
  \<open>Console\<close> refines the operations on them, wrapping indices included.
\<close>

definition window :: "Input \<Rightarrow> bytes" where
  "window i = map (\<lambda>k. buf_at i (ir i + of_nat k)) [0..<unat (ie i - ir i)]"

definition ready_line :: "Input \<Rightarrow> bytes" where
  "ready_line i = take (unat (iw i - ir i)) (window i)"

definition edit_line :: "Input \<Rightarrow> bytes" where
  "edit_line i = drop (unat (iw i - ir i)) (window i)"

definition input_inv :: "Input \<Rightarrow> bool" where
  "input_inv i \<longleftrightarrow> length (ibuf i) = INPUT_BUF \<and> unat (iw i - ir i) \<le> unat (ie i - ir i) \<and> unat (ie i - ir i) \<le> INPUT_BUF \<and>
     NEWLINE \<notin> set (edit_line i)"

text \<open>What a typed character does to the two strings.\<close>

definition tty_char :: "u8 \<Rightarrow> bytes \<times> bytes \<Rightarrow> bytes \<times> bytes" where
  "tty_char c t = (case t of (q, ed) \<Rightarrow>
     if c = CTRL_P then (q, ed)
     else if c = CTRL_U then (q, [])
     else if c = CTRL_H \<or> c = DEL then (q, butlast ed)
     else if c \<noteq> 0 \<and> length q + length ed < INPUT_BUF then
       let c = (if c = CR then NEWLINE else c) in
       if c = NEWLINE \<or> c = CTRL_D \<or> Suc (length q + length ed) = INPUT_BUF then (q @ ed @ [c], []) else (q, ed @ [c])
     else (q, ed))"

text \<open>And a read of up to \<open>n\<close> characters.\<close>

fun tty_read :: "bool \<Rightarrow> nat \<Rightarrow> nat \<Rightarrow> bytes \<Rightarrow> bytes \<Rightarrow> read_stop \<times> nat \<times> bytes \<times> bytes" where
  "tty_read killed target 0 dst q = (RDone, 0, dst, q)"
| "tty_read killed target (Suc n) dst [] = (if killed then RKilled else RSleep, Suc n, dst, [])"
| "tty_read killed target (Suc n) dst (c # q) =
     (if c = CTRL_D then (RDone, Suc n, dst, if Suc n < target then c # q else q)
      else if c = NEWLINE then (RDone, n, dst @ [c], q)
      else tty_read killed target n (dst @ [c]) q)"

section \<open>Indices\<close>

lemma index_mod: "unat ((r + of_nat k) mod 128 :: u64) = (unat r + k) mod 128"
proof -
  have "unat ((r + of_nat k) mod 128 :: u64) = unat (r + of_nat k) mod 128" by (simp add: unat_mod)
  also have "unat (r + of_nat k) = (unat r + k) mod 2 ^ 64"
    by (simp add: unat_word_ariths unat_of_nat take_bit_eq_mod mod_add_right_eq)
  also have "(unat r + k) mod 2 ^ 64 mod 128 = (unat r + k) mod 128" by (rule mod_mod_cancel) simp
  finally show ?thesis .
qed

lemma buf_at_nth: "buf_at i (r + of_nat k) = ibuf i ! ((unat r + k) mod 128)"
  by (simp add: buf_at_def index_mod)

lemma window_eq: "window i = map (\<lambda>k. ibuf i ! ((unat (ir i) + k) mod 128)) [0..<unat (ie i - ir i)]"
  by (simp add: window_def buf_at_nth)

lemma length_window [simp]: "length (window i) = unat (ie i - ir i)"
  by (simp add: window_def)

lemma lines: "ready_line i @ edit_line i = window i"
  by (simp add: ready_line_def edit_line_def)

lemma line_lengths:
  assumes "input_inv i"
  shows "length (ready_line i) = unat (iw i - ir i)" "length (edit_line i) = unat (ie i - ir i) - unat (iw i - ir i)"
    "length (ready_line i) + length (edit_line i) = unat (ie i - ir i)"
  using assms by (simp_all add: ready_line_def edit_line_def input_inv_def)

lemma edit_length: "input_inv i \<Longrightarrow> unat (ie i - iw i) = length (edit_line i)"
proof -
  assume inv: "input_inv i"
  have le: "iw i - ir i \<le> ie i - ir i" using inv by (simp add: input_inv_def word_le_nat_alt)
  have "ie i - iw i = (ie i - ir i) - (iw i - ir i)" by simp
  then have "unat (ie i - iw i) = unat (ie i - ir i) - unat (iw i - ir i)" using unat_sub [OF le] by simp
  then show ?thesis using line_lengths(2) [OF inv] by simp
qed

lemma edit_empty: "input_inv i \<Longrightarrow> ie i = iw i \<longleftrightarrow> edit_line i = []"
  using edit_length [of i] by (metis eq_iff_diff_eq_0 length_0_conv unat_eq_0)

lemma ready_empty: "input_inv i \<Longrightarrow> ir i = iw i \<longleftrightarrow> ready_line i = []"
  using line_lengths(1) [of i] by (metis eq_iff_diff_eq_0 length_0_conv unat_eq_0)

lemma unat_step: "unat (x :: u64) < 128 \<Longrightarrow> unat (x + 1) = Suc (unat x)"
  using unat_add_lem [of x 1] by simp

lemma unat_back: "x \<noteq> 0 \<Longrightarrow> unat (x - 1 :: u64) = unat x - 1"
  by (simp add: unat_minus_one)

lemma end_index: "ie i = ir i + of_nat (unat (ie i - ir i))"
  by simp

section \<open>The four moves of the indices\<close>

lemma move_back:
  assumes inv: "input_inv i" and ne: "edit_line i \<noteq> []"
  shows "ready_line (i\<lparr>ie := ie i - 1\<rparr>) = ready_line i" "edit_line (i\<lparr>ie := ie i - 1\<rparr>) = butlast (edit_line i)"
    "input_inv (i\<lparr>ie := ie i - 1\<rparr>)"
proof -
  let ?i = "i\<lparr>ie := ie i - 1\<rparr>" and ?m = "unat (ie i - ir i)" and ?n = "unat (iw i - ir i)"
  have lt: "?n < ?m" using ne line_lengths(2) [OF inv] by (metis length_greater_0_conv zero_less_diff)
  then have nz: "ie i - ir i \<noteq> 0" by auto
  have eq: "ie i - 1 - ir i = (ie i - ir i) - 1" by simp
  have m: "unat (ie i - 1 - ir i) = ?m - 1" unfolding eq by (rule unat_back [OF nz])
  have "[0..<?m] = [0..<?m - 1] @ [?m - 1]" using lt by (metis Suc_diff_1 gr_implies_not0 not_gr0 upt_Suc_append zero_le)
  then have w: "window ?i = butlast (window i)" by (simp add: window_eq m)
  show r: "ready_line ?i = ready_line i" using lt by (simp add: ready_line_def w take_butlast)
  show e: "edit_line ?i = butlast (edit_line i)" by (simp add: edit_line_def w drop_butlast)
  show "input_inv ?i" using inv lt m e by (auto simp: input_inv_def dest: in_set_butlastD)
qed

lemma window_put:
  assumes inv: "input_inv i" and m: "unat (ie i - ir i) < 128"
    and i': "i' = i\<lparr>ibuf := (ibuf i)[unat (ie i mod 128) := c], ie := ie i + 1\<rparr>"
  shows "window i' = window i @ [c]" "unat (ie i' - ir i') = Suc (unat (ie i - ir i))" "length (ibuf i') = 128"
    "iw i' = iw i" "ir i' = ir i"
proof -
  let ?m = "unat (ie i - ir i)" and ?r = "unat (ir i)"
  have l: "length (ibuf i) = 128" using inv by (simp add: input_inv_def)
  then show "length (ibuf i') = 128" by (simp add: i')
  show "iw i' = iw i" "ir i' = ir i" by (simp_all add: i')
  have eq: "ie i + 1 - ir i = (ie i - ir i) + 1" by simp
  show m': "unat (ie i' - ir i') = Suc ?m" using unat_step [OF m] by (simp add: i' eq)
  have at: "unat (ie i mod 128) = (?r + ?m) mod 128" using index_mod [of "ir i" ?m] end_index [of i] by simp
  have other: "(?r + k) mod 128 \<noteq> (?r + ?m) mod 128" if "k < ?m" for k
  proof
    assume "(?r + k) mod 128 = (?r + ?m) mod 128"
    then have "128 dvd (?r + ?m) - (?r + k)" using that by (intro mod_eq_dvd_iff_nat [THEN iffD1]) simp_all
    then show False using that m nat_dvd_not_less [of "?m - k" 128] by simp
  qed
  have "window i' = map (\<lambda>k. (ibuf i)[(?r + ?m) mod 128 := c] ! ((?r + k) mod 128)) [0..<Suc ?m]"
    using m' by (simp add: window_eq i' at)
  also have "\<dots> = window i @ [c]" using l other [THEN not_sym] by (auto simp: window_eq)
  finally show "window i' = window i @ [c]" .
qed

lemma move_commit:
  assumes "input_inv i"
  shows "ready_line (i\<lparr>iw := ie i\<rparr>) = window i" "edit_line (i\<lparr>iw := ie i\<rparr>) = []" "input_inv (i\<lparr>iw := ie i\<rparr>)"
proof -
  have w: "window (i\<lparr>iw := ie i\<rparr>) = window i" by (simp add: window_eq)
  show "ready_line (i\<lparr>iw := ie i\<rparr>) = window i" by (simp add: ready_line_def w)
  show e: "edit_line (i\<lparr>iw := ie i\<rparr>) = []" by (simp add: edit_line_def w)
  show "input_inv (i\<lparr>iw := ie i\<rparr>)" using assms e by (simp add: input_inv_def)
qed

lemma move_read:
  assumes inv: "input_inv i" and ne: "ready_line i \<noteq> []"
  shows "ready_line (i\<lparr>ir := ir i + 1\<rparr>) = tl (ready_line i)" "edit_line (i\<lparr>ir := ir i + 1\<rparr>) = edit_line i"
    "input_inv (i\<lparr>ir := ir i + 1\<rparr>)" "hd (ready_line i) = buf_at i (ir i)"
proof -
  let ?i = "i\<lparr>ir := ir i + 1\<rparr>" and ?m = "unat (ie i - ir i)" and ?n = "unat (iw i - ir i)"
  have n: "0 < ?n" "?n \<le> ?m" using ne line_lengths(1) [OF inv, symmetric] inv by (simp_all add: input_inv_def)
  have nz: "ie i - ir i \<noteq> 0" "iw i - ir i \<noteq> 0" using n by auto
  have eq: "ie i - (ir i + 1) = (ie i - ir i) - 1" "iw i - (ir i + 1) = (iw i - ir i) - 1" by simp_all
  have m: "unat (ie i - (ir i + 1)) = ?m - 1" "unat (iw i - (ir i + 1)) = ?n - 1" unfolding eq using unat_back nz by blast+
  have "[0..<?m] = [0..<Suc (?m - 1)]" using n by simp
  also have "\<dots> = 0 # map Suc [0..<?m - 1]" by (simp add: upt_conv_Cons map_Suc_upt del: upt_Suc)
  finally have up: "[0..<?m] = 0 # map Suc [0..<?m - 1]" .
  have b: "buf_at i (ir i + 1 + of_nat k) = buf_at i (ir i + of_nat (Suc k))" for k by (simp add: add.assoc)
  have w: "window ?i = tl (window i)" unfolding window_def up by (simp add: m(1) b [symmetric] buf_at_def add.assoc)
  have ws: "window i \<noteq> []" "hd (window i) = buf_at i (ir i)" unfolding window_def up by simp_all
  show "ready_line ?i = tl (ready_line i)" by (simp add: ready_line_def w m(2) tl_take)
  show e: "edit_line ?i = edit_line i" using n by (simp add: edit_line_def w m(2) drop_Suc [symmetric] del: drop_Suc)
  show "hd (ready_line i) = buf_at i (ir i)" using n ws by (simp add: ready_line_def)
  show "input_inv ?i" using inv m n e by (simp add: input_inv_def) linarith
qed

section \<open>Typing\<close>

definition tty :: "console \<Rightarrow> bytes \<times> bytes" where
  "tty s = (ready_line (input s), edit_line (input s))"

definition con_inv :: "console \<Rightarrow> bool" where
  "con_inv s \<longleftrightarrow> input_inv (input s)"

lemma put_all_fields [simp]:
  "input (put_all cs s) = input s" "conslock (put_all cs s) = conslock s" "con_wakeups (put_all cs s) = con_wakeups s"
  by (simp_all add: put_all_def)

lemma consputc_fields [simp]:
  "input (consputc c s) = input s" "conslock (consputc c s) = conslock s" "con_wakeups (consputc c s) = con_wakeups s"
  by (simp_all add: consputc_def split: option.splits)

lemma upd_input_fields [simp]:
  "input (upd_input f s) = f (input s)" "conslock (upd_input f s) = conslock s" "con_wakeups (upd_input f s) = con_wakeups s"
  by (simp_all add: upd_input_def)

lemma last_edit:
  assumes inv: "input_inv i" and ne: "edit_line i \<noteq> []"
  shows "buf_at i (ie i - 1) = last (edit_line i)"
proof -
  let ?m = "unat (ie i - ir i)"
  have m: "0 < ?m" using ne by (auto simp: edit_line_def)
  then have w: "window i \<noteq> []" by (metis length_window length_greater_0_conv)
  have "last (edit_line i) = last (window i)" using ne lines [of i] by (metis last_appendR)
  also have "\<dots> = window i ! (?m - 1)" using w by (simp add: last_conv_nth)
  also have "\<dots> = buf_at i (ir i + of_nat (?m - 1))" using m by (simp add: window_def)
  also have "ir i + of_nat (?m - 1) = ie i - 1" using m by (simp add: of_nat_diff)
  finally show ?thesis by simp
qed

lemma kill_loop_tty:
  assumes "con_inv s"
  shows "con_inv (kill_loop s)" "tty (kill_loop s) = (fst (tty s), [])" "conslock (kill_loop s) = conslock s"
proof -
  have "con_inv (kill_loop s) \<and> tty (kill_loop s) = (fst (tty s), []) \<and> conslock (kill_loop s) = conslock s"
    using assms
  proof (induction s rule: kill_loop.induct)
    case (1 s)
    let ?i = "input s" and ?s = "consputc None (upd_input (\<lambda>i. i\<lparr>ie := ie i - 1\<rparr>) s)"
    have inv: "input_inv ?i" using "1.prems" by (simp add: con_inv_def)
    show ?case
    proof (cases "edit_line ?i = []")
      case True
      then have "kill_loop s = s" using edit_empty [OF inv] by (subst kill_loop.simps) (simp add: Let_def)
      then show ?thesis using "1.prems" True by (simp add: tty_def)
    next
      case False
      have "last (edit_line ?i) \<noteq> 10" using inv last_in_set [OF False] unfolding input_inv_def by metis
      then have c: "ie ?i \<noteq> iw ?i \<and> buf_at ?i (ie ?i - 1) \<noteq> 10" using last_edit [OF inv False] edit_empty [OF inv] False by simp
      then have u: "kill_loop s = kill_loop ?s" by (subst kill_loop.simps) (simp add: Let_def)
      note B = move_back [OF inv False]
      have "con_inv ?s" using B(3) by (simp add: con_inv_def)
      then show ?thesis using "1.IH" [OF refl c] u B(1) by (simp add: tty_def)
    qed
  qed
  then show "con_inv (kill_loop s)" "tty (kill_loop s) = (fst (tty s), [])" "conslock (kill_loop s) = conslock s" by blast+
qed

lemma console_char_tty:
  assumes con: "con_inv s"
  shows "con_inv (console_char c s)" "tty (console_char c s) = tty_char c (tty s)" "conslock (console_char c s) = conslock s"
proof -
  have inv: "input_inv (input s)" using con by (simp add: con_inv_def)
  let ?i = "input s"
  have "con_inv (console_char c s) \<and> tty (console_char c s) = tty_char c (tty s) \<and> conslock (console_char c s) = conslock s"
  proof (cases "c = 16 \<or> c = 21 \<or> c = 8 \<or> c = 127")
    case True
    then show ?thesis
      using con kill_loop_tty [OF con] edit_empty [OF inv] move_back [OF inv]
      by (cases "edit_line ?i = []") (auto simp: console_char_def tty_char_def tty_def con_inv_def)
  next
    case False
    define c' where "c' = (if c = 13 then 10 else c)"
    define i' where "i' = ?i\<lparr>ibuf := (ibuf ?i)[unat (ie ?i mod 128) := c'], ie := ie ?i + 1\<rparr>"
    have m: "ie ?i - ir ?i < 128 \<longleftrightarrow> length (ready_line ?i) + length (edit_line ?i) < 128"
      using line_lengths(3) [OF inv] by (simp add: word_less_nat_alt)
    show ?thesis
    proof (cases "c \<noteq> 0 \<and> ie ?i - ir ?i < 128")
      case stop: False
      then have "console_char c s = s" using False by (simp add: console_char_def split del: if_split) presburger
      moreover have "tty_char c (tty s) = tty s" using False stop m by (auto simp: tty_char_def tty_def)
      ultimately show ?thesis using con by simp
    next
      case go: True
      then have lt: "unat (ie ?i - ir ?i) < 128" by (simp add: word_less_nat_alt)
      note W = window_put [OF inv lt i'_def]
      let ?n = "unat (iw ?i - ir ?i)"
      have n: "?n \<le> unat (ie ?i - ir ?i)" using inv by (simp add: input_inv_def)
      have lines': "ready_line i' = ready_line ?i" "edit_line i' = edit_line ?i @ [c']"
        using W(1,4,5) n by (simp_all add: ready_line_def edit_line_def)
      have full: "ie i' = ir i' + 128 \<longleftrightarrow> Suc (length (ready_line ?i) + length (edit_line ?i)) = 128"
      proof -
        have "ie i' = ir i' + 128 \<longleftrightarrow> ie i' - ir i' = 128" by (metis add.commute diff_add_cancel add_diff_cancel)
        also have "\<dots> \<longleftrightarrow> unat (ie i' - ir i') = 128" by (simp add: word_unat_eq_iff)
        finally show ?thesis using W(2) line_lengths(3) [OF inv] by simp
      qed
      let ?com = "c' = 10 \<or> c' = 4 \<or> ie i' = ir i' + 128"
      define s' where "s' = consputc (Some c') (upd_input (\<lambda>_. i') s)"
      have inp: "input s' = i'" "conslock s' = conslock s" by (simp_all add: s'_def)
      have up: "upd_input (\<lambda>i. i\<lparr>ibuf := (ibuf i)[unat (ie i mod 128) := c'], ie := ie i + 1\<rparr>) s = upd_input (\<lambda>_. i') s"
        by (simp add: upd_input_def i'_def)
      have run: "console_char c s = (if ?com then (upd_input (\<lambda>i. i\<lparr>iw := ie i\<rparr>) s')\<lparr>con_wakeups := Suc (con_wakeups s')\<rparr> else s')"
        using False go unfolding console_char_def Let_def c'_def [symmetric] up s'_def [symmetric] inp by simp
      have invx: "length (ibuf i') = 128" "unat (iw i' - ir i') \<le> unat (ie i' - ir i')" "unat (ie i' - ir i') \<le> 128"
        using W n lt by simp_all
      have com: "ready_line (i'\<lparr>iw := ie i'\<rparr>) = ready_line ?i @ edit_line ?i @ [c']" "edit_line (i'\<lparr>iw := ie i'\<rparr>) = []"
      proof -
        have w: "window (i'\<lparr>iw := ie i'\<rparr>) = window i'" by (simp add: window_eq)
        show "ready_line (i'\<lparr>iw := ie i'\<rparr>) = ready_line ?i @ edit_line ?i @ [c']"
          using lines [of i'] lines' by (simp add: ready_line_def [of "i'\<lparr>iw := ie i'\<rparr>"] w)
        show "edit_line (i'\<lparr>iw := ie i'\<rparr>) = []" by (simp add: edit_line_def w)
      qed
      have tc: "tty_char c (tty s) = (if ?com then (ready_line ?i @ edit_line ?i @ [c'], []) else (ready_line ?i, edit_line ?i @ [c']))"
        using False go m unfolding tty_char_def tty_def full c'_def by (simp add: Let_def)
      show ?thesis
      proof (cases ?com)
        case True
        have "input_inv (i'\<lparr>iw := ie i'\<rparr>)" using invx com(2) by (simp add: input_inv_def)
        then show ?thesis using True run tc com inp by (simp add: con_inv_def tty_def)
      next
        case no: False
        have "10 \<notin> set (edit_line i')" using inv lines'(2) no by (auto simp: input_inv_def)
        then have "input_inv i'" using invx by (simp add: input_inv_def)
        then show ?thesis using no run tc lines' inp by (simp add: con_inv_def tty_def)
      qed
    qed
  qed
  then show "con_inv (console_char c s)" "tty (console_char c s) = tty_char c (tty s)" "conslock (console_char c s) = conslock s" by blast+
qed

lemma fold_console_char:
  "con_inv s \<Longrightarrow> con_inv (fold console_char cs s) \<and> tty (fold console_char cs s) = fold tty_char cs (tty s) \<and>
    conslock (fold console_char cs s) = conslock s"
  by (induction cs arbitrary: s) (simp_all add: console_char_tty)

section \<open>Reading\<close>

lemma cread_loop_tty:
  assumes "input_inv i" "tty_read killed target n dst (ready_line i) = (r, left, dst', q)"
  shows "\<exists>i'. cread_loop killed target n dst i = (r, left, dst', i') \<and> input_inv i' \<and> ready_line i' = q \<and> edit_line i' = edit_line i"
  using assms
proof (induction n arbitrary: dst i)
  case 0
  then show ?case by auto
next
  case (Suc n)
  note inv = Suc.prems(1)
  show ?case
  proof (cases "ready_line i")
    case Nil
    then have "ir i = iw i" using ready_empty [OF inv] by simp
    then show ?thesis using Suc.prems Nil by auto
  next
    case (Cons c cs)
    then have ne: "ready_line i \<noteq> []" "ir i \<noteq> iw i" using ready_empty [OF inv] by auto
    note R = move_read [OF inv ne(1)]
    have c: "buf_at i (ir i) = c" "ready_line (i\<lparr>ir := ir i + 1\<rparr>) = cs" using R(1,4) Cons by simp_all
    show ?thesis
    proof (cases "c = 4 \<or> c = 10")
      case True
      then show ?thesis using Suc.prems Cons ne c R(2,3) by (auto simp: Let_def)
    next
      case False
      then have t: "tty_read killed target n (dst @ [c]) (ready_line (i\<lparr>ir := ir i + 1\<rparr>)) = (r, left, dst', q)" using Suc.prems(2) Cons c by simp
      from Suc.IH [OF R(3) t] show ?thesis using False ne c R(2) by (auto simp: Let_def)
    qed
  qed
qed

section \<open>Properties\<close>

definition plain :: "u8 \<Rightarrow> bool" where
  "plain c \<longleftrightarrow> c \<notin> {0, CTRL_D, CTRL_H, NEWLINE, CR, CTRL_P, CTRL_U, DEL, 255}"

lemma fold_tty_plain:
  "\<lbrakk>\<forall>c\<in>set cs. plain c; length q + length ed + length cs < 128\<rbrakk> \<Longrightarrow> fold tty_char cs (q, ed) = (q, ed @ cs)"
proof (induction cs arbitrary: ed)
  case (Cons c cs)
  have "tty_char c (q, ed) = (q, ed @ [c])" using Cons.prems by (simp add: tty_char_def plain_def)
  then show ?case using Cons by simp
qed simp

lemma tty_read_plain:
  "\<lbrakk>\<forall>c\<in>set cs. plain c; length cs < n\<rbrakk> \<Longrightarrow> tty_read killed target n dst (cs @ 10 # q) = (RDone, n - Suc (length cs), dst @ cs @ [10], q)"
proof (induction cs arbitrary: n dst)
  case Nil
  then show ?case by (cases n) simp_all
next
  case (Cons c cs)
  then show ?case by (cases n) (simp_all add: plain_def)
qed

lemma console_intr_tty:
  assumes "con_inv s" "free_lock (conslock s)"
  shows "\<exists>s'. console_intr me cs s = Inr s' \<and> con_inv s' \<and> tty s' = fold tty_char (takeWhile (\<lambda>c. c \<noteq> 255) cs) (tty s) \<and>
    conslock s' = conslock s"
proof -
  obtain l where l: "acquire_spinlock me (conslock s) = Inr l" "release_spinlock me l = Inr (conslock s)"
    using acquire_free [of "conslock s" me] acquire_release [OF assms(2)] assms(2) by blast
  have inv: "con_inv (s\<lparr>conslock := l\<rparr>)" and t: "tty (s\<lparr>conslock := l\<rparr>) = tty s" using assms(1) by (simp_all add: con_inv_def tty_def)
  define s1 where "s1 = fold console_char (takeWhile (\<lambda>c. c \<noteq> 255) cs) (s\<lparr>conslock := l\<rparr>)"
  have s1: "con_inv s1" "tty s1 = fold tty_char (takeWhile (\<lambda>c. c \<noteq> 255) cs) (tty s)" "conslock s1 = l"
    using fold_console_char [OF inv] t by (simp_all add: s1_def)
  have "console_intr me cs s = Inr (s1\<lparr>conslock := conslock s\<rparr>)"
    unfolding console_intr_def l(1) bnd_simps Let_def s1_def [symmetric] s1(3) l(2) ..
  then show ?thesis using s1 by (simp add: con_inv_def tty_def)
qed

definition sample_console :: console where
  "sample_console = \<lparr>con_lock = \<lparr>locked = False, lcpu = None, lname = ''console''\<rparr>, panicked_flag = False,
     conslock = \<lparr>locked = False, lcpu = None, lname = ''conslock''\<rparr>, con_out = [],
     input = \<lparr>ibuf = replicate 128 0, ir = - 3, iw = - 3, ie = - 3\<rparr>, con_wakeups = 0\<rparr>"

lemma sample_console: "con_inv sample_console" "free_lock (conslock sample_console)" "tty sample_console = ([], [])"
  by (simp_all add: con_inv_def input_inv_def edit_line_def ready_line_def window_def tty_def sample_console_def)

text \<open>C20: the ring buffer of the terminal behaves as two strings, the ready lines and the line being edited: every
  batch of typed characters changes them as \<open>tty_char\<close> says, and the buffer invariant holds whatever the 64-bit indices.\<close>

theorem terminal_refines_lines:
  assumes "con_inv s" "free_lock (conslock s)"
  shows "\<exists>s'. console_intr me cs s = Inr s' \<and> con_inv s' \<and>
    tty s' = fold tty_char (takeWhile (\<lambda>c. c \<noteq> 255) cs) (tty s) \<and> length (fst (tty s')) + length (snd (tty s')) \<le> INPUT_BUF"
proof -
  obtain s' where s': "console_intr me cs s = Inr s'" "con_inv s'" "tty s' = fold tty_char (takeWhile (\<lambda>c. c \<noteq> 255) cs) (tty s)"
    using console_intr_tty [OF assms] by blast
  have "length (fst (tty s')) + length (snd (tty s')) \<le> 128"
    using s'(2) line_lengths(3) [of "input s'"] by (simp add: con_inv_def tty_def input_inv_def)
  then show ?thesis using s' by blast
qed

theorem terminal_refines_lines_witness:
  "\<exists>s'. console_intr 0 [97, 98, 127, 99, 255] sample_console = Inr s' \<and> tty s' = ([], [97, 99])"
  using terminal_refines_lines [OF sample_console(1,2), of 0 "[97, 98, 127, 99, 255]"] sample_console(3)
  by (auto simp: tty_char_def)

text \<open>C21: a line typed into an idle terminal is what the next read returns: ordinary characters come back in order,
  the final return as a newline, and the terminal is idle again.\<close>

theorem typed_line_is_read:
  assumes "con_inv s" "free_lock (conslock s)" "tty s = ([], [])" "\<forall>c\<in>set cs. plain c" "length cs < 127" "length cs < n"
  shows "\<exists>s' i'. console_intr me (cs @ [CR]) s = Inr s' \<and>
    cread_loop killed n n [] (input s') = (RDone, n - Suc (length cs), cs @ [NEWLINE], i') \<and> ready_line i' = [] \<and> edit_line i' = []"
proof -
  have "takeWhile (\<lambda>c. c \<noteq> 255) (cs @ [13]) = cs @ [13]" using assms(4) by (auto simp: plain_def takeWhile_eq_all_conv)
  then obtain s' where s': "console_intr me (cs @ [13]) s = Inr s'" "con_inv s'" "tty s' = fold tty_char (cs @ [13]) ([], [])"
    using console_intr_tty [OF assms(1,2), of me "cs @ [13]"] assms(3) by auto
  have "fold tty_char cs ([], []) = ([], cs)" using fold_tty_plain [OF assms(4), of "[]" "[]"] assms(5) by simp
  then have t: "tty s' = (cs @ [10], [])" using s'(3) assms(5) by (simp add: tty_char_def)
  have inv: "input_inv (input s')" and r: "ready_line (input s') = cs @ 10 # []" and e: "edit_line (input s') = []"
    using s'(2) t by (simp_all add: con_inv_def tty_def)
  have "tty_read killed n n [] (ready_line (input s')) = (RDone, n - Suc (length cs), cs @ [10], [])"
    unfolding r using tty_read_plain [OF assms(4,6), of killed n "[]" "[]"] by simp
  from cread_loop_tty [OF inv this] show ?thesis using s'(1) e by auto
qed

theorem typed_line_is_read_witness:
  "\<exists>s' i'. console_intr 0 [108, 115, 13] sample_console = Inr s' \<and> cread_loop False 100 100 [] (input s') = (RDone, 97, [108, 115, 10], i')"
  using typed_line_is_read [OF sample_console, of "[108, 115]" 100 0 False] by (auto simp: plain_def)

text \<open>C22: \<open>console_read\<close> returns what the ready lines hold: up to \<open>n\<close> characters, to the end of the line or to \<open>^D\<close>;
  it gives -1 when the process was killed while waiting, and leaves the line being edited alone.\<close>

theorem console_read_correct:
  assumes "con_inv s" "free_lock (conslock s)" "inode_unlock me ip st = Inr st1" "inode_lock cache me ip st1 = Inr st2"
    "tty_read killed n n [] (fst (tty s)) = (r, left, dst, q)" "r \<noteq> RSleep"
  shows "\<exists>s'. console_read cache me killed ip n s st = Inr (dst, if r = RKilled then -1 else int n - int left, s', st2) \<and>
    con_inv s' \<and> tty s' = (q, snd (tty s))"
proof -
  obtain l where l: "acquire_spinlock me (conslock s) = Inr l" "release_spinlock me l = Inr (conslock s)"
    using acquire_free [of "conslock s" me] acquire_release [OF assms(2)] assms(2) by blast
  have t: "tty_read killed n n [] (ready_line (input s)) = (r, left, dst, q)" "input_inv (input s)"
    using assms(1,5) by (simp_all add: tty_def con_inv_def)
  obtain i' where i': "cread_loop killed n n [] (input s) = (r, left, dst, i')" "input_inv i'" "ready_line i' = q" "edit_line i' = edit_line (input s)"
    using cread_loop_tty [OF t(2,1)] by blast
  let ?s = "s\<lparr>input := i'\<rparr>"
  have "console_read cache me killed ip n s st = Inr (dst, if r = RKilled then -1 else int n - int left, ?s, st2)"
    using assms(3,4,6) l i'(1) by (simp add: console_read_def Let_def)
  then show ?thesis using i' by (intro exI [of _ ?s]) (simp add: con_inv_def tty_def)
qed

definition sample_terminal :: "unit itree" where
  "sample_terminal = \<lparr>it_sb = \<lparr>num_blocks = 1000, num_log_blocks = 64, num_groups = 10, num_inodes = 200, blocks_per_group = 90,
     sb_log_start = 2, bg_start = 66, num_inodeblocks_per_group = 3, num_bitmap_per_group = 1,
     num_datablocks_per_group = 86, bitmap_start_per_group = 3, data_start_per_group = 4\<rparr>,
      it_lock = \<lparr>locked = False, lcpu = None, lname = ''tree''\<rparr>, it_head = [0],
     it_nodes = (\<lambda>_. \<lparr>ilock = \<lparr>locked = True, lcpu = Some 0, lname = ''inode''\<rparr>, irc = \<lparr>rccount = 1\<rparr>, inode_no = 5, ivalid = True,
       entry = zero_entry\<lparr>ity := INODE_DEVICE, major := 1\<rparr>\<rparr>), it_next = 1, it_free = [], it_room = 0, it_cache = ()\<rparr>"

theorem console_read_correct_witness:
  "\<forall>cache. \<exists>s' st'. console_read cache 0 True 0 10 sample_console sample_terminal = Inr ([], -1, s', st') \<and> tty s' = ([], [])"
proof
  fix cache :: "unit BlockCache"
  let ?l = "\<lparr>locked = False, lcpu = None, lname = ''inode''\<rparr> :: SpinLock"
  have u: "inode_unlock 0 0 sample_terminal = Inr (upd_inode 0 (\<lambda>i. i\<lparr>ilock := ?l\<rparr>) sample_terminal)"
    by (simp add: inode_unlock_def sample_terminal_def holding_spinlock_def release_spinlock_def upd_inode_def)
  obtain st2 where l: "inode_lock cache 0 0 (upd_inode 0 (\<lambda>i. i\<lparr>ilock := ?l\<rparr>) sample_terminal) = Inr st2"
    by (auto simp: inode_lock_def sample_terminal_def acquire_free upd_inode_def Let_def)
  have r: "tty_read True 10 10 [] (fst (tty sample_console)) = (RKilled, 10, [], [])"
    using tty_read.simps(2) [of True 10 9 "[]"] sample_console(3) by simp
  from console_read_correct [OF sample_console(1,2) u l r] show "\<exists>s' st'. console_read cache 0 True 0 10 sample_console sample_terminal =
      Inr ([], -1, s', st') \<and> tty s' = ([], [])" using sample_console(3) by auto
qed

end
