(* ===== verification/FileTable.thy ===== *)
theory FileTable
  imports Dir
begin

text \<open>
  \<open>fs/file.c\<close>: the table of open files.  A \<open>struct file *\<close> is its index in the table; operations on inodes
  run in the inode layer of \<open>Inode\<close> and \<open>Dir\<close>, with the console as a parameter.  \<open>ctx\<close> names the \<open>OpContext\<close> on
  the caller's stack.
\<close>

abbreviation (input) NFILE :: nat where "NFILE \<equiv> 100"

datatype fdtype = FD_NONE | FD_PIPE | FD_INODE

record File =
  ftype :: fdtype
  ref :: int
  readable :: bool
  writable :: bool
  fip :: nat
  off :: nat

record 'c kfs =
  ft_lock :: SpinLock
  ft_file :: "File list"
  ktree :: "'c itree"

definition upd_file :: "nat \<Rightarrow> (File \<Rightarrow> File) \<Rightarrow> 'c kfs \<Rightarrow> 'c kfs" where
  "upd_file f g s = s\<lparr>ft_file := (ft_file s)[f := g (ft_file s ! f)]\<rparr>"

definition lock_ftable :: "nat \<Rightarrow> 'c kfs \<Rightarrow> 'c kfs res" where
  "lock_ftable me s = bnd (acquire_spinlock me (ft_lock s)) (\<lambda>l. Inr (s\<lparr>ft_lock := l\<rparr>))"

definition unlock_ftable :: "nat \<Rightarrow> 'c kfs \<Rightarrow> 'c kfs res" where
  "unlock_ftable me s = bnd (release_spinlock me (ft_lock s)) (\<lambda>l. Inr (s\<lparr>ft_lock := l\<rparr>))"

text \<open>A call into the inode layer.\<close>

definition itcall :: "('c itree \<Rightarrow> ('a \<times> 'c itree) res) \<Rightarrow> 'c kfs \<Rightarrow> ('a \<times> 'c kfs) res" where
  "itcall f s = bnd (f (ktree s)) (\<lambda>(x, t). Inr (x, s\<lparr>ktree := t\<rparr>))"

definition itcallu :: "('c itree \<Rightarrow> 'c itree res) \<Rightarrow> 'c kfs \<Rightarrow> 'c kfs res" where
  "itcallu f s = bnd (f (ktree s)) (\<lambda>t. Inr (s\<lparr>ktree := t\<rparr>))"

definition k_begin_op :: "'c BlockCache \<Rightarrow> nat \<Rightarrow> 'c kfs \<Rightarrow> 'c kfs res" where
  "k_begin_op cache ctx s = itcallu (callu (bc_begin_op cache ctx)) s"

definition k_end_op :: "'c BlockCache \<Rightarrow> nat \<Rightarrow> 'c kfs \<Rightarrow> 'c kfs res" where
  "k_end_op cache ctx s = itcallu (callu (bc_end_op cache ctx)) s"

definition fileinit :: "'c kfs \<Rightarrow> 'c kfs" where
  "fileinit s = s\<lparr>ft_lock := init_spinlock (ft_lock s) ''file table''\<rparr>"

fun free_file :: "File list \<Rightarrow> nat \<Rightarrow> nat option" where
  "free_file [] i = None"
| "free_file (f # fs) i = (if ref f = 0 then Some i else free_file fs (Suc i))"

definition filealloc :: "nat \<Rightarrow> 'c kfs \<Rightarrow> (nat option \<times> 'c kfs) res" where
  "filealloc me s =
     bnd (lock_ftable me s) (\<lambda>s.
     case free_file (ft_file s) 0 of
       Some f \<Rightarrow> bnd (unlock_ftable me (upd_file f (\<lambda>x. x\<lparr>ref := 1\<rparr>) s)) (\<lambda>s. Inr (Some f, s))
     | None \<Rightarrow> bnd (unlock_ftable me s) (\<lambda>s. Inr (None, s)))"

definition filedup :: "nat \<Rightarrow> nat \<Rightarrow> 'c kfs \<Rightarrow> (nat \<times> 'c kfs) res" where
  "filedup me f s =
     bnd (lock_ftable me s) (\<lambda>s.
     if ref (ft_file s ! f) < 1 then Inl (Panic ''filedup'')
     else bnd (unlock_ftable me (upd_file f (\<lambda>x. x\<lparr>ref := ref x + 1\<rparr>) s)) (\<lambda>s. Inr (f, s)))"

definition fileclose :: "'c BlockCache \<Rightarrow> nat \<Rightarrow> nat \<Rightarrow> nat \<Rightarrow> 'c kfs \<Rightarrow> 'c kfs res" where
  "fileclose cache me ctx f s =
     bnd (lock_ftable me s) (\<lambda>s.
     if ref (ft_file s ! f) < 1 then Inl (Panic ''fileclose'')
     else
       let s = upd_file f (\<lambda>x. x\<lparr>ref := ref x - 1\<rparr>) s in
       if ref (ft_file s ! f) > 0 then unlock_ftable me s
       else
         let ff = ft_file s ! f;
             s = upd_file f (\<lambda>x. x\<lparr>ref := 0, ftype := FD_NONE\<rparr>) s in
         bnd (unlock_ftable me s) (\<lambda>s.
         case ftype ff of
           FD_PIPE \<Rightarrow> Inr s
         | FD_INODE \<Rightarrow>
             bnd (k_begin_op cache ctx s) (\<lambda>s.
             bnd (itcallu (inode_put cache me (Some ctx) (fip ff)) s) (k_end_op cache ctx))
         | FD_NONE \<Rightarrow> Inr s))"

definition filestat :: "'c BlockCache \<Rightarrow> nat \<Rightarrow> nat \<Rightarrow> stat \<Rightarrow> 'c kfs \<Rightarrow> (int \<times> stat \<times> 'c kfs) res" where
  "filestat cache me f buf s =
     (let x = ft_file s ! f in
      if ftype x = FD_INODE then
        bnd (itcallu (inode_lock cache me (fip x)) s) (\<lambda>s.
        bnd (stati (ino_of (ktree s) (fip x)) buf) (\<lambda>buf.
        bnd (itcallu (inode_unlock me (fip x)) s) (\<lambda>s. Inr (0, buf, s))))
      else Inr (-1, buf, s))"

text \<open>\<open>(isize)\<close> of a 64-bit result.\<close>

definition isize :: "nat \<Rightarrow> int" where "isize n = sint (word_of_nat n :: u64)"

definition fileread :: "'c BlockCache \<Rightarrow> 'c console_in \<Rightarrow> nat \<Rightarrow> nat \<Rightarrow> nat \<Rightarrow> 'c kfs \<Rightarrow> (int \<times> bytes \<times> 'c kfs) res" where
  "fileread cache con me f n s =
     (let x = ft_file s ! f in
      if \<not> readable x then Inr (-1, [], s)
      else if ftype x = FD_INODE then
        bnd (itcallu (inode_lock cache me (fip x)) s) (\<lambda>s.
        bnd (itcall (\<lambda>t. bnd (inode_read cache con (fip x) (off x) n t) (\<lambda>(bs, r, t). Inr ((bs, r), t))) s) (\<lambda>((bs, r), s).
        let s = upd_file f (\<lambda>x. x\<lparr>off := addw 64 (off x) r\<rparr>) s in
        bnd (itcallu (inode_unlock me (fip x)) s) (\<lambda>s. Inr (isize r, bs, s))))
      else Inl (Panic ''fileread''))"

abbreviation (input) MAX_WRITE :: nat where "MAX_WRITE \<equiv> 34816"

text \<open>The loop of \<open>filewrite\<close>: \<open>i\<close> of \<open>n\<close> bytes written; the final \<open>i\<close>.\<close>

function filewrite_loop :: "'c BlockCache \<Rightarrow> 'c console_out \<Rightarrow> nat \<Rightarrow> nat \<Rightarrow> nat \<Rightarrow> bytes \<Rightarrow> nat \<Rightarrow> nat \<Rightarrow> 'c kfs \<Rightarrow> (nat \<times> 'c kfs) res" where
  "filewrite_loop cache con me ctx f src i n s =
     (if i < n then
        let n1 = min (n - i) MAX_WRITE; ip = fip (ft_file s ! f) in
        bnd (k_begin_op cache ctx s) (\<lambda>s.
        bnd (itcallu (inode_lock cache me ip) s) (\<lambda>s.
        bnd (itcall (inode_write cache con (Some ctx) ip (slice src i n1) (off (ft_file s ! f)) n1) s) (\<lambda>(r, s).
        let s = upd_file f (\<lambda>x. x\<lparr>off := addw 64 (off x) r\<rparr>) s in
        bnd (itcallu (inode_unlock me ip) s) (\<lambda>s.
        bnd (k_end_op cache ctx s) (\<lambda>s.
        if isize r < 0 then Inr (i, s)
        else if r \<noteq> n1 then Inl (Panic ''short filewrite'')
        else filewrite_loop cache con me ctx f src (i + n1) n s)))))
      else Inr (i, s))"
  by pat_completeness auto
termination
  by (relation "measure (\<lambda>(cache, con, me, ctx, f, src, i, n, s). n - i)") auto

declare filewrite_loop.simps [simp del]

text \<open>\<open>n\<close> is the caller's \<open>isize\<close>; a negative count writes nothing and fails.\<close>

definition filewrite :: "'c BlockCache \<Rightarrow> 'c console_out \<Rightarrow> nat \<Rightarrow> nat \<Rightarrow> nat \<Rightarrow> bytes \<Rightarrow> int \<Rightarrow> 'c kfs \<Rightarrow> (int \<times> 'c kfs) res" where
  "filewrite cache con me ctx f src n s =
     (let x = ft_file s ! f in
      if \<not> writable x then Inr (-1, s)
      else if ftype x = FD_INODE then
        bnd (filewrite_loop cache con me ctx f src 0 (nat n) s) (\<lambda>(i, s). Inr (if int i = n then n else -1, s))
      else Inl (Panic ''filewrite''))"

end
