(* ===== verification/VirtMem.thy ===== *)
theory VirtMem
  imports PhysMem CString
begin

text \<open>
  \<open>core/virtual_memory.c\<close> and the page-table macros of \<open>aarch64/mmu.h\<close>: four-level user page tables on 4 KiB
  pages.  \<open>vm_mem\<close> is memory byte by byte at kernel addresses; the links of free pages are kept by the page
  allocator (\<open>vm_mm\<close>), a page is handed out with whatever \<open>vm_mem\<close> holds.  A loop whose 64-bit counter wraps
  around never ends (\<open>Blocked\<close>).
\<close>

abbreviation (input) PTE_VALID :: u64 where "PTE_VALID \<equiv> 1"
abbreviation (input) PTE_TABLE :: u64 where "PTE_TABLE \<equiv> 3"

text \<open>\<open>PTE_USER | PTE_NORMAL | PTE_PAGE\<close>: (1 << 6) | (1 << 2 | 1 << 10 | 2 << 8) | 3.\<close>

abbreviation (input) PTE_USER_DATA :: u64 where "PTE_USER_DATA \<equiv> 0x647"
abbreviation (input) USPACE_TOP :: u64 where "USPACE_TOP \<equiv> 0x1000000000000"

definition KMASK :: u64 where "KMASK = 0xffff000000000000"

definition K2P :: "u64 \<Rightarrow> u64" where "K2P a = a - KMASK"
definition P2Kw :: "u64 \<Rightarrow> u64" where "P2Kw a = a + KMASK"
definition KSPACE :: "u64 \<Rightarrow> u64" where "KSPACE a = (a OR KMASK)"
definition PSPACE :: "u64 \<Rightarrow> u64" where "PSPACE a = (a AND NOT KMASK)"

text \<open>\<open>~0xFFFu\<close> is a 32-bit value: the mask clears the upper half of the entry as well.\<close>

definition PTE_ADDRESS :: "u64 \<Rightarrow> u64" where "PTE_ADDRESS pte = (pte AND 0xFFFFF000)"
definition PTE_FLAGS :: "u64 \<Rightarrow> u64" where "PTE_FLAGS pte = (pte AND 0xFFF)"

record vmem =
  vm_mem :: mem
  vm_mm :: MemmoryManagerTable
  vm_ttbr0 :: u64

definition get64 :: "mem \<Rightarrow> u64 \<Rightarrow> u64" where
  "get64 m a = word_of_nat (le_nat (map (\<lambda>i. m (a + of_nat i)) [0..<8]))"

definition put64 :: "u64 \<Rightarrow> u64 \<Rightarrow> mem \<Rightarrow> mem" where
  "put64 a v m = (\<lambda>x. if unat (x - a) < 8 then le_bytes 8 (unat v) ! unat (x - a) else m x)"

definition mem_zero :: "u64 \<Rightarrow> nat \<Rightarrow> mem \<Rightarrow> mem" where
  "mem_zero a n m = (\<lambda>x. if unat (x - a) < n then 0 else m x)"

definition write_bytes :: "u64 \<Rightarrow> bytes \<Rightarrow> mem \<Rightarrow> mem" where
  "write_bytes a bs m = (\<lambda>x. if unat (x - a) < length bs then bs ! unat (x - a) else m x)"

definition upd_mem :: "(mem \<Rightarrow> mem) \<Rightarrow> vmem \<Rightarrow> vmem" where
  "upd_mem f vm = vm\<lparr>vm_mem := f (vm_mem vm)\<rparr>"

definition vkalloc :: "nat \<Rightarrow> vmem \<Rightarrow> (u64 \<times> vmem) res" where
  "vkalloc me vm = bnd (kalloc me (vm_mm vm)) (\<lambda>(p, m). Inr (of_nat p, vm\<lparr>vm_mm := m\<rparr>))"

definition vkfree :: "nat \<Rightarrow> u64 \<Rightarrow> vmem \<Rightarrow> vmem res" where
  "vkfree me va vm = bnd (kfree me (unat va) (vm_mm vm)) (\<lambda>m. Inr (vm\<lparr>vm_mm := m\<rparr>))"

text \<open>A counted \<open>for\<close> loop whose body may stop.\<close>

primrec for_each :: "('i \<Rightarrow> 's \<Rightarrow> 's res) \<Rightarrow> 'i list \<Rightarrow> 's \<Rightarrow> 's res" where
  "for_each f [] s = Inr s"
| "for_each f (i # is) s = bnd (f i s) (for_each f is)"

lemma for_each_append: "for_each f (xs @ ys) s = bnd (for_each f xs s) (for_each f ys)"
proof (induction xs arbitrary: s)
  case (Cons x xs)
  then have "for_each f (xs @ ys) = (\<lambda>s. bnd (for_each f xs s) (for_each f ys))" by (simp add: fun_eq_iff)
  then show ?case by (simp add: bnd_assoc)
qed simp

lemma page_step: "\<not> a + 4096 < a \<Longrightarrow> 2 ^ 64 - unat (a + 4096) < 2 ^ 64 - unat (a :: u64)"
proof -
  assume a: "\<not> a + 4096 < a"
  have "a \<noteq> a + 4096" by simp
  then have "a < a + 4096" using a by (metis linorder_neqE)
  then have "unat a < unat (a + 4096)" by (simp add: word_less_nat_alt)
  moreover have "unat (a + 4096) < 2 ^ 64" using unsigned_less [of "a + 4096", where ?'a = nat] by simp
  ultimately show ?thesis by linarith
qed

section \<open>Page directories\<close>

definition pgdir_init :: "nat \<Rightarrow> vmem \<Rightarrow> (u64 \<times> vmem) res" where
  "pgdir_init me vm =
     bnd (vkalloc me vm) (\<lambda>(pgdir, vm).
     Inr (pgdir, if pgdir \<noteq> 0 then upd_mem (mem_zero pgdir PAGE_SIZE) vm else vm))"

definition pte_addr :: "u64 \<Rightarrow> u64 \<Rightarrow> u64" where
  "pte_addr table index = table + index * 8"

text \<open>One level of \<open>pgdir_walk\<close>: \<open>i\<close> is the loop variable.\<close>

definition walk_index :: "u64 \<Rightarrow> nat \<Rightarrow> u64" where
  "walk_index va i = (drop_bit ((3 - i) * 9) (drop_bit 12 va) AND 0x1FF)"

definition walk_step :: "nat \<Rightarrow> u64 \<Rightarrow> bool \<Rightarrow> nat \<Rightarrow> u64 \<times> vmem \<Rightarrow> (u64 \<times> vmem) res" where
  "walk_step me va alloc i st =
     (case st of (pagetable, vm) \<Rightarrow>
      let e = pte_addr pagetable (walk_index va i) in
      bnd (if get64 (vm_mem vm) e AND PTE_VALID = 0 \<and> alloc
           then bnd (vkalloc me vm) (\<lambda>(p, vm).
                Inr (if p \<noteq> 0 then upd_mem (\<lambda>m. put64 e (K2P p OR PTE_TABLE) (mem_zero p PAGE_SIZE m)) vm else vm))
           else Inr vm) (\<lambda>vm.
      Inr (P2Kw (PTE_ADDRESS (get64 (vm_mem vm) e)), vm)))"

definition pgdir_walk :: "nat \<Rightarrow> u64 \<Rightarrow> u64 \<Rightarrow> bool \<Rightarrow> vmem \<Rightarrow> (u64 \<times> vmem) res" where
  "pgdir_walk me pgdir va alloc vm =
     bnd (for_each (walk_step me va alloc) [0..<3] (pgdir, vm)) (\<lambda>(pagetable, vm).
     Inr (pte_addr pagetable (drop_bit 12 va AND 0x1FF), vm))"

text \<open>\<open>recur_uvm_copy(pgdir, level)\<close> with \<open>k = 3 - level\<close> levels below it.\<close>

definition copy_entry :: "nat \<Rightarrow> (u64 \<Rightarrow> vmem \<Rightarrow> (u64 \<times> vmem) res) \<Rightarrow> u64 \<Rightarrow> u64 \<Rightarrow> nat \<Rightarrow> vmem \<Rightarrow> vmem res" where
  "copy_entry me copy pgdir newpgdir i vm =
     (let pte = get64 (vm_mem vm) (pte_addr pgdir (of_nat i)) in
      if pte AND PTE_VALID \<noteq> 0
      then bnd (copy (P2Kw (PTE_ADDRESS pte)) vm) (\<lambda>(page_copy, vm).
           Inr (upd_mem (put64 (pte_addr newpgdir (of_nat i)) (K2P page_copy OR PTE_FLAGS pte)) vm))
      else Inr vm)"

definition copy_page :: "nat \<Rightarrow> u64 \<Rightarrow> vmem \<Rightarrow> (u64 \<times> vmem) res" where
  "copy_page me src vm =
     bnd (vkalloc me vm) (\<lambda>(page_copy, vm). Inr (page_copy, upd_mem (memmove page_copy src PAGE_SIZE) vm))"

primrec recur_uvm_copy :: "nat \<Rightarrow> nat \<Rightarrow> u64 \<Rightarrow> vmem \<Rightarrow> (u64 \<times> vmem) res" where
  "recur_uvm_copy 0 me pgdir vm =
     bnd (pgdir_init me vm) (\<lambda>(newpgdir, vm).
     bnd (for_each (copy_entry me (copy_page me) pgdir newpgdir) [0..<512] vm) (\<lambda>vm. Inr (newpgdir, vm)))"
| "recur_uvm_copy (Suc k) me pgdir vm =
     bnd (pgdir_init me vm) (\<lambda>(newpgdir, vm).
     bnd (for_each (copy_entry me (recur_uvm_copy k me) pgdir newpgdir) [0..<512] vm) (\<lambda>vm. Inr (newpgdir, vm)))"

definition uvm_copy :: "nat \<Rightarrow> u64 \<Rightarrow> vmem \<Rightarrow> (u64 \<times> vmem) res" where
  "uvm_copy me pgdir vm = recur_uvm_copy 3 me pgdir vm"

definition free_entry :: "(u64 \<Rightarrow> vmem \<Rightarrow> vmem res) \<Rightarrow> u64 \<Rightarrow> nat \<Rightarrow> vmem \<Rightarrow> vmem res" where
  "free_entry fr pgdir i vm =
     (let pte = get64 (vm_mem vm) (pte_addr pgdir (of_nat i)) in
      if pte AND PTE_VALID \<noteq> 0 then fr (P2Kw (PTE_ADDRESS pte)) vm else Inr vm)"

primrec recur_vm_free :: "nat \<Rightarrow> nat \<Rightarrow> u64 \<Rightarrow> vmem \<Rightarrow> vmem res" where
  "recur_vm_free 0 me pgdir vm =
     bnd (for_each (free_entry (vkfree me) pgdir) [0..<512] vm) (vkfree me pgdir)"
| "recur_vm_free (Suc k) me pgdir vm =
     bnd (for_each (free_entry (recur_vm_free k me) pgdir) [0..<512] vm) (vkfree me pgdir)"

definition vm_free :: "nat \<Rightarrow> u64 \<Rightarrow> vmem \<Rightarrow> vmem res" where
  "vm_free me pgdir vm = recur_vm_free 3 me pgdir vm"

section \<open>Mapping user memory\<close>

function map_loop :: "nat \<Rightarrow> u64 \<Rightarrow> u64 \<Rightarrow> u64 \<Rightarrow> u64 \<Rightarrow> vmem \<Rightarrow> vmem res" where
  "map_loop me pgdir ptr fin pa vm =
     (if ptr < fin then
        bnd (pgdir_walk me pgdir ptr True vm) (\<lambda>(e, vm).
        if e = 0 then Inl (Panic ''uvm_map: pgdir_walk failed.'')
        else let vm = upd_mem (put64 e (pa OR PTE_USER_DATA)) vm in
          if ptr + 4096 < ptr then Inl (Blocked ''loop'') else map_loop me pgdir (ptr + 4096) fin (pa + 4096) vm)
      else Inr vm)"
  by pat_completeness auto
termination
  by (relation "measure (\<lambda>(me, pgdir, ptr, fin, pa, vm). 2 ^ 64 - unat ptr)") (auto dest: page_step simp del: not_less)

declare map_loop.simps [simp del]

definition uvm_map :: "nat \<Rightarrow> u64 \<Rightarrow> u64 \<Rightarrow> u64 \<Rightarrow> u64 \<Rightarrow> vmem \<Rightarrow> vmem res" where
  "uvm_map me pgdir va sz pa vm =
     map_loop me pgdir (round_down va 4096) (va + sz) (round_down pa 4096) vm"

function dealloc_loop :: "nat \<Rightarrow> u64 \<Rightarrow> u64 \<Rightarrow> u64 \<Rightarrow> vmem \<Rightarrow> vmem res" where
  "dealloc_loop me pgdir a oldsz vm =
     (if a < oldsz then
        bnd (pgdir_walk me pgdir a False vm) (\<lambda>(e, vm).
        let pte = get64 (vm_mem vm) e in
        bnd (if e \<noteq> 0 \<and> pte AND PTE_VALID \<noteq> 0
             then bnd (vkfree me (P2Kw (PTE_ADDRESS pte)) vm) (\<lambda>vm. Inr (upd_mem (put64 e 0) vm))
             else Inr vm) (\<lambda>vm.
        if a + 4096 < a then Inl (Blocked ''loop'') else dealloc_loop me pgdir (a + 4096) oldsz vm))
      else Inr vm)"
  by pat_completeness auto
termination
  by (relation "measure (\<lambda>(me, pgdir, a, oldsz, vm). 2 ^ 64 - unat a)") (auto dest: page_step simp del: not_less)

declare dealloc_loop.simps [simp del]

text \<open>The \<open>int\<close> results are 32 bits wide.\<close>

definition uvm_dealloc :: "nat \<Rightarrow> u64 \<Rightarrow> u64 \<Rightarrow> u64 \<Rightarrow> u64 \<Rightarrow> vmem \<Rightarrow> (u32 \<times> vmem) res" where
  "uvm_dealloc me pgdir base oldsz newsz vm =
     (if newsz \<ge> oldsz \<or> newsz < base then Inr (ucast oldsz, vm)
      else bnd (dealloc_loop me pgdir (round_up newsz 4096) oldsz vm) (\<lambda>vm. Inr (ucast newsz, vm)))"

function alloc_pages_loop :: "nat \<Rightarrow> u64 \<Rightarrow> u64 \<Rightarrow> u64 \<Rightarrow> u64 \<Rightarrow> u64 \<Rightarrow> vmem \<Rightarrow> (u32 \<times> vmem) res" where
  "alloc_pages_loop me pgdir base oldsz newsz a vm =
     (if a < newsz then
        bnd (vkalloc me vm) (\<lambda>(page, vm).
        if page = 0 then bnd (uvm_dealloc me pgdir base (a - 4096) oldsz vm) (\<lambda>(_, vm). Inr (0, vm))
        else bnd (uvm_map me pgdir a 4096 (K2P page) vm) (\<lambda>vm.
          if a + 4096 < a then Inl (Blocked ''loop'')
          else alloc_pages_loop me pgdir base oldsz newsz (a + 4096) vm))
      else Inr (ucast newsz, vm))"
  by pat_completeness auto
termination
  by (relation "measure (\<lambda>(me, pgdir, base, oldsz, newsz, a, vm). 2 ^ 64 - unat a)") (auto dest: page_step simp del: not_less)

declare alloc_pages_loop.simps [simp del]

definition uvm_alloc :: "nat \<Rightarrow> u64 \<Rightarrow> u64 \<Rightarrow> u64 \<Rightarrow> u64 \<Rightarrow> u64 \<Rightarrow> vmem \<Rightarrow> (u32 \<times> vmem) res" where
  "uvm_alloc me pgdir base stksz oldsz newsz vm =
     (if \<not> (stksz < USPACE_TOP \<and> base \<le> oldsz \<and> oldsz \<le> newsz \<and> newsz < USPACE_TOP - stksz)
      then Inl (Panic ''my_uvm_alloc: invalid arguments.'')
      else alloc_pages_loop me pgdir base oldsz newsz (round_up oldsz 4096) vm)"

text \<open>\<open>copyout\<close>: \<open>src = None\<close> is the null pointer (zero fill); \<open>Some bs\<close> the \<open>len\<close> bytes to copy.\<close>

function copyout_loop :: "nat \<Rightarrow> u64 \<Rightarrow> u64 \<Rightarrow> bytes option \<Rightarrow> nat \<Rightarrow> vmem \<Rightarrow> (int \<times> vmem) res" where
  "copyout_loop me pgdir va src len vm =
     (if len = 0 then Inr (0, vm)
      else
        let page_offset = unat va mod 4096 in
        bnd (pgdir_walk me pgdir va True vm) (\<lambda>(e, vm).
        if e = 0 then Inr (-1, vm)
        else
          bnd (if get64 (vm_mem vm) e AND PTE_VALID \<noteq> 0
               then Inr (P2Kw (PTE_ADDRESS (get64 (vm_mem vm) e)), vm)
               else bnd (vkalloc me vm) (\<lambda>(page, vm).
                 Inr (page, if page \<noteq> 0 then upd_mem (put64 e (K2P page OR PTE_USER_DATA)) vm else vm))) (\<lambda>(page, vm).
          if page = 0 then Inr (-1, vm)
          else
            let n = min (4096 - page_offset) len in
            case src of
              Some bs \<Rightarrow> copyout_loop me pgdir (va + of_nat n) (Some (drop n bs)) (len - n)
                           (upd_mem (write_bytes (page + of_nat page_offset) (take n bs)) vm)
            | None \<Rightarrow> copyout_loop me pgdir (va + of_nat n) None (len - n) (upd_mem (mem_zero (page + of_nat page_offset) n) vm))))"
  by pat_completeness auto
termination
proof (relation "measure (\<lambda>(me, pgdir, va, src, len, vm). len)", goal_cases)
  case (2 me pgdir va src len)
  then show ?case using mod_less_divisor [of 4096 "unat va"] by (simp add: min_def)
next
  case (3 me pgdir va src len)
  then show ?case using mod_less_divisor [of 4096 "unat va"] by (simp add: min_def)
qed simp

declare copyout_loop.simps [simp del]

definition copyout :: "nat \<Rightarrow> u64 \<Rightarrow> u64 \<Rightarrow> bytes option \<Rightarrow> nat \<Rightarrow> vmem \<Rightarrow> (int \<times> vmem) res" where
  "copyout me pgdir va src len vm =
     (if va + of_nat len > USPACE_TOP then Inr (-1, vm) else copyout_loop me pgdir va src len vm)"

definition uvm_switch :: "u64 \<Rightarrow> vmem \<Rightarrow> vmem" where
  "uvm_switch pgdir vm = vm\<lparr>vm_ttbr0 := K2P pgdir\<rparr>"

end
