(* ===== verification/Proc.thy ===== *)
theory Proc
  imports FileTable VirtMem Console Arena
begin

text \<open>
  \<open>core/proc.h\<close>, \<open>core/sched.h\<close>, \<open>core/container.h\<close>: the data of processes, schedulers and containers, and the
  process-table operations of \<open>core/sched.c\<close> and \<open>core/container.c\<close>.  A process is named by its container and its
  slot in that container's table; container 0 is the root, and a container is numbered after its parent.
  \<open>kproc\<close>, \<open>kcpu_sched\<close> are \<open>thiscpu()->proc\<close> and \<open>thiscpu()->scheduler\<close> of each CPU.
\<close>

abbreviation (input) NPROC :: nat where "NPROC \<equiv> 14"
abbreviation (input) NOFILE :: nat where "NOFILE \<equiv> 8"
abbreviation (input) NPID :: nat where "NPID \<equiv> 64"
abbreviation (input) NCPU :: nat where "NCPU \<equiv> 4"
abbreviation (input) KSTACKSIZE :: nat where "KSTACKSIZE \<equiv> 4096"

datatype procstate = UNUSED | EMBRYO | SLEEPING | RUNNABLE | RUNNING | ZOMBIE

text \<open>Where a context resumes.\<close>

datatype code = Forkret | Trap_return | Container_entry | In_kernel

record Context =
  lr0 :: code
  lr :: code

record Trapframe =
  spsr :: u64
  elr :: u64
  tsp :: u64
  tpidr :: u64
  xreg :: "u64 list"

type_synonym pptr = "nat \<times> nat"

text \<open>A sleep channel is an address: of a process, or of some other object.\<close>

datatype wchan = Chan_proc pptr | Chan_addr nat

record proc =
  sz :: u64
  pgdir :: u64
  kstack :: u64
  state :: procstate
  pid :: int
  parent :: "pptr option"
  tf :: Trapframe
  pcontext :: Context
  chan :: "wchan option"
  killed :: bool
  pname :: bytes
  pcont :: "nat option"
  is_scheduler :: bool
  ofile :: "nat option list"
  cwd :: "nat option"
  stksz :: u64
  base :: u64

record pid_mapping =
  pm_valid :: bool
  pid_local :: int
  pm_p :: "pptr option"

record container =
  c_p :: "pptr option"
  ptable :: "proc list"
  pt_lock :: SpinLock
  sch_pid :: int
  sch_ctx :: "Context list"
  c_lock :: SpinLock
  c_parent :: nat
  pmap :: "pid_mapping list"

record 'c kernel =
  kfs :: "'c kfs"
  kvm :: vmem
  kcon :: console
  karena :: "MemmoryManagerTable aheap"
  conts :: "nat \<Rightarrow> container"
  ncont :: nat
  kproc :: "nat \<Rightarrow> pptr option"
  kcpu_sched :: "nat \<Rightarrow> nat"
  kstarted :: bool

definition upd_cont :: "nat \<Rightarrow> (container \<Rightarrow> container) \<Rightarrow> 'c kernel \<Rightarrow> 'c kernel" where
  "upd_cont c f k = k\<lparr>conts := (conts k)(c := f (conts k c))\<rparr>"

definition proc_of :: "'c kernel \<Rightarrow> pptr \<Rightarrow> proc" where
  "proc_of k p = ptable (conts k (fst p)) ! snd p"

definition upd_proc :: "pptr \<Rightarrow> (proc \<Rightarrow> proc) \<Rightarrow> 'c kernel \<Rightarrow> 'c kernel" where
  "upd_proc p f k = upd_cont (fst p) (\<lambda>c. c\<lparr>ptable := (ptable c)[snd p := f (ptable c ! snd p)]\<rparr>) k"

text \<open>\<open>thiscpu()->proc\<close>, dereferenced.\<close>

definition this_proc :: "nat \<Rightarrow> 'c kernel \<Rightarrow> pptr res" where
  "this_proc me k = (case kproc k me of None \<Rightarrow> Inl (Fault ''proc'') | Some p \<Rightarrow> Inr p)"

definition kvcall :: "(vmem \<Rightarrow> ('a \<times> vmem) res) \<Rightarrow> 'c kernel \<Rightarrow> ('a \<times> 'c kernel) res" where
  "kvcall f k = bnd (f (kvm k)) (\<lambda>(x, vm). Inr (x, k\<lparr>kvm := vm\<rparr>))"

definition kvcallu :: "(vmem \<Rightarrow> vmem res) \<Rightarrow> 'c kernel \<Rightarrow> 'c kernel res" where
  "kvcallu f k = bnd (f (kvm k)) (\<lambda>vm. Inr (k\<lparr>kvm := vm\<rparr>))"

definition kfcall :: "('c kfs \<Rightarrow> ('a \<times> 'c kfs) res) \<Rightarrow> 'c kernel \<Rightarrow> ('a \<times> 'c kernel) res" where
  "kfcall f k = bnd (f (kfs k)) (\<lambda>(x, s). Inr (x, k\<lparr>kfs := s\<rparr>))"

definition kfcallu :: "('c kfs \<Rightarrow> 'c kfs res) \<Rightarrow> 'c kernel \<Rightarrow> 'c kernel res" where
  "kfcallu f k = bnd (f (kfs k)) (\<lambda>s. Inr (k\<lparr>kfs := s\<rparr>))"

definition kprintf :: "nat \<Rightarrow> string \<Rightarrow> farg list \<Rightarrow> 'c kernel \<Rightarrow> 'c kernel res" where
  "kprintf me fmt arg k = bnd (printf me fmt arg (kcon k)) (\<lambda>s. Inr (k\<lparr>kcon := s\<rparr>))"

section \<open>The process table\<close>

definition acquire_ptable_lock :: "nat \<Rightarrow> nat \<Rightarrow> 'c kernel \<Rightarrow> 'c kernel res" where
  "acquire_ptable_lock me c k = bnd (acquire_spinlock me (pt_lock (conts k c))) (\<lambda>l. Inr (upd_cont c (\<lambda>x. x\<lparr>pt_lock := l\<rparr>) k))"

definition release_ptable_lock :: "nat \<Rightarrow> nat \<Rightarrow> 'c kernel \<Rightarrow> 'c kernel res" where
  "release_ptable_lock me c k = bnd (release_spinlock me (pt_lock (conts k c))) (\<lambda>l. Inr (upd_cont c (\<lambda>x. x\<lparr>pt_lock := l\<rparr>) k))"

definition acquire_sched_lock :: "nat \<Rightarrow> 'c kernel \<Rightarrow> 'c kernel res" where
  "acquire_sched_lock me k = acquire_ptable_lock me (kcpu_sched k me) k"

definition release_sched_lock :: "nat \<Rightarrow> 'c kernel \<Rightarrow> 'c kernel res" where
  "release_sched_lock me k = release_ptable_lock me (kcpu_sched k me) k"

text \<open>\<open>alloc_resource\<close>: the container's own numbering, then its ancestors'.  A full table returns with the
  container's lock still held; \<open>pmap[pid]\<close> is an access out of bounds when \<open>pid\<close> reaches \<open>NPID\<close>.  Only the \<open>PID\<close>
  resource does anything.\<close>

datatype resource = MEMORY | PID | INODE

function alloc_resource :: "nat \<Rightarrow> nat \<Rightarrow> pptr \<Rightarrow> resource \<Rightarrow> 'c kernel \<Rightarrow> (int \<times> 'c kernel) res" where
  "alloc_resource me this p r k =
     bnd (acquire_spinlock me (c_lock (conts k this))) (\<lambda>l.
     let k = upd_cont this (\<lambda>c. c\<lparr>c_lock := l\<rparr>) k in
     if r = PID \<and> sch_pid (conts k this) = int NPID then Inr (-1, k)
     else
       bnd (if r = PID then
              let n = sch_pid (conts k this) + 1 in
              if 0 \<le> n \<and> nat n < length (pmap (conts k this))
              then Inr (upd_cont this (\<lambda>c. c\<lparr>sch_pid := n, pmap := (pmap c)[nat n := \<lparr>pm_valid = True, pid_local = n, pm_p = Some p\<rparr>]\<rparr>) k)
              else Inl (Fault ''pmap'')
            else Inr k) (\<lambda>k.
       bnd (release_spinlock me (c_lock (conts k this))) (\<lambda>l.
       let k = upd_cont this (\<lambda>c. c\<lparr>c_lock := l\<rparr>) k in
       if this = 0 then Inr (0, k)
       else if c_parent (conts k this) < this
         then bnd (alloc_resource me (c_parent (conts k this)) p r k) (\<lambda>(_, k). Inr (0, k))
         else Inl (Blocked ''loop''))))"
  by pat_completeness auto
termination
  by (relation "measure (\<lambda>(me, this, p, r, k). this)") auto

declare alloc_resource.simps [simp del]

fun free_slot :: "proc list \<Rightarrow> nat \<Rightarrow> nat option" where
  "free_slot [] i = None"
| "free_slot (p # ps) i = (if state p = UNUSED then Some i else free_slot ps (Suc i))"

definition alloc_pcb_simple :: "nat \<Rightarrow> nat \<Rightarrow> 'c kernel \<Rightarrow> (pptr option \<times> 'c kernel) res" where
  "alloc_pcb_simple me this k =
     bnd (acquire_ptable_lock me this k) (\<lambda>k.
     case free_slot (ptable (conts k this)) 0 of
       None \<Rightarrow> bnd (release_ptable_lock me this k) (\<lambda>k. Inr (None, k))
     | Some i \<Rightarrow>
         bnd (alloc_resource me this (this, i) PID k) (\<lambda>(_, k).
         let k = upd_proc (this, i) (\<lambda>p. p\<lparr>pid := sch_pid (conts k this), state := EMBRYO\<rparr>) k in
         bnd (release_ptable_lock me this k) (\<lambda>k. Inr (Some (this, i), k))))"

definition alloc_pcb :: "nat \<Rightarrow> 'c kernel \<Rightarrow> (pptr option \<times> 'c kernel) res" where
  "alloc_pcb me k = alloc_pcb_simple me (kcpu_sched k me) k"

section \<open>Switching\<close>

text \<open>\<open>sched\<close> up to \<open>swtch\<close>: the two checks.  The caller resumes after it when the scheduler picks the process again.\<close>

definition sched_simple :: "nat \<Rightarrow> nat \<Rightarrow> 'c kernel \<Rightarrow> 'c kernel res" where
  "sched_simple me this k =
     (if \<not> holding_spinlock me (pt_lock (conts k this)) then Inl (Panic ''sched: not holding ptable lock'')
      else bnd (this_proc me k) (\<lambda>p.
        if state (proc_of k p) = RUNNING then Inl (Panic ''sched: process running'')
        else Inr (upd_proc p (\<lambda>x. x\<lparr>pcontext := \<lparr>lr0 = In_kernel, lr = In_kernel\<rparr>\<rparr>) k)))"

definition sched :: "nat \<Rightarrow> 'c kernel \<Rightarrow> 'c kernel res" where
  "sched me k = sched_simple me (kcpu_sched k me) k"

text \<open>\<open>yield\<close> and \<open>sleep\<close>, before and after \<open>sched\<close>.\<close>

definition yield_enter :: "nat \<Rightarrow> 'c kernel \<Rightarrow> 'c kernel res" where
  "yield_enter me k =
     bnd (acquire_sched_lock me k) (\<lambda>k.
     bnd (this_proc me k) (\<lambda>p.
     sched me (upd_proc p (\<lambda>x. x\<lparr>state := RUNNABLE\<rparr>) k)))"

definition yield_resume :: "nat \<Rightarrow> 'c kernel \<Rightarrow> 'c kernel res" where
  "yield_resume me k = release_sched_lock me k"

text \<open>The lock given to \<open>sleep\<close>: the process table's own, or another one, of which the caller passes the state.\<close>

definition sleep_enter :: "nat \<Rightarrow> wchan \<Rightarrow> SpinLock option \<Rightarrow> 'c kernel \<Rightarrow> (SpinLock option \<times> 'c kernel) res" where
  "sleep_enter me ch lock k =
     (case lock of
        None \<Rightarrow>
          if \<not> holding_spinlock me (pt_lock (conts k (kcpu_sched k me))) then Inl (Panic ''sleep: lock not held'')
          else bnd (this_proc me k) (\<lambda>p.
            bnd (sched me (upd_proc p (\<lambda>x. x\<lparr>chan := Some ch, state := SLEEPING\<rparr>) k)) (\<lambda>k. Inr (None, k)))
      | Some l \<Rightarrow>
          if \<not> holding_spinlock me l then Inl (Panic ''sleep: lock not held'')
          else
            bnd (acquire_sched_lock me k) (\<lambda>k.
            bnd (release_spinlock me l) (\<lambda>l.
            bnd (this_proc me k) (\<lambda>p.
            bnd (sched me (upd_proc p (\<lambda>x. x\<lparr>chan := Some ch, state := SLEEPING\<rparr>) k)) (\<lambda>k. Inr (Some l, k))))))"

definition sleep_resume :: "nat \<Rightarrow> SpinLock option \<Rightarrow> 'c kernel \<Rightarrow> (SpinLock option \<times> 'c kernel) res" where
  "sleep_resume me lock k =
     bnd (this_proc me k) (\<lambda>p.
     let k = upd_proc p (\<lambda>x. x\<lparr>chan := None\<rparr>) k in
     case lock of
       None \<Rightarrow> Inr (None, k)
     | Some l \<Rightarrow> bnd (release_sched_lock me k) (\<lambda>k. bnd (acquire_spinlock me l) (\<lambda>l. Inr (Some l, k))))"

definition wake_proc :: "wchan option \<Rightarrow> proc \<Rightarrow> proc" where
  "wake_proc ch p = (if state p = SLEEPING \<and> chan p = ch then p\<lparr>state := RUNNABLE\<rparr> else p)"

definition wakeup_withlock :: "nat \<Rightarrow> wchan option \<Rightarrow> 'c kernel \<Rightarrow> 'c kernel" where
  "wakeup_withlock me ch k = upd_cont (kcpu_sched k me) (\<lambda>c. c\<lparr>ptable := map (wake_proc ch) (ptable c)\<rparr>) k"

definition wakeup :: "nat \<Rightarrow> wchan option \<Rightarrow> 'c kernel \<Rightarrow> 'c kernel res" where
  "wakeup me ch k =
     bnd (acquire_sched_lock me k) (\<lambda>k. release_sched_lock me (wakeup_withlock me ch k))"

end
