(* ===== verification/Process.thy ===== *)
theory Process
  imports Proc
begin

text \<open>
  \<open>core/proc.c\<close>, the scheduler loop of \<open>core/sched.c\<close> and \<open>core/container.c\<close>: creating processes and containers,
  \<open>fork\<close>, \<open>exit\<close>, \<open>wait\<close>, \<open>growproc\<close>, and one round of the scheduler.  A function that switches away is given by the
  state in which it calls \<open>swtch\<close>.
\<close>

definition zero_tf :: Trapframe where
  "zero_tf = \<lparr>spsr = 0, elr = 0, tsp = 0, tpidr = 0, xreg = replicate 31 0\<rparr>"

abbreviation (input) SIZEOF_TF :: u64 where "SIZEOF_TF \<equiv> 304"
abbreviation (input) SIZEOF_CONTEXT :: u64 where "SIZEOF_CONTEXT \<equiv> 112"

definition alloc_proc :: "nat \<Rightarrow> 'c kernel \<Rightarrow> (pptr \<times> 'c kernel) res" where
  "alloc_proc me k =
     bnd (alloc_pcb me k) (\<lambda>(r, k).
     case r of
       None \<Rightarrow> Inl (Panic ''no free pcbs'')
     | Some p \<Rightarrow>
         bnd (kvcall (pgdir_init me) k) (\<lambda>(d, k).
         let k = upd_proc p (\<lambda>x. x\<lparr>pgdir := d\<rparr>) k in
         bnd (kvcall (vkalloc me) k) (\<lambda>(sp, k).
         if sp = 0 then Inl (Panic ''proc_alloc: cannot alloc kstack'')
         else Inr (p, upd_proc p (\<lambda>x. x\<lparr>kstack := sp, tf := zero_tf, pcontext := \<lparr>lr0 = Forkret, lr = Trap_return\<rparr>\<rparr>)
                (k\<lparr>kvm := upd_mem (mem_zero (sp + of_nat KSTACKSIZE - SIZEOF_TF - SIZEOF_CONTEXT) (304 + 112)) (kvm k)\<rparr>)))))"

text \<open>The common part of \<open>spawn_init_process\<close>, \<open>idle_init\<close> and \<open>add_loop_test\<close>: one page of code at address 0.  \<open>img\<close> is
  the assembled code between the two linker symbols.\<close>

definition load_image :: "nat \<Rightarrow> bytes \<Rightarrow> bool \<Rightarrow> 'c kernel \<Rightarrow> 'c kernel res" where
  "load_image me img set_sz k =
     bnd (alloc_proc me k) (\<lambda>(p, k).
     bnd (kvcall (vkalloc me) k) (\<lambda>(r, k).
     if r = 0 then Inl (Panic ''uvm_init: cannot alloc a page'')
     else
       let k = k\<lparr>kvm := upd_mem (mem_zero r PAGE_SIZE) (kvm k)\<rparr> in
       bnd (kvcallu (uvm_map me (pgdir (proc_of k p)) 0 4096 (K2P r)) k) (\<lambda>k.
       let k = k\<lparr>kvm := upd_mem (write_bytes r img) (kvm k)\<rparr>;
           k = upd_proc p (\<lambda>x. x\<lparr>tf := zero_tf\<lparr>tsp := 4096\<rparr>\<rparr>) k;
           k = (if set_sz then upd_proc p (\<lambda>x. x\<lparr>sz := 4096\<rparr>) k else k) in
       Inr (upd_proc p (\<lambda>x. x\<lparr>state := RUNNABLE\<rparr>) k))))"

definition spawn_init_process :: "nat \<Rightarrow> bytes \<Rightarrow> 'c kernel \<Rightarrow> 'c kernel res" where
  "spawn_init_process me icode k = load_image me icode True k"

definition idle_init :: "nat \<Rightarrow> bytes \<Rightarrow> 'c kernel \<Rightarrow> 'c kernel res" where
  "idle_init me ispin k = load_image me ispin True k"

primrec add_loop_test :: "nat \<Rightarrow> nat \<Rightarrow> bytes \<Rightarrow> 'c kernel \<Rightarrow> 'c kernel res" where
  "add_loop_test 0 me img k = Inr k"
| "add_loop_test (Suc n) me img k = bnd (load_image me img False k) (add_loop_test n me img)"

text \<open>\<open>forkret\<close>: the first process to get here starts the file system (\<open>init\<close>, \<open>fs/fs.c\<close>) and takes \<open>/\<close> as its directory.\<close>

definition forkret :: "'c BlockCache \<Rightarrow> 'c console_in \<Rightarrow> nat \<Rightarrow> nat \<Rightarrow> bytes \<Rightarrow> ('c kfs \<Rightarrow> 'c kfs res) \<Rightarrow> 'c kernel \<Rightarrow> 'c kernel res" where
  "forkret cache con me ctx buf init k =
     bnd (release_sched_lock me k) (\<lambda>k.
     let old = kstarted k; k = k\<lparr>kstarted := True\<rparr> in
     if \<not> old then
       bnd (kfcallu init k) (\<lambda>k.
       bnd (kfcallu (k_begin_op cache ctx) k) (\<lambda>k.
       bnd (this_proc me k) (\<lambda>p.
       bnd (kfcall (itcall (namei cache con me buf (case cwd (proc_of k p) of Some d \<Rightarrow> d | None \<Rightarrow> 0) [47] (replicate 14 0) ctx)) k) (\<lambda>(ip, k).
       kfcallu (k_end_op cache ctx) (upd_proc p (\<lambda>x. x\<lparr>cwd := ip\<rparr>) k)))))
     else Inr k)"

section \<open>Exit and wait\<close>

definition close_fd :: "'c BlockCache \<Rightarrow> nat \<Rightarrow> nat \<Rightarrow> pptr \<Rightarrow> nat \<Rightarrow> 'c kernel \<Rightarrow> 'c kernel res" where
  "close_fd cache me ctx p fd k =
     (case ofile (proc_of k p) ! fd of
        None \<Rightarrow> Inr k
      | Some f \<Rightarrow> bnd (kfcallu (fileclose cache me ctx f) k) (\<lambda>k.
          Inr (upd_proc p (\<lambda>x. x\<lparr>ofile := (ofile x)[fd := None]\<rparr>) k)))"

definition wake_parent :: "nat \<Rightarrow> pptr \<Rightarrow> nat \<Rightarrow> 'c kernel \<Rightarrow> 'c kernel" where
  "wake_parent me cur i k =
     (let q = ptable (conts k (kcpu_sched k me)) ! i in
      if parent q = Some cur \<and> state q = ZOMBIE then wakeup_withlock me (map_option Chan_proc (parent q)) k else k)"

definition exit_enter :: "'c BlockCache \<Rightarrow> nat \<Rightarrow> nat \<Rightarrow> 'c kernel \<Rightarrow> 'c kernel res" where
  "exit_enter cache me ctx k =
     bnd (this_proc me k) (\<lambda>p.
     bnd (for_each (close_fd cache me ctx p) [0..<NOFILE] k) (\<lambda>k.
     bnd (kfcallu (k_begin_op cache ctx) k) (\<lambda>k.
     bnd (case cwd (proc_of k p) of
            None \<Rightarrow> Inl (Fault ''cwd'')
          | Some d \<Rightarrow> kfcallu (itcallu (inode_put cache me (Some ctx) d)) k) (\<lambda>k.
     bnd (kfcallu (k_end_op cache ctx) k) (\<lambda>k.
     let k = upd_proc p (\<lambda>x. x\<lparr>cwd := None\<rparr>) k in
     bnd (acquire_sched_lock me k) (\<lambda>k.
     let k = wakeup_withlock me (map_option Chan_proc (parent (proc_of k p))) k;
         k = fold (wake_parent me p) [0..<NPROC] k in
     sched me (upd_proc p (\<lambda>x. x\<lparr>state := ZOMBIE\<rparr>) k)))))))"

text \<open>One pass of \<open>wait\<close> over the table, from slot \<open>i\<close>: the first zombie child, and whether there are children.\<close>

fun scan_children :: "pptr \<Rightarrow> proc list \<Rightarrow> nat \<Rightarrow> bool \<Rightarrow> nat option \<times> bool" where
  "scan_children cur [] i kids = (None, kids)"
| "scan_children cur (q # qs) i kids =
     (if parent q \<noteq> Some cur then scan_children cur qs (Suc i) kids
      else if state q = ZOMBIE then (Some i, True)
      else scan_children cur qs (Suc i) True)"

datatype wait_result = Reaped int | No_child | Asleep

text \<open>\<open>wait\<close> with the table locked: reap, fail, or sleep on the own process; woken, the same pass runs again.\<close>

definition wait_pass :: "nat \<Rightarrow> 'c kernel \<Rightarrow> (wait_result \<times> 'c kernel) res" where
  "wait_pass me k =
     bnd (this_proc me k) (\<lambda>cur.
     let c = kcpu_sched k me in
     case scan_children cur (ptable (conts k c)) 0 False of
       (Some i, _) \<Rightarrow>
         let q = proc_of k (c, i);
             k = upd_proc (c, i) (\<lambda>x. x\<lparr>killed := False, state := UNUSED, pid := 0, parent := None\<rparr>) k in
         bnd (kvcallu (vm_free me (pgdir q)) k) (\<lambda>k.
         bnd (kvcallu (vkfree me (kstack q)) k) (\<lambda>k.
         bnd (release_sched_lock me k) (\<lambda>k. Inr (Reaped (pid q), k))))
     | (None, kids) \<Rightarrow>
         if \<not> kids \<or> killed (proc_of k cur) then bnd (release_sched_lock me k) (\<lambda>k. Inr (No_child, k))
         else bnd (sleep_enter me (Chan_proc cur) None k) (\<lambda>(_, k). Inr (Asleep, k)))"

definition wait_enter :: "nat \<Rightarrow> 'c kernel \<Rightarrow> (wait_result \<times> 'c kernel) res" where
  "wait_enter me k = bnd (acquire_sched_lock me k) (wait_pass me)"

definition wait_resume :: "nat \<Rightarrow> 'c kernel \<Rightarrow> (wait_result \<times> 'c kernel) res" where
  "wait_resume me k = bnd (sleep_resume me None k) (\<lambda>(_, k). wait_pass me k)"

section \<open>Fork and memory\<close>

definition growproc :: "nat \<Rightarrow> int \<Rightarrow> 'c kernel \<Rightarrow> (int \<times> 'c kernel) res" where
  "growproc me n k =
     bnd (this_proc me k) (\<lambda>p.
     let s = (ucast (sz (proc_of k p)) :: u32); d = pgdir (proc_of k p); m = (ucast (s + word_of_int n) :: u64) in
     bnd (if n > 0 then kvcall (uvm_alloc me d 0 0 (ucast s) m) k
          else if n < 0 then kvcall (uvm_dealloc me d 0 (ucast s) m) k
          else Inr (s, k)) (\<lambda>(s', k).
     if n \<noteq> 0 \<and> s' = 0 then Inr (-1, k)
     else Inr (0, (upd_proc p (\<lambda>x. x\<lparr>sz := ucast s'\<rparr>) k)\<lparr>kvm := uvm_switch d (kvm k)\<rparr>)))"

definition dup_fd :: "nat \<Rightarrow> pptr \<Rightarrow> pptr \<Rightarrow> nat \<Rightarrow> 'c kernel \<Rightarrow> 'c kernel res" where
  "dup_fd me cur p i k =
     (case ofile (proc_of k cur) ! i of
        None \<Rightarrow> Inr k
      | Some f \<Rightarrow> bnd (kfcall (filedup me f) k) (\<lambda>(f, k). Inr (upd_proc p (\<lambda>x. x\<lparr>ofile := (ofile x)[i := Some f]\<rparr>) k)))"

definition fork :: "nat \<Rightarrow> 'c kernel \<Rightarrow> (int \<times> 'c kernel) res" where
  "fork me k =
     bnd (alloc_proc me k) (\<lambda>(p, k).
     bnd (this_proc me k) (\<lambda>cur.
     bnd (kvcall (uvm_copy me (pgdir (proc_of k cur))) k) (\<lambda>(d, k).
     let k = upd_proc p (\<lambda>x. x\<lparr>pgdir := d\<rparr>) k in
     if d = 0 then
       bnd (kvcallu (vkfree me (kstack (proc_of k p))) k) (\<lambda>k.
       Inr (-1, upd_proc p (\<lambda>x. x\<lparr>kstack := 0, state := UNUSED\<rparr>) k))
     else
       let k = upd_proc p (\<lambda>x. x\<lparr>sz := sz (proc_of k cur), tf := (tf (proc_of k cur))\<lparr>xreg := (xreg (tf (proc_of k cur)))[0 := 0]\<rparr>,
                 parent := Some cur\<rparr>) k in
       bnd (for_each (dup_fd me cur p) [0..<NOFILE] k) (\<lambda>k.
       bnd (case cwd (proc_of k cur) of
              None \<Rightarrow> Inl (Fault ''cwd'')
            | Some w \<Rightarrow> kfcall (itcall (inode_share me w)) k) (\<lambda>(w, k).
       let k = upd_proc p (\<lambda>x. x\<lparr>cwd := Some w, state := RUNNABLE\<rparr>) k in
       Inr (pid (proc_of k p), k))))))"

section \<open>The scheduler\<close>

text \<open>The body of the loop of \<open>scheduler_simple\<close> for slot \<open>i\<close>, up to \<open>swtch\<close> into the process.\<close>

definition run_slot :: "nat \<Rightarrow> nat \<Rightarrow> nat \<Rightarrow> 'c kernel \<Rightarrow> 'c kernel res" where
  "run_slot me this i k =
     (if state (proc_of k (this, i)) = RUNNABLE then
        let k = k\<lparr>kvm := uvm_switch (pgdir (proc_of k (this, i))) (kvm k), kproc := (kproc k)(me := Some (this, i))\<rparr>;
            k = upd_proc (this, i) (\<lambda>x. x\<lparr>state := RUNNING\<rparr>) k in
        bnd (chk (this = kcpu_sched k me) ''this == thiscpu()->scheduler'') (\<lambda>_. Inr k)
      else Inr k)"

text \<open>And what the scheduler does when the process has switched back to it, before \<open>yield_scheduler\<close>.\<close>

definition back_in_scheduler :: "nat \<Rightarrow> nat \<Rightarrow> 'c kernel \<Rightarrow> 'c kernel res" where
  "back_in_scheduler me this k =
     (let k = k\<lparr>kproc := (kproc k)(me := c_p (conts k this)), kcpu_sched := (kcpu_sched k)(me := this)\<rparr> in
      bnd (chk (holding_spinlock me (pt_lock (conts k this))) ''holding_spinlock(&this->ptable.lock)'') (\<lambda>_. Inr k))"

text \<open>\<open>yield_scheduler\<close>: a container's scheduler gives the CPU back to its parent's.\<close>

definition yield_scheduler_enter :: "nat \<Rightarrow> nat \<Rightarrow> 'c kernel \<Rightarrow> 'c kernel res" where
  "yield_scheduler_enter me this k =
     (if this = 0 then Inr k
      else
        let up = c_parent (conts k this) in
        bnd (acquire_ptable_lock me up k) (\<lambda>k.
        bnd (this_proc me k) (\<lambda>p.
        let k = (upd_proc p (\<lambda>x. x\<lparr>state := RUNNABLE\<rparr>) k) in
        let k = k\<lparr>kcpu_sched := (kcpu_sched k)(me := up)\<rparr> in
        bnd (chk (holding_spinlock me (pt_lock (conts k this))) ''holding_spinlock(&this->ptable.lock)'') (\<lambda>_.
        bnd (release_ptable_lock me this k) (sched_simple me up)))))"

definition yield_scheduler_resume :: "nat \<Rightarrow> nat \<Rightarrow> 'c kernel \<Rightarrow> 'c kernel res" where
  "yield_scheduler_resume me this k =
     (if this = 0 then Inr k
      else
        bnd (acquire_ptable_lock me this k) (\<lambda>k.
        bnd (release_ptable_lock me (c_parent (conts k this)) k) (\<lambda>k.
        Inr (k\<lparr>kcpu_sched := (kcpu_sched k)(me := this)\<rparr>))))"

section \<open>Containers\<close>

definition zero_proc :: proc where
  "zero_proc = \<lparr>sz = 0, pgdir = 0, kstack = 0, state = UNUSED, pid = 0, parent = None, tf = zero_tf,
     pcontext = \<lparr>lr0 = In_kernel, lr = In_kernel\<rparr>, chan = None, killed = False, pname = replicate 16 0, pcont = None, is_scheduler = False,
     ofile = replicate NOFILE None, cwd = None, stksz = 0, base = 0\<rparr>"

definition zero_container :: container where
  "zero_container = \<lparr>c_p = None, ptable = replicate NPROC zero_proc, pt_lock = \<lparr>locked = False, lcpu = None, lname = []\<rparr>, sch_pid = 0,
     sch_ctx = replicate NCPU \<lparr>lr0 = In_kernel, lr = In_kernel\<rparr>, c_lock = \<lparr>locked = False, lcpu = None, lname = []\<rparr>, c_parent = 0,
     pmap = replicate NPID \<lparr>pm_valid = False, pid_local = 0, pm_p = None\<rparr>\<rparr>"

text \<open>The arena of containers shares the page allocator with the page tables; \<open>CONT_ARENA\<close> is its address.\<close>

abbreviation (input) CONT_ARENA :: addr where "CONT_ARENA \<equiv> 1"
abbreviation (input) SIZEOF_CONTAINER :: nat where "SIZEOF_CONTAINER \<equiv> 3840"

definition with_arena :: "(MemmoryManagerTable aheap \<Rightarrow> ('a \<times> MemmoryManagerTable aheap) res) \<Rightarrow> 'c kernel \<Rightarrow> ('a \<times> 'c kernel) res" where
  "with_arena f k =
     bnd (f ((karena k)\<lparr>kern := vm_mm (kvm k)\<rparr>)) (\<lambda>(x, h). Inr (x, k\<lparr>karena := h, kvm := (kvm k)\<lparr>vm_mm := kern h\<rparr>\<rparr>))"

definition sched_stack :: "nat \<Rightarrow> nat \<Rightarrow> nat \<Rightarrow> 'c kernel \<Rightarrow> 'c kernel res" where
  "sched_stack me c i k =
     bnd (kvcall (vkalloc me) k) (\<lambda>(sp, k).
     if sp = 0 then Inl (Panic ''cont_alloc: cannot alloc kstack'')
     else Inr (upd_cont c (\<lambda>x. x\<lparr>sch_ctx := (sch_ctx x)[i := \<lparr>lr0 = Container_entry, lr = In_kernel\<rparr>]\<rparr>)
            (k\<lparr>kvm := upd_mem (mem_zero (sp + of_nat KSTACKSIZE - SIZEOF_CONTEXT) 112) (kvm k)\<rparr>)))"

definition alloc_container :: "nat \<Rightarrow> bool \<Rightarrow> 'c kernel \<Rightarrow> (nat option \<times> 'c kernel) res" where
  "alloc_container me root k =
     bnd (with_arena (alloc_object me CONT_ARENA) k) (\<lambda>(a, k).
     if a = 0 then Inr (None, k)
     else
       let c = ncont k;
           k = k\<lparr>ncont := Suc c, conts := (conts k)(c := zero_container)\<rparr> in
       if root then Inr (Some c, k)
       else
         bnd (alloc_pcb me k) (\<lambda>(r, k).
         case r of
           None \<Rightarrow> Inr (Some c, k)
         | Some p \<Rightarrow>
             bnd (kvcall (pgdir_init me) k) (\<lambda>(d, k).
             let k = upd_proc p (\<lambda>x. x\<lparr>pgdir := d\<rparr>) k in
             bnd (for_each (sched_stack me c) [0..<NCPU] k) (\<lambda>k.
             let k = upd_cont c (\<lambda>x. x\<lparr>c_p := Some p\<rparr>) k in
             Inr (Some c, upd_proc p (\<lambda>x. x\<lparr>pcont := Some c, is_scheduler := True, state := RUNNABLE\<rparr>) k)))))"

definition init_container :: "nat \<Rightarrow> 'c kernel \<Rightarrow> 'c kernel res" where
  "init_container me k =
     bnd (with_arena (\<lambda>h. bnd (init_arena CONT_ARENA SIZEOF_CONTAINER kalloc kfree h) (\<lambda>h. Inr ((), h))) k) (\<lambda>(_, k).
     bnd (alloc_container me True k) (\<lambda>(r, k).
     case r of
       None \<Rightarrow> Inl (Fault ''root_container'')
     | Some c \<Rightarrow> Inr (upd_cont c (\<lambda>x. x\<lparr>c_parent := c, c_lock := init_spinlock (c_lock x) ''root container'',
           pt_lock := init_spinlock (pt_lock x) ''root scheduler'', c_p := None\<rparr>) k)))"

definition spawn_container :: "nat \<Rightarrow> nat \<Rightarrow> 'c kernel \<Rightarrow> (nat option \<times> 'c kernel) res" where
  "spawn_container me this k =
     bnd (alloc_container me False k) (\<lambda>(r, k).
     case r of
       None \<Rightarrow> Inr (None, k)
     | Some c \<Rightarrow> Inr (Some c, upd_cont c (\<lambda>x. x\<lparr>c_parent := this, c_lock := init_spinlock (c_lock x) ''cont lock'',
           pt_lock := init_spinlock (pt_lock x) ''p1 lock''\<rparr>) k))"

text \<open>\<open>container_entry\<close> before it enters the scheduler; \<open>test\<close> is \<open>do_cont_test\<close>, \<open>img\<close> the code of the loop test.\<close>

definition container_entry :: "nat \<Rightarrow> bool \<Rightarrow> bytes \<Rightarrow> 'c kernel \<Rightarrow> 'c kernel res" where
  "container_entry me test img k =
     bnd (release_sched_lock me k) (\<lambda>k.
     bnd (this_proc me k) (\<lambda>p.
     case pcont (proc_of k p) of
       None \<Rightarrow> Inl (Fault ''cont'')
     | Some c \<Rightarrow>
         let k = k\<lparr>kcpu_sched := (kcpu_sched k)(me := c)\<rparr> in
         if test then add_loop_test 8 me img k else Inr k))"

end
