(* ===== verification/SchedSpec.thy ===== *)
theory SchedSpec
  imports Process
begin

text \<open>
  The scheduler of \<open>core/sched.c\<close> on any number of CPUs.  \<open>sc_step\<close> runs the operations of \<open>Proc\<close> and \<open>Process\<close> on
  the process table of the root container in any order, one CPU at a time at the granularity of the table lock;
  each CPU is in its scheduler (\<open>Idle\<close>, or \<open>Scanning\<close> with the table locked) or in a process (\<open>Running\<close>, or
  \<open>Locked\<close> while the process holds the table lock).  The invariant is stated on \<open>sview\<close>, what the scheduler sees of
  the kernel state, and proved once for the five moves that all operations are made of.
\<close>

section \<open>What the scheduler sees\<close>

datatype cpu_pc = Idle | Scanning | Locked | Running

record sview =
  v_lock :: SpinLock
  v_cur :: "nat \<Rightarrow> pptr option"
  v_tab :: "procstate list"
  v_sched :: "nat \<Rightarrow> nat"
  v_cp :: "pptr option"

definition sview :: "'c kernel \<Rightarrow> sview" where
  "sview k = \<lparr>v_lock = pt_lock (conts k 0), v_cur = kproc k, v_tab = map state (ptable (conts k 0)),
     v_sched = kcpu_sched k, v_cp = c_p (conts k 0)\<rparr>"

definition holds :: "cpu_pc \<Rightarrow> bool" where
  "holds pc \<longleftrightarrow> pc = Scanning \<or> pc = Locked"


definition lock_inv :: "(nat \<Rightarrow> cpu_pc) \<Rightarrow> SpinLock \<Rightarrow> bool" where
  "lock_inv pcf l \<longleftrightarrow> (if locked l then \<exists>me. lcpu l = Some me \<and> (\<forall>i. holds (pcf i) \<longleftrightarrow> i = me) else lcpu l = None \<and> (\<forall>i. \<not> holds (pcf i)))"



section \<open>The five moves\<close>





lemma lock_inv_holder: "\<lbrakk>lock_inv pcf l; holds (pcf me)\<rbrakk> \<Longrightarrow> holding_spinlock me l"
  by (auto simp: lock_inv_def holding_spinlock_def split: if_splits)






text \<open>A change of the table that starts or stops no process.\<close>

definition quiet_tab :: "procstate list \<Rightarrow> procstate list \<Rightarrow> bool" where
  "quiet_tab tab tab' \<longleftrightarrow> length tab' = length tab \<and> (\<forall>i<length tab. tab' ! i = RUNNING \<longleftrightarrow> tab ! i = RUNNING)"


lemma quiet_tab_refl [simp]: "quiet_tab t t"
  by (simp add: quiet_tab_def)



section \<open>The operations on the view\<close>

named_theorems sv \<open>the scheduler's view of updated kernel states\<close>


lemma sview_upd_cont0 [sv]:
  "sview (upd_cont 0 (\<lambda>c. c\<lparr>pt_lock := l\<rparr>) k) = (sview k)\<lparr>v_lock := l\<rparr>"
  "sview (upd_cont 0 (\<lambda>c. c\<lparr>c_lock := l\<rparr>) k) = sview k"
  "sview (upd_cont 0 (\<lambda>c. c\<lparr>sch_pid := n, pmap := g c\<rparr>) k) = sview k"
  by (simp_all add: sview_def upd_cont_def)



















text \<open>Operations that neither start nor stop a process.\<close>

definition quiet :: "sview \<Rightarrow> sview \<Rightarrow> bool" where
  "quiet v v' \<longleftrightarrow> v' = v\<lparr>v_tab := v_tab v'\<rparr> \<and> quiet_tab (v_tab v) (v_tab v')"

lemma quiet_refl [simp]: "quiet v v"
  by (simp add: quiet_def)




lemma sview_sel [simp]:
  "v_cur (sview k) = kproc k" "v_sched (sview k) = kcpu_sched k" "v_lock (sview k) = pt_lock (conts k 0)"
  "v_tab (sview k) = map state (ptable (conts k 0))" "v_cp (sview k) = c_p (conts k 0)"
  by (simp_all add: sview_def)
























section \<open>Creating processes\<close>











section \<open>All CPUs\<close>

type_synonym 'c smp = "(nat \<Rightarrow> cpu_pc) \<times> 'c kernel"

text \<open>One CPU at a time.  A process in the kernel calls \<open>yield\<close>, \<open>sleep\<close>, \<open>wait\<close>, \<open>exit\<close>, \<open>wakeup\<close> or \<open>fork\<close>, or does something
  the scheduler does not see (\<open>sc_other\<close>: the other system calls, page tables, files, user code).  A process that
  was switched to goes on where it was: in \<open>forkret\<close>, \<open>yield\<close>, \<open>sleep\<close> or \<open>wait\<close>.\<close>

inductive sc_step :: "'c smp \<Rightarrow> 'c smp \<Rightarrow> bool" where
  sc_scan: "\<lbrakk>pcf me = Idle; acquire_ptable_lock me 0 k = Inr k'\<rbrakk> \<Longrightarrow> sc_step (pcf, k) (pcf(me := Scanning), k')"
| sc_pass: "\<lbrakk>pcf me = Scanning; release_ptable_lock me 0 k = Inr k'\<rbrakk> \<Longrightarrow> sc_step (pcf, k) (pcf(me := Idle), k')"
| sc_dispatch: "\<lbrakk>pcf me = Scanning; i < NPROC; state (proc_of k (0, i)) = RUNNABLE; run_slot me 0 i k = Inr k'\<rbrakk> \<Longrightarrow>
    sc_step (pcf, k) (pcf(me := Locked), k')"
| sc_forkret: "\<lbrakk>pcf me = Locked; forkret cache con me ctx buf init k = Inr k'\<rbrakk> \<Longrightarrow> sc_step (pcf, k) (pcf(me := Running), k')"
| sc_yielded: "\<lbrakk>pcf me = Locked; yield_resume me k = Inr k'\<rbrakk> \<Longrightarrow> sc_step (pcf, k) (pcf(me := Running), k')"
| sc_slept: "\<lbrakk>pcf me = Locked; sleep_resume me (Some l) k = Inr (l', k')\<rbrakk> \<Longrightarrow> sc_step (pcf, k) (pcf(me := Running), k')"
| sc_waited: "\<lbrakk>pcf me = Locked; wait_resume me k = Inr (r, k'); r \<noteq> Asleep\<rbrakk> \<Longrightarrow> sc_step (pcf, k) (pcf(me := Running), k')"
| sc_rewait: "\<lbrakk>pcf me = Locked; wait_resume me k = Inr (Asleep, k'); back_in_scheduler me 0 k' = Inr k''\<rbrakk> \<Longrightarrow>
    sc_step (pcf, k) (pcf(me := Scanning), k'')"
| sc_yield: "\<lbrakk>pcf me = Running; yield_enter me k = Inr k'; back_in_scheduler me 0 k' = Inr k''\<rbrakk> \<Longrightarrow> sc_step (pcf, k) (pcf(me := Scanning), k'')"
| sc_sleep: "\<lbrakk>pcf me = Running; sleep_enter me ch (Some l) k = Inr (l', k'); back_in_scheduler me 0 k' = Inr k''\<rbrakk> \<Longrightarrow>
    sc_step (pcf, k) (pcf(me := Scanning), k'')"
| sc_wait: "\<lbrakk>pcf me = Running; wait_enter me k = Inr (r, k'); r \<noteq> Asleep\<rbrakk> \<Longrightarrow> sc_step (pcf, k) (pcf, k')"
| sc_wait_sleep: "\<lbrakk>pcf me = Running; wait_enter me k = Inr (Asleep, k'); back_in_scheduler me 0 k' = Inr k''\<rbrakk> \<Longrightarrow>
    sc_step (pcf, k) (pcf(me := Scanning), k'')"
| sc_exit: "\<lbrakk>pcf me = Running; exit_enter cache me ctx k = Inr k'; back_in_scheduler me 0 k' = Inr k''\<rbrakk> \<Longrightarrow>
    sc_step (pcf, k) (pcf(me := Scanning), k'')"
| sc_wakeup: "\<lbrakk>pcf me = Running; wakeup me ch k = Inr k'\<rbrakk> \<Longrightarrow> sc_step (pcf, k) (pcf, k')"
| sc_fork: "\<lbrakk>pcf me = Running; fork me k = Inr (n, k')\<rbrakk> \<Longrightarrow> sc_step (pcf, k) (pcf, k')"
| sc_other: "sview k' = sview k \<Longrightarrow> sc_step (pcf, k) (pcf, k')"

inductive_simps sc_step_iff: "sc_step (pcf, k) y"












end
