(* ===== verification/SysCall.thy ===== *)
theory SysCall
  imports Process
begin

text \<open>
  \<open>core/syscall.c\<close>: system-call arguments, the checks on user addresses, and the small calls of this file and of
  \<open>core/sysproc.c\<close>.  The kernel follows user pointers through the current translation table; \<open>translate\<close> is what
  the hardware does with it (a four-level table of 4 KiB pages), and an address it does not map is a fault.
\<close>

record 'c kenv =
  ke_cache :: "'c BlockCache"
  ke_in :: "'c console_in"
  ke_out :: "'c console_out"
  ke_me :: nat
  ke_ctx :: nat
  ke_buf :: bytes

section \<open>User memory\<close>

definition pt_next :: "mem \<Rightarrow> u64 \<Rightarrow> nat \<Rightarrow> u64 \<Rightarrow> u64 option" where
  "pt_next m va i table =
     (let e = get64 m (pte_addr table (walk_index va i)) in
      if e AND PTE_VALID = 0 then None else Some (P2Kw (e AND 0xFFFFFFFFF000)))"

definition translate :: "vmem \<Rightarrow> u64 \<Rightarrow> u64 option" where
  "translate vm va =
     (case pt_next (vm_mem vm) va 0 (P2Kw (vm_ttbr0 vm)) of None \<Rightarrow> None | Some t1 \<Rightarrow>
      case pt_next (vm_mem vm) va 1 t1 of None \<Rightarrow> None | Some t2 \<Rightarrow>
      case pt_next (vm_mem vm) va 2 t2 of None \<Rightarrow> None | Some t3 \<Rightarrow>
      map_option (\<lambda>page. page + (va AND 0xFFF)) (pt_next (vm_mem vm) va 3 t3))"

definition load_user :: "vmem \<Rightarrow> u64 \<Rightarrow> u8 res" where
  "load_user vm va = (case translate vm va of None \<Rightarrow> Inl (Fault ''user'') | Some a \<Rightarrow> Inr (vm_mem vm a))"

primrec user_read :: "nat \<Rightarrow> u64 \<Rightarrow> vmem \<Rightarrow> bytes res" where
  "user_read 0 va vm = Inr []"
| "user_read (Suc n) va vm = bnd (load_user vm va) (\<lambda>b. bnd (user_read n (va + 1) vm) (\<lambda>bs. Inr (b # bs)))"

primrec user_write :: "bytes \<Rightarrow> u64 \<Rightarrow> vmem \<Rightarrow> vmem res" where
  "user_write [] va vm = Inr vm"
| "user_write (b # bs) va vm =
     (case translate vm va of
        None \<Rightarrow> Inl (Fault ''user'')
      | Some a \<Rightarrow> user_write bs (va + 1) (upd_mem (\<lambda>m. m(a := b)) vm))"

section \<open>Arguments\<close>

definition in_user :: "proc \<Rightarrow> u64 \<Rightarrow> u64 \<Rightarrow> bool" where
  "in_user p s n \<longleftrightarrow>
     (base p \<le> s \<and> s + n \<le> sz p) \<or> (USPACE_TOP - stksz p \<le> s \<and> s + n \<le> USPACE_TOP)"

text \<open>The scan for the terminating zero below \<open>lim\<close>; the characters seen so far are collected.\<close>

function fetch_loop :: "u64 \<Rightarrow> u64 \<Rightarrow> vmem \<Rightarrow> bytes \<Rightarrow> bytes option res" where
  "fetch_loop s lim vm acc =
     (if s < lim then
        bnd (load_user vm s) (\<lambda>c. if c = 0 then Inr (Some acc) else fetch_loop (s + 1) lim vm (acc @ [c]))
      else Inr None)"
  by pat_completeness auto
termination
proof (relation "measure (\<lambda>(s, lim, vm, acc). unat lim - unat s)", goal_cases)
  case (2 s lim vm acc c)
  have "unat s < unat lim" using 2(1) by (simp add: word_less_nat_alt)
  moreover have "unat lim < 2 ^ 64" using unsigned_less [of lim, where ?'a = nat] by simp
  ultimately have "unat (s + 1) = Suc (unat s)" using unat_add_lem [of s 1] by simp
  then show ?case using \<open>unat s < unat lim\<close> by simp
qed simp

declare fetch_loop.simps [simp del]

text \<open>\<open>fetchstr\<close>: the string, whose length is the result; \<open>None\<close> is -1.\<close>

definition fetchstr :: "proc \<Rightarrow> u64 \<Rightarrow> vmem \<Rightarrow> bytes option res" where
  "fetchstr p addr vm =
     (if base p \<le> addr \<and> addr < sz p then fetch_loop addr (sz p) vm []
      else if USPACE_TOP - stksz p \<le> addr \<and> addr < USPACE_TOP then fetch_loop addr USPACE_TOP vm []
      else Inr None)"

definition argu64 :: "nat \<Rightarrow> proc \<Rightarrow> u64 option" where
  "argu64 n p = (if n > 5 then None else Some (xreg (tf p) ! n))"

definition argint :: "nat \<Rightarrow> proc \<Rightarrow> int option" where
  "argint n p = (if n > 5 then None else Some (sint (ucast (xreg (tf p) ! n) :: u32)))"

definition argptr :: "nat \<Rightarrow> u64 \<Rightarrow> proc \<Rightarrow> u64 option" where
  "argptr n len p =
     (case argu64 n p of None \<Rightarrow> None | Some i \<Rightarrow> if in_user p i len then Some i else None)"

definition argstr :: "nat \<Rightarrow> proc \<Rightarrow> vmem \<Rightarrow> bytes option res" where
  "argstr n p vm = (case argu64 n p of None \<Rightarrow> Inr None | Some addr \<Rightarrow> fetchstr p addr vm)"

section \<open>Small calls\<close>

definition cur_proc :: "'c kenv \<Rightarrow> 'c kernel \<Rightarrow> (pptr \<times> proc) res" where
  "cur_proc E k = bnd (this_proc (ke_me E) k) (\<lambda>p. Inr (p, proc_of k p))"

definition sys_gettid :: "'c kenv \<Rightarrow> 'c kernel \<Rightarrow> (int \<times> 'c kernel) res" where
  "sys_gettid E k = bnd (cur_proc E k) (\<lambda>(_, p). Inr (pid p, k))"

definition sys_ioctl :: "'c kenv \<Rightarrow> 'c kernel \<Rightarrow> (int \<times> 'c kernel) res" where
  "sys_ioctl E k = bnd (cur_proc E k) (\<lambda>(_, p).
     if xreg (tf p) ! 1 = 0x5413 then Inr (0, k) else Inl (Panic ''toctl unimplemented''))"

definition sys_sigprocmask :: "'c kenv \<Rightarrow> 'c kernel \<Rightarrow> (int \<times> 'c kernel) res" where
  "sys_sigprocmask E k = Inr (0, k)"

definition sys_default :: "'c kenv \<Rightarrow> 'c kernel \<Rightarrow> (int \<times> 'c kernel) res" where
  "sys_default E k = bnd (cur_proc E k) (\<lambda>(_, p).
     bnd (kprintf (ke_me E) (''Unexpected syscall #%d'' @ [CHR 0x0A]) [FInt (xreg (tf p) ! 8)] k) (\<lambda>k. Inr (0, k)))"

definition sys_brk :: "'c kenv \<Rightarrow> 'c kernel \<Rightarrow> (int \<times> 'c kernel) res" where
  "sys_brk E k = bnd (cur_proc E k) (\<lambda>(_, p).
     case argint 0 p of
       None \<Rightarrow> Inr (-1, k)
     | Some n \<Rightarrow> bnd (growproc (ke_me E) n k) (\<lambda>(r, k). Inr (if r < 0 then -1 else int (unat (sz p)), k)))"

definition sys_clone :: "'c kenv \<Rightarrow> 'c kernel \<Rightarrow> (int \<times> 'c kernel) res" where
  "sys_clone E k = bnd (cur_proc E k) (\<lambda>(_, p).
     case (argint 0 p, argint 1 p) of
       (Some flag, Some _) \<Rightarrow>
         if flag \<noteq> 17 then
           bnd (kprintf (ke_me E) (''sys_clone: flags other than SIGCHLD are not supported.'' @ [CHR 0x0A]) [] k) (\<lambda>k. Inr (-1, k))
         else fork (ke_me E) k
     | _ \<Rightarrow> Inr (-1, k))"

text \<open>\<open>sys_wait4\<close>, \<open>sys_yield\<close> and \<open>sys_exit\<close> switch away inside; their other halves are \<open>wait_resume\<close> and \<open>yield_resume\<close>.\<close>

definition sys_wait4 :: "'c kenv \<Rightarrow> 'c kernel \<Rightarrow> (wait_result \<times> 'c kernel) res" where
  "sys_wait4 E k = bnd (cur_proc E k) (\<lambda>(_, p).
     case (argint 0 p, argint 1 p, argint 2 p, argint 3 p) of
       (Some _, Some _, Some _, Some _) \<Rightarrow> wait_enter (ke_me E) k
     | _ \<Rightarrow> Inr (No_child, k))"

definition sys_yield_enter :: "'c kenv \<Rightarrow> 'c kernel \<Rightarrow> 'c kernel res" where
  "sys_yield_enter E k = yield_enter (ke_me E) k"

definition sys_exit_enter :: "'c kenv \<Rightarrow> 'c kernel \<Rightarrow> 'c kernel res" where
  "sys_exit_enter E k = exit_enter (ke_cache E) (ke_me E) (ke_ctx E) k"

text \<open>\<open>sys_myprint\<close>: the number of the process in the root container.\<close>

definition rootpid :: "pptr \<Rightarrow> pid_mapping list \<Rightarrow> int" where
  "rootpid p pm = foldl (\<lambda>r m. if pm_valid m \<and> pm_p m = Some p then pid_local m else r) (-1) pm"

definition sys_myprint_enter :: "'c kenv \<Rightarrow> u64 \<Rightarrow> 'c kernel \<Rightarrow> 'c kernel res" where
  "sys_myprint_enter E x k = bnd (cur_proc E k) (\<lambda>(c, p).
     let r = rootpid c (pmap (conts k 0)) in
     bnd (chk (r > 0) ''rootpid > 0'') (\<lambda>_.
     bnd (kprintf (ke_me E) (''pid %d, pid in root %d, cnt %d'' @ [CHR 0x0A])
            [FInt (word_of_int (pid p)), FInt (word_of_int r), FInt x] k) (\<lambda>k.
     yield_enter (ke_me E) k)))"

end
