(* ===== verification/SysFile.thy ===== *)
theory SysFile
  imports SysCall
begin

text \<open>
  \<open>core/sysfile.c\<close>: the system calls on files.  A \<open>struct file *\<close> is an index of the file table, an \<open>Inode *\<close> a slot
  of the inode arena.  The uninitialised locals of the source that can matter are parameters (\<open>ke_buf\<close>).
\<close>

abbreviation (input) AT_FDCWD :: int where "AT_FDCWD \<equiv> -100"
abbreviation (input) O_WRONLY :: u32 where "O_WRONLY \<equiv> 1"
abbreviation (input) O_RDWR :: u32 where "O_RDWR \<equiv> 2"
abbreviation (input) O_CREAT :: u32 where "O_CREAT \<equiv> 64"
abbreviation (input) SIZEOF_STAT :: u64 where "SIZEOF_STAT \<equiv> 128"

section \<open>Descriptors\<close>

definition argfd :: "nat \<Rightarrow> proc \<Rightarrow> (nat \<times> nat) option" where
  "argfd n p =
     (case argint n p of
        None \<Rightarrow> None
      | Some fd \<Rightarrow> if fd < 0 \<or> fd \<ge> int NOFILE then None else map_option (\<lambda>f. (nat fd, f)) (ofile p ! nat fd))"

fun free_fd :: "nat option list \<Rightarrow> nat \<Rightarrow> nat option" where
  "free_fd [] i = None"
| "free_fd (x # xs) i = (if x = None then Some i else free_fd xs (Suc i))"

definition fdalloc :: "pptr \<Rightarrow> nat \<Rightarrow> 'c kernel \<Rightarrow> nat option \<times> 'c kernel" where
  "fdalloc p f k =
     (case free_fd (ofile (proc_of k p)) 0 of
        None \<Rightarrow> (None, k)
      | Some i \<Rightarrow> (Some i, upd_proc p (\<lambda>x. x\<lparr>ofile := (ofile x)[i := Some f]\<rparr>) k))"

definition sys_dup :: "'c kenv \<Rightarrow> 'c kernel \<Rightarrow> (int \<times> 'c kernel) res" where
  "sys_dup E k = bnd (cur_proc E k) (\<lambda>(c, p).
     case argfd 0 p of
       None \<Rightarrow> Inr (-1, k)
     | Some (_, f) \<Rightarrow>
         case fdalloc c f k of
           (None, k) \<Rightarrow> Inr (-1, k)
         | (Some fd, k) \<Rightarrow> bnd (kfcall (filedup (ke_me E) f) k) (\<lambda>(_, k). Inr (int fd, k)))"

text \<open>\<open>(usize)n\<close> of a signed \<open>int\<close>.\<close>

definition usize_of :: "int \<Rightarrow> u64" where "usize_of n = word_of_int n"

definition sys_read :: "'c kenv \<Rightarrow> 'c kernel \<Rightarrow> (int \<times> 'c kernel) res" where
  "sys_read E k = bnd (cur_proc E k) (\<lambda>(c, p).
     case argfd 0 p of
       None \<Rightarrow> Inr (-1, k)
     | Some (_, f) \<Rightarrow>
         case argint 2 p of
           None \<Rightarrow> Inr (-1, k)
         | Some n \<Rightarrow>
             case argptr 1 (usize_of n) p of
               None \<Rightarrow> Inr (-1, k)
             | Some addr \<Rightarrow>
                 bnd (kfcall (\<lambda>s. bnd (fileread (ke_cache E) (ke_in E) (ke_me E) f (unat (usize_of n)) s) (\<lambda>(r, bs, s). Inr ((r, bs), s))) k)
                   (\<lambda>((r, bs), k). bnd (kvcallu (user_write bs addr) k) (\<lambda>k. Inr (r, k))))"

text \<open>\<open>filewrite\<close> from user memory: the bytes are read through the translation table.\<close>

definition user_filewrite :: "'c kenv \<Rightarrow> nat \<Rightarrow> u64 \<Rightarrow> int \<Rightarrow> 'c kernel \<Rightarrow> (int \<times> 'c kernel) res" where
  "user_filewrite E f addr n k =
     bnd (user_read (nat n) addr (kvm k)) (\<lambda>src.
     kfcall (filewrite (ke_cache E) (ke_out E) (ke_me E) (ke_ctx E) f src n) k)"

definition sys_write :: "'c kenv \<Rightarrow> 'c kernel \<Rightarrow> (int \<times> 'c kernel) res" where
  "sys_write E k = bnd (cur_proc E k) (\<lambda>(c, p).
     case argfd 0 p of
       None \<Rightarrow> Inr (-1, k)
     | Some (_, f) \<Rightarrow>
         case argint 2 p of
           None \<Rightarrow> Inr (-1, k)
         | Some n \<Rightarrow>
             case argptr 1 (usize_of n) p of
               None \<Rightarrow> Inr (-1, k)
             | Some addr \<Rightarrow> user_filewrite E f addr n k)"

definition user_get64 :: "vmem \<Rightarrow> u64 \<Rightarrow> u64 res" where
  "user_get64 vm a = bnd (user_read 8 a vm) (\<lambda>bs. Inr (word_of_nat (le_nat bs)))"

primrec writev_loop :: "nat \<Rightarrow> 'c kenv \<Rightarrow> nat \<Rightarrow> u64 \<Rightarrow> u64 \<Rightarrow> 'c kernel \<Rightarrow> (u64 \<times> 'c kernel) res" where
  "writev_loop 0 E f p tot k = Inr (tot, k)"
| "writev_loop (Suc n) E f p tot k =
     bnd (user_get64 (kvm k) p) (\<lambda>iov_base.
     bnd (user_get64 (kvm k) (p + 8)) (\<lambda>iov_len.
     bnd (user_filewrite E f iov_base (sint iov_len) k) (\<lambda>(r, k).
     writev_loop n E f (p + 16) (tot + word_of_int r) k)))"

definition sys_writev :: "'c kenv \<Rightarrow> 'c kernel \<Rightarrow> (int \<times> 'c kernel) res" where
  "sys_writev E k = bnd (cur_proc E k) (\<lambda>(c, p).
     case argfd 0 p of
       None \<Rightarrow> Inr (-1, k)
     | Some (_, f) \<Rightarrow>
         case argint 2 p of
           None \<Rightarrow> Inr (-1, k)
         | Some iovcnt \<Rightarrow>
             case argptr 1 (usize_of iovcnt * 16) p of
               None \<Rightarrow> Inr (-1, k)
             | Some iov \<Rightarrow> bnd (writev_loop (nat iovcnt) E f iov 0 k) (\<lambda>(tot, k). Inr (sint tot, k)))"

text \<open>\<open>sys_close\<close> passes its \<open>int fd\<close> as an \<open>i64 *\<close>; the low half is the descriptor.\<close>

definition sys_close :: "'c kenv \<Rightarrow> 'c kernel \<Rightarrow> (int \<times> 'c kernel) res" where
  "sys_close E k = bnd (cur_proc E k) (\<lambda>(c, p).
     case argfd 0 p of
       None \<Rightarrow> Inr (-1, k)
     | Some (fd, f) \<Rightarrow>
         let k = upd_proc c (\<lambda>x. x\<lparr>ofile := (ofile x)[fd := None]\<rparr>) k in
         bnd (kfcallu (fileclose (ke_cache E) (ke_me E) (ke_ctx E) f) k) (\<lambda>k. Inr (0, k)))"

section \<open>File status\<close>

text \<open>The fields \<open>stati\<close> stores, at their offsets in \<open>struct stat\<close>.\<close>

definition put_stat :: "u64 \<Rightarrow> stat \<Rightarrow> vmem \<Rightarrow> vmem res" where
  "put_stat a st vm =
     bnd (user_write (le_bytes 8 (st_dev st)) a vm) (\<lambda>vm.
     bnd (user_write (le_bytes 8 (st_ino st)) (a + 8) vm) (\<lambda>vm.
     bnd (user_write (le_bytes 4 (st_mode st)) (a + 16) vm) (\<lambda>vm.
     bnd (user_write (le_bytes 4 (st_nlink st)) (a + 20) vm) (\<lambda>vm.
     user_write (le_bytes 8 (st_size st)) (a + 48) vm))))"

definition zero_stat :: stat where "zero_stat = \<lparr>st_dev = 0, st_ino = 0, st_nlink = 0, st_size = 0, st_mode = 0\<rparr>"

definition sys_fstat :: "'c kenv \<Rightarrow> 'c kernel \<Rightarrow> (int \<times> 'c kernel) res" where
  "sys_fstat E k = bnd (cur_proc E k) (\<lambda>(c, p).
     case argfd 0 p of
       None \<Rightarrow> Inr (-1, k)
     | Some (_, f) \<Rightarrow>
         case argptr 1 SIZEOF_STAT p of
           None \<Rightarrow> Inr (-1, k)
         | Some a \<Rightarrow>
             bnd (kfcall (\<lambda>s. bnd (filestat (ke_cache E) (ke_me E) f zero_stat s) (\<lambda>(r, st, s). Inr ((r, st), s))) k) (\<lambda>((r, st), k).
             if r = 0 then bnd (kvcallu (put_stat a st) k) (\<lambda>k. Inr (0, k)) else Inr (r, k)))"

text \<open>Paths start at the current directory of the process.\<close>

definition k_namei :: "'c kenv \<Rightarrow> bytes \<Rightarrow> 'c kernel \<Rightarrow> (nat option \<times> 'c kernel) res" where
  "k_namei E path k = bnd (cur_proc E k) (\<lambda>(c, p).
     kfcall (itcall (namei (ke_cache E) (ke_in E) (ke_me E) (ke_buf E) (case cwd p of Some d \<Rightarrow> d | None \<Rightarrow> 0) path (replicate 14 0) (ke_ctx E))) k)"

definition k_nameiparent :: "'c kenv \<Rightarrow> bytes \<Rightarrow> bytes \<Rightarrow> 'c kernel \<Rightarrow> ((nat option \<times> bytes) \<times> 'c kernel) res" where
  "k_nameiparent E path name k = bnd (cur_proc E k) (\<lambda>(c, p).
     kfcall (itcall (\<lambda>t. bnd (nameiparent (ke_cache E) (ke_in E) (ke_me E) (ke_buf E) (case cwd p of Some d \<Rightarrow> d | None \<Rightarrow> 0) path name (ke_ctx E) t)
       (\<lambda>(ip, name, t). Inr ((ip, name), t)))) k)"

definition k_lock :: "'c kenv \<Rightarrow> nat \<Rightarrow> 'c kernel \<Rightarrow> 'c kernel res" where
  "k_lock E ip k = kfcallu (itcallu (inode_lock (ke_cache E) (ke_me E) ip)) k"

definition k_unlock :: "'c kenv \<Rightarrow> nat \<Rightarrow> 'c kernel \<Rightarrow> 'c kernel res" where
  "k_unlock E ip k = kfcallu (itcallu (inode_unlock (ke_me E) ip)) k"

definition k_put :: "'c kenv \<Rightarrow> nat \<Rightarrow> 'c kernel \<Rightarrow> 'c kernel res" where
  "k_put E ip k = kfcallu (itcallu (inode_put (ke_cache E) (ke_me E) (Some (ke_ctx E)) ip)) k"

definition k_sync :: "'c kenv \<Rightarrow> nat \<Rightarrow> bool \<Rightarrow> 'c kernel \<Rightarrow> 'c kernel res" where
  "k_sync E ip w k = kfcallu (itcallu (inode_sync (ke_cache E) (Some (ke_ctx E)) ip w)) k"

definition k_begin :: "'c kenv \<Rightarrow> 'c kernel \<Rightarrow> 'c kernel res" where
  "k_begin E k = kfcallu (k_begin_op (ke_cache E) (ke_ctx E)) k"

definition k_end :: "'c kenv \<Rightarrow> 'c kernel \<Rightarrow> 'c kernel res" where
  "k_end E k = kfcallu (k_end_op (ke_cache E) (ke_ctx E)) k"

definition k_ino :: "'c kernel \<Rightarrow> nat \<Rightarrow> Inode" where
  "k_ino k ip = ino_of (ktree (kfs k)) ip"

definition k_upd_entry :: "nat \<Rightarrow> (InodeEntry \<Rightarrow> InodeEntry) \<Rightarrow> 'c kernel \<Rightarrow> 'c kernel" where
  "k_upd_entry ip f k = k\<lparr>kfs := (kfs k)\<lparr>ktree := upd_entry ip f (ktree (kfs k))\<rparr>\<rparr>"

text \<open>\<open>unlock\<close>, \<open>put\<close>, \<open>end_op\<close> and a result: the way out of most calls.\<close>

definition leave :: "'c kenv \<Rightarrow> nat \<Rightarrow> int \<Rightarrow> 'c kernel \<Rightarrow> (int \<times> 'c kernel) res" where
  "leave E ip r k = bnd (k_unlock E ip k) (\<lambda>k. bnd (k_put E ip k) (\<lambda>k. bnd (k_end E k) (\<lambda>k. Inr (r, k))))"

definition sys_fstatat :: "'c kenv \<Rightarrow> 'c kernel \<Rightarrow> (int \<times> 'c kernel) res" where
  "sys_fstatat E k = bnd (cur_proc E k) (\<lambda>(c, p).
     bnd (argstr 1 p (kvm k)) (\<lambda>path.
     case (argint 0 p, path, argptr 2 SIZEOF_STAT p, argint 3 p) of
       (Some dirfd, Some path, Some a, Some flags) \<Rightarrow>
         if dirfd \<noteq> AT_FDCWD then
           bnd (kprintf (ke_me E) (''sys_fstatat: dirfd unimplemented'' @ [CHR 0x0A]) [] k) (\<lambda>k. Inr (-1, k))
         else if flags \<noteq> 0 then
           bnd (kprintf (ke_me E) (''sys_fstatat: flags unimplemented'' @ [CHR 0x0A]) [] k) (\<lambda>k. Inr (-1, k))
         else
           bnd (k_begin E k) (\<lambda>k.
           bnd (k_namei E path k) (\<lambda>(r, k).
           case r of
             None \<Rightarrow> bnd (k_end E k) (\<lambda>k. Inr (-1, k))
           | Some ip \<Rightarrow>
               bnd (k_lock E ip k) (\<lambda>k.
               bnd (stati (k_ino k ip) zero_stat) (\<lambda>st.
               bnd (kvcallu (put_stat a st) k) (leave E ip 0)))))
     | _ \<Rightarrow> Inr (-1, k)))"

section \<open>Creating and removing\<close>

definition namecmp :: "bytes \<Rightarrow> bytes \<Rightarrow> int" where
  "namecmp s t = strncmp (arr_of s) (arr_of t) FILE_NAME_MAX_LENGTH"

definition k_lookup :: "'c kenv \<Rightarrow> nat \<Rightarrow> bytes \<Rightarrow> 'c kernel \<Rightarrow> ((nat \<times> nat option) \<times> 'c kernel) res" where
  "k_lookup E dp name k =
     kfcall (itcall (\<lambda>t. bnd (inode_lookup (ke_cache E) (ke_in E) dp name (ke_buf E) t) (\<lambda>(ino, i, t). Inr ((ino, i), t)))) k"

definition k_insert :: "'c kenv \<Rightarrow> nat \<Rightarrow> bytes \<Rightarrow> nat \<Rightarrow> 'c kernel \<Rightarrow> 'c kernel res" where
  "k_insert E dp name ino k =
     bnd (kfcall (itcall (inode_insert (ke_cache E) (ke_in E) (ke_out E) (Some (ke_ctx E)) dp name ino (ke_buf E))) k) (\<lambda>(_, k). Inr k)"

text \<open>\<open>inodes.get(inodes.lookup(...))\<close> is called with 0 when the name does not exist: the assertion of \<open>inode_get\<close> fails.\<close>

definition sys_unlink :: "'c kenv \<Rightarrow> 'c kernel \<Rightarrow> (int \<times> 'c kernel) res" where
  "sys_unlink E k = bnd (cur_proc E k) (\<lambda>(c, p).
     bnd (argstr 0 p (kvm k)) (\<lambda>path.
     case path of
       None \<Rightarrow> bnd (kprintf (ke_me E) (''argstr(0, &path) < 0'' @ [CHR 0x0A]) [] k) (\<lambda>k. Inr (-1, k))
     | Some path \<Rightarrow>
         bnd (k_begin E k) (\<lambda>k.
         bnd (k_nameiparent E path (ke_buf E) k) (\<lambda>((r, name), k).
         case r of
           None \<Rightarrow> bnd (k_end E k) (\<lambda>k. bnd (kprintf (ke_me E) ''(dp = nameiparent(path, name, &ctx)) == 0'' [] k) (\<lambda>k. Inr (-1, k)))
         | Some dp \<Rightarrow>
             bnd (k_lock E dp k) (\<lambda>k.
             if namecmp name [46, 0] = 0 \<or> namecmp name [46, 46, 0] = 0 then leave E dp (-1) k
             else
               bnd (k_lookup E dp name k) (\<lambda>((ino, i), k).
               bnd (kfcall (itcall (inode_get (ke_me E) ino)) k) (\<lambda>(ip, k).
               bnd (k_lock E ip k) (\<lambda>k.
               if num_links (entry (k_ino k ip)) < 1 then Inl (Panic ''unlink: nlink < 1'')
               else
                 bnd (if ity (entry (k_ino k ip)) = INODE_DIRECTORY
                      then kfcall (itcall (inode_empty (ke_cache E) (ke_in E) ip (ke_buf E))) k else Inr (True, k)) (\<lambda>(em, k).
                 if \<not> em then
                   bnd (k_unlock E ip k) (\<lambda>k. bnd (k_put E ip k) (leave E dp (-1)))
                 else
                   bnd (kfcall (itcall (inode_write (ke_cache E) (ke_out E) (Some (ke_ctx E)) dp (replicate DIRENT_SIZE 0)
                          ((case i of Some i \<Rightarrow> i | None \<Rightarrow> 0) * DIRENT_SIZE) DIRENT_SIZE)) k) (\<lambda>(n, k).
                   if n \<noteq> DIRENT_SIZE then Inl (Panic ''unlink: inode_write'')
                   else
                     bnd (if ity (entry (k_ino k ip)) = INODE_DIRECTORY
                          then k_sync E dp True (k_upd_entry dp (\<lambda>e. e\<lparr>num_links := subw 16 (num_links e) 1\<rparr>) k) else Inr k) (\<lambda>k.
                     bnd (k_unlock E dp k) (\<lambda>k.
                     bnd (k_put E dp k) (\<lambda>k.
                     bnd (k_sync E ip True (k_upd_entry ip (\<lambda>e. e\<lparr>num_links := subw 16 (num_links e) 1\<rparr>) k))
                       (leave E ip 0))))))))))))))"

definition k_allocg :: "'c kenv \<Rightarrow> nat \<Rightarrow> nat \<Rightarrow> 'c kernel \<Rightarrow> (nat \<times> 'c kernel) res" where
  "k_allocg E type gno k =
     bnd (kfcall (itcall (inode_alloc_group (ke_cache E) (Some (ke_ctx E)) type gno)) k) (\<lambda>(ino, k).
     if ino \<noteq> 0 then Inr (ino, k)
     else bnd (kfcall (itcall (inode_alloc (ke_cache E) (Some (ke_ctx E)) type)) k) (\<lambda>(ino, k).
       if ino = 0 then Inl (Panic ''create: inodes.alloc'') else Inr (ino, k)))"

text \<open>\<open>create\<close>: the new or existing inode, locked.\<close>

definition create :: "'c kenv \<Rightarrow> bytes \<Rightarrow> nat \<Rightarrow> nat \<Rightarrow> nat \<Rightarrow> 'c kernel \<Rightarrow> (nat option \<times> 'c kernel) res" where
  "create E path type maj mnr k =
     bnd (k_nameiparent E path (replicate 14 0) k) (\<lambda>((r, name), k).
     case r of
       None \<Rightarrow> Inr (None, k)
     | Some dp \<Rightarrow>
         bnd (k_lock E dp k) (\<lambda>k.
         let gno = subw 32 (inode_no (k_ino k dp) mod 2 ^ 32) 1 div (NINODES div NGROUPS) in
         bnd (k_lookup E dp name k) (\<lambda>((ino, _), k).
         if ino \<noteq> 0 then
           bnd (kfcall (itcall (inode_get (ke_me E) ino)) k) (\<lambda>(ip, k).
           bnd (k_unlock E dp k) (\<lambda>k.
           bnd (k_put E dp k) (\<lambda>k.
           bnd (k_lock E ip k) (\<lambda>k.
           if type = INODE_REGULAR \<and> ity (entry (k_ino k ip)) = INODE_REGULAR then Inr (Some ip, k)
           else bnd (k_unlock E ip k) (\<lambda>k. bnd (k_put E ip k) (\<lambda>k. Inr (None, k)))))))
         else
           bnd (k_allocg E type gno k) (\<lambda>(ino, k).
           bnd (kfcall (itcall (inode_get (ke_me E) ino)) k) (\<lambda>(ip, k).
           bnd (k_lock E ip k) (\<lambda>k.
           bnd (k_sync E ip True (k_upd_entry ip (\<lambda>e. e\<lparr>major := maj, minor := mnr, num_links := 1\<rparr>) k)) (\<lambda>k.
           bnd (if type = INODE_DIRECTORY then
                  bnd (k_sync E dp False (k_upd_entry dp (\<lambda>e. e\<lparr>num_links := addw 16 (num_links e) 1\<rparr>) k)) (\<lambda>k.
                  bnd (k_insert E ip [46, 0] (inode_no (k_ino k ip)) k) (\<lambda>k.
                  k_insert E ip [46, 46, 0] (inode_no (k_ino k dp)) k))
                else Inr k) (\<lambda>k.
           bnd (k_insert E dp name (inode_no (k_ino k ip)) k) (\<lambda>k.
           bnd (k_unlock E dp k) (\<lambda>k.
           bnd (k_put E dp k) (\<lambda>k. Inr (Some ip, k))))))))))))"

section \<open>Opening\<close>

text \<open>\<open>filealloc\<close> and \<open>fdalloc\<close>; without a descriptor the file structure is closed again.\<close>

definition open_slot :: "'c kenv \<Rightarrow> pptr \<Rightarrow> 'c kernel \<Rightarrow> ((nat \<times> nat) option \<times> 'c kernel) res" where
  "open_slot E c k =
     bnd (kfcall (filealloc (ke_me E)) k) (\<lambda>(f, k).
     case f of
       None \<Rightarrow> Inr (None, k)
     | Some f \<Rightarrow>
         case fdalloc c f k of
           (Some fd, k) \<Rightarrow> Inr (Some (f, fd), k)
         | (None, k) \<Rightarrow> bnd (kfcallu (fileclose (ke_cache E) (ke_me E) (ke_ctx E) f) k) (\<lambda>k. Inr (None, k)))"

definition sys_openat :: "'c kenv \<Rightarrow> 'c kernel \<Rightarrow> (int \<times> 'c kernel) res" where
  "sys_openat E k = bnd (cur_proc E k) (\<lambda>(c, p).
     bnd (argstr 1 p (kvm k)) (\<lambda>path.
     case (argint 0 p, path, argint 2 p) of
       (Some dirfd, Some path, Some omode) \<Rightarrow>
         if dirfd \<noteq> AT_FDCWD then
           bnd (kprintf (ke_me E) (''sys_openat: dirfd unimplemented'' @ [CHR 0x0A]) [] k) (\<lambda>k. Inr (-1, k))
         else
           let om = (word_of_int omode :: u32) in
           bnd (k_begin E k) (\<lambda>k.
           bnd (if om AND O_CREAT \<noteq> 0 then create E path INODE_REGULAR 0 0 k
                else bnd (k_namei E path k) (\<lambda>(r, k).
                  case r of None \<Rightarrow> Inr (None, k) | Some ip \<Rightarrow> bnd (k_lock E ip k) (\<lambda>k. Inr (Some ip, k)))) (\<lambda>(r, k).
           case r of
             None \<Rightarrow> bnd (k_end E k) (\<lambda>k. Inr (-1, k))
           | Some ip \<Rightarrow>
               bnd (open_slot E c k) (\<lambda>(s, k).
               case s of
                 None \<Rightarrow> leave E ip (-1) k
               | Some (f, fd) \<Rightarrow>
                   bnd (k_unlock E ip k) (\<lambda>k.
                   bnd (k_end E k) (\<lambda>k.
                   Inr (int fd, k\<lparr>kfs := upd_file f (\<lambda>x. x\<lparr>ftype := FD_INODE, fip := ip, off := 0, readable := (om AND O_WRONLY = 0),
                          writable := (om AND O_WRONLY \<noteq> 0 \<or> om AND O_RDWR \<noteq> 0)\<rparr>) (kfs k)\<rparr>))))))
     | _ \<Rightarrow> Inr (-1, k)))"

definition sys_mkdirat :: "'c kenv \<Rightarrow> 'c kernel \<Rightarrow> (int \<times> 'c kernel) res" where
  "sys_mkdirat E k = bnd (cur_proc E k) (\<lambda>(c, p).
     bnd (argstr 1 p (kvm k)) (\<lambda>path.
     case (argint 0 p, path, argint 2 p) of
       (Some dirfd, Some path, Some mode) \<Rightarrow>
         if dirfd \<noteq> AT_FDCWD then
           bnd (kprintf (ke_me E) (''sys_mkdirat: dirfd unimplemented'' @ [CHR 0x0A]) [] k) (\<lambda>k. Inr (-1, k))
         else if mode \<noteq> 0 then
           bnd (kprintf (ke_me E) (''sys_mkdirat: mode unimplemented'' @ [CHR 0x0A]) [] k) (\<lambda>k. Inr (-1, k))
         else
           bnd (k_begin E k) (\<lambda>k.
           bnd (create E path INODE_DIRECTORY 0 0 k) (\<lambda>(r, k).
           case r of
             None \<Rightarrow> bnd (k_end E k) (\<lambda>k. Inr (-1, k))
           | Some ip \<Rightarrow> leave E ip 0 k))
     | _ \<Rightarrow> Inr (-1, k)))"

text \<open>\<open>argint(3, &minor)\<close> is tested for non-zero, which is the same.\<close>

definition sys_mknodat :: "'c kenv \<Rightarrow> 'c kernel \<Rightarrow> (int \<times> 'c kernel) res" where
  "sys_mknodat E k = bnd (cur_proc E k) (\<lambda>(c, p).
     bnd (argstr 1 p (kvm k)) (\<lambda>path.
     case (argint 0 p, path, argint 2 p, argint 3 p) of
       (Some dirfd, Some path, Some maj, Some mnr) \<Rightarrow>
         if dirfd \<noteq> AT_FDCWD then
           bnd (kprintf (ke_me E) (''sys_mknodat: dirfd unimplemented'' @ [CHR 0x0A]) [] k) (\<lambda>k. Inr (-1, k))
         else
           bnd (kprintf (ke_me E) (''mknodat: path '' @ [CHR 0x27] @ ''%s'' @ [CHR 0x27] @ '', major:minor %d:%d'' @ [CHR 0x0A])
                  [FStr (Some (map (\<lambda>b. char_of (unat b)) path)), FInt (word_of_int maj), FInt (word_of_int mnr)] k) (\<lambda>k.
           bnd (k_begin E k) (\<lambda>k.
           bnd (create E path INODE_DEVICE (nat (maj mod 2 ^ 16)) (nat (mnr mod 2 ^ 16)) k) (\<lambda>(r, k).
           case r of
             None \<Rightarrow> bnd (k_end E k) (\<lambda>k. Inr (-1, k))
           | Some ip \<Rightarrow> leave E ip 0 k)))
     | _ \<Rightarrow> Inr (-1, k)))"

definition sys_chdir :: "'c kenv \<Rightarrow> 'c kernel \<Rightarrow> (int \<times> 'c kernel) res" where
  "sys_chdir E k = bnd (cur_proc E k) (\<lambda>(c, p).
     bnd (k_begin E k) (\<lambda>k.
     bnd (argstr 0 p (kvm k)) (\<lambda>path.
     bnd (case path of None \<Rightarrow> Inr (None, k) | Some path \<Rightarrow> k_namei E path k) (\<lambda>(r, k).
     case r of
       None \<Rightarrow> bnd (k_end E k) (\<lambda>k. Inr (-1, k))
     | Some ip \<Rightarrow>
         bnd (k_lock E ip k) (\<lambda>k.
         if ity (entry (k_ino k ip)) \<noteq> INODE_DIRECTORY then leave E ip (-1) k
         else
           bnd (k_unlock E ip k) (\<lambda>k.
           bnd (case cwd (proc_of k c) of None \<Rightarrow> Inl (Fault ''cwd'') | Some d \<Rightarrow> k_put E d k) (\<lambda>k.
           bnd (k_end E k) (\<lambda>k.
           Inr (0, upd_proc c (\<lambda>x. x\<lparr>cwd := Some ip\<rparr>) k)))))))))"

end
