(* ===== verification/Exec.thy ===== *)
theory Exec
  imports SysFile
begin

text \<open>
  \<open>core/exec.c\<close>: loading a program.  The ELF structures are byte arrays read at the offsets of \<open>elf.h\<close>; \<open>ebuf\<close> and \<open>pbuf\<close>
  are what the uninitialised locals \<open>elf\<close> and \<open>ph\<close> hold before the first read, which a short read leaves in
  part.  A step that ends in \<open>goto bad\<close> returns \<open>None\<close>.
\<close>

definition le_at :: "bytes \<Rightarrow> nat \<Rightarrow> nat \<Rightarrow> nat" where
  "le_at bs i n = le_nat (slice bs i n)"

definition e_entry :: "bytes \<Rightarrow> u64" where "e_entry elf = of_nat (le_at elf 24 8)"
definition e_phoff :: "bytes \<Rightarrow> u64" where "e_phoff elf = of_nat (le_at elf 32 8)"
definition e_phnum :: "bytes \<Rightarrow> nat" where "e_phnum elf = le_at elf 56 2"

definition p_type :: "bytes \<Rightarrow> nat" where "p_type ph = le_at ph 0 4"
definition p_offset :: "bytes \<Rightarrow> u64" where "p_offset ph = of_nat (le_at ph 8 8)"
definition p_vaddr :: "bytes \<Rightarrow> u64" where "p_vaddr ph = of_nat (le_at ph 16 8)"
definition p_filesz :: "bytes \<Rightarrow> u64" where "p_filesz ph = of_nat (le_at ph 32 8)"
definition p_memsz :: "bytes \<Rightarrow> u64" where "p_memsz ph = of_nat (le_at ph 40 8)"

abbreviation (input) PT_LOAD :: nat where "PT_LOAD \<equiv> 1"
abbreviation (input) SIZEOF_EHDR :: nat where "SIZEOF_EHDR \<equiv> 64"
abbreviation (input) SIZEOF_PHDR :: nat where "SIZEOF_PHDR \<equiv> 56"

text \<open>\<open>AT_PAGESZ\<close>, \<open>PAGE_SIZE\<close>.\<close>

definition auxv :: bytes where "auxv = le_bytes 8 6 @ le_bytes 8 4096"

text \<open>The checks on \<open>e_ident\<close>: magic number and \<open>ELFCLASS64\<close>.\<close>

definition elf_ok :: "bytes \<Rightarrow> bool" where
  "elf_ok elf \<longleftrightarrow> take 4 elf = [0x7F, 69, 76, 70] \<and> elf ! 4 = 2"

definition k_read :: "'c kenv \<Rightarrow> nat \<Rightarrow> nat \<Rightarrow> nat \<Rightarrow> 'c kernel \<Rightarrow> (bytes \<times> 'c kernel) res" where
  "k_read E ip offset n k =
     kfcall (itcall (\<lambda>t. bnd (inode_read (ke_cache E) (ke_in E) ip offset n t) (\<lambda>(bs, _, t). Inr (bs, t)))) k"

section \<open>Segments\<close>

record loading =
  x_first :: bool
  x_sz :: u64
  x_base :: u64
  x_ph :: bytes

text \<open>One round of the loop over the program headers.  \<open>uvm_alloc\<close> returns an \<open>int\<close>, converted to \<open>usize\<close>.\<close>

definition load_segment :: "'c kenv \<Rightarrow> u64 \<Rightarrow> nat \<Rightarrow> u64 \<Rightarrow> loading \<Rightarrow> 'c kernel \<Rightarrow> (loading option \<times> 'c kernel) res" where
  "load_segment E pd ip offset x k =
     bnd (k_read E ip (unat offset) SIZEOF_PHDR k) (\<lambda>(bs, k).
     let ph = overwrite (x_ph x) 0 bs; x = x\<lparr>x_ph := ph\<rparr> in
     if p_type ph \<noteq> PT_LOAD then Inr (Some x, k)
     else if p_memsz ph < p_filesz ph then Inr (None, k)
     else if p_vaddr ph + p_memsz ph < p_vaddr ph then Inr (None, k)
     else
       let was_first = x_first x;
           x = (if was_first then x\<lparr>x_first := False, x_sz := p_vaddr ph, x_base := p_vaddr ph\<rparr> else x) in
       if was_first \<and> x_base x mod 4096 \<noteq> 0 then Inr (None, k)
       else
         bnd (kvcall (uvm_alloc (ke_me E) pd (x_base x) 0 (x_sz x) (p_vaddr ph + p_memsz ph)) k) (\<lambda>(r, k).
         let x = x\<lparr>x_sz := scast r\<rparr> in
         if x_sz x = 0 then Inr (None, k)
         else
           let k = k\<lparr>kvm := uvm_switch pd (kvm k)\<rparr> in
           bnd (k_read E ip (unat (p_offset ph)) (unat (p_filesz ph)) k) (\<lambda>(bs, k).
           bnd (kvcallu (user_write bs (p_vaddr ph)) k) (\<lambda>k.
           bnd (kvcallu (user_write (replicate (unat (p_memsz ph - p_filesz ph)) 0) (p_vaddr ph + p_filesz ph)) k) (\<lambda>k.
           Inr (Some x, k))))))"

primrec load_loop :: "nat \<Rightarrow> 'c kenv \<Rightarrow> u64 \<Rightarrow> nat \<Rightarrow> u64 \<Rightarrow> loading \<Rightarrow> 'c kernel \<Rightarrow> (loading option \<times> 'c kernel) res" where
  "load_loop 0 E pd ip offset x k = Inr (Some x, k)"
| "load_loop (Suc n) E pd ip offset x k =
     bnd (load_segment E pd ip offset x k) (\<lambda>(r, k).
     case r of
       None \<Rightarrow> Inr (None, k)
     | Some x \<Rightarrow> load_loop n E pd ip (offset + of_nat SIZEOF_PHDR) x k)"

section \<open>Arguments\<close>

text \<open>The loop over \<open>argv\<close> (and \<open>envp\<close>): \<open>a\<close> is \<open>argv + argc\<close>, a null \<open>argv\<close> skips the loop.  The strings go to the new
  stack from the top downwards.\<close>

function push_strings :: "'c kenv \<Rightarrow> u64 \<Rightarrow> u64 \<Rightarrow> nat \<Rightarrow> u64 \<Rightarrow> 'c kernel \<Rightarrow> ((nat \<times> u64) option \<times> 'c kernel) res" where
  "push_strings E pd a argc sp k =
     bnd (cur_proc E k) (\<lambda>(_, p).
     if in_user p a 8 then
       bnd (user_get64 (kvm k) a) (\<lambda>s.
       if s = 0 then Inr (Some (argc, sp), k)
       else
         bnd (fetchstr p s (kvm k)) (\<lambda>r.
         case r of
           None \<Rightarrow> Inr (None, k)
         | Some str \<Rightarrow>
             let sp = sp - (of_nat (length str) + 1) in
             bnd (kvcall (copyout (ke_me E) pd sp (Some (str @ [0])) (length str + 1)) k) (\<lambda>(r, k).
             if r < 0 then Inr (None, k)
             else if a + 8 < a then Inl (Blocked ''loop'')
             else push_strings E pd (a + 8) (Suc argc) sp k)))
     else Inr (Some (argc, sp), k))"
  by pat_completeness auto
termination
proof (relation "measure (\<lambda>(E, pd, a, argc, sp, k). 2 ^ 64 - unat a)", goal_cases)
  case (2 E pd a argc sp k)
  then have "\<not> a + 8 < a" by blast
  moreover have "a \<noteq> a + 8" by simp
  ultimately have "a < a + 8" by (metis linorder_neqE)
  then have "unat a < unat (a + 8)" by (simp add: word_less_nat_alt)
  moreover have "unat (a + 8) < 2 ^ 64" using unsigned_less [of "a + 8", where ?'a = nat] by simp
  ultimately show ?case by simp
qed simp

declare push_strings.simps [simp del]

definition push_all :: "'c kenv \<Rightarrow> u64 \<Rightarrow> u64 \<Rightarrow> u64 \<Rightarrow> 'c kernel \<Rightarrow> ((nat \<times> u64) option \<times> 'c kernel) res" where
  "push_all E pd a sp k = (if a \<noteq> 0 then push_strings E pd a 0 sp k else Inr (Some (0, sp), k))"

text \<open>\<open>for (; *sp; sp++); sp++;\<close>\<close>

function skip_string :: "u64 \<Rightarrow> vmem \<Rightarrow> u64 res" where
  "skip_string sp vm =
     bnd (load_user vm sp) (\<lambda>c.
     if c = 0 then Inr (sp + 1)
     else if sp + 1 = 0 then Inl (Blocked ''loop'')
     else skip_string (sp + 1) vm)"
  by pat_completeness auto
termination
proof (relation "measure (\<lambda>(sp, vm). 2 ^ 64 - unat sp)", goal_cases)
  case (2 sp vm)
  then have "1 + sp \<noteq> 0" by (simp add: add.commute)
  from unatSuc [OF this] have "unat (sp + 1) = Suc (unat sp)" by (simp add: add.commute)
  moreover have "unat (sp + 1) < 2 ^ 64" using unsigned_less [of "sp + 1", where ?'a = nat] by simp
  ultimately show ?case by simp
qed simp

declare skip_string.simps [simp del]

text \<open>\<open>for (i = n - 1; i >= 0; i--)\<close> over one of the two pointer arrays.\<close>

primrec put_pointers :: "nat \<Rightarrow> u64 \<Rightarrow> u64 \<Rightarrow> vmem \<Rightarrow> (u64 \<times> vmem) res" where
  "put_pointers 0 table sp vm = Inr (sp, vm)"
| "put_pointers (Suc i) table sp vm =
     bnd (user_write (le_bytes 8 (unat sp)) (table + of_nat i * 8) vm) (\<lambda>vm.
     bnd (skip_string sp vm) (\<lambda>sp. put_pointers i table sp vm))"

section \<open>execve\<close>

definition exec_bad :: "'c kenv \<Rightarrow> pptr \<Rightarrow> u64 \<Rightarrow> u64 \<Rightarrow> nat option \<Rightarrow> 'c kernel \<Rightarrow> (int \<times> 'c kernel) res" where
  "exec_bad E c oldpgdir pd ip k =
     bnd (if pd \<noteq> 0 then kvcallu (vm_free (ke_me E) pd) k else Inr k) (\<lambda>k.
     bnd (case ip of
            None \<Rightarrow> Inr k
          | Some ip \<Rightarrow> bnd (k_unlock E ip k) (\<lambda>k. bnd (k_put E ip k) (k_end E))) (\<lambda>k.
     Inr (-1, upd_proc c (\<lambda>x. x\<lparr>pgdir := oldpgdir\<rparr>) k)))"

text \<open>The new stack, once the strings are on it: the vectors and \<open>argc\<close>.\<close>

definition stack_vectors :: "u64 \<Rightarrow> nat \<Rightarrow> nat \<Rightarrow> u64 \<Rightarrow> vmem \<Rightarrow> vmem res" where
  "stack_vectors newsp argc envc sp vm =
     (let newargv = newsp + 8;
          newenvp = newargv + 8 * (of_nat argc + 1);
          newauxv = newenvp + 8 * (of_nat envc + 1) in
      bnd (user_write auxv newauxv vm) (\<lambda>vm.
      bnd (put_pointers envc newenvp sp vm) (\<lambda>(sp, vm).
      bnd (put_pointers argc newargv sp vm) (\<lambda>(_, vm).
      user_write (le_bytes 8 argc) newsp vm))))"

text \<open>The position after the last slash of the path.\<close>

definition last_elem :: "bytes \<Rightarrow> nat" where
  "last_elem path = length path - length (takeWhile (\<lambda>c. c \<noteq> 47) (rev path))"

text \<open>From the committed image to the return; the name is read through the old page table.\<close>

definition exec_commit :: "'c kenv \<Rightarrow> pptr \<Rightarrow> u64 \<Rightarrow> u64 \<Rightarrow> bytes \<Rightarrow> u64 \<Rightarrow> u64 \<Rightarrow> loading \<Rightarrow> bytes \<Rightarrow> u64 \<Rightarrow> 'c kernel \<Rightarrow> (int \<times> 'c kernel) res" where
  "exec_commit E c oldpgdir pd elf sp stk x path a k =
     (let k = upd_proc c (\<lambda>p. p\<lparr>pgdir := pd, base := x_base x, sz := x_sz x, stksz := stk,
                tf := (tf p)\<lparr>elr := e_entry elf, tsp := sp\<rparr>\<rparr>) k;
          k = k\<lparr>kvm := uvm_switch oldpgdir (kvm k)\<rparr> in
      bnd (user_read 16 (a + of_nat (last_elem path)) (kvm k)) (\<lambda>name.
      let k = upd_proc c (\<lambda>p. p\<lparr>pname := name\<rparr>) k in
      Inr (0, k\<lparr>kvm := uvm_switch pd (kvm k)\<rparr>)))"

definition exec_stack :: "'c kenv \<Rightarrow> pptr \<Rightarrow> u64 \<Rightarrow> u64 \<Rightarrow> bytes \<Rightarrow> u64 \<Rightarrow> u64 \<Rightarrow> loading \<Rightarrow> bytes \<Rightarrow> u64 \<Rightarrow> 'c kernel \<Rightarrow> (int \<times> 'c kernel) res" where
  "exec_stack E c oldpgdir pd elf argv envp x path a k =
     (let bad = exec_bad E c oldpgdir pd None; k = k\<lparr>kvm := uvm_switch oldpgdir (kvm k)\<rparr> in
      bnd (push_all E pd argv USPACE_TOP k) (\<lambda>(r, k).
      case r of None \<Rightarrow> bad k | Some (argc, sp) \<Rightarrow>
      bnd (push_all E pd envp sp k) (\<lambda>(r, k).
      case r of None \<Rightarrow> bad k | Some (envc, sp) \<Rightarrow>
      let newsp = round_down (sp - 16 - of_nat (envc + argc + 4) * 8) 16 in
      bnd (kvcall (copyout (ke_me E) pd newsp None (unat (sp - newsp))) k) (\<lambda>(r, k).
      if r < 0 then bad k
      else
        let k = k\<lparr>kvm := uvm_switch pd (kvm k)\<rparr> in
        bnd (kvcallu (stack_vectors newsp argc envc sp) k) (\<lambda>k.
        let stk = round_up (USPACE_TOP - newsp) (10 * 4096) in
        bnd (kvcall (copyout (ke_me E) pd (USPACE_TOP - stk) None (unat (stk - (USPACE_TOP - newsp)))) k) (\<lambda>(r, k).
        if r < 0 then bad k
        else
          bnd (chk (newsp > USPACE_TOP - stk) ''(uint64_t)sp > USPACE_TOP - stksz'') (\<lambda>_.
          exec_commit E c oldpgdir pd elf newsp stk x path a k)))))))"

definition exec_load :: "'c kenv \<Rightarrow> pptr \<Rightarrow> u64 \<Rightarrow> u64 \<Rightarrow> bytes \<Rightarrow> bytes \<Rightarrow> u64 \<Rightarrow> u64 \<Rightarrow> bytes \<Rightarrow> u64 \<Rightarrow> nat \<Rightarrow> 'c kernel \<Rightarrow> (int \<times> 'c kernel) res" where
  "exec_load E c oldpgdir pd ebuf pbuf argv envp path a ip k =
     bnd (k_lock E ip k) (\<lambda>k.
     bnd (k_read E ip 0 SIZEOF_EHDR k) (\<lambda>(bs, k).
     let elf = overwrite ebuf 0 bs in
     if \<not> elf_ok elf then exec_bad E c oldpgdir pd (Some ip) k
     else
       let k = upd_proc c (\<lambda>x. x\<lparr>pgdir := pd\<rparr>) k in
       bnd (load_loop (e_phnum elf) E pd ip (e_phoff elf) \<lparr>x_first = True, x_sz = 0, x_base = 0, x_ph = pbuf\<rparr> k) (\<lambda>(r, k).
       case r of
         None \<Rightarrow> exec_bad E c oldpgdir pd (Some ip) k
       | Some x \<Rightarrow>
           bnd (k_unlock E ip k) (\<lambda>k.
           bnd (k_put E ip k) (\<lambda>k.
           bnd (k_end E k) (exec_stack E c oldpgdir pd elf argv envp x path a))))))"

definition execve :: "'c kenv \<Rightarrow> bytes \<Rightarrow> bytes \<Rightarrow> u64 \<Rightarrow> u64 \<Rightarrow> u64 \<Rightarrow> 'c kernel \<Rightarrow> (int \<times> 'c kernel) res" where
  "execve E ebuf pbuf a argv envp k =
     bnd (cur_proc E k) (\<lambda>(c, p).
     bnd (fetchstr p a (kvm k)) (\<lambda>r.
     case r of
       None \<Rightarrow> Inr (-1, k)
     | Some path \<Rightarrow>
         bnd (kvcall (pgdir_init (ke_me E)) k) (\<lambda>(d, k).
         if d = 0 then exec_bad E c (pgdir p) d None k
         else
           bnd (k_begin E k) (\<lambda>k.
           bnd (k_namei E path k) (\<lambda>(r, k).
           case r of
             None \<Rightarrow> bnd (k_end E k) (exec_bad E c (pgdir p) d None)
           | Some ip \<Rightarrow> exec_load E c (pgdir p) d ebuf pbuf argv envp path a ip k)))))"

definition sys_exec :: "'c kenv \<Rightarrow> bytes \<Rightarrow> bytes \<Rightarrow> 'c kernel \<Rightarrow> (int \<times> 'c kernel) res" where
  "sys_exec E ebuf pbuf k = bnd (cur_proc E k) (\<lambda>(_, p).
     bnd (argstr 0 p (kvm k)) (\<lambda>path.
     case (path, argu64 0 p, argu64 1 p, argu64 2 p) of
       (Some _, Some a, Some argv, Some envp) \<Rightarrow> execve E ebuf pbuf a argv envp k
     | _ \<Rightarrow> Inr (-1, k)))"

section \<open>Dispatch\<close>

text \<open>\<open>pct\<close> and \<open>frq\<close> are the counter and its frequency, read from system registers.\<close>

definition sys_ctime :: "u64 \<Rightarrow> u64 \<Rightarrow> 'c kernel \<Rightarrow> (int \<times> 'c kernel) res" where
  "sys_ctime pct frq k =
     (if frq div 1000 = 0 then Inl (Fault ''division by zero'') else Inr (sint (ucast (pct div (frq div 1000)) :: u32), k))"

text \<open>A call that switches away has no result yet (\<open>None\<close>).\<close>

definition returns :: "(int \<times> 'c kernel) res \<Rightarrow> (int option \<times> 'c kernel) res" where
  "returns m = bnd m (\<lambda>(r, k). Inr (Some r, k))"

definition switches :: "'c kernel res \<Rightarrow> (int option \<times> 'c kernel) res" where
  "switches m = bnd m (\<lambda>k. Inr (None, k))"

definition waits :: "(wait_result \<times> 'c kernel) res \<Rightarrow> (int option \<times> 'c kernel) res" where
  "waits m = bnd m (\<lambda>(r, k). Inr (case r of Reaped n \<Rightarrow> Some n | No_child \<Rightarrow> Some (-1) | Asleep \<Rightarrow> None, k))"

definition syscall_table :: "'c kenv \<Rightarrow> bytes \<Rightarrow> bytes \<Rightarrow> u64 \<Rightarrow> u64 \<Rightarrow> int \<Rightarrow> 'c kernel \<Rightarrow> (int option \<times> 'c kernel) res" where
  "syscall_table E ebuf pbuf pct frq n =
     (if n = 96 \<or> n = 178 then returns \<circ> sys_gettid E
      else if n = 29 then returns \<circ> sys_ioctl E
      else if n = 135 then returns \<circ> sys_sigprocmask E
      else if n = 214 then returns \<circ> sys_brk E
      else if n = 221 then returns \<circ> sys_exec E ebuf pbuf
      else if n = 124 \<or> n = 459 then switches \<circ> sys_yield_enter E
      else if n = 220 then returns \<circ> sys_clone E
      else if n = 260 then waits \<circ> sys_wait4 E
      else if n = 94 \<or> n = 93 then switches \<circ> sys_exit_enter E
      else if n = 23 then returns \<circ> sys_dup E
      else if n = 49 then returns \<circ> sys_chdir E
      else if n = 80 then returns \<circ> sys_fstat E
      else if n = 79 then returns \<circ> sys_fstatat E
      else if n = 34 then returns \<circ> sys_mkdirat E
      else if n = 33 then returns \<circ> sys_mknodat E
      else if n = 87 then returns \<circ> sys_unlink E
      else if n = 56 then returns \<circ> sys_openat E
      else if n = 66 then returns \<circ> sys_writev E
      else if n = 63 then returns \<circ> sys_read E
      else if n = 64 then returns \<circ> sys_write E
      else if n = 57 then returns \<circ> sys_close E
      else if n = 228 then returns \<circ> sys_ctime pct frq
      else returns \<circ> sys_default E)"

text \<open>The number is not checked against the size of the table; every handler is called as a function returning \<open>int\<close>,
  whose value is sign-extended into \<open>x0\<close>.\<close>

definition syscall_dispatch :: "'c kenv \<Rightarrow> bytes \<Rightarrow> bytes \<Rightarrow> u64 \<Rightarrow> u64 \<Rightarrow> 'c kernel \<Rightarrow> 'c kernel res" where
  "syscall_dispatch E ebuf pbuf pct frq k = bnd (cur_proc E k) (\<lambda>(c, p).
     let sysno = sint (ucast (xreg (tf p) ! 8) :: u32) in
     if sysno < 0 \<or> 512 \<le> sysno then Inl (Fault ''syscall_table'')
     else bnd (syscall_table E ebuf pbuf pct frq sysno k) (\<lambda>(r, k).
       case r of
         None \<Rightarrow> Inr k
       | Some r \<Rightarrow> Inr (upd_proc c (\<lambda>x. x\<lparr>tf := (tf x)\<lparr>xreg := (xreg (tf x))[0 := scast (word_of_int r :: u32)]\<rparr>\<rparr>) k)))"

text \<open>\<open>core/trap.c\<close>: \<open>irq\<close> is \<open>interrupt_global_handler\<close>.\<close>

definition trap_global_handler :: "'c kenv \<Rightarrow> bytes \<Rightarrow> bytes \<Rightarrow> u64 \<Rightarrow> u64 \<Rightarrow> ('c kernel \<Rightarrow> 'c kernel res) \<Rightarrow> u64 \<Rightarrow> 'c kernel \<Rightarrow> 'c kernel res" where
  "trap_global_handler E ebuf pbuf pct frq irq esr k =
     (let ec = drop_bit 26 esr; ir = esr AND push_bit 25 1 in
      if ec = 0 then (if ir \<noteq> 0 then Inl (Panic ''unknown error'') else irq k)
      else if ec = 0x15 then syscall_dispatch E ebuf pbuf pct frq k
      else Inr k)"

end
