(* ===== verification/SysCallSpec.thy ===== *)
theory SysCallSpec
  imports SysFile
begin

text \<open>
  The checks of \<open>core/syscall.c\<close> on user pointers: \<open>fetchstr\<close> returns exactly the terminated string at a user
  address, and \<open>in_user\<close> accepts exactly the ranges of the process, as long as the end of the range does not wrap.
\<close>

section \<open>Strings\<close>

text \<open>\<open>str_at vm a str\<close>: memory at the user address \<open>a\<close> holds \<open>str\<close> and a terminating zero.\<close>

definition str_at :: "vmem \<Rightarrow> u64 \<Rightarrow> bytes \<Rightarrow> bool" where
  "str_at vm a str \<longleftrightarrow> 0 \<notin> set str \<and> (\<forall>i<length str. load_user vm (a + of_nat i) = Inr (str ! i)) \<and>
     load_user vm (a + of_nat (length str)) = Inr 0"

text \<open>The user range that \<open>fetchstr\<close> searches from an address: up to the end of the heap, or of the stack.\<close>

definition str_limit :: "proc \<Rightarrow> u64 \<Rightarrow> u64 option" where
  "str_limit p a = (if base p \<le> a \<and> a < sz p then Some (sz p)
     else if USPACE_TOP - stksz p \<le> a \<and> a < USPACE_TOP then Some USPACE_TOP else None)"

lemma unat_Suc_less: "(s :: u64) < lim \<Longrightarrow> unat (s + 1) = Suc (unat s)"
proof -
  assume "s < lim"
  then have "unat s < unat lim" by (simp add: word_less_nat_alt)
  moreover have "unat lim < 2 ^ 64" using unsigned_less [of lim, where ?'a = nat] by simp
  ultimately show ?thesis using unat_add_lem [of s 1] by simp
qed

lemma str_at_Cons: "str_at vm a (c # str) \<longleftrightarrow> c \<noteq> 0 \<and> load_user vm a = Inr c \<and> str_at vm (a + 1) str"
proof -
  have "(\<forall>i<Suc n. P i) \<longleftrightarrow> P 0 \<and> (\<forall>i<n. P (Suc i))" for n P using less_Suc_eq_0_disj by auto
  then show ?thesis by (auto simp: str_at_def add.assoc)
qed

lemma fetch_loop_spec:
  assumes "\<And>a. s \<le> a \<Longrightarrow> a < lim \<Longrightarrow> \<exists>c. load_user vm a = Inr c"
  shows "\<exists>r. fetch_loop s lim vm acc = Inr r \<and>
    (case r of Some str \<Rightarrow> \<exists>t. str = acc @ t \<and> str_at vm s t \<and> unat s + length t < unat lim
     | None \<Rightarrow> \<forall>a. s \<le> a \<longrightarrow> a < lim \<longrightarrow> load_user vm a \<noteq> Inr 0)"
  using assms
proof (induction s lim vm acc rule: fetch_loop.induct)
  case (1 s lim vm acc)
  show ?case
  proof (cases "s < lim")
    case False
    then show ?thesis by (auto simp: fetch_loop.simps)
  next
    case True
    then obtain c where c: "load_user vm s = Inr c" using "1.prems" [of s] by auto
    have nx: "unat (s + 1) = Suc (unat s)" by (rule unat_Suc_less [OF True])
    have le: "s + 1 \<le> a \<longleftrightarrow> s < a" for a by (simp add: word_le_nat_alt word_less_nat_alt nx Suc_le_eq)
    show ?thesis
    proof (cases "c = 0")
      case True
      then show ?thesis using \<open>s < lim\<close> c by (auto simp: fetch_loop.simps str_at_def word_less_nat_alt)
    next
      case False
      have "\<exists>c. load_user vm a = Inr c" if "s + 1 \<le> a" "a < lim" for a using that "1.prems" [of a] le by auto
      then obtain r where r: "fetch_loop (s + 1) lim vm (acc @ [c]) = Inr r"
        "case r of Some str \<Rightarrow> \<exists>t. str = (acc @ [c]) @ t \<and> str_at vm (s + 1) t \<and> unat (s + 1) + length t < unat lim
         | None \<Rightarrow> \<forall>a. s + 1 \<le> a \<longrightarrow> a < lim \<longrightarrow> load_user vm a \<noteq> Inr 0"
        using "1.IH" [OF True c False] by blast
      have run: "fetch_loop s lim vm acc = Inr r" using True c False r(1) by (subst fetch_loop.simps) simp
      show ?thesis
      proof (cases r)
        case None
        then have "load_user vm a \<noteq> Inr 0" if "s \<le> a" "a < lim" for a
          using that r(2) le [of a] c False by (cases "a = s") auto
        then show ?thesis using run None by auto
      next
        case (Some str)
        then obtain t where t: "str = (acc @ [c]) @ t" "str_at vm (s + 1) t" "unat (s + 1) + length t < unat lim" using r(2) by auto
        then have "\<exists>t. str = acc @ t \<and> str_at vm s t \<and> unat s + length t < unat lim"
          using nx c False by (intro exI [of _ "c # t"]) (simp add: str_at_Cons)
        then show ?thesis using run Some by simp
      qed
    qed
  qed
qed

text \<open>C35: \<open>fetchstr\<close> on a process whose memory is mapped never faults and always ends: it returns the string that
  memory holds at the address, terminated inside the process's own heap or stack, and fails exactly when the
  address is outside both or no zero byte follows.\<close>

theorem fetchstr_correct:
  assumes "\<And>a lim. \<lbrakk>str_limit p addr = Some lim; addr \<le> a; a < lim\<rbrakk> \<Longrightarrow> \<exists>c. load_user vm a = Inr c"
  shows "\<exists>r. fetchstr p addr vm = Inr r \<and>
    (case r of
       Some str \<Rightarrow> str_at vm addr str \<and> (\<exists>lim. str_limit p addr = Some lim \<and> unat addr + length str < unat lim)
     | None \<Rightarrow> \<forall>lim. str_limit p addr = Some lim \<longrightarrow> (\<forall>a. addr \<le> a \<longrightarrow> a < lim \<longrightarrow> load_user vm a \<noteq> Inr 0))"
proof (cases "str_limit p addr")
  case None
  then show ?thesis by (auto simp: fetchstr_def str_limit_def split: if_splits)
next
  case (Some lim)
  have "fetchstr p addr vm = fetch_loop addr lim vm []" using Some by (auto simp: fetchstr_def str_limit_def split: if_splits)
  moreover have "\<exists>c. load_user vm a = Inr c" if "addr \<le> a" "a < lim" for a using assms [OF Some that] .
  then obtain r where "fetch_loop addr lim vm [] = Inr r" "case r of Some str \<Rightarrow> \<exists>t. str = [] @ t \<and> str_at vm addr t \<and> unat addr + length t < unat lim
     | None \<Rightarrow> \<forall>a. addr \<le> a \<longrightarrow> a < lim \<longrightarrow> load_user vm a \<noteq> Inr 0"
    using fetch_loop_spec [of addr lim vm "[]"] by blast
  ultimately show ?thesis using Some by (intro exI [of _ r]) (auto split: option.splits)
qed

text \<open>A process of 32 bytes of heap, on a memory whose every entry maps to one page; byte 26 of it is zero.\<close>

definition sample_uvm :: vmem where
  "sample_uvm = \<lparr>vm_mem = (\<lambda>a. if a = P2Kw 0x41414141401A then 0 else 65),
     vm_mm = init_memmory_manager_table \<lparr>fl_next = 0, fl_mem = (\<lambda>_. 0)\<rparr> undefined, vm_ttbr0 = 0\<rparr>"

definition sample_uproc :: proc where
  "sample_uproc = zero_proc\<lparr>base := 0, sz := 32\<rparr>"

lemma sample_load: "24 \<le> a \<Longrightarrow> a < 32 \<Longrightarrow> load_user sample_uvm a = Inr (if a = 26 then 0 else 65)"
proof -
  assume a: "24 \<le> a" "a < 32"
  then have "unat a \<in> {24, 25, 26, 27, 28, 29, 30, 31}" by (auto simp: word_le_nat_alt word_less_nat_alt)
  then have cs: "a \<in> {24, 25, 26, 27, 28, 29, 30, 31}" by (auto simp: word_unat_eq_iff)
  have g: "get64 (vm_mem sample_uvm) x = 0x4141414141414141" if "x \<in> {P2Kw 0, P2Kw 0x414141414000}" for x
    using that by (auto simp: get64_def sample_uvm_def P2Kw_def KMASK_def upt_rec)
  have t: "vm_ttbr0 sample_uvm = 0" by (simp add: sample_uvm_def)
  have "drop_bit 12 a = 0" using cs by auto
  then have i: "walk_index a n = 0" "a AND 0xFFF = a" for n using cs by (auto simp only: walk_index_def drop_bit_of_0 and_zero_eq zero_and_eq) auto
  have n: "pt_next (vm_mem sample_uvm) a n x = Some (P2Kw 0x414141414000)" if "x \<in> {P2Kw 0, P2Kw 0x414141414000}" for n x
    unfolding pt_next_def i pte_addr_def Let_def using g [OF that] by simp
  have "translate sample_uvm a = Some (P2Kw 0x414141414000 + a)"
    unfolding translate_def t i by (simp add: n)
  then show ?thesis using cs by (auto simp: load_user_def sample_uvm_def P2Kw_def KMASK_def)
qed

theorem fetchstr_correct_witness:
  "\<exists>str. fetchstr sample_uproc 24 sample_uvm = Inr (Some str) \<and> str_at sample_uvm 24 str"
proof -
  have lim: "str_limit sample_uproc 24 = Some 32" by (simp add: str_limit_def sample_uproc_def)
  obtain r where r: "fetchstr sample_uproc 24 sample_uvm = Inr r"
    "case r of Some str \<Rightarrow> str_at sample_uvm 24 str \<and> (\<exists>lim. str_limit sample_uproc 24 = Some lim \<and> unat (24 :: u64) + length str < unat lim)
     | None \<Rightarrow> \<forall>lim. str_limit sample_uproc 24 = Some lim \<longrightarrow> (\<forall>a. 24 \<le> a \<longrightarrow> a < lim \<longrightarrow> load_user sample_uvm a \<noteq> Inr 0)"
    using fetchstr_correct [of sample_uproc 24 sample_uvm] sample_load lim by auto
  moreover have "load_user sample_uvm 26 = Inr 0" using sample_load [of 26] by simp
  ultimately show ?thesis using lim by (cases r) auto
qed

section \<open>Ranges\<close>

text \<open>The two ranges of a process, as numbers.\<close>

definition in_range :: "u64 \<Rightarrow> u64 \<Rightarrow> u64 \<Rightarrow> u64 \<Rightarrow> bool" where
  "in_range lo hi s n \<longleftrightarrow> unat lo \<le> unat s \<and> unat s + unat n \<le> unat hi"

text \<open>C36: \<open>in_user\<close> accepts exactly the ranges inside the heap or the stack of the process when \<open>s + n\<close> does not wrap
  around; but the sum is not checked: from any start above the base, whatever lies there, the length \<open>sz - s\<close>
  (for a start beyond the heap a huge number) passes the check although the range leaves the process.\<close>

theorem in_user_bounds:
  "(unat s + unat n < 2 ^ 64 \<longrightarrow> (in_user p s n \<longleftrightarrow> in_range (base p) (sz p) s n \<or> in_range (USPACE_TOP - stksz p) USPACE_TOP s n)) \<and>
   (base p \<le> s \<and> sz p < s \<longrightarrow> in_user p s (sz p - s) \<and> \<not> in_range (base p) (sz p) s (sz p - s) \<and> unat (sz p - s) = 2 ^ 64 - (unat s - unat (sz p)))"
proof (intro conjI impI)
  assume "unat s + unat n < 2 ^ 64"
  then have "unat (s + n) = unat s + unat n" using unat_add_lem [of s n] by simp
  then show "in_user p s n \<longleftrightarrow> in_range (base p) (sz p) s n \<or> in_range (USPACE_TOP - stksz p) USPACE_TOP s n"
    unfolding in_user_def in_range_def word_le_nat_alt by simp
next
  assume a: "base p \<le> s \<and> sz p < s"
  then show "in_user p s (sz p - s)" by (simp add: in_user_def)
  have lt: "unat (sz p) < unat s" using a by (simp add: word_less_nat_alt)
  then show "\<not> in_range (base p) (sz p) s (sz p - s)" by (simp add: in_range_def)
  show "unat (sz p - s) = 2 ^ 64 - (unat s - unat (sz p))"
    using unat_sub_if_size [where x = "sz p" and y = s] lt by (simp add: word_le_nat_alt word_size)
qed

theorem in_user_bounds_witness:
  "in_user sample_uproc 8192 (32 - 8192) \<and> \<not> in_user sample_uproc 8192 4"
  using in_user_bounds [of 8192 4 sample_uproc] by (simp add: sample_uproc_def zero_proc_def in_range_def)

end
