(* ===== verification/ExecSpec.thy ===== *)
theory ExecSpec
  imports Exec SysCallSpec
begin

text \<open>
  \<open>execve\<close> as a transaction on the process: a failed call leaves the whole process table as it was, whatever it
  had loaded before the failure; a successful one installs entry point, stack pointer and sizes together.
\<close>

section \<open>What loading leaves alone\<close>

definition same_procs :: "'c kernel \<Rightarrow> 'c kernel \<Rightarrow> bool" where
  "same_procs k k' \<longleftrightarrow> conts k' = conts k \<and> kproc k' = kproc k"

lemma same_procs_refl [simp]: "same_procs k k"
  by (simp add: same_procs_def)


lemma same_procs_kvm [simp]: "same_procs k (k'\<lparr>kvm := v\<rparr>) \<longleftrightarrow> same_procs k k'" "same_procs (k\<lparr>kvm := v\<rparr>) k' \<longleftrightarrow> same_procs k k'"
  by (simp_all add: same_procs_def)
















section \<open>Success and failure\<close>










end
