(* ===== verification/PageTable.thy ===== *)
theory PageTable
  imports VirtMem "HOL-Library.Sublist"
begin

text \<open>
  Page tables as tries.  The locale \<open>table_memory\<close> is what the page-table code relies on: a memory in which tables
  have 512 entries that can be read, written and cleared.  Inside it \<open>tab\<close> follows a list of indices from the root
  and \<open>leaf\<close> is the entry a whole address selects; the lemmas say what adding a table and writing a last-level
  entry do to every address.  The interpretation is the byte memory of \<open>VirtMem\<close>.
\<close>

definition present :: "u64 \<Rightarrow> bool" where "present e \<longleftrightarrow> e AND PTE_VALID \<noteq> 0"

definition next_table :: "u64 \<Rightarrow> u64" where "next_table e = P2Kw (PTE_ADDRESS e)"

definition index_list :: "nat list \<Rightarrow> bool" where
  "index_list xs \<longleftrightarrow> length xs \<le> 3 \<and> (\<forall>i\<in>set xs. i < 512)"

lemma index_list_snoc: "index_list (xs @ [i]) \<Longrightarrow> index_list xs \<and> i < 512 \<and> length xs \<le> 2"
  by (simp add: index_list_def)

locale table_memory =
  fixes ent :: "'m \<Rightarrow> u64 \<Rightarrow> nat \<Rightarrow> u64"
    and put :: "u64 \<Rightarrow> nat \<Rightarrow> u64 \<Rightarrow> 'm \<Rightarrow> 'm"
    and clear :: "u64 \<Rightarrow> 'm \<Rightarrow> 'm"
    and table :: "u64 \<Rightarrow> bool"
  assumes ent_put: "\<lbrakk>table t; table u; i < 512; j < 512\<rbrakk> \<Longrightarrow> ent (put t i v m) u j = (if u = t \<and> j = i then v else ent m u j)"
    and ent_clear: "\<lbrakk>table t; table u; j < 512\<rbrakk> \<Longrightarrow> ent (clear t m) u j = (if u = t then 0 else ent m u j)"
    and link: "table t \<Longrightarrow> present (K2P t OR PTE_TABLE) \<and> next_table (K2P t OR PTE_TABLE) = t"
begin

text \<open>The table reached from \<open>r\<close> along a list of indices.\<close>

fun tab :: "'m \<Rightarrow> u64 \<Rightarrow> nat list \<Rightarrow> u64 option" where
  "tab m r [] = Some r"
| "tab m r (i # is) = (if present (ent m r i) then tab m (next_table (ent m r i)) is else None)"

definition leaf :: "'m \<Rightarrow> u64 \<Rightarrow> nat list \<Rightarrow> nat \<Rightarrow> u64 option" where
  "leaf m r xs i = (case tab m r xs of None \<Rightarrow> None | Some t \<Rightarrow> if present (ent m t i) then Some (ent m t i) else None)"

text \<open>A tree without sharing, none of whose tables is a free page.\<close>

definition tree :: "'m \<Rightarrow> u64 \<Rightarrow> u64 set \<Rightarrow> bool" where
  "tree m r F \<longleftrightarrow> (\<forall>xs t. index_list xs \<longrightarrow> tab m r xs = Some t \<longrightarrow> table t \<and> t \<notin> F) \<and>
     (\<forall>xs ys t. index_list xs \<longrightarrow> index_list ys \<longrightarrow> tab m r xs = Some t \<longrightarrow> tab m r ys = Some t \<longrightarrow> xs = ys)"

lemma tree_table: "\<lbrakk>tree m r F; index_list xs; tab m r xs = Some t\<rbrakk> \<Longrightarrow> table t \<and> t \<notin> F"
  unfolding tree_def by blast

lemma tree_inj: "\<lbrakk>tree m r F; index_list xs; index_list ys; tab m r xs = Some t; tab m r ys = Some t\<rbrakk> \<Longrightarrow> xs = ys"
  unfolding tree_def by blast

lemma tab_snoc: "tab m r (xs @ [i]) =
    (case tab m r xs of None \<Rightarrow> None | Some t \<Rightarrow> if present (ent m t i) then Some (next_table (ent m t i)) else None)"
  by (induction xs arbitrary: r) simp_all

lemma tab_None_append: "tab m r xs = None \<Longrightarrow> tab m r (xs @ ys) = None"
  by (induction xs arbitrary: r) (auto split: if_splits)

lemma new_table:
  assumes "tree m r F" "index_list (xs @ [i])" "tab m r xs = Some t" "\<not> present (ent m t i)" "p \<in> F" "table p"
    "m' = put t i (K2P p OR PTE_TABLE) (clear p m)"
  shows "index_list ys \<Longrightarrow> tab m' r ys = (if prefix (xs @ [i]) ys then (if ys = xs @ [i] then Some p else None) else tab m r ys)"
    and "tree m' r (F - {p})"
    and "\<lbrakk>index_list ys; length ys = 3; j < 512\<rbrakk> \<Longrightarrow> leaf m' r ys j = leaf m r ys j"
proof -
  have xs: "index_list xs" "i < 512" "length xs \<le> 2" using index_list_snoc [OF assms(2)] by simp_all
  have t: "table t" "t \<noteq> p" using tree_table [OF assms(1) xs(1) assms(3)] assms(5) by auto
  have e: "ent m' u j = (if u = t \<and> j = i then K2P p OR PTE_TABLE else if u = p then 0 else ent m u j)" if "table u" "j < 512" for u j
    using that t assms(6,7) xs(2) by (simp add: ent_put ent_clear)
  have other: "tab m' r zs = tab m r zs" if "index_list zs" "\<not> prefix (xs @ [i]) zs" for zs
    using that
  proof (induction zs rule: rev_induct)
    case (snoc j zs)
    have z: "index_list zs" "j < 512" using index_list_snoc [OF snoc.prems(1)] by simp_all
    have "\<not> prefix (xs @ [i]) zs" using snoc.prems(2) by (auto simp: prefix_def)
    then have IH: "tab m' r zs = tab m r zs" using snoc.IH z(1) by blast
    show ?case
    proof (cases "tab m r zs")
      case None
      then show ?thesis using IH by (simp add: tab_snoc)
    next
      case (Some u)
      have u: "table u" "u \<noteq> p" using tree_table [OF assms(1) z(1) Some] assms(5) by auto
      have "\<not> (u = t \<and> j = i)" using tree_inj [OF assms(1) z(1) xs(1) Some] assms(3) snoc.prems(2) by auto
      then have "ent m' u j = ent m u j" using e [OF u(1) z(2)] u(2) by auto
      then show ?thesis using IH Some by (simp add: tab_snoc)
    qed
  qed simp
  have "\<not> prefix (xs @ [i]) xs" by (auto simp: prefix_def)
  then have at: "tab m' r (xs @ [i]) = Some p"
    using other [OF xs(1)] assms(3) e [OF t(1) xs(2)] link [OF assms(6)] by (simp add: tab_snoc)
  have below: "tab m' r (xs @ [i] @ j # zs) = None" if "j < 512" for j zs
  proof -
    have "tab m' r ((xs @ [i]) @ [j]) = None" unfolding tab_snoc [of m' r "xs @ [i]"] at using e [OF assms(6) that] t(2) by (simp add: present_def)
    from tab_None_append [OF this, of zs] show ?thesis by simp
  qed
  have was: "tab m r (xs @ [i] @ zs) = None" for zs
  proof -
    have "tab m r (xs @ [i]) = None" using assms(3,4) by (simp add: tab_snoc)
    from tab_None_append [OF this, of zs] show ?thesis by simp
  qed
  show tabs: "tab m' r ys = (if prefix (xs @ [i]) ys then (if ys = xs @ [i] then Some p else None) else tab m r ys)" if "index_list ys" for ys
  proof (cases "prefix (xs @ [i]) ys")
    case True
    then obtain zs where zs: "ys = (xs @ [i]) @ zs" by (auto simp: prefix_def)
    show ?thesis
    proof (cases zs)
      case Nil
      then show ?thesis using zs at by simp
    next
      case (Cons j ws)
      then have "j < 512" using zs that by (simp add: index_list_def)
      then show ?thesis using zs Cons below [of j ws] True by simp
    qed
  next
    case False
    then show ?thesis using other [OF that] by simp
  qed
  show "tree m' r (F - {p})" unfolding tree_def
  proof (intro conjI allI impI)
    show "table u" if "index_list zs" "tab m' r zs = Some u" for zs u
      using that tabs [OF that(1)] assms(6) tree_table [OF assms(1) that(1)] by (auto split: if_splits)
    show "u \<notin> F - {p}" if "index_list zs" "tab m' r zs = Some u" for zs u
      using that tabs [OF that(1)] tree_table [OF assms(1) that(1)] by (auto split: if_splits)
    show "zs = ws" if z: "index_list zs" "index_list ws" "tab m' r zs = Some u" "tab m' r ws = Some u" for zs ws u
      using tabs [OF z(1)] tabs [OF z(2)] z(3,4) tree_table [OF assms(1) z(1)] tree_table [OF assms(1) z(2)]
        tree_inj [OF assms(1) z(1,2)] assms(5) by (auto split: if_splits) metis
  qed
  show "leaf m' r ys j = leaf m r ys j" if y: "index_list ys" "length ys = 3" "j < 512" for ys j
  proof (cases "prefix (xs @ [i]) ys")
    case True
    then obtain zs where zs: "ys = xs @ [i] @ zs" by (auto simp: prefix_def)
    have "leaf m' r ys j = None" using tabs [OF y(1)] True e [OF assms(6) y(3)] t(2) by (simp add: leaf_def present_def)
    then show ?thesis using was [of zs] zs by (simp add: leaf_def)
  next
    case False
    then have same: "tab m' r ys = tab m r ys" by (rule other [OF y(1)])
    show ?thesis
    proof (cases "tab m r ys")
      case (Some u)
      have u: "table u" "u \<noteq> p" using tree_table [OF assms(1) y(1) Some] assms(5) by auto
      have "u \<noteq> t" using tree_inj [OF assms(1) y(1) xs(1) Some] assms(3) y(2) xs(3) by auto
      then show ?thesis using same Some e [OF u(1) y(3)] u(2) by (simp add: leaf_def)
    qed (simp add: same leaf_def)
  qed
qed

lemma set_leaf:
  assumes "tree m r F" "index_list xs" "length xs = 3" "tab m r xs = Some t" "i < 512" "m' = put t i v m"
  shows "index_list ys \<Longrightarrow> tab m' r ys = tab m r ys"
    and "tree m' r F"
    and "\<lbrakk>index_list ys; length ys = 3; j < 512; present v\<rbrakk> \<Longrightarrow> leaf m' r ys j = (if ys = xs \<and> j = i then Some v else leaf m r ys j)"
proof -
  have t: "table t" using tree_table [OF assms(1,2,4)] by simp
  have e: "ent m' u j = (if u = t \<and> j = i then v else ent m u j)" if "table u" "j < 512" for u j
    using that t assms(5,6) by (simp add: ent_put)
  show tabs: "tab m' r ys = tab m r ys" if "index_list ys" for ys
    using that
  proof (induction ys rule: rev_induct)
    case (snoc j zs)
    have z: "index_list zs" "j < 512" "length zs \<le> 2" using index_list_snoc [OF snoc.prems(1)] by simp_all
    show ?case
    proof (cases "tab m r zs")
      case (Some u)
      have "table u" using tree_table [OF assms(1) z(1) Some] by simp
      moreover have "u \<noteq> t" using tree_inj [OF assms(1) z(1) assms(2) Some] assms(3,4) z(3) by auto
      ultimately show ?thesis using snoc.IH [OF z(1)] Some e [of u j] z(2) by (simp add: tab_snoc)
    qed (use snoc.IH [OF z(1)] in \<open>simp add: tab_snoc\<close>)
  qed simp
  then show "tree m' r F" using assms(1) unfolding tree_def by simp
  show "leaf m' r ys j = (if ys = xs \<and> j = i then Some v else leaf m r ys j)" if y: "index_list ys" "length ys = 3" "j < 512" "present v" for ys j
  proof (cases "tab m r ys")
    case None
    then show ?thesis using tabs [OF y(1)] assms(4) by (auto simp: leaf_def)
  next
    case (Some u)
    have "table u" using tree_table [OF assms(1) y(1) Some] by simp
    moreover have "u = t \<longleftrightarrow> ys = xs" using tree_inj [OF assms(1) y(1) assms(2) Some] assms(4) Some by auto
    ultimately show ?thesis using tabs [OF y(1)] Some e [of u j] y(3,4) by (auto simp: leaf_def)
  qed
qed

end

section \<open>Tables in byte memory\<close>

text \<open>A page in the window of the kernel: physical addresses below 4 GiB, which \<open>PTE_ADDRESS\<close> keeps.\<close>

definition kpage :: "u64 \<Rightarrow> bool" where
  "kpage t \<longleftrightarrow> (\<exists>a. t = P2Kw (of_nat (4096 * a)) \<and> a < 2 ^ 20)"

definition pte_of :: "mem \<Rightarrow> u64 \<Rightarrow> nat \<Rightarrow> u64" where
  "pte_of m t i = get64 m (pte_addr t (of_nat i))"

definition put_pte :: "u64 \<Rightarrow> nat \<Rightarrow> u64 \<Rightarrow> mem \<Rightarrow> mem" where
  "put_pte t i v = put64 (pte_addr t (of_nat i)) v"

definition clear_page :: "u64 \<Rightarrow> mem \<Rightarrow> mem" where
  "clear_page t = mem_zero t PAGE_SIZE"

lemma kpage_unat:
  assumes "a < 2 ^ 20"
  shows "unat (P2Kw (of_nat (4096 * a))) = 4096 * (a + 4503530907893760)"
proof -
  have "4096 * a < 2 ^ 32" using assms by simp
  then have u: "unat (of_nat (4096 * a) :: u64) = 4096 * a" by (simp only: unat_of_nat take_bit_eq_mod) simp
  have "unat (of_nat (4096 * a) :: u64) + unat KMASK < 2 ^ 64" unfolding u KMASK_def using assms by simp
  then have "unat (of_nat (4096 * a) + KMASK) = unat (of_nat (4096 * a) :: u64) + unat KMASK" using unat_add_lem [of "of_nat (4096 * a)" KMASK] by simp
  then show ?thesis unfolding P2Kw_def u by (simp add: KMASK_def)
qed

lemma kpageE:
  assumes "kpage t"
  obtains a where "t = P2Kw (of_nat (4096 * a))" "a < 2 ^ 20" "unat t = 4096 * (a + 4503530907893760)"
  using assms kpage_unat unfolding kpage_def by blast

lemma unat_pte_addr:
  assumes "kpage t" "i < 512"
  shows "unat (pte_addr t (of_nat i)) = unat t + 8 * i"
proof -
  obtain a where a: "a < 2 ^ 20" "unat t = 4096 * (a + 4503530907893760)" using assms(1) by (rule kpageE)
  have i: "unat (of_nat i * 8 :: u64) = 8 * i"
  proof -
    have "(of_nat i * 8 :: u64) = of_nat (8 * i)" by simp
    moreover have "8 * i < 2 ^ 64" using assms(2) by simp
    ultimately show ?thesis by (simp only: unat_of_nat take_bit_eq_mod) simp
  qed
  have "unat t + unat (of_nat i * 8 :: u64) < 2 ^ 64" unfolding i a(2) using a(1) assms(2) by simp
  then show ?thesis unfolding pte_addr_def using unat_add_lem [of t "of_nat i * 8"] i by simp
qed

lemma unat_byte_of:
  assumes "unat (a :: u64) mod 8 = 0" "n < 8"
  shows "unat (a + of_nat n) = unat a + n"
proof -
  have "unat a < 2 ^ 64" using unsigned_less [of a, where ?'a = nat] by simp
  moreover obtain q where q: "unat a = 8 * q" using assms(1) by (auto simp: mod_eq_0_iff_dvd)
  ultimately have "q < 2 ^ 61" by simp
  then have "unat a + n < 2 ^ 64" using q assms(2) by simp
  moreover have "unat (of_nat n :: u64) = n" using assms(2) by (simp add: unat_of_nat take_bit_eq_mod)
  ultimately show ?thesis using unat_add_lem [of a "of_nat n"] by simp
qed

lemma get64_cong: "(\<And>n. n < 8 \<Longrightarrow> m (a + of_nat n) = m' (a + of_nat n)) \<Longrightarrow> get64 m a = get64 m' a"
  unfolding get64_def by (rule arg_cong [where f = "\<lambda>l. word_of_nat (le_nat l)"]) simp

lemma get64_put64: "get64 (put64 a v m) a = v"
proof -
  have "map (\<lambda>i. put64 a v m (a + of_nat i)) [0..<8] = le_bytes 8 (unat v)"
    by (rule nth_equalityI) (simp_all add: put64_def unat_of_nat take_bit_eq_mod)
  moreover have "unat v < 256 ^ 8" using unsigned_less [of v, where ?'a = nat] by simp
  ultimately show ?thesis unfolding get64_def by (simp add: le_nat_le_bytes)
qed

lemma get64_put64_other:
  assumes "unat a mod 8 = 0" "unat b mod 8 = 0" "a \<noteq> b"
  shows "get64 (put64 a v m) b = get64 m b"
proof (rule get64_cong)
  fix n :: nat assume n: "n < 8"
  have "\<not> unat (b + of_nat n - a) < 8"
  proof
    assume j: "unat (b + of_nat n - a) < 8"
    have "b + of_nat n = a + of_nat (unat (b + of_nat n - a))" by simp
    from arg_cong [OF this, of unat] have eq: "unat b + n = unat a + unat (b + of_nat n - a)"
      unfolding unat_byte_of [OF assms(2) n] unat_byte_of [OF assms(1) j] .
    then have "unat b div 8 = unat a div 8" using assms(1,2) n j by (metis div_less div_plus_div_distrib_dvd_left mod_eq_0_iff_dvd add.right_neutral)
    then have "unat b = unat a" using assms(1,2) by (metis mult_div_mod_eq)
    then show False using assms(3) by (simp add: word_unat_eq_iff)
  qed
  then show "put64 a v m (b + of_nat n) = m (b + of_nat n)" by (simp add: put64_def)
qed

lemma in_page:
  assumes "kpage t"
  shows "unat (x - t) < 4096 \<longleftrightarrow> unat x div 4096 = unat t div 4096"
proof -
  obtain a where a: "a < 2 ^ 20" "unat t = 4096 * (a + 4503530907893760)" using assms by (rule kpageE)
  let ?q = "a + 4503530907893760"
  have x: "unat x < 2 ^ 64" using unsigned_less [of x, where ?'a = nat] by simp
  have d: "unat t div 4096 = ?q" using a(2) by simp
  show ?thesis
  proof (cases "unat t \<le> unat x")
    case True
    then have "unat (x - t) = unat x - 4096 * ?q" using a(2) by (simp add: unat_sub word_le_nat_alt)
    moreover have "unat x - 4096 * ?q < 4096 \<longleftrightarrow> unat x div 4096 = ?q" using True a(2) by (auto simp: div_nat_eqI)
    ultimately show ?thesis using d by simp
  next
    case False
    then have "unat (x - t) = unat x + 2 ^ 64 - unat t" using unat_sub_if_size [of x t] by (simp add: word_size)
    moreover have "unat t + 4096 \<le> 2 ^ 64" using a by simp
    ultimately have "\<not> unat (x - t) < 4096" by linarith
    moreover have "unat x div 4096 < ?q" using False a(2) by (simp add: less_mult_imp_div_less mult.commute)
    ultimately show ?thesis using d by simp
  qed
qed

lemma get64_clear:
  assumes "kpage t" "unat b mod 8 = 0"
  shows "get64 (clear_page t m) b = (if unat b div 4096 = unat t div 4096 then 0 else get64 m b)"
proof -
  have d: "unat (b + of_nat n) div 4096 = unat b div 4096" if "n < 8" for n
  proof -
    obtain q where q: "unat b = 8 * q" using assms(2) by (auto simp: mod_eq_0_iff_dvd)
    have "(8 * q + n) div 4096 = (8 * q + n) div 8 div 512" by (simp add: div_mult2_eq [symmetric])
    also have "(8 * q + n) div 8 = q" using that by simp
    also have "q div 512 = 8 * q div 4096" by simp
    finally show ?thesis using unat_byte_of [OF assms(2) that] q by simp
  qed
  show ?thesis
  proof (cases "unat b div 4096 = unat t div 4096")
    case True
    then have "map (\<lambda>i. clear_page t m (b + of_nat i)) [0..<8] = replicate 8 0"
      by (intro nth_equalityI) (simp_all add: clear_page_def mem_zero_def in_page [OF assms(1)] d)
    then show ?thesis using True unfolding get64_def by simp
  next
    case False
    then have "get64 (clear_page t m) b = get64 m b"
      by (intro get64_cong) (simp add: clear_page_def mem_zero_def in_page [OF assms(1)] d)
    then show ?thesis using False by simp
  qed
qed

lemma pte_addr_facts:
  assumes "kpage t" "i < 512"
  shows "unat (pte_addr t (of_nat i)) mod 8 = 0" "unat (pte_addr t (of_nat i)) div 4096 = unat t div 4096"
proof -
  obtain a where a: "unat t = 4096 * (a + 4503530907893760)" using assms(1) by (rule kpageE)
  have "unat (pte_addr t (of_nat i)) = 8 * (512 * (a + 4503530907893760) + i)" using unat_pte_addr [OF assms] a by simp
  then show "unat (pte_addr t (of_nat i)) mod 8 = 0" by simp
  show "unat (pte_addr t (of_nat i)) div 4096 = unat t div 4096" using unat_pte_addr [OF assms] a assms(2) by simp
qed

lemma kpage_div:
  assumes "kpage t" "kpage u"
  shows "unat u div 4096 = unat t div 4096 \<longleftrightarrow> u = t"
proof -
  obtain a where a: "unat t = 4096 * (a + 4503530907893760)" using assms(1) by (rule kpageE)
  obtain b where b: "unat u = 4096 * (b + 4503530907893760)" using assms(2) by (rule kpageE)
  have "unat u div 4096 = unat t div 4096 \<longleftrightarrow> b = a" unfolding a b by simp
  moreover have "unat u = unat t \<longleftrightarrow> b = a" unfolding a b by simp
  ultimately show ?thesis by (simp only: word_unat_eq_iff)
qed

lemma pte_addr_inj:
  assumes "kpage t" "kpage u" "i < 512" "j < 512" "pte_addr u (of_nat j) = pte_addr t (of_nat i)"
  shows "u = t \<and> j = i"
proof -
  have "unat u div 4096 = unat t div 4096"
    using pte_addr_facts(2) [OF assms(1,3)] pte_addr_facts(2) [OF assms(2,4)] unfolding assms(5) by linarith
  then have "u = t" using kpage_div [OF assms(1,2)] by blast
  moreover have "unat u + 8 * j = unat t + 8 * i"
    using unat_pte_addr [OF assms(1,3)] unat_pte_addr [OF assms(2,4)] unfolding assms(5) by linarith
  ultimately show ?thesis by simp
qed

text \<open>An entry made of a page of the window and flags: the address comes back, and no bit above 31 is set.\<close>

lemma page_bits:
  assumes "a < 2 ^ 20" "f < 4096"
  shows "(of_nat (4096 * a) OR of_nat f) AND 0xFFFFFFFF = (of_nat (4096 * a) OR of_nat f :: u64)"
    and "PTE_ADDRESS (of_nat (4096 * a) OR of_nat f) = of_nat (4096 * a)"
    and "present (of_nat (4096 * a) OR of_nat f) \<longleftrightarrow> odd f"
proof -
  have x: "(of_nat (4096 * a) :: u64) = push_bit 12 (of_nat a)" by (simp add: push_bit_eq_mult mult.commute)
  have ab: "bit a n \<Longrightarrow> n < 20" for n using assms(1) by (metis bit_take_bit_iff take_bit_nat_eq_self_iff)
  have "take_bit 12 f = f" using assms(2) by (simp add: take_bit_nat_eq_self_iff)
  then have fb: "bit f n \<Longrightarrow> n < 12" for n by (metis bit_take_bit_iff)
  have msk: "(0xFFFFFFFF :: u64) = mask 32" "(0xFFFFF000 :: u64) = push_bit 12 (mask 20)" by (simp_all add: mask_eq_exp_minus_1 push_bit_eq_mult)
  show "(of_nat (4096 * a) OR of_nat f) AND 0xFFFFFFFF = (of_nat (4096 * a) OR of_nat f :: u64)" unfolding x msk
    by (rule bit_word_eqI) (auto simp: bit_and_iff bit_or_iff bit_push_bit_iff bit_mask_iff bit_of_nat_iff dest: ab fb)
  show "PTE_ADDRESS (of_nat (4096 * a) OR of_nat f) = of_nat (4096 * a)" unfolding x msk PTE_ADDRESS_def
    by (rule bit_word_eqI) (auto simp: bit_and_iff bit_or_iff bit_push_bit_iff bit_mask_iff bit_of_nat_iff dest: ab fb)
  have "present e \<longleftrightarrow> bit e 0" for e unfolding present_def by (simp add: and_one_eq odd_iff_mod_2_eq_one bit_0 mod2_eq_if)
  moreover have "bit (push_bit 12 (of_nat a) OR of_nat f :: u64) 0 \<longleftrightarrow> bit f 0"
    by (simp only: bit_or_iff bit_push_bit_iff bit_of_nat_iff) simp
  ultimately show "present (of_nat (4096 * a) OR of_nat f) \<longleftrightarrow> odd f" unfolding x by (simp only: bit_0)
qed

lemma kpage_K2P: "K2P (P2Kw a) = a"
  by (simp add: K2P_def P2Kw_def)

lemma kpage_link:
  assumes "kpage t"
  shows "present (K2P t OR PTE_TABLE) \<and> next_table (K2P t OR PTE_TABLE) = t"
proof -
  obtain a where a: "t = P2Kw (of_nat (4096 * a))" "a < 2 ^ 20" using assms by (rule kpageE)
  show ?thesis using page_bits(2,3) [OF a(2), of 3] unfolding a(1) kpage_K2P next_table_def by simp
qed

lemma kpage_low:
  assumes "kpage t"
  shows "(K2P t OR PTE_TABLE) AND 0xFFFFFFFF = K2P t OR PTE_TABLE"
proof -
  obtain a where a: "t = P2Kw (of_nat (4096 * a))" "a < 2 ^ 20" using assms by (rule kpageE)
  show ?thesis using page_bits(1) [OF a(2), of 3] unfolding a(1) kpage_K2P by simp
qed

interpretation bm: table_memory pte_of put_pte clear_page kpage
proof (unfold_locales, goal_cases)
  case (1 t u i j v m)
  show ?case
  proof (cases "u = t \<and> j = i")
    case True
    then show ?thesis by (simp add: pte_of_def put_pte_def get64_put64)
  next
    case False
    then have "pte_addr u (of_nat j) \<noteq> pte_addr t (of_nat i)" using pte_addr_inj [OF 1(1-4)] by blast
    then show ?thesis using False get64_put64_other [OF pte_addr_facts(1) [OF 1(1,3)] pte_addr_facts(1) [OF 1(2,4)]]
      unfolding pte_of_def put_pte_def by auto
  qed
next
  case (2 t u j m)
  show ?case unfolding pte_of_def get64_clear [OF 2(1) pte_addr_facts(1) [OF 2(2,3)]] pte_addr_facts(2) [OF 2(2,3)] kpage_div [OF 2(1,2)] ..
next
  case (3 t)
  then show ?case by (rule kpage_link)
qed

end
