(* ===== verification/VirtMemSpec.thy ===== *)
theory VirtMemSpec
  imports PageTable SysCall
begin

text \<open>
  What mapping does to address translation: \<open>pgdir_walk\<close> with allocation adds the missing tables without changing what
  any address maps to, and \<open>uvm_map\<close> changes exactly the pages it is given, as the hardware (\<open>translate\<close>) sees them.
\<close>

section \<open>Addresses and indices\<close>

text \<open>The indices of virtual page \<open>v\<close>.\<close>

definition vpath :: "nat \<Rightarrow> nat list" where
  "vpath v = [v div 2 ^ 27 mod 512, v div 2 ^ 18 mod 512, v div 2 ^ 9 mod 512]"

definition vpage :: "u64 \<Rightarrow> nat" where "vpage va = unat va div 4096"

lemma index_list_vpath: "index_list (vpath v)" "length (vpath v) = 3"
  by (simp_all add: vpath_def index_list_def)

lemma index_list_take: "index_list xs \<Longrightarrow> index_list (take n xs)"
  by (auto simp: index_list_def dest: in_set_takeD)

lemma vpath_inj:
  assumes "v < 2 ^ 36" "w < 2 ^ 36" "vpath v = vpath w" "v mod 512 = w mod 512"
  shows "v = w"
proof -
  have step: "x = y" if "x div 512 = y div 512" "x mod 512 = y mod 512" for x y :: nat using that by (metis div_mult_mod_eq)
  have d: "v div 2 ^ 27 = w div 2 ^ 27"
  proof -
    have "v div 2 ^ 27 < 512" "w div 2 ^ 27 < 512" using assms(1,2) by (simp_all add: less_mult_imp_div_less)
    then show ?thesis using assms(3) by (simp add: vpath_def)
  qed
  have q: "x div 2 ^ 18 div 512 = x div 2 ^ 27" "x div 2 ^ 9 div 512 = x div 2 ^ 18" for x :: nat
    using div_mult2_eq [of x "2 ^ 18" 512] div_mult2_eq [of x "2 ^ 9" 512] by simp_all
  have l: "v div 2 ^ 18 mod 512 = w div 2 ^ 18 mod 512" "v div 2 ^ 9 mod 512 = w div 2 ^ 9 mod 512" using assms(3) by (simp_all add: vpath_def)
  have "v div 2 ^ 18 = w div 2 ^ 18" using step [of "v div 2 ^ 18" "w div 2 ^ 18"] d l(1) unfolding q by blast
  then have "v div 2 ^ 9 = w div 2 ^ 9" using step [of "v div 2 ^ 9" "w div 2 ^ 9"] l(2) unfolding q by blast
  then show ?thesis using step [of v w] assms(4) by simp
qed

lemma unat_walk_index:
  assumes "n \<le> 3"
  shows "unat (walk_index va n) = vpage va div 2 ^ (9 * (3 - n)) mod 512"
proof -
  have self: "take_bit 64 (unat va) = unat va" using unsigned_less [of va, where ?'a = nat] by (simp add: take_bit_nat_eq_self_iff)
  have m: "(0x1FF :: u64) = mask 9" by (simp add: mask_eq_exp_minus_1)
  have "walk_index va n = take_bit 9 (drop_bit ((3 - n) * 9 + 12) va)" unfolding walk_index_def m by (simp add: take_bit_eq_mask add.commute)
  then have "unat (walk_index va n) = take_bit 9 (drop_bit ((3 - n) * 9 + 12) (unat va))" by (simp add: unsigned_take_bit_eq unsigned_drop_bit_eq self)
  also have "\<dots> = unat va div 2 ^ ((3 - n) * 9 + 12) mod 512" by (simp add: take_bit_eq_mod drop_bit_eq_div)
  also have "unat va div 2 ^ ((3 - n) * 9 + 12) = vpage va div 2 ^ (9 * (3 - n))"
    unfolding vpage_def by (simp add: power_add div_mult2_eq mult.commute)
  finally show ?thesis .
qed

lemma walk_index_of_nat: "n \<le> 3 \<Longrightarrow> walk_index va n = of_nat (vpage va div 2 ^ (9 * (3 - n)) mod 512)"
  using arg_cong [OF unat_walk_index [of n va], of "word_of_nat :: nat \<Rightarrow> u64"] by simp

lemma take_vpath_snoc: "n < 3 \<Longrightarrow> take (Suc n) (vpath v) = take n (vpath v) @ [v div 2 ^ (9 * (3 - n)) mod 512]"
proof -
  assume "n < 3"
  then have "n = 0 \<or> n = 1 \<or> n = 2" by auto
  then show ?thesis by (auto simp: vpath_def)
qed

section \<open>Walking with allocation\<close>

text \<open>A page table of the machine: the free pages are in the window of the kernel, the tables form a tree outside them,
  and the entries have no bits above the 32 that \<open>PTE_ADDRESS\<close> keeps.\<close>

definition low_entries :: "mem \<Rightarrow> u64 \<Rightarrow> bool" where
  "low_entries m r \<longleftrightarrow> (\<forall>xs t j. index_list xs \<longrightarrow> bm.tab m r xs = Some t \<longrightarrow> j < 512 \<longrightarrow> pte_of m t j AND 0xFFFFFFFF = pte_of m t j)"

definition free_set :: "vmem \<Rightarrow> u64 set" where
  "free_set vm = of_nat ` mm_avail (vm_mm vm)"

definition pt_ok :: "u64 \<Rightarrow> vmem \<Rightarrow> bool" where
  "pt_ok r vm \<longleftrightarrow> mm_ready (vm_mm vm) \<and> (\<forall>t\<in>free_set vm. kpage t) \<and> bm.tree (vm_mem vm) r (free_set vm) \<and> low_entries (vm_mem vm) r"

definition page_entry :: "u64 \<Rightarrow> vmem \<Rightarrow> nat \<Rightarrow> u64 option" where
  "page_entry r vm v = bm.leaf (vm_mem vm) r (vpath v) (v mod 512)"

lemma vkalloc_ok:
  assumes "mm_ready (vm_mm vm)" "free_set vm \<noteq> {}"
  shows "\<exists>p m. vkalloc me vm = Inr (p, vm\<lparr>vm_mm := m\<rparr>) \<and> p \<in> free_set vm \<and> p \<noteq> 0 \<and> mm_ready m \<and> free_set (vm\<lparr>vm_mm := m\<rparr>) = free_set vm - {p} \<and>
    card (mm_avail m) = card (mm_avail (vm_mm vm)) - 1"
proof -
  obtain p m where r: "kalloc me (vm_mm vm) = Inr (p, m)" "mm_ready m" "mm_avail m = mm_avail (vm_mm vm) - {p}" "p \<in> mm_avail (vm_mm vm)"
    using km.alloc_ok [OF assms(1), of me] assms(2) by (auto simp: free_set_def)
  have small: "q < 2 ^ 64 \<and> q \<noteq> 0" if "q \<in> mm_avail (vm_mm vm)" for q using km.avail_page [OF assms(1) that] by (simp add: page_addr_def)
  have inj: "of_nat q = (of_nat q' :: u64) \<longleftrightarrow> q = q'" if "q \<in> mm_avail (vm_mm vm)" "q' \<in> mm_avail (vm_mm vm)" for q q'
    using small [OF that(1)] small [OF that(2)] by (simp add: word_unat_eq_iff unat_of_nat take_bit_eq_mod)
  have "free_set (vm\<lparr>vm_mm := m\<rparr>) = free_set vm - {of_nat p}" using r(3,4) inj by (auto simp: free_set_def)
  moreover have "(of_nat p :: u64) \<noteq> 0" using small [OF r(4)] by (simp add: word_unat_eq_iff unat_of_nat take_bit_eq_mod)
  moreover have "card (mm_avail m) = card (mm_avail (vm_mm vm)) - 1" using r(3,4) by simp
  ultimately show ?thesis using r by (intro exI [of _ "of_nat p"] exI [of _ m]) (simp add: vkalloc_def free_set_def)
qed

text \<open>\<open>grown r vm vm'\<close>: \<open>vm'\<close> is a good table in which every page is mapped as in \<open>vm\<close>, after at most \<open>n\<close> allocations.\<close>

definition grown :: "nat \<Rightarrow> u64 \<Rightarrow> vmem \<Rightarrow> vmem \<Rightarrow> bool" where
  "grown n r vm vm' \<longleftrightarrow> pt_ok r vm' \<and> page_entry r vm' = page_entry r vm \<and> vm_ttbr0 vm' = vm_ttbr0 vm \<and>
     card (mm_avail (vm_mm vm)) \<le> card (mm_avail (vm_mm vm')) + n"

lemma grown_trans: "\<lbrakk>grown a r u v; grown b r v w\<rbrakk> \<Longrightarrow> grown (a + b) r u w"
  by (simp add: grown_def)

lemma walk_step_ok:
  assumes "pt_ok r vm" "n < 3" "bm.tab (vm_mem vm) r (take n (vpath (vpage va))) = Some t" "0 < card (mm_avail (vm_mm vm))"
  shows "\<exists>t' vm'. walk_step me va True n (t, vm) = Inr (t', vm') \<and> grown 1 r vm vm' \<and>
    bm.tab (vm_mem vm') r (take (Suc n) (vpath (vpage va))) = Some t'"
proof -
  let ?i = "vpage va div 2 ^ (9 * (3 - n)) mod 512"
  let ?xs = "take n (vpath (vpage va))"
  let ?m = "vm_mem vm"
  have xs: "index_list (?xs @ [?i])" using index_list_take [OF index_list_vpath(1), of "Suc n"] take_vpath_snoc [OF assms(2)] by metis
  have e: "pte_addr t (walk_index va n) = pte_addr t (of_nat ?i)" using walk_index_of_nat [of n va] assms(2) by simp
  have ent: "get64 m (pte_addr t (of_nat ?i)) = pte_of m t ?i" for m by (simp add: pte_of_def)
  have tr: "bm.tree ?m r (free_set vm)" "mm_ready (vm_mm vm)" "low_entries ?m r" "\<And>u. u \<in> free_set vm \<Longrightarrow> kpage u" using assms(1) by (simp_all add: pt_ok_def)
  show ?thesis
  proof (cases "present (pte_of ?m t ?i)")
    case True
    then have "walk_step me va True n (t, vm) = Inr (next_table (pte_of ?m t ?i), vm)"
      by (simp add: walk_step_def e ent present_def next_table_def Let_def)
    moreover have "bm.tab ?m r (take (Suc n) (vpath (vpage va))) = Some (next_table (pte_of ?m t ?i))"
      unfolding take_vpath_snoc [OF assms(2)] bm.tab_snoc using assms(3) True by simp
    ultimately show ?thesis using assms(1) by (intro exI [of _ "next_table (pte_of ?m t ?i)"] exI [of _ vm]) (simp add: grown_def)
  next
    case False
    have "free_set vm \<noteq> {}" using assms(4) by (auto simp: free_set_def)
    from vkalloc_ok [OF tr(2) this, of me] obtain p m where p: "vkalloc me vm = Inr (p, vm\<lparr>vm_mm := m\<rparr>)" "p \<in> free_set vm" "p \<noteq> 0" "mm_ready m"
      "free_set (vm\<lparr>vm_mm := m\<rparr>) = free_set vm - {p}" "card (mm_avail m) = card (mm_avail (vm_mm vm)) - 1" by blast
    let ?m' = "put_pte t ?i (K2P p OR PTE_TABLE) (clear_page p ?m)"
    let ?vm' = "vm\<lparr>vm_mm := m, vm_mem := ?m'\<rparr>"
    note nt = bm.new_table [OF tr(1) xs assms(3) False p(2) tr(4) [OF p(2)] refl]
    have at: "bm.tab ?m' r (take (Suc n) (vpath (vpage va))) = Some p"
      unfolding take_vpath_snoc [OF assms(2)] using nt(1) [OF xs] by simp
    have t: "kpage t" and pn: "p \<noteq> t" using bm.tree_table [OF tr(1) index_list_take [OF index_list_vpath(1)] assms(3)] p(2) by auto
    have ents: "pte_of ?m' u j = (if u = t \<and> j = ?i then K2P p OR PTE_TABLE else if u = p then 0 else pte_of ?m u j)" if "kpage u" "j < 512" for u j
      using that t tr(4) [OF p(2)] by (simp add: bm.ent_put bm.ent_clear)
    have run: "walk_step me va True n (t, vm) = Inr (p, ?vm')"
    proof -
      have "P2Kw (PTE_ADDRESS (pte_of ?m' t ?i)) = p" using ents [OF t] bm.link [OF tr(4) [OF p(2)]] by (simp add: next_table_def)
      moreover have "\<not> (pte_of ?m t ?i AND 1 \<noteq> 0)" using False by (simp add: present_def)
      ultimately show ?thesis unfolding walk_step_def Let_def prod.case e
        using p(1,3) by (simp add: ent upd_mem_def put_pte_def [symmetric] clear_page_def [symmetric])
    qed
    have "low_entries ?m' r" unfolding low_entries_def
    proof (intro allI impI)
      fix ys u j assume y: "index_list ys" "bm.tab ?m' r ys = Some u" "j < (512 :: nat)"
      then have "u = p \<or> bm.tab ?m r ys = Some u" using nt(1) [OF y(1)] by (auto split: if_splits)
      moreover have "kpage u" using bm.tree_table [OF nt(2) y(1,2)] by simp
      moreover have "(K2P p OR 3) AND 0xFFFFFFFF = K2P p OR 3" by (rule kpage_low [OF tr(4) [OF p(2)]])
      ultimately show "pte_of ?m' u j AND 0xFFFFFFFF = pte_of ?m' u j"
        using ents [OF _ y(3), of u] tr(3) y(1,3) pn by (auto simp: low_entries_def)
    qed
    then have "pt_ok r ?vm'" using nt(2) p(4,5) tr(4) by (auto simp: pt_ok_def free_set_def)
    moreover have "page_entry r ?vm' = page_entry r vm" using nt(3) [OF index_list_vpath] by (simp add: page_entry_def fun_eq_iff)
    ultimately have "grown 1 r vm ?vm'" using p(6) by (simp add: grown_def)
    then show ?thesis using run at by (intro exI [of _ p] exI [of _ ?vm']) simp
  qed
qed

lemma pgdir_walk_ok:
  assumes "pt_ok r vm" "3 \<le> card (mm_avail (vm_mm vm))"
  shows "\<exists>t vm'. pgdir_walk me r va True vm = Inr (pte_addr t (of_nat (vpage va mod 512)), vm') \<and> grown 3 r vm vm' \<and>
    bm.tab (vm_mem vm') r (vpath (vpage va)) = Some t"
proof -
  let ?p = "vpath (vpage va)"
  have "bm.tab (vm_mem vm) r (take 0 ?p) = Some r" by simp
  from walk_step_ok [OF assms(1) _ this] assms(2) obtain t1 v1 where 1: "walk_step me va True 0 (r, vm) = Inr (t1, v1)" "grown 1 r vm v1"
    "bm.tab (vm_mem v1) r (take 1 ?p) = Some t1" by fastforce
  have "pt_ok r v1" "0 < card (mm_avail (vm_mm v1))" using 1(2) assms(2) by (auto simp: grown_def)
  from walk_step_ok [OF this(1) _ 1(3) this(2)] obtain t2 v2 where 2: "walk_step me va True 1 (t1, v1) = Inr (t2, v2)" "grown 1 r v1 v2"
    "bm.tab (vm_mem v2) r (take 2 ?p) = Some t2" by (fastforce simp: numeral_2_eq_2)
  have "pt_ok r v2" "0 < card (mm_avail (vm_mm v2))" using 2(2) 1(2) assms(2) by (auto simp: grown_def)
  from walk_step_ok [OF this(1) _ 2(3) this(2)] obtain t3 v3 where 3: "walk_step me va True 2 (t2, v2) = Inr (t3, v3)" "grown 1 r v2 v3"
    "bm.tab (vm_mem v3) r (take 3 ?p) = Some t3" by (fastforce simp: numeral_3_eq_3)
  have "grown (1 + (1 + 1)) r vm v3" by (rule grown_trans [OF 1(2) grown_trans [OF 2(2) 3(2)]])
  then have g: "grown 3 r vm v3" by (simp add: numeral_3_eq_3)
  have i: "drop_bit 12 va AND 0x1FF = of_nat (vpage va mod 512)" using walk_index_of_nat [of 3 va] by (simp add: walk_index_def)
  have "for_each (walk_step me va True) [0..<3] (r, vm) = Inr (t3, v3)" using 1(1) 2(1) 3(1) by (simp add: upt_rec numeral_2_eq_2)
  then have "pgdir_walk me r va True vm = Inr (pte_addr t3 (of_nat (vpage va mod 512)), v3)" unfolding pgdir_walk_def i by simp
  moreover have "bm.tab (vm_mem v3) r ?p = Some t3" using 3(3) by (simp add: index_list_vpath(2))
  ultimately show ?thesis using g by blast
qed

section \<open>Mapping\<close>

text \<open>\<open>mapped n r v e vm vm'\<close>: from \<open>vm\<close> to \<open>vm'\<close> only the pages in the domain of \<open>e\<close> have changed, to the entries given by it.\<close>

definition mapped :: "nat \<Rightarrow> u64 \<Rightarrow> (nat \<rightharpoonup> u64) \<Rightarrow> vmem \<Rightarrow> vmem \<Rightarrow> bool" where
  "mapped n r e vm vm' \<longleftrightarrow> pt_ok r vm' \<and> vm_ttbr0 vm' = vm_ttbr0 vm \<and> card (mm_avail (vm_mm vm)) \<le> card (mm_avail (vm_mm vm')) + n \<and>
     (\<forall>w<2 ^ 36. page_entry r vm' w = (case e w of None \<Rightarrow> page_entry r vm w | Some x \<Rightarrow> Some x))"

lemma mapped_trans: "\<lbrakk>mapped a r e u v; mapped b r e' v w\<rbrakk> \<Longrightarrow> mapped (a + b) r (e ++ e') u w"
  unfolding mapped_def by (auto simp: map_add_def split: option.splits)

lemma set_page_ok:
  assumes "pt_ok r vm" "bm.tab (vm_mem vm) r (vpath v) = Some t" "v < 2 ^ 36" "a < 2 ^ 20" "x = (of_nat (4096 * a) OR PTE_USER_DATA)"
  shows "mapped 0 r [v \<mapsto> x] vm (upd_mem (put64 (pte_addr t (of_nat (v mod 512))) x) vm)"
proof -
  let ?m' = "put_pte t (v mod 512) x (vm_mem vm)"
  have m: "upd_mem (put64 (pte_addr t (of_nat (v mod 512))) x) vm = vm\<lparr>vm_mem := ?m'\<rparr>" by (simp add: upd_mem_def put_pte_def)
  have tr: "bm.tree (vm_mem vm) r (free_set vm)" and lo: "low_entries (vm_mem vm) r" using assms(1) by (simp_all add: pt_ok_def)
  have t: "kpage t" using bm.tree_table [OF tr index_list_vpath(1) assms(2)] by simp
  have x: "present x" "x AND 0xFFFFFFFF = x" using page_bits(1,3) [OF assms(4), of 1607] by (simp_all add: assms(5))
  have i: "v mod 512 < 512" by simp
  note sl = bm.set_leaf [OF tr index_list_vpath assms(2) i refl, where v = x]
  have "low_entries ?m' r" unfolding low_entries_def
  proof (intro allI impI)
    fix ys u j assume y: "index_list ys" "bm.tab ?m' r ys = Some u" "j < (512 :: nat)"
    then have u: "bm.tab (vm_mem vm) r ys = Some u" using sl(1) by simp
    then have "kpage u" using bm.tree_table [OF tr y(1)] by simp
    then show "pte_of ?m' u j AND 0xFFFFFFFF = pte_of ?m' u j" using bm.ent_put [OF t, of u "v mod 512" j x] lo y(1,3) u x(2) by (simp add: low_entries_def)
  qed
  then have "pt_ok r (vm\<lparr>vm_mem := ?m'\<rparr>)" using assms(1) sl(2) by (simp add: pt_ok_def free_set_def)
  moreover have "page_entry r (vm\<lparr>vm_mem := ?m'\<rparr>) w = (case [v \<mapsto> x] w of None \<Rightarrow> page_entry r vm w | Some y \<Rightarrow> Some y)" if w: "w < 2 ^ 36" for w
    using sl(3) [OF index_list_vpath, of "w mod 512"] x(1) vpath_inj [OF w assms(3)] by (auto simp: page_entry_def)
  ultimately show ?thesis unfolding m mapped_def by simp
qed

lemma map_page_ok:
  assumes "pt_ok r vm" "3 \<le> card (mm_avail (vm_mm vm))" "vpage va < 2 ^ 36" "a < 2 ^ 20" "x = (of_nat (4096 * a) OR PTE_USER_DATA)"
  shows "\<exists>e vm1. pgdir_walk me r va True vm = Inr (e, vm1) \<and> e \<noteq> 0 \<and> mapped 3 r [vpage va \<mapsto> x] vm (upd_mem (put64 e x) vm1)"
proof -
  obtain t vm1 where w: "pgdir_walk me r va True vm = Inr (pte_addr t (of_nat (vpage va mod 512)), vm1)" "grown 3 r vm vm1"
    "bm.tab (vm_mem vm1) r (vpath (vpage va)) = Some t" using pgdir_walk_ok [OF assms(1,2)] by blast
  have ok: "pt_ok r vm1" using w(2) by (simp add: grown_def)
  have "kpage t" using bm.tree_table [OF _ index_list_vpath(1) w(3)] ok by (auto simp: pt_ok_def)
  then have "unat (pte_addr t (of_nat (vpage va mod 512))) \<noteq> 0" by (subst unat_pte_addr) (auto elim!: kpageE)
  then have "pte_addr t (of_nat (vpage va mod 512)) \<noteq> 0" by (metis unat_0)
  moreover have "mapped 3 r [vpage va \<mapsto> x] vm (upd_mem (put64 (pte_addr t (of_nat (vpage va mod 512))) x) vm1)"
    using set_page_ok [OF ok w(3) assms(3-5)] w(2) by (simp add: mapped_def grown_def)
  ultimately show ?thesis using w(1) by blast
qed

lemma unat_page: "v \<le> 2 ^ 36 \<Longrightarrow> unat (of_nat (4096 * v) :: u64) = 4096 * v"
  by (simp only: unat_of_nat take_bit_eq_mod) simp

lemma vpage_page: "v \<le> 2 ^ 36 \<Longrightarrow> vpage (of_nat (4096 * v)) = v"
  unfolding vpage_def by (simp add: unat_page del: of_nat_mult)

text \<open>The entries of a range of \<open>n\<close> pages at \<open>v\<close>, mapped to the physical pages from \<open>a\<close> on.\<close>

definition range_map :: "nat \<Rightarrow> nat \<Rightarrow> nat \<Rightarrow> nat \<rightharpoonup> u64" where
  "range_map v n a = (\<lambda>w. if v \<le> w \<and> w < v + n then Some (of_nat (4096 * (a + (w - v))) OR PTE_USER_DATA) else None)"

lemma range_map_Suc: "range_map v (Suc n) a = [v \<mapsto> of_nat (4096 * a) OR PTE_USER_DATA] ++ range_map (Suc v) n (Suc a)"
proof
  fix w
  have "Suc a + (w - Suc v) = a + (w - v)" if "Suc v \<le> w" using that by simp
  then show "range_map v (Suc n) a w = ([v \<mapsto> of_nat (4096 * a) OR PTE_USER_DATA] ++ range_map (Suc v) n (Suc a)) w"
    unfolding range_map_def map_add_def by (cases "Suc v \<le> w") auto
qed

lemma map_loop_ok:
  assumes "pt_ok r vm" "3 * n \<le> card (mm_avail (vm_mm vm))" "v + n \<le> 2 ^ 36" "a + n \<le> 2 ^ 20"
  shows "\<exists>vm'. map_loop me r (of_nat (4096 * v)) (of_nat (4096 * (v + n))) (of_nat (4096 * a)) vm = Inr vm' \<and> mapped (3 * n) r (range_map v n a) vm vm'"
  using assms
proof (induction n arbitrary: v a vm)
  case 0
  have "mapped 0 r (range_map v 0 a) vm vm" using 0(1) by (auto simp: mapped_def range_map_def)
  then show ?case by (subst map_loop.simps) simp
next
  case (Suc n)
  have lt: "(of_nat (4096 * v) :: u64) < of_nat (4096 * (v + Suc n))"
    unfolding word_less_nat_alt using unat_page [of v] unat_page [of "v + Suc n"] Suc.prems(3) by simp
  have nx: "(of_nat (4096 * v) :: u64) + 4096 = of_nat (4096 * Suc v)" "(of_nat (4096 * a) :: u64) + 4096 = of_nat (4096 * Suc a)" by simp_all
  have nw: "\<not> (of_nat (4096 * Suc v) :: u64) < of_nat (4096 * v)"
    unfolding word_less_nat_alt using unat_page [of v] unat_page [of "Suc v"] Suc.prems(3) by simp
  have v: "vpage (of_nat (4096 * v)) = v" using vpage_page [of v] Suc.prems(3) by simp
  obtain e vm1 where w: "pgdir_walk me r (of_nat (4096 * v)) True vm = Inr (e, vm1)" "e \<noteq> 0"
    "mapped 3 r [v \<mapsto> of_nat (4096 * a) OR PTE_USER_DATA] vm (upd_mem (put64 e (of_nat (4096 * a) OR PTE_USER_DATA)) vm1)"
    using map_page_ok [OF Suc.prems(1) _ _ _ refl, of "of_nat (4096 * v)" a me] v Suc.prems(2-4) by auto
  let ?vm2 = "upd_mem (put64 e (of_nat (4096 * a) OR PTE_USER_DATA)) vm1"
  have "pt_ok r ?vm2" "3 * n \<le> card (mm_avail (vm_mm ?vm2))" using w(3) Suc.prems(2) by (simp_all add: mapped_def)
  from Suc.IH [OF this, of "Suc v" "Suc a"] obtain vm' where
    l: "map_loop me r (of_nat (4096 * Suc v)) (of_nat (4096 * (v + Suc n))) (of_nat (4096 * Suc a)) ?vm2 = Inr vm'"
      "mapped (3 * n) r (range_map (Suc v) n (Suc a)) ?vm2 vm'" using Suc.prems(3,4) by auto
  have "map_loop me r (of_nat (4096 * v)) (of_nat (4096 * (v + Suc n))) (of_nat (4096 * a)) vm = Inr vm'"
    by (subst map_loop.simps) (use lt w(1,2) l(1) nw in \<open>simp add: nx Let_def del: of_nat_mult of_nat_add of_nat_Suc\<close>)
  moreover have "mapped (3 * Suc n) r (range_map v (Suc n) a) vm vm'" using mapped_trans [OF w(3) l(2)] unfolding range_map_Suc by simp
  ultimately show ?case by blast
qed

section \<open>Translation\<close>

lemma low_mask: "e AND 0xFFFFFFFF = e \<Longrightarrow> e AND 0xFFFFFFFFF000 = PTE_ADDRESS (e :: u64)"
proof -
  assume e: "e AND 0xFFFFFFFF = e"
  have "e AND 0xFFFFFFFFF000 = (e AND 0xFFFFFFFF) AND 0xFFFFFFFFF000" unfolding e ..
  also have "\<dots> = e AND (0xFFFFFFFF AND 0xFFFFFFFFF000)" by (rule and.assoc)
  finally show ?thesis by (simp add: PTE_ADDRESS_def)
qed

lemma pt_next_tab:
  assumes "pt_ok r vm" "n \<le> 3" "bm.tab (vm_mem vm) r (take n (vpath (vpage va))) = Some t"
  shows "pt_next (vm_mem vm) va n t = (let e = pte_of (vm_mem vm) t (vpage va div 2 ^ (9 * (3 - n)) mod 512) in if present e then Some (next_table e) else None)"
proof -
  have "low_entries (vm_mem vm) r" using assms(1) by (simp add: pt_ok_def)
  then have "pte_of (vm_mem vm) t j AND 0xFFFFFFFF = pte_of (vm_mem vm) t j" if "j < 512" for j
    using that assms(3) index_list_take [OF index_list_vpath(1)] unfolding low_entries_def by blast
  then show ?thesis unfolding pt_next_def walk_index_of_nat [OF assms(2)] pte_of_def [symmetric]
    by (simp add: Let_def present_def next_table_def low_mask)
qed

lemma translate_page:
  assumes "pt_ok r vm" "vm_ttbr0 vm = K2P r"
  shows "translate vm va = map_option (\<lambda>e. next_table e + (va AND 0xFFF)) (page_entry r vm (vpage va))"
proof -
  let ?p = "vpath (vpage va)" and ?m = "vm_mem vm"
  have step: "(case bm.tab ?m r (take n ?p) of None \<Rightarrow> None | Some t \<Rightarrow> pt_next ?m va n t) = bm.tab ?m r (take (Suc n) ?p)" if "n < 3" for n
    unfolding take_vpath_snoc [OF that] bm.tab_snoc using pt_next_tab [OF assms(1), of n va] that by (auto simp: Let_def split: option.splits)
  have root: "P2Kw (vm_ttbr0 vm) = r" using assms(2) by (simp add: P2Kw_def K2P_def)
  have s: "pt_next ?m va 0 r = bm.tab ?m r (take 1 ?p)"
    "(case bm.tab ?m r (take 1 ?p) of None \<Rightarrow> None | Some t \<Rightarrow> pt_next ?m va 1 t) = bm.tab ?m r (take 2 ?p)"
    "(case bm.tab ?m r (take 2 ?p) of None \<Rightarrow> None | Some t \<Rightarrow> pt_next ?m va 2 t) = bm.tab ?m r ?p"
    using step [of 0] step [of 1] step [of 2] by (simp_all add: numeral_2_eq_2 index_list_vpath(2))
  have fin: "pt_next ?m va 3 t = map_option next_table (page_entry r vm (vpage va))" if "bm.tab ?m r ?p = Some t" for t
    using pt_next_tab [OF assms(1), of 3 va t] that by (simp add: index_list_vpath(2) page_entry_def bm.leaf_def Let_def)
  show ?thesis
  proof (cases "bm.tab ?m r ?p")
    case None
    then show ?thesis unfolding translate_def root s(1) using s(2,3) by (auto simp: page_entry_def bm.leaf_def split: option.splits)
  next
    case (Some t)
    then show ?thesis unfolding translate_def root s(1) using s(2,3) fin [OF Some] by (auto simp: option.map_comp o_def split: option.splits)
  qed
qed

lemma page_offset: "va AND 0xFFF = (of_nat (unat va mod 4096) :: u64)"
proof -
  have m: "(0xFFF :: u64) = mask 12" by (simp add: mask_eq_exp_minus_1)
  have "unat (take_bit 12 va) = unat va mod 4096" by (simp add: take_bit_eq_mod unat_mod)
  then show ?thesis unfolding m take_bit_eq_mask [symmetric] by (metis of_nat_unat ucast_id)
qed

lemma next_table_page: "a < 2 ^ 20 \<Longrightarrow> next_table (of_nat (4096 * a) OR PTE_USER_DATA) = P2Kw (of_nat (4096 * a))"
  using page_bits(2) [of a 1607] by (simp add: next_table_def)

text \<open>C34: \<open>uvm_map\<close> of \<open>n\<close> pages at virtual page \<open>v\<close> to the physical pages from \<open>a\<close> on, with three free pages for each to
  build tables from, succeeds; afterwards the hardware translates every address of the range to the given
  physical memory and every other address as before, and the tables are again a tree outside the free pages.\<close>

theorem uvm_map_translates:
  assumes "pt_ok r vm" "vm_ttbr0 vm = K2P r" "3 * n \<le> card (mm_avail (vm_mm vm))" "v + n \<le> 2 ^ 36" "a + n \<le> 2 ^ 20"
  shows "\<exists>vm'. uvm_map me r (of_nat (4096 * v)) (of_nat (4096 * n)) (of_nat (4096 * a)) vm = Inr vm' \<and> pt_ok r vm' \<and>
    (\<forall>va. unat va < 2 ^ 48 \<longrightarrow> translate vm' va =
       (if v \<le> vpage va \<and> vpage va < v + n then Some (P2Kw (of_nat (4096 * a + (unat va - 4096 * v)))) else translate vm va))"
proof -
  obtain vm' where l: "map_loop me r (of_nat (4096 * v)) (of_nat (4096 * (v + n))) (of_nat (4096 * a)) vm = Inr vm'"
    "mapped (3 * n) r (range_map v n a) vm vm'" using map_loop_ok [OF assms(1,3-5)] by blast
  have ok: "pt_ok r vm'" "vm_ttbr0 vm' = K2P r" using l(2) assms(2) by (simp_all add: mapped_def)
  have rd: "round_down (of_nat (4096 * x)) 4096 = (of_nat (4096 * x) :: u64)" if "x \<le> 2 ^ 36" for x
    using unat_round_down [of "of_nat (4096 * x)" 4096] unat_page [OF that] by (simp add: word_unat_eq_iff del: of_nat_mult)
  have "(of_nat (4096 * v) :: u64) + of_nat (4096 * n) = of_nat (4096 * (v + n))" by (simp add: algebra_simps)
  then have run: "uvm_map me r (of_nat (4096 * v)) (of_nat (4096 * n)) (of_nat (4096 * a)) vm = Inr vm'"
    unfolding uvm_map_def using l(1) rd [of v] rd [of a] assms(4,5) by simp
  have "translate vm' va = (if v \<le> vpage va \<and> vpage va < v + n then Some (P2Kw (of_nat (4096 * a + (unat va - 4096 * v)))) else translate vm va)"
    if va: "unat va < 2 ^ 48" for va
  proof -
    let ?w = "vpage va"
    have w: "?w < 2 ^ 36" using va by (simp add: vpage_def less_mult_imp_div_less)
    then have pe: "page_entry r vm' ?w = (case range_map v n a ?w of None \<Rightarrow> page_entry r vm ?w | Some x \<Rightarrow> Some x)" using l(2) by (simp add: mapped_def)
    show ?thesis
    proof (cases "v \<le> ?w \<and> ?w < v + n")
      case False
      then have "range_map v n a ?w = None" by (simp add: range_map_def)
      then have "translate vm' va = translate vm va" using pe unfolding translate_page [OF ok] translate_page [OF assms(1,2)] by simp
      then show ?thesis using False by auto
    next
      case True
      let ?b = "a + (?w - v)"
      have b: "?b < 2 ^ 20" using True assms(5) by linarith
      have "unat va = 4096 * ?w + unat va mod 4096" by (simp add: vpage_def)
      moreover obtain d where "?w = v + d" using True le_Suc_ex by blast
      ultimately have "4096 * ?b + unat va mod 4096 = 4096 * a + (unat va - 4096 * v)" by simp
      then have "P2Kw (of_nat (4096 * ?b)) + (va AND 0xFFF) = P2Kw (of_nat (4096 * a + (unat va - 4096 * v)))"
        unfolding page_offset P2Kw_def add.commute [of _ KMASK] add.assoc of_nat_add [symmetric] by (rule arg_cong)
      moreover have "page_entry r vm' ?w = Some (of_nat (4096 * ?b) OR PTE_USER_DATA)" using True pe by (simp add: range_map_def)
      ultimately show ?thesis using True next_table_page [OF b] unfolding translate_page [OF ok] by simp
    qed
  qed
  then show ?thesis using run ok(1) by blast
qed

text \<open>An empty table with three free pages.\<close>

definition sample_pages :: "addr list" where "sample_pages = [P2K 8192, P2K 12288, P2K 16384]"

definition sample_ptm :: vmem where
  "sample_ptm = \<lparr>vm_mem = (\<lambda>_. 0), vm_mm = \<lparr>memmory_manager = \<lparr>fl_next = P2K 8192, fl_mem = (\<lambda>p. if p = P2K 8192 then P2K 12288 else if p = P2K 12288 then P2K 16384 else 0)\<rparr>,
     page_init = init_freelist, page_alloc = freelist_alloc, page_free = freelist_free, mmt_lock = \<lparr>locked = False, lcpu = None, lname = ''memory''\<rparr>\<rparr>,
     vm_ttbr0 = 4096\<rparr>"

lemma sample_avail: "mm_ready (vm_mm sample_ptm)" "mm_avail (vm_mm sample_ptm) = set sample_pages" "card (set sample_pages) = 3"
proof -
  have f: "free_pages (memmory_manager (vm_mm sample_ptm)) sample_pages" by (simp add: free_pages_def sample_ptm_def sample_pages_def P2K_def addw_def)
  then show "mm_avail (vm_mm sample_ptm) = set sample_pages" by (rule mm_avail_eq)
  show "mm_ready (vm_mm sample_ptm)" using f unfolding mm_ready_def
    by (intro conjI exI [of _ sample_pages]) (simp_all add: sample_ptm_def sample_pages_def page_addr_def P2K_def addw_def)
qed (simp add: sample_pages_def P2K_def addw_def)

lemma sample_pt_ok: "pt_ok (P2Kw 4096) sample_ptm"
proof -
  have e: "pte_of (vm_mem sample_ptm) t j = 0" for t j by (simp add: pte_of_def get64_def sample_ptm_def map_replicate_const)
  have tb: "bm.tab (vm_mem sample_ptm) (P2Kw 4096) xs = Some t \<longleftrightarrow> xs = [] \<and> t = P2Kw 4096" for xs t
    by (cases xs) (auto simp: e present_def)
  have k: "kpage (P2Kw (of_nat (4096 * a)))" if "a < 2 ^ 20" for a using that unfolding kpage_def by blast
  have fs: "free_set sample_ptm = {P2Kw 8192, P2Kw 12288, P2Kw 16384}"
    by (simp add: free_set_def sample_avail(2) sample_pages_def P2K_def addw_def P2Kw_def KMASK_def)
  have "\<forall>t\<in>free_set sample_ptm. kpage t" using k [of 2] k [of 3] k [of 4] unfolding fs by simp
  moreover have "bm.tree (vm_mem sample_ptm) (P2Kw 4096) (free_set sample_ptm)"
    unfolding bm.tree_def tb fs using k [of 1] by (auto simp: P2Kw_def)
  ultimately show ?thesis using sample_avail(1) by (simp add: pt_ok_def low_entries_def e)
qed

theorem uvm_map_translates_witness:
  "\<exists>vm'. uvm_map 0 (P2Kw 4096) (of_nat (4096 * 5)) (of_nat (4096 * 1)) (of_nat (4096 * 7)) sample_ptm = Inr vm' \<and> translate vm' 20490 = Some (P2Kw 28682) \<and>
     translate vm' 0 = translate sample_ptm 0"
proof -
  have t: "vm_ttbr0 sample_ptm = K2P (P2Kw 4096)" by (simp add: sample_ptm_def K2P_def P2Kw_def)
  have c: "3 * 1 \<le> card (mm_avail (vm_mm sample_ptm))" by (simp add: sample_avail)
  obtain vm' where r: "uvm_map 0 (P2Kw 4096) (of_nat (4096 * 5)) (of_nat (4096 * 1)) (of_nat (4096 * 7)) sample_ptm = Inr vm'"
    "\<And>va. unat va < 2 ^ 48 \<Longrightarrow> translate vm' va =
       (if 5 \<le> vpage va \<and> vpage va < 5 + 1 then Some (P2Kw (of_nat (4096 * 7 + (unat va - 4096 * 5)))) else translate sample_ptm va)"
    using uvm_map_translates [OF sample_pt_ok t c, of 5 7 0] by auto
  have "translate vm' 20490 = Some (P2Kw 28682)" using r(2) [of 20490] by (simp add: vpage_def)
  moreover have "translate vm' 0 = translate sample_ptm 0" using r(2) [of 0] by (simp add: vpage_def)
  ultimately show ?thesis using r(1) by blast
qed

end
