(* ===== verification/Mkfs.thy ===== *)
theory Mkfs
  imports Inode
begin

text \<open>
  \<open>user/mkfs/main.c\<close>, the host program that writes the initial file system.  The image file is a sequence of sectors
  (\<open>SECT_SIZE = BLOCK_SIZE\<close>, so a block is one sector); an input file is given by what the calls of \<open>read\<close> on it
  return, one list of bytes per call, and \<open>open_in\<close> says which inputs can be opened.  \<open>xint\<close> and \<open>xshort\<close> are the identity on a
  little-endian host.  Block numbers, counters and offsets stay far below \<open>2 ^ 32\<close>, so their sums are plain
  additions.  An \<open>exit(1)\<close> is the error \<open>Panic\<close> with its message, as a failed \<open>assert\<close> is.
\<close>

abbreviation (input) BPG :: nat where "BPG \<equiv> (FSSIZE - 2 - LOG_MAX_SIZE) div NGROUPS"
abbreviation (input) NIPG :: nat where "NIPG \<equiv> NINODES div NGROUPS"

record mkst =
  fsimg :: disk
  fslen :: nat
  freeinode :: nat
  freeblock :: nat
  mk_used :: "nat list"
  mk_sb :: SuperBlock

section \<open>Sectors and blocks\<close>

text \<open>\<open>sec * SECT_SIZE\<close> is computed in 32 bits.  Writing past the end of the image fills the gap with zeros.\<close>

definition wsect :: "nat \<Rightarrow> bytes \<Rightarrow> mkst \<Rightarrow> mkst" where
  "wsect sec buf st =
     (let s = sec mod 2 ^ 23 in
      st\<lparr>fsimg := (\<lambda>b. if b = s then take BLOCK_SIZE buf else if fslen st \<le> b \<and> b < s then replicate BLOCK_SIZE 0 else fsimg st b),
         fslen := max (fslen st) (Suc s)\<rparr>)"

definition rsect :: "nat \<Rightarrow> mkst \<Rightarrow> bytes res" where
  "rsect sec st = (let s = sec mod 2 ^ 23 in if s < fslen st then Inr (fsimg st s) else Inl (Panic ''read''))"

text \<open>\<open>SECTS_PER_BLOCK\<close> is 1.\<close>

definition wblock :: "nat \<Rightarrow> bytes \<Rightarrow> mkst \<Rightarrow> mkst" where
  "wblock bnum buf st = wsect bnum buf st"

definition rblock :: "nat \<Rightarrow> mkst \<Rightarrow> bytes res" where
  "rblock bnum st = rsect bnum st"

section \<open>Inodes\<close>

definition IBLOCK :: "nat \<Rightarrow> SuperBlock \<Rightarrow> nat" where
  "IBLOCK i sb = bg_start sb + BPG * (subw 32 i 1 div NIPG) + subw 32 i 1 mod NIPG div INODE_PER_BLOCK"

definition IGROUP :: "nat \<Rightarrow> nat" where
  "IGROUP i = subw 32 i 1 div NIPG"

definition winode :: "nat \<Rightarrow> InodeEntry \<Rightarrow> mkst \<Rightarrow> mkst res" where
  "winode inum ip st =
     (let bn = IBLOCK inum (mk_sb st) in
      bnd (rblock bn st) (\<lambda>buf. Inr (wblock bn (overwrite buf (64 * (inum mod INODE_PER_BLOCK)) (entry_bytes ip)) st)))"

definition rinode :: "nat \<Rightarrow> mkst \<Rightarrow> InodeEntry res" where
  "rinode inum st =
     (let bn = IBLOCK inum (mk_sb st) in
      bnd (rblock bn st) (\<lambda>buf. Inr (bytes_entry (slice buf (64 * (inum mod INODE_PER_BLOCK)) 64))))"

definition ialloc :: "nat \<Rightarrow> mkst \<Rightarrow> (nat \<times> mkst) res" where
  "ialloc type st =
     (let inum = freeinode st;
          st = st\<lparr>freeinode := addw 32 (freeinode st) 1\<rparr>;
          din = zero_entry\<lparr>ity := type, num_links := 1, num_bytes := 0\<rparr> in
      bnd (winode inum din st) (\<lambda>st. Inr (inum, st)))"

section \<open>Appending to a file\<close>

text \<open>\<open>while (used_block[gno] == sb.num_datablocks_per_group) gno = (gno + 1) % NGROUPS\<close>, which does not end when every
  group is full.  The search for the group of an indirect block is the loop of the kernel's \<open>inode_map\<close>, \<open>find_group\<close>.\<close>

partial_function (option) next_group :: "nat list \<Rightarrow> nat \<Rightarrow> nat \<Rightarrow> nat option" where
  "next_group used full gno = (if used ! gno = full then next_group used full ((gno + 1) mod NGROUPS) else Some gno)"

definition free_in_group :: "nat \<Rightarrow> mkst \<Rightarrow> nat" where
  "free_in_group gno st = bg_start (mk_sb st) + gno * BPG + data_start_per_group (mk_sb st) + mk_used st ! gno"

text \<open>\<open>used_block[gno]++\<close> after \<open>freeblock\<close> has been set to \<open>b\<close>.\<close>

definition take_block :: "nat \<Rightarrow> nat \<Rightarrow> mkst \<Rightarrow> mkst" where
  "take_block gno b st = st\<lparr>freeblock := b, mk_used := (mk_used st)[gno := mk_used st ! gno + 1]\<rparr>"

text \<open>The entry of the address block for \<open>indirect_no\<close>, allocated in a group of its own choice when it is empty.\<close>

definition indirect_target :: "nat \<Rightarrow> nat \<Rightarrow> mkst \<Rightarrow> (nat \<times> mkst) res" where
  "indirect_target ind no st =
     bnd (rblock ind st) (\<lambda>buf.
     if get_addrs buf ! no = 0 then
       case find_group (mk_used st) (num_datablocks_per_group (mk_sb st)) ((no div NINBLOCKS_PER_GROUP + 1) mod NGROUPS) 2 of
         None \<Rightarrow> Inl (Blocked ''iappend: every group is full'')
       | Some tgno \<Rightarrow>
           let b = free_in_group tgno st in
           Inr (b, wblock ind (overwrite buf (4 * no) (le_bytes 4 b)) (take_block tgno b st))
     else Inr (get_addrs buf ! no, st))"

text \<open>From the start of an iteration to the choice of the block \<open>x\<close>.\<close>

definition append_target :: "nat \<Rightarrow> nat \<Rightarrow> InodeEntry \<Rightarrow> mkst \<Rightarrow> (nat \<times> nat \<times> InodeEntry \<times> mkst) res" where
  "append_target gno fbn din st =
     (case next_group (mk_used st) (num_datablocks_per_group (mk_sb st)) gno of
        None \<Rightarrow> Inl (Blocked ''iappend: every group is full'')
      | Some gno \<Rightarrow>
          let b = free_in_group gno st; st = st\<lparr>freeblock := b\<rparr> in
          if fbn < INODE_NUM_DIRECT then
            if addrs din ! fbn = 0 then Inr (b, gno, din\<lparr>addrs := (addrs din)[fbn := b]\<rparr>, take_block gno b st)
            else Inr (addrs din ! fbn, gno, din, st)
          else
            let (din, st) = (if indirect din = 0 then (din\<lparr>indirect := b\<rparr>, take_block gno b st) else (din, st)) in
            bnd (indirect_target (indirect din) (fbn - INODE_NUM_DIRECT) st) (\<lambda>(x, st). Inr (x, gno, din, st)))"

text \<open>The loop; \<open>p\<close> are the bytes still to be written, \<open>n\<close> their number.\<close>

function append_loop :: "nat \<Rightarrow> nat \<Rightarrow> InodeEntry \<Rightarrow> bytes \<Rightarrow> mkst \<Rightarrow> (nat \<times> InodeEntry \<times> mkst) res" where
  "append_loop gno offset din p st =
     (if 0 < length p then
        let fbn = offset div BLOCK_SIZE in
        bnd (chk (fbn < INODE_MAX_BLOCKS) ''fbn < INODE_MAX_BLOCKS'') (\<lambda>_.
        bnd (append_target gno fbn din st) (\<lambda>(x, gno, din, st).
        let n1 = min (length p) ((fbn + 1) * BLOCK_SIZE - offset) in
        bnd (rblock x st) (\<lambda>buf.
        append_loop gno (offset + n1) din (drop n1 p) (wblock x (overwrite buf (offset - fbn * BLOCK_SIZE) (take n1 p)) st))))
      else Inr (offset, din, st))"
  by pat_completeness auto
termination
proof (relation "measure (\<lambda>(gno, offset, din, p, st). length p)", goal_cases)
  case 1
  then show ?case by simp
next
  case (2 gno offset din p st fbn x)
  have "offset < (offset div 512 + 1) * 512" using dividend_less_div_times [of 512 offset] by simp
  then show ?case using 2 by simp
qed

definition iappend :: "nat \<Rightarrow> bytes \<Rightarrow> mkst \<Rightarrow> mkst res" where
  "iappend inum p st =
     (let gno = IGROUP inum in
      bnd (rinode inum st) (\<lambda>din.
      bnd (if 0 < length p \<and> \<not> gno < NGROUPS then Inl (Fault ''used_block'') else Inr ()) (\<lambda>_.
      bnd (append_loop gno (num_bytes din) din p st) (\<lambda>(offset, din, st).
      winode inum (din\<lparr>num_bytes := offset\<rparr>) st))))"

section \<open>The bitmaps\<close>

fun set_bits :: "nat list \<Rightarrow> bytes \<Rightarrow> bytes" where
  "set_bits [] buf = buf"
| "set_bits (i # is) buf = set_bits is (buf[i div 8 := or (buf ! (i div 8)) (push_bit (i mod 8) 1)])"

text \<open>One group; more than \<open>8 * BSIZE\<close> bits would run past the end of \<open>buf\<close>.\<close>

definition balloc_group :: "nat \<Rightarrow> mkst \<Rightarrow> mkst res" where
  "balloc_group gno st =
     (let groupused = mk_used st ! gno; sb = mk_sb st in
      bnd (chk (groupused \<le> num_datablocks_per_group sb) ''groupused <= sb.num_datablocks_per_group'') (\<lambda>_.
      if groupused + data_start_per_group sb > BIT_PER_BLOCK then Inl (Fault ''buf'')
      else Inr (wblock (bg_start sb + bitmap_start_per_group sb + gno * BPG)
             (set_bits [0..<groupused + data_start_per_group sb] (replicate BLOCK_SIZE 0)) st)))"

fun balloc_loop :: "nat list \<Rightarrow> mkst \<Rightarrow> mkst res" where
  "balloc_loop [] st = Inr st"
| "balloc_loop (gno # gs) st = bnd (balloc_group gno st) (balloc_loop gs)"

definition ballocg :: "mkst \<Rightarrow> mkst res" where
  "ballocg st = balloc_loop [0..<NGROUPS] st"

section \<open>The program\<close>

definition mkfs_sb :: SuperBlock where
  "mkfs_sb =
     (let ninodeblocks_per_group = (NINODES div NGROUPS) div INODE_PER_BLOCK + 1;
          nbitmap_per_group = BPG div BIT_PER_BLOCK + 1 in
      \<lparr>num_blocks = FSSIZE, num_log_blocks = LOG_MAX_SIZE, num_groups = NGROUPS, num_inodes = NINODES, blocks_per_group = BPG,
       sb_log_start = 2, bg_start = 2 + LOG_MAX_SIZE, num_inodeblocks_per_group = ninodeblocks_per_group,
       num_bitmap_per_group = nbitmap_per_group, num_datablocks_per_group = BPG - ninodeblocks_per_group - nbitmap_per_group,
       bitmap_start_per_group = ninodeblocks_per_group, data_start_per_group = ninodeblocks_per_group + nbitmap_per_group\<rparr>)"

text \<open>The state when the image file has just been opened with \<open>O_TRUNC\<close>.\<close>

definition mkfs_start :: mkst where
  "mkfs_start = \<lparr>fsimg = (\<lambda>_. replicate BLOCK_SIZE 0), fslen = 0, freeinode = 1,
     freeblock = 2 + LOG_MAX_SIZE + num_inodeblocks_per_group mkfs_sb * NGROUPS + num_bitmap_per_group mkfs_sb * NGROUPS,
     mk_used = replicate NGROUPS 0, mk_sb = mkfs_sb\<rparr>"

fun zero_sectors :: "nat list \<Rightarrow> mkst \<Rightarrow> mkst" where
  "zero_sectors [] st = st"
| "zero_sectors (i # is) st = zero_sectors is (wsect i (replicate BLOCK_SIZE 0) st)"

text \<open>\<open>bzero\<close>, then \<open>strcpy\<close> or \<open>strncpy(de.name, s, DIRSIZ)\<close>.\<close>

definition mk_dirent :: "nat \<Rightarrow> bytes \<Rightarrow> DirEntry" where
  "mk_dirent inum s = \<lparr>de_inode_no = inum mod 2 ^ 16, de_name = take FILE_NAME_MAX_LENGTH (s @ replicate FILE_NAME_MAX_LENGTH 0)\<rparr>"

text \<open>The loop over a path: \<open>j\<close> ends as the number of characters after the last slash.\<close>

fun scan_path :: "bytes \<Rightarrow> int \<Rightarrow> int" where
  "scan_path [] j = j"
| "scan_path (c # cs) j = scan_path cs ((if c = 47 then -1 else j) + 1)"

definition base_of :: "bytes \<Rightarrow> bytes" where
  "base_of path = drop (length path - nat (scan_path path 0)) path"

definition strip_underscore :: "bytes \<Rightarrow> bytes" where
  "strip_underscore s = (case s of [] \<Rightarrow> [] | c # cs \<Rightarrow> if c = 95 then cs else s)"

text \<open>\<open>while ((cc = read(fd, buf, sizeof(buf))) > 0) iappend(inum, buf, cc)\<close>.\<close>

fun append_all :: "nat \<Rightarrow> bytes list \<Rightarrow> mkst \<Rightarrow> mkst res" where
  "append_all inum [] st = Inr st"
| "append_all inum (buf # bufs) st = bnd (iappend inum buf st) (append_all inum bufs)"

definition add_file :: "nat \<Rightarrow> (bytes \<Rightarrow> bytes list option) \<Rightarrow> bytes \<Rightarrow> mkst \<Rightarrow> mkst res" where
  "add_file rootino open_in path st =
     (let name = base_of path in
      bnd (chk (47 \<notin> set name) ''index(argv[i], '/') == 0'') (\<lambda>_.
      case open_in path of
        None \<Rightarrow> Inl (Panic ''exit(1)'')
      | Some bufs \<Rightarrow>
          bnd (ialloc INODE_REGULAR st) (\<lambda>(inum, st).
          bnd (iappend rootino (dirent_bytes (mk_dirent inum (strip_underscore name))) st) (\<lambda>st.
          bnd (append_all inum bufs st) (\<lambda>st.
          bnd (rinode inum st) (\<lambda>_. Inr st))))))"

fun add_files :: "nat \<Rightarrow> (bytes \<Rightarrow> bytes list option) \<Rightarrow> bytes list \<Rightarrow> mkst \<Rightarrow> mkst res" where
  "add_files rootino open_in [] st = Inr st"
| "add_files rootino open_in (path # paths) st = bnd (add_file rootino open_in path st) (add_files rootino open_in paths)"

text \<open>\<open>fix size of root inode dir\<close>.\<close>

definition fix_root :: "nat \<Rightarrow> mkst \<Rightarrow> mkst res" where
  "fix_root rootino st =
     bnd (rinode rootino st) (\<lambda>din.
     winode rootino (din\<lparr>num_bytes := (num_bytes din div BLOCK_SIZE + 1) * BLOCK_SIZE\<rparr>) st)"

text \<open>\<open>main\<close>, with \<open>argv[2..]\<close> as argument.\<close>

definition mkfs_main :: "(bytes \<Rightarrow> bytes list option) \<Rightarrow> bytes list \<Rightarrow> mkst res" where
  "mkfs_main open_in argv =
     (let st = zero_sectors [0..<FSSIZE] mkfs_start;
          st = wblock 1 (overwrite (replicate BLOCK_SIZE 0) 0 (sblock_bytes (mk_sb st))) st in
      bnd (ialloc INODE_DIRECTORY st) (\<lambda>(rootino, st).
      bnd (chk (rootino = 1) ''rootino == ROOT_INODE_NO'') (\<lambda>_.
      bnd (iappend rootino (dirent_bytes (mk_dirent rootino [46])) st) (\<lambda>st.
      bnd (iappend rootino (dirent_bytes (mk_dirent rootino [46, 46])) st) (\<lambda>st.
      bnd (add_files rootino open_in argv st) (\<lambda>st.
      bnd (fix_root rootino st) ballocg))))))"

end
