(* ===== verification/MkfsAppend.thy ===== *)
theory MkfsAppend
  imports Mkfs InodeWrite
begin

text \<open>
  Appending to a file of the image that \<open>mkfs\<close> builds.  \<open>data_blocks used\<close> are the data blocks handed out so far,
  \<open>files_ok\<close> says that the files with the given entries own them without overlap, and that everything not in use is zero.
\<close>

lemma mkfs_sb_simps [simp]:
  "bg_start mkfs_sb = 65" "blocks_per_group mkfs_sb = 1000" "num_groups mkfs_sb = 10" "num_inodes mkfs_sb = 200"
  "sb_log_start mkfs_sb = 2" "num_log_blocks mkfs_sb = 63" "num_datablocks_per_group mkfs_sb = 996"
  "bitmap_start_per_group mkfs_sb = 3" "data_start_per_group mkfs_sb = 4" "num_blocks mkfs_sb = 10065"
  "num_inodeblocks_per_group mkfs_sb = 3" "num_bitmap_per_group mkfs_sb = 1"
  by (simp_all add: mkfs_sb_def)

declare append_loop.simps [simp del]

section \<open>The blocks of the image\<close>

definition data_blocks :: "nat list \<Rightarrow> nat set" where
  "data_blocks us = {b. 65 \<le> b \<and> b < 10065 \<and> 4 \<le> (b - 65) mod 1000 \<and> (b - 65) mod 1000 < 4 + us ! ((b - 65) div 1000)}"

definition inode_blocks :: "nat set" where
  "inode_blocks = {b. 65 \<le> b \<and> b < 10065 \<and> (b - 65) mod 1000 < 3}"

definition used_ok :: "nat list \<Rightarrow> bool" where
  "used_ok us \<longleftrightarrow> length us = 10 \<and> (\<forall>g<10. us ! g \<le> 996)"

lemma used_room: "\<lbrakk>used_ok us; sum_list us < 9960\<rbrakk> \<Longrightarrow> \<exists>g<10. us ! g \<noteq> 996"
proof (rule ccontr)
  assume u: "used_ok us" "sum_list us < 9960" "\<not> (\<exists>g<10. us ! g \<noteq> 996)"
  have "us = replicate 10 996" using u(1,3) by (intro nth_equalityI) (auto simp: used_ok_def)
  then have "sum_list us = 9960" by (simp add: sum_list_replicate)
  then show False using u(2) by simp
qed

lemma data_blocksD: "b \<in> data_blocks us \<Longrightarrow> 65 \<le> b \<and> b < 10065 \<and> b \<noteq> 0 \<and> b \<noteq> 1 \<and> b \<notin> inode_blocks"
  by (auto simp: data_blocks_def inode_blocks_def)

text \<open>Taking the next block of a group that is not full.\<close>

lemma take_next:
  assumes u: "used_ok us" and g: "g < 10" "us ! g \<noteq> 996" and b: "b = 65 + g * 1000 + 4 + us ! g"
  shows "data_blocks (us[g := us ! g + 1]) = insert b (data_blocks us)" "b \<notin> data_blocks us" "b < 10065"
    "used_ok (us[g := us ! g + 1])" "sum_list (us[g := us ! g + 1]) = Suc (sum_list us)"
proof -
  have l: "length us = 10" "us ! g < 996" using u g by (auto simp: used_ok_def le_neq_implies_less)
  have bb: "b - 65 = g * 1000 + (4 + us ! g)" using b by simp
  have d: "(b - 65) div 1000 = g" "(b - 65) mod 1000 = 4 + us ! g" unfolding bb using l(2) by simp_all
  show "b \<notin> data_blocks us" using d by (simp add: data_blocks_def)
  show lt: "b < 10065" using b g(1) l(2) by linarith
  have "x \<in> data_blocks (us[g := us ! g + 1]) \<longleftrightarrow> x = b \<or> x \<in> data_blocks us" for x
  proof -
    obtain q r where qr: "q = (x - 65) div 1000" "r = (x - 65) mod 1000" by simp
    have x: "x - 65 = q * 1000 + r" unfolding qr by simp
    have eq: "x = b \<longleftrightarrow> 65 \<le> x \<and> q = g \<and> r = 4 + us ! g"
    proof
      assume "x = b"
      then show "65 \<le> x \<and> q = g \<and> r = 4 + us ! g" using b d qr by simp
    next
      assume "65 \<le> x \<and> q = g \<and> r = 4 + us ! g"
      then show "x = b" using x b by auto
    qed
    have n: "us[g := us ! g + 1] ! q = (if q = g then us ! g + 1 else us ! q)" using l(1) g(1) by simp
    show ?thesis
    proof (cases "q = g")
      case True
      then show ?thesis unfolding data_blocks_def mem_Collect_eq qr [symmetric] n using eq lt by auto
    next
      case False
      then show ?thesis unfolding data_blocks_def mem_Collect_eq qr [symmetric] n using eq by simp
    qed
  qed
  then show "data_blocks (us[g := us ! g + 1]) = insert b (data_blocks us)" by blast
  show "used_ok (us[g := us ! g + 1])" using u l g(1) by (auto simp: used_ok_def nth_list_update)
  show "sum_list (us[g := us ! g + 1]) = Suc (sum_list us)" using l g(1) by (simp add: sum_list_update)
qed

section \<open>The search for a group\<close>

lemma next_group_ok:
  assumes "gno < NGROUPS" "h < NGROUPS" "us ! h \<noteq> full"
  shows "\<exists>t. next_group us full gno = Some t \<and> t < NGROUPS \<and> us ! t \<noteq> full"
  using assms(1)
proof (induction "(h + 10 - gno) mod 10" arbitrary: gno rule: less_induct)
  case less
  show ?case
  proof (cases "us ! gno = full")
    case False
    then show ?thesis using less.prems by (subst next_group.simps) simp
  next
    case True
    then have "gno \<noteq> h" using assms(3) by auto
    then have "(h + 10 - (gno + 1) mod 10) mod 10 < (h + 10 - gno) mod 10"
      using less.prems assms(2) by (cases "gno = 9"; cases "gno < h") (auto simp: mod_if)
    then show ?thesis using less.hyps [of "(gno + 1) mod 10"] True by (subst next_group.simps) simp
  qed
qed

section \<open>One block of one file\<close>

definition img_base :: "mkst \<Rightarrow> bool" where
  "img_base st \<longleftrightarrow> mk_sb st = mkfs_sb \<and> fslen st = 10065 \<and> used_ok (mk_used st) \<and> (\<forall>b. length (fsimg st b) = BLOCK_SIZE) \<and>
     (\<forall>b. b \<notin> data_blocks (mk_used st) \<longrightarrow> b \<noteq> 1 \<longrightarrow> b \<notin> inode_blocks \<longrightarrow> fsimg st b = replicate BLOCK_SIZE 0)"

definition img_owns :: "mkst \<Rightarrow> InodeEntry \<Rightarrow> bool" where
  "img_owns st e \<longleftrightarrow> entry_fits e \<and> fmap_ok (fsimg st) e (data_blocks (mk_used st))"

text \<open>From \<open>e\<close> in \<open>st\<close> to \<open>e'\<close> in \<open>st'\<close> the file has only gained fresh blocks, and nothing else has changed.\<close>

definition file_grown :: "InodeEntry \<Rightarrow> mkst \<Rightarrow> InodeEntry \<Rightarrow> mkst \<Rightarrow> bool" where
  "file_grown e st e' st' \<longleftrightarrow> (let v = fsimg st; v' = fsimg st'; D = data_blocks (mk_used st); D' = data_blocks (mk_used st') in
     img_base st' \<and> img_owns st' e' \<and> freeinode st' = freeinode st \<and> e' = e\<lparr>addrs := addrs e', indirect := indirect e'\<rparr> \<and> D \<subseteq> D' \<and>
     file_blocks v e \<subseteq> file_blocks v' e' \<and> file_blocks v' e' \<subseteq> file_blocks v e \<union> (D' - D) \<and>
     (\<forall>b. b \<notin> file_blocks v' e' \<longrightarrow> v' b = v b))"

lemma file_grown_refl: "\<lbrakk>img_base st; img_owns st e\<rbrakk> \<Longrightarrow> file_grown e st e st"
  by (simp add: file_grown_def)

lemma file_grown_trans:
  assumes "file_grown e st e1 st1" "file_grown e1 st1 e2 st2"
  shows "file_grown e st e2 st2"
proof -
  note a = assms(1) [unfolded file_grown_def Let_def] and b = assms(2) [unfolded file_grown_def Let_def]
  have "e2 = e\<lparr>addrs := addrs e2, indirect := indirect e2\<rparr>"
    using a b by (cases e; cases e1; cases e2) simp
  moreover have "fsimg st2 x = fsimg st x" if "x \<notin> file_blocks (fsimg st2) e2" for x
    using a b that by (metis subset_iff)
  moreover have "img_base st2" "img_owns st2 e2" "freeinode st2 = freeinode st" "data_blocks (mk_used st) \<subseteq> data_blocks (mk_used st2)"
    "file_blocks (fsimg st) e \<subseteq> file_blocks (fsimg st2) e2" using a b by (simp_all, blast+)
  moreover have "file_blocks (fsimg st2) e2 \<subseteq> file_blocks (fsimg st) e \<union> (data_blocks (mk_used st2) - data_blocks (mk_used st))"
    using a b by blast
  ultimately show ?thesis unfolding file_grown_def Let_def by simp
qed

lemma img_base_grow:
  assumes b: "img_base st" and u: "used_ok us" "data_blocks (mk_used st) \<subseteq> data_blocks us"
    and v: "\<And>x. x \<notin> data_blocks us \<Longrightarrow> v x = fsimg st x" "\<And>x. length (v x) = BLOCK_SIZE"
  shows "img_base (st\<lparr>fsimg := v, freeblock := f, mk_used := us\<rparr>)"
  using assms unfolding img_base_def by (auto simp: subset_iff)

lemma owned_frame:
  assumes "img_owns st e" "data_blocks (mk_used st) \<subseteq> data_blocks (mk_used st')"
    "\<And>b. b \<in> file_blocks (fsimg st) e \<Longrightarrow> fsimg st' b = fsimg st b"
  shows "img_owns st' e"
  using assms(1,2) file_blocks_frame(1,2) [of "fsimg st" e "fsimg st'", OF assms(3)]
  unfolding img_owns_def fmap_ok_def by auto

lemma img_io:
  assumes l: "fslen st = 10065" and b: "b < 10065"
  shows "rblock b st = Inr (fsimg st b)" "wblock b d st = st\<lparr>fsimg := (fsimg st)(b := take BLOCK_SIZE d)\<rparr>"
proof -
  show "rblock b st = Inr (fsimg st b)" using assms by (simp add: rblock_def rsect_def)
  have f: "(\<lambda>y. if y = b then take 512 d else if fslen st \<le> y \<and> y < b then replicate 512 0 else fsimg st y) = (fsimg st)(b := take 512 d)"
    using assms by (intro ext) auto
  have m: "b mod 2 ^ 23 = b" "max (fslen st) (Suc b) = fslen st" using assms by simp_all
  show "wblock b d st = st\<lparr>fsimg := (fsimg st)(b := take BLOCK_SIZE d)\<rparr>"
    unfolding wblock_def wsect_def Let_def m f by simp
qed

lemma img_read:
  assumes "img_base st" "b < 10065"
  shows "rblock b st = Inr (fsimg st b)" "wblock b d st = st\<lparr>fsimg := (fsimg st)(b := take BLOCK_SIZE d)\<rparr>"
  using img_io [OF _ assms(2)] assms(1) by (simp_all add: img_base_def)

lemma free_in_group_eq: "img_base st \<Longrightarrow> free_in_group g st = 65 + g * 1000 + 4 + mk_used st ! g"
  by (simp add: free_in_group_def img_base_def)

text \<open>Adding a fresh block at a given place of the block map.\<close>

lemma add_block:
  assumes b: "img_base st" and o: "img_owns st e" and i: "i < INODE_MAX_BLOCKS" "fblock (fsimg st) e i = 0"
    and g: "g < 10" "mk_used st ! g \<noteq> 996" "x = free_in_group g st"
    and e': "entry_fits e'" "e' = e\<lparr>addrs := addrs e'\<rparr>"
    and st': "st' = st\<lparr>fsimg := v', freeblock := f, mk_used := (mk_used st)[g := mk_used st ! g + 1]\<rparr>"
    and v': "\<And>y. y \<noteq> indirect e \<Longrightarrow> v' y = fsimg st y" "\<And>y. length (v' y) = BLOCK_SIZE" "indirect e = 0 \<Longrightarrow> v' 0 = fsimg st 0"
    and f: "\<And>k. k < INODE_MAX_BLOCKS \<Longrightarrow> fblock v' e' k = (if k = i then x else fblock (fsimg st) e k)"
  shows "file_grown e st e' st'" "x \<noteq> 0" "x \<noteq> indirect e" "fsimg st' x = replicate BLOCK_SIZE 0" "x < 10065"
    "sum_list (mk_used st') = Suc (sum_list (mk_used st))" "x \<in> data_blocks (mk_used st')"
proof -
  let ?us = "(mk_used st)[g := mk_used st ! g + 1]"
  have u: "used_ok (mk_used st)" using b by (simp add: img_base_def)
  note t = take_next [OF u g(1,2) g(3) [unfolded free_in_group_eq [OF b]]]
  have x: "x \<in> data_blocks ?us" using t(1) by simp
  note xd = data_blocksD [OF x]
  show "x \<noteq> 0" "x < 10065" "x \<in> data_blocks (mk_used st')" using xd x st' by simp_all
  have fm: "fmap_ok (fsimg st) e (data_blocks (mk_used st))" "entry_fits e" using o by (simp_all add: img_owns_def)
  have ie: "indirect e' = indirect e" using e'(2) by (cases e; cases e') simp
  have sub: "data_blocks (mk_used st) \<subseteq> data_blocks ?us" using t(1) by auto
  note add = fmap_ok_add [OF fm(1) i _ x t(2) sub _ ie f] 
  have ad: "fmap_ok v' e' (data_blocks ?us)" "file_blocks v' e' = insert x (file_blocks (fsimg st) e)"
    using add xd e'(1) by (simp_all add: entry_fits_def)
  have ind: "indirect e \<in> data_blocks (mk_used st)" if "indirect e \<noteq> 0"
    using fm(1) that by (auto simp: fmap_ok_def file_blocks_def)
  then show ne: "x \<noteq> indirect e" using t(2) xd by metis
  show "fsimg st' x = replicate BLOCK_SIZE 0" using v'(1) [OF ne] xd t(2) b st' by (simp add: img_base_def)
  have same: "v' y = fsimg st y" if "indirect e \<noteq> 0 \<longrightarrow> y \<noteq> indirect e" for y using v'(1,3) that by metis
  have "v' y = fsimg st y" if "y \<notin> data_blocks ?us" for y using same [of y] ind that sub by blast
  then have base: "img_base st'" unfolding st' using img_base_grow [OF b t(4) sub, of v'] v'(2) by simp
  have "v' y = fsimg st y" if "y \<notin> file_blocks v' e'" for y
    using same [of y] that unfolding ad(2) by (auto simp: file_blocks_def)
  then show "file_grown e st e' st'" unfolding file_grown_def Let_def using base ad sub t(1,2) e' ie st'
    by (auto simp: img_owns_def)
  show "sum_list (mk_used st') = Suc (sum_list (mk_used st))" using t(5) st' by simp
qed

text \<open>Adding the address block.\<close>

lemma add_index:
  assumes b: "img_base st" and o: "img_owns st e" and i: "indirect e = 0"
    and g: "g < 10" "mk_used st ! g \<noteq> 996" "x = free_in_group g st"
    and st': "st' = st\<lparr>freeblock := f, mk_used := (mk_used st)[g := mk_used st ! g + 1]\<rparr>" and e': "e' = e\<lparr>indirect := x\<rparr>"
  shows "file_grown e st e' st'" "x \<noteq> 0" "x < 10065" "sum_list (mk_used st') = Suc (sum_list (mk_used st))"
    "\<And>k. k < INODE_MAX_BLOCKS \<Longrightarrow> fblock (fsimg st) e' k = fblock (fsimg st) e k"
proof -
  let ?us = "(mk_used st)[g := mk_used st ! g + 1]"
  have u: "used_ok (mk_used st)" using b by (simp add: img_base_def)
  note t = take_next [OF u g(1,2) g(3) [unfolded free_in_group_eq [OF b]]]
  have x: "x \<in> data_blocks ?us" using t(1) by simp
  note xd = data_blocksD [OF x]
  show x0: "x \<noteq> 0" "x < 10065" using xd by simp_all
  have fm: "fmap_ok (fsimg st) e (data_blocks (mk_used st))" "entry_fits e" using o by (simp_all add: img_owns_def)
  have sub: "data_blocks (mk_used st) \<subseteq> data_blocks ?us" using t(1) by auto
  have z: "fsimg st x = replicate BLOCK_SIZE 0" using xd t(2) b by (simp add: img_base_def)
  note add = fmap_ok_add_indirect [where v' = "fsimg st", OF fm(1) i x0(1) x t(2) sub z, folded e']
  show "\<And>k. k < INODE_MAX_BLOCKS \<Longrightarrow> fblock (fsimg st) e' k = fblock (fsimg st) e k" by (rule add(3))
  have "img_base st'" using img_base_grow [OF b t(4) sub, of "fsimg st" f] b unfolding st' by (simp add: img_base_def)
  moreover have "entry_fits e'" using fm(2) x0(2) e' by (simp add: entry_fits_def)
  ultimately show "file_grown e st e' st'" unfolding file_grown_def Let_def using add(1,2) sub t(1,2) st' e'
    by (auto simp: img_owns_def)
  show "sum_list (mk_used st') = Suc (sum_list (mk_used st))" using t(5) st' by simp
qed

definition target_ok :: "nat \<Rightarrow> InodeEntry \<Rightarrow> mkst \<Rightarrow> nat \<Rightarrow> InodeEntry \<Rightarrow> mkst \<Rightarrow> bool" where
  "target_ok fbn e st x e' st' \<longleftrightarrow> (let v = fsimg st; v' = fsimg st' in
     file_grown e st e' st' \<and> x \<noteq> 0 \<and> (\<forall>k<INODE_MAX_BLOCKS. fblock v' e' k = (if k = fbn then x else fblock v e k)) \<and>
     (if fblock v e fbn = 0 then v' x = replicate BLOCK_SIZE 0 else x = fblock v e fbn) \<and>
     (\<forall>b. b \<noteq> indirect e' \<longrightarrow> v' b = v b) \<and>
     sum_list (mk_used st') + (if indirect e' = 0 then 1 else 0) =
       sum_list (mk_used st) + (if fblock v e fbn = 0 then 1 else 0) + (if indirect e = 0 then 1 else 0))"

lemma owned_indirect: "\<lbrakk>img_owns st e; indirect e \<noteq> 0\<rbrakk> \<Longrightarrow> indirect e \<in> data_blocks (mk_used st) \<and> indirect e < 10065"
  using data_blocksD by (auto simp: img_owns_def fmap_ok_def file_blocks_def)

lemma indirect_target_ok:
  assumes b: "img_base st" and o: "img_owns st e" and i: "indirect e \<noteq> 0" "12 \<le> fbn" "fbn < INODE_MAX_BLOCKS"
    and r: "sum_list (mk_used st) < 9960"
  shows "\<exists>x st'. indirect_target (indirect e) (fbn - 12) st = Inr (x, st') \<and> target_ok fbn e st x e st'"
proof -
  let ?v = "fsimg st" and ?n = "fbn - 12"
  have sb: "mk_sb st = mkfs_sb" using b by (simp add: img_base_def)
  have len: "length (?v y) = 512" for y using b by (simp add: img_base_def)
  note io = owned_indirect [OF o i(1)]
  have fb: "fblock ?v e fbn = get_addrs (?v (indirect e)) ! ?n" using i by (simp add: fblock_def)
  note rd = img_read(1) [OF b io [THEN conjunct2]]
  show ?thesis
  proof (cases "fblock ?v e fbn = 0")
    case False
    then have "indirect_target (indirect e) ?n st = Inr (fblock ?v e fbn, st)" using rd fb by (simp add: indirect_target_def)
    moreover have "target_ok fbn e st (fblock ?v e fbn) e st" using False file_grown_refl [OF b o] by (simp add: target_ok_def)
    ultimately show ?thesis by blast
  next
    case True
    obtain h where h: "h < 10" "mk_used st ! h \<noteq> 996" using used_room [OF _ r] b by (auto simp: img_base_def)
    obtain t where t: "find_group (mk_used st) 996 ((?n div 29 + 1) mod 10) 2 = Some t" "t < 10" "mk_used st ! t \<noteq> 996"
      using find_group_ok [of "(?n div 29 + 1) mod 10" 2 h "mk_used st" 996] h by auto
    define x where "x = free_in_group t st"
    define d where "d = overwrite (?v (indirect e)) (4 * ?n) (le_bytes 4 x)"
    define st' where "st' = st\<lparr>fsimg := ?v(indirect e := d), freeblock := x, mk_used := (mk_used st)[t := mk_used st ! t + 1]\<rparr>"
    have ld: "length d = 512" using i len unfolding d_def by simp
    have bt: "img_base (take_block t x st)" 
    proof -
      have u: "used_ok (mk_used st)" using b by (simp add: img_base_def)
      note tn = take_next [OF u t(2,3) refl]
      have "img_base (st\<lparr>fsimg := ?v, freeblock := x, mk_used := (mk_used st)[t := mk_used st ! t + 1]\<rparr>)"
        by (rule img_base_grow [OF b tn(4)]) (use tn(1) len in auto)
      then show ?thesis by (simp add: take_block_def)
    qed
    have "wblock (indirect e) d (take_block t x st) = st'"
      using img_read(2) [OF bt io [THEN conjunct2], of d] ld by (simp add: take_block_def st'_def)
    then have run: "indirect_target (indirect e) ?n st = Inr (x, st')"
      using rd fb True t(1) sb by (simp add: indirect_target_def d_def x_def Let_def)
    have x32: "x < 10065" using take_next(3) [OF _ t(2,3), of x] b free_in_group_eq [OF b, of t] by (simp add: img_base_def x_def)
    then have x32': "x < 2 ^ 32" by simp
    have "entry_fits e" using o by (simp add: img_owns_def)
    have f: "fblock (?v(indirect e := d)) e k = (if k = fbn then x else fblock ?v e k)" if "k < 140" for k
      using fblock_indirect_upd [where v = ?v and v' = "?v(indirect e := d)", OF i(2,3,1) len x32' _ that] by (simp add: d_def)
    note a = add_block [OF b o i(3) True t(2,3) x_def \<open>entry_fits e\<close> _ st'_def _ _ _ f]
    have "file_grown e st e st'" "x \<noteq> 0" "fsimg st' x = replicate 512 0" "sum_list (mk_used st') = Suc (sum_list (mk_used st))"
      using a i(1) len ld by auto
    then have "target_ok fbn e st x e st'" using True f i(1) unfolding target_ok_def Let_def by (simp add: st'_def)
    then show ?thesis using run by blast
  qed
qed

lemma freeblock_simps [simp]:
  "img_base (st\<lparr>freeblock := f\<rparr>) = img_base st" "img_owns (st\<lparr>freeblock := f\<rparr>) e = img_owns st e"
  "file_grown e (st\<lparr>freeblock := f\<rparr>) e' st' = file_grown e st e' st'" "file_grown e st e' (st'\<lparr>freeblock := f\<rparr>) = file_grown e st e' st'"
  "target_ok n e (st\<lparr>freeblock := f\<rparr>) x e' st' = target_ok n e st x e' st'"
  "target_ok n e st x e' (st'\<lparr>freeblock := f\<rparr>) = target_ok n e st x e' st'"
  by (simp_all add: img_base_def img_owns_def file_grown_def target_ok_def Let_def)

lemma direct_target_ok:
  assumes b: "img_base st" and o: "img_owns st e" and n: "fbn < 12" and z: "addrs e ! fbn = 0"
    and g: "g < 10" "mk_used st ! g \<noteq> 996" "x = free_in_group g st"
  shows "target_ok fbn e st x (e\<lparr>addrs := (addrs e)[fbn := x]\<rparr>) (take_block g x st)"
proof -
  let ?e = "e\<lparr>addrs := (addrs e)[fbn := x]\<rparr>"
  have fits: "entry_fits e" "length (addrs e) = 12" using o by (simp_all add: img_owns_def entry_fits_def)
  have fz: "fblock (fsimg st) e fbn = 0" using n z by (simp add: fblock_def)
  have x: "x < 10065" using take_next(3) [OF _ g(1,2), of x] b free_in_group_eq [OF b, of g] g(3) by (simp add: img_base_def)
  then have fe: "entry_fits ?e" using fits by (auto simp: entry_fits_def dest: set_update_subset_insert [THEN subsetD])
  have f: "fblock (fsimg st) ?e k = (if k = fbn then x else fblock (fsimg st) e k)" for k
    by (rule fblock_direct_upd [OF n fits(2)]) simp
  have st': "take_block g x st = st\<lparr>fsimg := fsimg st, freeblock := x, mk_used := (mk_used st)[g := mk_used st ! g + 1]\<rparr>"
    by (simp add: take_block_def)
  have "fbn < 140" using n by simp
  note a = add_block [OF b o this fz g fe _ st' refl _ refl f]
  have len: "length (fsimg st y) = 512" for y using b by (simp add: img_base_def)
  have "fsimg (take_block g x st) = fsimg st" by (simp add: take_block_def)
  then show ?thesis using a(1,2,4,6) len f fz unfolding target_ok_def Let_def by simp
qed

lemma append_target_ok:
  assumes b: "img_base st" and o: "img_owns st e" and n: "fbn < INODE_MAX_BLOCKS" and g: "gno < NGROUPS"
    and r: "sum_list (mk_used st) + (if fblock (fsimg st) e fbn = 0 then 1 else 0) + (if indirect e = 0 then 1 else 0) < 9960"
  shows "\<exists>x g' e' st'. append_target gno fbn e st = Inr (x, g', e', st') \<and> g' < NGROUPS \<and> target_ok fbn e st x e' st'"
proof -
  have sb: "num_datablocks_per_group (mk_sb st) = 996" using b by (simp add: img_base_def)
  have su: "sum_list (mk_used st) < 9960" using r by simp
  obtain h where h: "h < 10" "mk_used st ! h \<noteq> 996" using used_room [OF _ su] b by (auto simp: img_base_def)
  obtain t where t: "next_group (mk_used st) 996 gno = Some t" "t < 10" "mk_used st ! t \<noteq> 996"
    using next_group_ok [OF g h(1), of "mk_used st" 996] h by auto
  define x where "x = free_in_group t st"
  define st0 where "st0 = st\<lparr>freeblock := x\<rparr>"
  have b0: "img_base st0" "img_owns st0 e" "mk_used st0 = mk_used st" using b o by (simp_all add: st0_def)
  have x0: "x = free_in_group t st0" by (simp add: st0_def x_def free_in_group_def)
  show ?thesis
  proof (cases "fbn < 12")
    case True
    then have fe: "fblock (fsimg st) e fbn = addrs e ! fbn" by (simp add: fblock_def)
    show ?thesis
    proof (cases "addrs e ! fbn = 0")
      case z: True
      have "append_target gno fbn e st = Inr (x, t, e\<lparr>addrs := (addrs e)[fbn := x]\<rparr>, take_block t x st0)"
        using True z t(1) sb by (simp add: append_target_def x_def st0_def Let_def)
      moreover have "target_ok fbn e st x (e\<lparr>addrs := (addrs e)[fbn := x]\<rparr>) (take_block t x st0)"
        using direct_target_ok [OF b0(1,2) True z t(2) _ x0] t(3) by (simp add: st0_def)
      ultimately show ?thesis using t(2) by blast
    next
      case False
      then have "append_target gno fbn e st = Inr (addrs e ! fbn, t, e, st0)"
        using True t(1) sb by (simp add: append_target_def x_def st0_def Let_def)
      moreover have "target_ok fbn e st (addrs e ! fbn) e st0"
        using False file_grown_refl [OF b o] fe by (simp add: target_ok_def st0_def Let_def)
      ultimately show ?thesis using t(2) by blast
    qed
  next
    case False
    then have n12: "12 \<le> fbn" by simp
    show ?thesis
    proof (cases "indirect e = 0")
      case True
      define e1 where "e1 = e\<lparr>indirect := x\<rparr>"
      define st1 where "st1 = take_block t x st0"
      have s1: "st1 = st0\<lparr>freeblock := x, mk_used := (mk_used st0)[t := mk_used st0 ! t + 1]\<rparr>" by (simp add: st1_def take_block_def)
      note a = add_index [OF b0(1,2) True t(2) t(3) [folded b0(3)] x0 s1 e1_def]
      have fz: "fblock (fsimg st) e fbn = 0" using True n12 by (simp add: fblock_def)
      have o1: "img_base st1" "img_owns st1 e1" using a(1) by (simp_all add: file_grown_def Let_def)
      have i1: "indirect e1 \<noteq> 0" using a(2) by (simp add: e1_def)
      have "sum_list (mk_used st1) < 9960" using a(4) r fz True b0(3) by simp
      from indirect_target_ok [OF o1 i1 n12 n this] obtain y st2 where
        y: "indirect_target (indirect e1) (fbn - 12) st1 = Inr (y, st2)" "target_ok fbn e1 st1 y e1 st2" by blast
      have run: "append_target gno fbn e st = Inr (y, t, e1, st2)"
        using False True t(1) sb y(1) by (simp add: append_target_def x_def st0_def e1_def st1_def Let_def)
      have v1: "fsimg st1 = fsimg st" by (simp add: s1 st0_def)
      note y2 = y(2) [unfolded target_ok_def Let_def v1]
      have fb: "fblock (fsimg st) e1 k = fblock (fsimg st) e k" if "k < 140" for k using a(5) [OF that] by (simp add: st0_def)
      have gr: "file_grown e st e1 st2" using file_grown_trans [OF a(1)] y2 by (simp add: st0_def)
      have "sum_list (mk_used st2) = sum_list (mk_used st) + 2" using y2 a(4) fb [OF n] fz i1 b0(3) by simp
      then have "target_ok fbn e st y e1 st2" unfolding target_ok_def Let_def using gr y2 fb fb [OF n] fz i1 True by simp
      then show ?thesis using run t(2) by blast
    next
      case i: False
      have "sum_list (mk_used st0) < 9960" using su b0(3) by simp
      from indirect_target_ok [OF b0(1,2) i n12 n this] obtain y st2 where
        y: "indirect_target (indirect e) (fbn - 12) st0 = Inr (y, st2)" "target_ok fbn e st0 y e st2" by blast
      have "append_target gno fbn e st = Inr (y, t, e, st2)"
        using False i t(1) sb y(1) by (simp add: append_target_def x_def st0_def Let_def)
      moreover have "target_ok fbn e st y e st2" using y(2) by (simp add: st0_def)
      ultimately show ?thesis using t(2) by blast
    qed
  qed
qed

section \<open>The contents of a file\<close>

definition cb :: "nat \<Rightarrow> nat" where "cb n = (n + 511) div BLOCK_SIZE"

text \<open>The file with entry \<open>e\<close> has exactly the blocks that the bytes \<open>c\<close> need, and zeros behind them.\<close>

definition holds :: "disk \<Rightarrow> InodeEntry \<Rightarrow> bytes \<Rightarrow> bool" where
  "holds v e c \<longleftrightarrow> length c \<le> INODE_MAX_BYTES \<and> (\<forall>k<INODE_MAX_BLOCKS. fblock v e k \<noteq> 0 \<longleftrightarrow> BLOCK_SIZE * k < length c) \<and>
     (\<forall>q<BLOCK_SIZE * cb (length c). fbyte v e q = (if q < length c then c ! q else 0))"

definition load :: "mkst \<Rightarrow> InodeEntry \<Rightarrow> nat" where
  "load st e = sum_list (mk_used st) + (if indirect e = 0 then 1 else 0)"

lemma cb_step:
  assumes "n = 512 * k + r" "r < 512" "0 < m" "r + m \<le> 512"
  shows "cb (n + m) = Suc k" "cb n = k + (if r = 0 then 0 else 1)"
proof -
  have "n + m + 511 = 512 * Suc k + (r + m - 1)" using assms by simp
  moreover have "r + m - 1 < 512" using assms by simp
  ultimately show "cb (n + m) = Suc k" unfolding cb_def by simp
  show "cb n = k + (if r = 0 then 0 else 1)"
  proof (cases "r = 0")
    case True
    then show ?thesis using assms(1) by (simp add: cb_def)
  next
    case False
    then have "n + 511 = 512 * Suc k + (r - 1)" using assms by simp
    moreover have "r - 1 < 512" using assms by simp
    ultimately show ?thesis using False unfolding cb_def by simp
  qed
qed

lemma cb_mono: "a \<le> b \<Longrightarrow> cb a \<le> cb b"
  unfolding cb_def by (rule div_le_mono) simp

text \<open>Writing into the chosen block.\<close>

lemma put_bytes:
  assumes b: "img_base st" and t: "target_ok fbn e st x e' st1" and h: "holds (fsimg st) e c"
    and c: "length c = 512 * fbn + r" "r < 512" "fbn < INODE_MAX_BLOCKS" and p: "0 < length p" "r + length p \<le> 512"
    and st2: "st2 = st1\<lparr>fsimg := (fsimg st1)(x := overwrite (fsimg st1 x) r p)\<rparr>"
  shows "file_grown e st e' st2" "holds (fsimg st2) e' (c @ p)" "x < 10065" "load st2 e' + cb (length c) = load st e + cb (length c + length p)"
proof -
  let ?v = "fsimg st" and ?v1 = "fsimg st1" and ?v2 = "fsimg st2"
  note T = t [unfolded target_ok_def Let_def]
  note H = h [unfolded holds_def]
  have g1: "file_grown e st e' st1" using T by blast
  then have b1: "img_base st1" "img_owns st1 e'" by (simp_all add: file_grown_def Let_def)
  have len: "length (?v1 y) = 512" for y using b1 by (simp add: img_base_def)
  have x: "fblock ?v1 e' fbn = x" "x \<noteq> 0" using T c(3) by simp_all
  have fm: "fmap_ok ?v1 e' (data_blocks (mk_used st1))" using b1(2) by (simp add: img_owns_def)
  have xo: "x \<in> file_blocks ?v1 e'" "x \<in> data_blocks (mk_used st1)" "x \<noteq> indirect e'"
    using fmap_ok_inj [OF fm c(3)] x by simp_all
  show "x < 10065" using data_blocksD [OF xo(2)] by simp
  have lp: "length (overwrite (?v1 x) r p) = 512" using len p by simp
  have f2: "fblock ?v2 e' k = fblock ?v1 e' k" for k using xo(3) by (intro fblock_frame) (simp add: st2)
  then have fb2: "file_blocks ?v2 e' = file_blocks ?v1 e'" by (simp add: file_blocks_def)
  have "img_base (st1\<lparr>fsimg := ?v2, freeblock := freeblock st1, mk_used := mk_used st1\<rparr>)"
    by (rule img_base_grow [OF b1(1)]) (use b1(1) xo(2) len lp in \<open>auto simp: img_base_def st2\<close>)
  then have b2: "img_base st2" by (simp add: st2)
  have o2: "img_owns st2 e'" using b1(2) f2 fb2 unfolding img_owns_def fmap_ok_def by (simp add: st2)
  have "file_grown e' st1 e' st2" unfolding file_grown_def Let_def using b2 o2 fb2 xo(1) by (auto simp: st2)
  then show "file_grown e st e' st2" by (rule file_grown_trans [OF g1])
  have fz: "fblock ?v e fbn = 0 \<longleftrightarrow> r = 0" using H c by auto
  note cbs = cb_step [OF c(1,2) p]
  show "load st2 e' + cb (length c) = load st e + cb (length c + length p)"
    using T cbs fz by (cases "r = 0") (simp_all add: load_def st2)
  have old: "fbyte ?v2 e' q = fbyte ?v e q" if q: "q div 512 < 140" "q div 512 \<noteq> fbn" "fblock ?v e (q div 512) \<noteq> 0" for q
  proof -
    let ?y = "fblock ?v1 e' (q div 512)"
    have y: "?y = fblock ?v e (q div 512)" using T q by simp
    then have "?y \<noteq> 0" using q(3) by simp
    note inj = fmap_ok_inj [OF fm q(1) this]
    have "?y \<noteq> x" using inj(4) [OF c(3)] x(1) q(2) by auto
    moreover have "?y \<noteq> indirect e'" by (rule inj(3))
    ultimately have "?v2 ?y = ?v ?y" using T by (simp add: st2)
    then show ?thesis using f2 y by (simp add: fbyte_def)
  qed
  have here: "fbyte ?v2 e' q = (if r \<le> q mod 512 \<and> q mod 512 < r + length p then p ! (q mod 512 - r) else ?v1 x ! (q mod 512))"
    if "q div 512 = fbn" for q
    using that f2 x(1) nth_overwrite [of r p "?v1 x" "q mod 512"] len [of x] p by (simp add: fbyte_def st2)
  have kept: "?v1 x ! (q mod 512) = (if q < length c then c ! q else 0)" if q: "q div 512 = fbn" for q
  proof (cases "r = 0")
    case True
    then have "?v1 x = replicate 512 0" using T fz by simp
    moreover have "length c \<le> q" using True c(1) q by auto
    ultimately show ?thesis by simp
  next
    case False
    then have "x = fblock ?v e fbn" "?v1 x = ?v x" using T fz xo(3) by simp_all
    moreover have "q < 512 * cb (length c)" using False q cbs(2) by (simp add: div_less_iff_less_mult [symmetric] mult.commute [of 512])
    then have "fbyte ?v e q = (if q < length c then c ! q else 0)" using H by blast
    ultimately show ?thesis using q by (simp add: fbyte_def)
  qed
  show "holds ?v2 e' (c @ p)" unfolding holds_def
  proof (intro conjI allI impI)
    show "length (c @ p) \<le> 71680" using c p by simp
    fix k assume k: "k < (140 :: nat)"
    show "fblock ?v2 e' k \<noteq> 0 \<longleftrightarrow> 512 * k < length (c @ p)"
    proof (cases "k = fbn")
      case True
      then show ?thesis using f2 x c p by simp
    next
      case False
      then have "512 * k < length c \<longleftrightarrow> 512 * k < length (c @ p)" using c(1,2) p(2) by (cases "k < fbn") auto
      then show ?thesis using f2 T k False H by simp
    qed
  next
    fix q assume "q < 512 * cb (length (c @ p))"
    then have ql: "q < 512 * Suc fbn" using cbs(1) by simp
    then have qd: "q div 512 \<le> fbn" by auto
    show "fbyte ?v2 e' q = (if q < length (c @ p) then (c @ p) ! q else 0)"
    proof (cases "q div 512 = fbn")
      case True
      then have qm: "q = 512 * fbn + q mod 512" using div_mult_mod_eq [of q 512] by simp
      then have i: "r \<le> q mod 512 \<longleftrightarrow> length c \<le> q" "q mod 512 < r + length p \<longleftrightarrow> q < length (c @ p)" "q mod 512 - r = q - length c"
        using c(1) by auto
      show ?thesis unfolding here [OF True] kept [OF True] i by (auto simp: nth_append)
    next
      case False
      then have "q < length c" using qd c(1) by auto
      moreover have "q div 512 < 140" "fblock ?v e (q div 512) \<noteq> 0" using qd False c H \<open>q < length c\<close> by auto
      moreover have "q < 512 * cb (length c)" using \<open>q < length c\<close> by (simp add: cb_def)
      ultimately show ?thesis using old [of q] False H by (simp add: nth_append)
    qed
  qed
qed

text \<open>The loop of \<open>iappend\<close>.\<close>

lemma append_loop_ok:
  assumes "img_base st" "img_owns st e" "holds (fsimg st) e c" "gno < NGROUPS" "length c + length p \<le> INODE_MAX_BYTES"
    "load st e + cb (length c + length p) < 9960 + cb (length c)"
  shows "\<exists>e' st'. append_loop gno (length c) e p st = Inr (length c + length p, e', st') \<and> file_grown e st e' st' \<and>
    holds (fsimg st') e' (c @ p) \<and> load st' e' + cb (length c) = load st e + cb (length c + length p)"
  using assms
proof (induction "length p" arbitrary: gno e c p st rule: less_induct)
  case less
  show ?case
  proof (cases "p = []")
    case True
    then show ?thesis using less.prems(1-3) file_grown_refl [of st e] by (simp add: append_loop.simps)
  next
    case False
    define fbn where "fbn = length c div 512"
    define r where "r = length c mod 512"
    have c: "length c = 512 * fbn + r" "r < 512" by (simp_all add: fbn_def r_def)
    define n1 where "n1 = min (length p) ((fbn + 1) * 512 - length c)"
    have n1: "0 < n1" "n1 \<le> length p" "r + n1 \<le> 512" using c False by (simp_all add: n1_def)
    have f140: "fbn < 140" using less.prems(5) c(1) False by (cases p) auto
    let ?p = "take n1 p"
    have lp: "length ?p = n1" using n1 by simp
    have p1: "0 < length ?p" "r + length ?p \<le> 512" using n1 lp by simp_all
    note cbs = cb_step [OF c p1]
    have fz: "fblock (fsimg st) e fbn = 0 \<longleftrightarrow> r = 0" using less.prems(3) c f140 by (auto simp: holds_def)
    have mono: "cb (length c + n1) \<le> cb (length c + length p)" by (rule cb_mono) (simp add: n1)
    have "load st e + (if fblock (fsimg st) e fbn = 0 then 1 else 0) < 9960"
      using less.prems(6) mono cbs fz lp by (cases "r = 0") simp_all
    then have rm: "sum_list (mk_used st) + (if fblock (fsimg st) e fbn = 0 then 1 else 0) + (if indirect e = 0 then 1 else 0) < 9960"
      by (simp add: load_def)
    obtain x g' e1 st1 where t: "append_target gno fbn e st = Inr (x, g', e1, st1)" "g' < 10" "target_ok fbn e st x e1 st1"
      using append_target_ok [OF less.prems(1,2) f140 less.prems(4) rm] by blast
    define st2 where "st2 = st1\<lparr>fsimg := (fsimg st1)(x := overwrite (fsimg st1 x) r ?p)\<rparr>"
    note pb = put_bytes [OF less.prems(1) t(3) less.prems(3) c f140 p1 st2_def]
    have b1: "img_base st1" using t(3) by (simp add: target_ok_def file_grown_def Let_def)
    note io = img_read [OF b1 pb(3)]
    have "length (fsimg st1 x) = 512" using b1 by (simp add: img_base_def)
    then have wb: "wblock x (overwrite (fsimg st1 x) r ?p) st1 = st2" using io(2) p1 by (simp add: st2_def)
    have lc: "length (c @ ?p) = length c + n1" using lp by simp
    have rr: "length c - fbn * 512 = r" using c(1) by simp
    have run: "append_loop gno (length c) e p st = append_loop g' (length (c @ ?p)) e1 (drop n1 p) st2"
      unfolding lc append_loop.simps [of gno "length c" e p st] Let_def fbn_def [symmetric] n1_def [symmetric] rr
      using False f140 t(1) io(1) wb by (simp add: chk_def)
    have b2: "img_base st2" "img_owns st2 e1" using pb(1) by (simp_all add: file_grown_def Let_def)
    have ll: "length (c @ ?p) + length (drop n1 p) = length c + length p" using n1(2) by simp
    have "load st2 e1 + cb (length (c @ ?p) + length (drop n1 p)) < 9960 + cb (length (c @ ?p))"
      unfolding ll using less.prems(6) pb(4) lp by simp
    moreover have "length (drop n1 p) < length p" using n1 False by simp
    ultimately obtain e' st' where e': "append_loop g' (length (c @ ?p)) e1 (drop n1 p) st2 = Inr (length c + length p, e', st')"
      "file_grown e1 st2 e' st'" "holds (fsimg st') e' ((c @ ?p) @ drop n1 p)"
      "load st' e' + cb (length (c @ ?p)) = load st2 e1 + cb (length c + length p)"
      using less.hyps [of "drop n1 p" st2 e1 "c @ ?p" g'] b2 pb(2) t(2) less.prems(5) unfolding ll by blast
    have "load st' e' + cb (length c) = load st e + cb (length c + length p)" using e'(4) pb(4) unfolding lc lp by linarith
    moreover have "holds (fsimg st') e' (c @ p)" using e'(3) by simp
    ultimately show ?thesis using run e'(1) file_grown_trans [OF pb(1) e'(2)] by auto
  qed
qed

end
