(* ===== verification/MkfsImage.thy ===== *)
theory MkfsImage
  imports MkfsAppend
begin

text \<open>
  The whole image: all files together (\<open>files_ok\<close>), their entries in the inode blocks (\<open>img_ok\<close>), and what \<open>ialloc\<close>,
  \<open>winode\<close> and \<open>iappend\<close> do to them.
\<close>

section \<open>All files\<close>

definition files_ok :: "mkst \<Rightarrow> (nat \<Rightarrow> InodeEntry) \<Rightarrow> (nat \<Rightarrow> bytes) \<Rightarrow> nat set \<Rightarrow> bool" where
  "files_ok st E C A \<longleftrightarrow> img_base st \<and> finite A \<and> (\<forall>i\<in>A. img_owns st (E i) \<and> holds (fsimg st) (E i) (C i)) \<and>
     (\<forall>i\<in>A. \<forall>j\<in>A. i \<noteq> j \<longrightarrow> file_blocks (fsimg st) (E i) \<inter> file_blocks (fsimg st) (E j) = {}) \<and>
     sum_list (mk_used st) + (\<Sum>i\<in>A. if indirect (E i) = 0 then 1 else 0) = (\<Sum>i\<in>A. cb (length (C i)) + 1)"

lemma sum_change:
  assumes "finite A" "i \<in> A" "\<And>j. j \<in> A \<Longrightarrow> j \<noteq> i \<Longrightarrow> f j = (g j :: nat)"
  shows "sum f A + g i = sum g A + f i"
proof -
  have "sum f (A - {i}) = sum g (A - {i})" using assms(3) by (intro sum.cong) auto
  then show ?thesis using sum.remove [OF assms(1,2), of f] sum.remove [OF assms(1,2), of g] by simp
qed

lemma num_bytes_simps [simp]:
  "fblock v (e\<lparr>num_bytes := n\<rparr>) = fblock v e" "file_blocks v (e\<lparr>num_bytes := n\<rparr>) = file_blocks v e"
  "fbyte v (e\<lparr>num_bytes := n\<rparr>) = fbyte v e" "holds v (e\<lparr>num_bytes := n\<rparr>) c = holds v e c"
proof -
  show f: "fblock v (e\<lparr>num_bytes := n\<rparr>) = fblock v e" by (rule ext) (simp add: fblock_def)
  show "file_blocks v (e\<lparr>num_bytes := n\<rparr>) = file_blocks v e" by (simp add: file_blocks_def f)
  show b: "fbyte v (e\<lparr>num_bytes := n\<rparr>) = fbyte v e" by (rule ext) (simp add: fbyte_def f)
  show "holds v (e\<lparr>num_bytes := n\<rparr>) c = holds v e c" by (simp add: holds_def f b)
qed

lemma owned_num_bytes: "\<lbrakk>img_owns st e; n < 2 ^ 32\<rbrakk> \<Longrightarrow> img_owns st (e\<lparr>num_bytes := n\<rparr>)"
  by (simp add: img_owns_def fmap_ok_def entry_fits_def)

lemma below_cb: "q < 512 * cb n \<Longrightarrow> 512 * (q div 512) < n"
proof -
  assume "q < 512 * cb n"
  then have "q div 512 < (n + 511) div 512" unfolding cb_def by (simp add: less_mult_imp_div_less mult.commute)
  then have "512 * Suc (q div 512) \<le> 512 * ((n + 511) div 512)" by (intro mult_le_mono2) simp
  also have "\<dots> \<le> n + 511" by (rule times_div_less_eq_dividend)
  finally show ?thesis unfolding mult_Suc_right by linarith
qed

lemma holds_frame:
  assumes h: "holds v e c" and f: "\<And>b. b \<in> file_blocks v e \<Longrightarrow> v' b = v b"
  shows "holds v' e c"
proof -
  note fr = file_blocks_frame [of v e v', OF f]
  have "fbyte v' e q = fbyte v e q" if "q < 512 * cb (length c)" for q
  proof -
    have "512 * (q div 512) < length c" by (rule below_cb [OF that])
    moreover have "length c \<le> 71680" using h by (simp add: holds_def)
    ultimately have "q div 512 < 140" by linarith
    then show ?thesis using fr(3) [of q] h \<open>512 * (q div 512) < length c\<close> by (auto simp: holds_def)
  qed
  then show ?thesis using h fr(2) by (simp add: holds_def)
qed

lemma owned_blocks: "img_owns st e \<Longrightarrow> file_blocks (fsimg st) e \<subseteq> data_blocks (mk_used st)"
  by (simp add: img_owns_def fmap_ok_def)

text \<open>One file grows, the others stay.\<close>

lemma files_grow:
  assumes f: "files_ok st E C A" and i: "i \<in> A" and g: "file_grown (E i) st e' st'" and h: "holds (fsimg st') e' c"
    and l: "load st' e' + cb (length (C i)) = load st (E i) + cb (length c)" and n: "n < 2 ^ 32"
  shows "files_ok st' (E(i := e'\<lparr>num_bytes := n\<rparr>)) (C(i := c)) A"
proof -
  note F = f [unfolded files_ok_def] and G = g [unfolded file_grown_def Let_def]
  let ?E = "E(i := e'\<lparr>num_bytes := n\<rparr>)"
  have same: "fsimg st' b = fsimg st b" if "j \<in> A" "j \<noteq> i" "b \<in> file_blocks (fsimg st) (E j)" for j b
  proof -
    have "b \<notin> file_blocks (fsimg st) (E i)" using F i that by blast
    moreover have "b \<in> data_blocks (mk_used st)" using owned_blocks [of st "E j"] F that by blast
    ultimately show ?thesis using G by blast
  qed
  have fb: "file_blocks (fsimg st') (E j) = file_blocks (fsimg st) (E j)" if "j \<in> A" "j \<noteq> i" for j
    by (rule file_blocks_frame(1)) (use same that in auto)
  have "img_owns st' (?E j) \<and> holds (fsimg st') (?E j) ((C(i := c)) j)" if j: "j \<in> A" for j
  proof (cases "j = i")
    case True
    then show ?thesis using G h owned_num_bytes [OF _ n] by simp
  next
    case False
    then have "img_owns st' (E j)" using owned_frame [of st "E j" st'] F G j same [OF j False] by blast
    moreover have "holds (fsimg st') (E j) (C j)" using holds_frame [of "fsimg st" "E j" "C j" "fsimg st'"] F j same [OF j False] by blast
    ultimately show ?thesis using False by simp
  qed
  moreover have dj: "file_blocks (fsimg st') e' \<inter> file_blocks (fsimg st') (E j) = {}" if j: "j \<in> A" "j \<noteq> i" for j
    unfolding fb [OF j] using F i j G owned_blocks [of st "E j"] by blast
  then have "file_blocks (fsimg st') (?E j) \<inter> file_blocks (fsimg st') (?E k) = {}" if jk: "j \<in> A" "k \<in> A" "j \<noteq> k" for j k
  proof (cases "j = i \<or> k = i")
    case True
    then show ?thesis using dj jk by (auto simp: Int_commute)
  next
    case False
    then show ?thesis using fb [of j] fb [of k] jk F by auto
  qed
  moreover have "sum_list (mk_used st') + (\<Sum>j\<in>A. if indirect (?E j) = 0 then 1 else 0) = (\<Sum>j\<in>A. cb (length ((C(i := c)) j)) + 1)"
  proof -
    have "(\<Sum>j\<in>A. if indirect (?E j) = 0 then 1 else 0) + (if indirect (E i) = 0 then 1 else 0) =
        (\<Sum>j\<in>A. if indirect (E j) = 0 then 1 else 0) + (if indirect (?E i) = 0 then 1 else (0 :: nat))"
      by (rule sum_change) (use F i in auto)
    moreover have "(\<Sum>j\<in>A. cb (length ((C(i := c)) j)) + 1) + (cb (length (C i)) + 1) =
        (\<Sum>j\<in>A. cb (length (C j)) + 1) + (cb (length ((C(i := c)) i)) + 1)"
      by (rule sum_change) (use F i in auto)
    ultimately show ?thesis using l F unfolding load_def by (simp split: if_splits)
  qed
  ultimately show ?thesis using F G unfolding files_ok_def by blast
qed

text \<open>Writing an inode block.\<close>

lemma files_inode_block:
  assumes f: "files_ok st E C A" and b: "b \<in> inode_blocks" "length d = BLOCK_SIZE"
  shows "files_ok (st\<lparr>fsimg := (fsimg st)(b := d)\<rparr>) E C A"
proof -
  let ?st = "st\<lparr>fsimg := (fsimg st)(b := d)\<rparr>"
  note F = f [unfolded files_ok_def]
  have base: "img_base ?st" using F b by (auto simp: img_base_def)
  have same: "fsimg ?st x = fsimg st x" if "i \<in> A" "x \<in> file_blocks (fsimg st) (E i)" for i x
  proof -
    have "x \<in> data_blocks (mk_used st)" using F that owned_blocks [of st "E i"] by blast
    then show ?thesis using data_blocksD [of x] b(1) by auto
  qed
  have "img_owns ?st (E i)" "holds (fsimg ?st) (E i) (C i)" if "i \<in> A" for i
    using F that owned_frame [of st "E i" ?st] holds_frame [of "fsimg st" "E i" "C i" "fsimg ?st"] same [OF that] by auto
  moreover have "file_blocks (fsimg ?st) (E i) = file_blocks (fsimg st) (E i)" if "i \<in> A" for i
    by (rule file_blocks_frame(1)) (rule same [OF that])
  ultimately show ?thesis using F base unfolding files_ok_def by simp
qed

text \<open>A new, empty file.\<close>

lemma empty_file:
  assumes "length (addrs e) = 12" "\<forall>a\<in>set (addrs e). a = 0" "indirect e = 0"
  shows "fblock v e k = 0 \<or> 140 \<le> k" "file_blocks v e = {}" "fmap_ok v e S" "holds v e []"
proof -
  have f: "fblock v e k = 0" if "k < 140" for k using assms that by (simp add: fblock_def)
  then show "fblock v e k = 0 \<or> 140 \<le> k" by (cases "k < 140") auto
  show fb: "file_blocks v e = {}" using f assms by (auto simp: file_blocks_def)
  show "fmap_ok v e S" using f fb assms by (simp add: fmap_ok_def)
  show "holds v e []" using f by (simp add: holds_def cb_def)
qed

lemma files_new:
  assumes f: "files_ok st E C A" and i: "i \<notin> A" and e: "entry_fits e" "\<forall>a\<in>set (addrs e). a = 0" "indirect e = 0"
  shows "files_ok st (E(i := e)) (C(i := [])) (insert i A)"
proof -
  note F = f [unfolded files_ok_def]
  have l: "length (addrs e) = 12" using e(1) by (simp add: entry_fits_def)
  note ef = empty_file [OF l e(2,3)]
  let ?E = "E(i := e)" and ?C = "C(i := [])"
  have "img_owns st (?E j) \<and> holds (fsimg st) (?E j) (?C j)" if "j \<in> insert i A" for j
    using F that ef e(1) by (auto simp: img_owns_def)
  moreover have "file_blocks (fsimg st) (?E j) \<inter> file_blocks (fsimg st) (?E k) = {}" if "j \<in> insert i A" "k \<in> insert i A" "j \<noteq> k" for j k
  proof (cases "j = i \<or> k = i")
    case True
    then show ?thesis using ef(2) by auto
  next
    case False
    then show ?thesis using F that by auto
  qed
  moreover have "(\<Sum>j\<in>A. g (?E j) (?C j)) = (\<Sum>j\<in>A. g (E j) (C j) :: nat)" for g using i by (intro sum.cong) auto
  note sm = this [of "\<lambda>e c. if indirect e = 0 then 1 else 0"] this [of "\<lambda>e c. cb (length c) + 1"]
  have "sum_list (mk_used st) + (\<Sum>j\<in>insert i A. if indirect (?E j) = 0 then 1 else 0) = (\<Sum>j\<in>insert i A. cb (length (?C j)) + 1)"
    using F i e(3) sm by (simp add: cb_def)
  ultimately show ?thesis using F unfolding files_ok_def by simp
qed

section \<open>Entries in the inode blocks\<close>

definition ent :: "disk \<Rightarrow> nat \<Rightarrow> InodeEntry" where
  "ent v i = get_entry (v (to_block_no mkfs_sb i)) i"

lemma inode_home:
  assumes "1 \<le> i" "i \<le> NINODES"
  shows "IBLOCK i mkfs_sb = to_block_no mkfs_sb i" "to_block_no mkfs_sb i \<in> inode_blocks" "to_block_no mkfs_sb i < 10065" "IGROUP i < NGROUPS"
proof -
  define g where "g = (i - 1) div 20"
  define r where "r = (i - 1) mod 20 div 8"
  have gr: "g < 10" "r < 3" using assms by (simp_all add: g_def r_def less_mult_imp_div_less)
  have h: "to_block_no mkfs_sb i = 65 + (1000 * g + r)" using assms by (simp add: to_block_no_def GINODES_def subw_small g_def r_def)
  show "IBLOCK i mkfs_sb = to_block_no mkfs_sb i" using assms unfolding h by (simp add: IBLOCK_def subw_small g_def r_def)
  show "to_block_no mkfs_sb i \<in> inode_blocks" "to_block_no mkfs_sb i < 10065" using gr unfolding h inode_blocks_def by simp_all
  show "IGROUP i < 10" using gr(1) assms by (simp add: IGROUP_def subw_small g_def)
qed

lemma rinode_ok:
  assumes "img_base st" "1 \<le> i" "i \<le> NINODES"
  shows "rinode i st = Inr (ent (fsimg st) i)"
proof -
  have "mk_sb st = mkfs_sb" using assms(1) by (simp add: img_base_def)
  then show ?thesis using img_read(1) [OF assms(1) inode_home(3) [OF assms(2,3)]] inode_home(1) [OF assms(2,3)]
    by (simp add: rinode_def ent_def get_entry_def entry_offset_def Let_def)
qed

definition put_ent :: "nat \<Rightarrow> InodeEntry \<Rightarrow> mkst \<Rightarrow> mkst" where
  "put_ent i e st = st\<lparr>fsimg := (fsimg st)(to_block_no mkfs_sb i := put_entry (fsimg st (to_block_no mkfs_sb i)) i e)\<rparr>"

lemma put_ent_simps [simp]: "mk_used (put_ent i e st) = mk_used st" "freeinode (put_ent i e st) = freeinode st"
  by (simp_all add: put_ent_def)

lemma put_entry_length: "\<lbrakk>length d = BLOCK_SIZE; entry_fits e\<rbrakk> \<Longrightarrow> length (put_entry d i e) = BLOCK_SIZE"
  using entry_offset_bound [of i] by (simp add: put_entry_def entry_fits_def)

lemma winode_ok:
  assumes b: "img_base st" and i: "1 \<le> i" "i \<le> NINODES" and e: "entry_fits e"
  shows "winode i e st = Inr (put_ent i e st)"
    "\<And>j. \<lbrakk>1 \<le> j; j \<le> NINODES\<rbrakk> \<Longrightarrow> ent (fsimg (put_ent i e st)) j = (if j = i then e else ent (fsimg st) j)"
    "x \<notin> inode_blocks \<Longrightarrow> fsimg (put_ent i e st) x = fsimg st x"
    "files_ok st E C A \<Longrightarrow> files_ok (put_ent i e st) E C A"
proof -
  let ?h = "to_block_no mkfs_sb"
  have sb: "mk_sb st = mkfs_sb" and len: "length (fsimg st (?h i)) = 512" using b by (simp_all add: img_base_def)
  note h = inode_home [OF i] and pl = put_entry_length [OF len e, of i]
  show "winode i e st = Inr (put_ent i e st)"
    using img_read [OF b h(3)] pl sb h(1) by (simp add: winode_def put_ent_def put_entry_def entry_offset_def Let_def)
  show "x \<notin> inode_blocks \<Longrightarrow> fsimg (put_ent i e st) x = fsimg st x" using h(2) by (auto simp: put_ent_def)
  show "files_ok st E C A \<Longrightarrow> files_ok (put_ent i e st) E C A" unfolding put_ent_def by (rule files_inode_block [OF _ h(2) pl])
  fix j :: nat assume j: "1 \<le> j" "j \<le> 200"
  show "ent (fsimg (put_ent i e st)) j = (if j = i then e else ent (fsimg st) j)"
  proof (cases "j = i")
    case True
    then show ?thesis using get_put_entry(1) [OF len e] by (simp add: ent_def put_ent_def)
  next
    case False
    have "j mod 8 \<noteq> i mod 8" if "?h j = ?h i"
      using inode_place_inj [of j i mkfs_sb] that False i j by (auto simp: GINODES_def entry_offset_def)
    then show ?thesis using False get_put_entry(2) [OF len e, of j i] by (simp add: ent_def put_ent_def)
  qed
qed

definition made :: "nat \<Rightarrow> nat \<Rightarrow> InodeEntry \<Rightarrow> bool" where
  "made t n e \<longleftrightarrow> e = zero_entry\<lparr>ity := t, num_links := 1, num_bytes := n, addrs := addrs e, indirect := indirect e\<rparr>"

lemma madeD: "made t n e \<Longrightarrow> ity e = t \<and> major e = 0 \<and> minor e = 0 \<and> num_links e = 1 \<and> num_bytes e = n"
  unfolding made_def by (cases e) (simp add: zero_entry_def)

definition img_ok :: "mkst \<Rightarrow> (nat \<Rightarrow> bytes) \<Rightarrow> (nat \<Rightarrow> nat) \<Rightarrow> bool" where
  "img_ok st C T \<longleftrightarrow> 1 \<le> freeinode st \<and> freeinode st \<le> NINODES + 1 \<and> files_ok st (ent (fsimg st)) C {1..<freeinode st} \<and>
     fsimg st 1 = overwrite (replicate BLOCK_SIZE 0) 0 (sblock_bytes mkfs_sb) \<and>
     (\<forall>i\<in>{1..<freeinode st}. made (T i) (length (C i)) (ent (fsimg st) i)) \<and>
     (\<forall>i\<in>{freeinode st..NINODES}. ity (ent (fsimg st) i) = INODE_INVALID)"

definition blocks_needed :: "(nat \<Rightarrow> bytes) \<Rightarrow> nat \<Rightarrow> nat" where
  "blocks_needed C n = (\<Sum>i\<in>{1..<n}. cb (length (C i)) + 1)"

lemma files_ok_cong:
  assumes "files_ok st E C A" "\<And>i. i \<in> A \<Longrightarrow> E' i = E i"
  shows "files_ok st E' C A"
proof -
  have s: "(\<Sum>i\<in>A. if indirect (E' i) = 0 then 1 else 0 :: nat) = (\<Sum>i\<in>A. if indirect (E i) = 0 then 1 else 0)"
    using assms(2) by (intro sum.cong) auto
  show ?thesis using assms unfolding files_ok_def s by simp
qed

lemma iappend_ok:
  assumes ok: "img_ok st C T" and i: "i \<in> {1..<freeinode st}" and n: "length (C i) + length p \<le> INODE_MAX_BYTES"
    and r: "blocks_needed (C(i := C i @ p)) (freeinode st) < 9960"
  shows "\<exists>st'. iappend i p st = Inr st' \<and> img_ok st' (C(i := C i @ p)) T \<and> freeinode st' = freeinode st"
proof -
  let ?e = "ent (fsimg st) i" and ?A = "{1..<freeinode st}" and ?c = "C i @ p"
  note I = ok [unfolded img_ok_def]
  have F: "files_ok st (ent (fsimg st)) C ?A" using I by blast
  note F' = F [unfolded files_ok_def]
  have i200: "1 \<le> i" "i \<le> 200" using i I by auto
  have b: "img_base st" "img_owns st ?e" "holds (fsimg st) ?e (C i)" using F' i by auto
  have nb: "num_bytes ?e = length (C i)" using I i madeD [of "T i" "length (C i)" ?e] by blast
  have "(\<Sum>j\<in>?A. cb (length ((C(i := ?c)) j)) + 1) + (cb (length (C i)) + 1) = (\<Sum>j\<in>?A. cb (length (C j)) + 1) + (cb (length ?c) + 1)"
    using sum_change [of ?A i "\<lambda>j. cb (length ((C(i := ?c)) j)) + 1" "\<lambda>j. cb (length (C j)) + 1"] i by simp
  moreover have "(if indirect ?e = 0 then 1 else 0) \<le> (\<Sum>j\<in>?A. if indirect (ent (fsimg st) j) = 0 then 1 else 0 :: nat)"
    by (rule member_le_sum) (use i in auto)
  ultimately have "load st ?e + cb (length (C i) + length p) < 9960 + cb (length (C i))"
    using r F' by (simp add: load_def blocks_needed_def)
  from append_loop_ok [OF b inode_home(4) [OF i200] n this] obtain e' st1 where
    l: "append_loop (IGROUP i) (length (C i)) ?e p st = Inr (length ?c, e', st1)" "file_grown ?e st e' st1" "holds (fsimg st1) e' ?c"
    "load st1 e' + cb (length (C i)) = load st ?e + cb (length ?c)" by auto
  define e2 where "e2 = e'\<lparr>num_bytes := length ?c\<rparr>"
  define st2 where "st2 = put_ent i e2 st1"
  have n32: "length ?c < 2 ^ 32" using n by simp
  have G: "img_base st1" "img_owns st1 e'" "freeinode st1 = freeinode st" using l(2) by (simp_all add: file_grown_def Let_def)
  have f2: "entry_fits e2" using owned_num_bytes [OF G(2) n32] by (simp add: img_owns_def e2_def)
  note w = winode_ok [OF G(1) i200 f2, folded st2_def]
  have run: "iappend i p st = Inr st2"
    using rinode_ok [OF b(1) i200] inode_home(4) [OF i200] nb l(1) w(1) by (simp add: iappend_def Let_def e2_def)
  have keep: "fsimg st1 x = fsimg st x" if "x \<notin> data_blocks (mk_used st1)" for x
    using l(2) that owned_blocks [OF G(2)] unfolding file_grown_def Let_def by blast
  have hm: "ent (fsimg st1) j = ent (fsimg st) j" if "1 \<le> j" "j \<le> 200" for j
  proof -
    have "fsimg st1 (to_block_no mkfs_sb j) = fsimg st (to_block_no mkfs_sb j)"
      using keep inode_home(2) [OF that] data_blocksD by blast
    then show ?thesis by (simp add: ent_def)
  qed
  have E2: "ent (fsimg st2) j = (if j = i then e2 else ent (fsimg st) j)" if "1 \<le> j" "j \<le> 200" for j
    using w(2) [OF that] hm [OF that] by simp
  have "files_ok st1 ((ent (fsimg st))(i := e2)) (C(i := ?c)) ?A"
    unfolding e2_def by (rule files_grow [OF F i l(2-4) n32])
  from files_ok_cong [OF w(4) [OF this], of "ent (fsimg st2)"]
  have "files_ok st2 (ent (fsimg st2)) (C(i := ?c)) ?A" using E2 I by auto
  moreover have "made (T i) (length ?c) e2"
  proof -
    have "made (T i) (length (C i)) ?e" "e' = ?e\<lparr>addrs := addrs e', indirect := indirect e'\<rparr>"
      using I i l(2) by (simp_all add: file_grown_def Let_def)
    then show ?thesis unfolding made_def e2_def by (cases e'; cases ?e) (simp add: zero_entry_def)
  qed
  moreover have "fsimg st2 1 = fsimg st 1"
    using w(3) [of 1] keep [of 1] data_blocksD [of 1] by (auto simp: inode_blocks_def)
  ultimately have "img_ok st2 (C(i := ?c)) T" using I E2 i G(3) unfolding img_ok_def by (auto simp: st2_def)
  then show ?thesis using run G(3) by (auto simp: st2_def)
qed

end
