(* ===== verification/MkfsRun.thy ===== *)
theory MkfsRun
  imports MkfsImage
begin

text \<open>
  The run of \<open>mkfs\<close>: the empty image, then one inode and one directory entry per input file.  \<open>CC fs\<close> are the contents of the
  files by inode number when the inputs \<open>fs\<close> (name and contents) have been added.
\<close>

section \<open>New inodes and whole inputs\<close>

lemma freeinode_simps [simp]:
  "img_base (st\<lparr>freeinode := n\<rparr>) = img_base st" "img_owns (st\<lparr>freeinode := n\<rparr>) e = img_owns st e"
  "files_ok (st\<lparr>freeinode := n\<rparr>) E C A = files_ok st E C A"
  by (simp_all add: img_base_def img_owns_def files_ok_def)

lemma ialloc_ok:
  assumes ok: "img_ok st C T" and n: "freeinode st \<le> NINODES" and t: "t < 2 ^ 16"
  shows "\<exists>st'. ialloc t st = Inr (freeinode st, st') \<and> img_ok st' (C(freeinode st := [])) (T(freeinode st := t)) \<and>
    freeinode st' = freeinode st + 1"
proof -
  let ?i = "freeinode st" and ?A = "{1..<freeinode st}"
  define e where "e = zero_entry\<lparr>ity := t, num_links := 1, num_bytes := 0\<rparr>"
  define st1 where "st1 = st\<lparr>freeinode := ?i + 1\<rparr>"
  define st2 where "st2 = put_ent ?i e st1"
  note I = ok [unfolded img_ok_def]
  have F: "files_ok st (ent (fsimg st)) C ?A" using I by blast
  have i200: "1 \<le> ?i" "?i \<le> 200" using I n by auto
  have fits: "entry_fits e" using t by (simp add: e_def zero_entry_def entry_fits_def)
  have b1: "img_base st1" using F by (simp add: st1_def files_ok_def)
  note w = winode_ok [OF b1 i200 fits, folded st2_def]
  have run: "ialloc t st = Inr (?i, st2)"
    using w(1) n by (simp add: ialloc_def Let_def e_def st1_def addw_small)
  have E2: "ent (fsimg st2) j = (if j = ?i then e else ent (fsimg st) j)" if "1 \<le> j" "j \<le> 200" for j
    using w(2) [OF that] by (simp add: st1_def)
  have ins: "insert ?i ?A = {1..<?i + 1}" using i200 by auto
  have "files_ok st ((ent (fsimg st))(?i := e)) (C(?i := [])) (insert ?i ?A)"
    by (rule files_new [OF F]) (use fits in \<open>auto simp: e_def zero_entry_def\<close>)
  then have "files_ok st1 ((ent (fsimg st))(?i := e)) (C(?i := [])) {1..<?i + 1}" unfolding ins by (simp add: st1_def)
  from files_ok_cong [OF w(4) [OF this], of "ent (fsimg st2)"]
  have "files_ok st2 (ent (fsimg st2)) (C(?i := [])) {1..<?i + 1}" using E2 i200 by auto
  moreover have "made t 0 e" by (simp add: made_def e_def zero_entry_def)
  moreover have "fsimg st2 1 = fsimg st 1" using w(3) [of 1] by (simp add: inode_blocks_def st1_def)
  ultimately have "img_ok st2 (C(?i := [])) (T(?i := t))" using I E2 i200 unfolding img_ok_def by (auto simp: st2_def st1_def)
  then show ?thesis using run by (auto simp: st2_def st1_def)
qed

lemma blocks_needed_mono:
  assumes "\<And>i. length (C i) \<le> length (D i)" "n \<le> m"
  shows "blocks_needed C n \<le> blocks_needed D m"
proof -
  have "blocks_needed C n \<le> blocks_needed D n" unfolding blocks_needed_def using assms(1) cb_mono by (intro sum_mono) simp
  also have "\<dots> \<le> blocks_needed D m" unfolding blocks_needed_def by (rule sum_mono2) (use assms(2) in auto)
  finally show ?thesis .
qed

lemma append_all_ok:
  assumes "img_ok st C T" "i \<in> {1..<freeinode st}" "length (C i @ concat bufs) \<le> INODE_MAX_BYTES"
    "blocks_needed (C(i := C i @ concat bufs)) (freeinode st) < 9960"
  shows "\<exists>st'. append_all i bufs st = Inr st' \<and> img_ok st' (C(i := C i @ concat bufs)) T \<and> freeinode st' = freeinode st"
  using assms
proof (induction bufs arbitrary: st C)
  case Nil
  then show ?case by simp
next
  case (Cons p bufs)
  have "blocks_needed (C(i := C i @ p)) (freeinode st) \<le> blocks_needed (C(i := C i @ concat (p # bufs))) (freeinode st)"
    by (rule blocks_needed_mono) simp_all
  also have "\<dots> < 9960" by (rule Cons.prems(4))
  finally obtain st1 where s: "iappend i p st = Inr st1" "img_ok st1 (C(i := C i @ p)) T" "freeinode st1 = freeinode st"
    using iappend_ok [OF Cons.prems(1,2), of p] Cons.prems(3) by auto
  have u: "(C(i := C i @ p)) i @ concat bufs = C i @ concat (p # bufs)" by simp
  from Cons.IH [OF s(2), unfolded u fun_upd_upd s(3), OF Cons.prems(2-4)] show ?case using s(1) by auto
qed

section \<open>The empty image\<close>

lemma zero_sectors_append: "zero_sectors (xs @ ys) st = zero_sectors ys (zero_sectors xs st)"
  by (induction xs arbitrary: st) simp_all

lemma zero_sectors_ok:
  assumes "n \<le> 2 ^ 23"
  shows "zero_sectors [0..<n] mkfs_start = mkfs_start\<lparr>fslen := n\<rparr>"
  using assms
proof (induction n)
  case 0
  then show ?case by (simp add: mkfs_start_def)
next
  case (Suc n)
  have m: "n mod 2 ^ 23 = n" using Suc.prems by simp
  let ?s = "mkfs_start\<lparr>fslen := n\<rparr>"
  have z: "(\<lambda>b. if b = n then take 512 (replicate 512 0) else if fslen ?s \<le> b \<and> b < n then replicate 512 0 else fsimg ?s b) = fsimg mkfs_start"
    by (rule ext) (simp add: mkfs_start_def)
  have "wsect n (replicate 512 0) ?s = mkfs_start\<lparr>fslen := Suc n\<rparr>"
    unfolding wsect_def Let_def m z by simp
  then show ?case using Suc by (simp add: zero_sectors_append)
qed

definition mkfs_blank :: mkst where
  "mkfs_blank = mkfs_start\<lparr>fslen := 10065, fsimg := (\<lambda>_. replicate BLOCK_SIZE 0)(1 := overwrite (replicate BLOCK_SIZE 0) 0 (sblock_bytes mkfs_sb))\<rparr>"

lemma sblock_bytes_length: "length (sblock_bytes sb) = 48"
  by (simp add: sblock_bytes_def sblock_fields_def)

lemma blank_run: "wblock 1 (overwrite (replicate BLOCK_SIZE 0) 0 (sblock_bytes (mk_sb (mkfs_start\<lparr>fslen := FSSIZE\<rparr>)))) (mkfs_start\<lparr>fslen := FSSIZE\<rparr>) = mkfs_blank"
proof -
  let ?d = "overwrite (replicate 512 0) 0 (sblock_bytes mkfs_sb)"
  have l: "take 512 ?d = ?d" by (simp add: sblock_bytes_length)
  let ?s = "mkfs_start\<lparr>fslen := FSSIZE\<rparr>"
  have z: "(\<lambda>b. if b = 1 then ?d else if fslen ?s \<le> b \<and> b < 1 then replicate 512 0 else fsimg ?s b) = (\<lambda>_. replicate 512 0)(1 := ?d)"
    by (rule ext) (simp add: mkfs_start_def)
  have m: "(1 :: nat) mod 2 ^ 23 = 1" "mk_sb ?s = mkfs_sb" "max (fslen ?s) (Suc 1) = 10065" by (simp_all add: mkfs_start_def)
  show ?thesis unfolding wblock_def wsect_def Let_def m l z by (simp add: mkfs_blank_def)
qed

lemma zero_ent: "ity (get_entry (replicate BLOCK_SIZE 0) i) = 0"
  by (simp add: get_entry_def bytes_entry_def slice_def)

lemma blank_ok: "img_ok mkfs_blank C T" "freeinode mkfs_blank = 1"
proof -
  show f: "freeinode mkfs_blank = 1" by (simp add: mkfs_blank_def mkfs_start_def)
  have d: "data_blocks (replicate 10 0) = {}"
  proof -
    have "replicate 10 0 ! ((b - 65) div 1000) = (0 :: nat)" if "b < 10065" for b
      using that less_mult_imp_div_less [of "b - 65" 10 1000] by simp
    then show ?thesis by (auto simp: data_blocks_def)
  qed
  have base: "img_base mkfs_blank"
    by (auto simp: img_base_def mkfs_blank_def mkfs_start_def used_ok_def sblock_bytes_length)
  have "ity (ent (fsimg mkfs_blank) i) = 0" if "1 \<le> i" "i \<le> 200" for i
  proof -
    have "to_block_no mkfs_sb i \<noteq> 1" using inode_home(2) [OF that] by (auto simp: inode_blocks_def)
    then show ?thesis using zero_ent by (simp add: ent_def mkfs_blank_def)
  qed
  moreover have "sum_list (mk_used mkfs_blank) = 0" by (simp add: mkfs_blank_def mkfs_start_def sum_list_replicate)
  moreover have "fsimg mkfs_blank 1 = overwrite (replicate 512 0) 0 (sblock_bytes mkfs_sb)" by (simp add: mkfs_blank_def)
  ultimately show "img_ok mkfs_blank C T" using f base by (auto simp: img_ok_def files_ok_def)
qed

section \<open>Input files\<close>

lemma scan_path_cases:
  "0 \<le> j \<Longrightarrow> (47 \<notin> set cs \<and> scan_path cs j = j + int (length cs)) \<or>
    (0 \<le> scan_path cs j \<and> scan_path cs j < int (length cs) \<and> 47 \<notin> set (drop (length cs - nat (scan_path cs j)) cs))"
proof (induction cs arbitrary: j)
  case Nil
  then show ?case by simp
next
  case (Cons c cs)
  define k where "k = (if c = 47 then -1 else j) + 1"
  have k: "0 \<le> k" using Cons.prems by (simp add: k_def)
  have sp: "scan_path (c # cs) j = scan_path cs k" by (simp add: k_def)
  from Cons.IH [OF k] show ?case unfolding sp
  proof
    assume a: "47 \<notin> set cs \<and> scan_path cs k = k + int (length cs)"
    then show "(47 \<notin> set (c # cs) \<and> scan_path cs k = j + int (length (c # cs))) \<or>
      (0 \<le> scan_path cs k \<and> scan_path cs k < int (length (c # cs)) \<and> 47 \<notin> set (drop (length (c # cs) - nat (scan_path cs k)) (c # cs)))"
      by (cases "c = 47") (auto simp: k_def)
  next
    assume a: "0 \<le> scan_path cs k \<and> scan_path cs k < int (length cs) \<and> 47 \<notin> set (drop (length cs - nat (scan_path cs k)) cs)"
    then have "length (c # cs) - nat (scan_path cs k) = Suc (length cs - nat (scan_path cs k))" by (simp add: Suc_diff_le nat_le_iff)
    then show "(47 \<notin> set (c # cs) \<and> scan_path cs k = j + int (length (c # cs))) \<or>
      (0 \<le> scan_path cs k \<and> scan_path cs k < int (length (c # cs)) \<and> 47 \<notin> set (drop (length (c # cs) - nat (scan_path cs k)) (c # cs)))"
      using a by simp
  qed
qed

lemma base_of_no_slash: "47 \<notin> set (base_of path)"
  using scan_path_cases [of 0 path] by (auto simp: base_of_def)

definition root_entries :: "bytes list \<Rightarrow> DirEntry list" where
  "root_entries ns = mk_dirent 1 [46] # mk_dirent 1 [46, 46] # map2 mk_dirent [2..<2 + length ns] ns"

definition root_dir :: "bytes list \<Rightarrow> bytes" where
  "root_dir ns = concat (map dirent_bytes (root_entries ns))"

definition CC :: "(bytes \<times> bytes) list \<Rightarrow> nat \<Rightarrow> bytes" where
  "CC fs i = (if i = 1 then root_dir (map fst fs) else if 2 \<le> i \<and> i < 2 + length fs then snd (fs ! (i - 2)) else [])"

definition TT :: "nat \<Rightarrow> nat" where
  "TT i = (if i = 1 then INODE_DIRECTORY else INODE_REGULAR)"

lemma mk_dirent_length [simp]: "length (dirent_bytes (mk_dirent i s)) = 16"
  by (simp add: mk_dirent_def)

lemma root_entries_snoc: "root_entries (ns @ [s]) = root_entries ns @ [mk_dirent (2 + length ns) s]"
proof -
  have u: "[2..<2 + length (ns @ [s])] = [2..<2 + length ns] @ [2 + length ns]" by simp
  have l: "length [2..<2 + length ns] = length ns" by (subst length_upt) simp
  show ?thesis unfolding root_entries_def u zip_append [OF l] by simp
qed

lemma root_dir_snoc: "root_dir (ns @ [s]) = root_dir ns @ dirent_bytes (mk_dirent (2 + length ns) s)"
  by (simp add: root_dir_def root_entries_snoc)

lemma root_dir_length: "length (root_dir ns) = 16 * (length ns + 2)"
proof (induction ns rule: rev_induct)
  case Nil
  then show ?case by (simp add: root_dir_def root_entries_def)
next
  case (snoc s ns)
  then show ?case by (simp add: root_dir_snoc)
qed

lemma CC_snoc: "CC (fs @ [f]) = (CC fs)(1 := CC fs 1 @ dirent_bytes (mk_dirent (2 + length fs) (fst f)), 2 + length fs := snd f)"
  by (rule ext) (auto simp: CC_def root_dir_snoc nth_append)

lemma CC_le: "length (CC fs i) \<le> length (CC (fs @ gs) i)"
  by (auto simp: CC_def root_dir_length nth_append)

definition input_of :: "bytes \<Rightarrow> bytes list \<Rightarrow> bytes \<times> bytes" where
  "input_of path bufs = (strip_underscore (base_of path), concat bufs)"

lemma add_file_ok:
  assumes ok: "img_ok st (CC fs) TT" and n: "freeinode st = 2 + length fs" "length fs < 198"
    and op: "open_in path = Some bufs" "length (concat bufs) \<le> INODE_MAX_BYTES"
    and r: "blocks_needed (CC (fs @ [input_of path bufs])) (3 + length fs) < 9960"
  shows "\<exists>st'. add_file 1 open_in path st = Inr st' \<and> img_ok st' (CC (fs @ [input_of path bufs])) TT \<and> freeinode st' = 3 + length fs"
proof -
  let ?N = "2 + length fs" and ?f = "input_of path bufs"
  let ?d = "dirent_bytes (mk_dirent ?N (fst ?f))"
  have c1: "(CC fs)(?N := []) = CC fs" "TT(?N := 2) = TT" by (auto simp: CC_def TT_def)
  obtain st1 where s1: "ialloc 2 st = Inr (?N, st1)" "img_ok st1 (CC fs) TT" "freeinode st1 = 3 + length fs"
    using ialloc_ok [OF ok, of 2] n c1 by auto
  have "blocks_needed ((CC fs)(1 := CC fs 1 @ ?d)) (3 + length fs) \<le> blocks_needed (CC (fs @ [?f])) (3 + length fs)"
    by (rule blocks_needed_mono) (auto simp: CC_snoc CC_def)
  also have "\<dots> < 9960" by (rule r)
  finally have b2: "blocks_needed ((CC fs)(1 := CC fs 1 @ ?d)) (3 + length fs) < 9960" .
  have l1: "length (CC fs 1) + length ?d \<le> 71680" using n(2) by (simp add: CC_def root_dir_length)
  obtain st2 where s2: "iappend 1 ?d st1 = Inr st2" "img_ok st2 ((CC fs)(1 := CC fs 1 @ ?d)) TT" "freeinode st2 = 3 + length fs"
    using iappend_ok [OF s1(2) _ l1] s1(3) b2 by auto
  have cn: "((CC fs)(1 := CC fs 1 @ ?d)) ?N = []" by (simp add: CC_def)
  have c3: "((CC fs)(1 := CC fs 1 @ ?d))(?N := concat bufs) = CC (fs @ [?f])" unfolding CC_snoc by (simp add: input_of_def)
  have "?N \<in> {1..<freeinode st2}" using s2(3) by simp
  from append_all_ok [OF s2(2) this, of bufs, unfolded cn append_Nil c3 s2(3), OF op(2) r] obtain st3 where
    s3: "append_all ?N bufs st2 = Inr st3" "img_ok st3 (CC (fs @ [?f])) TT" "freeinode st3 = 3 + length fs" by auto
  have "img_base st3" using s3(2) by (simp add: img_ok_def files_ok_def)
  then have "rinode ?N st3 = Inr (ent (fsimg st3) ?N)" using rinode_ok [of st3 ?N] n(2) by simp
  then have "add_file 1 open_in path st = Inr st3"
    using s1(1) s2(1) s3(1) op(1) base_of_no_slash [of path] by (simp add: add_file_def Let_def chk_def input_of_def)
  then show ?thesis using s3 by blast
qed

lemma add_files_ok:
  assumes "img_ok st (CC fs) TT" "freeinode st = 2 + length fs" "length fs + length argv \<le> 198"
    "length bufss = length argv" "\<forall>i<length argv. open_in (argv ! i) = Some (bufss ! i)"
    "\<forall>bufs\<in>set bufss. length (concat bufs) \<le> INODE_MAX_BYTES"
    "blocks_needed (CC (fs @ map2 input_of argv bufss)) (2 + length fs + length argv) < 9960"
  shows "\<exists>st'. add_files 1 open_in argv st = Inr st' \<and> img_ok st' (CC (fs @ map2 input_of argv bufss)) TT \<and>
    freeinode st' = 2 + length fs + length argv"
  using assms
proof (induction argv arbitrary: bufss fs st)
  case Nil
  then show ?case by simp
next
  case (Cons path argv)
  obtain bufs rest where bs: "bufss = bufs # rest" using Cons.prems(4) by (cases bufss) auto
  let ?f = "input_of path bufs"
  have op: "open_in path = Some bufs" "\<forall>i<length argv. open_in (argv ! i) = Some (rest ! i)"
    using Cons.prems(5) [rule_format, of 0] Cons.prems(5) [rule_format, of "Suc _"] bs by auto
  have e: "fs @ map2 input_of (path # argv) bufss = (fs @ [?f]) @ map2 input_of argv rest" by (simp add: bs)
  have "blocks_needed (CC (fs @ [?f])) (3 + length fs) \<le> blocks_needed (CC (fs @ map2 input_of (path # argv) bufss)) (2 + length fs + length (path # argv))"
    unfolding e by (rule blocks_needed_mono [OF CC_le]) simp
  also have "\<dots> < 9960" by (rule Cons.prems(7))
  finally have b1: "blocks_needed (CC (fs @ [?f])) (3 + length fs) < 9960" .
  obtain st1 where s1: "add_file 1 open_in path st = Inr st1" "img_ok st1 (CC (fs @ [?f])) TT" "freeinode st1 = 3 + length fs"
    using add_file_ok [where open_in = open_in, OF Cons.prems(1,2) _ op(1) _ b1] Cons.prems(3,6) bs by auto
  have "\<exists>st'. add_files 1 open_in argv st1 = Inr st' \<and> img_ok st' (CC ((fs @ [?f]) @ map2 input_of argv rest)) TT \<and>
      freeinode st' = 2 + length (fs @ [?f]) + length argv"
    by (rule Cons.IH [OF s1(2)]) (use s1(3) Cons.prems(3,4,6,7) bs op(2) in auto)
  then show ?case using s1(1) e by auto
qed

end
