(* ===== verification/MkfsSpec.thy ===== *)
theory MkfsSpec
  imports MkfsRun DirSpec
begin

text \<open>
  What \<open>mkfs\<close> promises the kernel: the image it writes holds the input files where the kernel looks for them, the bitmaps are
  right, and \<open>init_filesystem\<close> starts from it.
\<close>

section \<open>The bitmaps\<close>

lemma set_bits_ok:
  assumes "length buf = 512" "\<forall>i\<in>set is. i < 4096"
  shows "length (set_bits is buf) = 512"
    "x < 4096 \<Longrightarrow> bit (set_bits is buf ! (x div 8)) (x mod 8) \<longleftrightarrow> bit (buf ! (x div 8)) (x mod 8) \<or> x \<in> set is"
proof -
  have "length (set_bits is buf) = 512 \<and> (\<forall>x<4096. bit (set_bits is buf ! (x div 8)) (x mod 8) \<longleftrightarrow> bit (buf ! (x div 8)) (x mod 8) \<or> x \<in> set is)"
    using assms
  proof (induction "is" arbitrary: buf)
    case Nil
    then show ?case by simp
  next
    case (Cons i "is")
    let ?b = "buf[i div 8 := or (buf ! (i div 8)) (push_bit (i mod 8) 1)]"
    have i: "i div 8 < length buf" using Cons.prems by (simp add: less_mult_imp_div_less)
    have "bit (?b ! (x div 8)) (x mod 8) \<longleftrightarrow> bit (buf ! (x div 8)) (x mod 8) \<or> x = i" if "x < 4096" for x
    proof (cases "x div 8 = i div 8")
      case True
      have "bit (push_bit (i mod 8) (1 :: u8)) (x mod 8) \<longleftrightarrow> x mod 8 = i mod 8" by (auto simp: bit_simps)
      moreover have "x mod 8 = i mod 8 \<longleftrightarrow> x = i" using True by (metis div_mult_mod_eq)
      ultimately show ?thesis using True i by (simp add: bit_or_iff)
    next
      case False
      then show ?thesis by auto
    qed
    then show ?case using Cons.IH [of ?b] Cons.prems by auto
  qed
  then show "length (set_bits is buf) = 512"
    "x < 4096 \<Longrightarrow> bit (set_bits is buf ! (x div 8)) (x mod 8) \<longleftrightarrow> bit (buf ! (x div 8)) (x mod 8) \<or> x \<in> set is" by blast+
qed

definition group_bits :: "nat \<Rightarrow> bytes" where
  "group_bits n = set_bits [0..<n + 4] (replicate BLOCK_SIZE 0)"

lemma group_bits_ok:
  assumes "n \<le> 996"
  shows "length (group_bits n) = BLOCK_SIZE" "i \<in> bm_set (cells_of (group_bits n)) \<longleftrightarrow> i < n + 4"
proof -
  have a: "length (replicate 512 (0 :: u8)) = 512" "\<forall>i\<in>set [0..<n + 4]. i < 4096" using assms by auto
  show l: "length (group_bits n) = 512" unfolding group_bits_def by (rule set_bits_ok(1) [OF a])
  have l8: "length (group_bits n) = 8 * 64" using l by simp
  have z: "bit (replicate 512 (0 :: u8) ! (i div 8)) (i mod 8) = False" if "i < 4096" for i
    using that by (simp add: less_mult_imp_div_less)
  show "i \<in> bm_set (cells_of (group_bits n)) \<longleftrightarrow> i < n + 4"
  proof (cases "i < 4096")
    case True
    then show ?thesis using bm_set_cells_of [OF l8, of i] l set_bits_ok(2) [OF a True] z [OF True] by (simp add: group_bits_def)
  next
    case False
    then show ?thesis using bm_set_cells_of [OF l8, of i] l assms by simp
  qed
qed

definition bitmaps_put :: "nat list \<Rightarrow> nat set \<Rightarrow> disk \<Rightarrow> disk" where
  "bitmaps_put us G v b = (if \<exists>g\<in>G. b = 68 + g * 1000 then group_bits (us ! ((b - 68) div 1000)) else v b)"

lemma balloc_loop_ok:
  assumes "mk_sb st = mkfs_sb" "fslen st = 10065" "used_ok (mk_used st)" "\<forall>g\<in>set gs. g < NGROUPS"
  shows "balloc_loop gs st = Inr (st\<lparr>fsimg := bitmaps_put (mk_used st) (set gs) (fsimg st)\<rparr>)"
  using assms
proof (induction gs arbitrary: st)
  case Nil
  have "bitmaps_put (mk_used st) {} (fsimg st) = fsimg st" by (rule ext) (simp add: bitmaps_put_def)
  then show ?case by simp
next
  case (Cons g gs)
  let ?n = "mk_used st ! g"
  have n: "?n \<le> 996" "g < 10" using Cons.prems by (simp_all add: used_ok_def)
  define st1 where "st1 = st\<lparr>fsimg := (fsimg st)(68 + g * 1000 := group_bits ?n)\<rparr>"
  have w: "wblock (68 + g * 1000) (group_bits ?n) st = st1"
    using img_io(2) [OF Cons.prems(2), of "68 + g * 1000" "group_bits ?n"] group_bits_ok(1) [OF n(1)] n(2) by (simp add: st1_def)
  have a: "65 + 3 + g * ((10000 + 2 + 63 - 2 - 63) div 10) = 68 + g * 1000" by simp
  have "balloc_group g st = Inr st1"
    unfolding balloc_group_def Let_def Cons.prems(1) mkfs_sb_simps group_bits_def [symmetric] a w using n(1) by (simp add: chk_def)
  moreover have "bitmaps_put (mk_used st) (set gs) (fsimg st1) = bitmaps_put (mk_used st) (set (g # gs)) (fsimg st)"
    by (rule ext) (auto simp: bitmaps_put_def st1_def)
  moreover have s1: "mk_sb st1 = mkfs_sb" "fslen st1 = 10065" "mk_used st1 = mk_used st" "st1\<lparr>fsimg := x\<rparr> = st\<lparr>fsimg := x\<rparr>" for x
    using Cons.prems by (simp_all add: st1_def)
  ultimately show ?case using Cons.IH [of st1] Cons.prems by simp
qed

section \<open>The run\<close>

lemma blocks_needed_inputs:
  assumes "length fs \<le> 198"
  shows "blocks_needed (CC fs) (2 + length fs) \<le> 8 + (\<Sum>f\<leftarrow>fs. cb (length (snd f)) + 1)"
proof -
  let ?g = "\<lambda>i. cb (length (CC fs i)) + 1"
  have "{1..<2 + length fs} = insert 1 {2..<2 + length fs}" by auto
  then have "blocks_needed (CC fs) (2 + length fs) = ?g 1 + sum ?g {2..<2 + length fs}" by (simp add: blocks_needed_def)
  moreover have "sum ?g {2..<2 + length fs} = (\<Sum>i = 0..<length fs. ?g (i + 2))"
    using sum.shift_bounds_nat_ivl [of ?g 0 2 "length fs"] by (simp only: add_0 add.commute)
  moreover have "\<dots> = (\<Sum>i = 0..<length fs. cb (length (snd (fs ! i))) + 1)" by (rule sum.cong) (auto simp: CC_def)
  moreover have "\<dots> = (\<Sum>f\<leftarrow>fs. cb (length (snd f)) + 1)" by (simp add: sum_list_sum_nth)
  moreover have "cb (length (CC fs 1)) \<le> cb 3200" using assms by (intro cb_mono) (simp add: CC_def root_dir_length)
  ultimately show ?thesis by (simp add: cb_def)
qed

text \<open>The conditions on the inputs: they can be opened, there is an inode for each, and they fit.\<close>

definition inputs_ok :: "(bytes \<Rightarrow> bytes list option) \<Rightarrow> bytes list \<Rightarrow> bytes list list \<Rightarrow> bool" where
  "inputs_ok open_in argv bufss \<longleftrightarrow> length argv \<le> 198 \<and> length bufss = length argv \<and>
     (\<forall>i<length argv. open_in (argv ! i) = Some (bufss ! i)) \<and> (\<forall>bufs\<in>set bufss. length (concat bufs) \<le> INODE_MAX_BYTES) \<and>
     (\<Sum>bufs\<leftarrow>bufss. cb (length (concat bufs)) + 1) < 9952"

definition root_fixed :: "nat \<Rightarrow> InodeEntry \<Rightarrow> InodeEntry" where
  "root_fixed m e = e\<lparr>num_bytes := (16 * m div BLOCK_SIZE + 1) * BLOCK_SIZE\<rparr>"

lemma root_start:
  "\<exists>st. bnd (ialloc INODE_DIRECTORY mkfs_blank) (\<lambda>(rootino, st). bnd (chk (rootino = 1) msg) (\<lambda>_.
      bnd (iappend rootino (dirent_bytes (mk_dirent rootino [46])) st) (\<lambda>st.
      bnd (iappend rootino (dirent_bytes (mk_dirent rootino [46, 46])) st) (f rootino)))) = f 1 st \<and> img_ok st (CC []) TT \<and> freeinode st = 2"
proof -
  let ?d = "dirent_bytes (mk_dirent 1 [46])" and ?d2 = "dirent_bytes (mk_dirent 1 [46, 46])" and ?C = "\<lambda>_ :: nat. [] :: bytes"
  have T: "TT(1 := 1) = TT" "?C(1 := []) = ?C" by (auto simp: TT_def)
  obtain st1 where s1: "ialloc 1 mkfs_blank = Inr (1, st1)" "img_ok st1 ?C TT" "freeinode st1 = 2"
    using ialloc_ok [OF blank_ok(1) [of ?C TT], of 1] blank_ok(2) T by auto
  have b: "blocks_needed (?C(1 := x)) 2 < 9960" if "length x \<le> 512" for x
  proof -
    have "{1..<2 :: nat} = {1}" by auto
    moreover have "cb (length x) \<le> cb 512" by (rule cb_mono [OF that])
    ultimately show ?thesis by (simp add: blocks_needed_def cb_def)
  qed
  obtain st2 where s2: "iappend 1 ?d st1 = Inr st2" "img_ok st2 (?C(1 := ?d)) TT" "freeinode st2 = 2"
    using iappend_ok [OF s1(2), of 1 ?d] s1(3) b [of ?d] by auto
  have c: "(?C(1 := ?d))(1 := (?C(1 := ?d)) 1 @ ?d2) = ?C(1 := ?d @ ?d2)" by (intro ext) simp
  have "img_ok st3 (?C(1 := ?d @ ?d2)) TT \<Longrightarrow> img_ok st3 (CC []) TT" for st3
  proof -
    have "CC [] = ?C(1 := ?d @ ?d2)" by (rule ext) (simp add: CC_def root_dir_def root_entries_def)
    then show "img_ok st3 (?C(1 := ?d @ ?d2)) TT \<Longrightarrow> img_ok st3 (CC []) TT" by simp
  qed
  then obtain st3 where s3: "iappend 1 ?d2 st2 = Inr st3" "img_ok st3 (CC []) TT" "freeinode st3 = 2"
    using iappend_ok [OF s2(2), of 1 ?d2, unfolded c] s2(3) b [of "?d @ ?d2"] by auto
  show ?thesis using s1(1) s2(1) s3 by (intro exI [of _ st3]) (simp add: chk_def)
qed

lemma mkfs_run:
  assumes i: "inputs_ok open_in argv bufss"
  shows "\<exists>st. img_ok st (CC (map2 input_of argv bufss)) TT \<and> freeinode st = 2 + length argv \<and>
    mkfs_main open_in argv = Inr (st\<lparr>fsimg := bitmaps_put (mk_used st) {..<NGROUPS}
      (fsimg (put_ent 1 (root_fixed (length argv + 2) (ent (fsimg st) 1)) st))\<rparr>)"
proof -
  let ?fs = "map2 input_of argv bufss"
  note I = i [unfolded inputs_ok_def]
  have sm: "(\<Sum>f\<leftarrow>?fs. cb (length (snd f)) + 1) = (\<Sum>bufs\<leftarrow>bufss. cb (length (concat bufs)) + 1)"
  proof -
    have "map (\<lambda>f. cb (length (snd f)) + 1) ?fs = map (\<lambda>bufs. cb (length (concat bufs)) + 1) bufss"
      by (rule nth_equalityI) (use I in \<open>auto simp: input_of_def\<close>)
    then show ?thesis by simp
  qed
  have "blocks_needed (CC ?fs) (2 + length argv) < 9960"
    using blocks_needed_inputs [of ?fs] I sm by simp
  then have b: "blocks_needed (CC ([] @ ?fs)) (2 + length [] + length argv) < 9960" by simp
  have z: "wblock 1 (overwrite (replicate BLOCK_SIZE 0) 0 (sblock_bytes (mk_sb (zero_sectors [0..<FSSIZE] mkfs_start)))) (zero_sectors [0..<FSSIZE] mkfs_start) = mkfs_blank"
  proof -
    have l: "FSSIZE \<le> 2 ^ 23" by simp
    show ?thesis unfolding zero_sectors_ok [OF l] by (rule blank_run)
  qed
  let ?k = "\<lambda>rootino st. bnd (add_files rootino open_in argv st) (\<lambda>st. bnd (fix_root rootino st) ballocg)"
  obtain st0 where s0: "img_ok st0 (CC []) TT" "freeinode st0 = 2" "mkfs_main open_in argv = ?k 1 st0"
    using root_start [of "''rootino == ROOT_INODE_NO''" ?k] unfolding mkfs_main_def Let_def z by blast
  obtain st where st: "add_files 1 open_in argv st0 = Inr st" "img_ok st (CC ?fs) TT" "freeinode st = 2 + length argv"
    using add_files_ok [of st0 "[]" argv bufss open_in] s0(1,2) I b by auto
  let ?e = "ent (fsimg st) 1" and ?m = "length argv + 2"
  note K = st(2) [unfolded img_ok_def files_ok_def]
  have one: "1 \<in> {1..<freeinode st}" using st(3) by simp
  have c1: "length (CC ?fs 1) = 16 * ?m" using I by (simp add: CC_def root_dir_length)
  have base: "img_base st" "img_owns st ?e" "made (TT 1) (length (CC ?fs 1)) ?e" using K one by blast+
  then have nb: "num_bytes ?e = 16 * ?m" using madeD c1 by metis
  have fits: "entry_fits (root_fixed ?m ?e)" using base(2) I unfolding img_owns_def entry_fits_def root_fixed_def by auto
  note w = winode_ok [OF base(1) _ _ fits, of 1]
  let ?st = "put_ent 1 (root_fixed ?m ?e) st"
  have "fix_root 1 st = Inr ?st" using rinode_ok [OF base(1), of 1] w(1) nb by (simp add: fix_root_def root_fixed_def)
  moreover have "ballocg ?st = Inr (?st\<lparr>fsimg := bitmaps_put (mk_used ?st) {..<10} (fsimg ?st)\<rparr>)"
    using balloc_loop_ok [of ?st "[0..<10]"] base(1) by (simp add: ballocg_def put_ent_def img_base_def atLeast0LessThan)
  ultimately show ?thesis using s0(3) st by (intro exI [of _ st]) (simp add: put_ent_def)
qed

section \<open>The image as the kernel sees it\<close>

lemma mkfs_layout: "layout_ok mkfs_sb" "sb_ok mkfs_sb"
  by (simp_all add: layout_ok_def sb_ok_def)

lemma mkfs_area: "group_area mkfs_sb = {65..<10065}"
  by (simp add: group_area_def)

lemma mkfs_bit:
  "bit_block mkfs_sb b = 68 + (b - 65) div 1000 * 1000" "bit_index mkfs_sb b = (b - 65) mod 1000"
proof -
  have "(b - 65) mod 1000 < 1000" by simp
  then have "(b - 65) mod 1000 div 4096 = 0" "(b - 65) mod 1000 mod 4096 = (b - 65) mod 1000"
    by (simp_all only: div_less mod_less less_trans [of "(b - 65) mod 1000" 1000 4096])
  then show "bit_block mkfs_sb b = 68 + (b - 65) div 1000 * 1000" "bit_index mkfs_sb b = (b - 65) mod 1000"
    by (simp_all add: bit_block_def bit_index_def)
qed

lemma mkfs_bitmaps: "bitmap_blocks mkfs_sb = (\<lambda>g. 68 + g * 1000) ` {..<10}"
proof
  show "bitmap_blocks mkfs_sb \<subseteq> (\<lambda>g. 68 + g * 1000) ` {..<10}"
    by (auto simp: bitmap_blocks_def mkfs_area mkfs_bit less_mult_imp_div_less)
  show "(\<lambda>g. 68 + g * 1000) ` {..<10} \<subseteq> bitmap_blocks mkfs_sb"
  proof
    fix x :: nat assume "x \<in> (\<lambda>g. 68 + g * 1000) ` {..<10}"
    then obtain g where g: "x = 68 + g * 1000" "g < 10" by auto
    have "bit_block mkfs_sb (65 + g * 1000) = x" "65 + g * 1000 \<in> group_area mkfs_sb" using g by (simp_all add: mkfs_bit mkfs_area)
    then show "x \<in> bitmap_blocks mkfs_sb" unfolding bitmap_blocks_def by blast
  qed
qed

lemma bitmap_not_data:
  assumes "b \<in> data_blocks us \<or> b \<in> inode_blocks \<or> b < 65"
  shows "b \<notin> (\<lambda>g. 68 + g * 1000) ` {..<10}" "bitmaps_put us {..<10} v b = v b"
proof -
  have "(68 + g * 1000 - 65) mod 1000 = 3" for g :: nat by (simp add: add.commute)
  then show "b \<notin> (\<lambda>g. 68 + g * 1000) ` {..<10}" using assms by (auto simp: data_blocks_def inode_blocks_def)
  then show "bitmaps_put us {..<10} v b = v b" by (auto simp: bitmaps_put_def)
qed

lemma mkfs_allocated:
  assumes "used_ok us"
  shows "allocated mkfs_sb (bitmaps_put us {..<10} v) = {b. 65 \<le> b \<and> b < 10065 \<and> (b - 65) mod 1000 < 4 + us ! ((b - 65) div 1000)}"
    "allocated mkfs_sb (bitmaps_put us {..<10} v) - bitmap_blocks mkfs_sb = data_blocks us \<union> inode_blocks"
proof -
  have "b \<in> allocated mkfs_sb (bitmaps_put us {..<10} v) \<longleftrightarrow> (b - 65) mod 1000 < 4 + us ! ((b - 65) div 1000)" if b: "65 \<le> b" "b < 10065" for b
  proof -
    let ?g = "(b - 65) div 1000"
    have g: "?g < 10" using b by (simp add: less_mult_imp_div_less)
    then have n: "us ! ?g \<le> 996" using assms by (simp add: used_ok_def)
    have "bitmaps_put us {..<10} v (68 + ?g * 1000) = group_bits (us ! ?g)" using g by (auto simp: bitmaps_put_def)
    then show ?thesis using b group_bits_ok(2) [OF n] by (simp add: allocated_def mkfs_area mkfs_bit add.commute)
  qed
  then show al: "allocated mkfs_sb (bitmaps_put us {..<10} v) = {b. 65 \<le> b \<and> b < 10065 \<and> (b - 65) mod 1000 < 4 + us ! ((b - 65) div 1000)}"
    by (auto simp: allocated_def mkfs_area)
  have bm: "b \<in> bitmap_blocks mkfs_sb \<longleftrightarrow> (b - 65) mod 1000 = 3" if b: "65 \<le> b" "b < 10065" for b
  proof
    assume "b \<in> bitmap_blocks mkfs_sb"
    then obtain g where "b = 68 + g * 1000" unfolding mkfs_bitmaps by auto
    then show "(b - 65) mod 1000 = 3" by (simp add: add.commute)
  next
    assume "(b - 65) mod 1000 = 3"
    then have "b = 68 + (b - 65) div 1000 * 1000" using b(1) div_mult_mod_eq [of "b - 65" 1000] by linarith
    moreover have "(b - 65) div 1000 < 10" using b by (simp add: less_mult_imp_div_less)
    ultimately show "b \<in> bitmap_blocks mkfs_sb" unfolding mkfs_bitmaps by blast
  qed
  show "allocated mkfs_sb (bitmaps_put us {..<10} v) - bitmap_blocks mkfs_sb = data_blocks us \<union> inode_blocks"
    unfolding al data_blocks_def inode_blocks_def using bm by auto
qed

text \<open>The files of the finished image.\<close>

definition final_img :: "mkst \<Rightarrow> nat \<Rightarrow> disk" where
  "final_img st m = bitmaps_put (mk_used st) {..<NGROUPS} (fsimg (put_ent 1 (root_fixed m (ent (fsimg st) 1)) st))"

lemma final_img_ok:
  assumes ok: "img_ok st C TT" and n: "1 < freeinode st" "m \<le> 200"
  shows "final_img st m 1 = fsimg st 1" "final_img st m 2 = replicate BLOCK_SIZE 0" "\<forall>b. length (final_img st m b) = BLOCK_SIZE"
    "\<And>i. 1 \<le> i \<Longrightarrow> i \<le> NINODES \<Longrightarrow> ent (final_img st m) i = (if i = 1 then root_fixed m (ent (fsimg st) 1) else ent (fsimg st) i)"
    "\<And>i. i \<in> {1..<freeinode st} \<Longrightarrow> file_blocks (final_img st m) (ent (final_img st m) i) = file_blocks (fsimg st) (ent (fsimg st) i) \<and>
       entry_fits (ent (final_img st m) i) \<and> fmap_ok (final_img st m) (ent (final_img st m) i) (data_blocks (mk_used st)) \<and>
       holds (final_img st m) (ent (final_img st m) i) (C i)"
proof -
  let ?v = "fsimg st" and ?w = "final_img st m" and ?e = "root_fixed m (ent (fsimg st) 1)"
  note I = ok [unfolded img_ok_def] and F = ok [unfolded img_ok_def files_ok_def]
  have base: "img_base st" and own: "\<And>i. i \<in> {1..<freeinode st} \<Longrightarrow> img_owns st (ent ?v i) \<and> holds ?v (ent ?v i) (C i)" using F by blast+
  have "16 * m div 512 \<le> 6" using n(2) by simp
  then have n32: "(16 * m div 512 + 1) * 512 < 2 ^ 32" by simp
  have re: "img_owns st ?e" unfolding root_fixed_def by (rule owned_num_bytes [OF _ n32]) (use own [of 1] n in simp)
  then have fits: "entry_fits ?e" by (simp add: img_owns_def)
  note w = winode_ok [OF base _ _ fits, of 1]
  have out: "?w b = ?v b" if "b \<in> data_blocks (mk_used st) \<or> (b < 65)" for b
    using bitmap_not_data(2) [of b "mk_used st"] w(3) [of b] that data_blocksD [of b] unfolding final_img_def by (auto simp: inode_blocks_def)
  show "?w 1 = ?v 1" using out by simp
  have "2 \<notin> data_blocks (mk_used st)" "2 \<notin> inode_blocks" using data_blocksD [of 2] by (auto simp: inode_blocks_def)
  then show "?w 2 = replicate 512 0" using out [of 2] base by (simp add: img_base_def)
  show "\<forall>b. length (?w b) = 512"
  proof
    fix b
    have "length (fsimg (put_ent 1 ?e st) b) = 512"
      using base put_entry_length [OF _ fits] by (simp add: put_ent_def img_base_def)
    moreover have "length (group_bits (mk_used st ! ((b - 68) div 1000))) = 512" if "\<exists>g\<in>{..<10}. b = 68 + g * 1000"
    proof (rule group_bits_ok(1))
      show "mk_used st ! ((b - 68) div 1000) \<le> 996" using that base by (auto simp: img_base_def used_ok_def)
    qed
    ultimately show "length (?w b) = 512" by (simp add: final_img_def bitmaps_put_def)
  qed
  show E: "ent ?w i = (if i = 1 then ?e else ent ?v i)" if i: "1 \<le> i" "i \<le> 200" for i
  proof -
    have "?w (to_block_no mkfs_sb i) = fsimg (put_ent 1 ?e st) (to_block_no mkfs_sb i)"
      using bitmap_not_data(2) inode_home(2) [OF i] unfolding final_img_def by blast
    then show ?thesis using w(2) [OF _ _ i] by (simp add: ent_def)
  qed
  fix i assume i: "i \<in> {1..<freeinode st}"
  then have i2: "1 \<le> i" "i \<le> 200" using I by auto
  have fb: "file_blocks ?v (ent ?w i) = file_blocks ?v (ent ?v i)" "holds ?v (ent ?w i) (C i)" "img_owns st (ent ?w i)"
    using E [OF i2] own [OF i] re by (auto simp: root_fixed_def)
  have same: "?w b = ?v b" if "b \<in> file_blocks ?v (ent ?w i)" for b using owned_blocks [OF fb(3)] that out by blast
  note fr = file_blocks_frame [of ?v "ent ?w i" ?w, OF same]
  have "fmap_ok ?w (ent ?w i) (data_blocks (mk_used st))" "entry_fits (ent ?w i)"
    using fb(3) fr(1,2) unfolding img_owns_def fmap_ok_def by simp_all
  then show "file_blocks ?w (ent ?w i) = file_blocks ?v (ent ?v i) \<and> entry_fits (ent ?w i) \<and>
      fmap_ok ?w (ent ?w i) (data_blocks (mk_used st)) \<and> holds ?w (ent ?w i) (C i)"
    using fr(1) fb(1) holds_frame [OF fb(2) same] by simp
qed

lemma holds_bytes:
  assumes "holds v e c"
  shows "map (fbyte v e) [0..<length c] = c"
proof (rule nth_equalityI)
  fix i assume "i < length (map (fbyte v e) [0..<length c])"
  moreover then have "i < 512 * cb (length c)" by (simp add: cb_def)
  ultimately show "map (fbyte v e) [0..<length c] ! i = c ! i" using assms by (simp add: holds_def)
qed simp

lemma holds_file_ok:
  assumes "holds v e c" "fmap_ok v e S" "S \<subseteq> S'" "num_bytes e \<le> INODE_MAX_BYTES"
  shows "file_ok v e S' \<longleftrightarrow> (\<forall>k. 512 * k < num_bytes e \<longrightarrow> 512 * k < length c)"
proof -
  have k: "fblock v e k \<noteq> 0 \<longleftrightarrow> 512 * k < length c" if "512 * k < num_bytes e" for k
  proof -
    have "k < 140" using that assms(4) by simp
    then show ?thesis using assms(1) by (simp add: holds_def)
  qed
  have "fmap_ok v e S'" using assms(2,3) unfolding fmap_ok_def by blast
  then show ?thesis using assms(4) k unfolding file_ok_def by blast
qed

section \<open>The root directory\<close>

lemma concat_slice: "\<lbrakk>\<forall>x\<in>set xs. length x = k; i < length xs\<rbrakk> \<Longrightarrow> slice (concat xs) (k * i) k = xs ! i"
proof (induction xs arbitrary: i)
  case Nil
  then show ?case by simp
next
  case (Cons x xs)
  then show ?case by (cases i) (simp_all add: slice_def)
qed

definition free_dirent :: DirEntry where
  "free_dirent = \<lparr>de_inode_no = 0, de_name = replicate FILE_NAME_MAX_LENGTH 0\<rparr>"

lemma root_entry_mem: "d \<in> set (root_entries ns) \<Longrightarrow> \<exists>i s. d = mk_dirent i s"
  by (auto simp: root_entries_def in_set_conv_nth)

lemma root_entries_length: "length (root_entries ns) = length ns + 2"
  by (simp only: root_entries_def list.size length_map length_zip length_upt)

lemma root_dir_read:
  assumes h: "holds v e (root_dir ns)" and n: "num_bytes e = 512 * k" "k \<le> cb (16 * (length ns + 2))" "length ns + 2 \<le> 32 * k"
  shows "dir_entries v e = root_entries ns @ replicate (32 * k - (length ns + 2)) free_dirent"
proof (rule nth_equalityI)
  let ?m = "length ns + 2"
  have l: "length (dir_entries v e) = 32 * k" using n by (simp add: dir_entries_nth(2))
  then show "length (dir_entries v e) = length (root_entries ns @ replicate (32 * k - ?m) free_dirent)"
    using n(3) by (simp add: root_entries_length)
  fix i assume "i < length (dir_entries v e)"
  then have i: "i < 32 * k" "i < num_bytes e div 16" using l n(1) by simp_all
  have byt: "fbyte v e q = (if q < 16 * ?m then root_dir ns ! q else 0)" if "q < 512 * k" for q
  proof -
    have "q < 512 * cb (16 * ?m)" using that mult_le_mono2 [OF n(2), of 512] by linarith
    then show ?thesis using h unfolding holds_def root_dir_length by blast
  qed
  show "dir_entries v e ! i = (root_entries ns @ replicate (32 * k - ?m) free_dirent) ! i"
  proof (cases "i < ?m")
    case True
    have "map (fbyte v e) [16 * i..<16 * i + 16] = slice (root_dir ns) (16 * i) 16"
      by (rule nth_equalityI) (use True i(1) root_dir_length [of ns] in \<open>auto simp: byt nth_slice\<close>)
    also have "\<dots> = map dirent_bytes (root_entries ns) ! i" unfolding root_dir_def
      by (rule concat_slice) (use True root_entry_mem root_entries_length [of ns] in fastforce)+
    also have "\<dots> = dirent_bytes (root_entries ns ! i)" using True by (simp add: root_entries_length)
    finally have "dir_entries v e ! i = bytes_dirent (dirent_bytes (root_entries ns ! i))" using dir_entries_nth(1) [OF i(2)] by simp
    moreover obtain j s where "root_entries ns ! i = mk_dirent j s"
      using root_entry_mem [of "root_entries ns ! i" ns] True root_entries_length [of ns] nth_mem by metis
    moreover have "bytes_dirent (dirent_bytes (mk_dirent j s)) = mk_dirent j s"
      by (rule bytes_dirent_bytes) (simp_all add: mk_dirent_def)
    ultimately show ?thesis using True by (simp add: nth_append root_entries_length)
  next
    case False
    have "map (fbyte v e) [16 * i..<16 * i + 16] = replicate 16 0"
      by (rule nth_equalityI) (use False i(1) in \<open>auto simp: byt\<close>)
    then have "dir_entries v e ! i = free_dirent"
      using dir_entries_nth(1) [OF i(2)] by (simp add: bytes_dirent_def free_dirent_def slice_def)
    then show ?thesis using False i(1) by (simp add: nth_append root_entries_length)
  qed
qed

section \<open>The finished image\<close>

text \<open>One input as a regular file.\<close>

lemma image_file:
  assumes ok: "img_ok st (CC fs) TT" and n: "freeinode st = m" "m = length fs + 2" "m \<le> 200" and v: "v = final_img st m" and j: "j \<in> {1..<m}"
  shows "fmap_ok v (ent v j) (data_blocks (mk_used st))" "holds v (ent v j) (CC fs j)" "made (TT j) (length (CC fs j)) (ent (fsimg st) j)"
    "entry_fits (ent v j)" "data_blocks (mk_used st) \<subseteq> allocated mkfs_sb v - bitmap_blocks mkfs_sb"
    "\<And>k. \<lbrakk>k \<in> {1..<m}; j \<noteq> k\<rbrakk> \<Longrightarrow> file_blocks v (ent v j) \<inter> file_blocks v (ent v k) = {}"
proof -
  note K = ok [unfolded img_ok_def files_ok_def n(1)]
  have m: "1 < freeinode st" using n by simp
  note fi = final_img_ok(5) [OF ok m n(3), folded v]
  show "fmap_ok v (ent v j) (data_blocks (mk_used st))" "holds v (ent v j) (CC fs j)" "entry_fits (ent v j)" using fi [of j] j n(1) by simp_all
  show "made (TT j) (length (CC fs j)) (ent (fsimg st) j)" using K j by blast
  have "used_ok (mk_used st)" using K by (simp add: img_base_def)
  from mkfs_allocated(2) [OF this] show "data_blocks (mk_used st) \<subseteq> allocated mkfs_sb v - bitmap_blocks mkfs_sb"
    unfolding v final_img_def by simp
  fix k assume k: "k \<in> {1..<m}" "j \<noteq> k"
  then have "file_blocks (fsimg st) (ent (fsimg st) j) \<inter> file_blocks (fsimg st) (ent (fsimg st) k) = {}" using K j by blast
  then show "file_blocks v (ent v j) \<inter> file_blocks v (ent v k) = {}" using fi [of j] fi [of k] j k(1) n(1) by simp
qed

lemma image_regular:
  assumes ok: "img_ok st (CC fs) TT" and n: "freeinode st = m" "m = length fs + 2" "m \<le> 200" and v: "v = final_img st m"
    and k: "k < length fs" "snd (fs ! k) = c" "length c \<le> INODE_MAX_BYTES"
  shows "made INODE_REGULAR (length c) (ent v (k + 2))" "file_ok v (ent v (k + 2)) (allocated mkfs_sb v - bitmap_blocks mkfs_sb)"
    "map (fbyte v (ent v (k + 2))) [0..<num_bytes (ent v (k + 2))] = c"
proof -
  have kA: "k + 2 \<in> {1..<m}" "k + 2 \<noteq> 1" "k + 2 \<le> 200" using k(1) n by simp_all
  have cc: "CC fs (k + 2) = c" using k by (simp add: CC_def)
  note f = image_file [OF ok n v kA(1), unfolded cc]
  have m: "1 < freeinode st" using n by simp
  show md: "made INODE_REGULAR (length c) (ent v (k + 2))"
    using f(3) final_img_ok(4) [OF ok m n(3), of "k + 2"] kA v by (simp add: TT_def)
  note nb = madeD [OF md]
  show "file_ok v (ent v (k + 2)) (allocated mkfs_sb v - bitmap_blocks mkfs_sb)" using holds_file_ok [OF f(2,1,5)] nb k(3) by simp
  show "map (fbyte v (ent v (k + 2))) [0..<num_bytes (ent v (k + 2))] = c" using holds_bytes [OF f(2)] nb by simp
qed

text \<open>The root directory, rounded up.\<close>

lemma rounded_up:
  "(\<forall>k. 512 * k < 512 * (m div 32 + 1) \<longrightarrow> 512 * k < 16 * m) \<longleftrightarrow> (m :: nat) mod 32 \<noteq> 0"
  "m mod 32 \<noteq> 0 \<Longrightarrow> cb (16 * m) = m div 32 + 1"
proof -
  have a: "m = 32 * (m div 32) + m mod 32" "m mod 32 < 32" by simp_all
  show "(\<forall>k. 512 * k < 512 * (m div 32 + 1) \<longrightarrow> 512 * k < 16 * m) \<longleftrightarrow> m mod 32 \<noteq> 0"
  proof
    assume "\<forall>k. 512 * k < 512 * (m div 32 + 1) \<longrightarrow> 512 * k < 16 * m"
    from spec [OF this, of "m div 32"] have "32 * (m div 32) < m" by simp
    then show "m mod 32 \<noteq> 0" using a(1) by linarith
  next
    assume "m mod 32 \<noteq> 0"
    then have "512 * k < 16 * m" if "k \<le> m div 32" for k using a(1) mult_le_mono2 [OF that, of 32] by linarith
    then show "\<forall>k. 512 * k < 512 * (m div 32 + 1) \<longrightarrow> 512 * k < 16 * m" by auto
  qed
  show "m mod 32 \<noteq> 0 \<Longrightarrow> cb (16 * m) = m div 32 + 1"
    using cb_step(2) [of "16 * m" "m div 32" "16 * (m mod 32)" 1] a by (simp add: algebra_simps)
qed

lemma image_root:
  assumes ok: "img_ok st (CC fs) TT" and n: "freeinode st = m" "m = length fs + 2" "m \<le> 200" and v: "v = final_img st m"
  shows "made INODE_DIRECTORY (BLOCK_SIZE * (m div 32 + 1)) (ent v 1)"
    "file_ok v (ent v 1) (allocated mkfs_sb v - bitmap_blocks mkfs_sb) \<longleftrightarrow> m mod 32 \<noteq> 0"
    "m mod 32 \<noteq> 0 \<Longrightarrow> dir_entries v (ent v 1) = root_entries (map fst fs) @ replicate (32 * (m div 32 + 1) - m) free_dirent"
proof -
  have one: "1 \<in> {1..<m}" "1 < freeinode st" using n by simp_all
  have cc: "CC fs 1 = root_dir (map fst fs)" by (simp add: CC_def)
  note f = image_file [OF ok n v one(1), unfolded cc]
  have e: "ent v 1 = root_fixed m (ent (fsimg st) 1)" using final_img_ok(4) [OF ok one(2) n(3), of 1] v by simp
  have "16 * m div 512 = m div 32" by (simp add: div_mult2_eq [of _ 16 32, simplified])
  then show md: "made INODE_DIRECTORY (512 * (m div 32 + 1)) (ent v 1)"
    using f(3) unfolding e made_def root_fixed_def TT_def by (cases "ent (fsimg st) 1") (simp add: zero_entry_def)
  note nb = madeD [OF md]
  have lr: "length (root_dir (map fst fs)) = 16 * m" using n(2) by (simp add: root_dir_length)
  have "m div 32 < 7" using n(3) by simp
  then show "file_ok v (ent v 1) (allocated mkfs_sb v - bitmap_blocks mkfs_sb) \<longleftrightarrow> m mod 32 \<noteq> 0"
    unfolding rounded_up(1) [symmetric] using holds_file_ok [OF f(2,1,5)] nb lr by simp
  have "m \<le> 32 * (m div 32 + 1)" using mult_div_mod_eq [of 32 m] mod_less_divisor [of 32 m] by simp
  then show "dir_entries v (ent v 1) = root_entries (map fst fs) @ replicate (32 * (m div 32 + 1) - m) free_dirent" if "m mod 32 \<noteq> 0"
    using root_dir_read [OF f(2), of "m div 32 + 1"] nb rounded_up(2) [OF that] n(2) by simp
qed

lemma mkfs_final:
  assumes i: "inputs_ok open_in argv bufss"
  obtains st m v where "img_ok st (CC (map2 input_of argv bufss)) TT" "freeinode st = m" "m = length (map2 input_of argv bufss) + 2" "m \<le> 200"
    "m = length argv + 2" "v = final_img st m" "mkfs_main open_in argv = Inr (st\<lparr>fsimg := v\<rparr>)"
    "map fst (map2 input_of argv bufss) = map (\<lambda>p. strip_underscore (base_of p)) argv"
proof -
  note I = i [unfolded inputs_ok_def]
  obtain st where "img_ok st (CC (map2 input_of argv bufss)) TT" "freeinode st = length argv + 2"
    "mkfs_main open_in argv = Inr (st\<lparr>fsimg := final_img st (length argv + 2)\<rparr>)"
    using mkfs_run [OF i] unfolding final_img_def by (auto simp: add.commute)
  moreover have "map fst (map2 input_of argv bufss) = map (\<lambda>p. strip_underscore (base_of p)) argv"
    by (rule nth_equalityI) (use I in \<open>auto simp: input_of_def\<close>)
  ultimately show thesis using that [of st "length argv + 2"] I by simp
qed

text \<open>C29: \<open>mkfs\<close> on inputs that fit succeeds, and the kernel's view of its image is: the super block, with a sound layout; each
  input as a regular file with one link under its inode number, with all its blocks in use, holding exactly the bytes of the input; a
  root directory whose size is rounded up to the next block, naming the inputs, the rest of its entries free; no block shared between
  two files; and all other inodes free.  When the number of entries is a multiple of 32, and only then, the rounding counts a block that
  the root directory does not have.\<close>

theorem mkfs_image:
  assumes i: "inputs_ok open_in argv bufss"
  shows "\<exists>st. mkfs_main open_in argv = Inr st \<and> (let v = fsimg st; S = allocated mkfs_sb v - bitmap_blocks mkfs_sb; m = length argv + 2 in
    bytes_sblock (v 1) = mkfs_sb \<and> layout_ok mkfs_sb \<and>
    (\<forall>i<length argv. let e = ent v (i + 2) in made INODE_REGULAR (length (concat (bufss ! i))) e \<and> file_ok v e S \<and>
       map (fbyte v e) [0..<num_bytes e] = concat (bufss ! i)) \<and>
    made INODE_DIRECTORY (BLOCK_SIZE * (m div 32 + 1)) (ent v 1) \<and> (file_ok v (ent v 1) S \<longleftrightarrow> m mod 32 \<noteq> 0) \<and>
    (m mod 32 \<noteq> 0 \<longrightarrow> dir_entries v (ent v 1) =
       root_entries (map (\<lambda>p. strip_underscore (base_of p)) argv) @ replicate (32 * (m div 32 + 1) - m) free_dirent) \<and>
    (\<forall>i\<in>{1..<m}. \<forall>j\<in>{1..<m}. i \<noteq> j \<longrightarrow> file_blocks v (ent v i) \<inter> file_blocks v (ent v j) = {}) \<and>
    (\<forall>i\<in>{m..NINODES}. ity (ent v i) = INODE_INVALID))"
proof -
  let ?fs = "map2 input_of argv bufss"
  note I = i [unfolded inputs_ok_def]
  obtain st m v where st: "img_ok st (CC ?fs) TT" and n: "freeinode st = m" "m = length ?fs + 2" "m \<le> 200" "m = length argv + 2" and v: "v = final_img st m"
    and run: "mkfs_main open_in argv = Inr (st\<lparr>fsimg := v\<rparr>)" and ns: "map fst ?fs = map (\<lambda>p. strip_underscore (base_of p)) argv"
    by (rule mkfs_final [OF i])
  note K = st [unfolded img_ok_def n(1)]
  have one: "1 < freeinode st" using n by simp
  note fi = final_img_ok [OF st one n(3), folded v] and root = image_root [OF st n(1-3) v, unfolded ns]
  have sb: "bytes_sblock (v 1) = mkfs_sb"
  proof -
    have "v 1 = sblock_bytes mkfs_sb @ drop 48 (replicate 512 0)" using fi(1) K by (simp add: overwrite_def sblock_bytes_length)
    then show ?thesis using bytes_sblock_bytes [of mkfs_sb] by (simp add: sblock_fields_def)
  qed
  have "made INODE_REGULAR (length (concat (bufss ! k))) (ent v (k + 2)) \<and> file_ok v (ent v (k + 2)) (allocated mkfs_sb v - bitmap_blocks mkfs_sb) \<and>
      map (fbyte v (ent v (k + 2))) [0..<num_bytes (ent v (k + 2))] = concat (bufss ! k)" if k: "k < length argv" for k
  proof -
    have "length (concat (bufss ! k)) \<le> 71680" "snd (?fs ! k) = concat (bufss ! k)" using I k by (auto simp: input_of_def)
    then show ?thesis using image_regular [OF st n(1-3) v, of k "concat (bufss ! k)"] k n by simp
  qed
  moreover have "file_blocks v (ent v j) \<inter> file_blocks v (ent v k) = {}" if "j \<in> {1..<m}" "k \<in> {1..<m}" "j \<noteq> k" for j k
    using image_file(6) [OF st n(1-3) v that(1,2,3)] .
  moreover have "ity (ent v j) = 0" if "j \<in> {m..200}" for j using fi(4) [of j] that K one n(1) by simp
  ultimately show ?thesis using run sb mkfs_layout(1) root n(4)
    by (intro exI [of _ "st\<lparr>fsimg := v\<rparr>"]) (simp add: Let_def)
qed

theorem mkfs_image_witness:
  "\<exists>st. mkfs_main (\<lambda>_. Some [[104], [105]]) [[47, 95, 97]] = Inr st \<and>
    map (fbyte (fsimg st) (ent (fsimg st) 2)) [0..<2] = [104, 105] \<and>
    dir_entries (fsimg st) (ent (fsimg st) 1) ! 2 = \<lparr>de_inode_no = 2, de_name = 97 # replicate 13 0\<rparr>"
proof -
  have "inputs_ok (\<lambda>_. Some [[104], [105]]) [[47, 95, 97]] [[[104], [105]]]" by (simp add: inputs_ok_def cb_def)
  from mkfs_image [OF this] obtain st where st: "mkfs_main (\<lambda>_. Some [[104], [105]]) [[47, 95, 97]] = Inr st"
    "made 2 2 (ent (fsimg st) 2)" "map (fbyte (fsimg st) (ent (fsimg st) 2)) [0..<num_bytes (ent (fsimg st) 2)] = [104, 105]"
    "dir_entries (fsimg st) (ent (fsimg st) 1) = root_entries [strip_underscore (base_of [47, 95, 97])] @ replicate 29 free_dirent"
    by (auto simp: Let_def numeral_2_eq_2)
  have "strip_underscore (base_of [47, 95, 97]) = [97]" by (simp add: base_of_def strip_underscore_def)
  moreover have "root_entries [[97]] = [mk_dirent 1 [46], mk_dirent 1 [46, 46], mk_dirent 2 [97]]" by (simp add: root_entries_def upt_rec)
  moreover have "mk_dirent 2 [97] = \<lparr>de_inode_no = 2, de_name = 97 # replicate 13 0\<rparr>" by (simp add: mk_dirent_def)
  ultimately have "root_entries [strip_underscore (base_of [47, 95, 97])] ! 2 = \<lparr>de_inode_no = 2, de_name = 97 # replicate 13 0\<rparr>"
    by simp
  moreover have "length (root_entries [strip_underscore (base_of [47, 95, 97])]) = 3" by (simp add: root_entries_length)
  ultimately show ?thesis using st madeD [OF st(2)] by (intro exI [of _ st]) (simp add: nth_append)
qed

end
