(* ===== verification/MkfsBoot.thy ===== *)
theory MkfsBoot
  imports MkfsSpec
begin

text \<open>
  The kernel on an image of \<open>mkfs\<close>: \<open>init_filesystem\<close> counts the blocks in use and establishes the invariants that the file operations
  need, and a file of the image can be opened and read.
\<close>

section \<open>Counting the blocks in use\<close>

lemma count_bits_ok:
  assumes "\<forall>j\<in>set js. j < bm_size bm" "n + length js < 2 ^ 32"
  shows "count_bits bm js n = Inr (n + length (filter (\<lambda>j. j \<in> bm_set bm) js))"
  using assms
proof (induction js arbitrary: n)
  case Nil
  then show ?case by simp
next
  case (Cons j js)
  then show ?case by (simp add: bitmap_get_Inr addw_small)
qed

lemma filter_below: "a \<le> c \<Longrightarrow> c \<le> b \<Longrightarrow> filter (\<lambda>j. j < c) [a..<b] = [a..<c]"
proof (induction b)
  case (Suc b)
  then show ?case by (cases "c = Suc b") (auto intro: filter_True)
qed simp

lemma group_count:
  assumes "used_ok us" "h < NGROUPS"
  shows "used_in_group mkfs_sb (bitmaps_put us {..<NGROUPS} v) h (bitmap_offs mkfs_sb) 0 = Inr (us ! h)"
proof -
  have n: "us ! h \<le> 996" using assms by (simp add: used_ok_def)
  note gb = group_bits_ok [OF n]
  have off: "bitmap_offs mkfs_sb = [0]" by (simp add: bitmap_offs_def)
  define e :: nat where "e = 1000"
  have rng: "used_range mkfs_sb 0 = [4..<e]" by (simp add: used_range_def e_def del: upt_rec_numeral)
  have "h * 1000 + 68 < 2 ^ 32" using assms(2) by simp
  then have "bitmaps_put us {..<10} v ((65 + h * 1000 + 3 + 0 div 4096) mod 2 ^ 32) = group_bits (us ! h)"
    using assms(2) by (auto simp: bitmaps_put_def add.commute)
  moreover have sz: "bm_size (cells_of (group_bits (us ! h))) = 4096" using gb(1) by (simp add: bm_size_def cells_of_def)
  moreover have "filter (\<lambda>j. j \<in> bm_set (cells_of (group_bits (us ! h)))) [4..<e] = [4..<us ! h + 4]"
    using gb(2) filter_below [of 4 "us ! h + 4" e] n by (simp add: e_def del: upt_rec_numeral)
  moreover have "j < 4096" if "j \<in> set [4..<e]" for j using that unfolding set_upt atLeastLessThan_iff e_def by linarith
  moreover have "0 + length [4..<e] < 2 ^ 32" unfolding length_upt e_def by simp
  ultimately show ?thesis using count_bits_ok [of "[4..<e]" "cells_of (group_bits (us ! h))" 0] by (simp add: off rng)
qed

lemma groups_count:
  assumes "used_ok us" "\<forall>h\<in>set hs. h < NGROUPS" "distinct hs" "length ub = NGROUPS" "\<forall>h\<in>set hs. ub ! h = 0"
  shows "used_groups mkfs_sb (bitmaps_put us {..<NGROUPS} v) hs ub = Inr (map (\<lambda>g. if g \<in> set hs then us ! g else ub ! g) [0..<NGROUPS])"
  using assms
proof (induction hs arbitrary: ub)
  case Nil
  then show ?case using map_nth [of ub] by simp
next
  case (Cons h hs)
  have "used_groups mkfs_sb (bitmaps_put us {..<10} v) (h # hs) ub = used_groups mkfs_sb (bitmaps_put us {..<10} v) hs (ub[h := us ! h])"
    using group_count [OF assms(1), of h v] Cons.prems by simp
  also have "\<dots> = Inr (map (\<lambda>g. if g \<in> set hs then us ! g else ub[h := us ! h] ! g) [0..<10])"
    by (rule Cons.IH) (use Cons.prems in \<open>auto simp: nth_list_update\<close>)
  also have "map (\<lambda>g. if g \<in> set hs then us ! g else ub[h := us ! h] ! g) [0..<10] = map (\<lambda>g. if g \<in> set (h # hs) then us ! g else ub ! g) [0..<10]"
    by (rule map_cong) (use Cons.prems in auto)
  finally show ?case .
qed

lemma mkfs_groups_counted:
  assumes u: "used_ok us" and k: "used_block k = us" "view k = bitmaps_put us {..<NGROUPS} v"
  shows "groups_counted mkfs_sb 996 k"
proof -
  have c: "card {b \<in> group_area mkfs_sb. group_of mkfs_sb b = g} = 1000" "card {b \<in> allocated mkfs_sb (view k). group_of mkfs_sb b = g} = 4 + us ! g"
    if g: "g < 10" for g
  proof -
    have n: "us ! g \<le> 996" using u g by (simp add: used_ok_def)
    have bx: "(b - 65) div 1000 = g \<and> 65 \<le> b \<and> (b - 65) mod 1000 < c \<longleftrightarrow> b \<in> {65 + g * 1000 ..< 65 + g * 1000 + c}" if "c \<le> 1000" for b c
    proof
      assume a: "(b - 65) div 1000 = g \<and> 65 \<le> b \<and> (b - 65) mod 1000 < c"
      have "b - 65 = g * 1000 + (b - 65) mod 1000" using div_mult_mod_eq [of "b - 65" 1000] a by simp
      then show "b \<in> {65 + g * 1000 ..< 65 + g * 1000 + c}" unfolding atLeastLessThan_iff using a by linarith
    next
      assume a: "b \<in> {65 + g * 1000 ..< 65 + g * 1000 + c}"
      define r where "r = b - (65 + g * 1000)"
      have "b = 65 + (g * 1000 + r)" "r < c" using a unfolding r_def atLeastLessThan_iff by linarith+
      then show "(b - 65) div 1000 = g \<and> 65 \<le> b \<and> (b - 65) mod 1000 < c" using that by simp
    qed
    have hi: "65 + g * 1000 + 1000 \<le> 10065" using g by simp
    have eq: "{b. 65 \<le> b \<and> b < 10065 \<and> (b - 65) div 1000 = g \<and> (b - 65) mod 1000 < c} = {65 + g * 1000 ..< 65 + g * 1000 + c}" if c: "c \<le> 1000" for c
    proof (rule set_eqI)
      fix b
      have "b < 10065" if "b \<in> {65 + g * 1000 ..< 65 + g * 1000 + c}" using that hi c unfolding atLeastLessThan_iff by linarith
      then show "b \<in> {b. 65 \<le> b \<and> b < 10065 \<and> (b - 65) div 1000 = g \<and> (b - 65) mod 1000 < c} \<longleftrightarrow> b \<in> {65 + g * 1000 ..< 65 + g * 1000 + c}"
        using bx [OF c, of b] unfolding mem_Collect_eq by blast
    qed
    have "{b \<in> group_area mkfs_sb. group_of mkfs_sb b = g} = {b. 65 \<le> b \<and> b < 10065 \<and> (b - 65) div 1000 = g \<and> (b - 65) mod 1000 < 1000}"
      by (auto simp: mkfs_area group_of_def)
    then show "card {b \<in> group_area mkfs_sb. group_of mkfs_sb b = g} = 1000" using eq [of 1000] by simp
    have "{b \<in> allocated mkfs_sb (view k). group_of mkfs_sb b = g} = {b. 65 \<le> b \<and> b < 10065 \<and> (b - 65) div 1000 = g \<and> (b - 65) mod 1000 < 4 + us ! g}"
      unfolding k(2) mkfs_allocated(1) [OF u] group_of_def mkfs_sb_simps by blast
    then show "card {b \<in> allocated mkfs_sb (view k). group_of mkfs_sb b = g} = 4 + us ! g" using eq [of "4 + us ! g"] n by simp
  qed
  then show ?thesis using k(1) by (simp add: groups_counted_def)
qed

section \<open>Start-up\<close>

lemma init_bcache_idle:
  assumes "hdr_num (bytes_header (disk d (sb_log_start sb))) = 0" "init_bcache me sb d st = Inr k"
  shows "used_block k = used_block st" "room k = room st" "dev k = d"
  using assms by (auto simp: init_bcache_def replay_def read_header_def dev_read_def Let_def)

lemma mkfs_boot:
  assumes i: "inputs_ok open_in argv bufss" and ms: "mkfs_main open_in argv = Inr ms" and d: "disk d = fsimg ms"
    and st: "126 \<le> room st" "used_block st = replicate NGROUPS 0"
  shows "\<exists>k. init_filesystem me d st = Inr k \<and> fs_inv mkfs_sb {} k \<and> view k = fsimg ms \<and> dev k = d \<and> held k = {} \<and>
    used_block k = mk_used ms \<and> groups_counted mkfs_sb 996 k \<and> bitmap_blocks mkfs_sb \<subseteq> allocated mkfs_sb (view k) \<and> room k = room st"
proof -
  let ?fs = "map2 input_of argv bufss"
  obtain s m v where s: "img_ok s (CC ?fs) TT" "freeinode s = m" "m \<le> 200" "m = length argv + 2" "v = final_img s m" "ms = s\<lparr>fsimg := v\<rparr>"
    by (rule mkfs_final [OF i]) (use ms in auto)
  have one: "1 < freeinode s" using s by simp
  note fi = final_img_ok [OF s(1) one s(3), folded s(5)]
  have u: "used_ok (mk_used s)" using s(1) by (simp add: img_ok_def files_ok_def img_base_def)
  obtain w where w: "v = bitmaps_put (mk_used s) {..<10} w" using s(5) by (simp add: final_img_def)
  have dv: "disk d = v" "mk_used ms = mk_used s" "fsimg ms = v" using d s(6) by simp_all
  have "fsimg s 1 = sblock_bytes mkfs_sb @ drop 48 (replicate 512 0)"
    using s(1) by (simp add: img_ok_def overwrite_def sblock_bytes_length)
  then have sb: "bytes_sblock (dev_read 1 d) = mkfs_sb"
    using fi(1) dv bytes_sblock_bytes [of mkfs_sb] by (simp add: dev_read_def sblock_fields_def)
  have hz: "hdr_num (bytes_header (disk d (sb_log_start mkfs_sb))) = 0" using fi(2) dv header_zero by simp
  have hok: "hdr_ok mkfs_sb (bytes_header (disk d (sb_log_start mkfs_sb)))"
    using hz header_fits_bytes [of "disk d 2"] by (simp add: hdr_ok_def logged_def)
  obtain k where k: "init_bcache me mkfs_sb d st = Inr k" "view k = recovered mkfs_sb (disk d)" "bc_inv k" "held k = {}" "log_inv {} k" "sblock k = mkfs_sb"
    using init_bcache_recovers [OF mkfs_layout(2) _ hok st(1), of me] fi(3) dv by auto
  note id = init_bcache_idle [OF hz k(1)]
  have vk: "view k = v" using k(2) recovered_idle [of "disk d" mkfs_sb] hz dv by simp
  define k' where "k' = k\<lparr>used_block := mk_used s\<rparr>"
  have lu: "length (mk_used s) = 10" using u by (simp add: used_ok_def)
  have "used_groups mkfs_sb v [0..<10] (replicate 10 0) = Inr (map (\<lambda>g. if g \<in> set [0..<10] then mk_used s ! g else replicate 10 0 ! g) [0..<10])"
    unfolding w by (rule groups_count [OF u]) auto
  also have "map (\<lambda>g. if g \<in> set [0..<10] then mk_used s ! g else replicate 10 0 ! g) [0..<10] = map (\<lambda>g. mk_used s ! g) [0..<10]"
    by (rule map_cong) simp_all
  also have "\<dots> = mk_used s" using map_nth [of "mk_used s"] lu by simp
  finally have "init_filesystem me d st = Inr k'"
    using sb k(1) id st(2) dv by (simp add: init_filesystem_def Let_def k'_def)
  moreover have "fs_inv mkfs_sb {} k'" using k mkfs_layout by (simp add: k'_def fs_inv_def client_inv_def [of _ _ k])
  moreover have "groups_counted mkfs_sb 996 k'" by (rule mkfs_groups_counted [OF u]) (simp_all add: k'_def vk w)
  moreover have "bitmap_blocks mkfs_sb \<subseteq> allocated mkfs_sb v"
    unfolding w mkfs_allocated(1) [OF u] mkfs_bitmaps by (auto simp: add.commute)
  moreover have "held k' = held k" by (simp add: k'_def held_def)
  ultimately show ?thesis using vk dv k(4) id by (intro exI [of _ k']) (simp add: k'_def)
qed

section \<open>Opening an inode\<close>

text \<open>\<open>inode_get\<close> of a number that is not in the list of inodes in memory.\<close>

lemma inode_get_new:
  assumes l: "free_lock (it_lock T)" and ino: "0 < ino" "ino \<le> num_inodes (it_sb T)"
    and new: "\<forall>q\<in>set (it_head T). inode_no (ino_of T q) \<noteq> ino" and al: "it_free T = []" "0 < it_room T"
  shows "\<exists>T'. inode_get me ino T = Inr (it_next T, T') \<and> inode_no (ino_of T' (it_next T)) = ino \<and> \<not> ivalid (ino_of T' (it_next T)) \<and>
    rc_val (irc (ino_of T' (it_next T))) = 1 \<and> free_lock (ilock (ino_of T' (it_next T))) \<and> it_cache T' = it_cache T \<and> it_sb T' = it_sb T \<and>
    it_head T' = it_next T # it_head T \<and> (\<forall>q. q \<noteq> it_next T \<longrightarrow> ino_of T' q = ino_of T q) \<and> free_lock (it_lock T') \<and> it_free T' = [] \<and>
    it_room T' = it_room T - 1 \<and> it_next T' = Suc (it_next T)"
proof -
  have f: "find (\<lambda>q. rc_val (irc (ino_of T q)) > 0 \<and> inode_no (ino_of T q) = ino) (it_head T) = None"
    using new by (auto simp: find_None_iff)
  obtain lk where lk: "acquire_spinlock me (it_lock T) = Inr lk" "release_spinlock me lk = Inr (it_lock T)"
    using l by (cases "it_lock T") (auto simp: acquire_spinlock_def try_acquire_spinlock_def release_spinlock_def holding_spinlock_def)
  show ?thesis using ino l al f lk
    by (simp add: inode_get_def chk_def lock_tree_def unlock_tree_def alloc_inode_obj_def upd_inode_def init_inode_def init_rc_def increment_rc_def
        init_spinlock_def Let_def)
qed

text \<open>\<open>inode_lock\<close> of an inode that has not been loaded yet.\<close>

lemma inode_lock_load:
  assumes inv: "fs_inv sb A (it_cache T)" and T: "it_sb T = sb" "\<not> ivalid (ino_of T p)" "rc_val (irc (ino_of T p)) > 0" "free_lock (ilock (ino_of T p))"
    and h: "h = to_block_no sb (inode_no (ino_of T p))" "client_block sb h" "h \<notin> held (it_cache T)" "0 < room (it_cache T)"
    and ty: "ity (get_entry (view (it_cache T) h) (inode_no (ino_of T p))) \<noteq> INODE_INVALID"
  shows "\<exists>T'. inode_lock (bcache_ops me) me p T = Inr T' \<and> inode_no (ino_of T' p) = inode_no (ino_of T p) \<and> ivalid (ino_of T' p) \<and>
    entry (ino_of T' p) = get_entry (view (it_cache T) h) (inode_no (ino_of T p)) \<and> it_sb T' = sb \<and> fs_inv sb A (it_cache T') \<and>
    view (it_cache T') = view (it_cache T) \<and> held (it_cache T') = held (it_cache T) \<and> room (it_cache T) \<le> Suc (room (it_cache T'))"
proof -
  obtain l where l: "acquire_spinlock me (ilock (ino_of T p)) = Inr l"
    using T(4) by (cases "ilock (ino_of T p)") (auto simp: acquire_spinlock_def try_acquire_spinlock_def holding_spinlock_def)
  have nh: "h \<notin> Map.ran (hblock (it_cache T))" using h(3) by (simp add: ran_hblock)
  obtain s k1 k2 where k: "bc_acquire (bcache_ops me) h (it_cache T) = Inr (s, k1)" "bc_data (bcache_ops me) s k1 = view (it_cache T) h"
    "bc_release (bcache_ops me) s k1 = Inr k2" "fs_inv sb A k2" "hblock k2 = hblock (it_cache T)" "view k2 = view (it_cache T)"
    "room (it_cache T) \<le> Suc (room k2)"
    using bm.read_block [OF inv h(2) nh h(4), of me] by metis
  have hd: "held k2 = held (it_cache T)" using k(5) by (metis ran_hblock)
  have "inode_sync (bcache_ops me) None p False (upd_inode p (\<lambda>i. i\<lparr>ilock := l\<rparr>) T) =
      Inr (upd_inode p (\<lambda>i. i\<lparr>ilock := l, entry := get_entry (view (it_cache T) h) (inode_no (ino_of T p)), ivalid := True\<rparr>) T\<lparr>it_cache := k2\<rparr>)"
    using T(1,2) h(1) k(1-3) by (simp add: inode_sync_def call_def callu_def upd_inode_def Let_def)
  then show ?thesis using T l k hd ty by (simp add: inode_lock_def chk_def upd_inode_def Let_def)
qed

text \<open>C30: a kernel that starts on an image of \<open>mkfs\<close> finds its invariants: \<open>init_filesystem\<close> returns without writing to the disk, the
  cache shows the image, the counters of the groups are those of \<open>mkfs\<close> and agree with the bitmaps, and the bitmap blocks are
  marked used.\<close>

theorem mkfs_boots:
  assumes "inputs_ok open_in argv bufss" "mkfs_main open_in argv = Inr ms" "disk d = fsimg ms" "126 \<le> room st" "used_block st = replicate NGROUPS 0"
  shows "\<exists>k. init_filesystem me d st = Inr k \<and> dev k = d \<and> fs_inv mkfs_sb {} k \<and> view k = fsimg ms \<and> held k = {} \<and>
    used_block k = mk_used ms \<and> groups_counted mkfs_sb (num_datablocks_per_group mkfs_sb) k \<and> bitmap_blocks mkfs_sb \<subseteq> allocated mkfs_sb (view k)"
  using mkfs_boot [OF assms, of me] by auto

definition blank_cache :: "bcache" where
  "blank_cache = sample_cache\<lparr>used_block := replicate NGROUPS 0\<rparr>"

lemma sample_inputs: "inputs_ok (\<lambda>_. Some [[104], [105]]) [[47, 95, 97]] [[[104], [105]]]"
  by (simp add: inputs_ok_def cb_def)

theorem mkfs_boots_witness:
  "\<exists>ms k. mkfs_main (\<lambda>_. Some [[104], [105]]) [[47, 95, 97]] = Inr ms \<and>
    init_filesystem 0 \<lparr>disk = fsimg ms, wtrace = []\<rparr> blank_cache = Inr k \<and> fs_inv mkfs_sb {} k \<and> view k = fsimg ms"
proof -
  obtain ms where ms: "mkfs_main (\<lambda>_. Some [[104], [105]]) [[47, 95, 97]] = Inr ms" by (rule mkfs_final [OF sample_inputs])
  show ?thesis using mkfs_boots [OF sample_inputs ms, of "\<lparr>disk = fsimg ms, wtrace = []\<rparr>" blank_cache 0] ms
    by (auto simp: blank_cache_def sample_cache_def)
qed

section \<open>Reading a file of the image\<close>

lemma image_file_state:
  assumes ok: "img_ok s (CC fs) TT" and n: "freeinode s = m" "m = length fs + 2" "m \<le> 200" and v: "v = final_img s m"
    and j: "j < length fs" "length (snd (fs ! j)) \<le> INODE_MAX_BYTES"
    and T: "it_sb T = mkfs_sb" "inode_no (ino_of T p) = j + 2" "ivalid (ino_of T p)" "entry (ino_of T p) = ent v (j + 2)" "view (it_cache T) = v"
      "held (it_cache T) = {}"
  shows "file_state mkfs_sb p T"
proof -
  have jA: "j + 2 \<in> {1..<m}" "1 \<le> j + 2" "j + 2 \<le> 200" using j n by simp_all
  note f = image_file [OF ok n v jA(1)] and r = image_regular [OF ok n v j(1) refl j(2)] and h = inode_home [OF jA(2,3)]
  have u: "used_ok (mk_used s)" using ok by (simp add: img_ok_def files_ok_def img_base_def)
  have S: "allocated mkfs_sb v - bitmap_blocks mkfs_sb = data_blocks (mk_used s) \<union> inode_blocks"
    using mkfs_allocated(2) [OF u] unfolding v final_img_def by simp
  have hb: "home_block p T = to_block_no mkfs_sb (j + 2)" using T by (simp add: home_block_def)
  have "home_block p T \<notin> file_blocks v (ent v (j + 2))"
    using f(1) h(2) data_blocksD unfolding hb fmap_ok_def by blast
  moreover have "home_block p T \<in> allocated mkfs_sb v - bitmap_blocks mkfs_sb" using h(2) unfolding hb S by simp
  moreover have "get_entry (v (home_block p T)) (j + 2) = ent v (j + 2)" unfolding hb ent_def by (rule refl)
  ultimately show ?thesis using T jA f(4) r(2) unfolding file_state_def Let_def by simp
qed

text \<open>C28: from the input of \<open>mkfs\<close> to the kernel's \<open>inode_read\<close>.  On an image of \<open>mkfs\<close> the kernel starts, finds the inode of every input,
  locks it (which loads its entry from disk) and reads exactly the bytes of the input.\<close>

theorem mkfs_file_readable:
  assumes i: "inputs_ok open_in argv bufss" and ms: "mkfs_main open_in argv = Inr ms" and d: "disk d = fsimg ms"
    and st: "400 \<le> room st" "used_block st = replicate NGROUPS 0" and k: "init_filesystem me d st = Inr k"
    and T: "it_cache T = k" "it_free T = []" "2 \<le> it_room T" and j: "j < length argv"
  shows "\<exists>r T1 p T2 T3 T4. init_inodes me mkfs_sb T = Inr (Some r, T1) \<and> inode_get me (j + 2) T1 = Inr (p, T2) \<and>
    inode_lock (bcache_ops me) me p T2 = Inr T3 \<and>
    inode_read (bcache_ops me) con p 0 (length (concat (bufss ! j))) T3 = Inr (concat (bufss ! j), length (concat (bufss ! j)), T4)"
proof -
  let ?fs = "map2 input_of argv bufss" and ?c = "concat (bufss ! j)"
  note I = i [unfolded inputs_ok_def]
  obtain s m v where s: "img_ok s (CC ?fs) TT" and n: "freeinode s = m" "m = length ?fs + 2" "m \<le> 200" "m = length argv + 2" and v: "v = final_img s m"
    and msv: "ms = s\<lparr>fsimg := v\<rparr>" by (rule mkfs_final [OF i]) (use ms in auto)
  have r126: "126 \<le> room st" using st(1) by simp
  have K: "fs_inv mkfs_sb {} k" "view k = v" "held k = {}" "room k = room st" using mkfs_boot [OF i ms d r126 st(2), of me] k msv by auto
  have jf: "j < length ?fs" "snd (?fs ! j) = ?c" "length ?c \<le> 71680" using I j by (auto simp: input_of_def)
  define T0 where "T0 = T\<lparr>it_lock := init_spinlock (it_lock T) ''inode tree'', it_head := [], it_sb := mkfs_sb\<rparr>"
  have t0: "free_lock (it_lock T0)" "it_sb T0 = mkfs_sb" "it_head T0 = []" "it_cache T0 = k" "it_free T0 = []" "2 \<le> it_room T0"
    using T by (simp_all add: T0_def init_spinlock_def)
  obtain T1 where t1: "inode_get me 1 T0 = Inr (it_next T0, T1)" "inode_no (ino_of T1 (it_next T0)) = 1" "it_cache T1 = k" "it_sb T1 = mkfs_sb"
    "it_head T1 = [it_next T0]" "free_lock (it_lock T1)" "it_free T1 = []" "0 < it_room T1"
    using inode_get_new [of T0 1 me] t0 by auto
  have ini: "init_inodes me mkfs_sb T = Inr (Some (it_next T0), T1)" using t1(1) by (simp add: init_inodes_def T0_def Let_def)
  have j2: "0 < j + 2" "j + 2 \<le> num_inodes (it_sb T1)" "\<forall>q\<in>set (it_head T1). inode_no (ino_of T1 q) \<noteq> j + 2" using t1 n j by simp_all
  obtain p T2 where t2: "inode_get me (j + 2) T1 = Inr (p, T2)" "inode_no (ino_of T2 p) = j + 2" "\<not> ivalid (ino_of T2 p)"
    "rc_val (irc (ino_of T2 p)) = 1" "free_lock (ilock (ino_of T2 p))" "it_cache T2 = k" "it_sb T2 = mkfs_sb"
    using inode_get_new [OF t1(6) j2 t1(7,8), of me] t1(3,4) by auto
  have j200: "1 \<le> j + 2" "j + 2 \<le> 200" using j n by simp_all
  note home = inode_home [OF j200] and reg = image_regular [OF s n(1-3) v jf]
  have "to_block_no mkfs_sb (j + 2) \<notin> log_area mkfs_sb" using home(2) by (auto simp: log_area_def inode_blocks_def)
  then have cl: "client_block mkfs_sb (to_block_no mkfs_sb (j + 2))" using home(3) by (simp add: client_block_def)
  have ge: "get_entry (v (to_block_no mkfs_sb (j + 2))) (j + 2) = ent v (j + 2)" by (simp add: ent_def)
  obtain T3 where t3: "inode_lock (bcache_ops me) me p T2 = Inr T3" "inode_no (ino_of T3 p) = j + 2" "ivalid (ino_of T3 p)"
    "entry (ino_of T3 p) = ent v (j + 2)" "it_sb T3 = mkfs_sb" "fs_inv mkfs_sb {} (it_cache T3)" "view (it_cache T3) = v" "held (it_cache T3) = {}"
    "room st \<le> Suc (room (it_cache T3))"
    using inode_lock_load [of mkfs_sb "{}" T2 p _ me] t2 K cl st(1) ge madeD [OF reg(1)] by auto
  have fs: "file_state mkfs_sb p T3"
    by (rule image_file_state [OF s n(1-3) v jf(1)]) (use jf t3 in auto)
  have nb: "num_bytes (ent v (j + 2)) = length ?c" "ity (ent v (j + 2)) \<noteq> 3" using madeD [OF reg(1)] by simp_all
  have "touched 0 x \<le> 140" if "x \<le> 71680" for x using that div_le_mono [of "511 + x" 72191 512] by (simp add: touched_def)
  from this [OF jf(3)]
  have "2 * touched 0 (0 + length ?c) \<le> room (it_cache T3)" using t3(9) st(1) by simp
  from inode_read_bcache [OF t3(6) fs refl, of 0 "length ?c" "length ?c" me con] this
  obtain k' where "inode_read (bcache_ops me) con p 0 (length ?c) T3 = Inr (map (fbyte v (ent v (j + 2))) [0..<length ?c], length ?c, T3\<lparr>it_cache := k'\<rparr>)"
    using t3(4,7) nb jf(3) by auto
  then show ?thesis using ini t2(1) t3(1) reg(3) nb(1) by auto
qed

theorem mkfs_file_readable_witness:
  "\<exists>ms k r T1 p T2 T3 T4. mkfs_main (\<lambda>_. Some [[104], [105]]) [[47, 95, 97]] = Inr ms \<and>
    init_filesystem 0 \<lparr>disk = fsimg ms, wtrace = []\<rparr> blank_cache = Inr k \<and>
    init_inodes 0 mkfs_sb (sample_tree\<lparr>it_cache := k\<rparr>) = Inr (Some r, T1) \<and> inode_get 0 2 T1 = Inr (p, T2) \<and>
    inode_lock (bcache_ops 0) 0 p T2 = Inr T3 \<and> inode_read (bcache_ops 0) (\<lambda>_ _ _. Inl (Panic [])) p 0 2 T3 = Inr ([104, 105], 2, T4)"
proof -
  obtain ms where ms: "mkfs_main (\<lambda>_. Some [[104], [105]]) [[47, 95, 97]] = Inr ms" by (rule mkfs_final [OF sample_inputs])
  let ?d = "\<lparr>disk = fsimg ms, wtrace = []\<rparr>"
  have b: "400 \<le> room blank_cache" "126 \<le> room blank_cache" "used_block blank_cache = replicate 10 0" "disk ?d = fsimg ms"
    by (simp_all add: blank_cache_def sample_cache_def)
  obtain k where k: "init_filesystem 0 ?d blank_cache = Inr k" using mkfs_boot [OF sample_inputs ms b(4,2,3), of 0] by blast
  from mkfs_file_readable [OF sample_inputs ms b(4,1,3) k, of "sample_tree\<lparr>it_cache := k\<rparr>" 0 "\<lambda>_ _ _. Inl (Panic [])"]
  show ?thesis using ms k by (simp add: sample_tree_def numeral_2_eq_2)
qed

end
