(* ===== verification/Shell.thy ===== *)
theory Shell
  imports Prelude
begin

text \<open>
  The command parser of the shell, \<open>user/sh/main.c\<close>.

  The line is the \<open>char\<close> array \<open>buf\<close>, a list; pointers into it are indices, \<open>es\<close> is the index of the
  terminator.  \<open>struct cmd\<close> objects live in the static array \<open>mem\<close> of \<open>malloc1\<close>: \<open>shmem\<close> has the
  number of bytes handed out and, for each offset handed out, the structure stored there.  The parser
  stores argument pointers in an \<open>execcmd\<close> after redirections have been built around it, so the
  store is explicit.

  A parse ends in \<open>Parsed\<close>, in \<open>Exit1\<close> with what was written to \<open>stderr\<close> before \<open>exit(1)\<close>, or in
  \<open>Crash\<close>, an access C leaves undefined.  The four mutually recursive functions take fuel and end in
  \<open>OutOfFuel\<close> without it; \<open>parsecmd\<close> gives them four units for each byte of the line, which is enough
  (\<open>ShellParse\<close>).
\<close>

section \<open>Results\<close>

datatype 'a parse = Parsed 'a | Exit1 string | Crash | OutOfFuel

primrec pbind :: "'a parse \<Rightarrow> ('a \<Rightarrow> 'b parse) \<Rightarrow> 'b parse" where
  "pbind (Parsed x) f = f x"
| "pbind (Exit1 msg) f = Exit1 msg"
| "pbind Crash f = Crash"
| "pbind OutOfFuel f = OutOfFuel"

lemma pbind_cong [fundef_cong]:
  "\<lbrakk>m = m'; \<And>x. m' = Parsed x \<Longrightarrow> f x = f' x\<rbrakk> \<Longrightarrow> pbind m f = pbind m' f'"
  by (cases m') simp_all

lemma pbind_Parsed_iff: "pbind m f = Parsed y \<longleftrightarrow> (\<exists>x. m = Parsed x \<and> f x = Parsed y)"
  by (cases m) simp_all

definition PANIC :: "string \<Rightarrow> 'a parse" where
  "PANIC s = Exit1 (s @ [CHR 0x0A])"

section \<open>Commands and their memory\<close>

definition MAXARGS :: nat where "MAXARGS = 10"
definition MAXN :: nat where "MAXN = 10000"

text \<open>\<open>struct execcmd\<close>, \<open>redircmd\<close>, \<open>pipecmd\<close>, \<open>listcmd\<close> and \<open>backcmd\<close>; the constructor is the \<open>type\<close>.\<close>

datatype cmdnode =
    EXEC (argv: "nat option list") (eargv: "nat option list")
  | REDIR nat nat nat int int
  | PIPE nat nat
  | LIST nat nat
  | BACK nat

record shmem =
  mem_used :: nat
  mem_cmd :: "nat \<Rightarrow> cmdnode option"

definition shmem0 :: shmem where
  "shmem0 = \<lparr>mem_used = 0, mem_cmd = \<lambda>_. None\<rparr>"

text \<open>\<open>sizeof\<close> of the five structures.\<close>

primrec cmd_bytes :: "cmdnode \<Rightarrow> nat" where
  "cmd_bytes (EXEC _ _) = 168"
| "cmd_bytes (REDIR _ _ _ _ _) = 40"
| "cmd_bytes (PIPE _ _) = 24"
| "cmd_bytes (LIST _ _) = 24"
| "cmd_bytes (BACK _) = 16"

definition malloc1 :: "nat \<Rightarrow> shmem \<Rightarrow> (nat \<times> shmem) parse" where
  "malloc1 sz m =
     (let i = mem_used m + sz
      in if i > MAXN then Exit1 (''malloc1: memory used out'' @ [CHR 0x0A])
         else Parsed (i - sz, m\<lparr>mem_used := i\<rparr>))"

text \<open>What the constructors share: take the memory of the structure and fill it in.\<close>

definition new_cmd :: "cmdnode \<Rightarrow> shmem \<Rightarrow> (nat \<times> shmem) parse" where
  "new_cmd c m =
     pbind (malloc1 (cmd_bytes c) m) (\<lambda>(a, m). Parsed (a, m\<lparr>mem_cmd := (mem_cmd m)(a \<mapsto> c)\<rparr>))"

definition execcmd :: "shmem \<Rightarrow> (nat \<times> shmem) parse" where
  "execcmd = new_cmd (EXEC (replicate MAXARGS None) (replicate MAXARGS None))"

definition redircmd :: "nat \<Rightarrow> nat \<Rightarrow> nat \<Rightarrow> int \<Rightarrow> int \<Rightarrow> shmem \<Rightarrow> (nat \<times> shmem) parse" where
  "redircmd subcmd file efile mode fd = new_cmd (REDIR subcmd file efile mode fd)"

definition pipecmd :: "nat \<Rightarrow> nat \<Rightarrow> shmem \<Rightarrow> (nat \<times> shmem) parse" where
  "pipecmd left right = new_cmd (PIPE left right)"

definition listcmd :: "nat \<Rightarrow> nat \<Rightarrow> shmem \<Rightarrow> (nat \<times> shmem) parse" where
  "listcmd left right = new_cmd (LIST left right)"

definition backcmd :: "nat \<Rightarrow> shmem \<Rightarrow> (nat \<times> shmem) parse" where
  "backcmd subcmd = new_cmd (BACK subcmd)"

section \<open>Tokens\<close>

definition whitespace :: string where
  "whitespace = [CHR '' '', CHR 0x09, CHR 0x0D, CHR 0x0A, CHR 0x0B]"

definition symbols :: string where
  "symbols = ''<|>&;()''"

text \<open>\<open>strchr\<close> also finds the terminator.\<close>

definition strchr :: "string \<Rightarrow> char \<Rightarrow> bool" where
  "strchr cs c \<longleftrightarrow> c = CHR 0x00 \<or> c \<in> set cs"

definition cstrlen :: "string \<Rightarrow> nat" where
  "cstrlen bs = length (takeWhile (\<lambda>c. c \<noteq> CHR 0x00) bs)"

definition deref :: "string \<Rightarrow> nat \<Rightarrow> char" where
  "deref bs s = (if s < length bs then bs ! s else CHR 0x00)"

function skip_space :: "string \<Rightarrow> nat \<Rightarrow> nat \<Rightarrow> nat" where
  "skip_space bs es s =
     (if s < es \<and> strchr whitespace (deref bs s) then skip_space bs es (s + 1) else s)"
  by pat_completeness auto
termination by (relation "measure (\<lambda>(bs, es, s). es - s)") auto

function skip_word :: "string \<Rightarrow> nat \<Rightarrow> nat \<Rightarrow> nat" where
  "skip_word bs es s =
     (if s < es \<and> \<not> strchr whitespace (deref bs s) \<and> \<not> strchr symbols (deref bs s)
      then skip_word bs es (s + 1) else s)"
  by pat_completeness auto
termination by (relation "measure (\<lambda>(bs, es, s). es - s)") auto

declare skip_space.simps [simp del] skip_word.simps [simp del]

text \<open>The token at \<open>s\<close>: its code, where it starts and ends, and the next position.\<close>

definition gettoken :: "string \<Rightarrow> nat \<Rightarrow> nat \<Rightarrow> char \<times> nat \<times> nat \<times> nat" where
  "gettoken bs es s =
     (let q = skip_space bs es s;
          c = deref bs q;
          (ret, eq) =
            (if c = CHR 0x00 then (c, q)
             else if c \<in> set ''|();&<'' then (c, q + 1)
             else if c = CHR ''>'' then
               (if deref bs (q + 1) = CHR ''>'' then (CHR ''+'', q + 2) else (c, q + 1))
             else (CHR ''a'', skip_word bs es q))
      in (ret, q, eq, skip_space bs es eq))"

definition peek :: "string \<Rightarrow> nat \<Rightarrow> string \<Rightarrow> nat \<Rightarrow> nat \<times> bool" where
  "peek bs es toks s =
     (let s = skip_space bs es s in (s, deref bs s \<noteq> CHR 0x00 \<and> strchr toks (deref bs s)))"

text \<open>Positions never go back, and a symbol is consumed.\<close>

lemma skip_space_ge: "s \<le> skip_space bs es s"
proof (induction bs es s rule: skip_space.induct)
  case (1 bs es s)
  then show ?case by (subst skip_space.simps) (auto dest: Suc_leD)
qed

lemma skip_word_ge: "s \<le> skip_word bs es s"
proof (induction bs es s rule: skip_word.induct)
  case (1 bs es s)
  then show ?case by (subst skip_word.simps) (auto dest: Suc_leD)
qed

lemma gettoken_ge: "gettoken bs es s = (ret, q, eq, s') \<Longrightarrow> s \<le> q \<and> q \<le> eq \<and> eq \<le> s'"
  using skip_space_ge [of s bs es] skip_word_ge [of "skip_space bs es s" bs es] skip_space_ge [of eq bs es]
  by (auto simp: gettoken_def Let_def split: if_splits)

lemma deref_in: "deref bs s \<noteq> CHR 0x00 \<Longrightarrow> s < length bs"
  by (simp add: deref_def split: if_splits)

lemma skip_space_stop: "skip_space bs es (skip_space bs es s) = skip_space bs es s"
proof (induction bs es s rule: skip_space.induct)
  case (1 bs es s)
  then show ?case by (simp add: skip_space.simps [of bs es s])
qed

lemma peek_consumed:
  assumes "peek bs es toks s = (s', True)" "set toks \<subseteq> set symbols" "gettoken bs es s' = (ret, q, eq, s'')"
  shows "s' < s'' \<and> s' < length bs"
proof -
  have s': "s' = skip_space bs es s" "deref bs s' \<noteq> CHR 0x00" "deref bs s' \<in> set symbols"
    using assms(1,2) by (auto simp: peek_def strchr_def Let_def)
  have "skip_space bs es s' = s'" by (simp add: s'(1) skip_space_stop)
  then have "s' < eq" using assms(3) s'(2,3) by (auto simp: gettoken_def symbols_def Let_def split: if_splits)
  then show ?thesis using gettoken_ge [OF assms(3)] deref_in [OF s'(2)] by simp
qed

lemma peek_ge: "peek bs es toks s = (s', b) \<Longrightarrow> s \<le> s'"
  using skip_space_ge [of s bs es] by (auto simp: peek_def Let_def)

lemma redirs_consumed:
  assumes p: "(s1, True) = peek bs es ''<>'' s"
    and "(t1, q1, e1, s2) = gettoken bs es s1" "(t2, q2, e2, s3) = gettoken bs es s2"
  shows "length bs - s3 < length bs - s"
proof -
  have "peek bs es ''<>'' s = (s1, True)" using p by simp
  then have "s1 < s2 \<and> s1 < length bs"
    by (rule peek_consumed [OF _ _ assms(2) [symmetric]]) (simp add: symbols_def)
  then show ?thesis using gettoken_ge [OF assms(3) [symmetric]] peek_ge [OF p [symmetric]] by linarith
qed

lemma backs_consumed:
  assumes p: "(s1, True) = peek bs es ''&'' s" and "(t1, q1, e1, s2) = gettoken bs es s1"
  shows "length bs - s2 < length bs - s"
proof -
  have "peek bs es ''&'' s = (s1, True)" using p by simp
  then have "s1 < s2 \<and> s1 < length bs"
    by (rule peek_consumed [OF _ _ assms(2) [symmetric]]) (simp add: symbols_def)
  then show ?thesis using peek_ge [OF p [symmetric]] by linarith
qed

section \<open>The parser\<close>

definition O_RDONLY :: int where "O_RDONLY = 0"
definition O_WRONLY :: int where "O_WRONLY = 1"
definition O_RDWR :: int where "O_RDWR = 2"
definition O_CREAT :: int where "O_CREAT = 64"

text \<open>The \<open>switch\<close> of \<open>parseredirs\<close>.\<close>

definition redir_token :: "char \<Rightarrow> nat \<Rightarrow> nat \<Rightarrow> nat \<Rightarrow> shmem \<Rightarrow> (nat \<times> shmem) parse" where
  "redir_token tok cmd q eq m =
     (if tok = CHR ''<'' then redircmd cmd q eq O_RDONLY 0 m
      else if tok = CHR ''>'' then redircmd cmd q eq (O_WRONLY OR O_CREAT) 1 m
      else if tok = CHR ''+'' then redircmd cmd q eq (O_WRONLY OR O_CREAT) 1 m
      else Parsed (cmd, m))"

function parseredirs :: "string \<Rightarrow> nat \<Rightarrow> nat \<Rightarrow> nat \<Rightarrow> shmem \<Rightarrow> (nat \<times> nat \<times> shmem) parse" where
  "parseredirs bs es cmd s m =
     (case peek bs es ''<>'' s of (s1, b) \<Rightarrow>
        if b then
          (case gettoken bs es s1 of (tok, _, _, s2) \<Rightarrow>
           case gettoken bs es s2 of (t, q, eq, s3) \<Rightarrow>
             if t \<noteq> CHR ''a'' then PANIC ''missing file for redirection''
             else pbind (redir_token tok cmd q eq m) (\<lambda>(cmd, m). parseredirs bs es cmd s3 m))
        else Parsed (cmd, s1, m))"
  by pat_completeness auto
termination
  apply (relation "measure (\<lambda>(bs, es, cmd, s, m). length bs - s)")
   apply simp
  apply (clarify, simp only: in_measure prod.case)
  apply (blast dest: redirs_consumed)
  done


declare parseredirs.simps [simp del]

text \<open>\<open>cmd->argv[argc] = q; cmd->eargv[argc] = eq;\<close> with \<open>None\<close> for the null pointer.\<close>

definition set_arg :: "nat \<Rightarrow> nat \<Rightarrow> nat option \<Rightarrow> nat option \<Rightarrow> shmem \<Rightarrow> shmem" where
  "set_arg cmd argc q eq m =
     (case mem_cmd m cmd of
        Some (EXEC av ev) \<Rightarrow> m\<lparr>mem_cmd := (mem_cmd m)(cmd \<mapsto> EXEC (av[argc := q]) (ev[argc := eq]))\<rparr>
      | _ \<Rightarrow> m)"

text \<open>The loop over the arguments of \<open>parseexec\<close>: the number of arguments, the command, the position, the store.\<close>

function parse_args :: "string \<Rightarrow> nat \<Rightarrow> nat \<Rightarrow> nat \<Rightarrow> nat \<Rightarrow> nat \<Rightarrow> shmem \<Rightarrow> (nat \<times> nat \<times> nat \<times> shmem) parse" where
  "parse_args bs es cmd argc ret s m =
     (case peek bs es ''|)&;'' s of (s1, b) \<Rightarrow>
        if b then Parsed (argc, ret, s1, m)
        else case gettoken bs es s1 of (tok, q, eq, s2) \<Rightarrow>
          if tok = CHR 0x00 then Parsed (argc, ret, s2, m)
          else if tok \<noteq> CHR ''a'' then PANIC ''syntax''
          else if argc + 1 \<ge> MAXARGS then PANIC ''too many args''
          else pbind (parseredirs bs es ret s2 (set_arg cmd argc (Some q) (Some eq) m))
                 (\<lambda>(ret, s3, m). parse_args bs es cmd (argc + 1) ret s3 m))"
  by pat_completeness auto
termination by (relation "measure (\<lambda>(bs, es, cmd, argc, ret, s, m). MAXARGS - argc)") auto

declare parse_args.simps [simp del]

text \<open>The loop of \<open>parseline\<close> over \<open>&\<close>.\<close>

function parse_backs :: "string \<Rightarrow> nat \<Rightarrow> nat \<Rightarrow> nat \<Rightarrow> shmem \<Rightarrow> (nat \<times> nat \<times> shmem) parse" where
  "parse_backs bs es cmd s m =
     (case peek bs es ''&'' s of (s1, b) \<Rightarrow>
        if b then
          (case gettoken bs es s1 of (_, _, _, s2) \<Rightarrow>
             pbind (backcmd cmd m) (\<lambda>(cmd, m). parse_backs bs es cmd s2 m))
        else Parsed (cmd, s1, m))"
  by pat_completeness auto
termination
  apply (relation "measure (\<lambda>(bs, es, cmd, s, m). length bs - s)")
   apply simp
  apply (clarify, simp only: in_measure prod.case)
  apply (blast dest: backs_consumed)
  done

declare parse_backs.simps [simp del]

function (sequential) parseline :: "nat \<Rightarrow> string \<Rightarrow> nat \<Rightarrow> nat \<Rightarrow> shmem \<Rightarrow> (nat \<times> nat \<times> shmem) parse"
  and parsepipe :: "nat \<Rightarrow> string \<Rightarrow> nat \<Rightarrow> nat \<Rightarrow> shmem \<Rightarrow> (nat \<times> nat \<times> shmem) parse"
  and parseexec :: "nat \<Rightarrow> string \<Rightarrow> nat \<Rightarrow> nat \<Rightarrow> shmem \<Rightarrow> (nat \<times> nat \<times> shmem) parse"
  and parseblock :: "nat \<Rightarrow> string \<Rightarrow> nat \<Rightarrow> nat \<Rightarrow> shmem \<Rightarrow> (nat \<times> nat \<times> shmem) parse" where
  "parseline 0 bs es s m = OutOfFuel"
| "parseline (Suc n) bs es s m =
     pbind (parsepipe n bs es s m) (\<lambda>(cmd, s, m).
     pbind (parse_backs bs es cmd s m) (\<lambda>(cmd, s, m).
       case peek bs es '';'' s of (s, b) \<Rightarrow>
         if b then
           (case gettoken bs es s of (_, _, _, s) \<Rightarrow>
              pbind (parseline n bs es s m) (\<lambda>(right, s, m).
              pbind (listcmd cmd right m) (\<lambda>(cmd, m). Parsed (cmd, s, m))))
         else Parsed (cmd, s, m)))"
| "parsepipe 0 bs es s m = OutOfFuel"
| "parsepipe (Suc n) bs es s m =
     pbind (parseexec n bs es s m) (\<lambda>(cmd, s, m).
       case peek bs es ''|'' s of (s, b) \<Rightarrow>
         if b then
           (case gettoken bs es s of (_, _, _, s) \<Rightarrow>
              pbind (parsepipe n bs es s m) (\<lambda>(right, s, m).
              pbind (pipecmd cmd right m) (\<lambda>(cmd, m). Parsed (cmd, s, m))))
         else Parsed (cmd, s, m))"
| "parseexec 0 bs es s m = OutOfFuel"
| "parseexec (Suc n) bs es s m =
     (case peek bs es ''('' s of (s, b) \<Rightarrow>
        if b then parseblock n bs es s m
        else
          pbind (execcmd m) (\<lambda>(cmd, m).
          pbind (parseredirs bs es cmd s m) (\<lambda>(ret, s, m).
          pbind (parse_args bs es cmd 0 ret s m) (\<lambda>(argc, ret, s, m).
            Parsed (ret, s, set_arg cmd argc None None m)))))"
| "parseblock 0 bs es s m = OutOfFuel"
| "parseblock (Suc n) bs es s m =
     (case peek bs es ''('' s of (s, b) \<Rightarrow>
        if \<not> b then PANIC ''parseblock''
        else case gettoken bs es s of (_, _, _, s) \<Rightarrow>
          pbind (parseline n bs es s m) (\<lambda>(cmd, s, m).
            case peek bs es '')'' s of (s, b) \<Rightarrow>
              if \<not> b then PANIC ''syntax - missing )''
              else case gettoken bs es s of (_, _, _, s) \<Rightarrow> parseredirs bs es cmd s m))"
  by pat_completeness auto
termination
  by (relation "measure (\<lambda>x. case x of Inl (Inl (n, _)) \<Rightarrow> n | Inl (Inr (n, _)) \<Rightarrow> n
                                 | Inr (Inl (n, _)) \<Rightarrow> n | Inr (Inr (n, _)) \<Rightarrow> n)") auto

section \<open>Terminating the strings\<close>

text \<open>The loop over the arguments; \<open>None\<close> is a null pointer or the end of the array.\<close>

fun nul_args :: "nat option list \<Rightarrow> nat option list \<Rightarrow> string \<Rightarrow> string option" where
  "nul_args (None # av) ev bs = Some bs"
| "nul_args (Some q # av) (Some eq # ev) bs = nul_args av ev (bs[eq := CHR 0x00])"
| "nul_args _ _ bs = None"

text \<open>\<open>None\<close> is a walk that does not end or follows a pointer to no structure.\<close>

partial_function (option) nulterminate :: "(nat \<Rightarrow> cmdnode option) \<Rightarrow> nat \<Rightarrow> string \<Rightarrow> string option" where
  "nulterminate N cmd bs =
     (case N cmd of
        None \<Rightarrow> None
      | Some (EXEC av ev) \<Rightarrow> nul_args av ev bs
      | Some (REDIR c file efile mode fd) \<Rightarrow>
          Option.bind (nulterminate N c bs) (\<lambda>bs. Some (bs[efile := CHR 0x00]))
      | Some (PIPE l r) \<Rightarrow> Option.bind (nulterminate N l bs) (\<lambda>bs. nulterminate N r bs)
      | Some (LIST l r) \<Rightarrow> Option.bind (nulterminate N l bs) (\<lambda>bs. nulterminate N r bs)
      | Some (BACK c) \<Rightarrow> nulterminate N c bs)"

declare nulterminate.simps [code]

definition parse_fuel :: "nat \<Rightarrow> nat" where
  "parse_fuel n = 4 * n + 4"

definition parsecmd :: "string \<Rightarrow> (nat \<times> shmem \<times> string) parse" where
  "parsecmd bs =
     (let es = cstrlen bs in
      pbind (parseline (parse_fuel es) bs es 0 shmem0) (\<lambda>(cmd, s, m).
        case peek bs es [] s of (s, _) \<Rightarrow>
          if s \<noteq> es then
            Exit1 (''leftovers: '' @ takeWhile (\<lambda>c. c \<noteq> CHR 0x00) (drop s bs) @ [CHR 0x0A] @ ''syntax'' @ [CHR 0x0A])
          else case nulterminate (mem_cmd m) cmd bs of
            None \<Rightarrow> Crash
          | Some bs \<Rightarrow> Parsed (cmd, m, bs)))"

section \<open>The parsed command\<close>

text \<open>The tree that the pointers of a parsed command form, with the C strings they point to.\<close>

datatype cmd =
    Exec "string list"
  | Redir cmd string int int
  | Pipe cmd cmd
  | Lst cmd cmd
  | Back cmd

definition cstring :: "string \<Rightarrow> nat \<Rightarrow> string" where
  "cstring bs q = takeWhile (\<lambda>c. c \<noteq> CHR 0x00) (drop q bs)"

definition arg_strings :: "string \<Rightarrow> nat option list \<Rightarrow> string list" where
  "arg_strings bs av = map (\<lambda>q. cstring bs (the q)) (takeWhile (\<lambda>q. q \<noteq> None) av)"

partial_function (option) cmd_of :: "(nat \<Rightarrow> cmdnode option) \<Rightarrow> string \<Rightarrow> nat \<Rightarrow> cmd option" where
  "cmd_of N bs p =
     (case N p of
        None \<Rightarrow> None
      | Some (EXEC av ev) \<Rightarrow> Some (Exec (arg_strings bs av))
      | Some (REDIR c file efile mode fd) \<Rightarrow>
          Option.bind (cmd_of N bs c) (\<lambda>c. Some (Redir c (cstring bs file) mode fd))
      | Some (PIPE l r) \<Rightarrow> Option.bind (cmd_of N bs l) (\<lambda>l. Option.bind (cmd_of N bs r) (\<lambda>r. Some (Pipe l r)))
      | Some (LIST l r) \<Rightarrow> Option.bind (cmd_of N bs l) (\<lambda>l. Option.bind (cmd_of N bs r) (\<lambda>r. Some (Lst l r)))
      | Some (BACK c) \<Rightarrow> Option.bind (cmd_of N bs c) (\<lambda>c. Some (Back c)))"

declare cmd_of.simps [code]

end
