(* ===== verification/ShellLex.thy ===== *)
theory ShellLex
  imports Shell
begin

text \<open>
  The tokens of the shell.  \<open>lexer\<close> is the list of tokens of a text; \<open>gettoken\<close> and \<open>peek\<close>, which move
  pointers through the line, are shown to deliver exactly these (\<open>gettoken_lex\<close>, \<open>peek_lex\<close>).
  \<open>unlex\<close> writes tokens out again and \<open>lex_unlex\<close> is the round trip.
\<close>

section \<open>Texts and tokens\<close>

datatype 'w tok = Sym char | Word 'w

definition spacechar :: "char \<Rightarrow> bool" where
  "spacechar c \<longleftrightarrow> strchr whitespace c"

definition wordchar :: "char \<Rightarrow> bool" where
  "wordchar c \<longleftrightarrow> \<not> strchr whitespace c \<and> \<not> strchr symbols c"

function lexer :: "string \<Rightarrow> string tok list" where
  "lexer xs =
     (case dropWhile spacechar xs of
        [] \<Rightarrow> []
      | c # cs \<Rightarrow>
          if wordchar c then Word (c # takeWhile wordchar cs) # lexer (dropWhile wordchar cs)
          else if c = CHR ''>'' \<and> cs \<noteq> [] \<and> hd cs = CHR ''>'' then Sym (CHR ''+'') # lexer (tl cs)
          else Sym c # lexer cs)"
  by pat_completeness auto
termination
proof (relation "measure length", goal_cases)
  case (2 xs c cs)
  then show ?case
    using length_dropWhile_le [of spacechar xs] length_dropWhile_le [of wordchar cs] by (simp del: length_dropWhile_le)
next
  case (3 xs c cs)
  then show ?case using length_dropWhile_le [of spacechar xs] by (simp del: length_dropWhile_le)
next
  case (4 xs c cs)
  then show ?case using length_dropWhile_le [of spacechar xs] by (simp del: length_dropWhile_le)
qed simp

declare lexer.simps [simp del]

lemma lexer_none: "dropWhile spacechar xs = [] \<Longrightarrow> lexer xs = []"
  by (subst lexer.simps) (simp only: list.case)

lemma lexer_word:
  "\<lbrakk>dropWhile spacechar xs = c # cs; wordchar c\<rbrakk> \<Longrightarrow> lexer xs = Word (c # takeWhile wordchar cs) # lexer (dropWhile wordchar cs)"
  by (subst lexer.simps) (simp only: list.case if_True)

lemma lexer_sym:
  "\<lbrakk>dropWhile spacechar xs = c # cs; \<not> wordchar c\<rbrakk> \<Longrightarrow>
   lexer xs = (if c = CHR ''>'' \<and> cs \<noteq> [] \<and> hd cs = CHR ''>'' then Sym (CHR ''+'') # lexer (tl cs) else Sym c # lexer cs)"
  by (subst lexer.simps) (simp only: list.case if_False)

lemma lexer_Nil [simp]: "lexer [] = []"
  by (rule lexer_none) simp

lemma lex_length: "length (lexer xs) \<le> length xs"
proof (induction xs rule: lexer.induct)
  case (1 xs)
  have l: "length (dropWhile spacechar xs) \<le> length xs" by (rule length_dropWhile_le)
  show ?case
  proof (cases "dropWhile spacechar xs")
    case Nil
    then show ?thesis by (simp only: lexer_none list.size le0)
  next
    case (Cons c cs)
    have "length (dropWhile wordchar cs) \<le> length cs" "length (tl cs) \<le> length cs" by (auto simp: length_dropWhile_le)
    then show ?thesis using 1 [OF Cons] l Cons
      by (cases "wordchar c") (auto simp: lexer_word [OF Cons] lexer_sym [OF Cons])
  qed
qed

lemma lex_space: "lexer (dropWhile spacechar xs) = lexer xs"
proof -
  have "dropWhile spacechar (dropWhile spacechar xs) = dropWhile spacechar xs" by (induction xs) auto
  then show ?thesis by (simp add: lexer.simps [of xs] lexer.simps [of "dropWhile spacechar xs"])
qed

section \<open>The line\<close>

text \<open>\<open>es\<close> is the first terminator of \<open>bs\<close>; \<open>text_at\<close> is what is left of the line at a position.\<close>

definition line_end :: "string \<Rightarrow> nat \<Rightarrow> bool" where
  "line_end bs es \<longleftrightarrow> deref bs es = CHR 0x00 \<and> es \<le> length bs \<and> (\<forall>i<es. deref bs i \<noteq> CHR 0x00)"

definition text_at :: "string \<Rightarrow> nat \<Rightarrow> nat \<Rightarrow> string" where
  "text_at bs es s = drop s (take es bs)"

lemma line_end_cstrlen: "line_end bs (cstrlen bs)"
proof -
  have "cstrlen bs \<le> length bs" by (simp add: cstrlen_def length_takeWhile_le)
  moreover have "deref bs (cstrlen bs) = CHR 0x00"
    using nth_length_takeWhile [of "\<lambda>c. c \<noteq> CHR 0x00" bs] by (simp add: deref_def cstrlen_def)
  moreover have "deref bs i \<noteq> CHR 0x00" if "i < cstrlen bs" for i
    using that calculation(1) nth_mem [of i "takeWhile (\<lambda>c. c \<noteq> CHR 0x00) bs"]
      set_takeWhileD [of _ "\<lambda>c. c \<noteq> CHR 0x00" bs] takeWhile_nth [of i "\<lambda>c. c \<noteq> CHR 0x00" bs]
    by (auto simp: deref_def cstrlen_def)
  ultimately show ?thesis by (simp add: line_end_def)
qed

lemma rest_Cons:
  assumes "line_end bs es" "s < es"
  shows "text_at bs es s = deref bs s # text_at bs es (s + 1)"
  using assms by (auto simp: text_at_def deref_def line_end_def Cons_nth_drop_Suc [symmetric])

lemma rest_end: "line_end bs es \<Longrightarrow> es \<le> s \<Longrightarrow> text_at bs es s = []"
  by (simp add: text_at_def)

lemma rest_nil_iff: "\<lbrakk>line_end bs es; s \<le> es\<rbrakk> \<Longrightarrow> text_at bs es s = [] \<longleftrightarrow> s = es"
  by (auto simp: text_at_def line_end_def)

lemma deref_rest: "\<lbrakk>line_end bs es; s \<le> es\<rbrakk> \<Longrightarrow> deref bs s = (case text_at bs es s of [] \<Rightarrow> CHR 0x00 | c # _ \<Rightarrow> c)"
  by (cases "s = es") (auto simp: rest_end rest_Cons line_end_def)

lemma skip_space_rest:
  assumes "line_end bs es" "s \<le> es"
  shows "skip_space bs es s \<le> es \<and> text_at bs es (skip_space bs es s) = dropWhile spacechar (text_at bs es s)"
  using assms
proof (induction bs es s rule: skip_space.induct)
  case (1 bs es s)
  show ?case
  proof (cases "s < es")
    case True
    then show ?thesis using 1 rest_Cons [OF 1(2) True] by (simp add: skip_space.simps [of bs es s] spacechar_def)
  next
    case False
    then show ?thesis using 1(3) rest_end [OF 1(2)] by (subst (1 2) skip_space.simps) simp
  qed
qed

lemma skip_word_rest:
  assumes "line_end bs es" "s \<le> es"
  shows "skip_word bs es s \<le> es \<and> text_at bs es (skip_word bs es s) = dropWhile wordchar (text_at bs es s) \<and>
         take (skip_word bs es s - s) (text_at bs es s) = takeWhile wordchar (text_at bs es s)"
  using assms
proof (induction bs es s rule: skip_word.induct)
  case (1 bs es s)
  show ?case
  proof (cases "s < es \<and> wordchar (deref bs s)")
    case True
    then have n: "skip_word bs es s = skip_word bs es (s + 1)" by (simp add: skip_word.simps [of bs es s] wordchar_def)
    have "skip_word bs es (s + 1) - s = Suc (skip_word bs es (s + 1) - (s + 1))"
      using skip_word_ge [of "s + 1" bs es] by simp
    then show ?thesis using 1 True rest_Cons [OF 1(2)] n by (simp add: wordchar_def)
  next
    case False
    then have "skip_word bs es s = s" by (auto simp: skip_word.simps [of bs es s] wordchar_def)
    moreover have "takeWhile wordchar (text_at bs es s) = [] \<and> dropWhile wordchar (text_at bs es s) = text_at bs es s"
      using False rest_Cons [OF 1(2), of s] rest_end [OF 1(2), of s] by (cases "s < es") auto
    ultimately show ?thesis using 1(3) by simp
  qed
qed

section \<open>Tokens of the line\<close>

text \<open>The word \<open>w\<close> lies between \<open>q\<close> and \<open>eq\<close>, and ends there.\<close>

definition word_at :: "string \<Rightarrow> nat \<Rightarrow> nat \<times> nat \<Rightarrow> string \<Rightarrow> bool" where
  "word_at bs es = (\<lambda>(q, eq) w. q < eq \<and> eq \<le> es \<and> w = take (eq - q) (text_at bs es q) \<and>
     (\<forall>c\<in>set w. wordchar c) \<and> \<not> wordchar (deref bs eq))"

definition tok_at :: "string \<Rightarrow> nat \<Rightarrow> char \<Rightarrow> nat \<times> nat \<Rightarrow> string tok \<Rightarrow> bool" where
  "tok_at bs es ret p t =
     (case t of Sym c \<Rightarrow> ret = c \<and> ret \<noteq> CHR ''a'' \<and> ret \<noteq> CHR 0x00
      | Word w \<Rightarrow> ret = CHR ''a'' \<and> word_at bs es p w)"

lemma not_word_symbol: "\<lbrakk>\<not> spacechar c; \<not> wordchar c\<rbrakk> \<Longrightarrow> c \<in> set ''|();&<'' \<or> c = CHR ''>''"
  by (auto simp: spacechar_def wordchar_def strchr_def symbols_def)

lemma wordchar_nonsymbol: "wordchar c \<Longrightarrow> c \<noteq> CHR 0x00 \<and> c \<notin> set ''|();&<'' \<and> c \<noteq> CHR ''>''"
  by (auto simp: wordchar_def strchr_def symbols_def)

lemma hd_dropWhile_not: "dropWhile P xs = c # cs \<Longrightarrow> \<not> P c"
  by (metis hd_dropWhile list.distinct(1) list.sel(1))

lemma word_token:
  assumes l: "line_end bs es" "q \<le> es" and r: "text_at bs es q = c # cs" "wordchar c"
  shows "word_at bs es (q, skip_word bs es q) (c # takeWhile wordchar cs) \<and>
         text_at bs es (skip_word bs es q) = dropWhile wordchar cs"
proof -
  let ?e = "skip_word bs es q"
  note w = skip_word_rest [OF l]
  have t: "take (?e - q) (text_at bs es q) = c # takeWhile wordchar cs" and d: "text_at bs es ?e = dropWhile wordchar cs"
    and le: "?e \<le> es"
    using w r by simp_all
  have "\<not> wordchar (deref bs ?e)"
  proof (cases "text_at bs es ?e")
    case Nil
    have "deref bs ?e = CHR 0x00" using deref_rest [OF l(1) le] Nil by simp
    then show ?thesis by (simp add: wordchar_def strchr_def)
  next
    case (Cons x xs)
    have "deref bs ?e = x" using deref_rest [OF l(1) le] Cons by simp
    moreover have "\<not> wordchar x" by (rule hd_dropWhile_not [of wordchar cs x xs]) (use d Cons in simp)
    ultimately show ?thesis by simp
  qed
  moreover have "q < ?e"
  proof (rule ccontr)
    assume "\<not> q < ?e"
    then show False using t by simp
  qed
  moreover have "\<forall>x\<in>set (c # takeWhile wordchar cs). wordchar x" using r(2) set_takeWhileD by fastforce
  ultimately show ?thesis using t d le by (simp only: word_at_def prod.case simp_thms)
qed

lemma gettoken_lex:
  assumes l: "line_end bs es" "s \<le> es" and g: "gettoken bs es s = (ret, q, eq, s')"
  shows "s' \<le> es \<and>
    (case lexer (text_at bs es s) of
       [] \<Rightarrow> ret = CHR 0x00 \<and> lexer (text_at bs es s') = []
     | t # ts \<Rightarrow> tok_at bs es ret (q, eq) t \<and> lexer (text_at bs es s') = ts)"
proof -
  have q: "q = skip_space bs es s" "s' = skip_space bs es eq" using g by (auto simp: gettoken_def Let_def split: if_splits)
  have r: "q \<le> es" "text_at bs es q = dropWhile spacechar (text_at bs es s)" using skip_space_rest [OF l] q by auto
  note d = deref_rest [OF l(1) r(1)]
  have step: "s' \<le> es \<and> lexer (text_at bs es s') = lexer (text_at bs es eq)" if "eq \<le> es"
    using skip_space_rest [OF l(1) that] q(2) by (simp add: lex_space)
  show ?thesis
  proof (cases "text_at bs es q")
    case Nil
    then have "ret = CHR 0x00" "eq = q" using g d q by (auto simp: gettoken_def Let_def)
    moreover have "lexer (text_at bs es s) = []" "lexer (text_at bs es q) = []"
      using Nil lexer_none [of "text_at bs es s"] unfolding r(2) [symmetric] by simp_all
    ultimately show ?thesis using step r(1) by simp
  next
    case (Cons c cs)
    have c: "\<not> spacechar c" "deref bs q = c" using Cons r(2) d hd_dropWhile_not [of spacechar "text_at bs es s" c cs] by auto
    have lt: "q < es" using Cons rest_end [OF l(1), of q] r(1) by (cases "q < es") auto
    have n: "text_at bs es (q + 1) = cs" using rest_Cons [OF l(1) lt] Cons by simp
    have d1: "deref bs (q + 1) = (case cs of [] \<Rightarrow> CHR 0x00 | x # _ \<Rightarrow> x)" using deref_rest [OF l(1), of "q + 1"] lt n by simp
    show ?thesis
    proof (cases "wordchar c")
      case True
      have "ret = CHR ''a''" "eq = skip_word bs es q"
        using g c(2) wordchar_nonsymbol [OF True] q(1) by (auto simp: gettoken_def Let_def)
      then show ?thesis
        using word_token [OF l(1) r(1) Cons True] step skip_word_rest [OF l(1) r(1)] lexer_word [of "text_at bs es s", OF _ True] Cons r(2)
        by (simp add: tok_at_def)
    next
      case False
      have lx: "lexer (text_at bs es s) = (if c = CHR ''>'' \<and> cs \<noteq> [] \<and> hd cs = CHR ''>'' then Sym (CHR ''+'') # lexer (tl cs) else Sym c # lexer cs)"
        using Cons r(2) by (intro lexer_sym) (simp_all add: False)
      have c0: "c \<noteq> CHR 0x00" using c(1) by (auto simp: spacechar_def strchr_def)
      show ?thesis
      proof (cases "c = CHR ''>'' \<and> cs \<noteq> [] \<and> hd cs = CHR ''>''")
        case True
        then obtain ds where cs: "cs = CHR ''>'' # ds" by (cases cs) auto
        then have "q + 1 < es" using n rest_end [OF l(1), of "q + 1"] by (cases "q + 1 < es") auto
        moreover have "ret = CHR ''+''" "eq = q + 2" using g c(2) True cs d1 q(1) by (auto simp: gettoken_def Let_def)
        ultimately show ?thesis using step rest_Cons [OF l(1), of "q + 1"] n cs lx True by (simp add: tok_at_def)
      next
        case nn: False
        have "ret = c" "eq = q + 1"
          using g c(2) c0 nn d1 not_word_symbol [OF c(1) False] q(1) by (cases cs; auto simp: gettoken_def Let_def)+
        moreover have "c \<noteq> CHR ''a''" using not_word_symbol [OF c(1) False] by auto
        ultimately show ?thesis using step lt n lx nn c0 by (auto simp: tok_at_def)
      qed
    qed
  qed
qed

definition starts :: "string \<Rightarrow> 'w tok list \<Rightarrow> bool" where
  "starts cs ts = (case ts of Sym c # _ \<Rightarrow> (if c = CHR ''+'' then CHR ''>'' else c) \<in> set cs | _ \<Rightarrow> False)"

lemma peek_lex:
  assumes l: "line_end bs es" "s \<le> es" and "set cs \<subseteq> set symbols" and p: "peek bs es cs s = (s', b)"
  shows "s' \<le> es \<and> lexer (text_at bs es s') = lexer (text_at bs es s) \<and> b = starts cs (lexer (text_at bs es s))"
proof -
  have r: "s' \<le> es" "text_at bs es s' = dropWhile spacechar (text_at bs es s)" and b: "b \<longleftrightarrow> deref bs s' \<noteq> CHR 0x00 \<and> deref bs s' \<in> set cs"
    using skip_space_rest [OF l] p by (auto simp: peek_def Let_def strchr_def)
  note d = deref_rest [OF l(1) r(1)]
  have "b = starts cs (lexer (text_at bs es s))"
  proof (cases "text_at bs es s'")
    case Nil
    then show ?thesis using b d lexer_none [of "text_at bs es s"] unfolding r(2) [symmetric] by (simp add: starts_def)
  next
    case (Cons c xs)
    have c: "\<not> spacechar c" using Cons r(2) hd_dropWhile_not [of spacechar "text_at bs es s" c xs] by auto
    then have "c \<noteq> CHR 0x00" by (auto simp: spacechar_def strchr_def)
    moreover have "wordchar c \<Longrightarrow> c \<notin> set cs" using assms(3) by (auto simp: wordchar_def strchr_def)
    moreover have "\<not> wordchar c \<Longrightarrow> c \<noteq> CHR ''+''" using not_word_symbol [OF c] by auto
    moreover have dw: "dropWhile spacechar (text_at bs es s) = c # xs" using Cons r(2) by simp
    moreover have "deref bs s' = c" using d Cons by (simp only: list.case)
    ultimately show ?thesis
      using b lexer_word [OF dw] lexer_sym [OF dw]
      by (cases "wordchar c"; cases "c = CHR ''>'' \<and> xs \<noteq> [] \<and> hd xs = CHR ''>''") (simp_all add: starts_def)
  qed
  then show ?thesis using r by (simp add: lex_space)
qed

section \<open>Printing tokens\<close>

definition good_word :: "string \<Rightarrow> bool" where
  "good_word w \<longleftrightarrow> w \<noteq> [] \<and> list_all wordchar w"

fun tok_text :: "string tok \<Rightarrow> string" where
  "tok_text (Word w) = w"
| "tok_text (Sym c) = (if c = CHR ''+'' then ''>>'' else [c])"

fun good_tok :: "string tok \<Rightarrow> bool" where
  "good_tok (Word w) = good_word w"
| "good_tok (Sym c) = (c \<in> set ''<|>&;()+'')"

definition unlex :: "string tok list \<Rightarrow> string" where
  "unlex ts = concat (map (\<lambda>t. tok_text t @ '' '') ts)"

lemma unlex_simps [simp]: "unlex [] = []" "unlex (t # ts) = tok_text t @ '' '' @ unlex ts"
  by (simp_all add: unlex_def)

lemma lex_unlex: "list_all good_tok ts \<Longrightarrow> lexer (unlex ts @ xs) = ts @ lexer xs"
proof (induction ts)
  case Nil
  then show ?case by simp
next
  case (Cons t ts)
  have sp: "spacechar (CHR '' '')" "\<not> wordchar (CHR '' '')"
    by (simp_all add: spacechar_def wordchar_def strchr_def whitespace_def)
  have skip: "lexer (CHR '' '' # unlex ts @ xs) = ts @ lexer xs"
    using lex_space [of "CHR '' '' # unlex ts @ xs"] lex_space [of "unlex ts @ xs"] sp Cons by simp
  show ?case
  proof (cases t)
    case (Word w)
    then obtain c cs where w: "w = c # cs" "wordchar c" "list_all wordchar cs" using Cons(2) by (cases w) (auto simp: good_word_def)
    have "\<not> spacechar c" using w(2) by (simp add: spacechar_def wordchar_def)
    moreover have "takeWhile wordchar (cs @ CHR '' '' # unlex ts @ xs) = cs" "dropWhile wordchar (cs @ CHR '' '' # unlex ts @ xs) = CHR '' '' # unlex ts @ xs"
      using w(3) sp by (auto simp: takeWhile_append2 dropWhile_append2 list_all_iff)
    ultimately show ?thesis using Word w skip lexer_word [of "w @ '' '' @ unlex ts @ xs" c "cs @ '' '' @ unlex ts @ xs"] by simp
  next
    case (Sym c)
    have sy: "\<not> spacechar x \<and> \<not> wordchar x" if "x \<in> set symbols" for x
      using that by (auto simp: spacechar_def wordchar_def strchr_def symbols_def whitespace_def)
    have "c = CHR ''+'' \<or> c \<in> set symbols" using Cons(2) Sym by (auto simp: symbols_def)
    then have "hd (tok_text t) \<in> set symbols" using Sym by (auto simp: symbols_def)
    note h = sy [OF this]
    define cs where "cs = tl (tok_text t) @ '' '' @ unlex ts @ xs"
    have "dropWhile spacechar (hd (tok_text t) # cs) = hd (tok_text t) # cs" using h by simp
    note lexer_sym [OF this conjunct2 [OF h]]
    moreover have "unlex (t # ts) @ xs = hd (tok_text t) # cs" using Sym by (simp add: cs_def)
    moreover have "lexer cs = ts @ lexer xs \<and> \<not> (cs \<noteq> [] \<and> hd cs = CHR ''>'')" if "c \<noteq> CHR ''+''" using Sym that skip by (simp add: cs_def)
    moreover have "lexer (tl cs) = ts @ lexer xs \<and> cs \<noteq> [] \<and> hd cs = CHR ''>''" if "c = CHR ''+''" using Sym that skip by (simp add: cs_def)
    ultimately show ?thesis using Sym by (cases "c = CHR ''+''") simp_all
  qed
qed

end
