(* ===== verification/ShellParse.thy ===== *)
theory ShellParse
  imports ShellLex
begin

text \<open>
  The parser of the shell against a reference.  The reference parser works on the list of tokens and
  returns the command as a tree; it has no pointers and no store, only the count of bytes \<open>malloc1\<close> has
  handed out.  \<open>parseline_sim\<close> shows that the functions of \<open>user/sh/main.c\<close> do the same on every line:
  the same result, the same error message, or a pointer to structures that represent the tree.
  \<open>nulterminate_strings\<close> shows that the terminators written into the line end every word and damage none.
\<close>

section \<open>The reference parser\<close>

definition take_mem :: "nat \<Rightarrow> nat \<Rightarrow> nat parse" where
  "take_mem k u = (if u + k > MAXN then Exit1 (''malloc1: memory used out'' @ [CHR 0x0A]) else Parsed (u + k))"

type_synonym redir = "string \<times> int \<times> int"

definition add_redir :: "cmd \<Rightarrow> redir \<Rightarrow> cmd" where
  "add_redir c = (\<lambda>(w, mode, fd). Redir c w mode fd)"

definition redir_mode :: "char \<Rightarrow> int \<times> int" where
  "redir_mode c = (if c = CHR ''<'' then (O_RDONLY, 0) else (O_WRONLY OR O_CREAT, 1))"

fun ref_redirs :: "string tok list \<Rightarrow> nat \<Rightarrow> (redir list \<times> string tok list \<times> nat) parse" where
  "ref_redirs (Sym c # ts) u =
     (if c \<in> set ''<>+'' then
        (case ts of
           Word w # ts' \<Rightarrow>
             pbind (take_mem 40 u) (\<lambda>u. pbind (ref_redirs ts' u) (\<lambda>(rs, ts, u). Parsed ((w, redir_mode c) # rs, ts, u)))
         | _ \<Rightarrow> PANIC ''missing file for redirection'')
      else Parsed ([], Sym c # ts, u))"
| "ref_redirs [] u = Parsed ([], [], u)"
| "ref_redirs (Word w # ts) u = Parsed ([], Word w # ts, u)"

function ref_args :: "string list \<Rightarrow> redir list \<Rightarrow> string tok list \<Rightarrow> nat \<Rightarrow> (string list \<times> redir list \<times> string tok list \<times> nat) parse" where
  "ref_args ws rs ts u =
     (case ts of
        [] \<Rightarrow> Parsed (ws, rs, [], u)
      | Sym c # ts' \<Rightarrow> if c \<in> set ''|)&;'' then Parsed (ws, rs, ts, u) else PANIC ''syntax''
      | Word w # ts' \<Rightarrow>
          if length ws + 1 \<ge> MAXARGS then PANIC ''too many args''
          else pbind (ref_redirs ts' u) (\<lambda>(rs', ts, u). ref_args (ws @ [w]) (rs @ rs') ts u))"
  by pat_completeness auto
termination by (relation "measure (\<lambda>(ws, rs, ts, u). MAXARGS - length ws)") auto

declare ref_args.simps [simp del]

fun ref_backs :: "cmd \<Rightarrow> string tok list \<Rightarrow> nat \<Rightarrow> (cmd \<times> string tok list \<times> nat) parse" where
  "ref_backs c (Sym x # ts) u =
     (if x = CHR ''&'' then pbind (take_mem 16 u) (\<lambda>u. ref_backs (Back c) ts u) else Parsed (c, Sym x # ts, u))"
| "ref_backs c [] u = Parsed (c, [], u)"
| "ref_backs c (Word w # ts) u = Parsed (c, Word w # ts, u)"

function (sequential) ref_line :: "nat \<Rightarrow> string tok list \<Rightarrow> nat \<Rightarrow> (cmd \<times> string tok list \<times> nat) parse"
  and ref_pipe :: "nat \<Rightarrow> string tok list \<Rightarrow> nat \<Rightarrow> (cmd \<times> string tok list \<times> nat) parse"
  and ref_exec :: "nat \<Rightarrow> string tok list \<Rightarrow> nat \<Rightarrow> (cmd \<times> string tok list \<times> nat) parse"
  and ref_block :: "nat \<Rightarrow> string tok list \<Rightarrow> nat \<Rightarrow> (cmd \<times> string tok list \<times> nat) parse" where
  "ref_line 0 ts u = OutOfFuel"
| "ref_line (Suc n) ts u =
     pbind (ref_pipe n ts u) (\<lambda>(c, ts, u).
     pbind (ref_backs c ts u) (\<lambda>(c, ts, u).
       if starts '';'' ts then
         pbind (ref_line n (tl ts) u) (\<lambda>(r, ts, u). pbind (take_mem 24 u) (\<lambda>u. Parsed (Lst c r, ts, u)))
       else Parsed (c, ts, u)))"
| "ref_pipe 0 ts u = OutOfFuel"
| "ref_pipe (Suc n) ts u =
     pbind (ref_exec n ts u) (\<lambda>(c, ts, u).
       if starts ''|'' ts then
         pbind (ref_pipe n (tl ts) u) (\<lambda>(r, ts, u). pbind (take_mem 24 u) (\<lambda>u. Parsed (Pipe c r, ts, u)))
       else Parsed (c, ts, u))"
| "ref_exec 0 ts u = OutOfFuel"
| "ref_exec (Suc n) ts u =
     (if starts ''('' ts then ref_block n ts u
      else
        pbind (take_mem 168 u) (\<lambda>u.
        pbind (ref_redirs ts u) (\<lambda>(rs, ts, u).
        pbind (ref_args [] rs ts u) (\<lambda>(ws, rs, ts, u). Parsed (foldl add_redir (Exec ws) rs, ts, u)))))"
| "ref_block 0 ts u = OutOfFuel"
| "ref_block (Suc n) ts u =
     (if \<not> starts ''('' ts then PANIC ''parseblock''
      else
        pbind (ref_line n (tl ts) u) (\<lambda>(c, ts, u).
          if \<not> starts '')'' ts then PANIC ''syntax - missing )''
          else pbind (ref_redirs (tl ts) u) (\<lambda>(rs, ts, u). Parsed (foldl add_redir c rs, ts, u))))"
  by pat_completeness auto
termination
  by (relation "measure (\<lambda>x. case x of Inl (Inl (n, _)) \<Rightarrow> n | Inl (Inr (n, _)) \<Rightarrow> n
                                 | Inr (Inl (n, _)) \<Rightarrow> n | Inr (Inr (n, _)) \<Rightarrow> n)") auto

section \<open>Representation\<close>

text \<open>Structures are only ever added, inside the memory handed out.\<close>

definition store_ok :: "shmem \<Rightarrow> bool" where
  "store_ok m \<longleftrightarrow> (\<forall>a. mem_cmd m a \<noteq> None \<longrightarrow> a < mem_used m)"

definition keeps :: "shmem \<Rightarrow> shmem \<Rightarrow> bool" where
  "keeps m m' \<longleftrightarrow> mem_cmd m \<subseteq>\<^sub>m mem_cmd m'"

definition arg_slots :: "nat list \<Rightarrow> nat option list" where
  "arg_slots ps = map Some ps @ replicate (MAXARGS - length ps) None"

text \<open>The structure at \<open>p\<close> has the arguments \<open>ws\<close>; the structure at \<open>p'\<close> is \<open>p\<close> with redirections around it; the
  structures at \<open>p\<close> are the command \<open>c\<close>.\<close>

definition exec_at :: "(nat \<times> nat \<Rightarrow> string \<Rightarrow> bool) \<Rightarrow> (nat \<Rightarrow> cmdnode option) \<Rightarrow> nat \<Rightarrow> string list \<Rightarrow> bool" where
  "exec_at W N p ws \<longleftrightarrow> length ws < MAXARGS \<and>
     (\<exists>ps. N p = Some (EXEC (arg_slots (map fst ps)) (arg_slots (map snd ps))) \<and> list_all2 W ps ws)"

definition redir_at :: "(nat \<times> nat \<Rightarrow> string \<Rightarrow> bool) \<Rightarrow> (nat \<Rightarrow> cmdnode option) \<Rightarrow> nat \<Rightarrow> redir \<Rightarrow> nat \<Rightarrow> bool" where
  "redir_at W N p' r p \<longleftrightarrow>
     (case r of (w, mode, fd) \<Rightarrow> \<exists>q eq. N p' = Some (REDIR p q eq mode fd) \<and> W (q, eq) w)"

fun wraps :: "(nat \<times> nat \<Rightarrow> string \<Rightarrow> bool) \<Rightarrow> (nat \<Rightarrow> cmdnode option) \<Rightarrow> nat \<Rightarrow> redir list \<Rightarrow> nat \<Rightarrow> bool" where
  "wraps W N p' [] p \<longleftrightarrow> p' = p"
| "wraps W N p' (r # rs) p \<longleftrightarrow> (\<exists>p1. redir_at W N p1 r p \<and> wraps W N p' rs p1)"

fun rep :: "(nat \<times> nat \<Rightarrow> string \<Rightarrow> bool) \<Rightarrow> (nat \<Rightarrow> cmdnode option) \<Rightarrow> nat \<Rightarrow> cmd \<Rightarrow> bool" where
  "rep W N p (Exec ws) \<longleftrightarrow> exec_at W N p ws"
| "rep W N p (Redir c w mode fd) \<longleftrightarrow> (\<exists>p1. redir_at W N p (w, mode, fd) p1 \<and> rep W N p1 c)"
| "rep W N p (Pipe l r) \<longleftrightarrow> (\<exists>a b. N p = Some (PIPE a b) \<and> rep W N a l \<and> rep W N b r)"
| "rep W N p (Lst l r) \<longleftrightarrow> (\<exists>a b. N p = Some (LIST a b) \<and> rep W N a l \<and> rep W N b r)"
| "rep W N p (Back c) \<longleftrightarrow> (\<exists>a. N p = Some (BACK a) \<and> rep W N a c)"

lemma map_le_Some: "\<lbrakk>N \<subseteq>\<^sub>m N'; N p = Some x\<rbrakk> \<Longrightarrow> N' p = Some x"
  by (auto simp: map_le_def dom_def)

lemma redir_at_mono: "\<lbrakk>redir_at W N p' r p; N \<subseteq>\<^sub>m N'\<rbrakk> \<Longrightarrow> redir_at W N' p' r p"
  by (auto simp: redir_at_def dest: map_le_Some split: prod.splits)

lemma redir_at_update: "\<lbrakk>redir_at W N p' r p; N a = Some (EXEC x y)\<rbrakk> \<Longrightarrow> redir_at W (N(a \<mapsto> n)) p' r p"
  by (auto simp: redir_at_def split: prod.splits)

lemma exec_at_mono: "\<lbrakk>exec_at W N p ws; N \<subseteq>\<^sub>m N'\<rbrakk> \<Longrightarrow> exec_at W N' p ws"
  by (auto simp: exec_at_def dest: map_le_Some)

lemma rep_mono: "\<lbrakk>rep W N p c; N \<subseteq>\<^sub>m N'\<rbrakk> \<Longrightarrow> rep W N' p c"
proof (induction c arbitrary: p)
  case (Redir c w mode fd)
  then show ?case by (simp only: rep.simps) (blast intro: redir_at_mono)
qed (auto intro: exec_at_mono dest: map_le_Some)

lemma wraps_mono: "\<lbrakk>wraps W N p' rs p; N \<subseteq>\<^sub>m N'\<rbrakk> \<Longrightarrow> wraps W N' p' rs p"
  by (induction rs arbitrary: p) (simp, simp only: wraps.simps, blast intro: redir_at_mono)

lemma wraps_append: "wraps W N p' (rs @ rs') p \<longleftrightarrow> (\<exists>p1. wraps W N p1 rs p \<and> wraps W N p' rs' p1)"
  by (induction rs arbitrary: p) auto

lemma wraps_update: "\<lbrakk>wraps W N p' rs p; N a = Some (EXEC x y)\<rbrakk> \<Longrightarrow> wraps W (N(a \<mapsto> n)) p' rs p"
  by (induction rs arbitrary: p) (simp, simp only: wraps.simps, blast intro: redir_at_update)

lemma wraps_rep: "\<lbrakk>wraps W N p' rs p; rep W N p c\<rbrakk> \<Longrightarrow> rep W N p' (foldl add_redir c rs)"
proof (induction rs arbitrary: p c)
  case (Cons r rs)
  then obtain p1 where p1: "redir_at W N p1 r p" "wraps W N p' rs p1" by auto
  have "rep W N p1 (add_redir c r)" using p1(1) Cons(3) by (auto simp: add_redir_def split: prod.splits)
  then show ?case using Cons(1) [OF p1(2)] by simp
qed simp

section \<open>Simulation\<close>

lemma rel_pbind:
  "\<lbrakk>rel_parse R m m'; \<And>x y. \<lbrakk>m = Parsed x; m' = Parsed y; R x y\<rbrakk> \<Longrightarrow> rel_parse S (f x) (f' y)\<rbrakk> \<Longrightarrow>
   rel_parse S (pbind m f) (pbind m' f')"
  by (cases m; cases m') simp_all

lemma rel_pbind_left:
  "\<lbrakk>rel_parse R m m'; \<And>x y. R x y \<Longrightarrow> rel_parse S (f x) (Parsed y)\<rbrakk> \<Longrightarrow> rel_parse S (pbind m f) m'"
  by (cases m; cases m') simp_all

lemma rel_PANIC [simp]: "rel_parse R (PANIC msg) (PANIC msg)"
  by (simp add: PANIC_def)

lemma mem_keeps_trans: "\<lbrakk>keeps m1 m2; keeps m2 m3\<rbrakk> \<Longrightarrow> keeps m1 m3"
  by (auto simp: keeps_def intro: map_le_trans)

lemma mem_keeps_refl [simp]: "keeps m m"
  by (simp add: keeps_def)

lemma new_cmd_sim:
  assumes "store_ok m"
  shows "rel_parse (\<lambda>u (a, m'). u = mem_used m' \<and> store_ok m' \<and> keeps m m' \<and> mem_cmd m a = None \<and> mem_cmd m' = (mem_cmd m)(a \<mapsto> c))
     (take_mem (cmd_bytes c) (mem_used m)) (new_cmd c m)"
proof -
  have "0 < cmd_bytes c" by (cases c) simp_all
  moreover have "mem_cmd m (mem_used m) = None" using assms by (auto simp: store_ok_def)
  ultimately show ?thesis using assms
    by (auto simp: take_mem_def new_cmd_def malloc1_def Let_def store_ok_def keeps_def map_le_def dom_def)
qed

text \<open>The reference and the code have the same tokens ahead and the same memory in use.\<close>

definition same :: "string \<Rightarrow> nat \<Rightarrow> string tok list \<Rightarrow> nat \<Rightarrow> nat \<Rightarrow> shmem \<Rightarrow> bool" where
  "same bs es ts u s m \<longleftrightarrow> s \<le> es \<and> ts = lexer (text_at bs es s) \<and> u = mem_used m \<and> store_ok m"

lemma peek_same:
  assumes "line_end bs es" "same bs es ts u s m" "peek bs es cs s = (s', b)" "set cs \<subseteq> set symbols"
  shows "same bs es ts u s' m \<and> b = starts cs ts"
  using peek_lex [OF assms(1) _ assms(4,3)] assms(2) by (simp add: same_def)

lemma gettoken_same:
  assumes "line_end bs es" "same bs es ts u s m" "gettoken bs es s = (ret, q, eq, s')"
  shows "same bs es (tl ts) u s' m \<and> (case ts of [] \<Rightarrow> ret = CHR 0x00 | t # _ \<Rightarrow> tok_at bs es ret (q, eq) t)"
  using gettoken_lex [OF assms(1) _ assms(3)] assms(2) by (auto simp: same_def split: list.splits)

lemma redir_token_sim:
  assumes m: "store_ok m" and t: "tok_at bs es tok (x, y) (Sym c)" "c \<in> set ''<>+''" and w: "W (q, eq) w"
  shows "rel_parse (\<lambda>u (p', m'). u = mem_used m' \<and> store_ok m' \<and> keeps m m' \<and> redir_at W (mem_cmd m') p' (w, redir_mode c) p)
     (take_mem 40 (mem_used m)) (redir_token tok p q eq m)"
proof -
  have "redir_token tok p q eq m = new_cmd (REDIR p q eq (fst (redir_mode c)) (snd (redir_mode c))) m"
    using t by (auto simp: redir_token_def redircmd_def tok_at_def redir_mode_def)
  moreover note new_cmd_sim [OF m, of "REDIR p q eq (fst (redir_mode c)) (snd (redir_mode c))"]
  ultimately show ?thesis using w
    by (auto simp: redir_at_def split: prod.splits elim!: parse.rel_mono_strong)
qed

lemma parseredirs_none:
  assumes "line_end bs es" "same bs es ts u s m" "\<not> starts ''<>'' ts"
  shows "\<exists>s'. parseredirs bs es p s m = Parsed (p, s', m) \<and> same bs es ts u s' m"
proof -
  obtain s1 b where pk: "peek bs es ''<>'' s = (s1, b)" by fastforce
  then have "same bs es ts u s1 m" "\<not> b" using peek_same [OF assms(1,2) pk] assms(3) by (simp_all add: symbols_def)
  then show ?thesis using pk by (simp add: parseredirs.simps [of bs es p s m])
qed

lemma parseredirs_sim:
  assumes "line_end bs es" "same bs es ts u s m"
  shows "rel_parse (\<lambda>(rs, ts, u) (p', s', m'). same bs es ts u s' m' \<and> keeps m m' \<and> wraps (word_at bs es) (mem_cmd m') p' rs p)
     (ref_redirs ts u) (parseredirs bs es p s m)"
  using assms(2)
proof (induction ts u arbitrary: p s m rule: ref_redirs.induct)
  case (1 c ts u)
  show ?case
  proof (cases "c \<in> set ''<>+''")
    case True
    obtain s1 b where pk: "peek bs es ''<>'' s = (s1, b)" by fastforce
    then have s1: "same bs es (Sym c # ts) u s1 m" and b
      using peek_same [OF assms(1) 1(2) pk] True by (auto simp: symbols_def starts_def)
    obtain tok q1 e1 s2 where g1: "gettoken bs es s1 = (tok, q1, e1, s2)" by (metis prod_cases4)
    have s2: "same bs es ts u s2 m" "tok_at bs es tok (q1, e1) (Sym c)" using gettoken_same [OF assms(1) s1 g1] by simp_all
    obtain t q eq s3 where g2: "gettoken bs es s2 = (t, q, eq, s3)" by (metis prod_cases4)
    have s3: "same bs es (tl ts) u s3 m" "case ts of [] \<Rightarrow> t = CHR 0x00 | x # _ \<Rightarrow> tok_at bs es t (q, eq) x"
      using gettoken_same [OF assms(1) s2(1) g2] by simp_all
    have code: "parseredirs bs es p s m =
        (if t \<noteq> CHR ''a'' then PANIC ''missing file for redirection''
         else pbind (redir_token tok p q eq m) (\<lambda>(cmd, m). parseredirs bs es cmd s3 m))"
      using pk \<open>b\<close> g1 g2 by (simp add: parseredirs.simps [of bs es p s m])
    show ?thesis
    proof (cases "\<exists>w ts'. ts = Word w # ts'")
      case w: True
      then obtain w ts' where ts: "ts = Word w # ts'" by blast
      have t: "t = CHR ''a''" "word_at bs es (q, eq) w" using s3(2) ts by (simp_all add: tok_at_def)
      have u: "u = mem_used m" "store_ok m" using s1 by (simp_all add: same_def)
      have *: "rel_parse (\<lambda>(rs, ts, u) (p', s', m'). same bs es ts u s' m' \<and> keeps m m' \<and> wraps (word_at bs es) (mem_cmd m') p' rs p)
        (pbind (ref_redirs ts' v) (\<lambda>(rs, ts, u). Parsed ((w, redir_mode c) # rs, ts, u))) (parseredirs bs es p1 s3 m1)"
        if v: "take_mem 40 u = Parsed v" and m1: "v = mem_used m1" "store_ok m1" "keeps m m1" "redir_at (word_at bs es) (mem_cmd m1) p1 (w, redir_mode c) p" for v p1 m1
      proof -
        have "same bs es ts' v s3 m1" using s3(1) ts m1 by (simp add: same_def)
        then show ?thesis
          by (rule rel_pbind_left [OF 1(1) [OF True ts refl v, of s3 m1 p1]])
            (use m1(3,4) in \<open>clarsimp simp: keeps_def, blast intro: map_le_trans redir_at_mono\<close>)
      qed
      have ref: "ref_redirs (Sym c # ts) u = pbind (take_mem 40 (mem_used m)) (\<lambda>u. pbind (ref_redirs ts' u) (\<lambda>(rs, ts, u). Parsed ((w, redir_mode c) # rs, ts, u)))"
        using True ts u(1) by simp
      have code': "parseredirs bs es p s m = pbind (redir_token tok p q eq m) (\<lambda>(cmd, m). parseredirs bs es cmd s3 m)"
        using code t(1) by simp
      show ?thesis unfolding ref code'
        by (rule rel_pbind [OF redir_token_sim [where W = "word_at bs es", OF u(2) s2(2) True t(2)]])
          (clarify, rule *, simp_all add: u(1))
    next
      case False
      then have "t \<noteq> CHR ''a''" using s3(2) by (auto simp: tok_at_def split: list.splits tok.splits)
      then show ?thesis using code True False by (auto split: list.splits tok.splits)
    qed
  next
    case False
    then show ?thesis using parseredirs_none [OF assms(1) 1(2), of p] by (auto simp: starts_def split: if_splits)
  qed
next
  case (2 u)
  then show ?case using parseredirs_none [OF assms(1) 2, of p] by (auto simp: starts_def)
next
  case (3 w ts u)
  then show ?case using parseredirs_none [OF assms(1) 3, of p] by (auto simp: starts_def)
qed

lemma slots_snoc: "length ps < MAXARGS \<Longrightarrow> (arg_slots ps)[length ps := Some p] = arg_slots (ps @ [p])"
  by (cases "MAXARGS - length ps") (auto simp: arg_slots_def list_update_append Suc_diff_Suc [symmetric])

lemma slots_end: "length ps < MAXARGS \<Longrightarrow> (arg_slots ps)[length ps := None] = arg_slots ps"
  by (cases "MAXARGS - length ps") (auto simp: arg_slots_def list_update_append)

lemma set_arg_word:
  assumes e: "exec_at W (mem_cmd m) a ws" and w: "length ws + 1 < MAXARGS" "W (q, eq) w"
  shows "\<exists>x y n. mem_cmd m a = Some (EXEC x y) \<and>
    set_arg a (length ws) (Some q) (Some eq) m = m\<lparr>mem_cmd := (mem_cmd m)(a \<mapsto> n)\<rparr> \<and>
    exec_at W ((mem_cmd m)(a \<mapsto> n)) a (ws @ [w])"
proof -
  obtain ps where ps: "mem_cmd m a = Some (EXEC (arg_slots (map fst ps)) (arg_slots (map snd ps)))" "list_all2 W ps ws"
    using e by (auto simp: exec_at_def)
  have l: "length ps = length ws" using ps(2) by (rule list_all2_lengthD)
  have "set_arg a (length ws) (Some q) (Some eq) m =
      m\<lparr>mem_cmd := (mem_cmd m)(a \<mapsto> EXEC (arg_slots (map fst (ps @ [(q, eq)]))) (arg_slots (map snd (ps @ [(q, eq)]))))\<rparr>"
    using ps(1) l w(1) slots_snoc [of "map fst ps" q] slots_snoc [of "map snd ps" eq] by (simp add: set_arg_def)
  moreover have "list_all2 W (ps @ [(q, eq)]) (ws @ [w])" using ps(2) w(2) by (simp add: list_all2_appendI)
  ultimately show ?thesis using ps(1) w(1) unfolding exec_at_def by (intro exI conjI) (assumption, assumption, auto)
qed

lemma set_arg_end:
  assumes "exec_at W (mem_cmd m) a ws"
  shows "set_arg a (length ws) None None m = m"
proof -
  obtain ps where ps: "mem_cmd m a = Some (EXEC (arg_slots (map fst ps)) (arg_slots (map snd ps)))" "list_all2 W ps ws" "length ws < MAXARGS"
    using assms by (auto simp: exec_at_def)
  have "length ps = length ws" using ps(2) by (rule list_all2_lengthD)
  then show ?thesis using ps slots_end [of "map fst ps"] slots_end [of "map snd ps"] by (simp add: set_arg_def fun_upd_idem)
qed

lemma keeps_update: "\<lbrakk>keeps m0 m; mem_cmd m0 a = None\<rbrakk> \<Longrightarrow> keeps m0 (m\<lparr>mem_cmd := (mem_cmd m)(a \<mapsto> n)\<rparr>)"
  by (auto simp: keeps_def map_le_def dom_def)

lemma same_update: "\<lbrakk>same bs es ts u s m; mem_cmd m a = Some x\<rbrakk> \<Longrightarrow> same bs es ts u s (m\<lparr>mem_cmd := (mem_cmd m)(a \<mapsto> n)\<rparr>)"
  by (auto simp: same_def store_ok_def)

lemma parse_args_sim:
  assumes "line_end bs es" "mem_cmd m0 a = None"
    and "same bs es ts u s m" "keeps m0 m" "exec_at (word_at bs es) (mem_cmd m) a ws" "wraps (word_at bs es) (mem_cmd m) ret rs a"
  shows "rel_parse (\<lambda>(ws, rs, ts, u) (argc, ret, s', m'). argc = length ws \<and> same bs es ts u s' m' \<and> keeps m0 m' \<and>
       exec_at (word_at bs es) (mem_cmd m') a ws \<and> wraps (word_at bs es) (mem_cmd m') ret rs a)
     (ref_args ws rs ts u) (parse_args bs es a (length ws) ret s m)"
  (is "rel_parse ?R _ _")
  using assms(3-)
proof (induction ws rs ts u arbitrary: ret s m rule: ref_args.induct)
  case (1 ws rs ts u)
  obtain s1 b where pk: "peek bs es ''|)&;'' s = (s1, b)" by fastforce
  have s1: "same bs es ts u s1 m" "b = starts ''|)&;'' ts" using peek_same [OF assms(1) 1(2) pk] by (simp_all add: symbols_def)
  obtain tok q eq s2 where g: "gettoken bs es s1 = (tok, q, eq, s2)" by (metis prod_cases4)
  have s2: "same bs es (tl ts) u s2 m" "case ts of [] \<Rightarrow> tok = CHR 0x00 | t # _ \<Rightarrow> tok_at bs es tok (q, eq) t"
    using gettoken_same [OF assms(1) s1(1) g] by simp_all
  note code = parse_args.simps [of bs es a "length ws" ret s m] pk g
  show ?case
  proof (cases ts)
    case Nil
    then show ?thesis using code s1 s2 1(3-) by (simp add: ref_args.simps [of ws rs "[]" u] starts_def)
  next
    case (Cons t ts')
    show ?thesis
    proof (cases t)
      case (Sym c)
      have "starts ''|)&;'' ts \<longleftrightarrow> c \<in> set ''|)&;''" using Cons Sym by (auto simp: starts_def)
      then show ?thesis using Cons Sym code s1 s2(2) 1(3-) by (auto simp: ref_args.simps [of ws rs "Sym c # ts'" u] tok_at_def)
    next
      case (Word w)
      have t: "tok = CHR ''a''" "word_at bs es (q, eq) w" "\<not> b" using s2(2) s1(2) Cons Word by (simp_all add: tok_at_def starts_def)
      show ?thesis
      proof (cases "length ws + 1 \<ge> MAXARGS")
        case True
        then show ?thesis using Cons Word code t by (simp add: ref_args.simps [of ws rs "Word w # ts'" u])
      next
        case False
        obtain x y n where n: "mem_cmd m a = Some (EXEC x y)" "set_arg a (length ws) (Some q) (Some eq) m = m\<lparr>mem_cmd := (mem_cmd m)(a \<mapsto> n)\<rparr>"
          "exec_at (word_at bs es) ((mem_cmd m)(a \<mapsto> n)) a (ws @ [w])"
          using set_arg_word [OF 1(4) _ t(2)] False by fastforce
        define m1 where "m1 = m\<lparr>mem_cmd := (mem_cmd m)(a \<mapsto> n)\<rparr>"
        have m1: "same bs es ts' u s2 m1" "keeps m0 m1" "wraps (word_at bs es) (mem_cmd m1) ret rs a" "exec_at (word_at bs es) (mem_cmd m1) a (ws @ [w])"
          using s2(1) Cons 1(3,5) n assms(2) by (simp_all add: m1_def same_update keeps_update wraps_update)
        have code': "parse_args bs es a (length ws) ret s m =
            pbind (parseredirs bs es ret s2 m1) (\<lambda>(ret, s3, m). parse_args bs es a (length (ws @ [w])) ret s3 m)"
          using code t False n(2) by (simp add: m1_def)
        have ref': "ref_args ws rs ts u = pbind (ref_redirs ts' u) (\<lambda>(rs', ts, u). ref_args (ws @ [w]) (rs @ rs') ts u)"
          using Cons Word False by (simp add: ref_args.simps [of ws rs "Word w # ts'" u])
        show ?thesis unfolding code' ref'
        proof (rule rel_pbind [OF parseredirs_sim [OF assms(1) m1(1), of ret]])
          fix x y
          assume x: "ref_redirs ts' u = Parsed x"
            and r: "(case x of (rs, ts, u) \<Rightarrow> \<lambda>(p', s', m'). same bs es ts u s' m' \<and> keeps m1 m' \<and> wraps (word_at bs es) (mem_cmd m') p' rs ret) y"
          obtain rs' ts2 u2 ret' s3 m2 where xy: "x = (rs', ts2, u2)" "y = (ret', s3, m2)" by (metis prod_cases3)
          have k: "mem_cmd m1 \<subseteq>\<^sub>m mem_cmd m2" and m2: "same bs es ts2 u2 s3 m2" "wraps (word_at bs es) (mem_cmd m2) ret' rs' ret"
            using r xy by (simp_all add: keeps_def)
          have "wraps (word_at bs es) (mem_cmd m2) ret' (rs @ rs') a"
            using wraps_mono [OF m1(3) k] m2(2) by (auto simp: wraps_append)
          moreover have "keeps m0 m2" using m1(2) k by (auto simp: keeps_def intro: map_le_trans)
          ultimately show "rel_parse ?R (case x of (rs', ts, u) \<Rightarrow> ref_args (ws @ [w]) (rs @ rs') ts u)
              (case y of (ret, s3, m) \<Rightarrow> parse_args bs es a (length (ws @ [w])) ret s3 m)"
            using 1(1) [OF Cons Word False x xy(1) [symmetric] refl m2(1) _ exec_at_mono [OF m1(4) k]] xy by simp
        qed
      qed
    qed
  qed
qed

text \<open>What the four functions of the grammar have in common.\<close>

definition parsed_as :: "string \<Rightarrow> nat \<Rightarrow> shmem \<Rightarrow> cmd \<times> string tok list \<times> nat \<Rightarrow> nat \<times> nat \<times> shmem \<Rightarrow> bool" where
  "parsed_as bs es m0 = (\<lambda>(c, ts, u) (p, s, m). same bs es ts u s m \<and> keeps m0 m \<and> rep (word_at bs es) (mem_cmd m) p c)"

lemma parsed_as_keeps: "\<lbrakk>rel_parse (parsed_as bs es m) x y; keeps m0 m\<rbrakk> \<Longrightarrow> rel_parse (parsed_as bs es m0) x y"
  by (erule parse.rel_mono_strong) (auto simp: parsed_as_def intro: mem_keeps_trans)

lemma same_new: "\<lbrakk>same bs es ts u s m; u' = mem_used m'; store_ok m'\<rbrakk> \<Longrightarrow> same bs es ts u' s m'"
  by (simp add: same_def)

text \<open>A new structure over parsed ones.\<close>

lemma new_cmd_parsed:
  assumes "same bs es ts u s m" "keeps m0 m"
    and "\<And>a N. \<lbrakk>mem_cmd m \<subseteq>\<^sub>m N; N a = Some n\<rbrakk> \<Longrightarrow> rep (word_at bs es) N a c"
    and k: "k = cmd_bytes n"
  shows "rel_parse (parsed_as bs es m0) (pbind (take_mem k u) (\<lambda>u. Parsed (c, ts, u)))
           (pbind (new_cmd n m) (\<lambda>(a, m). Parsed (a, s, m)))"
proof -
  have "store_ok m" "u = mem_used m" using assms(1) by (simp_all add: same_def)
  then show ?thesis unfolding k using assms(1-3)
    by (auto intro!: rel_pbind [OF new_cmd_sim] simp: parsed_as_def keeps_def intro: same_new map_le_trans)
qed

lemma parse_backs_none:
  assumes "line_end bs es" "same bs es ts u s m" "\<not> starts ''&'' ts"
  shows "\<exists>s'. parse_backs bs es p s m = Parsed (p, s', m) \<and> same bs es ts u s' m"
proof -
  obtain s1 b where pk: "peek bs es ''&'' s = (s1, b)" by fastforce
  then have "same bs es ts u s1 m" "\<not> b" using peek_same [OF assms(1,2) pk] assms(3) by (simp_all add: symbols_def)
  then show ?thesis using pk by (simp add: parse_backs.simps [of bs es p s m])
qed

lemma parse_backs_sim:
  assumes "line_end bs es" "same bs es ts u s m" "keeps m0 m" "rep (word_at bs es) (mem_cmd m) p c"
  shows "rel_parse (parsed_as bs es m0) (ref_backs c ts u) (parse_backs bs es p s m)"
  using assms(2-)
proof (induction c ts u arbitrary: p s m rule: ref_backs.induct)
  case (1 c x ts u)
  obtain s1 b where pk: "peek bs es ''&'' s = (s1, b)" by fastforce
  have s1: "same bs es (Sym x # ts) u s1 m" "b = (x = CHR ''&'')"
    using peek_same [OF assms(1) 1(2) pk] by (simp_all add: symbols_def starts_def)
  obtain tok q eq s2 where g: "gettoken bs es s1 = (tok, q, eq, s2)" by (metis prod_cases4)
  have s2: "same bs es ts u s2 m" using gettoken_same [OF assms(1) s1(1) g] by simp
  then have u: "store_ok m" "u = mem_used m" by (simp_all add: same_def)
  show ?case
  proof (cases b)
    case True
    have code: "parse_backs bs es p s m = pbind (new_cmd (BACK p) m) (\<lambda>(p, m). parse_backs bs es p s2 m)"
      using pk g True by (simp add: parse_backs.simps [of bs es p s m] backcmd_def)
    have ref: "ref_backs c (Sym x # ts) u = pbind (take_mem (cmd_bytes (BACK p)) (mem_used m)) (\<lambda>u. ref_backs (Back c) ts u)"
      using True s1(2) u by simp
    show ?thesis unfolding code ref
    proof (rule rel_pbind [OF new_cmd_sim [OF u(1)]], clarify, goal_cases)
      case (1 _ a m1)
      then have k: "keeps m m1" "mem_cmd m1 a = Some (BACK p)" "store_ok m1" by simp_all
      have "rep (word_at bs es) (mem_cmd m1) a (Back c)"
        using k(2) rep_mono [OF "1.prems"(3), of "mem_cmd m1"] k(1) by (simp add: keeps_def)
      then show ?case
        using "1.IH" [OF _ _ same_new [OF s2 refl k(3)] mem_keeps_trans [OF "1.prems"(2) k(1)], of a] u(2) s1(2) True 1(1) by simp
    qed
  next
    case False
    then show ?thesis using pk s1 1(3,4) by (simp add: parse_backs.simps [of bs es p s m] parsed_as_def)
  qed
next
  case (2 c u)
  then show ?case using parse_backs_none [OF assms(1) 2(1), of p] by (auto simp: starts_def parsed_as_def)
next
  case (3 c w ts u)
  then show ?case using parse_backs_none [OF assms(1) 3(1), of p] by (auto simp: starts_def parsed_as_def)
qed

text \<open>The right operand of \<open>;\<close> and \<open>|\<close>.\<close>

lemma right_sim:
  assumes l: "line_end bs es" and a: "same bs es ts u s m" "keeps m0 m" "rep (word_at bs es) (mem_cmd m) p c" and x: "x \<in> set symbols"
    and IH: "\<And>ts u s m. same bs es ts u s m \<Longrightarrow> rel_parse (parsed_as bs es m) (R ts u) (P s m)"
    and mk: "\<And>b. cmd_bytes (mk p b) = 24"
      "\<And>N a b r. \<lbrakk>N a = Some (mk p b); rep (word_at bs es) N p c; rep (word_at bs es) N b r\<rbrakk> \<Longrightarrow> rep (word_at bs es) N a (C c r)"
  shows "rel_parse (parsed_as bs es m0)
     (if starts [x] ts then pbind (R (tl ts) u) (\<lambda>(r, ts, u). pbind (take_mem 24 u) (\<lambda>u. Parsed (C c r, ts, u))) else Parsed (c, ts, u))
     (case peek bs es [x] s of (s, b) \<Rightarrow>
        if b then
          (case gettoken bs es s of (_, _, _, s) \<Rightarrow>
             pbind (P s m) (\<lambda>(right, s, m). pbind (new_cmd (mk p right) m) (\<lambda>(cmd, m). Parsed (cmd, s, m))))
        else Parsed (p, s, m))"
proof -
  obtain s1 b where pk: "peek bs es [x] s = (s1, b)" by fastforce
  have s1: "same bs es ts u s1 m" "b = starts [x] ts" using peek_same [OF l a(1) pk] x by simp_all
  obtain tok q eq s2 where g: "gettoken bs es s1 = (tok, q, eq, s2)" by (metis prod_cases4)
  have s2: "same bs es (tl ts) u s2 m" using gettoken_same [OF l s1(1) g] by simp
  show ?thesis
  proof (cases b)
    case True
    have "rel_parse (parsed_as bs es m0) (pbind (R (tl ts) u) (\<lambda>(r, ts, u). pbind (take_mem 24 u) (\<lambda>u. Parsed (C c r, ts, u))))
        (pbind (P s2 m) (\<lambda>(right, s, m). pbind (new_cmd (mk p right) m) (\<lambda>(cmd, m). Parsed (cmd, s, m))))"
    proof (rule rel_pbind [OF IH [OF s2]], clarify)
      fix r ts' u' b s' m'
      assume "parsed_as bs es m (r, ts', u') (b, s', m')"
      then have b: "same bs es ts' u' s' m'" "keeps m m'" "rep (word_at bs es) (mem_cmd m') b r" by (simp_all add: parsed_as_def)
      show "rel_parse (parsed_as bs es m0) (pbind (take_mem 24 u') (\<lambda>u. Parsed (C c r, ts', u)))
          (pbind (new_cmd (mk p b) m') (\<lambda>(cmd, m). Parsed (cmd, s', m)))"
      proof (rule new_cmd_parsed [OF b(1) mem_keeps_trans [OF a(2) b(2)] _ mk(1) [symmetric]])
        fix n N
        assume n: "mem_cmd m' \<subseteq>\<^sub>m N" "N n = Some (mk p b)"
        then have "mem_cmd m \<subseteq>\<^sub>m N" using b(2) map_le_trans by (auto simp: keeps_def)
        then show "rep (word_at bs es) N n (C c r)" using mk(2) [OF n(2) rep_mono [OF a(3)] rep_mono [OF b(3) n(1)]] by simp
      qed
    qed
    then show ?thesis using pk g s1(2) True by simp
  next
    case False
    then show ?thesis using pk s1 a by (simp add: parsed_as_def)
  qed
qed

lemma parseexec_simple_sim:
  assumes l: "line_end bs es" and a: "same bs es ts u s m"
  shows "rel_parse (parsed_as bs es m)
     (pbind (take_mem 168 u) (\<lambda>u. pbind (ref_redirs ts u) (\<lambda>(rs, ts, u).
        pbind (ref_args [] rs ts u) (\<lambda>(ws, rs, ts, u). Parsed (foldl add_redir (Exec ws) rs, ts, u)))))
     (pbind (execcmd m) (\<lambda>(cmd, m). pbind (parseredirs bs es cmd s m) (\<lambda>(ret, s, m).
        pbind (parse_args bs es cmd 0 ret s m) (\<lambda>(argc, ret, s, m). Parsed (ret, s, set_arg cmd argc None None m)))))"
proof -
  let ?W = "word_at bs es"
  have u: "store_ok m" "u = mem_used m" using a by (simp_all add: same_def)
  let ?n = "EXEC (replicate MAXARGS None) (replicate MAXARGS None)"
  have b: "take_mem 168 u = take_mem (cmd_bytes ?n) (mem_used m)" using u by simp
  show ?thesis unfolding execcmd_def b
  proof (rule rel_pbind [OF new_cmd_sim [OF u(1)]], clarify)
    fix p m1
    assume m1: "store_ok m1" "keeps m m1" "mem_cmd m p = None" "mem_cmd m1 = (mem_cmd m)(p \<mapsto> ?n)"
    have e: "exec_at ?W (mem_cmd m1) p []" using m1(4) by (simp add: exec_at_def arg_slots_def MAXARGS_def)
    show "rel_parse (parsed_as bs es m)
       (pbind (ref_redirs ts (mem_used m1)) (\<lambda>(rs, ts, u). pbind (ref_args [] rs ts u) (\<lambda>(ws, rs, ts, u). Parsed (foldl add_redir (Exec ws) rs, ts, u))))
       (pbind (parseredirs bs es p s m1) (\<lambda>(ret, s, m). pbind (parse_args bs es p 0 ret s m) (\<lambda>(argc, ret, s, m). Parsed (ret, s, set_arg p argc None None m))))"
    proof (rule rel_pbind [OF parseredirs_sim [OF l same_new [OF a refl m1(1)], of p]], clarify)
      fix rs ts2 u2 ret s2 m2
      assume m2: "same bs es ts2 u2 s2 m2" "keeps m1 m2" "wraps ?W (mem_cmd m2) ret rs p"
      have "exec_at ?W (mem_cmd m2) p []" using exec_at_mono [OF e] m2(2) by (simp add: keeps_def)
      from parse_args_sim [OF l m1(3) m2(1) mem_keeps_trans [OF m1(2) m2(2)] this m2(3), unfolded list.size]
      show "rel_parse (parsed_as bs es m) (pbind (ref_args [] rs ts2 u2) (\<lambda>(ws, rs, ts, u). Parsed (foldl add_redir (Exec ws) rs, ts, u)))
          (pbind (parse_args bs es p 0 ret s2 m2) (\<lambda>(argc, ret, s, m). Parsed (ret, s, set_arg p argc None None m)))"
        by (rule rel_pbind) (auto simp: set_arg_end parsed_as_def intro!: wraps_rep)
    qed
  qed
qed

lemma parseblock_sim:
  assumes l: "line_end bs es" and a: "same bs es ts u s m"
    and IH: "\<And>ts u s m. same bs es ts u s m \<Longrightarrow> rel_parse (parsed_as bs es m) (R ts u) (P s m)"
  shows "rel_parse (parsed_as bs es m)
     (if \<not> starts ''('' ts then PANIC ''parseblock''
      else pbind (R (tl ts) u) (\<lambda>(c, ts, u).
          if \<not> starts '')'' ts then PANIC ''syntax - missing )''
          else pbind (ref_redirs (tl ts) u) (\<lambda>(rs, ts, u). Parsed (foldl add_redir c rs, ts, u))))
     (case peek bs es ''('' s of (s, b) \<Rightarrow>
        if \<not> b then PANIC ''parseblock''
        else case gettoken bs es s of (_, _, _, s) \<Rightarrow>
          pbind (P s m) (\<lambda>(cmd, s, m).
            case peek bs es '')'' s of (s, b) \<Rightarrow>
              if \<not> b then PANIC ''syntax - missing )''
              else case gettoken bs es s of (_, _, _, s) \<Rightarrow> parseredirs bs es cmd s m))"
proof -
  obtain s1 b where pk: "peek bs es ''('' s = (s1, b)" by fastforce
  have s1: "same bs es ts u s1 m" "b = starts ''('' ts" using peek_same [OF l a pk] by (simp_all add: symbols_def)
  obtain tok q eq s2 where g: "gettoken bs es s1 = (tok, q, eq, s2)" by (metis prod_cases4)
  have s2: "same bs es (tl ts) u s2 m" using gettoken_same [OF l s1(1) g] by simp
  have *: "rel_parse (parsed_as bs es m)
      (if \<not> starts '')'' ts' then PANIC ''syntax - missing )''
       else pbind (ref_redirs (tl ts') u') (\<lambda>(rs, ts, u). Parsed (foldl add_redir c rs, ts, u)))
      (case peek bs es '')'' s' of (s, b) \<Rightarrow>
         if \<not> b then PANIC ''syntax - missing )''
         else case gettoken bs es s of (_, _, _, s) \<Rightarrow> parseredirs bs es p s m')"
    if "parsed_as bs es m (c, ts', u') (p, s', m')" for c ts' u' p s' m'
  proof -
    have b: "same bs es ts' u' s' m'" "keeps m m'" "rep (word_at bs es) (mem_cmd m') p c" using that by (simp_all add: parsed_as_def)
    obtain s3 b3 where pk3: "peek bs es '')'' s' = (s3, b3)" by fastforce
    have s3: "same bs es ts' u' s3 m'" "b3 = starts '')'' ts'" using peek_same [OF l b(1) pk3] by (simp_all add: symbols_def)
    obtain tok q eq s4 where g3: "gettoken bs es s3 = (tok, q, eq, s4)" by (metis prod_cases4)
    have s4: "same bs es (tl ts') u' s4 m'" using gettoken_same [OF l s3(1) g3] by simp
    have "rel_parse (parsed_as bs es m) (pbind (ref_redirs (tl ts') u') (\<lambda>(rs, ts, u). Parsed (foldl add_redir c rs, ts, u)))
        (parseredirs bs es p s4 m')"
    proof (rule rel_pbind_left [OF parseredirs_sim [OF l s4, of p]], clarify)
      fix rs ts5 u5 p5 s5 m5
      assume m5: "same bs es ts5 u5 s5 m5" "keeps m' m5" "wraps (word_at bs es) (mem_cmd m5) p5 rs p"
      then show "rel_parse (parsed_as bs es m) (Parsed (foldl add_redir c rs, ts5, u5)) (Parsed (p5, s5, m5))"
        using mem_keeps_trans [OF b(2) m5(2)] wraps_rep [OF m5(3) rep_mono [OF b(3)]] by (simp add: parsed_as_def keeps_def)
    qed
    then show ?thesis using pk3 g3 s3(2) by simp
  qed
  have "rel_parse (parsed_as bs es m)
      (pbind (R (tl ts) u) (\<lambda>(c, ts, u). if \<not> starts '')'' ts then PANIC ''syntax - missing )''
          else pbind (ref_redirs (tl ts) u) (\<lambda>(rs, ts, u). Parsed (foldl add_redir c rs, ts, u))))
      (pbind (P s2 m) (\<lambda>(cmd, s, m). case peek bs es '')'' s of (s, b) \<Rightarrow> if \<not> b then PANIC ''syntax - missing )''
              else case gettoken bs es s of (_, _, _, s) \<Rightarrow> parseredirs bs es cmd s m))"
    by (rule rel_pbind [OF IH [OF s2]], clarify, rule *)
  then show ?thesis using pk g s1(2) by simp
qed

theorem grammar_sim:
  assumes l: "line_end bs es"
  shows "same bs es ts u s m \<Longrightarrow> rel_parse (parsed_as bs es m) (ref_line n ts u) (parseline n bs es s m)"
    and "same bs es ts u s m \<Longrightarrow> rel_parse (parsed_as bs es m) (ref_pipe n ts u) (parsepipe n bs es s m)"
    and "same bs es ts u s m \<Longrightarrow> rel_parse (parsed_as bs es m) (ref_exec n ts u) (parseexec n bs es s m)"
    and "same bs es ts u s m \<Longrightarrow> rel_parse (parsed_as bs es m) (ref_block n ts u) (parseblock n bs es s m)"
proof (induction n arbitrary: ts u s m)
  case (Suc n)
  {
    case 1
    show ?case unfolding ref_line.simps parseline.simps listcmd_def
    proof (rule rel_pbind [OF Suc(2) [OF 1]], clarify)
      fix c ts1 u1 p s1 m1
      assume a: "parsed_as bs es m (c, ts1, u1) (p, s1, m1)"
      show "rel_parse (parsed_as bs es m)
        (pbind (ref_backs c ts1 u1) (\<lambda>(c, ts, u). if starts '';'' ts
           then pbind (ref_line n (tl ts) u) (\<lambda>(r, ts, u). pbind (take_mem 24 u) (\<lambda>u. Parsed (Lst c r, ts, u))) else Parsed (c, ts, u)))
        (pbind (parse_backs bs es p s1 m1) (\<lambda>(cmd, s, m). case peek bs es '';'' s of (s, b) \<Rightarrow> if b then
           (case gettoken bs es s of (_, _, _, s) \<Rightarrow> pbind (parseline n bs es s m) (\<lambda>(right, s, m). pbind (new_cmd (LIST cmd right) m) (\<lambda>(cmd, m). Parsed (cmd, s, m))))
           else Parsed (cmd, s, m)))"
      proof (rule rel_pbind [OF parse_backs_sim [OF l, of ts1 u1 s1 m1 m p c]], goal_cases)
        case (4 x y)
        then show ?case
          by (cases x; cases y; clarify; intro right_sim [OF l _ _ _ _ Suc(1)]) (simp_all add: parsed_as_def symbols_def)
      qed (use a in \<open>simp_all add: parsed_as_def\<close>)
    qed
  next
    case 2
    show ?case unfolding ref_pipe.simps parsepipe.simps pipecmd_def
      by (rule rel_pbind [OF Suc(3) [OF 2]], clarify, intro right_sim [OF l _ _ _ _ Suc(2)])
        (simp_all add: parsed_as_def symbols_def)
  next
    case 3
    obtain s1 b where pk: "peek bs es ''('' s = (s1, b)" by fastforce
    have s1: "same bs es ts u s1 m" "b = starts ''('' ts" using peek_same [OF l 3 pk] by (simp_all add: symbols_def)
    show ?case using Suc(4) [OF s1(1)] parseexec_simple_sim [OF l s1(1)] pk s1(2) by simp
  next
    case 4
    show ?case unfolding ref_block.simps parseblock.simps by (rule parseblock_sim [OF l 4 Suc(1)])
  }
qed simp_all

section \<open>The reference parser is total\<close>

definition mem_out :: string where
  "mem_out = ''malloc1: memory used out'' @ [CHR 0x0A]"

fun valid_cmd :: "cmd \<Rightarrow> bool" where
  "valid_cmd (Exec ws) \<longleftrightarrow> list_all good_word ws \<and> length ws < MAXARGS"
| "valid_cmd (Redir c w mode fd) \<longleftrightarrow> valid_cmd c \<and> good_word w \<and> (mode, fd) \<in> {(O_RDONLY, 0), (O_WRONLY OR O_CREAT, 1)}"
| "valid_cmd (Pipe l r) \<longleftrightarrow> valid_cmd l \<and> valid_cmd r"
| "valid_cmd (Lst l r) \<longleftrightarrow> valid_cmd l \<and> valid_cmd r"
| "valid_cmd (Back c) \<longleftrightarrow> valid_cmd c"

text \<open>A parse that ends, in a result with \<open>P\<close> or in an error; memory runs out only beyond \<open>k\<close> bytes.\<close>

fun ends_with :: "nat \<Rightarrow> ('a \<Rightarrow> bool) \<Rightarrow> 'a parse \<Rightarrow> bool" where
  "ends_with k P (Parsed x) = P x"
| "ends_with k P (Exit1 msg) = (msg = mem_out \<longrightarrow> MAXN < k)"
| "ends_with k P Crash = False"
| "ends_with k P OutOfFuel = False"

lemma ends_with_pbind:
  "\<lbrakk>ends_with k P m; k \<le> l; \<And>x. \<lbrakk>m = Parsed x; P x\<rbrakk> \<Longrightarrow> ends_with l Q (f x)\<rbrakk> \<Longrightarrow> ends_with l Q (pbind m f)"
  by (cases m) auto

lemma ends_with_take_mem: "u + b \<le> k \<Longrightarrow> ends_with k (\<lambda>v. v = u + b) (take_mem b u)"
  by (auto simp: take_mem_def)

lemma ends_with_PANIC: "msg \<in> {''syntax'', ''too many args'', ''missing file for redirection'', ''parseblock'', ''syntax - missing )''} \<Longrightarrow> ends_with k P (PANIC msg)"
  by (auto simp: PANIC_def mem_out_def)

definition budget :: "string tok list \<Rightarrow> nat \<Rightarrow> nat" where
  "budget ts u = 192 * length ts + u"

definition good_redir :: "redir \<Rightarrow> bool" where
  "good_redir = (\<lambda>(w, r). good_word w \<and> r \<in> {(O_RDONLY, 0), (O_WRONLY OR O_CREAT, 1)})"

definition leaves :: "string tok list \<Rightarrow> nat \<Rightarrow> string tok list \<Rightarrow> nat \<Rightarrow> bool" where
  "leaves ts b ts' u' \<longleftrightarrow> list_all good_tok ts' \<and> length ts' \<le> length ts \<and> budget ts' u' \<le> b"

lemma ref_redirs_total:
  "list_all good_tok ts \<Longrightarrow>
   ends_with (budget ts u) (\<lambda>(rs, ts', u'). list_all good_redir rs \<and> leaves ts (budget ts u) ts' u') (ref_redirs ts u)"
proof (induction ts u rule: ref_redirs.induct)
  case (1 c ts u)
  show ?case
  proof (cases "c \<in> set ''<>+'' \<and> (\<exists>w ts'. ts = Word w # ts')")
    case True
    then obtain w ts' where c: "c \<in> set ''<>+''" and ts: "ts = Word w # ts'" by blast
    have g: "list_all good_tok ts'" "good_redir (w, redir_mode c)" using 1(2) ts by (simp_all add: good_redir_def redir_mode_def)
    have b: "budget ts' (u + 40) \<le> budget (Sym c # ts) u" by (simp add: budget_def ts)
    have *: "ends_with (budget (Sym c # ts) u) (\<lambda>(rs, ts', u'). list_all good_redir rs \<and> leaves (Sym c # ts) (budget (Sym c # ts) u) ts' u')
          (pbind (ref_redirs ts' v) (\<lambda>(rs, ts, u). Parsed ((w, redir_mode c) # rs, ts, u)))"
      if "take_mem 40 u = Parsed v" "v = u + 40" for v
      by (rule ends_with_pbind [OF 1(1) [OF c ts refl that(1) g(1)]]) (use b g(2) ts that(2) in \<open>auto simp: leaves_def\<close>)
    have "u + 40 \<le> budget (Sym c # ts) u" by (simp add: budget_def)
    from ends_with_pbind [OF ends_with_take_mem [OF this] order_refl *]
    show ?thesis using c ts by simp
  next
    case False
    then show ?thesis using 1(2) by (auto simp: ends_with_PANIC leaves_def split: list.splits tok.splits)
  qed
qed (simp_all add: leaves_def)

lemma ref_args_total:
  "\<lbrakk>list_all good_tok ts; list_all good_word ws; list_all good_redir rs; length ws < MAXARGS\<rbrakk> \<Longrightarrow>
   ends_with (budget ts u) (\<lambda>(ws, rs, ts', u'). list_all good_word ws \<and> length ws < MAXARGS \<and> list_all good_redir rs \<and> leaves ts (budget ts u) ts' u')
     (ref_args ws rs ts u)"
proof (induction ws rs ts u rule: ref_args.induct)
  case (1 ws rs ts u)
  show ?case
  proof (cases "\<exists>w ts'. ts = Word w # ts' \<and> length ws + 1 < MAXARGS")
    case True
    then obtain w ts' where ts: "ts = Word w # ts'" and l: "length ws + 1 < MAXARGS" by blast
    have g: "list_all good_tok ts'" "list_all good_word (ws @ [w])" using 1(2,3) ts by simp_all
    have b: "budget ts' u \<le> budget ts u" by (simp add: budget_def ts)
    have *: "ends_with (budget ts u) (\<lambda>(ws, rs, ts', u'). list_all good_word ws \<and> length ws < MAXARGS \<and> list_all good_redir rs \<and> leaves ts (budget ts u) ts' u')
        (case x of (rs', ts, u) \<Rightarrow> ref_args (ws @ [w]) (rs @ rs') ts u)"
      if x: "ref_redirs ts' u = Parsed x" "case x of (rs, ts2, u2) \<Rightarrow> list_all good_redir rs \<and> leaves ts' (budget ts' u) ts2 u2" for x
    proof -
      obtain rs' ts2 u2 where xx: "x = (rs', ts2, u2)" by (metis prod_cases3)
      have l2: "leaves ts' (budget ts' u) ts2 u2" "list_all good_redir rs'" using x(2) xx by simp_all
      have "ends_with (budget ts2 u2) (\<lambda>(ws, rs, ts', u'). list_all good_word ws \<and> length ws < MAXARGS \<and> list_all good_redir rs \<and> leaves ts2 (budget ts2 u2) ts' u')
          (ref_args (ws @ [w]) (rs @ rs') ts2 u2)"
        by (rule 1(1) [OF ts refl _ x(1) xx [symmetric] refl]) (use l g(2) 1(4) l2 in \<open>simp_all add: leaves_def\<close>)
      then show ?thesis using xx l2(1) b ts by (cases "ref_args (ws @ [w]) (rs @ rs') ts2 u2") (auto simp: leaves_def)
    qed
    have ref: "ref_args ws rs ts u = pbind (ref_redirs ts' u) (\<lambda>(rs', ts, u). ref_args (ws @ [w]) (rs @ rs') ts u)"
      using ts l by (simp add: ref_args.simps [of ws rs "Word w # ts'" u])
    show ?thesis unfolding ref by (rule ends_with_pbind [OF ref_redirs_total [OF g(1)] b]) (rule *)
  next
    case False
    then show ?thesis using 1(2-) by (auto simp: ref_args.simps [of ws rs ts u] ends_with_PANIC leaves_def split: list.splits tok.splits)
  qed
qed

lemma ref_backs_total:
  "\<lbrakk>list_all good_tok ts; valid_cmd c\<rbrakk> \<Longrightarrow>
   ends_with (budget ts u) (\<lambda>(c, ts', u'). valid_cmd c \<and> leaves ts (budget ts u) ts' u') (ref_backs c ts u)"
proof (induction c ts u rule: ref_backs.induct)
  case (1 c x ts u)
  have "ends_with (budget (Sym x # ts) u) (\<lambda>(c, ts', u'). valid_cmd c \<and> leaves (Sym x # ts) (budget (Sym x # ts) u) ts' u') (ref_backs (Back c) ts v)"
    if "x = CHR ''&''" "take_mem 16 u = Parsed v" "v = u + 16" for v
    using 1(1) [OF that(1,2)] 1(2,3) that(3) by (cases "ref_backs (Back c) ts v") (auto simp: leaves_def budget_def)
  then show ?case using 1(2,3)
    by (cases "x = CHR ''&''")
      (auto intro!: ends_with_pbind [OF ends_with_take_mem [of u 16] order_refl] simp: leaves_def budget_def)
qed (simp_all add: leaves_def)

lemma valid_redirs: "\<lbrakk>valid_cmd c; list_all good_redir rs\<rbrakk> \<Longrightarrow> valid_cmd (foldl add_redir c rs)"
  by (induction rs arbitrary: c) (auto simp: add_redir_def good_redir_def)

definition total :: "string tok list \<Rightarrow> nat \<Rightarrow> (cmd \<times> string tok list \<times> nat) parse \<Rightarrow> bool" where
  "total ts b r \<longleftrightarrow> ends_with b (\<lambda>(c, ts', u'). valid_cmd c \<and> leaves ts b ts' u') r"

lemma total_pbind:
  assumes "total ts b m" "b \<le> b'" "\<And>c ts1 u1. \<lbrakk>valid_cmd c; leaves ts b ts1 u1\<rbrakk> \<Longrightarrow> ends_with b' Q (f c ts1 u1)"
  shows "ends_with b' Q (pbind m (\<lambda>(c, ts, u). f c ts u))"
  by (rule ends_with_pbind [OF assms(1) [unfolded total_def] assms(2)]) (use assms(3) in auto)

lemma starts_nonempty: "starts cs ts \<Longrightarrow> ts = hd ts # tl ts"
  by (cases ts) (simp_all add: starts_def)

lemma leaves_tl: "leaves ts b ts1 u1 \<Longrightarrow> leaves ts b (tl ts1) u1"
  by (cases ts1) (simp_all add: leaves_def budget_def)

lemma leaves_mono: "\<lbrakk>leaves ts1 b1 ts2 u2; length ts1 \<le> length ts; b1 \<le> b\<rbrakk> \<Longrightarrow> leaves ts b ts2 u2"
  by (simp add: leaves_def)

lemma budget_tl: "budget (tl ts) u \<le> budget ts u"
  by (simp add: budget_def)

lemma right_total:
  assumes c: "valid_cmd c" "leaves ts0 b ts u"
    and IH: "starts [x] ts \<Longrightarrow> total (tl ts) (budget (tl ts) u + 168) (R (tl ts) u)"
    and C: "\<And>r. valid_cmd r \<Longrightarrow> valid_cmd (C c r)"
  shows "total ts0 b
     (if starts [x] ts then pbind (R (tl ts) u) (\<lambda>(r, ts, u). pbind (take_mem 24 u) (\<lambda>u. Parsed (C c r, ts, u))) else Parsed (c, ts, u))"
proof (cases "starts [x] ts")
  case True
  have le: "budget (tl ts) u + 168 + 24 \<le> b" "length (tl ts) \<le> length ts0"
    using c(2) starts_nonempty [OF True] by (cases ts; simp add: leaves_def budget_def)+
  have "ends_with b (\<lambda>(c, ts', u'). valid_cmd c \<and> leaves ts0 b ts' u')
      (pbind (R (tl ts) u) (\<lambda>(r, ts, u). pbind (take_mem 24 u) (\<lambda>u. Parsed (C c r, ts, u))))"
  proof (rule total_pbind [OF IH [OF True]])
    show "budget (tl ts) u + 168 \<le> b" using le(1) by simp
    fix r ts' u'
    assume r: "valid_cmd r" "leaves (tl ts) (budget (tl ts) u + 168) ts' u'"
    have u: "u' + 24 \<le> b" "budget ts' (u' + 24) \<le> b" using r(2) le(1) by (simp_all add: leaves_def budget_def)
    show "ends_with b (\<lambda>(c, ts', u'). valid_cmd c \<and> leaves ts0 b ts' u') (pbind (take_mem 24 u') (\<lambda>u. Parsed (C c r, ts', u)))"
      by (rule ends_with_pbind [OF ends_with_take_mem [OF u(1)] order_refl]) (use r u le(2) C in \<open>auto simp: leaves_def\<close>)
  qed
  then show ?thesis using True by (simp add: total_def)
next
  case False
  then show ?thesis using c by (simp add: total_def)
qed

lemma simple_total:
  assumes g: "list_all good_tok ts"
  shows "total ts (budget ts u + 168) (pbind (take_mem 168 u) (\<lambda>u. pbind (ref_redirs ts u) (\<lambda>(rs, ts, u).
     pbind (ref_args [] rs ts u) (\<lambda>(ws, rs, ts, u). Parsed (foldl add_redir (Exec ws) rs, ts, u)))))"
proof -
  let ?b = "budget ts u + 168"
  have b: "budget ts (u + 168) = ?b" by (simp add: budget_def)
  have args: "ends_with ?b (\<lambda>(c, ts', u'). valid_cmd c \<and> leaves ts ?b ts' u')
      (pbind (ref_args [] rs ts1 u1) (\<lambda>(ws, rs, ts, u). Parsed (foldl add_redir (Exec ws) rs, ts, u)))"
    if r: "list_all good_redir rs" "leaves ts ?b ts1 u1" for rs ts1 u1
  proof -
    have t: "list_all good_tok ts1" "budget ts1 u1 \<le> ?b" "length ts1 \<le> length ts" using r(2) by (simp_all add: leaves_def)
    show ?thesis
      by (rule ends_with_pbind [OF ref_args_total [OF t(1) _ r(1)] t(2)]) (use t in \<open>auto simp: valid_redirs leaves_def MAXARGS_def\<close>)
  qed
  have redirs: "ends_with ?b (\<lambda>(c, ts', u'). valid_cmd c \<and> leaves ts ?b ts' u')
      (pbind (ref_redirs ts v) (\<lambda>(rs, ts, u). pbind (ref_args [] rs ts u) (\<lambda>(ws, rs, ts, u). Parsed (foldl add_redir (Exec ws) rs, ts, u))))"
    if "v = u + 168" for v
    by (rule ends_with_pbind [OF ref_redirs_total [OF g, of v]]) (use args that b in auto)
  show ?thesis unfolding total_def
    by (rule ends_with_pbind [OF ends_with_take_mem [of u 168 ?b] order_refl]) (use redirs in \<open>simp_all add: budget_def\<close>)
qed

lemma block_total:
  assumes g: "list_all good_tok ts" and IH: "starts ''('' ts \<Longrightarrow> total (tl ts) (budget (tl ts) u + 168) (R (tl ts) u)"
  shows "total ts (budget ts u + 168)
     (if \<not> starts ''('' ts then PANIC ''parseblock''
      else pbind (R (tl ts) u) (\<lambda>(c, ts, u).
          if \<not> starts '')'' ts then PANIC ''syntax - missing )''
          else pbind (ref_redirs (tl ts) u) (\<lambda>(rs, ts, u). Parsed (foldl add_redir c rs, ts, u))))"
proof (cases "starts ''('' ts")
  case True
  let ?b = "budget ts u + 168"
  have le: "budget (tl ts) u + 168 \<le> ?b" "length (tl ts) \<le> length ts" using budget_tl [of ts u] by simp_all
  have text_at: "ends_with ?b (\<lambda>(c, ts', u'). valid_cmd c \<and> leaves ts ?b ts' u')
      (if \<not> starts '')'' ts1 then PANIC ''syntax - missing )'' else pbind (ref_redirs (tl ts1) u1) (\<lambda>(rs, ts, u). Parsed (foldl add_redir c rs, ts, u)))"
    if c: "valid_cmd c" "leaves (tl ts) (budget (tl ts) u + 168) ts1 u1" for c ts1 u1
  proof -
    have t: "list_all good_tok (tl ts1)" "budget (tl ts1) u1 \<le> ?b" "length (tl ts1) \<le> length ts"
      using leaves_tl [OF leaves_mono [OF c(2) le(2,1)]] by (simp_all only: leaves_def)
    have "ends_with ?b (\<lambda>(c, ts', u'). valid_cmd c \<and> leaves ts ?b ts' u') (pbind (ref_redirs (tl ts1) u1) (\<lambda>(rs, ts, u). Parsed (foldl add_redir c rs, ts, u)))"
      by (rule ends_with_pbind [OF ref_redirs_total [OF t(1)] t(2)]) (use c(1) in \<open>auto simp: valid_redirs intro: leaves_mono [OF _ t(3,2)]\<close>)
    then show ?thesis by (simp add: ends_with_PANIC)
  qed
  have "total ts ?b (pbind (R (tl ts) u) (\<lambda>(c, ts, u). if \<not> starts '')'' ts then PANIC ''syntax - missing )''
      else pbind (ref_redirs (tl ts) u) (\<lambda>(rs, ts, u). Parsed (foldl add_redir c rs, ts, u))))"
    unfolding total_def by (rule total_pbind [OF IH [OF True] le(1)]) (rule text_at)
  then show ?thesis using True by (simp only: simp_thms if_False)
qed (simp add: total_def ends_with_PANIC)

theorem grammar_total:
  assumes "list_all good_tok ts"
  shows "4 * length ts + 4 \<le> n \<Longrightarrow> total ts (budget ts u + 168) (ref_line n ts u)"
    and "4 * length ts + 3 \<le> n \<Longrightarrow> total ts (budget ts u + 168) (ref_pipe n ts u)"
    and "4 * length ts + 2 \<le> n \<Longrightarrow> total ts (budget ts u + 168) (ref_exec n ts u)"
    and "4 * length ts + 1 \<le> n \<Longrightarrow> total ts (budget ts u + 168) (ref_block n ts u)"
  using assms
proof (induction n arbitrary: ts u)
  case (Suc n)
  have fuel: "4 * length (tl ts2) + 4 \<le> 4 * length ts \<and> list_all good_tok (tl ts2)"
    if "starts cs ts2" "list_all good_tok ts2" "length ts2 \<le> length ts" for cs and ts ts2 :: "string tok list"
    using starts_nonempty [OF that(1)] that(2,3) by (cases ts2) simp_all
  {
    case 1
    let ?b = "budget ts u + 168"
    have line: "total ts ?b (if starts '';'' ts2 then pbind (ref_line n (tl ts2) u2) (\<lambda>(r, ts, u). pbind (take_mem 24 u) (\<lambda>u. Parsed (Lst c r, ts, u)))
        else Parsed (c, ts2, u2))" if c: "valid_cmd c" "leaves ts ?b ts2 u2" for c ts2 u2
      by (rule right_total [OF c], rule Suc(1)) (use c 1(1) fuel [of "'';''" ts2 ts] in \<open>auto simp: leaves_def\<close>)
    have backs: "ends_with ?b (\<lambda>(c, ts', u'). valid_cmd c \<and> leaves ts ?b ts' u') (pbind (ref_backs c ts1 u1) (\<lambda>(c, ts, u). if starts '';'' ts
        then pbind (ref_line n (tl ts) u) (\<lambda>(r, ts, u). pbind (take_mem 24 u) (\<lambda>u. Parsed (Lst c r, ts, u))) else Parsed (c, ts, u)))"
      if c: "valid_cmd c" "leaves ts ?b ts1 u1" for c ts1 u1
    proof (rule total_pbind)
      show "total ts1 (budget ts1 u1) (ref_backs c ts1 u1)" using ref_backs_total c by (simp add: total_def leaves_def)
    qed (use c line in \<open>auto simp: leaves_def total_def\<close>)
    have "total ts ?b (ref_pipe n ts u)" using 1 Suc(2) by simp
    then show ?case unfolding ref_line.simps total_def [of _ _ "pbind _ _"] by (rule total_pbind [OF _ order_refl]) (rule backs)
  next
    case 2
    let ?b = "budget ts u + 168"
    have "total ts ?b (ref_exec n ts u)" using 2 Suc(3) by simp
    moreover have "total ts ?b (if starts ''|'' ts2 then pbind (ref_pipe n (tl ts2) u2) (\<lambda>(r, ts, u). pbind (take_mem 24 u) (\<lambda>u. Parsed (Pipe c r, ts, u)))
        else Parsed (c, ts2, u2))" if c: "valid_cmd c" "leaves ts ?b ts2 u2" for c ts2 u2
      by (rule right_total [OF c], rule Suc(2)) (use c 2(1) fuel [of "''|''" ts2 ts] in \<open>auto simp: leaves_def\<close>)
    ultimately show ?case unfolding ref_pipe.simps total_def [of _ _ "pbind _ _"]
      by (intro total_pbind [OF _ order_refl]) (simp_all only: total_def)
  next
    case 3
    show ?case using Suc(4) [of ts u] simple_total [of ts u] 3 by simp
  next
    case 4
    show ?case unfolding ref_block.simps
      by (rule block_total [OF 4(2)], rule Suc(1)) (use 4 fuel [of "''(''" ts ts] in auto)
  }
qed simp_all

lemma lexer_good: "list_all good_tok (lexer xs)"
proof (induction xs rule: lexer.induct)
  case (1 xs)
  show ?case
  proof (cases "dropWhile spacechar xs")
    case Nil
    show ?thesis using lexer_none [OF Nil] by simp
  next
    case (Cons c cs)
    have "\<forall>x\<in>set (takeWhile wordchar cs). wordchar x" using set_takeWhileD by fastforce
    moreover have "c \<in> set ''<|>&;()+''" if "\<not> wordchar c"
      using not_word_symbol [OF hd_dropWhile_not [OF Cons] that] by auto
    ultimately show ?thesis using 1 [OF Cons]
      by (cases "wordchar c") (auto simp: lexer_word [OF Cons] lexer_sym [OF Cons] good_word_def list_all_iff)
  qed
qed

section \<open>Terminated strings\<close>

definition zeros :: "nat list \<Rightarrow> string \<Rightarrow> string" where
  "zeros E bs = fold (\<lambda>e bs. bs[e := CHR 0x00]) E bs"

lemma zeros_simps [simp]: "zeros [] bs = bs" "zeros (e # E) bs = zeros E (bs[e := CHR 0x00])" "zeros (E @ F) bs = zeros F (zeros E bs)"
  by (simp_all add: zeros_def)

lemma length_zeros [simp]: "length (zeros E bs) = length bs"
  by (induction E arbitrary: bs) simp_all

lemma nth_zeros: "i < length bs \<Longrightarrow> zeros E bs ! i = (if i \<in> set E then CHR 0x00 else bs ! i)"
  by (induction E arbitrary: bs) (simp_all add: nth_list_update)

lemma nul_args_slots:
  "length ps \<le> k \<Longrightarrow> nul_args (map Some (map fst ps) @ replicate (Suc k - length ps) None) (map Some (map snd ps) @ replicate (Suc k - length ps) None) bs
     = Some (zeros (map snd ps) bs)"
proof (induction ps arbitrary: bs k)
  case (Cons p ps)
  then show ?case by (cases k) simp_all
qed simp

lemma rep_weaken:
  assumes "rep W N p c" "\<And>x w. W x w \<Longrightarrow> V x w"
  shows "rep V N p c"
  using assms(1)
proof (induction c arbitrary: p)
  case (Exec ws)
  then show ?case using list_all2_mono [of W _ ws V] assms(2) by (auto simp: exec_at_def)
next
  case (Redir c w mode fd)
  then show ?case using assms(2) by (auto simp: redir_at_def)
qed auto

lemma both_ends:
  assumes l: "\<exists>E. (\<forall>bs. nulterminate N a bs = Some (zeros E bs)) \<and> (\<forall>e\<in>set E. \<exists>q w. W (q, e) w) \<and> rep (\<lambda>x w. W x w \<and> snd x \<in> set E) N a l"
    and r: "\<exists>E. (\<forall>bs. nulterminate N b bs = Some (zeros E bs)) \<and> (\<forall>e\<in>set E. \<exists>q w. W (q, e) w) \<and> rep (\<lambda>x w. W x w \<and> snd x \<in> set E) N b r"
    and f: "\<And>bs. f bs = Option.bind (nulterminate N a bs) (\<lambda>bs. nulterminate N b bs)"
  shows "\<exists>E. (\<forall>bs. f bs = Some (zeros E bs)) \<and> (\<forall>e\<in>set E. \<exists>q w. W (q, e) w) \<and>
    rep (\<lambda>x w. W x w \<and> snd x \<in> set E) N a l \<and> rep (\<lambda>x w. W x w \<and> snd x \<in> set E) N b r"
proof -
  obtain E where E: "\<forall>bs. nulterminate N a bs = Some (zeros E bs)" "\<forall>e\<in>set E. \<exists>q w. W (q, e) w" "rep (\<lambda>x w. W x w \<and> snd x \<in> set E) N a l"
    using l by blast
  obtain F where F: "\<forall>bs. nulterminate N b bs = Some (zeros F bs)" "\<forall>e\<in>set F. \<exists>q w. W (q, e) w" "rep (\<lambda>x w. W x w \<and> snd x \<in> set F) N b r"
    using r by blast
  have "\<forall>bs. f bs = Some (zeros (E @ F) bs)" using f E(1) F(1) by simp
  moreover have "rep (\<lambda>x w. W x w \<and> snd x \<in> set (E @ F)) N a l" "rep (\<lambda>x w. W x w \<and> snd x \<in> set (E @ F)) N b r"
    by (rule rep_weaken [OF E(3)], simp) (rule rep_weaken [OF F(3)], simp)
  moreover have "\<forall>e\<in>set (E @ F). \<exists>q w. W (q, e) w" using E(2) F(2) by auto
  ultimately show ?thesis by blast
qed

lemma nulterminate_rep:
  assumes "rep W N p c"
  shows "\<exists>E. (\<forall>bs. nulterminate N p bs = Some (zeros E bs)) \<and> (\<forall>e\<in>set E. \<exists>q w. W (q, e) w) \<and> rep (\<lambda>x w. W x w \<and> snd x \<in> set E) N p c"
  using assms
proof (induction c arbitrary: p)
  case (Exec ws)
  then obtain ps where ps: "N p = Some (EXEC (arg_slots (map fst ps)) (arg_slots (map snd ps)))" "list_all2 W ps ws" "length ws < MAXARGS"
    by (auto simp: exec_at_def)
  have l: "length ps = length ws" using ps(2) by (rule list_all2_lengthD)
  have "nulterminate N p bs = Some (zeros (map snd ps) bs)" for bs
    using ps(1,3) l nul_args_slots [of ps 9 bs] by (simp add: nulterminate.simps [of N p] arg_slots_def MAXARGS_def)
  moreover have "\<exists>q w. W (q, e) w" if e: "e \<in> set (map snd ps)" for e
    using e ps(2) by (auto simp: list_all2_conv_all_nth in_set_conv_nth) (metis prod.collapse)
  moreover have "list_all2 (\<lambda>x w. W x w \<and> snd x \<in> set (map snd ps)) ps ws"
    using ps(2) by (simp add: list_all2_conv_all_nth)
  then have "rep (\<lambda>x w. W x w \<and> snd x \<in> set (map snd ps)) N p (Exec ws)" using ps(1,3) by (auto simp: exec_at_def)
  ultimately show ?case by blast
next
  case (Redir c w mode fd)
  then obtain q e p1 where r: "N p = Some (REDIR p1 q e mode fd)" "W (q, e) w" "rep W N p1 c" by (auto simp: redir_at_def)
  obtain E where E: "\<forall>bs. nulterminate N p1 bs = Some (zeros E bs)" "\<forall>e\<in>set E. \<exists>q w. W (q, e) w"
    "rep (\<lambda>x w. W x w \<and> snd x \<in> set E) N p1 c" using Redir(1) [OF r(3)] by blast
  have "nulterminate N p bs = Some (zeros (E @ [e]) bs)" for bs using r(1) E(1) by (simp add: nulterminate.simps [of N p])
  moreover have "rep (\<lambda>x w. W x w \<and> snd x \<in> set (E @ [e])) N p (Redir c w mode fd)"
    using r rep_weaken [OF E(3), of "\<lambda>x w. W x w \<and> snd x \<in> set (E @ [e])"] by (auto simp: redir_at_def)
  moreover have "\<forall>e\<in>set (E @ [e]). \<exists>q w. W (q, e) w" using E(2) r(2) by auto
  ultimately show ?case by blast
next
  case (Pipe l r)
  then obtain a b where n: "N p = Some (PIPE a b)" "rep W N a l" "rep W N b r" by auto
  have "nulterminate N p bs = Option.bind (nulterminate N a bs) (\<lambda>bs. nulterminate N b bs)" for bs
    by (simp add: nulterminate.simps [of N p] n(1))
  from both_ends [OF Pipe(1) [OF n(2)] Pipe(2) [OF n(3)] this] show ?case using n(1) by auto
next
  case (Lst l r)
  then obtain a b where n: "N p = Some (LIST a b)" "rep W N a l" "rep W N b r" by auto
  have "nulterminate N p bs = Option.bind (nulterminate N a bs) (\<lambda>bs. nulterminate N b bs)" for bs
    by (simp add: nulterminate.simps [of N p] n(1))
  from both_ends [OF Lst(1) [OF n(2)] Lst(2) [OF n(3)] this] show ?case using n(1) by auto
next
  case (Back c)
  then obtain a where a: "N p = Some (BACK a)" "rep W N a c" by auto
  then show ?case using Back(1) [OF a(2)] by (simp add: nulterminate.simps [of N p])
qed

lemma word_terminated:
  assumes w: "word_at bs es (q, e) w" and le: "line_end bs es" and E: "e \<in> set E" "\<forall>e\<in>set E. \<not> wordchar (deref bs e)"
  shows "cstring (zeros E bs) q = w"
proof -
  have e: "q < e" "e \<le> es" "w = take (e - q) (text_at bs es q)" "\<forall>c\<in>set w. wordchar c" using w by (simp_all add: word_at_def)
  have l: "es \<le> length bs" using le by (simp add: line_end_def)
  have wl: "length w = e - q" using e l by (simp add: text_at_def)
  have nth: "w ! i = bs ! (q + i)" if "i < e - q" for i using that e l by (simp add: text_at_def)
  have "take (e - q) (drop q (zeros E bs)) = w"
  proof (rule nth_equalityI)
    show "length (take (e - q) (drop q (zeros E bs))) = length w" using wl e l by simp
    fix i
    assume "i < length (take (e - q) (drop q (zeros E bs)))"
    then have i: "i < e - q" "q + i < length bs" using e l by auto
    have "wordchar (deref bs (q + i))" using nth [OF i(1)] e(4) nth_mem [of i w] i wl by (simp add: deref_def)
    then have "q + i \<notin> set E" using E(2) by auto
    then show "take (e - q) (drop q (zeros E bs)) ! i = w ! i" using i nth [OF i(1)] nth_zeros [OF i(2)] by simp
  qed
  then have d: "drop q (zeros E bs) = w @ drop e (zeros E bs)"
    using e(1) append_take_drop_id [of "e - q" "drop q (zeros E bs)"] by (simp add: add.commute)
  have "takeWhile (\<lambda>c. c \<noteq> CHR 0x00) (drop e (zeros E bs)) = []"
  proof (cases "e < length bs")
    case True
    then show ?thesis using E(1) nth_zeros [OF True, of E] by (simp add: Cons_nth_drop_Suc [symmetric])
  qed simp
  moreover have "\<forall>c\<in>set w. c \<noteq> CHR 0x00" using e(4) by (auto simp: wordchar_def strchr_def)
  ultimately show ?thesis by (simp add: cstring_def d takeWhile_append2)
qed

lemma takeWhile_slots: "takeWhile (\<lambda>q. q \<noteq> None) (arg_slots qs) = map Some qs"
proof -
  have "takeWhile (\<lambda>q. q \<noteq> None) (map Some qs @ replicate n None) = map Some qs" for n
    by (induction qs) (cases n; simp)+
  then show ?thesis by (simp add: arg_slots_def)
qed

lemma cmd_of_rep:
  assumes "rep W N p c" "\<And>q e w. W (q, e) w \<Longrightarrow> cstring bs q = w"
  shows "cmd_of N bs p = Some c"
  using assms(1)
proof (induction c arbitrary: p)
  case (Exec ws)
  then obtain ps where ps: "N p = Some (EXEC (arg_slots (map fst ps)) (arg_slots (map snd ps)))" "list_all2 W ps ws" "length ws < MAXARGS"
    by (auto simp: exec_at_def)
  have l: "length ps = length ws" using ps(2) by (rule list_all2_lengthD)
  have "takeWhile (\<lambda>q. q \<noteq> None) (arg_slots (map fst ps)) = map Some (map fst ps)" by (rule takeWhile_slots)
  moreover have "map (\<lambda>q. cstring bs (fst q)) ps = ws"
  proof (rule nth_equalityI)
    fix i
    assume "i < length (map (\<lambda>q. cstring bs (fst q)) ps)"
    then show "map (\<lambda>q. cstring bs (fst q)) ps ! i = ws ! i"
      using ps(2) assms(2) [of "fst (ps ! i)" "snd (ps ! i)" "ws ! i"] by (simp add: list_all2_conv_all_nth)
  qed (simp add: l)
  ultimately show ?case using ps(1) by (simp add: cmd_of.simps [of N bs p] arg_strings_def comp_def)
next
  case (Redir c w mode fd)
  then show ?case using assms(2) by (auto simp: redir_at_def cmd_of.simps [of N bs p])
next
  case (Pipe l r)
  then show ?case by (auto simp: cmd_of.simps [of N bs p])
next
  case (Lst l r)
  then show ?case by (auto simp: cmd_of.simps [of N bs p])
next
  case (Back c)
  then show ?case by (auto simp: cmd_of.simps [of N bs p])
qed

section \<open>The parser against its reference\<close>

text \<open>The line in the buffer, and what \<open>parsecmd\<close> makes of it.\<close>

definition line_of :: "string \<Rightarrow> string" where
  "line_of bs = takeWhile (\<lambda>c. c \<noteq> CHR 0x00) bs"

definition ref_parse :: "string \<Rightarrow> (cmd \<times> string tok list \<times> nat) parse" where
  "ref_parse line = ref_line (parse_fuel (length line)) (lexer line) 0"

lemma rest_start: "text_at bs (cstrlen bs) 0 = line_of bs"
  by (simp add: text_at_def cstrlen_def line_of_def takeWhile_eq_take [symmetric])

lemma ref_parse_total: "total (lexer line) (192 * length (lexer line) + 168) (ref_parse line)"
  using grammar_total(1) [OF lexer_good, of line "parse_fuel (length line)" 0] lex_length [of line]
  by (simp add: ref_parse_def parse_fuel_def budget_def)

lemma rest_text:
  assumes "line_end bs es" "s \<le> es"
  shows "takeWhile (\<lambda>c. c \<noteq> CHR 0x00) (drop s bs) = text_at bs es s"
proof -
  have l: "es \<le> length bs" using assms(1) by (simp add: line_end_def)
  have "drop s bs = text_at bs es s @ drop es bs"
    using assms(2) append_take_drop_id [of "es - s" "drop s bs"] by (simp add: text_at_def drop_take add.commute)
  moreover have "\<forall>c\<in>set (text_at bs es s). c \<noteq> CHR 0x00"
    using assms l by (auto simp: text_at_def line_end_def deref_def in_set_conv_nth)
  moreover have "takeWhile (\<lambda>c. c \<noteq> CHR 0x00) (drop es bs) = []"
    using assms(1) by (cases "es < length bs") (simp_all add: line_end_def deref_def Cons_nth_drop_Suc [symmetric])
  ultimately show ?thesis by (simp add: takeWhile_append2)
qed

lemma terminated_cmd:
  assumes l: "line_end bs es" and r: "rep (word_at bs es) N p c"
  shows "\<exists>bs'. nulterminate N p bs = Some bs' \<and> cmd_of N bs' p = Some c"
proof -
  obtain E where E: "nulterminate N p bs = Some (zeros E bs)" "\<forall>e\<in>set E. \<exists>q w. word_at bs es (q, e) w"
    "rep (\<lambda>x w. word_at bs es x w \<and> snd x \<in> set E) N p c" using nulterminate_rep [OF r] by blast
  have "\<forall>e\<in>set E. \<not> wordchar (deref bs e)" using E(2) by (auto simp: word_at_def)
  then have "cmd_of N (zeros E bs) p = Some c"
    using word_terminated [OF _ l] by (intro cmd_of_rep [OF E(3)]) auto
  then show ?thesis using E(1) by blast
qed

lemma lexer_nonempty: "lexer xs = [] \<Longrightarrow> dropWhile spacechar xs = []"
proof (cases "dropWhile spacechar xs")
  case (Cons c cs)
  assume "lexer xs = []"
  then show ?thesis using lexer_word [OF Cons] lexer_sym [OF Cons] by (cases "wordchar c") (simp_all split: if_splits)
qed

lemma parsecmd_sim:
  "case ref_parse (line_of bs) of
     Parsed (c, ts, u) \<Rightarrow>
       if ts = [] then \<exists>p m bs'. parsecmd bs = Parsed (p, m, bs') \<and> cmd_of (mem_cmd m) bs' p = Some c \<and> mem_used m = u
       else \<exists>t. lexer t = ts \<and> (\<exists>t'. line_of bs = t' @ t) \<and> parsecmd bs = Exit1 (''leftovers: '' @ t @ [CHR 0x0A] @ ''syntax'' @ [CHR 0x0A])
   | Exit1 msg \<Rightarrow> parsecmd bs = Exit1 msg
   | _ \<Rightarrow> False"
proof -
  define es where "es = cstrlen bs"
  have l: "line_end bs es" by (simp add: es_def line_end_cstrlen)
  have es: "length (line_of bs) = es" by (simp add: es_def cstrlen_def line_of_def)
  have "same bs es (lexer (line_of bs)) 0 0 shmem0"
    using rest_start [of bs] by (simp add: same_def es_def store_ok_def shmem0_def)
  note sim = grammar_sim(1) [OF l this, of "parse_fuel es"]
  have code: "parsecmd bs = pbind (parseline (parse_fuel es) bs es 0 shmem0) (\<lambda>(cmd, s, m).
        case peek bs es [] s of (s, _) \<Rightarrow>
          if s \<noteq> es then Exit1 (''leftovers: '' @ takeWhile (\<lambda>c. c \<noteq> CHR 0x00) (drop s bs) @ [CHR 0x0A] @ ''syntax'' @ [CHR 0x0A])
          else case nulterminate (mem_cmd m) cmd bs of None \<Rightarrow> Crash | Some bs \<Rightarrow> Parsed (cmd, m, bs))"
    by (simp add: parsecmd_def es_def Let_def)
  have ref: "ref_parse (line_of bs) = ref_line (parse_fuel es) (lexer (line_of bs)) 0" by (simp add: ref_parse_def es)
  show ?thesis
  proof (cases "ref_parse (line_of bs)")
    case (Parsed x)
    obtain c ts u where x: "x = (c, ts, u)" by (metis prod_cases3)
    obtain p s m where y: "parseline (parse_fuel es) bs es 0 shmem0 = Parsed (p, s, m)" "parsed_as bs es shmem0 (c, ts, u) (p, s, m)"
      using sim Parsed x unfolding ref by (cases "parseline (parse_fuel es) bs es 0 shmem0") auto
    have a: "same bs es ts u s m" "rep (word_at bs es) (mem_cmd m) p c" using y(2) by (simp_all add: parsed_as_def)
    obtain s1 b where pk: "peek bs es [] s = (s1, b)" by fastforce
    have s1: "s1 \<le> es" "lexer (text_at bs es s1) = ts" using peek_lex [OF l _ _ pk] a(1) by (simp_all add: same_def)
    have e: "ts = [] \<longleftrightarrow> s1 = es"
    proof
      have "s1 = skip_space bs es s" using pk by (simp add: peek_def Let_def)
      then have r: "text_at bs es s1 = dropWhile spacechar (text_at bs es s)" using skip_space_rest [OF l] a(1) by (simp add: same_def)
      assume "ts = []"
      then have "text_at bs es s1 = []" using lexer_nonempty [of "text_at bs es s"] r a(1) by (auto simp: same_def)
      then show "s1 = es" using rest_nil_iff [OF l s1(1)] by simp
    qed (use s1 rest_end [OF l] in auto)
    have left: "takeWhile (\<lambda>c. c \<noteq> CHR 0x00) (drop s1 bs) = text_at bs es s1" by (rule rest_text [OF l s1(1)])
    have "\<exists>t'. line_of bs = t' @ text_at bs es s1" by (rule exI [of _ "take s1 (line_of bs)"]) (simp only: rest_start [symmetric] text_at_def es_def drop_0 append_take_drop_id)
    moreover have "\<exists>bs'. nulterminate (mem_cmd m) p bs = Some bs' \<and> cmd_of (mem_cmd m) bs' p = Some c"
      using terminated_cmd [OF l a(2)] .
    ultimately show ?thesis using Parsed x y(1) code pk e left s1(2) a(1) by (auto simp: same_def)
  next
    case (Exit1 msg)
    then have "parseline (parse_fuel es) bs es 0 shmem0 = Exit1 msg"
      using sim unfolding ref by (cases "parseline (parse_fuel es) bs es 0 shmem0") auto
    then show ?thesis using code Exit1 by simp
  qed (use ref_parse_total [of "line_of bs"] in \<open>simp_all add: total_def\<close>)
qed

end
