(* ===== verification/ShellPrint.thy ===== *)
theory ShellPrint
  imports ShellParse
begin

text \<open>
  Printing commands of the shell.  \<open>body\<close> writes a command as tokens, with parentheses only where the
  grammar of \<open>user/sh/main.c\<close> needs them, and \<open>print_cmd\<close> as text.  \<open>ref_parse_print\<close>: the parser gives
  back the command that was printed, whatever it is, as long as it fits the memory of \<open>malloc1\<close>.
\<close>

section \<open>Printing\<close>

fun cmd_level :: "cmd \<Rightarrow> nat" where
  "cmd_level (Exec _) = 0"
| "cmd_level (Redir _ _ _ _) = 0"
| "cmd_level (Pipe _ _) = 1"
| "cmd_level (Back _) = 2"
| "cmd_level (Lst _ _) = 3"

definition paren :: "nat \<Rightarrow> cmd \<Rightarrow> string tok list \<Rightarrow> string tok list" where
  "paren k c ts = (if cmd_level c \<le> k then ts else Sym (CHR ''('') # ts @ [Sym (CHR '')'')])"

definition redir_toks :: "redir \<Rightarrow> string tok list" where
  "redir_toks = (\<lambda>(w, mode, fd). [Sym (if fd = 0 then CHR ''<'' else CHR ''>''), Word w])"

fun body :: "cmd \<Rightarrow> string tok list" where
  "body (Exec ws) = map Word ws"
| "body (Redir c w mode fd) = paren 0 c (body c) @ redir_toks (w, mode, fd)"
| "body (Pipe l r) = paren 0 l (body l) @ Sym (CHR ''|'') # paren 1 r (body r)"
| "body (Back c) = paren 2 c (body c) @ [Sym (CHR ''&'')]"
| "body (Lst l r) = paren 2 l (body l) @ Sym (CHR '';'') # body r"

definition print_cmd :: "cmd \<Rightarrow> string" where
  "print_cmd c = unlex (body c)"

fun mem_needed :: "cmd \<Rightarrow> nat" where
  "mem_needed (Exec _) = 168"
| "mem_needed (Redir c _ _ _) = mem_needed c + 40"
| "mem_needed (Pipe l r) = mem_needed l + mem_needed r + 24"
| "mem_needed (Lst l r) = mem_needed l + mem_needed r + 24"
| "mem_needed (Back c) = mem_needed c + 16"

section \<open>Parsing what was printed\<close>

text \<open>Equal, up to running out of fuel.\<close>

definition upto :: "'a parse \<Rightarrow> 'a parse \<Rightarrow> bool" where
  "upto x y \<longleftrightarrow> x = OutOfFuel \<or> x = y"

lemma upto_pbind: "\<lbrakk>upto m (Parsed x); upto (f x) r\<rbrakk> \<Longrightarrow> upto (pbind m f) r"
  by (auto simp: upto_def)

lemma upto_refl [simp]: "upto x x" "upto OutOfFuel x"
  by (simp_all add: upto_def)

definition follow :: "string \<Rightarrow> 'w tok list \<Rightarrow> bool" where
  "follow cs ts \<longleftrightarrow> ts = [] \<or> (\<exists>c ts'. ts = Sym c # ts' \<and> c \<in> set cs)"

lemma follow_mono: "\<lbrakk>follow cs ts; set cs \<subseteq> set ds\<rbrakk> \<Longrightarrow> follow ds ts"
  by (auto simp: follow_def)

lemma follow_simps [simp]: "follow cs (Sym c # ts) \<longleftrightarrow> c \<in> set cs" "follow cs []" "\<not> follow cs (Word w # ts)"
  by (auto simp: follow_def)

lemma follow_starts: "\<lbrakk>follow cs ts; set ds \<inter> set cs = {}; CHR ''+'' \<notin> set cs\<rbrakk> \<Longrightarrow> \<not> starts ds ts"
  by (auto simp: follow_def starts_def)

lemma starts_simps [simp]: "\<not> starts cs []" "\<not> starts cs (Word w # ts)"
  "starts cs (Sym c # ts) \<longleftrightarrow> (if c = CHR ''+'' then CHR ''>'' else c) \<in> set cs"
  by (simp_all add: starts_def)

lemma take_mem_ok: "u + k \<le> MAXN \<Longrightarrow> take_mem k u = Parsed (u + k)"
  by (simp add: take_mem_def)

lemma ref_redirs_none: "\<not> starts ''<>'' ts \<Longrightarrow> ref_redirs ts u = Parsed ([], ts, u)"
  by (cases "(ts, u)" rule: ref_redirs.cases) (auto split: if_splits)

lemma ref_redirs_print:
  "\<lbrakk>list_all good_redir rs; \<not> starts ''<>'' ts; u + 40 * length rs \<le> MAXN\<rbrakk> \<Longrightarrow>
   ref_redirs (concat (map redir_toks rs) @ ts) u = Parsed (rs, ts, u + 40 * length rs)"
proof (induction rs arbitrary: u)
  case Nil
  then show ?case by (simp add: ref_redirs_none)
next
  case (Cons r rs)
  obtain w mode fd where r: "r = (w, mode, fd)" by (metis prod_cases3)
  have "redir_mode (if fd = 0 then CHR ''<'' else CHR ''>'') = (mode, fd)"
    using Cons(2) r by (auto simp: good_redir_def redir_mode_def)
  moreover have "take_mem 40 u = Parsed (u + 40)" using Cons(4) by (simp add: take_mem_ok)
  ultimately show ?case using Cons(1) [of "u + 40"] Cons(2-) r by (simp add: redir_toks_def)
qed

lemma ref_args_end: "follow ''|)&;'' ts \<Longrightarrow> ref_args ws rs ts u = Parsed (ws, rs, ts, u)"
  by (subst ref_args.simps) (auto simp: follow_def)

lemma ref_args_print:
  "\<lbrakk>list_all good_redir rs; follow ''|)&;'' ts; u + 40 * length rs \<le> MAXN; length xs + length ws + 1 < MAXARGS\<rbrakk> \<Longrightarrow>
   ref_args xs [] (Word w # map Word ws @ concat (map redir_toks rs) @ ts) u = Parsed (xs @ w # ws, rs, ts, u + 40 * length rs)"
proof (induction ws arbitrary: xs w)
  case Nil
  have "\<not> starts ''<>'' ts" by (simp add: follow_starts [OF Nil(2)])
  then show ?case using Nil ref_redirs_print [of rs ts u] ref_args_end [OF Nil(2)] by (simp add: ref_args.simps [of xs "[]" "Word w # _"])
next
  case (Cons v ws)
  then show ?case using Cons(1) [of "xs @ [w]" v] by (simp add: ref_args.simps [of xs "[]" "Word w # _"])
qed

lemma ref_exec_print:
  assumes "list_all good_redir rs" "follow ''|)&;'' ts" "u + 168 + 40 * length rs \<le> MAXN" "length ws < MAXARGS"
  shows "upto (ref_exec n (map Word ws @ concat (map redir_toks rs) @ ts) u)
    (Parsed (foldl add_redir (Exec ws) rs, ts, u + 168 + 40 * length rs))"
proof (cases n)
  case (Suc k)
  let ?ts = "map Word ws @ concat (map redir_toks rs) @ ts"
  have ns: "\<not> starts ''('' ts" "\<not> starts ''<>'' ts" by (simp_all add: follow_starts [OF assms(2)])
  then have s: "\<not> starts ''('' ?ts" by (cases ws; cases rs) (auto simp: redir_toks_def split: prod.splits)
  have m: "take_mem 168 u = Parsed (u + 168)" using assms(3) by (simp add: take_mem_ok)
  show ?thesis
  proof (cases ws)
    case Nil
    then show ?thesis using Suc s m ref_redirs_print [OF assms(1) ns(2), of "u + 168"] assms(3) ref_args_end [OF assms(2), of "[]" rs]
      by (simp add: add.assoc)
  next
    case (Cons w ws')
    have a: "ref_args [] [] ?ts (u + 168) = Parsed (ws, rs, ts, u + 168 + 40 * length rs)"
      using ref_args_print [OF assms(1,2), of "u + 168" "[]" ws' w] assms(3,4) Cons by simp
    have "ref_redirs ?ts (u + 168) = Parsed ([], ?ts, u + 168)" using Cons by (simp add: ref_redirs_none)
    then show ?thesis using Suc s m a by simp
  qed
qed simp

text \<open>A command in parentheses.\<close>

lemma ref_block_print:
  assumes line: "\<And>n ts u. \<lbrakk>follow '')'' ts; u + mem_needed c \<le> MAXN\<rbrakk> \<Longrightarrow> upto (ref_line n (body c @ ts) u) (Parsed (c, ts, u + mem_needed c))"
    and c: "list_all good_redir rs" "follow ''|)&;'' ts" "u + mem_needed c + 40 * length rs \<le> MAXN"
  shows "upto (ref_exec n (Sym (CHR ''('') # body c @ Sym (CHR '')'') # concat (map redir_toks rs) @ ts) u)
    (Parsed (foldl add_redir c rs, ts, u + mem_needed c + 40 * length rs))"
proof (cases n)
  case (Suc k)
  let ?r = "Sym (CHR '')'') # concat (map redir_toks rs) @ ts"
  have ns: "\<not> starts ''<>'' ts" by (simp add: follow_starts [OF c(2)])
  have l: "upto (ref_line j (body c @ ?r) u) (Parsed (c, ?r, u + mem_needed c))" for j
    by (rule line) (use c(3) in simp_all)
  have "upto (ref_block k (Sym (CHR ''('') # body c @ ?r) u) (Parsed (foldl add_redir c rs, ts, u + mem_needed c + 40 * length rs))"
  proof (cases k)
    case (Suc j)
    have "upto (pbind (ref_line j (body c @ ?r) u) (\<lambda>(c, ts, u). if \<not> starts '')'' ts then PANIC ''syntax - missing )''
        else pbind (ref_redirs (tl ts) u) (\<lambda>(rs, ts, u). Parsed (foldl add_redir c rs, ts, u))))
      (Parsed (foldl add_redir c rs, ts, u + mem_needed c + 40 * length rs))"
      by (rule upto_pbind [OF l]) (simp add: ref_redirs_print [OF c(1) ns c(3)])
    then show ?thesis using Suc by simp
  qed simp
  then show ?thesis using Suc by simp
qed simp

definition exec_prints :: "cmd \<Rightarrow> bool" where
  "exec_prints c \<longleftrightarrow> (\<forall>n rs ts u. list_all good_redir rs \<longrightarrow> follow ''|)&;'' ts \<longrightarrow> u + mem_needed c + 40 * length rs \<le> MAXN \<longrightarrow>
     upto (ref_exec n (paren 0 c (body c) @ concat (map redir_toks rs) @ ts) u) (Parsed (foldl add_redir c rs, ts, u + mem_needed c + 40 * length rs)))"

definition pipe_prints :: "cmd \<Rightarrow> bool" where
  "pipe_prints c \<longleftrightarrow> (\<forall>n ts u. follow '')&;'' ts \<longrightarrow> u + mem_needed c \<le> MAXN \<longrightarrow>
     upto (ref_pipe n (paren 1 c (body c) @ ts) u) (Parsed (c, ts, u + mem_needed c)))"

definition backs_prints :: "cmd \<Rightarrow> bool" where
  "backs_prints c \<longleftrightarrow> (\<forall>n ts u. follow '')&;'' ts \<longrightarrow> u + mem_needed c \<le> MAXN \<longrightarrow>
     upto (pbind (ref_pipe n (paren 2 c (body c) @ ts) u) (\<lambda>(c, ts, u). ref_backs c ts u)) (ref_backs c ts (u + mem_needed c)))"

definition line_prints :: "cmd \<Rightarrow> bool" where
  "line_prints c \<longleftrightarrow> (\<forall>n ts u. follow '')'' ts \<longrightarrow> u + mem_needed c \<le> MAXN \<longrightarrow>
     upto (ref_line n (body c @ ts) u) (Parsed (c, ts, u + mem_needed c)))"

lemma exec_from_line: "\<lbrakk>line_prints c; 0 < cmd_level c\<rbrakk> \<Longrightarrow> exec_prints c"
  using ref_block_print [of c] by (auto simp: exec_prints_def line_prints_def paren_def)

lemma pipe_from_exec:
  assumes "exec_prints c" "cmd_level c \<noteq> 1"
  shows "pipe_prints c"
  unfolding pipe_prints_def
proof (intro allI impI)
  fix n u and ts :: "string tok list"
  assume a: "follow '')&;'' ts" "u + mem_needed c \<le> MAXN"
  have "paren 1 c (body c) = paren 0 c (body c)" using assms(2) by (auto simp: paren_def)
  moreover have "\<not> starts ''|'' ts" by (simp add: follow_starts [OF a(1)])
  moreover have "upto (ref_exec k (paren 0 c (body c) @ ts) u) (Parsed (c, ts, u + mem_needed c))" for k
    using assms(1) [unfolded exec_prints_def, rule_format, of "[]" ts u k] a follow_mono [OF a(1), of "''|)&;''"] by simp
  ultimately show "upto (ref_pipe n (paren 1 c (body c) @ ts) u) (Parsed (c, ts, u + mem_needed c))"
    by (cases n) (auto intro!: upto_pbind)
qed

lemma backs_from_pipe:
  assumes "pipe_prints c" "cmd_level c \<noteq> 2"
  shows "backs_prints c"
  unfolding backs_prints_def
proof (intro allI impI)
  fix n u and ts :: "string tok list"
  assume a: "follow '')&;'' ts" "u + mem_needed c \<le> MAXN"
  have "paren 2 c (body c) = paren 1 c (body c)" using assms(2) by (auto simp: paren_def)
  moreover have "upto (ref_pipe n (paren 1 c (body c) @ ts) u) (Parsed (c, ts, u + mem_needed c))"
    using assms(1) a by (simp add: pipe_prints_def)
  ultimately show "upto (pbind (ref_pipe n (paren 2 c (body c) @ ts) u) (\<lambda>(c, ts, u). ref_backs c ts u)) (ref_backs c ts (u + mem_needed c))"
    by (auto intro: upto_pbind)
qed

lemma ref_backs_none: "\<not> starts ''&'' ts \<Longrightarrow> ref_backs c ts u = Parsed (c, ts, u)"
  by (cases "(c, ts, u)" rule: ref_backs.cases) (auto split: if_splits)

lemma ref_line_backs:
  "ref_line (Suc n) ts u = pbind (pbind (ref_pipe n ts u) (\<lambda>(c, ts, u). ref_backs c ts u)) (\<lambda>(c, ts, u).
     if starts '';'' ts then pbind (ref_line n (tl ts) u) (\<lambda>(r, ts, u). pbind (take_mem 24 u) (\<lambda>u. Parsed (Lst c r, ts, u)))
     else Parsed (c, ts, u))"
  by (cases "ref_pipe n ts u") (simp_all split: prod.splits)

lemma line_from_backs:
  assumes "backs_prints c" "cmd_level c \<noteq> 3"
  shows "line_prints c"
  unfolding line_prints_def
proof (intro allI impI)
  fix n u and ts :: "string tok list"
  assume a: "follow '')'' ts" "u + mem_needed c \<le> MAXN"
  have c: "cmd_level c \<le> 2" using assms(2) by (cases c) simp_all
  have "ref_backs c ts v = Parsed (c, ts, v)" for v by (simp add: ref_backs_none follow_starts [OF a(1)])
  then have b: "upto (pbind (ref_pipe k (body c @ ts) u) (\<lambda>(c, ts, u). ref_backs c ts u)) (Parsed (c, ts, u + mem_needed c))" for k
    using assms(1) [unfolded backs_prints_def, rule_format, of ts u k] follow_mono [OF a(1), of "'')&;''"] a(2) c by (simp add: paren_def)
  have "\<not> starts '';'' ts" by (simp add: follow_starts [OF a(1)])
  then have "upto (ref_line (Suc k) (body c @ ts) u) (Parsed (c, ts, u + mem_needed c))" for k
    unfolding ref_line_backs by (intro upto_pbind [OF b]) simp
  then show "upto (ref_line n (body c @ ts) u) (Parsed (c, ts, u + mem_needed c))" by (cases n) simp_all
qed

lemma pipe_prints_Pipe:
  assumes l: "exec_prints l" and r: "pipe_prints r"
  shows "pipe_prints (Pipe l r)"
  unfolding pipe_prints_def
proof (intro allI impI)
  fix n u and ts :: "string tok list"
  assume a: "follow '')&;'' ts" "u + mem_needed (Pipe l r) \<le> MAXN"
  let ?r = "Sym (CHR ''|'') # paren 1 r (body r) @ ts"
  have 1: "upto (ref_exec k (paren 0 l (body l) @ ?r) u) (Parsed (l, ?r, u + mem_needed l))" for k
    using l [unfolded exec_prints_def, rule_format, of "[]" ?r u k] a(2) by simp
  have 2: "upto (ref_pipe k (paren 1 r (body r) @ ts) (u + mem_needed l)) (Parsed (r, ts, u + mem_needed l + mem_needed r))" for k
    using r a by (simp add: pipe_prints_def)
  have 3: "take_mem 24 (u + mem_needed l + mem_needed r) = Parsed (u + mem_needed (Pipe l r))" using a(2) by (simp add: take_mem_ok)
  have 4: "upto (pbind (ref_pipe k (paren 1 r (body r) @ ts) (u + mem_needed l)) (\<lambda>(r, ts, u). pbind (take_mem 24 u) (\<lambda>u. Parsed (Pipe l r, ts, u))))
      (Parsed (Pipe l r, ts, u + mem_needed (Pipe l r)))" for k
    by (rule upto_pbind [OF 2]) (use 3 in simp)
  have "upto (ref_pipe (Suc k) (paren 0 l (body l) @ ?r) u) (Parsed (Pipe l r, ts, u + mem_needed (Pipe l r)))" for k
    unfolding ref_pipe.simps by (rule upto_pbind [OF 1]) (use 4 in simp)
  then show "upto (ref_pipe n (paren 1 (Pipe l r) (body (Pipe l r)) @ ts) u) (Parsed (Pipe l r, ts, u + mem_needed (Pipe l r)))"
    by (cases n) (simp_all add: paren_def)
qed

lemma backs_prints_Back:
  assumes c: "backs_prints c"
  shows "backs_prints (Back c)"
  unfolding backs_prints_def
proof (intro allI impI)
  fix n u and ts :: "string tok list"
  assume a: "follow '')&;'' ts" "u + mem_needed (Back c) \<le> MAXN"
  have "ref_backs c (Sym (CHR ''&'') # ts) (u + mem_needed c) = ref_backs (Back c) ts (u + mem_needed (Back c))"
    using a(2) by (simp add: take_mem_ok add.assoc)
  then show "upto (pbind (ref_pipe n (paren 2 (Back c) (body (Back c)) @ ts) u) (\<lambda>(c, ts, u). ref_backs c ts u)) (ref_backs (Back c) ts (u + mem_needed (Back c)))"
    using c [unfolded backs_prints_def, rule_format, of "Sym (CHR ''&'') # ts" u n] a by (simp add: paren_def)
qed

lemma line_prints_Lst:
  assumes l: "backs_prints l" and r: "line_prints r"
  shows "line_prints (Lst l r)"
  unfolding line_prints_def
proof (intro allI impI)
  fix n u and ts :: "string tok list"
  assume a: "follow '')'' ts" "u + mem_needed (Lst l r) \<le> MAXN"
  let ?r = "Sym (CHR '';'') # body r @ ts"
  have 1: "upto (pbind (ref_pipe k (paren 2 l (body l) @ ?r) u) (\<lambda>(c, ts, u). ref_backs c ts u)) (Parsed (l, ?r, u + mem_needed l))" for k
    using l [unfolded backs_prints_def, rule_format, of ?r u k] a(2) by simp
  have 2: "upto (ref_line k (body r @ ts) (u + mem_needed l)) (Parsed (r, ts, u + mem_needed l + mem_needed r))" for k
    using r a by (simp add: line_prints_def)
  have 3: "take_mem 24 (u + mem_needed l + mem_needed r) = Parsed (u + mem_needed (Lst l r))" using a(2) by (simp add: take_mem_ok)
  have 4: "upto (pbind (ref_line k (body r @ ts) (u + mem_needed l)) (\<lambda>(r, ts, u). pbind (take_mem 24 u) (\<lambda>u. Parsed (Lst l r, ts, u))))
      (Parsed (Lst l r, ts, u + mem_needed (Lst l r)))" for k
    by (rule upto_pbind [OF 2]) (use 3 in simp)
  have "upto (ref_line (Suc k) (paren 2 l (body l) @ ?r) u) (Parsed (Lst l r, ts, u + mem_needed (Lst l r)))" for k
    unfolding ref_line_backs by (rule upto_pbind [OF 1]) (use 4 in simp)
  then show "upto (ref_line n (body (Lst l r) @ ts) u) (Parsed (Lst l r, ts, u + mem_needed (Lst l r)))"
    by (cases n) simp_all
qed

lemma exec_prints_Exec: "length ws < MAXARGS \<Longrightarrow> exec_prints (Exec ws)"
  using ref_exec_print by (auto simp: exec_prints_def paren_def)

lemma exec_prints_Redir:
  assumes "exec_prints c" "good_redir (w, mode, fd)"
  shows "exec_prints (Redir c w mode fd)"
  unfolding exec_prints_def
proof (intro allI impI)
  fix n u rs and ts :: "string tok list"
  assume a: "list_all good_redir rs" "follow ''|)&;'' ts" "u + mem_needed (Redir c w mode fd) + 40 * length rs \<le> MAXN"
  show "upto (ref_exec n (paren 0 (Redir c w mode fd) (body (Redir c w mode fd)) @ concat (map redir_toks rs) @ ts) u)
      (Parsed (foldl add_redir (Redir c w mode fd) rs, ts, u + mem_needed (Redir c w mode fd) + 40 * length rs))"
    using assms(1) [unfolded exec_prints_def, rule_format, of "(w, mode, fd) # rs" ts u n] assms(2) a
    by (simp add: paren_def add_redir_def [of c] add.assoc)
qed

theorem ref_prints: "valid_cmd c \<Longrightarrow> exec_prints c \<and> pipe_prints c \<and> backs_prints c \<and> line_prints c"
proof (induction c)
  case (Exec ws)
  then have "exec_prints (Exec ws)" by (simp add: exec_prints_Exec)
  then show ?case using pipe_from_exec backs_from_pipe line_from_backs by simp
next
  case (Redir c w mode fd)
  then have "exec_prints (Redir c w mode fd)" by (intro exec_prints_Redir) (auto simp: good_redir_def)
  then show ?case using pipe_from_exec backs_from_pipe line_from_backs by simp
next
  case (Pipe l r)
  then have "pipe_prints (Pipe l r)" by (simp add: pipe_prints_Pipe)
  then show ?case using exec_from_line backs_from_pipe line_from_backs by simp
next
  case (Lst l r)
  then have "line_prints (Lst l r)" by (simp add: line_prints_Lst)
  then show ?case using pipe_from_exec backs_from_pipe exec_from_line by simp
next
  case (Back c)
  then have "backs_prints (Back c)" by (simp add: backs_prints_Back)
  then show ?case using pipe_from_exec line_from_backs exec_from_line by simp
qed

lemma body_good: "valid_cmd c \<Longrightarrow> list_all good_tok (body c)"
  by (induction c) (auto simp: paren_def redir_toks_def list_all_iff)

theorem ref_parse_print:
  assumes "valid_cmd c" "mem_needed c \<le> MAXN" and l: "lexer line = body c"
  shows "ref_parse line = Parsed (c, [], mem_needed c)"
proof -
  have "upto (ref_parse line) (Parsed (c, [], mem_needed c))"
    using ref_prints [OF assms(1)] assms(2) l unfolding line_prints_def ref_parse_def
    by (metis add_0 append_Nil2 follow_simps(2))
  then show ?thesis using ref_parse_total [of line] by (auto simp: upto_def total_def)
qed

lemma lexer_print_cmd: "\<lbrakk>valid_cmd c; lexer xs = []\<rbrakk> \<Longrightarrow> lexer (print_cmd c @ xs) = body c"
  using body_good by (simp add: print_cmd_def lex_unlex)

end
