(* ===== verification/ShellRun.thy ===== *)
theory ShellRun
  imports Shell
begin

text \<open>
  Running commands: \<open>runcmd\<close>, \<open>fork1\<close>, \<open>getcmd\<close> and \<open>main\<close> of \<open>user/sh/main.c\<close>.

  A user program is a value of type \<open>prog\<close>: the system call it makes next and, for every result of the
  call, what it does then.  \<open>Print fd s\<close> is output of \<open>stdio\<close>, \<open>Execv\<close> continues only when the call
  fails, and \<open>Stuck\<close> is an access C leaves undefined.  The standard input of the shell is a list of
  characters from which \<open>fgets\<close> takes lines.
\<close>

section \<open>Programs\<close>

datatype prog =
    Exit int
  | Print int string prog
  | Execv string "string list" prog
  | Close int prog
  | Open string int "int \<Rightarrow> prog"
  | Fork "int \<Rightarrow> prog"
  | Wait prog
  | PipeCall "int \<Rightarrow> int \<Rightarrow> int \<Rightarrow> prog"
  | Dup int prog
  | Chdir string "int \<Rightarrow> prog"
  | Stuck

definition nl :: string where "nl = [CHR 0x0A]"

text \<open>\<open>PANIC\<close> and \<open>fork1\<close>.\<close>

definition panic_prog :: "string \<Rightarrow> prog" where
  "panic_prog s = Print 2 (s @ nl) (Exit 1)"

definition fork1 :: "(int \<Rightarrow> prog) \<Rightarrow> prog" where
  "fork1 k = Fork (\<lambda>pid. if pid = -1 then panic_prog ''fork'' else k pid)"

primrec runcmd :: "cmd \<Rightarrow> prog" where
  "runcmd (Exec args) =
     (case args of
        [] \<Rightarrow> Exit 0
      | arg0 # _ \<Rightarrow> Execv arg0 args (Print 2 (''exec '' @ arg0 @ '' failed'' @ nl) (Exit 0)))"
| "runcmd (Redir cmd file mode fd) =
     Close fd (Open file mode (\<lambda>r.
       if r < 0 then Print 2 (''open '' @ file @ '' failed'' @ nl) (Exit 1) else runcmd cmd))"
| "runcmd (Lst left right) =
     fork1 (\<lambda>pid. if pid = 0 then runcmd left else Wait (runcmd right))"
| "runcmd (Pipe left right) =
     PipeCall (\<lambda>r p0 p1.
       if r < 0 then panic_prog ''pipe''
       else fork1 (\<lambda>pid.
         if pid = 0 then Close 1 (Dup p1 (Close p0 (Close p1 (runcmd left))))
         else fork1 (\<lambda>pid.
           if pid = 0 then Close 0 (Dup p0 (Close p0 (Close p1 (runcmd right))))
           else Close p0 (Close p1 (Wait (Wait (Exit 0)))))))"
| "runcmd (Back cmd) =
     fork1 (\<lambda>pid. if pid = 0 then runcmd cmd else Exit 0)"

text \<open>\<open>runcmd(parsecmd(buf))\<close> in the child.\<close>

definition run_line :: "string \<Rightarrow> prog" where
  "run_line buf =
     (case parsecmd buf of
        Parsed (p, m, bs) \<Rightarrow> (case cmd_of (mem_cmd m) bs p of Some c \<Rightarrow> runcmd c | None \<Rightarrow> Stuck)
      | Exit1 msg \<Rightarrow> Print 2 msg (Exit 1)
      | _ \<Rightarrow> Stuck)"

section \<open>Reading lines\<close>

text \<open>\<open>fgets\<close> with room for \<open>n\<close> characters: what is read and what is left.\<close>

fun fgets :: "nat \<Rightarrow> string \<Rightarrow> string \<times> string" where
  "fgets 0 inp = ([], inp)"
| "fgets (Suc n) [] = ([], [])"
| "fgets (Suc n) (c # inp) =
     (if c = CHR 0x0A then ([c], inp) else (case fgets n inp of (l, rest) \<Rightarrow> (c # l, rest)))"

lemma fgets_shorter: "length (snd (fgets n inp)) + length (fst (fgets n inp)) = length inp"
  by (induction n inp rule: fgets.induct) (auto split: prod.splits)

lemma fgets_length: "length (fst (fgets n inp)) \<le> n"
  by (induction n inp rule: fgets.induct) (auto split: prod.splits)

definition BUFSIZE :: nat where "BUFSIZE = 100"

text \<open>The result of \<open>getcmd\<close>, the buffer and the rest of the input.\<close>

definition getcmd :: "nat \<Rightarrow> string \<Rightarrow> int \<times> string \<times> string" where
  "getcmd nbuf inp =
     (case fgets (nbuf - 1) inp of (l, rest) \<Rightarrow>
        let buf = l @ replicate (nbuf - length l) (CHR 0x00)
        in (if buf ! 0 = CHR 0x00 then -1 else 0, buf, rest))"

section \<open>The main program\<close>

definition is_cd :: "string \<Rightarrow> bool" where
  "is_cd buf \<longleftrightarrow> buf ! 0 = CHR ''c'' \<and> buf ! 1 = CHR ''d'' \<and> buf ! 2 = CHR '' ''"

text \<open>The argument of \<open>cd\<close>, with the last character chopped off.\<close>

definition cd_path :: "string \<Rightarrow> string" where
  "cd_path buf = cstring (buf[cstrlen buf - 1 := CHR 0x00]) 3"

lemma getcmd_shorter:
  assumes "getcmd BUFSIZE inp = (r, buf, rest)" "r \<ge> 0"
  shows "length rest < length inp"
proof -
  have "fst (fgets (BUFSIZE - 1) inp) \<noteq> []" using assms by (auto simp: getcmd_def BUFSIZE_def Let_def split: prod.splits if_splits)
  then have "0 < length (fst (fgets (BUFSIZE - 1) inp))" by blast
  moreover have "rest = snd (fgets (BUFSIZE - 1) inp)" using assms(1) by (auto simp: getcmd_def Let_def split: prod.splits)
  ultimately show ?thesis using fgets_shorter [of "BUFSIZE - 1" inp] by (metis less_add_same_cancel1)
qed

function main_loop :: "string \<Rightarrow> prog" where
  "main_loop inp =
     Print 2 ''$ ''
      (case getcmd BUFSIZE inp of (r, buf, rest) \<Rightarrow>
         if r \<ge> 0 then
           (if is_cd buf then
              Chdir (cd_path buf) (\<lambda>r.
                if r < 0 then Print 2 (''cannot cd '' @ cd_path buf @ nl) (main_loop rest) else main_loop rest)
            else fork1 (\<lambda>pid. if pid = 0 then run_line buf else Wait (main_loop rest)))
         else Exit 0)"
  by pat_completeness auto
termination
  by (relation "measure length") (simp, (simp only: in_measure, metis getcmd_shorter)+)

declare main_loop.simps [simp del]

text \<open>
  The loop that opens the console until three descriptors are in use.  Every round that goes on keeps one more
  of the descriptors 0, 1 and 2, so four rounds are enough; the count is the fuel.
\<close>

primrec open_console :: "nat \<Rightarrow> prog \<Rightarrow> prog" where
  "open_console 0 k = Stuck"
| "open_console (Suc n) k =
     Open ''console'' O_RDWR (\<lambda>fd. if fd \<ge> 0 then (if fd \<ge> 3 then Close fd k else open_console n k) else k)"

text \<open>The greeting: the arguments and the environment.\<close>

fun nat_text :: "nat \<Rightarrow> string" where
  "nat_text n = (if n < 10 then [char_of (48 + n)] else nat_text (n div 10) @ [char_of (48 + n mod 10)])"

declare nat_text.simps [simp del]

fun print_argv :: "nat \<Rightarrow> string list \<Rightarrow> prog \<Rightarrow> prog" where
  "print_argv i [] k = k"
| "print_argv i (a # as) k = Print 1 (''sh: argv['' @ nat_text i @ ''] = '' @ [CHR 0x27] @ a @ [CHR 0x27] @ nl) (print_argv (Suc i) as k)"

definition sh_main :: "string list \<Rightarrow> string option \<Rightarrow> string \<Rightarrow> prog" where
  "sh_main args test_env inp =
     print_argv 0 args
      (Print 1 (case test_env of
          Some v \<Rightarrow> ''sh: testenv = '' @ [CHR 0x27] @ v @ [CHR 0x27] @ nl
        | None \<Rightarrow> ''sh: testenv not found!'' @ nl)
      (open_console 4 (main_loop inp)))"

end
