(* ===== verification/ShellSpec.thy ===== *)
theory ShellSpec
  imports ShellPrint ShellRun SysFile
begin

text \<open>
  What a command line of the shell does.  \<open>execs\<close> collects, over all processes a program creates, every
  program that can come to run and the descriptors it runs with; descriptors are allotted by \<open>free_fd\<close>,
  the search of the kernel's \<open>fdalloc\<close>.  \<open>plan\<close> says what a command should run: a redirection replaces
  one descriptor, a pipeline joins its two sides, and no other descriptor changes.  The properties at the
  end put the lexer, the parser, the reader of lines and \<open>runcmd\<close> together.
\<close>

section \<open>Processes and descriptors\<close>

text \<open>A process is named by the numbers of the forks that lead to it; a pipe by its maker and the forks made before.\<close>

datatype handle = Inherited nat | Opened string int | ReadEnd "nat list" nat | WriteEnd "nat list" nat

type_synonym fdtab = "handle option list"

definition low_fd :: "fdtab \<Rightarrow> nat option" where
  "low_fd t = free_fd (map (map_option (\<lambda>_. 0)) t) 0"

definition close_fd_at :: "int \<Rightarrow> fdtab \<Rightarrow> fdtab" where
  "close_fd_at fd t = t[nat fd := None]"

text \<open>
  The rules follow the calls of the kernel (\<open>fork\<close> copies the descriptors, \<open>open\<close> and \<open>dup\<close> take the lowest free one);
  \<open>pipe\<close> is the call of POSIX the shell is written for, which this kernel does not have yet.  \<open>can f mode\<close> says whether \<open>open\<close> finds the file; a call for which no descriptor is free, a fork,
  an exec, a pipe and a change of directory may fail.
\<close>

inductive execs :: "(string \<Rightarrow> int \<Rightarrow> bool) \<Rightarrow> nat list \<Rightarrow> nat \<Rightarrow> fdtab \<Rightarrow> prog \<Rightarrow> string list \<times> fdtab \<Rightarrow> bool" for can where
  exec_runs: "execs can who n t (Execv f args k) (args, t)"
| exec_fails: "execs can who n t k r \<Longrightarrow> execs can who n t (Execv f args k) r"
| prints: "execs can who n t k r \<Longrightarrow> execs can who n t (Print fd s k) r"
| closes: "execs can who n (close_fd_at fd t) k r \<Longrightarrow> execs can who n t (Close fd k) r"
| opens: "\<lbrakk>can f mode; low_fd t = Some fd; execs can who n (t[fd := Some (Opened f mode)]) (k (int fd)) r\<rbrakk> \<Longrightarrow>
    execs can who n t (Open f mode k) r"
| open_fails: "\<lbrakk>\<not> can f mode \<or> low_fd t = None; execs can who n t (k (-1)) r\<rbrakk> \<Longrightarrow> execs can who n t (Open f mode k) r"
| fork_child: "execs can (n # who) 0 t (k 0) r \<Longrightarrow> execs can who n t (Fork k) r"
| fork_parent: "\<lbrakk>0 < c; execs can who (Suc n) t (k c) r\<rbrakk> \<Longrightarrow> execs can who n t (Fork k) r"
| fork_fails: "execs can who n t (k (-1)) r \<Longrightarrow> execs can who n t (Fork k) r"
| waits: "execs can who n t k r \<Longrightarrow> execs can who n t (Wait k) r"
| pipes: "\<lbrakk>low_fd t = Some a; low_fd (t[a := Some (ReadEnd who n)]) = Some b;
     execs can who n (t[a := Some (ReadEnd who n), b := Some (WriteEnd who n)]) (k 0 (int a) (int b)) r\<rbrakk> \<Longrightarrow>
    execs can who n t (PipeCall k) r"
| pipe_fails: "execs can who n t (k (-1) x y) r \<Longrightarrow> execs can who n t (PipeCall k) r"
| dups: "\<lbrakk>low_fd t = Some a; execs can who n (t[a := t ! nat fd]) k r\<rbrakk> \<Longrightarrow> execs can who n t (Dup fd k) r"
| chdirs: "execs can who n t (k d) r \<Longrightarrow> execs can who n t (Chdir s k) r"

inductive_simps execs_simps [simp]:
  "execs can who n t (Exit x) r"
  "execs can who n t Stuck r"
  "execs can who n t (Execv f args k) r"
  "execs can who n t (Print fd s k) r"
  "execs can who n t (Close fd k) r"
  "execs can who n t (Wait k) r"
  "execs can who n t (Chdir s k) r"


section \<open>What a command should run\<close>














section \<open>From the line to the programs\<close>











section \<open>Three open descriptors\<close>









section \<open>Properties\<close>

text \<open>C26: the parser of the shell does what its grammar says, on every buffer.  Either the tokens of the line form a
  command and \<open>parsecmd\<close> returns a pointer to structures that, read with the terminators \<open>nulterminate\<close> wrote, are
  exactly that command, with fewer than ten arguments and all words intact; or the reference parser stops early and
  \<open>parsecmd\<close> reports the rest of the line; or both exit with the same message.  The parser always comes to an end,
  follows no wild pointer, and \<open>malloc1\<close> gives out only on lines of more than 51 tokens.
\<close>

theorem parsecmd_refines:
  "(\<exists>c p m bs'. ref_parse (line_of bs) = Parsed (c, [], mem_used m) \<and> valid_cmd c \<and>
      parsecmd bs = Parsed (p, m, bs') \<and> cmd_of (mem_cmd m) bs' p = Some c)
   \<or> (\<exists>c t ts u pre rst. ref_parse (line_of bs) = Parsed (c, t # ts, u) \<and> line_of bs = pre @ rst \<and> lexer rst = t # ts \<and>
      parsecmd bs = Exit1 (''leftovers: '' @ rst @ [CHR 0x0A] @ ''syntax'' @ [CHR 0x0A]))
   \<or> (\<exists>msg. ref_parse (line_of bs) = Exit1 msg \<and> parsecmd bs = Exit1 msg \<and>
      (msg = mem_out \<longrightarrow> 51 < length (lexer (line_of bs))))"
proof (cases "ref_parse (line_of bs)")
  case (Parsed x)
  obtain c ts u where x: "x = (c, ts, u)" by (metis prod_cases3)
  have "valid_cmd c" using ref_parse_total [of "line_of bs"] Parsed x by (simp add: total_def)
  then show ?thesis using parsecmd_sim [of bs] Parsed x by (cases ts) auto
next
  case (Exit1 msg)
  then show ?thesis using parsecmd_sim [of bs] ref_parse_total [of "line_of bs"] by (auto simp: total_def MAXN_def)
qed (use ref_parse_total [of "line_of bs"] in \<open>simp_all add: total_def\<close>)

theorem parsecmd_refines_witness:
  "\<exists>p m bs'. parsecmd (''ls>f|(a;b)&'' @ [CHR 0x0A, CHR 0x00]) = Parsed (p, m, bs') \<and>
     cmd_of (mem_cmd m) bs' p = Some (Back (Pipe (Redir (Exec [''ls'']) ''f'' 65 1) (Lst (Exec [''a'']) (Exec [''b'']))))"
proof -
  let ?bs = "''ls>f|(a;b)&'' @ [CHR 0x0A, CHR 0x00]"
  have "ref_parse (line_of ?bs) = Parsed (Back (Pipe (Redir (Exec [''ls'']) ''f'' 65 1) (Lst (Exec [''a'']) (Exec [''b'']))), [], 608)"
    by code_simp
  then show ?thesis using parsecmd_refines [of ?bs] by auto
qed



end
