(* ===== verification/Sd.thy ===== *)
theory Sd
  imports SpinLock FsDefs
begin

text \<open>
  \<open>driver/sd.c\<close> and \<open>driver/buf.h\<close>: the SD card driver while the system runs.  The host controller is a
  parameter, the record \<open>emmc\<close>: reading a register, writing a register, waiting, and the interrupt
  line, each as a function of the state \<open>'h\<close> of the hardware.  A \<open>struct buf\<close> has an address, and \<open>bufs\<close> is the memory
  that holds these structures; \<open>qnext\<close> links them into the request queue whose head is the static \<open>sdque\<close>.  Messages
  on the console are left out, the register reads they make are kept.  Barriers (\<open>disb\<close>) order memory accesses and
  have no effect on a memory that is accessed in program order.
\<close>

section \<open>Registers and constants\<close>

datatype reg = EMMC_BLKSIZECNT | EMMC_ARG1 | EMMC_CMDTM | EMMC_RESP0 | EMMC_RESP1 | EMMC_RESP2 | EMMC_RESP3
  | EMMC_DATA | EMMC_STATUS | EMMC_CONTROL0 | EMMC_CONTROL1 | EMMC_INTERRUPT | EMMC_IRPT_MASK | EMMC_IRPT_EN | EMMC_SLOTISR_VER

record 'h emmc =
  reg_get :: "reg \<Rightarrow> 'h \<Rightarrow> u32 \<times> 'h"
  reg_put :: "reg \<Rightarrow> u32 \<Rightarrow> 'h \<Rightarrow> 'h"
  delayus :: "nat \<Rightarrow> 'h \<Rightarrow> 'h"
  irq_line :: "'h \<Rightarrow> bool"

abbreviation INT_CMD_DONE :: u32 where "INT_CMD_DONE \<equiv> 0x00000001"
abbreviation INT_DATA_DONE :: u32 where "INT_DATA_DONE \<equiv> 0x00000002"
abbreviation INT_WRITE_RDY :: u32 where "INT_WRITE_RDY \<equiv> 0x00000010"
abbreviation INT_READ_RDY :: u32 where "INT_READ_RDY \<equiv> 0x00000020"
abbreviation INT_ERR :: u32 where "INT_ERR \<equiv> 0x00008000"
abbreviation INT_CMD_TIMEOUT :: u32 where "INT_CMD_TIMEOUT \<equiv> 0x00010000"
abbreviation INT_CRC_ERROR :: u32 where "INT_CRC_ERROR \<equiv> 0x00020000"
abbreviation INT_END_ERROR :: u32 where "INT_END_ERROR \<equiv> 0x00040000"
abbreviation INT_INDEX_ERROR :: u32 where "INT_INDEX_ERROR \<equiv> 0x00080000"
abbreviation INT_DATA_TIMEOUT :: u32 where "INT_DATA_TIMEOUT \<equiv> 0x00100000"
abbreviation INT_DATA_CRC_ERR :: u32 where "INT_DATA_CRC_ERR \<equiv> 0x00200000"
abbreviation INT_DATA_END_ERR :: u32 where "INT_DATA_END_ERR \<equiv> 0x00400000"
abbreviation INT_AUTO_ERROR :: u32 where "INT_AUTO_ERROR \<equiv> 0x01000000"

definition INT_ERROR_MASK :: u32 where
  "INT_ERROR_MASK = INT_CRC_ERROR OR INT_END_ERROR OR INT_INDEX_ERROR OR INT_DATA_TIMEOUT OR INT_DATA_CRC_ERR OR
     INT_DATA_END_ERR OR INT_ERR OR INT_AUTO_ERROR"

abbreviation SR_CMD_INHIBIT :: u32 where "SR_CMD_INHIBIT \<equiv> 0x00000001"
abbreviation ST_CARD_STATE :: u32 where "ST_CARD_STATE \<equiv> 0x00001e00"
abbreviation ST_APP_CMD :: u32 where "ST_APP_CMD \<equiv> 0x00000020"
abbreviation R1_ERRORS_MASK :: u32 where "R1_ERRORS_MASK \<equiv> 0xfff9c004"
abbreviation R6_RCA_MASK :: u32 where "R6_RCA_MASK \<equiv> 0xffff0000"

abbreviation SD_OK :: u32 where "SD_OK \<equiv> 0"
abbreviation SD_ERROR :: u32 where "SD_ERROR \<equiv> 1"
abbreviation SD_TIMEOUT :: u32 where "SD_TIMEOUT \<equiv> 2"
abbreviation SD_BUSY :: u32 where "SD_BUSY \<equiv> 3"
abbreviation SD_ERROR_APP_CMD :: u32 where "SD_ERROR_APP_CMD \<equiv> 9"

section \<open>The command table\<close>

datatype resp = RESP_NO | RESP_R1 | RESP_R1b | RESP_R2I | RESP_R2S | RESP_R3 | RESP_R6 | RESP_R7

record EMMCCommand =
  cname :: string
  code :: u32
  resp :: resp
  rca_yes :: bool
  cdelay :: nat

abbreviation CMD_IS_DATA :: u32 where "CMD_IS_DATA \<equiv> 0x00200000"
abbreviation CMD_RSPNS_NO :: u32 where "CMD_RSPNS_NO \<equiv> 0x00000000"
abbreviation CMD_RSPNS_136 :: u32 where "CMD_RSPNS_136 \<equiv> 0x00010000"
abbreviation CMD_RSPNS_48 :: u32 where "CMD_RSPNS_48 \<equiv> 0x00020000"
abbreviation CMD_RSPNS_48B :: u32 where "CMD_RSPNS_48B \<equiv> 0x00030000"
abbreviation TM_DAT_DIR_HC :: u32 where "TM_DAT_DIR_HC \<equiv> 0x00000000"
abbreviation TM_DAT_DIR_CH :: u32 where "TM_DAT_DIR_CH \<equiv> 0x00000010"
abbreviation TM_MULTI_DATA :: u32 where "TM_MULTI_DATA \<equiv> 0x00200022"

definition sdCommandTable :: "EMMCCommand list" where
  "sdCommandTable = map (\<lambda>(n, c, r, y, d). \<lparr>cname = n, code = c, resp = r, rca_yes = y, cdelay = d\<rparr>)
    [(''GO_IDLE_STATE'', 0x00000000 OR CMD_RSPNS_NO, RESP_NO, False, 0),
     (''ALL_SEND_CID'', 0x02000000 OR CMD_RSPNS_136, RESP_R2I, False, 0),
     (''SEND_REL_ADDR'', 0x03000000 OR CMD_RSPNS_48, RESP_R6, False, 0),
     (''SET_DSR'', 0x04000000 OR CMD_RSPNS_NO, RESP_NO, False, 0),
     (''SWITCH_FUNC'', 0x06000000 OR CMD_RSPNS_48, RESP_R1, False, 0),
     (''CARD_SELECT'', 0x07000000 OR CMD_RSPNS_48B, RESP_R1b, True, 0),
     (''SEND_IF_COND'', 0x08000000 OR CMD_RSPNS_48, RESP_R7, False, 100),
     (''SEND_CSD'', 0x09000000 OR CMD_RSPNS_136, RESP_R2S, True, 0),
     (''SEND_CID'', 0x0A000000 OR CMD_RSPNS_136, RESP_R2I, True, 0),
     (''VOLT_SWITCH'', 0x0B000000 OR CMD_RSPNS_48, RESP_R1, False, 0),
     (''STOP_TRANS'', 0x0C000000 OR CMD_RSPNS_48B, RESP_R1b, False, 0),
     (''SEND_STATUS'', 0x0D000000 OR CMD_RSPNS_48, RESP_R1, True, 0),
     (''GO_INACTIVE'', 0x0F000000 OR CMD_RSPNS_NO, RESP_NO, True, 0),
     (''SET_BLOCKLEN'', 0x10000000 OR CMD_RSPNS_48, RESP_R1, False, 0),
     (''READ_SINGLE'', 0x11000000 OR CMD_RSPNS_48 OR CMD_IS_DATA OR TM_DAT_DIR_CH, RESP_R1, False, 0),
     (''READ_MULTI'', 0x12000000 OR CMD_RSPNS_48 OR TM_MULTI_DATA OR TM_DAT_DIR_CH, RESP_R1, False, 0),
     (''SEND_TUNING'', 0x13000000 OR CMD_RSPNS_48, RESP_R1, False, 0),
     (''SPEED_CLASS'', 0x14000000 OR CMD_RSPNS_48B, RESP_R1b, False, 0),
     (''SET_BLOCKCNT'', 0x17000000 OR CMD_RSPNS_48, RESP_R1, False, 0),
     (''WRITE_SINGLE'', 0x18000000 OR CMD_RSPNS_48 OR CMD_IS_DATA OR TM_DAT_DIR_HC, RESP_R1, False, 0),
     (''WRITE_MULTI'', 0x19000000 OR CMD_RSPNS_48 OR TM_MULTI_DATA OR TM_DAT_DIR_HC, RESP_R1, False, 0),
     (''PROGRAM_CSD'', 0x1B000000 OR CMD_RSPNS_48, RESP_R1, False, 0),
     (''SET_WRITE_PR'', 0x1C000000 OR CMD_RSPNS_48B, RESP_R1b, False, 0),
     (''CLR_WRITE_PR'', 0x1D000000 OR CMD_RSPNS_48B, RESP_R1b, False, 0),
     (''SND_WRITE_PR'', 0x1E000000 OR CMD_RSPNS_48, RESP_R1, False, 0),
     (''ERASE_WR_ST'', 0x20000000 OR CMD_RSPNS_48, RESP_R1, False, 0),
     (''ERASE_WR_END'', 0x21000000 OR CMD_RSPNS_48, RESP_R1, False, 0),
     (''ERASE'', 0x26000000 OR CMD_RSPNS_48B, RESP_R1b, False, 0),
     (''LOCK_UNLOCK'', 0x2A000000 OR CMD_RSPNS_48, RESP_R1, False, 0),
     (''APP_CMD'', 0x37000000 OR CMD_RSPNS_NO, RESP_NO, False, 100),
     (''APP_CMD'', 0x37000000 OR CMD_RSPNS_48, RESP_R1, True, 0),
     (''GEN_CMD'', 0x38000000 OR CMD_RSPNS_48, RESP_R1, False, 0),
     (''SET_BUS_WIDTH'', 0x06000000 OR CMD_RSPNS_48, RESP_R1, False, 0),
     (''SD_STATUS'', 0x0D000000 OR CMD_RSPNS_48, RESP_R1, True, 0),
     (''SEND_NUM_WRBL'', 0x16000000 OR CMD_RSPNS_48, RESP_R1, False, 0),
     (''SEND_NUM_ERS'', 0x17000000 OR CMD_RSPNS_48, RESP_R1, False, 0),
     (''SD_SENDOPCOND'', 0x29000000 OR CMD_RSPNS_48, RESP_R3, False, 1000),
     (''SET_CLR_DET'', 0x2A000000 OR CMD_RSPNS_48, RESP_R1, False, 0),
     (''SEND_SCR'', 0x33000000 OR CMD_RSPNS_48 OR CMD_IS_DATA OR TM_DAT_DIR_CH, RESP_R1, False, 0)]"

abbreviation IX_READ_SINGLE :: nat where "IX_READ_SINGLE \<equiv> 14"
abbreviation IX_WRITE_SINGLE :: nat where "IX_WRITE_SINGLE \<equiv> 19"
abbreviation IX_APP_CMD :: nat where "IX_APP_CMD \<equiv> 29"
abbreviation IX_APP_CMD_RCA :: nat where "IX_APP_CMD_RCA \<equiv> 30"
abbreviation IX_APP_CMD_START :: nat where "IX_APP_CMD_START \<equiv> 32"

section \<open>State of the driver\<close>

record buf =
  flags :: u32
  blockno :: u32
  bdata :: bytes
  qnext :: "nat option"

abbreviation B_VALID :: u32 where "B_VALID \<equiv> 0x2"
abbreviation B_DIRTY :: u32 where "B_DIRTY \<equiv> 0x4"

abbreviation SD_TYPE_2_HC :: nat where "SD_TYPE_2_HC \<equiv> 4"

record SDDescriptor =
  capacity :: u64
  cid :: "u32 list"
  csd :: "u32 list"
  scr :: "u32 list"
  ocr :: u32
  support :: u32
  fileFormat :: u32
  stype :: nat
  uhsi :: bool
  sinit :: bool
  absent :: bool
  rca :: u32
  cardState :: u32
  status :: u32
  lastCmd :: "EMMCCommand option"
  lastArg :: u32

text \<open>\<open>woken\<close> records the calls \<open>wakeup(b)\<close>, oldest first.\<close>

record 'h sd =
  bufs :: "nat \<Rightarrow> buf"
  sdque :: nat
  sdlock :: SpinLock
  sdCard :: SDDescriptor
  host :: 'h
  woken :: "nat list"

section \<open>Waiting for the controller\<close>

definition sd_delayus :: "'h emmc \<Rightarrow> nat \<Rightarrow> 'h \<Rightarrow> 'h" where
  "sd_delayus hw c = delayus hw (c * 3)"

text \<open>The loop of \<open>sdWaitForInterrupt\<close>, with the value of \<open>count\<close> when it ends: the last test of \<open>count--\<close> leaves \<open>-1\<close>.\<close>

primrec poll_interrupt :: "'h emmc \<Rightarrow> u32 \<Rightarrow> nat \<Rightarrow> 'h \<Rightarrow> int \<times> 'h" where
  "poll_interrupt hw m 0 h = (let (v, h) = reg_get hw EMMC_INTERRUPT h in (if v AND m \<noteq> 0 then 0 else -1, h))"
| "poll_interrupt hw m (Suc n) h =
     (let (v, h) = reg_get hw EMMC_INTERRUPT h in
      if v AND m \<noteq> 0 then (int (Suc n), h) else poll_interrupt hw m n (sd_delayus hw 1 h))"

definition sdWaitForInterrupt :: "'h emmc \<Rightarrow> u32 \<Rightarrow> 'h \<Rightarrow> u32 \<times> 'h" where
  "sdWaitForInterrupt hw msk h =
    (let (count, h) = poll_interrupt hw (msk OR INT_ERROR_MASK) 1000000 h;
         (ival, h) = reg_get hw EMMC_INTERRUPT h in
     if count \<le> 0 \<or> ival AND INT_CMD_TIMEOUT \<noteq> 0 \<or> ival AND INT_DATA_TIMEOUT \<noteq> 0
     then (SD_TIMEOUT, reg_put hw EMMC_INTERRUPT ival h)
     else if ival AND INT_ERROR_MASK \<noteq> 0
     then (let (_, h) = reg_get hw EMMC_STATUS h; (_, h) = reg_get hw EMMC_RESP0 h in
           (SD_ERROR, reg_put hw EMMC_INTERRUPT ival h))
     else (SD_OK, reg_put hw EMMC_INTERRUPT msk h))"

text \<open>The loop of \<open>sdWaitForCommand\<close>; \<open>EMMC_INTERRUPT\<close> is read only while the command line is busy.\<close>

primrec poll_command :: "'h emmc \<Rightarrow> nat \<Rightarrow> 'h \<Rightarrow> int \<times> 'h" where
  "poll_command hw 0 h =
     (let (v, h) = reg_get hw EMMC_STATUS h in
      if v AND SR_CMD_INHIBIT = 0 then (0, h)
      else let (i, h) = reg_get hw EMMC_INTERRUPT h in (if i AND INT_ERROR_MASK \<noteq> 0 then 0 else -1, h))"
| "poll_command hw (Suc n) h =
     (let (v, h) = reg_get hw EMMC_STATUS h in
      if v AND SR_CMD_INHIBIT = 0 then (int (Suc n), h)
      else let (i, h) = reg_get hw EMMC_INTERRUPT h in
        if i AND INT_ERROR_MASK \<noteq> 0 then (int (Suc n), h) else poll_command hw n (sd_delayus hw 1 h))"

definition command_aborted :: "'h emmc \<Rightarrow> 'h \<Rightarrow> u32 \<times> 'h" where
  "command_aborted hw h =
    (let (_, h) = reg_get hw EMMC_STATUS h; (_, h) = reg_get hw EMMC_INTERRUPT h; (_, h) = reg_get hw EMMC_RESP0 h in (SD_BUSY, h))"

definition sdWaitForCommand :: "'h emmc \<Rightarrow> 'h \<Rightarrow> u32 \<times> 'h" where
  "sdWaitForCommand hw h =
    (let (count, h) = poll_command hw 1000000 h in
     if count \<le> 0 then command_aborted hw h
     else let (i, h) = reg_get hw EMMC_INTERRUPT h in
       if i AND INT_ERROR_MASK \<noteq> 0 then command_aborted hw h else (SD_OK, h))"

section \<open>Sending commands\<close>

definition sdDebugResponse :: "'h emmc \<Rightarrow> u32 \<Rightarrow> 'h sd \<Rightarrow> (u32 \<times> 'h sd) res" where
  "sdDebugResponse hw r s =
    (case lastCmd (sdCard s) of None \<Rightarrow> Inl (Fault ''lastCmd'')
     | Some _ \<Rightarrow>
       let h = fold (\<lambda>x h. snd (reg_get hw x h))
             [EMMC_RESP3, EMMC_RESP2, EMMC_RESP1, EMMC_RESP0, EMMC_STATUS, EMMC_CONTROL1, EMMC_INTERRUPT] (host s)
       in Inr (r, s\<lparr>host := h\<rparr>))"

text \<open>The response of a command, from \<open>RESP0\<close>.  The cases of the table are the only response types, so the default
  case of the code (a panic) has no counterpart.\<close>

definition handle_response :: "'h emmc \<Rightarrow> EMMCCommand \<Rightarrow> u32 \<Rightarrow> u32 \<Rightarrow> 'h sd \<Rightarrow> u32 \<times> 'h sd" where
  "handle_response hw cmd arg resp0 s =
    (let c = sdCard s;
         r1 = (resp0 AND R1_ERRORS_MASK,
               s\<lparr>sdCard := c\<lparr>status := resp0, cardState := drop_bit 9 (resp0 AND ST_CARD_STATE)\<rparr>\<rparr>);
         r2 = (let (r3, h) = reg_get hw EMMC_RESP3 (host s); (r2, h) = reg_get hw EMMC_RESP2 h;
                   (r1, h) = reg_get hw EMMC_RESP1 h in (h, [r3, r2, r1, resp0])) in
     case resp cmd of
       RESP_NO \<Rightarrow> (SD_OK, s)
     | RESP_R1 \<Rightarrow> r1
     | RESP_R1b \<Rightarrow> r1
     | RESP_R2I \<Rightarrow> (SD_OK, s\<lparr>host := fst r2, sdCard := c\<lparr>status := 0, cid := snd r2\<rparr>\<rparr>)
     | RESP_R2S \<Rightarrow> (SD_OK, s\<lparr>host := fst r2, sdCard := c\<lparr>status := 0, csd := snd r2\<rparr>\<rparr>)
     | RESP_R3 \<Rightarrow> (SD_OK, s\<lparr>sdCard := c\<lparr>status := 0, ocr := resp0\<rparr>\<rparr>)
     | RESP_R6 \<Rightarrow>
         let st = (resp0 AND 0x00001fff) OR push_bit 6 (resp0 AND 0x00002000) OR push_bit 8 (resp0 AND 0x00004000) OR
               push_bit 8 (resp0 AND 0x00008000) in
         (st AND R1_ERRORS_MASK,
          s\<lparr>sdCard := c\<lparr>rca := resp0 AND R6_RCA_MASK, status := st, cardState := drop_bit 9 (resp0 AND ST_CARD_STATE)\<rparr>\<rparr>)
     | RESP_R7 \<Rightarrow> (if resp0 = arg then SD_OK else SD_ERROR, s\<lparr>sdCard := c\<lparr>status := 0\<rparr>\<rparr>))"

definition sdSendCommandP :: "'h emmc \<Rightarrow> EMMCCommand \<Rightarrow> u32 \<Rightarrow> 'h sd \<Rightarrow> u32 \<times> 'h sd" where
  "sdSendCommandP hw cmd arg s =
    (let (r, h) = sdWaitForCommand hw (host s) in
     if r \<noteq> 0 then (SD_BUSY, s\<lparr>host := h\<rparr>)
     else
       let s = s\<lparr>sdCard := (sdCard s)\<lparr>lastCmd := Some cmd, lastArg := arg\<rparr>\<rparr>;
           (i, h) = reg_get hw EMMC_INTERRUPT h;
           h = reg_put hw EMMC_INTERRUPT i h;
           h = reg_put hw EMMC_ARG1 arg h;
           h = reg_put hw EMMC_CMDTM (code cmd) h;
           h = (if cdelay cmd \<noteq> 0 then sd_delayus hw (cdelay cmd) h else h);
           (result, h) = sdWaitForInterrupt hw INT_CMD_DONE h in
       if result \<noteq> 0 then (result, s\<lparr>host := h\<rparr>)
       else let (resp0, h) = reg_get hw EMMC_RESP0 h in handle_response hw cmd arg resp0 (s\<lparr>host := h\<rparr>))"

definition sdSendAppCommand :: "'h emmc \<Rightarrow> 'h sd \<Rightarrow> (u32 \<times> 'h sd) res" where
  "sdSendAppCommand hw s =
    (if rca (sdCard s) = 0 then
       let (_, s) = sdSendCommandP hw (sdCommandTable ! IX_APP_CMD) 0 s in Inr (SD_OK, s)
     else
       let (r, s) = sdSendCommandP hw (sdCommandTable ! IX_APP_CMD_RCA) (rca (sdCard s)) s in
       if r \<noteq> 0 then sdDebugResponse hw r s
       else if status (sdCard s) AND ST_APP_CMD = 0 then Inr (SD_ERROR, s) else Inr (SD_OK, s))"

text \<open>The part that \<open>sdSendCommand\<close> and \<open>sdSendCommandA\<close> share: the command with its argument computed
  after \<open>APP_CMD\<close>, and the check that \<open>APP_CMD\<close> was understood.\<close>

definition send_checked :: "'h emmc \<Rightarrow> nat \<Rightarrow> ('h sd \<Rightarrow> u32) \<Rightarrow> 'h sd \<Rightarrow> (u32 \<times> 'h sd) res" where
  "send_checked hw ix argf s =
    (if length sdCommandTable \<le> ix then Inl (Fault ''sdCommandTable'')
     else bnd (if ix \<ge> IX_APP_CMD_START then sdSendAppCommand hw s else Inr (SD_OK, s)) (\<lambda>(r, s).
       if r \<noteq> 0 then sdDebugResponse hw r s
       else
         let (r, s) = sdSendCommandP hw (sdCommandTable ! ix) (argf s) s in
         if r \<noteq> 0 then Inr (r, s)
         else if ix \<ge> IX_APP_CMD_START \<and> rca (sdCard s) \<noteq> 0 \<and> status (sdCard s) AND ST_APP_CMD = 0
         then Inr (SD_ERROR_APP_CMD, s) else Inr (r, s)))"

definition sdSendCommand :: "'h emmc \<Rightarrow> nat \<Rightarrow> 'h sd \<Rightarrow> (u32 \<times> 'h sd) res" where
  "sdSendCommand hw ix = send_checked hw ix (\<lambda>s. if rca_yes (sdCommandTable ! ix) then rca (sdCard s) else 0)"

definition sdSendCommandA :: "'h emmc \<Rightarrow> nat \<Rightarrow> u32 \<Rightarrow> 'h sd \<Rightarrow> (u32 \<times> 'h sd) res" where
  "sdSendCommandA hw ix arg = send_checked hw ix (\<lambda>s. arg)"

section \<open>The request queue\<close>

definition init_buflist :: "nat \<Rightarrow> (nat \<Rightarrow> buf) \<Rightarrow> nat \<Rightarrow> buf" where
  "init_buflist head bs = bs(head := \<lparr>flags = 0, blockno = 0, bdata = replicate BLOCK_SIZE 0, qnext = None\<rparr>)"

partial_function (option) last_buf :: "(nat \<Rightarrow> buf) \<Rightarrow> nat \<Rightarrow> nat option" where
  "last_buf bs a = (case qnext (bs a) of None \<Rightarrow> Some a | Some b \<Rightarrow> last_buf bs b)"

definition buflist_push :: "nat \<Rightarrow> nat \<Rightarrow> (nat \<Rightarrow> buf) \<Rightarrow> (nat \<Rightarrow> buf) res" where
  "buflist_push n head bs =
    (case last_buf bs head of None \<Rightarrow> Inl (Blocked ''loop'')
     | Some tmp \<Rightarrow>
       let bs = bs(tmp := (bs tmp)\<lparr>qnext := Some n\<rparr>) in Inr (bs(n := (bs n)\<lparr>qnext := None\<rparr>)))"

definition buflist_front :: "nat \<Rightarrow> (nat \<Rightarrow> buf) \<Rightarrow> nat option" where
  "buflist_front head bs = qnext (bs head)"

definition buflist_pop :: "nat \<Rightarrow> (nat \<Rightarrow> buf) \<Rightarrow> (nat \<Rightarrow> buf) res" where
  "buflist_pop head bs =
    (case qnext (bs head) of None \<Rightarrow> Inl (Fault ''null pointer'')
     | Some a \<Rightarrow> Inr (bs(head := (bs head)\<lparr>qnext := qnext (bs a)\<rparr>)))"

definition buflist_empty :: "nat \<Rightarrow> (nat \<Rightarrow> buf) \<Rightarrow> bool" where
  "buflist_empty head bs \<longleftrightarrow> qnext (bs head) = None"

section \<open>Transfers\<close>

text \<open>The data port: 128 words of 32 bits, the bytes of a block in little-endian order.\<close>

primrec get_words :: "'h emmc \<Rightarrow> nat \<Rightarrow> 'h \<Rightarrow> nat list \<times> 'h" where
  "get_words hw 0 h = ([], h)"
| "get_words hw (Suc n) h =
     (let (w, h) = reg_get hw EMMC_DATA h; (ws, h) = get_words hw n h in (unat w # ws, h))"

primrec put_words :: "'h emmc \<Rightarrow> nat list \<Rightarrow> 'h \<Rightarrow> 'h" where
  "put_words hw [] h = h"
| "put_words hw (w # ws) h = put_words hw ws (reg_put hw EMMC_DATA (word_of_nat w) h)"

text \<open>\<open>data\<close> is at offset 8 of \<open>struct buf\<close>.\<close>

definition sd_start :: "'h emmc \<Rightarrow> nat \<Rightarrow> 'h sd \<Rightarrow> 'h sd res" where
  "sd_start hw a s =
    (let b = bufs s a;
         bno = (if stype (sdCard s) = SD_TYPE_2_HC then blockno b else push_bit 9 (blockno b));
         write = (flags b AND B_DIRTY \<noteq> 0);
         (i, h) = reg_get hw EMMC_INTERRUPT (host s) in
     bnd (chk (i = 0) ''emmc interrupt flag should be empty'') (\<lambda>_.
     let cmd = (if write then IX_WRITE_SINGLE else IX_READ_SINGLE);
         h = reg_put hw EMMC_BLKSIZECNT 512 h in
     bnd (sdSendCommandA hw cmd bno (s\<lparr>host := h\<rparr>)) (\<lambda>(r, s).
     bnd (chk (r = 0) ''* EMMC send command error.'') (\<lambda>_.
     bnd (chk ((a + 8) mod 4 = 0) ''Only support word-aligned buffers.'') (\<lambda>_.
     if write then
       let (r, h) = sdWaitForInterrupt hw INT_WRITE_RDY (host s) in
       bnd (chk (r = 0) ''* EMMC ERROR: Timeout waiting for ready to write'') (\<lambda>_.
       let (i, h) = reg_get hw EMMC_INTERRUPT h in
       bnd (chk (i = 0) ''emmc interrupt'') (\<lambda>_.
       Inr (s\<lparr>host := put_words hw (nats_of 4 128 (bdata b)) h\<rparr>)))
     else Inr s)))))"

text \<open>The body of \<open>sd_intr\<close> for a queue that is not empty.\<close>

definition take_data :: "'h emmc \<Rightarrow> nat \<Rightarrow> bool \<Rightarrow> 'h sd \<Rightarrow> 'h sd" where
  "take_data hw a write s =
    (if write then s
     else let (ws, h) = get_words hw 128 (host s); (_, h) = sdWaitForInterrupt hw INT_DATA_DONE h in
       s\<lparr>bufs := (bufs s)(a := (bufs s a)\<lparr>bdata := of_nats 4 ws\<rparr>), host := h\<rparr>)"

definition mark_done :: "nat \<Rightarrow> 'h sd \<Rightarrow> 'h sd" where
  "mark_done a s =
    (let b = bufs s a in
     s\<lparr>bufs := (bufs s)(a := b\<lparr>flags := (flags b OR B_VALID) AND NOT B_DIRTY\<rparr>), woken := woken s @ [a]\<rparr>)"

definition finish_front :: "'h emmc \<Rightarrow> nat \<Rightarrow> bool \<Rightarrow> 'h sd \<Rightarrow> 'h sd res" where
  "finish_front hw a write s =
    (let s = mark_done a (take_data hw a write s) in
     bnd (buflist_pop (sdque s) (bufs s)) (\<lambda>bs.
     let s = s\<lparr>bufs := bs\<rparr> in
     case buflist_front (sdque s) (bufs s) of None \<Rightarrow> Inr s | Some a' \<Rightarrow> sd_start hw a' s))"

definition serve_interrupt :: "'h emmc \<Rightarrow> 'h sd \<Rightarrow> 'h sd res" where
  "serve_interrupt hw s =
    (let (i, h) = reg_get hw EMMC_INTERRUPT (host s) in
     bnd (chk (i AND INT_DATA_DONE \<noteq> 0 \<or> i AND INT_READ_RDY \<noteq> 0) ''unexpected sd intr'') (\<lambda>_.
     let s = s\<lparr>host := reg_put hw EMMC_INTERRUPT i h\<rparr> in
     case buflist_front (sdque s) (bufs s) of None \<Rightarrow> Inl (Fault ''null pointer'')
     | Some a \<Rightarrow>
       let write = (flags (bufs s a) AND B_DIRTY \<noteq> 0) in
       if write \<and> i = INT_DATA_DONE \<or> \<not> write \<and> i = INT_READ_RDY then finish_front hw a write s else sd_start hw a s))"

definition sd_intr :: "'h emmc \<Rightarrow> nat \<Rightarrow> 'h sd \<Rightarrow> 'h sd res" where
  "sd_intr hw me s =
    bnd (acquire_spinlock me (sdlock s)) (\<lambda>l. let s = s\<lparr>sdlock := l\<rparr> in
    bnd (if buflist_empty (sdque s) (bufs s)
         then Inr (s\<lparr>host := snd (reg_get hw EMMC_INTERRUPT (host s))\<rparr>)
         else serve_interrupt hw s) (\<lambda>s.
    bnd (release_spinlock me (sdlock s)) (\<lambda>l. Inr (s\<lparr>sdlock := l\<rparr>))))"

text \<open>\<open>sdrw\<close> in three parts: the two statements before the lock is taken; from there to the \<open>sleep\<close>, which releases the
  lock; and from the return of \<open>sleep\<close>, which has taken the lock again, to the next \<open>sleep\<close> (\<open>False\<close>) or the end (\<open>True\<close>).\<close>

definition sdrw_push :: "nat \<Rightarrow> 'h sd \<Rightarrow> (bool \<times> 'h sd) res" where
  "sdrw_push a s =
    (let flag = buflist_empty (sdque s) (bufs s) in
     bnd (buflist_push a (sdque s) (bufs s)) (\<lambda>bs. Inr (flag, s\<lparr>bufs := bs\<rparr>)))"

definition sdrw_start :: "'h emmc \<Rightarrow> nat \<Rightarrow> bool \<Rightarrow> 'h sd \<Rightarrow> 'h sd res" where
  "sdrw_start hw me flag s =
    bnd (acquire_spinlock me (sdlock s)) (\<lambda>l. let s = s\<lparr>sdlock := l\<rparr> in
    bnd (if flag then
           (case buflist_front (sdque s) (bufs s) of None \<Rightarrow> Inl (Fault ''null pointer'') | Some a \<Rightarrow> sd_start hw a s)
         else Inr s) (\<lambda>s.
    bnd (release_spinlock me (sdlock s)) (\<lambda>l. Inr (s\<lparr>sdlock := l\<rparr>))))"

definition sdrw_resume :: "nat \<Rightarrow> nat \<Rightarrow> 'h sd \<Rightarrow> (bool \<times> 'h sd) res" where
  "sdrw_resume me a s =
    bnd (acquire_spinlock me (sdlock s)) (\<lambda>l. let s = s\<lparr>sdlock := l\<rparr>; f = flags (bufs s a) in
    if f AND B_VALID \<noteq> 0 \<and> NOT f AND B_DIRTY \<noteq> 0 then
      bnd (if holding_spinlock me (sdlock s) then release_spinlock me (sdlock s) else Inr (sdlock s)) (\<lambda>l.
      Inr (True, s\<lparr>sdlock := l\<rparr>))
    else bnd (release_spinlock me (sdlock s)) (\<lambda>l. Inr (False, s\<lparr>sdlock := l\<rparr>)))"

text \<open>A call of \<open>sdrw\<close> by the only thread that uses the card: while it sleeps, time passes and interrupts are
  served; a \<open>wakeup(b)\<close> lets it go on.  \<open>n\<close> bounds the number of such events.\<close>

primrec sdrw_wait :: "'h emmc \<Rightarrow> nat \<Rightarrow> nat \<Rightarrow> nat \<Rightarrow> 'h sd \<Rightarrow> 'h sd res" where
  "sdrw_wait hw me 0 a s = Inl (Blocked ''sleep'')"
| "sdrw_wait hw me (Suc n) a s =
     (if a \<in> set (woken s) then
        bnd (sdrw_resume me a (s\<lparr>woken := []\<rparr>)) (\<lambda>(done, s). if done then Inr s else sdrw_wait hw me n a s)
      else if irq_line hw (host s) then bnd (sd_intr hw me s) (sdrw_wait hw me n a)
      else sdrw_wait hw me n a (s\<lparr>host := delayus hw 1 (host s)\<rparr>))"

definition sdrw :: "'h emmc \<Rightarrow> nat \<Rightarrow> nat \<Rightarrow> nat \<Rightarrow> 'h sd \<Rightarrow> 'h sd res" where
  "sdrw hw me n a s =
    bnd (sdrw_push a s) (\<lambda>(flag, s). bnd (sdrw_start hw me flag s) (\<lambda>s. sdrw_wait hw me n a (s\<lparr>woken := []\<rparr>)))"

end
