(* ===== verification/SdHost.thy ===== *)
theory SdHost
  imports Sd
begin

text \<open>
  What the driver relies on in the host controller and the card (SD Host Controller Simplified Specification, SD Physical
  Layer Simplified Specification), and what the routines of \<open>driver/sd.c\<close> do on such hardware.

  The state of the hardware is seen as a \<open>card\<close>: a command that may be waiting for its completion interrupt, a
  single-block transfer and its progress, the argument and block size registers, and the sectors.  A \<^emph>\<open>lag\<close> bounds how long an
  interrupt can still take: it never grows, and waiting makes it smaller; at 0 the interrupt flag is set.
\<close>

section \<open>The contract of the hardware\<close>

datatype xfer = NoXfer
  | ReadWait nat nat | ReadFifo nat nat | ReadEnd nat
  | WriteWait nat nat | WriteFifo nat "u32 list" | WriteEnd nat bytes nat

record card =
  cmd_lag :: "nat option"
  xfer :: xfer
  arg1 :: u32
  blksize :: u32
  sector :: "nat \<Rightarrow> bytes"

fun xfer_irq :: "xfer \<Rightarrow> u32" where
  "xfer_irq (ReadWait b 0) = INT_READ_RDY"
| "xfer_irq (WriteWait b 0) = INT_WRITE_RDY"
| "xfer_irq (ReadEnd 0) = INT_DATA_DONE"
| "xfer_irq (WriteEnd b d 0) = INT_DATA_DONE"
| "xfer_irq _ = 0"

definition irq :: "card \<Rightarrow> u32" where
  "irq c = (if cmd_lag c = Some 0 then INT_CMD_DONE else 0) OR xfer_irq (xfer c)"

text \<open>Writing ones to the interrupt register clears the flags; the transfer goes on.  The sector that was written holds its
  new content once \<open>DATA_DONE\<close> is acknowledged.\<close>

fun ack_xfer :: "u32 \<Rightarrow> xfer \<Rightarrow> xfer" where
  "ack_xfer v (ReadWait b 0) = (if v AND INT_READ_RDY \<noteq> 0 then ReadFifo b 0 else ReadWait b 0)"
| "ack_xfer v (WriteWait b 0) = (if v AND INT_WRITE_RDY \<noteq> 0 then WriteFifo b [] else WriteWait b 0)"
| "ack_xfer v (ReadEnd 0) = (if v AND INT_DATA_DONE \<noteq> 0 then NoXfer else ReadEnd 0)"
| "ack_xfer v (WriteEnd b d 0) = (if v AND INT_DATA_DONE \<noteq> 0 then NoXfer else WriteEnd b d 0)"
| "ack_xfer v x = x"

definition ack :: "u32 \<Rightarrow> card \<Rightarrow> card" where
  "ack v c = c\<lparr>cmd_lag := (if v AND INT_CMD_DONE \<noteq> 0 \<and> cmd_lag c = Some 0 then None else cmd_lag c), xfer := ack_xfer v (xfer c),
     sector := (case xfer c of WriteEnd b d l \<Rightarrow> if l = 0 \<and> v AND INT_DATA_DONE \<noteq> 0 then (sector c)(b := d) else sector c | _ \<Rightarrow> sector c)\<rparr>"

text \<open>Time has passed: every lag has shrunk by at least \<open>k\<close>, or has reached 0.\<close>

fun aged_xfer :: "nat \<Rightarrow> xfer \<Rightarrow> xfer \<Rightarrow> bool" where
  "aged_xfer k (ReadWait b l) y = (\<exists>l'\<le>l - k. y = ReadWait b l')"
| "aged_xfer k (WriteWait b l) y = (\<exists>l'\<le>l - k. y = WriteWait b l')"
| "aged_xfer k (ReadEnd l) y = (\<exists>l'\<le>l - k. y = ReadEnd l')"
| "aged_xfer k (WriteEnd b d l) y = (\<exists>l'\<le>l - k. y = WriteEnd b d l')"
| "aged_xfer k x y = (y = x)"

definition aged :: "nat \<Rightarrow> card \<Rightarrow> card \<Rightarrow> bool" where
  "aged k c c' \<longleftrightarrow> arg1 c' = arg1 c \<and> blksize c' = blksize c \<and> sector c' = sector c \<and> aged_xfer k (xfer c) (xfer c') \<and>
     (case cmd_lag c of None \<Rightarrow> cmd_lag c' = None | Some l \<Rightarrow> \<exists>l'\<le>l - k. cmd_lag c' = Some l')"

text \<open>Cards of high capacity are addressed by sector, others by byte.\<close>

definition sector_of :: "bool \<Rightarrow> u32 \<Rightarrow> nat" where
  "sector_of hc a = (if hc then unat a else unat a div 512)"

definition xfer_code :: "bool \<Rightarrow> u32" where
  "xfer_code wr = code (sdCommandTable ! (if wr then IX_WRITE_SINGLE else IX_READ_SINGLE))"

text \<open>\<open>host_ok hw V hc N L\<close>: the hardware \<open>hw\<close>, seen through \<open>V\<close>, is a controller with a working card of \<open>N\<close> sectors (of high
  capacity when \<open>hc\<close>), every interrupt of which comes within \<open>L\<close> microseconds.\<close>

definition host_ok :: "'h emmc \<Rightarrow> ('h \<Rightarrow> card) \<Rightarrow> bool \<Rightarrow> nat \<Rightarrow> nat \<Rightarrow> bool" where
  "host_ok hw V hc N L \<longleftrightarrow> L < 1000000 \<and>
    (\<forall>h b. length (sector (V h) b) = BLOCK_SIZE) \<and>
    (\<forall>h. irq_line hw h \<longleftrightarrow> irq (V h) AND (INT_DATA_DONE OR INT_READ_RDY) \<noteq> 0) \<and>
    (\<forall>h n. 0 < n \<longrightarrow> aged 1 (V h) (V (delayus hw n h))) \<and>
    (\<forall>h r. r \<noteq> EMMC_DATA \<longrightarrow> aged 0 (V h) (V (snd (reg_get hw r h)))) \<and>
    (\<forall>h. fst (reg_get hw EMMC_INTERRUPT h) = irq (V h)) \<and>
    (\<forall>h. cmd_lag (V h) = None \<longrightarrow> fst (reg_get hw EMMC_STATUS h) AND SR_CMD_INHIBIT = 0) \<and>
    (\<forall>h. xfer (V h) \<noteq> NoXfer \<longrightarrow> fst (reg_get hw EMMC_RESP0 h) AND R1_ERRORS_MASK = 0) \<and>
    (\<forall>h v. aged 0 (ack v (V h)) (V (reg_put hw EMMC_INTERRUPT v h))) \<and>
    (\<forall>h v. aged 0 ((V h)\<lparr>arg1 := v\<rparr>) (V (reg_put hw EMMC_ARG1 v h))) \<and>
    (\<forall>h v. aged 0 ((V h)\<lparr>blksize := v\<rparr>) (V (reg_put hw EMMC_BLKSIZECNT v h))) \<and>
    (\<forall>h wr. cmd_lag (V h) = None \<and> xfer (V h) = NoXfer \<and> blksize (V h) = 512 \<and> sector_of hc (arg1 (V h)) < N \<longrightarrow>
       (\<exists>l\<le>L. \<exists>l'\<le>L. V (reg_put hw EMMC_CMDTM (xfer_code wr) h) = (V h)\<lparr>cmd_lag := Some l,
          xfer := (if wr then WriteWait else ReadWait) (sector_of hc (arg1 (V h))) l'\<rparr>)) \<and>
    (\<forall>h b k. xfer (V h) = ReadFifo b k \<and> k < 128 \<longrightarrow>
       unat (fst (reg_get hw EMMC_DATA h)) = nats_of 4 128 (sector (V h) b) ! k \<and>
       (\<exists>l\<le>L. V (snd (reg_get hw EMMC_DATA h)) = (V h)\<lparr>xfer := if k = 127 then ReadEnd l else ReadFifo b (Suc k)\<rparr>)) \<and>
    (\<forall>h b ws w. xfer (V h) = WriteFifo b ws \<and> length ws < 128 \<longrightarrow>
       (\<exists>l\<le>L. V (reg_put hw EMMC_DATA w h) = (V h)\<lparr>xfer :=
          if length ws = 127 then WriteEnd b (of_nats 4 (map unat (ws @ [w]))) l else WriteFifo b (ws @ [w])\<rparr>))"

lemma host_okD:
  assumes "host_ok hw V hc N L"
  shows "L < 1000000" "length (sector (V h) b) = BLOCK_SIZE"
    "irq_line hw h \<longleftrightarrow> irq (V h) AND (INT_DATA_DONE OR INT_READ_RDY) \<noteq> 0"
    "0 < n \<Longrightarrow> aged 1 (V h) (V (delayus hw n h))"
    "r \<noteq> EMMC_DATA \<Longrightarrow> aged 0 (V h) (V (snd (reg_get hw r h)))"
    "fst (reg_get hw EMMC_INTERRUPT h) = irq (V h)"
    "cmd_lag (V h) = None \<Longrightarrow> fst (reg_get hw EMMC_STATUS h) AND SR_CMD_INHIBIT = 0"
    "xfer (V h) \<noteq> NoXfer \<Longrightarrow> fst (reg_get hw EMMC_RESP0 h) AND R1_ERRORS_MASK = 0"
    "aged 0 (ack v (V h)) (V (reg_put hw EMMC_INTERRUPT v h))"
    "aged 0 ((V h)\<lparr>arg1 := v\<rparr>) (V (reg_put hw EMMC_ARG1 v h))"
    "aged 0 ((V h)\<lparr>blksize := v\<rparr>) (V (reg_put hw EMMC_BLKSIZECNT v h))"
    "\<lbrakk>cmd_lag (V h) = None; xfer (V h) = NoXfer; blksize (V h) = 512; sector_of hc (arg1 (V h)) < N\<rbrakk> \<Longrightarrow>
       \<exists>l\<le>L. \<exists>l'\<le>L. V (reg_put hw EMMC_CMDTM (xfer_code wr) h) = (V h)\<lparr>cmd_lag := Some l,
          xfer := (if wr then WriteWait else ReadWait) (sector_of hc (arg1 (V h))) l'\<rparr>"
    "\<lbrakk>xfer (V h) = ReadFifo b k; k < 128\<rbrakk> \<Longrightarrow> unat (fst (reg_get hw EMMC_DATA h)) = nats_of 4 128 (sector (V h) b) ! k \<and>
       (\<exists>l\<le>L. V (snd (reg_get hw EMMC_DATA h)) = (V h)\<lparr>xfer := if k = 127 then ReadEnd l else ReadFifo b (Suc k)\<rparr>)"
    "\<lbrakk>xfer (V h) = WriteFifo b ws; length ws < 128\<rbrakk> \<Longrightarrow>
       \<exists>l\<le>L. V (reg_put hw EMMC_DATA w h) = (V h)\<lparr>xfer :=
          if length ws = 127 then WriteEnd b (of_nats 4 (map unat (ws @ [w]))) l else WriteFifo b (ws @ [w])\<rparr>"
proof -
  note H0 = assms [unfolded host_ok_def]
  show "L < 1000000" by (rule H0 [THEN conjunct1])
  note H1 = H0 [THEN conjunct2]
  show "length (sector (V h) b) = BLOCK_SIZE" by (rule H1 [THEN conjunct1, rule_format])
  note H2 = H1 [THEN conjunct2]
  show "irq_line hw h \<longleftrightarrow> irq (V h) AND (INT_DATA_DONE OR INT_READ_RDY) \<noteq> 0" by (rule H2 [THEN conjunct1, rule_format])
  note H3 = H2 [THEN conjunct2]
  show "aged 1 (V h) (V (delayus hw n h))" if "0 < n"
    by (rule H3 [THEN conjunct1, rule_format]) (use that in simp_all)
  note H4 = H3 [THEN conjunct2]
  show "aged 0 (V h) (V (snd (reg_get hw r h)))" if "r \<noteq> EMMC_DATA"
    by (rule H4 [THEN conjunct1, rule_format]) (use that in simp_all)
  note H5 = H4 [THEN conjunct2]
  show "fst (reg_get hw EMMC_INTERRUPT h) = irq (V h)" by (rule H5 [THEN conjunct1, rule_format])
  note H6 = H5 [THEN conjunct2]
  show "fst (reg_get hw EMMC_STATUS h) AND SR_CMD_INHIBIT = 0" if "cmd_lag (V h) = None"
    by (rule H6 [THEN conjunct1, rule_format]) (use that in simp_all)
  note H7 = H6 [THEN conjunct2]
  show "fst (reg_get hw EMMC_RESP0 h) AND R1_ERRORS_MASK = 0" if "xfer (V h) \<noteq> NoXfer"
    by (rule H7 [THEN conjunct1, rule_format]) (use that in simp_all)
  note H8 = H7 [THEN conjunct2]
  show "aged 0 (ack v (V h)) (V (reg_put hw EMMC_INTERRUPT v h))" by (rule H8 [THEN conjunct1, rule_format])
  note H9 = H8 [THEN conjunct2]
  show "aged 0 ((V h)\<lparr>arg1 := v\<rparr>) (V (reg_put hw EMMC_ARG1 v h))" by (rule H9 [THEN conjunct1, rule_format])
  note H10 = H9 [THEN conjunct2]
  show "aged 0 ((V h)\<lparr>blksize := v\<rparr>) (V (reg_put hw EMMC_BLKSIZECNT v h))" by (rule H10 [THEN conjunct1, rule_format])
  note H11 = H10 [THEN conjunct2]
  show "\<exists>l\<le>L. \<exists>l'\<le>L. V (reg_put hw EMMC_CMDTM (xfer_code wr) h) = (V h)\<lparr>cmd_lag := Some l,
          xfer := (if wr then WriteWait else ReadWait) (sector_of hc (arg1 (V h))) l'\<rparr>" if "cmd_lag (V h) = None" "xfer (V h) = NoXfer" "blksize (V h) = 512" "sector_of hc (arg1 (V h)) < N"
    by (rule H11 [THEN conjunct1, rule_format]) (use that in simp)
  note H12 = H11 [THEN conjunct2]
  show "unat (fst (reg_get hw EMMC_DATA h)) = nats_of 4 128 (sector (V h) b) ! k \<and>
       (\<exists>l\<le>L. V (snd (reg_get hw EMMC_DATA h)) = (V h)\<lparr>xfer := if k = 127 then ReadEnd l else ReadFifo b (Suc k)\<rparr>)" if "xfer (V h) = ReadFifo b k" "k < 128"
    by (rule H12 [THEN conjunct1, rule_format]) (use that in simp)
  note H13 = H12 [THEN conjunct2]
  show "\<exists>l\<le>L. V (reg_put hw EMMC_DATA w h) = (V h)\<lparr>xfer :=
          if length ws = 127 then WriteEnd b (of_nats 4 (map unat (ws @ [w]))) l else WriteFifo b (ws @ [w])\<rparr>" if "xfer (V h) = WriteFifo b ws" "length ws < 128"
    by (rule H13 [rule_format]) (use that in simp)
qed

section \<open>Time and interrupt flags\<close>

lemma aged_xfer_trans: "\<lbrakk>aged_xfer j x y; aged_xfer k y z\<rbrakk> \<Longrightarrow> aged_xfer (j + k) x z"
  by (cases x) auto

lemma aged_trans:
  assumes "aged j a b" "aged k b c"
  shows "aged (j + k) a c"
proof -
  have x: "aged_xfer (j + k) (xfer a) (xfer c)" using assms aged_xfer_trans by (auto simp: aged_def)
  show ?thesis
  proof (cases "cmd_lag a")
    case None
    then show ?thesis using assms x by (auto simp: aged_def)
  next
    case (Some l)
    then obtain l1 where "cmd_lag b = Some l1" "l1 \<le> l - j" using assms(1) by (auto simp: aged_def)
    then obtain l2 where "cmd_lag c = Some l2" "l2 \<le> l1 - k" using assms(2) by (auto simp: aged_def)
    then have "cmd_lag c = Some l2" "l2 \<le> l - (j + k)" using \<open>l1 \<le> l - j\<close> by simp_all
    then show ?thesis using assms x Some by (auto simp: aged_def)
  qed
qed

lemma aged_xfer_refl [simp]: "aged_xfer 0 x x"
  by (cases x) auto

lemma aged_refl [simp]: "aged 0 c c"
  by (auto simp: aged_def split: option.splits)

lemma aged_weaken: "aged k c c' \<Longrightarrow> aged 0 c c'"
  by (cases "xfer c") (fastforce simp: aged_def split: option.splits)+

text \<open>The lag of the interrupt with flag \<open>m\<close>, where one is under way.\<close>

definition lag_of :: "u32 \<Rightarrow> card \<Rightarrow> nat option" where
  "lag_of m c = (if m = INT_CMD_DONE then cmd_lag c else
     case xfer c of ReadWait b l \<Rightarrow> if m = INT_READ_RDY then Some l else None
     | WriteWait b l \<Rightarrow> if m = INT_WRITE_RDY then Some l else None
     | ReadEnd l \<Rightarrow> if m = INT_DATA_DONE then Some l else None
     | WriteEnd b d l \<Rightarrow> if m = INT_DATA_DONE then Some l else None
     | _ \<Rightarrow> None)"

lemma lag_of_aged:
  assumes "lag_of m c = Some l" "aged k c c'"
  shows "\<exists>l'\<le>l - k. lag_of m c' = Some l'"
  using assms by (cases "xfer c") (auto simp: lag_of_def aged_def split: if_splits)

lemma xfer_irq_cases: "xfer_irq x \<in> {0, INT_READ_RDY, INT_WRITE_RDY, INT_DATA_DONE}"
  by (cases x rule: xfer_irq.cases) auto

lemma irq_no_error: "irq c AND INT_ERROR_MASK = 0" "irq c AND INT_CMD_TIMEOUT = 0" "irq c AND INT_DATA_TIMEOUT = 0"
  using xfer_irq_cases [of "xfer c"] by (auto simp: irq_def INT_ERROR_MASK_def bit.conj_disj_distrib2)

lemma irq_and:
  "m \<in> {INT_CMD_DONE, INT_READ_RDY, INT_WRITE_RDY, INT_DATA_DONE} \<Longrightarrow>
    irq c AND (m OR INT_ERROR_MASK) = (if lag_of m c = Some 0 then m else 0)"
  by (cases "xfer c" rule: xfer_irq.cases) (auto simp: irq_def lag_of_def INT_ERROR_MASK_def)

lemma lag_of_flag: "lag_of m c = Some l \<Longrightarrow> m \<in> {INT_CMD_DONE, INT_READ_RDY, INT_WRITE_RDY, INT_DATA_DONE}"
  by (auto simp: lag_of_def split: if_splits xfer.splits)

lemma lag_of_irq: "lag_of m c = Some l \<Longrightarrow> irq c AND (m OR INT_ERROR_MASK) \<noteq> 0 \<longleftrightarrow> l = 0"
  by (frule lag_of_flag) (auto simp: irq_and)

text \<open>Reading a register other than the data port, with the value and the new state.\<close>

lemma host_get:
  assumes "host_ok hw V hc N L" "r \<noteq> EMMC_DATA"
  obtains v h' where "reg_get hw r h = (v, h')" "aged 0 (V h) (V h')" "r = EMMC_INTERRUPT \<Longrightarrow> v = irq (V h)"
    "r = EMMC_STATUS \<Longrightarrow> cmd_lag (V h) = None \<Longrightarrow> v AND SR_CMD_INHIBIT = 0"
    "r = EMMC_RESP0 \<Longrightarrow> xfer (V h) \<noteq> NoXfer \<Longrightarrow> v AND R1_ERRORS_MASK = 0"
  using that [of "fst (reg_get hw r h)" "snd (reg_get hw r h)"] host_okD(5-8) [OF assms(1)] assms(2) by auto

section \<open>Waiting\<close>

lemma poll_interrupt_ok:
  assumes "host_ok hw V hc N L" "lag_of m (V h) = Some l" "l \<le> n"
  shows "\<exists>k h'. poll_interrupt hw (m OR INT_ERROR_MASK) n h = (int k, h') \<and> n \<le> k + l \<and> aged 0 (V h) (V h') \<and>
    lag_of m (V h') = Some 0"
  using assms(2,3)
proof (induction n arbitrary: h l)
  case 0
  obtain v h' where g: "reg_get hw EMMC_INTERRUPT h = (v, h')" "aged 0 (V h) (V h')" "v = irq (V h)"
    by (rule host_get [OF assms(1), of EMMC_INTERRUPT h]) auto
  then show ?case using 0 lag_of_irq [OF 0(1)] lag_of_aged [OF 0(1) g(2)] by auto
next
  case (Suc n)
  obtain v h' where g: "reg_get hw EMMC_INTERRUPT h = (v, h')" "aged 0 (V h) (V h')" "v = irq (V h)"
    by (rule host_get [OF assms(1), of EMMC_INTERRUPT h]) auto
  show ?case
  proof (cases "l = 0")
    case True
    then have "lag_of m (V h') = Some 0" using lag_of_aged [OF Suc.prems(1) g(2)] by simp
    then show ?thesis using g True lag_of_irq [OF Suc.prems(1)] by (auto simp: Let_def intro!: exI [of _ "Suc n"])
  next
    case False
    have "aged 1 (V h') (V (sd_delayus hw 1 h'))" using host_okD(4) [OF assms(1), of 3 h'] by (simp add: sd_delayus_def)
    then have a: "aged 1 (V h) (V (sd_delayus hw 1 h'))" using aged_trans [OF g(2)] by fastforce
    obtain l' where l': "l' \<le> l - 1" "lag_of m (V (sd_delayus hw 1 h')) = Some l'" using lag_of_aged [OF Suc.prems(1) a] by auto
    then have "l' \<le> n" using Suc.prems(2) by simp
    from Suc.IH [OF l'(2) this] obtain k h'' where "poll_interrupt hw (m OR INT_ERROR_MASK) n (sd_delayus hw 1 h') = (int k, h'')" "n \<le> k + l'"
      "aged 0 (V (sd_delayus hw 1 h')) (V h'')" "lag_of m (V h'') = Some 0" by blast
    then show ?thesis using g False l' lag_of_irq [OF Suc.prems(1)] aged_trans [OF aged_weaken [OF a]] by (auto simp: Let_def)
  qed
qed

lemma sdWaitForInterrupt_ok:
  assumes "host_ok hw V hc N L" "lag_of m (V h) = Some l" "l \<le> L"
  shows "\<exists>c h'. sdWaitForInterrupt hw m h = (SD_OK, h') \<and> aged 0 (V h) c \<and> lag_of m c = Some 0 \<and> aged 0 (ack m c) (V h')"
proof -
  have "l \<le> 1000000" using assms(3) host_okD(1) [OF assms(1)] by simp
  then obtain k h1 where p: "poll_interrupt hw (m OR INT_ERROR_MASK) 1000000 h = (int k, h1)" "1000000 \<le> k + l"
      "aged 0 (V h) (V h1)" "lag_of m (V h1) = Some 0"
    using poll_interrupt_ok [OF assms(1,2)] by blast
  obtain v h2 where g: "reg_get hw EMMC_INTERRUPT h1 = (v, h2)" "aged 0 (V h1) (V h2)" "v = irq (V h1)"
    by (rule host_get [OF assms(1), of EMMC_INTERRUPT h1]) auto
  have "lag_of m (V h2) = Some 0" using lag_of_aged [OF p(4) g(2)] by simp
  moreover have "aged 0 (V h) (V h2)" using aged_trans [OF p(3) g(2)] by simp
  moreover have "0 < k" using p(2) assms(3) host_okD(1) [OF assms(1)] by simp
  ultimately show ?thesis using p(1) g irq_no_error [of "V h1"] host_okD(9) [OF assms(1), of m h2]
    by (auto simp: sdWaitForInterrupt_def)
qed

text \<open>A command line that is free is used at once.\<close>

lemma sdWaitForCommand_ok:
  assumes "host_ok hw V hc N L" "cmd_lag (V h) = None"
  shows "\<exists>h'. sdWaitForCommand hw h = (SD_OK, h') \<and> aged 0 (V h) (V h')"
proof -
  obtain v h1 where g: "reg_get hw EMMC_STATUS h = (v, h1)" "aged 0 (V h) (V h1)" "v AND SR_CMD_INHIBIT = 0"
    by (rule host_get [OF assms(1), of EMMC_STATUS h]) (use assms(2) in auto)
  obtain i h2 where i: "reg_get hw EMMC_INTERRUPT h1 = (i, h2)" "aged 0 (V h1) (V h2)" "i = irq (V h1)"
    by (rule host_get [OF assms(1), of EMMC_INTERRUPT h1]) auto
  have "poll_command hw (Suc n) h = (int (Suc n), h1)" for n by (simp add: g(1,3))
  from this [of 999999] have "poll_command hw 1000000 h = (1000000, h1)" by (simp del: poll_command.simps)
  then show ?thesis using i irq_no_error(1) [of "V h1"] aged_trans [OF g(2) i(2)] by (simp add: sdWaitForCommand_def)
qed

section \<open>Starting a transfer\<close>

definition idle :: "card \<Rightarrow> bool" where
  "idle c \<longleftrightarrow> cmd_lag c = None \<and> xfer c = NoXfer"

lemma idle_aged: "\<lbrakk>idle c; aged k c c'\<rbrakk> \<Longrightarrow> idle c' \<and> sector c' = sector c \<and> arg1 c' = arg1 c \<and> blksize c' = blksize c"
  by (auto simp: idle_def aged_def)

lemma idle_ack [simp]: "idle c \<Longrightarrow> ack v c = c"
  by (simp add: idle_def ack_def)

lemma idle_irq [simp]: "idle c \<Longrightarrow> irq c = 0"
  by (simp add: idle_def irq_def)

lemma idle_fields [simp]: "idle (c\<lparr>arg1 := v\<rparr>) = idle c" "idle (c\<lparr>blksize := v\<rparr>) = idle c"
  by (simp_all add: idle_def)

text \<open>What the driver keeps while it talks to the hardware.\<close>

definition keeps :: "'h sd \<Rightarrow> 'h sd \<Rightarrow> bool" where
  "keeps s s' \<longleftrightarrow> bufs s' = bufs s \<and> sdque s' = sdque s \<and> sdlock s' = sdlock s \<and> woken s' = woken s \<and>
     stype (sdCard s') = stype (sdCard s)"

text \<open>The transfer is prepared: the command is done, and the card will ask for the data or offer it.\<close>

definition prepared :: "bool \<Rightarrow> nat \<Rightarrow> nat \<Rightarrow> card \<Rightarrow> bool" where
  "prepared wr b L c \<longleftrightarrow> cmd_lag c = None \<and> (\<exists>l\<le>L. xfer c = (if wr then WriteWait else ReadWait) b l)"

lemma prepared_aged: "\<lbrakk>prepared wr b L c; aged k c c'\<rbrakk> \<Longrightarrow> prepared wr b L c' \<and> sector c' = sector c"
  by (cases wr) (force simp: prepared_def aged_def)+

lemma command_done:
  assumes "cmd_lag c = Some l" "xfer c = (if wr then WriteWait else ReadWait) b l'" "l' \<le> L"
    "aged 0 c c1" "lag_of INT_CMD_DONE c1 = Some 0" "aged 0 (ack INT_CMD_DONE c1) c2"
  shows "prepared wr b L c2 \<and> sector c2 = sector c"
proof -
  obtain l1 where l1: "l1 \<le> l'" "xfer c1 = (if wr then WriteWait else ReadWait) b l1" using assms(2,4)
    by (cases wr) (auto simp: aged_def)
  have s1: "sector c1 = sector c" "cmd_lag c1 = Some 0" using assms(4,5) by (simp_all add: aged_def lag_of_def)
  have "ack_xfer 1 (xfer c1) = xfer c1" using l1(2) by (cases wr; cases l1) simp_all
  then have "prepared wr b L (ack INT_CMD_DONE c1)" using s1 l1 assms(3)
    by (cases wr) (auto simp: prepared_def ack_def)
  moreover have "sector (ack INT_CMD_DONE c1) = sector c" using s1 l1(2) by (cases wr) (simp_all add: ack_def)
  ultimately show ?thesis using prepared_aged [OF _ assms(6)] by simp
qed

lemma send_transfer:
  assumes "host_ok hw V hc N L" "idle (V (host s))" "blksize (V (host s)) = 512" "sector_of hc a < N"
    "code cmd = xfer_code wr" "resp cmd = RESP_R1" "cdelay cmd = 0"
  shows "\<exists>s'. sdSendCommandP hw cmd a s = (SD_OK, s') \<and> keeps s s' \<and> prepared wr (sector_of hc a) L (V (host s')) \<and>
    sector (V (host s')) = sector (V (host s))"
proof -
  let ?c = "V (host s)"
  obtain h1 where w: "sdWaitForCommand hw (host s) = (SD_OK, h1)" "aged 0 ?c (V h1)"
    using sdWaitForCommand_ok [OF assms(1)] assms(2) by (auto simp: idle_def)
  obtain i h2 where i: "reg_get hw EMMC_INTERRUPT h1 = (i, h2)" "aged 0 (V h1) (V h2)" "i = irq (V h1)"
    by (rule host_get [OF assms(1), of EMMC_INTERRUPT h1]) auto
  have c2: "idle (V h2)" "sector (V h2) = sector ?c" "blksize (V h2) = 512" "i = 0"
    using idle_aged [OF assms(2) w(2)] idle_aged [OF _ i(2)] assms(3) i(3) by auto
  define h3 where "h3 = reg_put hw EMMC_ARG1 a (reg_put hw EMMC_INTERRUPT i h2)"
  have "aged 0 (V h2) (V (reg_put hw EMMC_INTERRUPT i h2))" using host_okD(9) [OF assms(1), of i h2] c2(1) by simp
  then have "idle (V (reg_put hw EMMC_INTERRUPT i h2))" "sector (V (reg_put hw EMMC_INTERRUPT i h2)) = sector ?c"
    "blksize (V (reg_put hw EMMC_INTERRUPT i h2)) = 512" using idle_aged [OF c2(1)] c2 by auto
  then have c3: "idle (V h3)" "sector (V h3) = sector ?c" "blksize (V h3) = 512" "arg1 (V h3) = a"
    using idle_aged [OF _ host_okD(10) [OF assms(1), of a]] unfolding h3_def by auto
  define h4 where "h4 = reg_put hw EMMC_CMDTM (xfer_code wr) h3"
  have "\<exists>l\<le>L. \<exists>l'\<le>L. V h4 = (V h3)\<lparr>cmd_lag := Some l, xfer := (if wr then WriteWait else ReadWait) (sector_of hc a) l'\<rparr>"
    using host_okD(12) [OF assms(1), of h3 wr] c3 assms(4) unfolding h4_def idle_def by simp
  then obtain l l' where l: "l \<le> L" "l' \<le> L"
      "V h4 = (V h3)\<lparr>cmd_lag := Some l, xfer := (if wr then WriteWait else ReadWait) (sector_of hc a) l'\<rparr>" by blast
  have "lag_of INT_CMD_DONE (V h4) = Some l" using l(3) by (simp add: lag_of_def)
  then obtain c1 h5 where d: "sdWaitForInterrupt hw INT_CMD_DONE h4 = (SD_OK, h5)" "aged 0 (V h4) c1"
      "lag_of INT_CMD_DONE c1 = Some 0" "aged 0 (ack INT_CMD_DONE c1) (V h5)"
    using sdWaitForInterrupt_ok [OF assms(1) _ l(1)] by blast
  have p: "prepared wr (sector_of hc a) L (V h5)" "sector (V h5) = sector ?c"
    using command_done [OF _ _ l(2) d(2-4), of l wr] l(3) c3 by auto
  obtain r h6 where r: "reg_get hw EMMC_RESP0 h5 = (r, h6)" "aged 0 (V h5) (V h6)" "r AND R1_ERRORS_MASK = 0"
    by (rule host_get [OF assms(1), of EMMC_RESP0 h5]) (use p(1) in \<open>auto simp: prepared_def split: if_splits\<close>)
  have "prepared wr (sector_of hc a) L (V h6)" "sector (V h6) = sector ?c" using prepared_aged [OF p(1) r(2)] p(2) by auto
  moreover have "sdSendCommandP hw cmd a s =
      (SD_OK, s\<lparr>sdCard := (sdCard s)\<lparr>lastCmd := Some cmd, lastArg := a, status := r, cardState := drop_bit 9 (r AND ST_CARD_STATE)\<rparr>, host := h6\<rparr>)"
    using w(1) i(1) d(1) r(1,3) assms(5-7) unfolding h3_def h4_def
    by (simp add: sdSendCommandP_def handle_response_def Let_def)
  ultimately show ?thesis by (auto simp: keeps_def)
qed

lemma put_words_ok:
  assumes "host_ok hw V hc N L" "xfer (V h) = WriteFifo b ws" "length ws + length us = 128" "us \<noteq> []" "\<forall>u\<in>set us. u < 2 ^ 32"
  shows "\<exists>l\<le>L. V (put_words hw us h) = (V h)\<lparr>xfer := WriteEnd b (of_nats 4 (map unat ws @ us)) l\<rparr>"
  using assms(2-5)
proof (induction us arbitrary: h ws)
  case Nil
  then show ?case by simp
next
  case (Cons u us)
  let ?h = "reg_put hw EMMC_DATA (word_of_nat u) h"
  have u: "unat (word_of_nat u :: u32) = u" using Cons.prems(4) by (simp add: unsigned_of_nat take_bit_nat_eq_self)
  obtain l where l: "l \<le> L" "V ?h = (V h)\<lparr>xfer := if length ws = 127 then WriteEnd b (of_nats 4 (map unat (ws @ [word_of_nat u]))) l
      else WriteFifo b (ws @ [word_of_nat u])\<rparr>"
    using host_okD(14) [OF assms(1) Cons.prems(1), of "word_of_nat u"] Cons.prems(2) by auto
  show ?case
  proof (cases "us = []")
    case True
    then show ?thesis using l u Cons.prems(2) by auto
  next
    case False
    then have "length ws \<noteq> 127" using Cons.prems(2) by (cases us) auto
    then show ?thesis using Cons.IH [of ?h "ws @ [word_of_nat u]"] Cons.prems False l(2) u by auto
  qed
qed

lemma get_words_ok:
  assumes "host_ok hw V hc N L" "xfer (V h) = ReadFifo b k" "k + n = 128" "0 < n"
  shows "\<exists>h' l. get_words hw n h = (drop k (nats_of 4 128 (sector (V h) b)), h') \<and> l \<le> L \<and> V h' = (V h)\<lparr>xfer := ReadEnd l\<rparr>"
  using assms(2-4)
proof (induction n arbitrary: h k)
  case 0
  then show ?case by simp
next
  case (Suc n)
  let ?ws = "nats_of 4 128 (sector (V h) b)"
  obtain w h1 where w: "reg_get hw EMMC_DATA h = (w, h1)" by fastforce
  obtain l where l: "l \<le> L" "V h1 = (V h)\<lparr>xfer := if k = 127 then ReadEnd l else ReadFifo b (Suc k)\<rparr>" "unat w = ?ws ! k"
    using host_okD(13) [OF assms(1) Suc.prems(1)] Suc.prems(2) w by auto
  have d: "drop k ?ws = unat w # drop (Suc k) ?ws" using l(3) Suc.prems(2) Cons_nth_drop_Suc [of k ?ws] by simp
  show ?case
  proof (cases "n = 0")
    case True
    then show ?thesis using w l d Suc.prems(2) by auto
  next
    case False
    then obtain h2 l2 where "get_words hw n h1 = (drop (Suc k) ?ws, h2)" "l2 \<le> L" "V h2 = (V h)\<lparr>xfer := ReadEnd l2\<rparr>"
      using Suc.IH [of h1 "Suc k"] Suc.prems(2) l(2) by auto
    then show ?thesis using w d by auto
  qed
qed

abbreviation dirty :: "buf \<Rightarrow> bool" where
  "dirty b \<equiv> flags b AND B_DIRTY \<noteq> 0"

text \<open>A request the driver can carry out: a word-aligned buffer and a sector of the card.\<close>

definition req_ok :: "bool \<Rightarrow> nat \<Rightarrow> nat \<Rightarrow> buf \<Rightarrow> bool" where
  "req_ok hc N a b \<longleftrightarrow> a mod 4 = 0 \<and> length (bdata b) = BLOCK_SIZE \<and> unat (blockno b) < N \<and> (\<not> hc \<longrightarrow> unat (blockno b) < 2 ^ 23)"

definition in_flight :: "nat \<Rightarrow> buf \<Rightarrow> card \<Rightarrow> bool" where
  "in_flight L b c \<longleftrightarrow> cmd_lag c = None \<and>
     (\<exists>l\<le>L. xfer c = (if dirty b then WriteEnd (unat (blockno b)) (bdata b) l else ReadWait (unat (blockno b)) l))"

lemma unat_push_bit9: "unat (b :: u32) < 2 ^ 23 \<Longrightarrow> unat (push_bit 9 b) = unat b * 512"
  by (simp add: unsigned_push_bit_eq push_bit_eq_mult unat_word_ariths)

lemma sector_of_arg: "req_ok hc N a b \<Longrightarrow> sector_of hc (if hc then blockno b else push_bit 9 (blockno b)) = unat (blockno b)"
  by (auto simp: req_ok_def sector_of_def unat_push_bit9)

lemma nats_of_bound32: "\<forall>u\<in>set (nats_of 4 k bs). u < 2 ^ 32"
  using nats_of_bound [of _ 4 k bs] by (auto dest!: bspec simp: power_numeral_even)

lemma xfer_command:
  "code (sdCommandTable ! (if wr then IX_WRITE_SINGLE else IX_READ_SINGLE)) = xfer_code wr"
  "resp (sdCommandTable ! (if wr then IX_WRITE_SINGLE else IX_READ_SINGLE)) = RESP_R1"
  "cdelay (sdCommandTable ! (if wr then IX_WRITE_SINGLE else IX_READ_SINGLE)) = 0"
  "length sdCommandTable = 39"
  by (cases wr; simp add: xfer_code_def sdCommandTable_def)+

lemma send_checked_plain:
  "\<lbrakk>ix < 32; sdSendCommandP hw (sdCommandTable ! ix) a s = (SD_OK, s')\<rbrakk> \<Longrightarrow> sdSendCommandA hw ix a s = Inr (SD_OK, s')"
  by (simp add: sdSendCommandA_def send_checked_def xfer_command(4))

lemma write_ready:
  assumes "prepared True b L c" "aged 0 c c1" "lag_of INT_WRITE_RDY c1 = Some 0" "aged 0 (ack INT_WRITE_RDY c1) c2"
  shows "cmd_lag c2 = None \<and> xfer c2 = WriteFifo b [] \<and> sector c2 = sector c"
proof -
  have "cmd_lag c1 = None" "xfer c1 = WriteWait b 0" "sector c1 = sector c"
    using assms(1-3) by (auto simp: prepared_def aged_def lag_of_def)
  then show ?thesis using assms(4) by (auto simp: ack_def aged_def)
qed

lemma sd_start_ok:
  assumes "host_ok hw V hc N L" "idle (V (host s))" "req_ok hc N a (bufs s a)" "stype (sdCard s) = SD_TYPE_2_HC \<longleftrightarrow> hc"
  shows "\<exists>s'. sd_start hw a s = Inr s' \<and> keeps s s' \<and> in_flight L (bufs s a) (V (host s')) \<and> sector (V (host s')) = sector (V (host s))"
proof -
  let ?c = "V (host s)" and ?b = "bufs s a"
  let ?arg = "if hc then blockno ?b else push_bit 9 (blockno ?b)"
  obtain h1 where i: "reg_get hw EMMC_INTERRUPT (host s) = (0, h1)" "aged 0 ?c (V h1)"
    by (rule host_get [OF assms(1), of EMMC_INTERRUPT "host s"]) (use assms(2) in auto)
  define h2 where "h2 = reg_put hw EMMC_BLKSIZECNT 512 h1"
  have c1: "idle (V h1)" "sector (V h1) = sector ?c" using idle_aged [OF assms(2) i(2)] by auto
  have c2: "idle (V h2)" "sector (V h2) = sector ?c" "blksize (V h2) = 512"
    using idle_aged [OF _ host_okD(11) [OF assms(1), of 512 h1]] c1 unfolding h2_def by auto
  let ?ix = "if dirty ?b then IX_WRITE_SINGLE else IX_READ_SINGLE"
  obtain s3 where s3: "sdSendCommandP hw (sdCommandTable ! ?ix) ?arg (s\<lparr>host := h2\<rparr>) = (SD_OK, s3)" "keeps (s\<lparr>host := h2\<rparr>) s3"
      "prepared (dirty ?b) (unat (blockno ?b)) L (V (host s3))" "sector (V (host s3)) = sector ?c"
    using send_transfer [OF assms(1), of "s\<lparr>host := h2\<rparr>" ?arg, OF _ _ _ xfer_command(1-3)] c2 sector_of_arg [OF assms(3)] assms(3)
    by (auto simp: req_ok_def)
  have "?ix < 32" by simp
  note cmd = send_checked_plain [OF this s3(1)]
  have al: "(a + 8) mod 4 = 0" using assms(3) by (simp add: req_ok_def mod_add_eq [symmetric])
  have k: "keeps s s3" using s3(2) by (simp add: keeps_def)
  show ?thesis
  proof (cases "dirty ?b")
    case False
    then have "sd_start hw a s = Inr s3" using cmd by (simp add: sd_start_def i(1) al assms(4) h2_def [symmetric] Let_def)
    then show ?thesis using k s3(3,4) False by (auto simp: in_flight_def prepared_def)
  next
    case True
    then obtain l where "l \<le> L" "lag_of INT_WRITE_RDY (V (host s3)) = Some l" using s3(3) by (auto simp: prepared_def lag_of_def)
    then obtain c h4 where w: "sdWaitForInterrupt hw INT_WRITE_RDY (host s3) = (SD_OK, h4)" "aged 0 (V (host s3)) c"
        "lag_of INT_WRITE_RDY c = Some 0" "aged 0 (ack INT_WRITE_RDY c) (V h4)"
      using sdWaitForInterrupt_ok [OF assms(1)] by blast
    have c4: "cmd_lag (V h4) = None" "xfer (V h4) = WriteFifo (unat (blockno ?b)) []" "sector (V h4) = sector ?c"
      using write_ready [OF _ w(2-4), of "unat (blockno ?b)" L] s3(3,4) True by auto
    obtain h5 where r: "reg_get hw EMMC_INTERRUPT h4 = (0, h5)" "aged 0 (V h4) (V h5)"
      by (rule host_get [OF assms(1), of EMMC_INTERRUPT h4]) (use c4 in \<open>auto simp: irq_def\<close>)
    have c5: "cmd_lag (V h5) = None" "xfer (V h5) = WriteFifo (unat (blockno ?b)) []" "sector (V h5) = sector ?c"
      using c4 r(2) by (auto simp: aged_def)
    let ?ws = "nats_of 4 128 (bdata ?b)"
    obtain l where l: "l \<le> L" "V (put_words hw ?ws h5) = (V h5)\<lparr>xfer := WriteEnd (unat (blockno ?b)) (of_nats 4 ?ws) l\<rparr>"
      using put_words_ok [OF assms(1) c5(2), of ?ws] nats_of_bound32 by (auto simp flip: length_0_conv)
    have "of_nats 4 ?ws = bdata ?b" using of_nats_nats_of [of 4 128 "bdata ?b"] assms(3) by (simp add: req_ok_def)
    moreover have "sd_start hw a s = Inr (s3\<lparr>host := put_words hw ?ws h5\<rparr>)"
      using cmd True w(1) r(1) by (simp add: sd_start_def i(1) al assms(4) h2_def [symmetric] Let_def)
    ultimately show ?thesis using k l c5 True by (auto simp: in_flight_def keeps_def)
  qed
qed

end
