(* ===== verification/SdQueue.thy ===== *)
theory SdQueue
  imports SdHost BlockDev
begin

text \<open>
  The request queue of \<open>driver/sd.c\<close> as a list, the effect of \<open>sd_intr\<close> and of each part of \<open>sdrw\<close> on it, and the steps of all
  threads and interrupts on one driver.
\<close>

section \<open>The linked list\<close>

fun chain :: "(nat \<Rightarrow> buf) \<Rightarrow> nat \<Rightarrow> nat list \<Rightarrow> bool" where
  "chain bs a [] \<longleftrightarrow> qnext (bs a) = None"
| "chain bs a (b # q) \<longleftrightarrow> qnext (bs a) = Some b \<and> chain bs b q"

definition is_queue :: "'h sd \<Rightarrow> nat list \<Rightarrow> bool" where
  "is_queue s q \<longleftrightarrow> chain (bufs s) (sdque s) q \<and> distinct (sdque s # q)"

text \<open>The part of a buffer that its owner sees.\<close>

type_synonym request = "u32 \<times> u32 \<times> bytes"

definition content :: "buf \<Rightarrow> request" where
  "content b = (flags b, blockno b, bdata b)"

lemma content_eq: "content b = content b' \<longleftrightarrow> flags b = flags b' \<and> blockno b = blockno b' \<and> bdata b = bdata b'"
  by (simp add: content_def)

lemma content_qnext [simp]: "content (b\<lparr>qnext := x\<rparr>) = content b"
  by (simp add: content_def)

lemma chain_cong: "\<lbrakk>chain bs a q; \<forall>x\<in>set (a # q). qnext (bs' x) = qnext (bs x)\<rbrakk> \<Longrightarrow> chain bs' a q"
  by (induction q arbitrary: a) auto

lemma chain_last_buf: "chain bs a q \<Longrightarrow> last_buf bs a = Some (last (a # q))"
  by (induction q arbitrary: a) (auto simp: last_buf.simps)

lemma chain_append:
  assumes "chain bs a q" "distinct (a # q)" "n \<notin> set (a # q)"
  shows "chain (bs(last (a # q) := (bs (last (a # q)))\<lparr>qnext := Some n\<rparr>, n := b\<lparr>qnext := None\<rparr>)) a (q @ [n])"
  using assms
proof (induction q arbitrary: a)
  case (Cons x q)
  then have "a \<noteq> last (x # q)" by (metis distinct.simps(2) last_in_set list.distinct(1))
  then show ?case using Cons by auto
qed auto

lemma buflist_push_ok:
  assumes "chain bs a q" "distinct (a # q)" "n \<notin> set (a # q)"
  shows "\<exists>bs'. buflist_push n a bs = Inr bs' \<and> chain bs' a (q @ [n]) \<and> (\<forall>x. content (bs' x) = content (bs x))"
proof -
  have "last (a # q) \<noteq> n" using assms(3) last_in_set [of "a # q"] by auto
  then show ?thesis using chain_last_buf [OF assms(1)] chain_append [OF assms, of "bs n"]
    by (auto simp: buflist_push_def content_def simp del: last.simps)
qed

lemma buflist_pop_ok:
  assumes "chain bs a (n # q)" "distinct (a # n # q)"
  shows "\<exists>bs'. buflist_pop a bs = Inr bs' \<and> chain bs' a q \<and> (\<forall>x. content (bs' x) = content (bs x))"
proof -
  let ?bs = "bs(a := (bs a)\<lparr>qnext := qnext (bs n)\<rparr>)"
  have "chain ?bs a q"
  proof (cases q)
    case (Cons m r)
    have "chain bs m r" "a \<notin> set (m # r)" using assms Cons by auto
    then have "chain ?bs m r" by (elim chain_cong) auto
    then show ?thesis using assms Cons by simp
  qed (use assms in simp)
  then show ?thesis using assms(1) by (auto simp: buflist_pop_def content_def)
qed

section \<open>An interrupt\<close>

text \<open>What serving a request does to its buffer and to the disk.\<close>

definition served :: "disk \<Rightarrow> buf \<Rightarrow> request" where
  "served d b = ((flags b OR B_VALID) AND NOT B_DIRTY, blockno b, if dirty b then bdata b else d (unat (blockno b)))"

definition served_disk :: "disk \<Rightarrow> buf \<Rightarrow> disk" where
  "served_disk d b = (if dirty b then d(unat (blockno b) := bdata b) else d)"

lemma in_flight_mono: "\<lbrakk>in_flight l b c; l \<le> L\<rbrakk> \<Longrightarrow> in_flight L b c"
  by (auto simp: in_flight_def intro: le_trans)

lemma in_flight_aged:
  assumes "in_flight L b c" "aged k c c'"
  shows "in_flight (L - k) b c' \<and> sector c' = sector c"
proof -
  define f where "f = (\<lambda>l. if dirty b then WriteEnd (unat (blockno b)) (bdata b) l else ReadWait (unat (blockno b)) l)"
  obtain l where "l \<le> L" "xfer c = f l" "cmd_lag c = None" using assms(1) by (auto simp: in_flight_def f_def)
  moreover obtain l' where "l' \<le> l - k" "xfer c' = f l'" using assms(2) calculation(2)
    by (cases "dirty b") (auto simp: aged_def f_def)
  ultimately have "\<exists>l\<le>L - k. xfer c' = f l" by (intro exI [of _ l']) simp
  then show ?thesis using assms(2) \<open>cmd_lag c = None\<close> by (simp add: in_flight_def aged_def f_def)
qed

text \<open>While a transfer is under way its interrupt comes closer, and comes.\<close>

lemma in_flight_delay:
  assumes "host_ok hw V hc N L" "in_flight l b (V h)"
  shows "in_flight (l - n) b (V ((delayus hw 1 ^^ n) h))"
proof (induction n)
  case (Suc n)
  have "aged 1 (V ((delayus hw 1 ^^ n) h)) (V (delayus hw 1 ((delayus hw 1 ^^ n) h)))" by (rule host_okD(4) [OF assms(1)]) simp
  from in_flight_aged [OF Suc this] show ?case by simp
qed (use assms(2) in simp)

lemma in_flight_now: "\<lbrakk>host_ok hw V hc N L; in_flight 0 b (V h)\<rbrakk> \<Longrightarrow> irq_line hw h"
  by (auto simp: host_okD(3) in_flight_def irq_def)

lemma in_flight_line:
  assumes "host_ok hw V hc N L" "in_flight L b (V h)" "irq_line hw h"
  shows "irq (V h) = (if dirty b then INT_DATA_DONE else INT_READ_RDY)"
    "xfer (V h) = (if dirty b then WriteEnd (unat (blockno b)) (bdata b) 0 else ReadWait (unat (blockno b)) 0)" "cmd_lag (V h) = None"
proof -
  obtain l where l: "cmd_lag (V h) = None" "xfer (V h) = (if dirty b then WriteEnd (unat (blockno b)) (bdata b) l else ReadWait (unat (blockno b)) l)"
    using assms(2) by (auto simp: in_flight_def)
  moreover have "l = 0" using l assms(3) unfolding host_okD(3) [OF assms(1)] by (cases l) (auto simp: irq_def split: if_splits)
  ultimately show "irq (V h) = (if dirty b then INT_DATA_DONE else INT_READ_RDY)"
    "xfer (V h) = (if dirty b then WriteEnd (unat (blockno b)) (bdata b) 0 else ReadWait (unat (blockno b)) 0)" "cmd_lag (V h) = None"
    by (simp_all add: irq_def)
qed

text \<open>Acknowledging the interrupt, and for a read taking the data from the port.\<close>

lemma read_fifo_block:
  assumes "host_ok hw V hc N L" "cmd_lag (V h) = None" "xfer (V h) = ReadFifo b 0"
  shows "\<exists>ws h1 h2 r. get_words hw 128 h = (ws, h1) \<and> sdWaitForInterrupt hw INT_DATA_DONE h1 = (r, h2) \<and> of_nats 4 ws = sector (V h) b \<and>
    idle (V h2) \<and> sector (V h2) = sector (V h)"
proof -
  obtain h1 l where g: "get_words hw 128 h = (nats_of 4 128 (sector (V h) b), h1)" "l \<le> L" "V h1 = (V h)\<lparr>xfer := ReadEnd l\<rparr>"
    using get_words_ok [OF assms(1,3), of 128] by auto
  have "lag_of INT_DATA_DONE (V h1) = Some l" using g(3) by (simp add: lag_of_def)
  then obtain c h2 where w: "sdWaitForInterrupt hw INT_DATA_DONE h1 = (SD_OK, h2)" "aged 0 (V h1) c" "lag_of INT_DATA_DONE c = Some 0"
      "aged 0 (ack INT_DATA_DONE c) (V h2)"
    using sdWaitForInterrupt_ok [OF assms(1) _ g(2)] by blast
  have "cmd_lag c = None" "xfer c = ReadEnd 0" "sector c = sector (V h)" using w(2,3) g(3) assms(2) by (auto simp: aged_def lag_of_def)
  then have "idle (ack INT_DATA_DONE c)" "sector (ack INT_DATA_DONE c) = sector (V h)" by (simp_all add: idle_def ack_def)
  then have "idle (V h2)" "sector (V h2) = sector (V h)" using idle_aged [OF _ w(4)] by auto
  moreover have "of_nats 4 (nats_of 4 128 (sector (V h) b)) = sector (V h) b"
    using of_nats_nats_of [of 4 128 "sector (V h) b"] host_okD(2) [OF assms(1), of h b] by simp
  ultimately show ?thesis using g(1) w(1) by blast
qed

text \<open>The state of the driver between the calls: \<open>q\<close> is the queue, every request in it can be carried out, and its first
  is under way.\<close>

definition card_state :: "nat \<Rightarrow> 'h sd \<Rightarrow> nat list \<Rightarrow> card \<Rightarrow> bool" where
  "card_state L s q c = (case q of [] \<Rightarrow> idle c | a # _ \<Rightarrow> in_flight L (bufs s a) c)"

definition drv_ok :: "('h \<Rightarrow> card) \<Rightarrow> bool \<Rightarrow> nat \<Rightarrow> nat \<Rightarrow> 'h sd \<Rightarrow> nat list \<Rightarrow> bool" where
  "drv_ok V hc N L s q \<longleftrightarrow> is_queue s q \<and> free_lock (sdlock s) \<and> (stype (sdCard s) = SD_TYPE_2_HC \<longleftrightarrow> hc) \<and>
     (\<forall>a\<in>set q. req_ok hc N a (bufs s a)) \<and> card_state L s q (V (host s))"

lemma req_ok_content: "content b = content b' \<Longrightarrow> req_ok hc N a b = req_ok hc N a b'"
  by (simp add: content_eq req_ok_def)

lemma in_flight_content: "content b = content b' \<Longrightarrow> in_flight L b c = in_flight L b' c"
  by (simp add: content_eq in_flight_def)

text \<open>Starting the first request of a queue on an idle card.\<close>

lemma start_front:
  assumes "host_ok hw V hc N L" "idle (V (host s))" "is_queue s q" "\<forall>a\<in>set q. req_ok hc N a (bufs s a)" "stype (sdCard s) = SD_TYPE_2_HC \<longleftrightarrow> hc"
  shows "\<exists>s'. (case buflist_front (sdque s) (bufs s) of None \<Rightarrow> Inr s | Some a \<Rightarrow> sd_start hw a s) = Inr s' \<and> keeps s s' \<and>
    card_state L s' q (V (host s')) \<and> sector (V (host s')) = sector (V (host s))"
proof (cases q)
  case Nil
  then show ?thesis using assms(2,3) by (simp add: is_queue_def buflist_front_def card_state_def keeps_def)
next
  case (Cons a r)
  then have f: "buflist_front (sdque s) (bufs s) = Some a" "req_ok hc N a (bufs s a)" using assms(3,4) by (auto simp: is_queue_def buflist_front_def)
  obtain s' where "sd_start hw a s = Inr s'" "keeps s s'" "in_flight L (bufs s a) (V (host s'))" "sector (V (host s')) = sector (V (host s))"
    using sd_start_ok [OF assms(1,2) f(2) assms(5)] by blast
  then show ?thesis using f(1) Cons by (simp add: card_state_def keeps_def)
qed

lemma finish_front_ok:
  assumes "host_ok hw V hc N L" "is_queue s (a # q)" "\<forall>a\<in>set q. req_ok hc N a (bufs s a)" "stype (sdCard s) = SD_TYPE_2_HC \<longleftrightarrow> hc"
    "if dirty (bufs s a) then idle (V (host s)) else cmd_lag (V (host s)) = None \<and> xfer (V (host s)) = ReadFifo (unat (blockno (bufs s a))) 0"
  shows "\<exists>s'. finish_front hw a (dirty (bufs s a)) s = Inr s' \<and> is_queue s' q \<and> sdlock s' = sdlock s \<and> stype (sdCard s') = stype (sdCard s) \<and>
    sdque s' = sdque s \<and> woken s' = woken s @ [a] \<and> sector (V (host s')) = sector (V (host s)) \<and> card_state L s' q (V (host s')) \<and>
    (\<forall>x. content (bufs s' x) = (if x = a then served (sector (V (host s))) (bufs s a) else content (bufs s x)))"
proof -
  let ?b = "bufs s a" and ?d = "sector (V (host s))"
  have "\<exists>h. take_data hw a (dirty ?b) s = s\<lparr>bufs := (bufs s)(a := ?b\<lparr>bdata := snd (snd (served ?d ?b))\<rparr>), host := h\<rparr> \<and> idle (V h) \<and> sector (V h) = ?d"
  proof (cases "dirty ?b")
    case True
    then show ?thesis using assms(5) by (intro exI [of _ "host s"]) (simp add: served_def take_data_def)
  next
    case False
    then obtain ws h1 h2 r where "get_words hw 128 (host s) = (ws, h1)" "sdWaitForInterrupt hw INT_DATA_DONE h1 = (r, h2)"
        "of_nats 4 ws = ?d (unat (blockno ?b))" "idle (V h2)" "sector (V h2) = ?d"
      using read_fifo_block [OF assms(1), of "host s" "unat (blockno ?b)"] assms(5) by auto
    then show ?thesis using False by (intro exI [of _ h2]) (simp add: served_def take_data_def)
  qed
  then obtain h where h: "take_data hw a (dirty ?b) s = s\<lparr>bufs := (bufs s)(a := ?b\<lparr>bdata := snd (snd (served ?d ?b))\<rparr>), host := h\<rparr>"
      "idle (V h)" "sector (V h) = ?d" by blast
  define b where "b = ?b\<lparr>bdata := snd (snd (served ?d ?b)), flags := (flags ?b OR B_VALID) AND NOT B_DIRTY\<rparr>"
  define s1 where "s1 = s\<lparr>bufs := (bufs s)(a := b), host := h, woken := woken s @ [a]\<rparr>"
  have m: "mark_done a (take_data hw a (dirty ?b) s) = s1" by (simp add: h(1) mark_done_def s1_def b_def)
  have b: "content b = served ?d ?b" "qnext b = qnext ?b" by (simp_all add: b_def content_def served_def)
  have "chain (bufs s1) (sdque s) (a # q)" "distinct (sdque s # a # q)" using assms(2) b(2) unfolding is_queue_def s1_def
    by (auto elim!: chain_cong)
  then obtain bs where bs: "buflist_pop (sdque s) (bufs s1) = Inr bs" "chain bs (sdque s) q" "\<forall>x. content (bs x) = content (bufs s1 x)"
    using buflist_pop_ok by blast
  define s2 where "s2 = s1\<lparr>bufs := bs\<rparr>"
  have q1: "sdque s1 = sdque s" by (simp add: s1_def)
  have c: "content (bufs s2 x) = (if x = a then served ?d ?b else content (bufs s x))" for x
    using bs(3) b(1) by (simp add: s2_def s1_def)
  have s2: "is_queue s2 q" "idle (V (host s2))" "stype (sdCard s2) = SD_TYPE_2_HC \<longleftrightarrow> hc"
    using bs(2) assms(2,4) h(2) by (simp_all add: is_queue_def s2_def s1_def)
  have "\<forall>x\<in>set q. req_ok hc N x (bufs s2 x)"
  proof
    fix x assume "x \<in> set q"
    then have "x \<noteq> a" "req_ok hc N x (bufs s x)" using assms(2,3) by (auto simp: is_queue_def)
    then show "req_ok hc N x (bufs s2 x)" using c [of x] req_ok_content by metis
  qed
  from start_front [OF assms(1) s2(2,1) this s2(3)] obtain s3 where s3:
    "(case buflist_front (sdque s2) (bufs s2) of None \<Rightarrow> Inr s2 | Some a \<Rightarrow> sd_start hw a s2) = Inr s3" "keeps s2 s3"
    "card_state L s3 q (V (host s3))" "sector (V (host s3)) = sector (V (host s2))" by blast
  have "finish_front hw a (dirty ?b) s = Inr s3"
    unfolding finish_front_def m Let_def using bs(1) s3(1) unfolding s2_def by (simp add: q1)
  then show ?thesis using s3 s2(1) c h(3) by (auto simp: keeps_def is_queue_def s2_def s1_def)
qed

text \<open>The state after the interrupt of the first request.\<close>

definition after_intr :: "('h \<Rightarrow> card) \<Rightarrow> 'h sd \<Rightarrow> nat \<Rightarrow> nat list \<Rightarrow> 'h sd \<Rightarrow> bool" where
  "after_intr V s a q s' \<longleftrightarrow> sdque s' = sdque s \<and> woken s' = woken s @ [a] \<and>
     sector (V (host s')) = served_disk (sector (V (host s))) (bufs s a) \<and>
     (\<forall>x. content (bufs s' x) = (if x = a then served (sector (V (host s))) (bufs s a) else content (bufs s x)))"

lemma serve_interrupt_ok:
  assumes "host_ok hw V hc N L" "is_queue s (a # q)" "\<forall>a\<in>set q. req_ok hc N a (bufs s a)" "stype (sdCard s) = SD_TYPE_2_HC \<longleftrightarrow> hc"
    "in_flight L (bufs s a) (V (host s))" "irq_line hw (host s)"
  shows "\<exists>s'. serve_interrupt hw s = Inr s' \<and> is_queue s' q \<and> sdlock s' = sdlock s \<and> stype (sdCard s') = stype (sdCard s) \<and>
    card_state L s' q (V (host s')) \<and> after_intr V s a q s'"
proof -
  let ?b = "bufs s a" and ?c = "V (host s)"
  note fl = in_flight_line [OF assms(1,5,6)]
  obtain h1 where i: "reg_get hw EMMC_INTERRUPT (host s) = (irq ?c, h1)" "aged 0 ?c (V h1)"
    by (rule host_get [OF assms(1), of EMMC_INTERRUPT "host s"]) auto
  have c1: "xfer (V h1) = xfer ?c" "cmd_lag (V h1) = None" "sector (V h1) = sector ?c"
    using i(2) fl(2,3) by (cases "dirty ?b"; simp add: aged_def)+
  define h2 where "h2 = reg_put hw EMMC_INTERRUPT (irq ?c) h1"
  have a2: "aged 0 (ack (irq ?c) (V h1)) (V h2)" unfolding h2_def by (rule host_okD(9) [OF assms(1)])
  have c2: "if dirty ?b then idle (V h2) else cmd_lag (V h2) = None \<and> xfer (V h2) = ReadFifo (unat (blockno ?b)) 0"
    "sector (V h2) = served_disk (sector ?c) ?b"
    using a2 c1 fl(1,2) by (cases "dirty ?b"; auto simp: ack_def aged_def idle_def served_disk_def)+
  define s2 where "s2 = s\<lparr>host := h2\<rparr>"
  have "served (served_disk (sector ?c) ?b) ?b = served (sector ?c) ?b" by (simp add: served_def served_disk_def)
  moreover
  have f: "bufs s2 = bufs s" "sdque s2 = sdque s" "sdlock s2 = sdlock s" "sdCard s2 = sdCard s" "woken s2 = woken s" "host s2 = h2"
    by (simp_all add: s2_def)
  have "is_queue s2 (a # q)" "\<forall>a\<in>set q. req_ok hc N a (bufs s2 a)" "stype (sdCard s2) = SD_TYPE_2_HC \<longleftrightarrow> hc"
    "if dirty (bufs s2 a) then idle (V (host s2)) else cmd_lag (V (host s2)) = None \<and> xfer (V (host s2)) = ReadFifo (unat (blockno (bufs s2 a))) 0"
    unfolding f using assms(2-4) c2(1) by (simp_all add: is_queue_def f)
  note ff = finish_front_ok [OF assms(1) this, unfolded f c2(2)]
  obtain s' where "finish_front hw a (dirty ?b) s2 = Inr s'" "is_queue s' q" "sdlock s' = sdlock s" "stype (sdCard s') = stype (sdCard s)"
      "sdque s' = sdque s" "woken s' = woken s @ [a]" "sector (V (host s')) = served_disk (sector ?c) ?b" "card_state L s' q (V (host s'))"
      "\<forall>x. content (bufs s' x) = (if x = a then served (served_disk (sector ?c) ?b) ?b else content (bufs s x))"
    using ff by blast
  moreover have "serve_interrupt hw s = finish_front hw a (dirty ?b) s2"
  proof -
    have "buflist_front (sdque s) (bufs s) = Some a" using assms(2) by (simp add: is_queue_def buflist_front_def)
    then show ?thesis using fl(1) by (cases "dirty ?b") (simp_all add: serve_interrupt_def i(1) s2_def h2_def)
  qed
  ultimately show ?thesis by (simp add: after_intr_def)
qed

lemma sd_intr_ok:
  assumes "host_ok hw V hc N L" "drv_ok V hc N L s (a # q)" "irq_line hw (host s)"
  shows "\<exists>s'. sd_intr hw me s = Inr s' \<and> drv_ok V hc N L s' q \<and> after_intr V s a q s'"
proof -
  define s1 where "s1 = s\<lparr>sdlock := (sdlock s)\<lparr>locked := True, lcpu := Some me\<rparr>\<rparr>"
  have d: "is_queue s1 (a # q)" "\<forall>a\<in>set q. req_ok hc N a (bufs s1 a)" "stype (sdCard s1) = SD_TYPE_2_HC \<longleftrightarrow> hc"
    "in_flight L (bufs s1 a) (V (host s1))" "irq_line hw (host s1)" "\<not> buflist_empty (sdque s) (bufs s)" "free_lock (sdlock s)"
    using assms(2,3) by (auto simp: drv_ok_def s1_def is_queue_def card_state_def buflist_empty_def)
  from serve_interrupt_ok [OF assms(1) d(1-5)] obtain s2 where s2: "serve_interrupt hw s1 = Inr s2" "is_queue s2 q"
      "sdlock s2 = sdlock s1" "stype (sdCard s2) = stype (sdCard s1)" "card_state L s2 q (V (host s2))" "after_intr V s1 a q s2" by blast
  have r: "release_spinlock me (sdlock s2) = Inr (sdlock s)"
    using d(7) unfolding s2(3) s1_def by (simp add: release_spinlock_def holding_spinlock_def)
  have "sd_intr hw me s = Inr (s2\<lparr>sdlock := sdlock s\<rparr>)" using s2(1) r d(6,7)
    by (simp add: sd_intr_def acquire_free s1_def [symmetric])
  moreover have "after_intr V s a q (s2\<lparr>sdlock := sdlock s\<rparr>)" using s2(6) by (simp add: after_intr_def s1_def)
  moreover have "req_ok hc N x (bufs s2 x)" if "x \<in> set q" for x
  proof -
    have "x \<noteq> a" "content (bufs s2 x) = content (bufs s1 x)" using that d(1) s2(6) by (auto simp: is_queue_def after_intr_def)
    then show ?thesis using d(2) that req_ok_content by blast
  qed
  ultimately show ?thesis using s2(2,4,5) d(3,7)
    by (auto simp: drv_ok_def is_queue_def card_state_def s1_def split: list.splits)
qed

section \<open>A call of \<open>sdrw\<close>\<close>

lemma sdrw_push_ok:
  assumes "is_queue s q" "a \<notin> set (sdque s # q)"
  shows "\<exists>bs. sdrw_push a s = Inr (q = [], s\<lparr>bufs := bs\<rparr>) \<and> is_queue (s\<lparr>bufs := bs\<rparr>) (q @ [a]) \<and> (\<forall>x. content (bs x) = content (bufs s x))"
proof -
  have q: "chain (bufs s) (sdque s) q" "distinct (sdque s # q)" using assms(1) by (simp_all add: is_queue_def)
  obtain bs where "buflist_push a (sdque s) (bufs s) = Inr bs" "chain bs (sdque s) (q @ [a])" "\<forall>x. content (bs x) = content (bufs s x)"
    using buflist_push_ok [OF q assms(2)] by blast
  moreover have "buflist_empty (sdque s) (bufs s) \<longleftrightarrow> q = []" using q(1) by (cases q) (simp_all add: buflist_empty_def)
  ultimately show ?thesis using q(2) assms(2) by (auto simp: sdrw_push_def is_queue_def)
qed

lemma sdrw_start_ok:
  assumes "host_ok hw V hc N L" "is_queue s (q @ [a])" "free_lock (sdlock s)" "stype (sdCard s) = SD_TYPE_2_HC \<longleftrightarrow> hc"
    "\<forall>x\<in>set (q @ [a]). req_ok hc N x (bufs s x)" "card_state L s q (V (host s))"
  shows "\<exists>s'. sdrw_start hw me (q = []) s = Inr s' \<and> drv_ok V hc N L s' (q @ [a]) \<and> keeps s s' \<and> sector (V (host s')) = sector (V (host s))"
proof -
  define s1 where "s1 = s\<lparr>sdlock := (sdlock s)\<lparr>locked := True, lcpu := Some me\<rparr>\<rparr>"
  have f: "bufs s1 = bufs s" "sdque s1 = sdque s" "sdCard s1 = sdCard s" "host s1 = host s" "woken s1 = woken s" by (simp_all add: s1_def)
  have q1: "is_queue s1 (q @ [a])" "\<forall>x\<in>set (q @ [a]). req_ok hc N x (bufs s1 x)" "stype (sdCard s1) = SD_TYPE_2_HC \<longleftrightarrow> hc"
    using assms(2,4,5) by (simp_all add: f is_queue_def)
  have "\<exists>s2. (if q = [] then (case buflist_front (sdque s1) (bufs s1) of None \<Rightarrow> Inl (Fault ''null pointer'') | Some a \<Rightarrow> sd_start hw a s1)
      else Inr s1) = Inr s2 \<and> keeps s1 s2 \<and> card_state L s2 (q @ [a]) (V (host s2)) \<and> sector (V (host s2)) = sector (V (host s))"
  proof (cases q)
    case Nil
    then have "buflist_front (sdque s1) (bufs s1) = Some a" "idle (V (host s1))"
      using q1(1) assms(6) by (simp_all add: is_queue_def buflist_front_def card_state_def f)
    then show ?thesis using start_front [OF assms(1) _ q1] Nil by (simp add: f)
  next
    case (Cons x r)
    then show ?thesis using assms(6) by (simp add: card_state_def f keeps_def)
  qed
  then obtain s2 where s2: "(if q = [] then (case buflist_front (sdque s1) (bufs s1) of None \<Rightarrow> Inl (Fault ''null pointer'') | Some a \<Rightarrow> sd_start hw a s1)
      else Inr s1) = Inr s2" "keeps s1 s2" "card_state L s2 (q @ [a]) (V (host s2))" "sector (V (host s2)) = sector (V (host s))" by blast
  have "release_spinlock me (sdlock s2) = Inr (sdlock s)"
    using assms(3) s2(2) by (simp add: release_spinlock_def holding_spinlock_def keeps_def s1_def)
  moreover have acq: "acquire_spinlock me (sdlock s) = Inr (sdlock s1)" "s\<lparr>sdlock := sdlock s1\<rparr> = s1"
    using assms(3) by (simp_all add: acquire_free s1_def)
  ultimately have "sdrw_start hw me (q = []) s = Inr (s2\<lparr>sdlock := sdlock s\<rparr>)"
    unfolding sdrw_start_def Let_def acq bnd_simps s2(1) by simp
  moreover have "drv_ok V hc N L (s2\<lparr>sdlock := sdlock s\<rparr>) (q @ [a])" "keeps s (s2\<lparr>sdlock := sdlock s\<rparr>)"
    using q1 s2(2,3) assms(3) by (auto simp: drv_ok_def keeps_def f is_queue_def card_state_def split: list.splits)
  ultimately show ?thesis using s2(4) by auto
qed

lemma sdrw_resume_free:
  "free_lock (sdlock s) \<Longrightarrow> sdrw_resume me a s = Inr (flags (bufs s a) AND B_VALID \<noteq> 0 \<and> NOT (flags (bufs s a)) AND B_DIRTY \<noteq> 0, s)"
  by (simp add: sdrw_resume_def acquire_free release_spinlock_def holding_spinlock_def Let_def)

text \<open>A thread that fills the buffer at \<open>a\<close> and calls \<open>sdrw\<close>, up to its \<open>sleep\<close>.\<close>

definition sdrw_call :: "'h emmc \<Rightarrow> nat \<Rightarrow> nat \<Rightarrow> buf \<Rightarrow> 'h sd \<Rightarrow> 'h sd res" where
  "sdrw_call hw me a b s = bnd (sdrw_push a (s\<lparr>bufs := (bufs s)(a := b)\<rparr>)) (\<lambda>(flag, s). sdrw_start hw me flag s)"

lemma sdrw_fill_push:
  assumes "drv_ok V hc N L s q" "a \<notin> set (sdque s # q)" "req_ok hc N a b"
  shows "\<exists>s'. sdrw_push a (s\<lparr>bufs := (bufs s)(a := b)\<rparr>) = Inr (q = [], s') \<and> is_queue s' (q @ [a]) \<and> free_lock (sdlock s') \<and>
    (stype (sdCard s') = SD_TYPE_2_HC \<longleftrightarrow> hc) \<and> (\<forall>x\<in>set (q @ [a]). req_ok hc N x (bufs s' x)) \<and> card_state L s' q (V (host s')) \<and>
    host s' = host s \<and> sdque s' = sdque s \<and> woken s' = woken s \<and>
    (\<forall>x. content (bufs s' x) = (if x = a then content b else content (bufs s x)))"
proof -
  define s0 where "s0 = s\<lparr>bufs := (bufs s)(a := b)\<rparr>"
  have "is_queue s q" using assms(1) by (simp add: drv_ok_def)
  then have "is_queue s0 q" using assms(2) unfolding is_queue_def s0_def by (auto elim!: chain_cong)
  moreover have "a \<notin> set (sdque s0 # q)" using assms(2) by (simp add: s0_def)
  ultimately obtain bs where bs: "sdrw_push a s0 = Inr (q = [], s0\<lparr>bufs := bs\<rparr>)" "is_queue (s0\<lparr>bufs := bs\<rparr>) (q @ [a])"
      "\<forall>x. content (bs x) = content (bufs s0 x)" using sdrw_push_ok by blast
  have c: "content (bs x) = (if x = a then content b else content (bufs s x))" for x using bs(3) by (simp add: s0_def)
  have r: "req_ok hc N x (bs x)" if "x \<in> set (q @ [a])" for x
  proof (cases "x = a")
    case True
    then show ?thesis using c [of a] assms(3) req_ok_content [of "bs a" b] by simp
  next
    case False
    then show ?thesis using c [of x] that assms(1) req_ok_content [of "bs x" "bufs s x"] by (auto simp: drv_ok_def)
  qed
  have "card_state L (s0\<lparr>bufs := bs\<rparr>) q (V (host s))"
  proof (cases q)
    case Nil
    then show ?thesis using assms(1) by (simp add: drv_ok_def card_state_def)
  next
    case (Cons x q')
    then show ?thesis using assms(1,2) c [of x] in_flight_content [of "bs x" "bufs s x"] by (auto simp: drv_ok_def card_state_def)
  qed
  then show ?thesis using bs(1,2) c r assms(1) by (intro exI [of _ "s0\<lparr>bufs := bs\<rparr>"]) (simp add: s0_def drv_ok_def)
qed

lemma sdrw_call_ok:
  assumes "host_ok hw V hc N L" "drv_ok V hc N L s q" "a \<notin> set (sdque s # q)" "req_ok hc N a b"
  shows "\<exists>s'. sdrw_call hw me a b s = Inr s' \<and> drv_ok V hc N L s' (q @ [a]) \<and> sdque s' = sdque s \<and> woken s' = woken s \<and>
    sector (V (host s')) = sector (V (host s)) \<and> (\<forall>x. content (bufs s' x) = (if x = a then content b else content (bufs s x)))"
proof -
  obtain s1 where s1: "sdrw_push a (s\<lparr>bufs := (bufs s)(a := b)\<rparr>) = Inr (q = [], s1)" "is_queue s1 (q @ [a])" "free_lock (sdlock s1)"
      "stype (sdCard s1) = SD_TYPE_2_HC \<longleftrightarrow> hc" "\<forall>x\<in>set (q @ [a]). req_ok hc N x (bufs s1 x)" "card_state L s1 q (V (host s1))"
      "host s1 = host s" "sdque s1 = sdque s" "woken s1 = woken s"
      "\<forall>x. content (bufs s1 x) = (if x = a then content b else content (bufs s x))"
    using sdrw_fill_push [OF assms(2-4)] by blast
  obtain s' where "sdrw_start hw me (q = []) s1 = Inr s'" "drv_ok V hc N L s' (q @ [a])" "keeps s1 s'" "sector (V (host s')) = sector (V (host s1))"
    using sdrw_start_ok [OF assms(1) s1(2-6), of me] by blast
  then show ?thesis using s1(1,7-10) by (simp add: sdrw_call_def keeps_def)
qed

text \<open>After the longest lag the interrupt of the first request is there, and \<open>sd_intr\<close> serves it.\<close>

lemma sd_intr_later:
  assumes "host_ok hw V hc N L" "drv_ok V hc N L s (a # q)"
  shows "irq_line hw ((delayus hw 1 ^^ L) (host s)) \<and>
    (\<exists>s'. sd_intr hw me (s\<lparr>host := (delayus hw 1 ^^ L) (host s), woken := []\<rparr>) = Inr s' \<and> drv_ok V hc N L s' q \<and> sdque s' = sdque s \<and>
       woken s' = [a] \<and> fst (content (bufs s' a)) = (flags (bufs s a) OR B_VALID) AND NOT B_DIRTY \<and>
       (\<forall>x. x \<noteq> a \<longrightarrow> content (bufs s' x) = content (bufs s x)))"
proof -
  let ?s = "s\<lparr>host := (delayus hw 1 ^^ L) (host s), woken := []\<rparr>"
  have "in_flight L (bufs s a) (V (host s))" using assms(2) by (simp add: drv_ok_def card_state_def)
  from in_flight_delay [OF assms(1) this, of L] have f: "in_flight 0 (bufs s a) (V (host ?s))" by simp
  then have l: "irq_line hw (host ?s)" by (rule in_flight_now [OF assms(1)])
  have "drv_ok V hc N L ?s (a # q)" using assms(2) in_flight_mono [OF f, of L] by (simp add: drv_ok_def is_queue_def card_state_def)
  from sd_intr_ok [OF assms(1) this l, of me] l show ?thesis by (auto simp: after_intr_def served_def)
qed

end
