(* ===== verification/SdSpec.thy ===== *)
theory SdSpec
  imports SdQueue
begin

text \<open>
  The driver under all threads and interrupts (\<open>sd_step\<close>), a request queue with an atomic service step as its
  specification (\<open>spec_step\<close>), and the simulation between the two.
\<close>

section \<open>Steps of the system\<close>

text \<open>A thread that uses the driver is known by the address of its buffer: it sleeps in \<open>sdrw\<close>, or it has been woken
  and will go on.\<close>

record 'h sys =
  drv :: "'h sd"
  asleep :: "nat set"
  runnable :: "nat set"

text \<open>The statements of \<open>sdrw\<close> before the lock run in one step with the rest up to the \<open>sleep\<close>; what happens when an
  interrupt comes between them is the subject of \<open>lost_wakeup\<close> below.  Every other step is one critical section of \<open>sdlock\<close>.\<close>

inductive sd_step :: "'h emmc \<Rightarrow> bool \<Rightarrow> nat \<Rightarrow> 'h sys \<Rightarrow> 'h sys \<Rightarrow> bool" for hw hc N where
  step_call: "\<lbrakk>a \<notin> asleep x \<union> runnable x; a \<noteq> sdque (drv x); req_ok hc N a b; sdrw_call hw me a b (drv x) = Inr s\<rbrakk> \<Longrightarrow>
    sd_step hw hc N x (x\<lparr>drv := s, asleep := insert a (asleep x)\<rparr>)"
| step_time: "0 < n \<Longrightarrow> sd_step hw hc N x (x\<lparr>drv := (drv x)\<lparr>host := delayus hw n (host (drv x))\<rparr>\<rparr>)"
| step_intr: "\<lbrakk>irq_line hw (host (drv x)); sd_intr hw me ((drv x)\<lparr>woken := []\<rparr>) = Inr s\<rbrakk> \<Longrightarrow>
    sd_step hw hc N x (x\<lparr>drv := s, asleep := asleep x - set (woken s), runnable := runnable x \<union> (asleep x \<inter> set (woken s))\<rparr>)"
| step_return: "\<lbrakk>a \<in> runnable x; sdrw_resume me a (drv x) = Inr (True, s)\<rbrakk> \<Longrightarrow>
    sd_step hw hc N x (x\<lparr>drv := s, runnable := runnable x - {a}\<rparr>)"
| step_again: "\<lbrakk>a \<in> runnable x; sdrw_resume me a (drv x) = Inr (False, s)\<rbrakk> \<Longrightarrow>
    sd_step hw hc N x (x\<lparr>drv := s, asleep := insert a (asleep x), runnable := runnable x - {a}\<rparr>)"

inductive sd_reach :: "'h emmc \<Rightarrow> bool \<Rightarrow> nat \<Rightarrow> 'h sys \<Rightarrow> 'h sys \<Rightarrow> bool" for hw hc N x where
  reach_refl: "sd_reach hw hc N x x"
| reach_step: "\<lbrakk>sd_reach hw hc N x y; sd_step hw hc N y z\<rbrakk> \<Longrightarrow> sd_reach hw hc N x z"

section \<open>The specification\<close>

text \<open>The disk, the requests in the order of their calls, and what the owner of each buffer sees in it.\<close>

record sdspec =
  sdisk :: disk
  squeue :: "nat list"
  sreq :: "nat \<Rightarrow> request"
  sasleep :: "nat set"
  srunnable :: "nat set"

definition perform :: "disk \<Rightarrow> request \<Rightarrow> disk \<times> request" where
  "perform d r = (case r of (f, n, x) \<Rightarrow>
     if f AND B_DIRTY \<noteq> 0 then (d(unat n := x), ((f OR B_VALID) AND NOT B_DIRTY, n, x))
     else (d, ((f OR B_VALID) AND NOT B_DIRTY, n, d (unat n))))"

inductive spec_step :: "sdspec \<Rightarrow> sdspec \<Rightarrow> bool" where
  spec_call: "a \<notin> sasleep t \<union> srunnable t \<Longrightarrow>
    spec_step t (t\<lparr>sreq := (sreq t)(a := r), squeue := squeue t @ [a], sasleep := insert a (sasleep t)\<rparr>)"
| spec_serve: "\<lbrakk>squeue t = a # q; perform (sdisk t) (sreq t a) = (d, r)\<rbrakk> \<Longrightarrow>
    spec_step t (t\<lparr>sdisk := d, squeue := q, sreq := (sreq t)(a := r), sasleep := sasleep t - {a}, srunnable := insert a (srunnable t)\<rparr>)"
| spec_return: "a \<in> srunnable t \<Longrightarrow> spec_step t (t\<lparr>srunnable := srunnable t - {a}\<rparr>)"

inductive spec_reach :: "sdspec \<Rightarrow> sdspec \<Rightarrow> bool" for t where
  spec_refl: "spec_reach t t"
| spec_trans: "\<lbrakk>spec_reach t u; spec_step u v\<rbrakk> \<Longrightarrow> spec_reach t v"

lemma served_perform: "perform d (content b) = (served_disk d b, served d b)"
  by (simp add: perform_def content_def served_def served_disk_def)

section \<open>Simulation\<close>

definition sim :: "('h \<Rightarrow> card) \<Rightarrow> bool \<Rightarrow> nat \<Rightarrow> nat \<Rightarrow> 'h sys \<Rightarrow> sdspec \<Rightarrow> bool" where
  "sim V hc N L x t \<longleftrightarrow> drv_ok V hc N L (drv x) (squeue t) \<and> sector (V (host (drv x))) = sdisk t \<and>
     (\<forall>a. content (bufs (drv x) a) = sreq t a) \<and> asleep x = sasleep t \<and> runnable x = srunnable t"

text \<open>Every sleeping thread outside \<open>B\<close> waits for a request in the queue, and every thread that was woken finds its request done.\<close>

definition spec_inv :: "nat set \<Rightarrow> sdspec \<Rightarrow> bool" where
  "spec_inv B t \<longleftrightarrow> distinct (squeue t) \<and> set (squeue t) \<union> B = sasleep t \<and> set (squeue t) \<inter> B = {} \<and> sasleep t \<inter> srunnable t = {} \<and>
     (\<forall>a\<in>srunnable t. fst (sreq t a) AND B_VALID \<noteq> 0 \<and> NOT (fst (sreq t a)) AND B_DIRTY \<noteq> 0)"

lemma served_flags:
  fixes f g :: u32
  assumes "g = (f OR B_VALID) AND NOT B_DIRTY"
  shows "g AND B_VALID \<noteq> 0 \<and> NOT g AND B_DIRTY \<noteq> 0"
proof -
  have "bit (g AND B_VALID) 1" "bit (NOT g AND B_DIRTY) 2" by (simp_all add: assms bit_simps)
  then show ?thesis by (metis bit_0_eq bot_apply bot_bool_def)
qed

lemma spec_inv_step: "\<lbrakk>spec_step t u; spec_inv B t\<rbrakk> \<Longrightarrow> spec_inv B u"
proof (induction rule: spec_step.induct)
  case (spec_serve t a q d r)
  obtain f n z where "sreq t a = (f, n, z)" by (cases "sreq t a")
  then have "fst r = (f OR B_VALID) AND NOT B_DIRTY" using spec_serve(2) by (auto simp: perform_def split: if_splits)
  then show ?case using spec_serve(1,3) served_flags [of "fst r" f] by (auto simp: spec_inv_def)
qed (auto simp: spec_inv_def)

lemma sim_step:
  assumes "host_ok hw V hc N L" "sd_step hw hc N x y" "sim V hc N L x t" "spec_inv B t"
  shows "\<exists>u. (u = t \<or> spec_step t u) \<and> sim V hc N L y u"
  using assms(2,3)
proof (cases rule: sd_step.cases)
  case (step_call a b me s)
  have d: "drv_ok V hc N L (drv x) (squeue t)" "a \<notin> set (sdque (drv x) # squeue t)" using assms(3,4) step_call(2,3) by (auto simp: sim_def spec_inv_def)
  from sdrw_call_ok [OF assms(1) d step_call(4), of me] step_call(5) have s: "drv_ok V hc N L s (squeue t @ [a])"
    "sector (V (host s)) = sector (V (host (drv x)))" "\<forall>z. content (bufs s z) = (if z = a then content b else content (bufs (drv x) z))" by auto
  then have "drv_ok V hc N L s (squeue t @ [a])" "sector (V (host s)) = sdisk t" "\<forall>z. content (bufs s z) = ((sreq t)(a := content b)) z"
    using assms(3) by (simp_all add: sim_def)
  then have "sim V hc N L y (t\<lparr>sreq := (sreq t)(a := content b), squeue := squeue t @ [a], sasleep := insert a (sasleep t)\<rparr>)"
    using step_call(1) assms(3) by (simp add: sim_def)
  moreover have "a \<notin> sasleep t \<union> srunnable t" using step_call(2) assms(3) by (simp add: sim_def)
  ultimately show ?thesis using spec_call by blast
next
  case (step_time n)
  have ag: "aged 1 (V (host (drv x))) (V (delayus hw n (host (drv x))))" by (rule host_okD(4) [OF assms(1) step_time(2)])
  have "sim V hc N L y t"
  proof (cases "squeue t")
    case Nil
    then show ?thesis using assms(3) idle_aged [OF _ ag] step_time(1) by (auto simp: sim_def drv_ok_def card_state_def is_queue_def)
  next
    case (Cons a q)
    then have "in_flight L (bufs (drv x) a) (V (delayus hw n (host (drv x)))) \<and> sector (V (delayus hw n (host (drv x)))) = sdisk t"
      using assms(3) in_flight_aged [OF _ ag, of L "bufs (drv x) a"] in_flight_mono [of "L - 1" _ _ L] by (auto simp: sim_def drv_ok_def card_state_def)
    then show ?thesis using assms(3) step_time(1) Cons by (auto simp: sim_def drv_ok_def card_state_def is_queue_def)
  qed
  then show ?thesis by blast
next
  case (step_intr me s)
  let ?s = "(drv x)\<lparr>woken := []\<rparr>"
  have d: "drv_ok V hc N L ?s (squeue t)" using assms(3) by (simp add: sim_def drv_ok_def is_queue_def card_state_def split: list.splits)
  have "squeue t \<noteq> []" using d step_intr(2) host_okD(3) [OF assms(1), of "host (drv x)"] by (auto simp: drv_ok_def card_state_def)
  then obtain a q where q: "squeue t = a # q" by (cases "squeue t") auto
  from sd_intr_ok [OF assms(1) d [unfolded q], of me] step_intr(2,3) have "drv_ok V hc N L s q" "after_intr V ?s a q s" by auto
  then have s: "drv_ok V hc N L s q" "woken s = [a]" "sector (V (host s)) = served_disk (sdisk t) (bufs (drv x) a)"
    "\<forall>z. content (bufs s z) = (if z = a then served (sdisk t) (bufs (drv x) a) else sreq t z)"
    using assms(3) by (auto simp: after_intr_def sim_def)
  have "perform (sdisk t) (sreq t a) = (served_disk (sdisk t) (bufs (drv x) a), served (sdisk t) (bufs (drv x) a))"
    using served_perform [of "sdisk t" "bufs (drv x) a"] assms(3) by (simp add: sim_def)
  from spec_serve [OF q this] show ?thesis
    using s assms(3,4) step_intr(1) q by (intro exI conjI disjI2) (assumption, auto simp: sim_def spec_inv_def)
next
  case (step_return a me s)
  have "s = drv x" using step_return(3) assms(3) sdrw_resume_free [of "drv x" me a] by (auto simp: sim_def drv_ok_def)
  then have "sim V hc N L y (t\<lparr>srunnable := srunnable t - {a}\<rparr>)" using step_return(1) assms(3) by (simp add: sim_def)
  moreover have "a \<in> srunnable t" using step_return(2) assms(3) by (simp add: sim_def)
  ultimately show ?thesis using spec_return by blast
next
  case (step_again a me s)
  have "fst (content (bufs (drv x) a)) AND B_VALID \<noteq> 0 \<and> NOT (fst (content (bufs (drv x) a))) AND B_DIRTY \<noteq> 0"
    using assms(3,4) step_again(2) by (auto simp: sim_def spec_inv_def)
  then show ?thesis using step_again(3) assms(3) sdrw_resume_free [of "drv x" me a] by (auto simp: sim_def drv_ok_def content_def)
qed

lemma sim_reach:
  assumes "host_ok hw V hc N L" "sd_reach hw hc N x y" "sim V hc N L x t" "spec_inv B t"
  shows "\<exists>u. spec_reach t u \<and> sim V hc N L y u \<and> spec_inv B u"
  using assms(2)
proof (induction)
  case reach_refl
  then show ?case using assms(3,4) spec_refl by blast
next
  case (reach_step y z)
  then obtain u where u: "spec_reach t u" "sim V hc N L y u" "spec_inv B u" by blast
  from sim_step [OF assms(1) reach_step(2) u(2,3)] show ?case
    using u spec_trans [OF u(1)] spec_inv_step by blast
qed


section \<open>A card in software\<close>

text \<open>A controller and card that satisfy the contract: each interrupt comes after two microseconds.\<close>

definition pad_block :: "bytes \<Rightarrow> bytes" where
  "pad_block x = (if length x = BLOCK_SIZE then x else replicate BLOCK_SIZE 0)"

definition soft_view :: "card \<Rightarrow> card" where
  "soft_view c = c\<lparr>sector := (\<lambda>b. pad_block (sector c b)),
     xfer := (case xfer c of WriteEnd b d l \<Rightarrow> WriteEnd b (pad_block d) l | x \<Rightarrow> x)\<rparr>"

fun tick_xfer :: "xfer \<Rightarrow> xfer" where
  "tick_xfer (ReadWait b l) = ReadWait b (l - 1)"
| "tick_xfer (WriteWait b l) = WriteWait b (l - 1)"
| "tick_xfer (ReadEnd l) = ReadEnd (l - 1)"
| "tick_xfer (WriteEnd b d l) = WriteEnd b d (l - 1)"
| "tick_xfer x = x"

fun soft_get :: "reg \<Rightarrow> card \<Rightarrow> u32 \<times> card" where
  "soft_get EMMC_INTERRUPT c = (irq c, c)"
| "soft_get EMMC_DATA c = (case xfer c of
     ReadFifo b k \<Rightarrow> (word_of_nat (nats_of 4 128 (pad_block (sector c b)) ! k), c\<lparr>xfer := if k = 127 then ReadEnd 2 else ReadFifo b (Suc k)\<rparr>)
   | _ \<Rightarrow> (0, c))"
| "soft_get r c = (0, c)"

fun soft_put :: "reg \<Rightarrow> u32 \<Rightarrow> card \<Rightarrow> card" where
  "soft_put EMMC_INTERRUPT v c = ack v c"
| "soft_put EMMC_ARG1 v c = c\<lparr>arg1 := v\<rparr>"
| "soft_put EMMC_BLKSIZECNT v c = c\<lparr>blksize := v\<rparr>"
| "soft_put EMMC_CMDTM v c =
     (if v = xfer_code True then c\<lparr>cmd_lag := Some 2, xfer := WriteWait (unat (arg1 c)) 2\<rparr>
      else if v = xfer_code False then c\<lparr>cmd_lag := Some 2, xfer := ReadWait (unat (arg1 c)) 2\<rparr> else c)"
| "soft_put EMMC_DATA w c = (case xfer c of
     WriteFifo b ws \<Rightarrow> c\<lparr>xfer := if length ws = 127 then WriteEnd b (of_nats 4 (map unat (ws @ [w]))) 2 else WriteFifo b (ws @ [w])\<rparr>
   | _ \<Rightarrow> c)"
| "soft_put r v c = c"

definition soft_card :: "card emmc" where
  "soft_card = \<lparr>reg_get = soft_get, reg_put = soft_put,
     delayus = (\<lambda>n c. c\<lparr>cmd_lag := map_option (\<lambda>l. l - 1) (cmd_lag c), xfer := tick_xfer (xfer c)\<rparr>),
     irq_line = (\<lambda>c. irq c AND (INT_DATA_DONE OR INT_READ_RDY) \<noteq> 0)\<rparr>"

lemma soft_view_simps [simp]:
  "cmd_lag (soft_view c) = cmd_lag c" "arg1 (soft_view c) = arg1 c" "blksize (soft_view c) = blksize c"
  "sector (soft_view c) b = pad_block (sector c b)" "length (pad_block x) = 512" "irq (soft_view c) = irq c"
  "xfer (soft_view c) = NoXfer \<longleftrightarrow> xfer c = NoXfer"
  by (simp_all add: soft_view_def pad_block_def)
     (cases "xfer c" rule: xfer_irq.cases; simp add: irq_def)+

lemma soft_view_ack: "soft_view (ack v c) = ack v (soft_view c)"
  by (cases c; cases "xfer c" rule: xfer_irq.cases) (auto simp: soft_view_def ack_def fun_eq_iff)

lemma soft_view_tick: "aged 1 (soft_view c) (soft_view (c\<lparr>cmd_lag := map_option (\<lambda>l. l - 1) (cmd_lag c), xfer := tick_xfer (xfer c)\<rparr>))"
  by (cases "xfer c"; cases "cmd_lag c") (auto simp: soft_view_def aged_def)

lemma soft_read:
  assumes "xfer (soft_view c) = ReadFifo b k" "k < 128"
  shows "unat (fst (soft_get EMMC_DATA c)) = nats_of 4 128 (sector (soft_view c) b) ! k \<and>
    (\<exists>l\<le>2. soft_view (snd (soft_get EMMC_DATA c)) = (soft_view c)\<lparr>xfer := if k = 127 then ReadEnd l else ReadFifo b (Suc k)\<rparr>)"
proof -
  have x: "xfer c = ReadFifo b k" using assms(1) by (cases "xfer c") (simp_all add: soft_view_def)
  have "nats_of 4 128 (pad_block (sector c b)) ! k \<in> set (nats_of 4 128 (pad_block (sector c b)))" using assms(2) by (intro nth_mem) simp
  then have "nats_of 4 128 (pad_block (sector c b)) ! k < 2 ^ 32" using nats_of_bound32 by blast
  then have "unat (word_of_nat (nats_of 4 128 (pad_block (sector c b)) ! k) :: u32) = nats_of 4 128 (pad_block (sector c b)) ! k"
    by (simp add: unsigned_of_nat take_bit_nat_eq_self)
  then show ?thesis using x by (auto simp: soft_view_def)
qed

lemma soft_write:
  assumes "xfer (soft_view c) = WriteFifo b ws" "length ws < 128"
  shows "\<exists>l\<le>2. soft_view (soft_put EMMC_DATA w c) =
    (soft_view c)\<lparr>xfer := if length ws = 127 then WriteEnd b (of_nats 4 (map unat (ws @ [w]))) l else WriteFifo b (ws @ [w])\<rparr>"
proof -
  have x: "xfer c = WriteFifo b ws" using assms(1) by (cases "xfer c") (simp_all add: soft_view_def)
  have "pad_block (of_nats 4 (map unat (ws @ [w]))) = of_nats 4 (map unat (ws @ [w]))" if "length ws = 127"
    using that by (simp add: pad_block_def)
  then show ?thesis using x by (auto simp: soft_view_def)
qed

lemma soft_card_ok: "host_ok soft_card soft_view True N 2"
proof -
  have get: "aged 0 (soft_view c) (soft_view (snd (soft_get r c)))" if "r \<noteq> EMMC_DATA" for r c using that by (cases r) simp_all
  have cmd: "\<exists>l\<le>2. \<exists>l'\<le>2. soft_view (soft_put EMMC_CMDTM (xfer_code wr) c) =
      (soft_view c)\<lparr>cmd_lag := Some l, xfer := (if wr then WriteWait else ReadWait) (sector_of True (arg1 (soft_view c))) l'\<rparr>" for wr c
  proof -
    have "xfer_code True \<noteq> xfer_code False" by (simp add: xfer_code_def sdCommandTable_def)
    then show ?thesis by (cases c; cases wr; intro exI [of _ 2] conjI) (simp_all add: soft_view_def sector_of_def)
  qed
  have put: "aged 0 ((soft_view c)\<lparr>arg1 := v\<rparr>) (soft_view (c\<lparr>arg1 := v\<rparr>))" "aged 0 ((soft_view c)\<lparr>blksize := v\<rparr>) (soft_view (c\<lparr>blksize := v\<rparr>))" for c v
    by (cases c; simp add: soft_view_def)+
  show ?thesis unfolding host_ok_def soft_card_def emmc.simps
    using get cmd put soft_read soft_write soft_view_tick by (simp add: soft_view_ack)
qed


text \<open>The driver after initialisation, on that card.\<close>

definition soft_sd :: "card sd" where
  "soft_sd = \<lparr>bufs = (\<lambda>_. \<lparr>flags = 0, blockno = 0, bdata = replicate BLOCK_SIZE 0, qnext = None\<rparr>), sdque = 0,
     sdlock = \<lparr>locked = False, lcpu = None, lname = ''sdlock''\<rparr>,
     sdCard = \<lparr>capacity = 0, cid = [], csd = [], scr = [], ocr = 0, support = 0, fileFormat = 0, stype = SD_TYPE_2_HC, uhsi = False,
       sinit = True, absent = False, rca = 0, cardState = 0, status = 0, lastCmd = None, lastArg = 0\<rparr>,
     host = \<lparr>cmd_lag = None, xfer = NoXfer, arg1 = 0, blksize = 0, sector = (\<lambda>_. replicate BLOCK_SIZE 7)\<rparr>, woken = []\<rparr>"

lemma soft_sd_ok: "drv_ok soft_view True N 2 soft_sd []"
  by (simp add: drv_ok_def soft_sd_def is_queue_def card_state_def idle_def)

lemma soft_req: "\<lbrakk>a mod 4 = 0; unat n < N\<rbrakk> \<Longrightarrow> req_ok True N a \<lparr>flags = f, blockno = n, bdata = replicate BLOCK_SIZE w, qnext = None\<rparr>"
  by (simp add: req_ok_def)


section \<open>A wakeup can be lost\<close>

text \<open>C33: why the statements of \<open>sdrw\<close> before the lock matter.  A thread that finds the queue busy adds its buffer without the lock.  When the
  interrupts that serve the earlier request and its own arrive before it takes the lock, the \<open>wakeup\<close> for its buffer finds nobody asleep, and the
  unconditional \<open>sleep\<close> that follows is never ended: in no continuation is the thread woken, although its request is done.\<close>

theorem sdrw_lost_wakeup:
  assumes "host_ok hw V hc N L" "drv_ok V hc N L s []" "a \<noteq> b" "a \<noteq> sdque s" "b \<noteq> sdque s" "req_ok hc N a r" "req_ok hc N b r'"
  shows "\<exists>s1 s2 s3 s4 s5. sdrw_call hw me a r s = Inr s1 \<and>
    sdrw_push b (s1\<lparr>bufs := (bufs s1)(b := r')\<rparr>) = Inr (False, s2) \<and>
    irq_line hw ((delayus hw 1 ^^ L) (host s2)) \<and>
    sd_intr hw cpu (s2\<lparr>host := (delayus hw 1 ^^ L) (host s2), woken := []\<rparr>) = Inr s3 \<and> woken s3 = [a] \<and>
    irq_line hw ((delayus hw 1 ^^ L) (host s3)) \<and>
    sd_intr hw cpu (s3\<lparr>host := (delayus hw 1 ^^ L) (host s3), woken := []\<rparr>) = Inr s4 \<and> woken s4 = [b] \<and>
    sdrw_start hw me' False s4 = Inr s5 \<and> flags (bufs s5 b) = (flags r' OR B_VALID) AND NOT B_DIRTY \<and>
    (\<forall>y. sd_reach hw hc N \<lparr>drv = s5, asleep = {b}, runnable = {a}\<rparr> y \<longrightarrow> b \<in> asleep y)"
proof -
  obtain s1 where s1: "sdrw_call hw me a r s = Inr s1" "drv_ok V hc N L s1 [a]" "sdque s1 = sdque s"
    using sdrw_call_ok [OF assms(1,2) _ assms(6), of me] assms(4) by auto
  have "b \<notin> set (sdque s1 # [a])" using s1(3) assms(3,5) by auto
  from sdrw_fill_push [OF s1(2) this assms(7)] obtain s2 where s2: "sdrw_push b (s1\<lparr>bufs := (bufs s1)(b := r')\<rparr>) = Inr (False, s2)"
      "drv_ok V hc N L s2 [a, b]" "\<forall>x. content (bufs s2 x) = (if x = b then content r' else content (bufs s1 x))"
    by (auto simp: drv_ok_def card_state_def)
  have f2: "flags (bufs s2 b) = flags r'" using spec [OF s2(3), of b] by (simp add: content_def)
  from sd_intr_later [OF assms(1) s2(2), of cpu] obtain s3 where s3: "irq_line hw ((delayus hw 1 ^^ L) (host s2))"
      "sd_intr hw cpu (s2\<lparr>host := (delayus hw 1 ^^ L) (host s2), woken := []\<rparr>) = Inr s3" "drv_ok V hc N L s3 [b]" "woken s3 = [a]"
      "fst (content (bufs s3 a)) = (flags (bufs s2 a) OR B_VALID) AND NOT B_DIRTY" "\<forall>x. x \<noteq> a \<longrightarrow> content (bufs s3 x) = content (bufs s2 x)" by blast
  from sd_intr_later [OF assms(1) s3(3), of cpu] obtain s4 where s4: "irq_line hw ((delayus hw 1 ^^ L) (host s3))"
      "sd_intr hw cpu (s3\<lparr>host := (delayus hw 1 ^^ L) (host s3), woken := []\<rparr>) = Inr s4" "drv_ok V hc N L s4 []" "woken s4 = [b]"
      "fst (content (bufs s4 b)) = (flags (bufs s3 b) OR B_VALID) AND NOT B_DIRTY" "\<forall>x. x \<noteq> b \<longrightarrow> content (bufs s4 x) = content (bufs s3 x)" by blast
  have "free_lock (sdlock s4)" using s4(3) by (simp add: drv_ok_def)
  then have s5: "sdrw_start hw me' False s4 = Inr s4"
    by (simp add: sdrw_start_def acquire_free release_spinlock_def holding_spinlock_def)
  have fb: "flags (bufs s4 b) = (flags r' OR B_VALID) AND NOT B_DIRTY" using s4(5) s3(6) f2 assms(3) by (auto simp: content_def)
  have fa: "flags (bufs s4 a) = (flags (bufs s2 a) OR B_VALID) AND NOT B_DIRTY" using s4(6) s3(5) assms(3) by (auto simp: content_def)
  let ?t = "\<lparr>sdisk = sector (V (host s4)), squeue = [], sreq = (\<lambda>a. content (bufs s4 a)), sasleep = {b}, srunnable = {a}\<rparr>"
  let ?x = "\<lparr>drv = s4, asleep = {b}, runnable = {a}\<rparr>"
  have si: "sim V hc N L ?x ?t" "spec_inv {b} ?t"
    using s4(3) assms(3) served_flags [OF fa] by (auto simp: sim_def spec_inv_def content_def)
  have "b \<in> asleep y" if "sd_reach hw hc N ?x y" for y using sim_reach [OF assms(1) that si] by (auto simp: sim_def spec_inv_def)
  then show ?thesis using s1(1) s2(1) s3(1,2,4) s4(1,2,4) s5 fb by blast
qed

theorem sdrw_lost_wakeup_witness:
  "\<exists>s5. flags (bufs s5 16) = B_VALID \<and>
    (\<forall>y. sd_reach soft_card True 100 \<lparr>drv = s5, asleep = {16}, runnable = {8}\<rparr> y \<longrightarrow> 16 \<in> asleep y)"
proof -
  have "req_ok True 100 8 \<lparr>flags = B_DIRTY, blockno = 5, bdata = replicate BLOCK_SIZE 1, qnext = None\<rparr>"
    "req_ok True 100 16 \<lparr>flags = 0, blockno = 5, bdata = replicate BLOCK_SIZE 0, qnext = None\<rparr>" by (rule soft_req; simp)+
  from sdrw_lost_wakeup [OF soft_card_ok soft_sd_ok _ _ _ this, of 0 1 2] show ?thesis by (auto simp: soft_sd_def)
qed

end
