(* ===== verification/SdBlock.thy ===== *)
theory SdBlock
  imports SdSpec
begin

text \<open>
  \<open>fs/block_device.c\<close>: the two operations of the block device on top of the driver, and their refinement to the device that the
  block cache is verified against (\<open>BlockDev\<close>).
\<close>

abbreviation BLOCKNO_OFFSET :: u32 where "BLOCKNO_OFFSET \<equiv> 0x20800"

text \<open>The local variable \<open>struct buf b\<close> is at the address \<open>a\<close>; its other members have whatever values the stack holds.\<close>

definition sd_read :: "'h emmc \<Rightarrow> nat \<Rightarrow> nat \<Rightarrow> nat \<Rightarrow> nat \<Rightarrow> 'h sd \<Rightarrow> (bytes \<times> 'h sd) res" where
  "sd_read hw me n a block_no s =
    (let b = (bufs s a)\<lparr>blockno := word_of_nat block_no + BLOCKNO_OFFSET, flags := 0\<rparr> in
     bnd (sdrw hw me n a (s\<lparr>bufs := (bufs s)(a := b)\<rparr>)) (\<lambda>s. Inr (take BLOCK_SIZE (bdata (bufs s a)), s)))"

definition sd_write :: "'h emmc \<Rightarrow> nat \<Rightarrow> nat \<Rightarrow> nat \<Rightarrow> nat \<Rightarrow> bytes \<Rightarrow> 'h sd \<Rightarrow> 'h sd res" where
  "sd_write hw me n a block_no buffer s =
    (let b = (bufs s a)\<lparr>blockno := word_of_nat block_no + BLOCKNO_OFFSET, flags := B_DIRTY OR B_VALID, bdata := take BLOCK_SIZE buffer\<rparr> in
     sdrw hw me n a (s\<lparr>bufs := (bufs s)(a := b)\<rparr>))"

section \<open>A call of \<open>sdrw\<close> by the only thread\<close>

lemma sdrw_wait_ok:
  assumes "host_ok hw V hc N L" "drv_ok V hc N L s [a]" "in_flight l (bufs s a) (V (host s))" "a \<notin> set (woken s)" "l + 3 \<le> n"
  shows "\<exists>s'. sdrw_wait hw me n a s = Inr s' \<and> drv_ok V hc N L s' [] \<and> sdque s' = sdque s \<and>
    sector (V (host s')) = served_disk (sector (V (host s))) (bufs s a) \<and> content (bufs s' a) = served (sector (V (host s))) (bufs s a) \<and>
    (\<forall>x. x \<noteq> a \<longrightarrow> content (bufs s' x) = content (bufs s x))"
  using assms(2-5)
proof (induction n arbitrary: s l)
  case 0
  then show ?case by simp
next
  case (Suc n)
  show ?case
  proof (cases "irq_line hw (host s)")
    case True
    from sd_intr_ok [OF assms(1) Suc.prems(1) True, of me] obtain s1 where s1: "sd_intr hw me s = Inr s1" "drv_ok V hc N L s1 []"
        "after_intr V s a [] s1" by blast
    obtain m where m: "n = Suc m" using Suc.prems(4) by (cases n) auto
    let ?s = "s1\<lparr>woken := []\<rparr>"
    have "content (bufs s1 a) = served (sector (V (host s))) (bufs s a)" "a \<in> set (woken s1)" using s1(3) by (auto simp: after_intr_def)
    then have "flags (bufs s1 a) = (flags (bufs s a) OR B_VALID) AND NOT B_DIRTY" "a \<in> set (woken s1)" by (simp_all add: content_def served_def)
    moreover have "sdrw_resume me a ?s = Inr (flags (bufs s1 a) AND B_VALID \<noteq> 0 \<and> NOT (flags (bufs s1 a)) AND B_DIRTY \<noteq> 0, ?s)"
      using sdrw_resume_free [of ?s me a] s1(2) by (simp add: drv_ok_def)
    ultimately have "sdrw_wait hw me (Suc n) a s = Inr ?s"
      using s1(1) True Suc.prems(3) served_flags [of "flags (bufs s1 a)" "flags (bufs s a)"] by (simp add: m)
    moreover have "drv_ok V hc N L ?s []" using s1(2) by (simp add: drv_ok_def is_queue_def card_state_def)
    ultimately show ?thesis using s1(3) by (auto simp: after_intr_def)
  next
    case False
    let ?s = "s\<lparr>host := delayus hw 1 (host s)\<rparr>"
    have "l \<noteq> 0" using False in_flight_now [OF assms(1), of "bufs s a" "host s"] Suc.prems(2) by (cases l) auto
    have ag: "aged 1 (V (host s)) (V (host ?s))" using host_okD(4) [OF assms(1), of 1 "host s"] by simp
    have f: "in_flight (l - 1) (bufs s a) (V (host ?s))" "sector (V (host ?s)) = sector (V (host s))" using in_flight_aged [OF Suc.prems(2) ag] by auto
    have g: "in_flight L (bufs s a) (V (host s))" using Suc.prems(1) by (simp add: drv_ok_def card_state_def)
    have "in_flight (L - 1) (bufs s a) (V (host ?s))" using in_flight_aged [OF g ag] by (rule conjunct1)
    then have "in_flight L (bufs s a) (V (host ?s))" by (rule in_flight_mono) simp
    then have "drv_ok V hc N L ?s [a]" using Suc.prems(1) by (simp add: drv_ok_def is_queue_def card_state_def)
    then show ?thesis using Suc.IH [of ?s "l - 1"] f Suc.prems(3,4) \<open>l \<noteq> 0\<close> False by simp
  qed
qed

lemma sdrw_ok:
  assumes "host_ok hw V hc N L" "drv_ok V hc N L s []" "a \<noteq> sdque s" "req_ok hc N a b" "L + 3 \<le> n"
  shows "\<exists>s'. sdrw hw me n a (s\<lparr>bufs := (bufs s)(a := b)\<rparr>) = Inr s' \<and> drv_ok V hc N L s' [] \<and> sdque s' = sdque s \<and>
    sector (V (host s')) = served_disk (sector (V (host s))) b \<and> content (bufs s' a) = served (sector (V (host s))) b \<and>
    (\<forall>x. x \<noteq> a \<longrightarrow> content (bufs s' x) = content (bufs s x))"
proof -
  have "a \<notin> set (sdque s # [])" using assms(3) by simp
  from sdrw_call_ok [OF assms(1,2) this assms(4), of me] obtain s1 where s1: "sdrw_call hw me a b s = Inr s1" "drv_ok V hc N L s1 [a]"
      "sdque s1 = sdque s" "sector (V (host s1)) = sector (V (host s))" "\<forall>x. content (bufs s1 x) = (if x = a then content b else content (bufs s x))"
    by auto
  let ?s = "s1\<lparr>woken := []\<rparr>"
  have "drv_ok V hc N L ?s [a]" "in_flight L (bufs ?s a) (V (host ?s))" "a \<notin> set (woken ?s)"
    using s1(2) by (simp_all add: drv_ok_def is_queue_def card_state_def)
  from sdrw_wait_ok [OF assms(1) this assms(5), of me] obtain s' where s': "sdrw_wait hw me n a ?s = Inr s'" "drv_ok V hc N L s' []"
      "sdque s' = sdque s1" "sector (V (host s')) = served_disk (sector (V (host s1))) (bufs s1 a)"
      "content (bufs s' a) = served (sector (V (host s1))) (bufs s1 a)" "\<forall>x. x \<noteq> a \<longrightarrow> content (bufs s' x) = content (bufs s1 x)" by auto
  have c: "content (bufs s1 a) = content b" using s1(5) by simp
  then have "served_disk d (bufs s1 a) = served_disk d b" "served d (bufs s1 a) = served d b" for d
    by (simp_all add: served_disk_def served_def content_eq)
  moreover have "sdrw hw me n a (s\<lparr>bufs := (bufs s)(a := b)\<rparr>) = bnd (sdrw_call hw me a b s) (\<lambda>s. sdrw_wait hw me n a (s\<lparr>woken := []\<rparr>))"
    by (simp add: sdrw_def sdrw_call_def bnd_assoc split_def)
  ultimately show ?thesis using s' s1 by auto
qed

section \<open>The block device\<close>

text \<open>The file system begins at sector \<open>BLOCKNO_OFFSET\<close> of the card and has \<open>M\<close> blocks.\<close>

definition dev_rel :: "('h \<Rightarrow> card) \<Rightarrow> nat \<Rightarrow> 'h sd \<Rightarrow> BlockDevice \<Rightarrow> bool" where
  "dev_rel V M s d \<longleftrightarrow> (\<forall>b<M. disk d b = sector (V (host s)) (b + 0x20800))"

lemma block_sector:
  assumes "b < M" "M + 0x20800 \<le> N" "N \<le> 2 ^ 32"
  shows "unat (word_of_nat b + BLOCKNO_OFFSET :: u32) = b + 0x20800"
proof -
  have "word_of_nat b + BLOCKNO_OFFSET = (word_of_nat (b + 0x20800) :: u32)" by simp
  moreover have "b + 0x20800 < 2 ^ 32" using assms by simp
  ultimately show ?thesis by (simp only: unsigned_of_nat) (simp add: take_bit_nat_eq_self)
qed

text \<open>C32: \<open>block_device.read\<close> and \<open>block_device.write\<close> refine the device under the block cache.  On working hardware, with the driver idle and
  its card holding the blocks of a device \<open>d\<close> at the offset of the file system, \<open>sd_read\<close> returns exactly the block that \<open>dev_read\<close> gives and changes no block,
  \<open>sd_write\<close> leaves exactly the blocks of \<open>dev_write\<close>; both return, without a panic, after at most the longest lag of the hardware, leave the
  driver idle again and touch no other buffer.\<close>

theorem block_device_refines:
  assumes "host_ok hw V hc N L" "drv_ok V hc N L s []" "dev_rel V M s d" "M + 0x20800 \<le> N" "N \<le> 2 ^ 32" "\<not> hc \<longrightarrow> N \<le> 2 ^ 23"
    "block_no < M" "a \<noteq> sdque s" "a mod 4 = 0" "length (bdata (bufs s a)) = BLOCK_SIZE" "length buffer = BLOCK_SIZE" "L + 3 \<le> n"
  shows "(\<exists>s'. sd_read hw me n a block_no s = Inr (dev_read block_no d, s') \<and> drv_ok V hc N L s' [] \<and> dev_rel V M s' d \<and>
      (\<forall>x. x \<noteq> a \<longrightarrow> content (bufs s' x) = content (bufs s x))) \<and>
    (\<exists>s'. sd_write hw me n a block_no buffer s = Inr s' \<and> drv_ok V hc N L s' [] \<and> dev_rel V M s' (dev_write block_no buffer d) \<and>
      (\<forall>x. x \<noteq> a \<longrightarrow> content (bufs s' x) = content (bufs s x)))"
proof -
  let ?n = "word_of_nat block_no + BLOCKNO_OFFSET :: u32"
  have n: "unat ?n = block_no + 0x20800" by (rule block_sector [OF assms(7,4,5)])
  let ?r = "(bufs s a)\<lparr>blockno := ?n, flags := 0\<rparr>" and ?w = "(bufs s a)\<lparr>blockno := ?n, flags := B_DIRTY OR B_VALID, bdata := buffer\<rparr>"
  have b: "block_no + 0x20800 < N" "\<not> hc \<longrightarrow> block_no + 0x20800 < 2 ^ 23" using assms(4,6,7) by auto
  have "req_ok hc N a ?r" "req_ok hc N a ?w" unfolding req_ok_def using n b assms(9-11) by simp_all
  note r = sdrw_ok [OF assms(1,2,8) this(1) assms(12), of me] and w = sdrw_ok [OF assms(1,2,8) this(2) assms(12), of me]
  have blk: "sector (V (host s)) (block_no + 0x20800) = dev_read block_no d" "length (dev_read block_no d) = BLOCK_SIZE"
    using assms(3,7) host_okD(2) [OF assms(1), of "host s"] by (auto simp: dev_rel_def dev_read_def)
  obtain s1 where s1: "sdrw hw me n a (s\<lparr>bufs := (bufs s)(a := ?r)\<rparr>) = Inr s1" "drv_ok V hc N L s1 []"
      "sector (V (host s1)) = served_disk (sector (V (host s))) ?r" "content (bufs s1 a) = served (sector (V (host s))) ?r"
      "\<forall>x. x \<noteq> a \<longrightarrow> content (bufs s1 x) = content (bufs s x)" using r by blast
  have "bdata (bufs s1 a) = dev_read block_no d" using s1(4) n blk(1) by (simp add: content_def served_def)
  then have "sd_read hw me n a block_no s = Inr (dev_read block_no d, s1)" using s1(1) blk(2) by (simp add: sd_read_def)
  moreover have "dev_rel V M s1 d" using s1(3) assms(3) by (simp add: dev_rel_def served_disk_def)
  moreover obtain s2 where s2: "sdrw hw me n a (s\<lparr>bufs := (bufs s)(a := ?w)\<rparr>) = Inr s2" "drv_ok V hc N L s2 []"
      "sector (V (host s2)) = served_disk (sector (V (host s))) ?w" "\<forall>x. x \<noteq> a \<longrightarrow> content (bufs s2 x) = content (bufs s x)" using w by blast
  have "sd_write hw me n a block_no buffer s = Inr s2" using s2(1) assms(11) by (simp add: sd_write_def)
  moreover have "dev_rel V M s2 (dev_write block_no buffer d)" using s2(3) assms(3) n by (auto simp: dev_rel_def served_disk_def dev_write_def)
  ultimately show ?thesis using s1(2,5) s2(2,4) by blast
qed

theorem block_device_refines_witness:
  "\<exists>s'. sd_read soft_card 0 5 8 3 soft_sd = Inr (replicate BLOCK_SIZE 7, s')"
proof -
  let ?d = "\<lparr>disk = (\<lambda>_. replicate BLOCK_SIZE 7), wtrace = []\<rparr>"
  have "dev_rel soft_view 10 soft_sd ?d" by (simp add: dev_rel_def soft_sd_def pad_block_def)
  moreover have "8 \<noteq> sdque soft_sd" "length (bdata (bufs soft_sd 8)) = BLOCK_SIZE" by (simp_all add: soft_sd_def)
  ultimately show ?thesis
    using block_device_refines [OF soft_card_ok [of 200000] soft_sd_ok, of 10 ?d 3 8 "replicate BLOCK_SIZE 0" 5 0]
    by (auto simp: dev_read_def)
qed

end
