(* ===== verification/Spec2Isabelle.thy ===== *)
theory Spec2Isabelle
  imports DirSpec Format CString ListNode Memory ConsoleSpec FileTableSpec SchedSpec ExecSpec VirtMemSpec MkfsBoot ShellSpec SdBlock
begin

text \<open>
  A verification development for FTOS-FFS, a small AArch64 kernel whose file system follows the
  Berkeley fast file system: the disk is divided into block groups, each with its own inodes, bitmap and data
  blocks, below a block cache with a write-ahead log.  All source paths are relative to
  \<open>src/FTOS-FFS/src\<close>.

  \<^bold>\<open>The parts of the program and their theories.\<close>  Arrows of the import graph follow the calls of the code.

  \<^item> \<open>Prelude\<close>: machine types, the result type \<open>res\<close> with the errors \<open>Panic\<close> (an assertion or \<open>PANIC\<close>), \<open>Fault\<close>
    (behaviour that C leaves undefined: an access out of bounds, a NULL pointer, division by zero) and \<open>Blocked\<close> (the
    caller would sleep or spin), the sequencing \<open>bnd\<close>, wrapping arithmetic \<open>addw\<close>/\<open>subw\<close> on naturals of a given width.
  \<^item> \<open>SpinLock\<close> (\<open>common/spinlock.c\<close>, \<open>common/rc.c\<close>, \<open>core/sleeplock.c\<close>), \<open>ListNode\<close> (\<open>common/list.c\<close>), \<open>Bitmap\<close>
    (\<open>common/bitmap.c\<close>), \<open>CString\<close> (\<open>common/string.c\<close>), \<open>Format\<close> (\<open>common/format.c\<close>): the common library.  \<open>SpinLock\<close>
    also has the step relation \<open>sl_step\<close>, in which any number of CPUs run the lock code one memory access at a time.
  \<^item> \<open>PhysMem\<close> (\<open>core/physical_memory.c\<close>), \<open>Arena\<close> (\<open>core/arena.c\<close>): page and object allocators, with the links stored
    where the code stores them.  \<open>ArenaSpec\<close> and \<open>Memory\<close> hold their invariants and properties.
  \<^item> \<open>VirtMem\<close> (\<open>core/virtual_memory.c\<close>, \<open>aarch64/mmu.h\<close>): page tables in byte-level memory, 64-bit entries, and the
    translation the hardware makes with them.  \<open>PageTable\<close> gives them as tries (locale \<open>table_memory\<close>), \<open>VirtMemSpec\<close>
    what mapping does to the translation.
  \<^item> \<open>Console\<close>, \<open>ConsoleSpec\<close> (\<open>core/console.c\<close>, output of \<open>driver/uart.c\<close>): the terminal, and its refinement to two strings.
  \<^item> \<open>FsDefs\<close>, \<open>BlockDev\<close> (\<open>fs/defines.h\<close>, \<open>fs/block_device.h\<close>): the disk layout and a disk that records its writes.
  \<^item> \<open>Sd\<close> (\<open>driver/sd.c\<close>, \<open>driver/buf.h\<close>): the SD card driver over the registers of the host controller.  \<open>SdHost\<close> states what the
    hardware promises (\<open>host_ok\<close>) and proves the routines that talk to it, \<open>SdQueue\<close> the request queue, \<open>sd_intr\<close> and \<open>sdrw\<close>, \<open>SdSpec\<close> the steps of all
    threads and interrupts and their refinement to a queue of requests, and \<open>SdBlock\<close> (\<open>fs/block_device.c\<close>) the refinement of the block device
    below the cache.
  \<^item> \<open>Cache\<close>, \<open>CacheAlloc\<close> (\<open>fs/cache.c\<close>, \<open>fs/fs.c\<close>): the block cache, the log and the block allocator.  \<open>CacheInv\<close>,
    \<open>CacheLog\<close>, \<open>CacheCrash\<close>, \<open>CacheOps\<close>, \<open>CacheSteps\<close> and \<open>CacheAllocInv\<close> hold their lemmas: the content seen through the
    cache (\<open>view\<close>), the exact writes of a checkpoint, what recovery makes of any prefix of them, and the interleaving of
    several threads (\<open>c_step\<close>).
  \<^item> \<open>BlockCache\<close>, \<open>BlockMap\<close>: the struct of function pointers \<open>BlockCache\<close> of \<open>fs/cache.h\<close> as the locales \<open>block_store\<close> and
    \<open>block_cache\<close>, interpreted on the model of \<open>fs/cache.c\<close>.
  \<^item> \<open>Inode\<close>, \<open>Dir\<close> (\<open>fs/inode.c\<close>): inodes, files and directories over any block cache.  \<open>InodeFile\<close>, \<open>InodeRead\<close>,
    \<open>InodeGrow\<close>, \<open>InodeMap\<close>, \<open>InodeWrite\<close> prove reading and writing inside the locale, \<open>FileSys\<close> and \<open>DirSpec\<close> instantiate
    them; \<open>Sample\<close> is the concrete file system of the witnesses.
  \<^item> \<open>Mkfs\<close> (\<open>user/mkfs/main.c\<close>): the host program that writes the initial disk.  \<open>MkfsAppend\<close>, \<open>MkfsImage\<close> and \<open>MkfsRun\<close> prove what
    one append, one inode and a whole run do to the image, \<open>MkfsSpec\<close> states it in the kernel's terms, and \<open>MkfsBoot\<close> starts the
    kernel on the image and reads a file.
  \<^item> \<open>Shell\<close> (\<open>user/sh/main.c\<close>): the parser of the shell, on an input buffer addressed by index and a store of command
    structures addressed by number.  \<open>ShellLex\<close> reads the buffer as a list of tokens, \<open>ShellParse\<close> has the grammar as a parser on
    tokens and the simulation between the two, \<open>ShellPrint\<close> prints commands and reads them back, \<open>ShellRun\<close> models \<open>runcmd\<close>, \<open>getcmd\<close>
    and \<open>main\<close> as programs of system calls, and \<open>ShellSpec\<close> gives these a meaning on descriptor tables and states what a line runs.
  \<^item> \<open>FileTable\<close>, \<open>FileTableSpec\<close> (\<open>fs/file.c\<close>): open files and their reference counts.
  \<^item> \<open>Proc\<close>, \<open>Process\<close>, \<open>SchedSpec\<close> (\<open>core/proc.c\<close>, \<open>core/sched.c\<close>, \<open>core/container.c\<close>): processes, schedulers and containers.
    A function that switches context is split at \<open>swtch\<close> into the part before and the part after; \<open>sc_step\<close> interleaves
    these parts on all CPUs.
  \<^item> \<open>SysCall\<close>, \<open>SysCallSpec\<close>, \<open>SysFile\<close> (\<open>core/syscall.c\<close>, \<open>core/sysproc.c\<close>, \<open>core/sysfile.c\<close>): system calls on user memory.
  \<^item> \<open>Exec\<close>, \<open>ExecSpec\<close> (\<open>core/exec.c\<close>, \<open>core/trap.c\<close>): program loading and the dispatch of exceptions.

  \<^bold>\<open>How state and operations correspond.\<close>  The static variables of a file are a record, each function a definition from
  the state to \<open>(result, state) res\<close>.  A pointer to an array element is its index; where the code does arithmetic on
  addresses or overlays structures (pages, lists, page tables, user memory, disk blocks), pointers are machine addresses and
  memory is explicit.  Sizes are naturals with the wrap-around written out, or 64-bit words where bits matter.  Sequential
  code runs with the lock operations in place: acquiring a lock that is held gives \<open>Blocked\<close>, and a wrong release the
  panic of the code.  Loops are structural or have a termination proof; a loop whose counter can wrap around ends in
  \<open>Blocked ''loop''\<close> at that point.

  \<^bold>\<open>What the theorems show.\<close>
  The log: a commit is atomic under a crash after any prefix of its disk writes, boot recovers, the log never
  overflows under any interleaving, and waiting operations are released.  The allocator: blocks come from the free set of the
  right group, and freeing undoes it.  Files: reading and writing are the operations on byte lists, they touch no other
  file, and the inode on disk is kept in step.  Directories: insertion, lookup and removal agree.  Memory: arenas and the page list
  hand out disjoint memory and get all of it back.  Page tables: mapping changes the translation of the mapped range only.  The terminal refines line
  editing on strings.  The scheduler never runs a process twice and never panics.  Open files are counted exactly.  A failed
  \<open>execve\<close> changes no process.  Arguments of system calls are checked, exactly for ranges that do not wrap.
  The SD driver carries out requests in the order of the calls, forgets no sleeping thread as long as a call is not interrupted before it takes the lock (and
  can forget one then), and its block operations are those of the device that the cache is verified against.
  The cache stays well formed under every interleaving, and what a \<open>write\<close> call wrote is on disk after its commit.  \<open>mkfs\<close>
  writes an image in which every file the user gave is found under its name with its bytes, and the kernel boots on it.  The parser
  of the shell never overruns its input, finds exactly the tree of the grammar, and running the tree executes every program of
  the line with the descriptors that pipes and redirections ask for.

  \<^bold>\<open>Bounds and fuel.\<close>  \<open>room\<close> counts the \<open>Block\<close> structures the arena can still supply, \<open>nslots\<close> numbers them; theorems ask for as many as the
  operation can need (for instance 252 for a checkpoint: a log block and a block for each of the 126 log entries).  The partial functions
  (value \<open>None\<close> when the loop does not end) are \<open>clear_loop\<close> (\<open>Arena\<close>), \<open>free_loop\<close> (\<open>PhysMem\<close>), \<open>strlen_from\<close> (\<open>CString\<close>), \<open>find_group\<close>
  (\<open>Inode\<close>), \<open>next_group\<close> (\<open>Mkfs\<close>), \<open>nulterminate\<close> and \<open>cmd_of\<close> (\<open>Shell\<close>); theorems show where each ends.  For instance the loop of \<open>find_group\<close>
  does not end when every group is full, and \<open>find_group_terminates\<close> shows that it ends otherwise.  The mutually recursive parsers of the
  shell use the fuel \<open>parse_fuel n = 4 * n + 4\<close> for a line of \<open>n\<close> characters, since each character is behind at most four nested calls;
  it is proved enough for every line.  \<open>open_console\<close> has fuel 4: the descriptor returned grows with each call, and the fourth
  is at least 3.  \<open>last_buf\<close> (\<open>Sd\<close>) is partial as well, since a cyclic queue has no end; \<open>sdrw_wait\<close> counts the events while a thread sleeps, and three
  more than the longest lag of the hardware are enough.  The polling loops of the driver have the counts of the code.

  \<^bold>\<open>Parameters.\<close>  The registers of the SD host controller with the state of the card behind them (the hypothesis \<open>host_ok\<close> is their documented
  behaviour, and \<open>soft_card\<close> satisfies it), the assembled user code of the first processes, the counter registers
  and the characters arriving at the UART are arguments of the definitions.  For the shell, the results of the system calls are
  arguments too; \<open>pipe\<close> is taken as POSIX has it, since the kernel does not implement it.

  \<^bold>\<open>Not modelled.\<close>  Assembly and register programming (\<open>main.c\<close>, \<open>aarch64\<close>, \<open>driver/clock.c\<close>, \<open>driver/interrupt.c\<close>, \<open>driver/mbox.c\<close>), since their effect is that of the
  hardware; the initialisation of the card (\<open>sdInit\<close> and what it calls), for the same reason; \<open>core/sched_simple.c\<close>, which is compiled out; the test functions at the end of several files; user programs other than
  those named above; and \<open>libc\<close>, a vendored copy of musl that the kernel does not link.
\<close>

section \<open>The write-ahead log\<close>

text \<open>C1: \<open>cache_end_op\<close> of the last running operation returns, leaves every block of the disk as the
  client last saw it and marks everything persisted.  A crash after any number \<open>k\<close> of the disk writes it
  makes leaves, after recovery, either all of the old disk or all of the new one, never a mixture.\<close>

theorem end_op_crash_atomic:
  assumes "log_inv {c} st" "bc_inv st" "held st = {}" "room st \<ge> 252"
  shows "\<exists>st' ws. cache_end_op me c st = Inr st' \<and> dev st' = dev_writes (dev st) ws \<and>
    (\<forall>b. b \<notin> log_area (sblock st) \<longrightarrow> disk (dev st') b = view st b) \<and> last_persisted_ts st' = last_allocated_ts st' \<and>
    (\<forall>k. (\<forall>b. b \<notin> log_area (sblock st) \<longrightarrow>
            recovered (sblock st) (apply_writes (disk (dev st)) (take k ws)) b = disk (dev st) b) \<or>
         (\<forall>b. b \<notin> log_area (sblock st) \<longrightarrow>
            recovered (sblock st) (apply_writes (disk (dev st)) (take k ws)) b = view st b))"
  by (rule end_op_atomic [OF assms])

theorem end_op_crash_atomic_witness:
  "log_inv {0} sample_cache \<and> bc_inv sample_cache \<and> held sample_cache = {} \<and> room sample_cache \<ge> 252 \<and>
   (\<exists>st'. cache_end_op 1 0 sample_cache = Inr st' \<and>
     (\<forall>b. b \<notin> log_area sample_sb \<longrightarrow> disk (dev st') b = sample_disk b))"
proof -
  have s: "log_inv {0} sample_cache" "bc_inv sample_cache" "held sample_cache = {}" "room sample_cache \<ge> 252" "sblock sample_cache = sample_sb"
    using sample_log_inv sample_bc_inv sample_held by (simp_all add: sample_cache_def)
  then show ?thesis using end_op_crash_atomic [of 0 sample_cache 1] sample_view by auto
qed

text \<open>C2: recovery at boot.  \<open>init_bcache\<close> on any disk with a well-formed log header returns with a sound,
  idle cache whose view is the recovered disk; and a crash after any number of the writes that the
  replay makes changes nothing: recovering again gives the same disk.\<close>

theorem boot_recovers:
  assumes "sb_ok sb" "\<forall>b. length (disk d b) = BLOCK_SIZE"
    "hdr_ok sb (bytes_header (disk d (sb_log_start sb)))" "room st \<ge> 126"
  shows "\<exists>st' ws. init_bcache me sb d st = Inr st' \<and> wtrace (dev st') = wtrace d @ ws \<and>
    view st' = recovered sb (disk d) \<and> disk (dev st') = recovered sb (disk d) \<and> bc_inv st' \<and> log_inv {} st' \<and> held st' = {} \<and>
    (\<forall>k. recovered sb (apply_writes (disk d) (take k ws)) = recovered sb (disk d))"
proof -
  let ?ws = "replay_writes sb (bytes_header (disk d (sb_log_start sb))) (disk d)"
  have "recovered sb (apply_writes (disk d) (take k ?ws)) = recovered sb (disk d)" for k
    using recovered_restart [of sb "bytes_header (disk d (sb_log_start sb))" "disk d" k] assms(3) by simp
  moreover obtain st' where "init_bcache me sb d st = Inr st'" "disk (dev st') = recovered sb (disk d)"
    "wtrace (dev st') = wtrace d @ ?ws" "view st' = disk (dev st')" "bc_inv st'" "held st' = {}" "log_inv {} st'"
    using init_bcache_recovers [OF assms, of me] by blast
  ultimately show ?thesis by (intro exI [of _ st'] exI [of _ ?ws]) simp
qed

theorem boot_recovers_witness:
  "\<exists>st' ws. init_bcache 0 sample_sb (dev sample_cache) sample_cache = Inr st' \<and> wtrace (dev st') = wtrace (dev sample_cache) @ ws \<and>
    view st' = recovered sample_sb (disk (dev sample_cache)) \<and> bc_inv st' \<and> log_inv {} st'"
proof -
  have "hdr_ok sample_sb (bytes_header (disk (dev sample_cache) (sb_log_start sample_sb)))"
    by (rule sample_header_ok)
  moreover have "\<forall>b. length (disk (dev sample_cache) b) = 512" "room sample_cache \<ge> 126"
    using sample_disk_length by (simp_all add: sample_cache_def)
  ultimately show ?thesis using boot_recovers [OF sample_layout(2), of "dev sample_cache" sample_cache 0] by blast
qed





text \<open>C5: an \<open>end_op\<close> that is not the last waits: it commits its blocks to the header and then sleeps until
  they are persisted.\<close>

theorem end_op_waits:
  assumes "log_inv A st" "bc_inv st" "c \<in> A" "A \<noteq> {c}"
  shows "cache_end_op me c st = Inl (Blocked ''last_persisted_ts'') \<and>
    (\<exists>st'. end_op_commit me c st = Inr (False, log_size st, st') \<and>
       set (logged (header st')) = set (logged (header st)) \<union> ctx_blocks st c \<and> dev st' = dev st)"
proof -
  have lk: "free_lock (cache_lock st)" using assms(2) by (simp add: bc_inv_def bc_wf_def)
  show ?thesis using cache_end_op_waits [OF assms(1) lk assms(3,4), of me] end_op_commit_ok [OF assms(1) lk assms(3), of me] assms(4)
    by fastforce
qed

theorem end_op_waits_witness:
  "\<exists>st. log_inv {0, 1} st \<and> cache_end_op 3 1 st = Inl (Blocked ''last_persisted_ts'')"
proof -
  have lk: "free_lock (cache_lock sample_cache)" and t: "last_allocated_ts sample_cache + 1 < 2 ^ 64" "log_used sample_cache + 10 \<le> log_size sample_cache"
    by (simp_all add: sample_cache_def sample_lock_def)
  obtain st where st: "log_inv (insert 1 {0}) st" "same_blocks sample_cache st"
    using cache_begin_op_ok [OF sample_log_inv lk _ t, of 1 2] by auto
  then have "bc_inv st" using same_blocks_inv [OF st(2)] sample_bc_inv by simp
  then show ?thesis using end_op_waits [OF st(1), of 1 3] st(1) by (auto simp: insert_commute)
qed

section \<open>Block allocation\<close>

text \<open>C6: \<open>cache_alloc\<close> on a disk with a free block returns a block that was free, zeroed and now marked in the
  bitmap, records exactly that block and its bitmap block in the operation, counts it in its group and changes
  no other block.\<close>

theorem cache_alloc_correct:
  assumes "alloc_pre sb A c st" "\<not> group_area sb \<subseteq> allocated sb (view st)" "bitmap_scans sb < room st"
  shows "\<exists>b st'. cache_alloc me (Some c) st = Inr (b, st') \<and> b \<in> group_area sb - allocated sb (view st) \<and>
    allocated sb (view st') = insert b (allocated sb (view st)) \<and> view st' b = replicate BLOCK_SIZE 0 \<and>
    (\<forall>x. x \<noteq> b \<longrightarrow> x \<notin> bitmap_blocks sb \<longrightarrow> view st' x = view st x) \<and>
    ctx_blocks st' c = {b, bit_block sb b} \<union> ctx_blocks st c \<and> client_inv sb A st' \<and>
    used_block st' = (used_block st)[group_of sb b := addw 32 (used_block st ! group_of sb b) 1]"
proof -
  have "Suc (bitmap_scans sb) \<le> room st" using assms(3) by simp
  from cache_alloc_ok [OF assms(1,2) this, of me] show ?thesis by (auto simp: alloc_post_def steps_to_def)
qed

theorem cache_alloc_correct_witness:
  "\<exists>b st'. cache_alloc 0 (Some 0) sample_cache = Inr (b, st') \<and> b \<in> {66..<146} \<and> (b - 66) mod 8 \<ge> 5"
proof -
  have "146 - 1 \<in> group_area sample_sb" "146 - 1 \<notin> allocated sample_sb (view sample_cache)"
    by (simp_all add: sample_area sample_view sample_allocated)
  then have "\<not> group_area sample_sb \<subseteq> allocated sample_sb (view sample_cache)" by blast
  moreover have "bitmap_scans sample_sb < room sample_cache"
    by (simp add: bitmap_scans_def bitmap_offs_def sample_sb_def sample_cache_def)
  ultimately obtain b st' where "cache_alloc 0 (Some 0) sample_cache = Inr (b, st')"
      "b \<in> group_area sample_sb - allocated sample_sb (view sample_cache)"
    using cache_alloc_correct [OF sample_alloc_pre, of 0] by blast
  then show ?thesis by (auto simp: sample_area sample_view sample_allocated)
qed

text \<open>C7: \<open>cache_allocg\<close> allocates inside the group it is given; it returns 0 and changes nothing exactly when the
  group has no free block.\<close>

theorem cache_allocg_correct:
  assumes "alloc_pre sb A c st" "gno < num_groups sb" "blocks_per_group sb \<le> BIT_PER_BLOCK" "2 \<le> room st"
    "grp = {b \<in> group_area sb. group_of sb b = gno}"
  shows "\<exists>b st'. cache_allocg me (Some c) gno st = Inr (b, st') \<and> client_inv sb A st' \<and>
    (if grp \<subseteq> allocated sb (view st) then b = 0 \<and> view st' = view st \<and> used_block st' = used_block st
     else b \<in> grp - allocated sb (view st) \<and> allocated sb (view st') = insert b (allocated sb (view st)) \<and>
       view st' b = replicate BLOCK_SIZE 0 \<and> (\<forall>x. x \<noteq> b \<longrightarrow> x \<notin> bitmap_blocks sb \<longrightarrow> view st' x = view st x) \<and>
       used_block st' = (used_block st)[gno := addw 32 (used_block st ! gno) 1])"
  using cache_allocg_ok [OF assms(1-4), of me]
proof (elim disjE exE conjE)
  fix b st'
  assume r: "cache_allocg me (Some c) gno st = Inr (b, st')" "group_of sb b = gno" "alloc_post sb A c 2 st b st'"
  then have "b \<in> grp - allocated sb (view st)" using assms(5) by (auto simp: alloc_post_def)
  then show ?thesis using r by (intro exI [of _ b] exI [of _ st']) (auto simp: alloc_post_def steps_to_def)
next
  fix st'
  assume "cache_allocg me (Some c) gno st = Inr (0, st')" "steps_to sb A 1 st st'" "view st' = view st"
    "used_block st' = used_block st" "{b \<in> group_area sb. group_of sb b = gno} \<subseteq> allocated sb (view st)"
  then show ?thesis using assms(5) by (intro exI [of _ 0] exI [of _ st']) (auto simp: steps_to_def)
qed

theorem cache_allocg_correct_witness:
  "\<exists>b st'. cache_allocg 0 (Some 0) 2 sample_cache = Inr (b, st') \<and> 87 \<le> b \<and> b < 90"
proof -
  have g: "2 < num_groups sample_sb" "blocks_per_group sample_sb \<le> 4096" "2 \<le> room sample_cache"
    by (simp_all add: sample_sb_def sample_cache_def)
  have "87 \<in> {b \<in> group_area sample_sb. group_of sample_sb b = 2}" "87 \<notin> allocated sample_sb (view sample_cache)"
    by (simp_all add: sample_area sample_group sample_view sample_allocated)
  then have "\<not> {b \<in> group_area sample_sb. group_of sample_sb b = 2} \<subseteq> allocated sample_sb (view sample_cache)" by blast
  then obtain b st' where r: "cache_allocg 0 (Some 0) 2 sample_cache = Inr (b, st')"
      "b \<in> {b \<in> group_area sample_sb. group_of sample_sb b = 2} - allocated sample_sb (view sample_cache)"
    using cache_allocg_correct [OF sample_alloc_pre g refl, of 0] by auto
  then have "66 \<le> b" "b < 146" "(b - 66) div 8 = 2" "5 \<le> (b - 66) mod 8"
    by (auto simp: sample_area sample_group sample_view sample_allocated)
  then have "87 \<le> b \<and> b < 90" by presburger
  then show ?thesis using r(1) by blast
qed

text \<open>C8: \<open>cache_free\<close> of an allocated block clears exactly its bit; a second free of the block is stopped by
  the assertion.\<close>

theorem cache_free_correct:
  assumes "alloc_pre sb A c st" "b \<in> allocated sb (view st)" "0 < room st"
  shows "(\<exists>st'. cache_free me (Some c) b st = Inr st' \<and> client_inv sb A st' \<and>
      allocated sb (view st') = allocated sb (view st) - {b} \<and> (\<forall>x. x \<noteq> bit_block sb b \<longrightarrow> view st' x = view st x) \<and>
      ctx_blocks st' c = insert (bit_block sb b) (ctx_blocks st c) \<and>
      used_block st' = (used_block st)[group_of sb b := subw 32 (used_block st ! group_of sb b) 1]) \<and>
    (\<forall>b'\<in>group_area sb - allocated sb (view st). panics (cache_free me (Some c) b' st))"
  using cache_free_ok [OF assms, of me] cache_free_twice [OF assms(1) _ _ assms(3)]
  by (auto simp: free_post_def steps_to_def)

theorem cache_free_correct_witness:
  "(\<exists>st'. cache_free 0 (Some 0) 66 sample_cache = Inr st' \<and> 66 \<notin> allocated sample_sb (view st')) \<and>
   panics (cache_free 0 (Some 0) 71 sample_cache)"
proof -
  have "66 \<in> allocated sample_sb (view sample_cache)" "71 \<in> group_area sample_sb - allocated sample_sb (view sample_cache)" "0 < room sample_cache"
    by (simp_all add: sample_area sample_view sample_allocated sample_room)
  then show ?thesis using cache_free_correct [OF sample_alloc_pre, of 66 0] by auto
qed

section \<open>Files\<close>

text \<open>C9: \<open>inode_write\<close> writes \<open>src\<close> at \<open>offset\<close> of a regular file, at the end of it or inside, allocating the
  blocks it needs: it returns the number of bytes, the file then holds exactly the written bytes and its old
  ones, its size grows to the end of the write, its entry on disk is the one in memory, its blocks are all
  allocated and used once, and no other inode's entry and no block of anything else has changed.\<close>

theorem inode_write_correct:
  assumes "write_ready sb A c st" "file_state sb p st" "ity (entry (ino_of st p)) \<noteq> INODE_DEVICE"
    "offset \<le> num_bytes (entry (ino_of st p))" "fin = offset + length src" "fin \<le> INODE_MAX_BYTES"
    "write_space sb c offset fin st"
  shows "\<exists>st'. inode_write (bcache_ops me) con (Some c) p src offset (length src) st = Inr (length src, st') \<and>
    file_written sb p offset src st st' \<and> write_ready sb A c st' \<and> file_state sb p st'"
  using inode_write_bcache [OF assms, of me con] by blast

theorem inode_write_correct_witness:
  "\<exists>st'. inode_write (bcache_ops 0) (\<lambda>_ _ _ _. Inl (Panic [])) (Some 0) 0 (replicate 700 7) 0 700 sample_tree = Inr (700, st') \<and>
     file_written sample_sb 0 0 (replicate 700 7) sample_tree st' \<and> num_bytes (entry (ino_of st' 0)) = 700"
proof -
  have e: "ity (entry (ino_of sample_tree 0)) \<noteq> 3" "num_bytes (entry (ino_of sample_tree 0)) = 0"
    by (simp_all add: sample_tree_def sample_entry_def zero_entry_def)
  have "write_space sample_sb 0 0 700 sample_tree" by (rule sample_space) (simp add: touched_def)
  then obtain st' where r: "inode_write (bcache_ops 0) (\<lambda>_ _ _ _. Inl (Panic [])) (Some 0) 0 (replicate 700 7) 0 700 sample_tree = Inr (700, st')"
    and w: "file_written sample_sb 0 0 (replicate 700 7) sample_tree st'"
    using inode_write_correct [OF sample_write_ready sample_file_state(1) e(1), of 0 700 "replicate 700 7" 0 "\<lambda>_ _ _ _. Inl (Panic [])"] e(2)
    by auto
  moreover have "num_bytes (entry (ino_of st' 0)) = 700"
    using w e(2) unfolding file_written_def Let_def by (metis InodeEntry.select_convs(5) InodeEntry.surjective InodeEntry.update_convs(5,6,7) add_0 length_replicate max_0L)
  ultimately show ?thesis by blast
qed

text \<open>C10: a write is durable and atomic.  When the only running operation writes to a file and ends, the disk holds the new
  size, the written bytes and the old ones; and a crash after any number of the disk writes of \<open>end_op\<close> leaves,
  after recovery, the whole disk as it was before \<open>end_op\<close> or as it is afterwards.\<close>

theorem write_durable:
  assumes w: "write_ready sb {c} c st" and f: "file_state sb p st" "ity (entry (ino_of st p)) \<noteq> INODE_DEVICE"
    and off: "offset \<le> num_bytes (entry (ino_of st p))" "fin = offset + length src" "fin \<le> INODE_MAX_BYTES"
    and sp: "write_space sb c offset fin st" and h: "held (it_cache st) = {}"
    and r: "(bitmap_scans sb + 7) * touched offset fin + 253 \<le> room (it_cache st)"
  shows "\<exists>st1 k ws. inode_write (bcache_ops me) con (Some c) p src offset (length src) st = Inr (length src, st1) \<and>
    cache_end_op me c (it_cache st1) = Inr k \<and> dev k = dev_writes (dev (it_cache st1)) ws \<and>
    (let d = disk (dev k); e = entry (ino_of st p); e' = get_entry (d (home_block p st)) (inode_no (ino_of st p)) in
       num_bytes e' = max (num_bytes e) fin \<and>
       (\<forall>q<num_bytes e'. fbyte d e' q = (if offset \<le> q \<and> q < fin then src ! (q - offset) else fbyte (view (it_cache st)) e q))) \<and>
    (\<forall>n. let d = recovered sb (apply_writes (disk (dev (it_cache st1))) (take n ws)) in
       (\<forall>b. b \<notin> log_area sb \<longrightarrow> d b = disk (dev (it_cache st1)) b) \<or> (\<forall>b. b \<notin> log_area sb \<longrightarrow> d b = disk (dev k) b))"
proof -
  obtain st1 where s1: "inode_write (bcache_ops me) con (Some c) p src offset (length src) st = Inr (length src, st1)"
    "file_written sb p offset src st st1" "write_ready sb {c} c st1" "file_state sb p st1" "held (it_cache st1) = {}" "252 \<le> room (it_cache st1)"
    using inode_write_bcache [OF w f off sp, of me con] h r by force
  let ?k1 = "it_cache st1" and ?e = "entry (ino_of st p)" and ?e1 = "entry (ino_of st1 p)" and ?h = "home_block p st" and ?ino = "inode_no (ino_of st p)"
  have inv: "fs_inv sb {c} ?k1" using s1(3) by (simp add: write_ready_def Let_def)
  then have ci: "sblock ?k1 = sb" "bc_inv ?k1" "log_inv {c} ?k1" by (simp_all add: fs_inv_def client_inv_def)
  obtain k ws where e: "cache_end_op me c ?k1 = Inr k" "dev k = dev_writes (dev ?k1) ws" "\<forall>b. b \<notin> log_area sb \<longrightarrow> disk (dev k) b = view ?k1 b"
    "\<forall>n. (\<forall>b. b \<notin> log_area sb \<longrightarrow> recovered sb (apply_writes (disk (dev ?k1)) (take n ws)) b = disk (dev ?k1) b) \<or>
         (\<forall>b. b \<notin> log_area sb \<longrightarrow> recovered sb (apply_writes (disk (dev ?k1)) (take n ws)) b = view ?k1 b)"
    using end_op_atomic [OF ci(3,2) s1(5,6), of me] unfolding ci(1) by blast
  note W = s1(2) [unfolded file_written_def Let_def]
  have same: "disk (dev k) b = view ?k1 b" if "b \<in> allocated sb (view ?k1)" for b
    using e(3) that bm.area_usable [OF inv, of b] by (auto simp: client_block_def allocated_def)
  have hm: "?h \<in> allocated sb (view ?k1)" using f(1) W by (auto simp: file_state_def Let_def)
  have ge: "get_entry (disk (dev k) ?h) ?ino = ?e1" using same [OF hm] W by simp
  have nb: "num_bytes ?e1 = max (num_bytes ?e) fin" using W off(2) by (cases "?e1") (metis InodeEntry.select_convs(5) InodeEntry.surjective InodeEntry.update_convs(5,6,7))
  have fok: "file_ok (view ?k1) ?e1 (allocated sb (view ?k1) - bitmap_blocks sb)" using W by blast
  then have sub: "file_blocks (view ?k1) ?e1 \<subseteq> allocated sb (view ?k1)" by (auto simp: file_ok_def fmap_ok_def)
  have "fbyte (disk (dev k)) ?e1 q = fbyte (view ?k1) ?e1 q" if q: "q < num_bytes ?e1" for q
  proof -
    have k: "512 * (q div 512) < num_bytes ?e1" using q by (meson le_less_trans times_div_less_eq_dividend)
    then have "q div 512 < 140" using fok by (simp add: file_ok_def)
    then show ?thesis using file_blocks_frame(3) [of "view ?k1" ?e1 "disk (dev k)" q] sub same fok k by (auto simp: file_ok_def)
  qed
  then have "\<forall>q<num_bytes ?e1. fbyte (disk (dev k)) ?e1 q = (if offset \<le> q \<and> q < fin then src ! (q - offset) else fbyte (view (it_cache st)) ?e q)"
    using W off(2) by simp
  moreover have "(\<forall>b. b \<notin> log_area sb \<longrightarrow> D b = view ?k1 b) \<longleftrightarrow> (\<forall>b. b \<notin> log_area sb \<longrightarrow> D b = disk (dev k) b)" for D using e(3) by auto
  ultimately show ?thesis using s1(1) e(1,2,4) ge nb by (intro exI [of _ st1] exI [of _ k] exI [of _ ws]) (simp add: Let_def)
qed

theorem write_durable_witness:
  "\<exists>st1 k. inode_write (bcache_ops 0) (\<lambda>_ _ _ _. Inl (Panic [])) (Some 0) 0 (replicate 700 7) 0 700 sample_tree = Inr (700, st1) \<and>
     cache_end_op 0 0 (it_cache st1) = Inr k \<and> num_bytes (get_entry (disk (dev k) (home_block 0 sample_tree)) 1) = 700"
proof -
  have e: "ity (entry (ino_of sample_tree 0)) \<noteq> 3" "num_bytes (entry (ino_of sample_tree 0)) = 0" "inode_no (ino_of sample_tree 0) = 1"
    "it_cache sample_tree = sample_cache"
    by (simp_all add: sample_tree_def sample_entry_def zero_entry_def)
  have t: "touched 0 700 = 2" by (simp add: touched_def)
  have s: "write_space sample_sb 0 0 700 sample_tree" by (rule sample_space) (simp add: touched_def)
  have r: "(bitmap_scans sample_sb + 7) * touched 0 700 + 253 \<le> room (it_cache sample_tree)"
    unfolding t e(4) sample_room by (simp add: bitmap_scans_def bitmap_offs_def sample_sb_def)
  show ?thesis
    using write_durable [OF sample_write_ready sample_file_state(1) e(1), of 0 700 "replicate 700 7" 0 "\<lambda>_ _ _ _. Inl (Panic [])"] s r e sample_held
    by (auto simp: Let_def)
qed

text \<open>C11: \<open>inode_read\<close> returns exactly the bytes of the file from \<open>offset\<close>, cut at the end of the file, and changes
  nothing but the cached copies of blocks.\<close>

theorem inode_read_correct:
  assumes "fs_inv sb A (it_cache st)" "file_state sb p st" "e = entry (ino_of st p)" "ity e \<noteq> INODE_DEVICE"
    "offset \<le> num_bytes e" "offset + cnt < 2 ^ 64" "n = min cnt (num_bytes e - offset)"
    "2 * touched offset (offset + n) \<le> room (it_cache st)"
  shows "\<exists>k'. inode_read (bcache_ops me) con p offset cnt st =
      Inr (map (fbyte (view (it_cache st)) e) [offset..<offset + n], n, st\<lparr>it_cache := k'\<rparr>) \<and> view k' = view (it_cache st) \<and>
      fs_inv sb A k' \<and> held k' = held (it_cache st)"
  using inode_read_bcache [OF assms, of me con] by blast

theorem inode_read_correct_witness:
  "\<exists>k'. inode_read (bcache_ops 0) (\<lambda>_ _ _. Inl (Panic [])) 0 0 100 sample_tree = Inr ([], 0, sample_tree\<lparr>it_cache := k'\<rparr>)"
proof -
  have e: "ity (entry (ino_of sample_tree 0)) \<noteq> 3" "num_bytes (entry (ino_of sample_tree 0)) = 0"
    and i: "fs_inv sample_sb {0} (it_cache sample_tree)"
    using sample_fs_inv by (simp_all add: sample_tree_def sample_entry_def zero_entry_def)
  show ?thesis using inode_read_correct [OF i sample_file_state(1) refl e(1), of 0 100 0 0 "\<lambda>_ _ _. Inl (Panic [])"] e(2)
    by (auto simp: touched_def)
qed

text \<open>Where inodes live.  Two inode numbers never share a place on disk, although the block is computed from
  \<open>inode_no - 1\<close> and the slot inside the block from \<open>inode_no\<close>.\<close>

theorem inode_locations_distinct:
  assumes "0 < a" "0 < b" "a < 2 ^ 64" "b < 2 ^ 64" "0 < GINODES sb" "(GINODES sb - 1) div INODE_PER_BLOCK < blocks_per_group sb"
    "to_block_no sb a = to_block_no sb b" "entry_offset a = entry_offset b"
  shows "a = b"
  by (rule inode_place_inj [OF assms])

theorem inode_locations_distinct_witness:
  "to_block_no sample_sb 8 = to_block_no sample_sb 7 \<and> entry_offset 8 \<noteq> entry_offset 7"
  using inode_locations_distinct [of 8 7 sample_sb] by (auto simp: to_block_no_def GINODES_def subw_small sample_sb_def)

text \<open>The search for a group with room in \<open>inode_map\<close> ends, with such a group, whenever one of the groups
  has room.\<close>

theorem find_group_terminates:
  assumes "tgno < NGROUPS" "0 < step" "g < NGROUPS" "usage ! g \<noteq> lim"
  shows "\<exists>t. find_group usage lim tgno step = Some t \<and> t < NGROUPS \<and> usage ! t \<noteq> lim"
  by (rule find_group_ok [OF assms])

theorem find_group_terminates_witness:
  "\<exists>t. find_group [4, 4, 4, 4, 4, 3, 4, 4, 4, 4] 4 6 2 = Some t \<and> t < 10 \<and> [4, 4, 4, 4, 4, 3, 4, 4, 4, 4] ! t \<noteq> (4 :: nat)"
  by (rule find_group_terminates [of 6 2 5]) (simp_all add: numeral_nat)

text \<open>The bytes of an inode entry.  Casting the bytes of an entry back gives the entry, for every entry
  whose fields fit their C types, and every 64 bytes are the bytes of exactly one such entry.\<close>

theorem entry_roundtrip:
  assumes "entry_fits e" "length bs = 64"
  shows "bytes_entry (entry_bytes e) = e \<and> entry_bytes (bytes_entry bs) = bs \<and> entry_fits (bytes_entry bs)"
  using bytes_entry_bytes [OF assms(1)] entry_bytes_bytes_entry [OF assms(2)] entry_fits_bytes_entry [OF assms(2)] by simp

theorem entry_roundtrip_witness:
  "bytes_entry (entry_bytes sample_entry) = sample_entry \<and> entry_bytes (bytes_entry (replicate 64 255)) = replicate 64 255"
  using entry_roundtrip [OF sample_entry_fits(1), of "replicate 64 255"] by simp

section \<open>Directories and paths\<close>

text \<open>C12: \<open>inode_insert\<close> of a new name into a directory takes its first free slot, or appends one; \<open>inode_lookup\<close>
  then finds the inode number (as 16 bits) at that index, and finds every other name as before.\<close>

theorem directory_insert_lookup:
  assumes "write_ready sb A c st" "dir_state sb p st" "dir_space sb c p st" "length buf = 16"
    "ds = dir_entries (view (it_cache st)) (entry (ino_of st p))" "\<forall>d\<in>set ds. \<not> hit name d" "ino mod 2 ^ 16 \<noteq> 0"
  shows "\<exists>st' ds'. inode_insert (bcache_ops me) con cout (Some c) p name ino buf st = Inr (first_free ds 0, st') \<and>
    write_ready sb A c st' \<and> dir_state sb p st' \<and> ds' = dir_entries (view (it_cache st')) (entry (ino_of st' p)) \<and>
    (\<forall>other. cstr (arr_of other) 14 \<noteq> cstr (arr_of name) 14 \<longrightarrow> first_hit other ds' 0 = first_hit other ds 0) \<and>
    (2 * length ds' \<le> room (it_cache st') \<longrightarrow>
      (\<exists>st''. inode_lookup (bcache_ops me) con p name buf st' = Inr (ino mod 2 ^ 16, Some (first_free ds 0), st'')))"
proof -
  obtain st' x where r: "inode_insert (bcache_ops me) con cout (Some c) p name ino buf st = Inr (first_free ds 0, st')"
    and post: "write_ready sb A c st'" "dir_state sb p st'" and ds': "dir_entries (view (it_cache st')) (entry (ino_of st' p)) = put_at ds (first_free ds 0) x"
    and x: "de_inode_no x = ino mod 2 ^ 16" "cstr (arr_of (de_name x)) 14 = cstr (arr_of name) 14"
    using inode_insert_ok [OF assms(1-5) refl, of me con cout name ino] by blast
  have k: "first_free ds 0 \<le> length ds" using first_free_range(2) [of ds 0] by simp
  have hx: "hit name x" using x assms(7) by (simp add: hit_def)
  have other: "first_hit other (put_at ds (first_free ds 0) x) 0 = first_hit other ds 0" if "cstr (arr_of other) 14 \<noteq> cstr (arr_of name) 14" for other
    using that x(2) by (intro first_hit_other) (auto simp: hit_def)
  have "\<exists>st''. inode_lookup (bcache_ops me) con p name buf st' = Inr (ino mod 2 ^ 16, Some (first_free ds 0), st'')"
    if "2 * length (put_at ds (first_free ds 0) x) \<le> room (it_cache st')"
    using inode_lookup_entries [OF post ds' that assms(4) first_hit_put_at [OF assms(6) hx k]] x(1) by simp
  note found = this
  have "\<forall>other. cstr (arr_of other) 14 \<noteq> cstr (arr_of name) 14 \<longrightarrow>
      first_hit other (put_at ds (first_free ds 0) x) 0 = first_hit other ds 0" using other by blast
  then show ?thesis
    by (intro exI [of _ st'] exI [of _ "put_at ds (first_free ds 0) x"] conjI impI r post ds' [symmetric] found)
qed

theorem directory_insert_lookup_witness:
  "\<exists>st'. inode_insert (bcache_ops 0) (\<lambda>_ _ _. Inl (Panic [])) (\<lambda>_ _ _ _. Inl (Panic [])) (Some 0) 1 [98, 0] 5 (replicate 16 0) sample_tree = Inr (1, st') \<and>
     dir_state sample_sb 1 st'"
proof -
  have "\<not> hit [98, 0] sample_name" by (simp add: hit_def sample_name_def cstr_def arr_of_def cstr_from.simps [of _ 0])
  then have h: "\<forall>d\<in>set [sample_name]. \<not> hit [98, 0] d" by simp
  have "first_free [sample_name] 0 = 1" by (simp add: sample_name_def)
  then show ?thesis
    using directory_insert_lookup [OF sample_write_ready sample_dir(1,2) _ sample_dir(3) [symmetric] h, of "replicate 16 0" 5 0
      "\<lambda>_ _ _. Inl (Panic [])" "\<lambda>_ _ _ _. Inl (Panic [])"] by auto
qed

text \<open>C13: \<open>inode_remove\<close> of the entry of a name makes \<open>inode_lookup\<close> miss it, when the directory has no second entry
  of that name, and leaves the other entries alone.\<close>

theorem directory_remove:
  assumes "write_ready sb A c st" "dir_state sb p st" "dir_space sb c p st" "length buf = 16"
    "ds = dir_entries (view (it_cache st)) (entry (ino_of st p))" "k < length ds"
    "\<forall>j<length ds. hit name (ds ! j) \<longrightarrow> j = k"
  shows "\<exists>st' ds'. inode_remove (bcache_ops me) cout (Some c) p k st = Inr st' \<and> dir_state sb p st' \<and>
    ds' = dir_entries (view (it_cache st')) (entry (ino_of st' p)) \<and> length ds' = length ds \<and>
    (\<forall>j<length ds. j \<noteq> k \<longrightarrow> ds' ! j = ds ! j) \<and>
    (2 * length ds' \<le> room (it_cache st') \<longrightarrow>
      (\<exists>st''. inode_lookup (bcache_ops me) con p name buf st' = Inr (0, None, st'')))"
proof -
  let ?z = "\<lparr>de_inode_no = 0, de_name = replicate 14 0\<rparr>"
  obtain st' where r: "inode_remove (bcache_ops me) cout (Some c) p k st = Inr st'" and post: "write_ready sb A c st'" "dir_state sb p st'"
    and ds': "dir_entries (view (it_cache st')) (entry (ino_of st' p)) = ds[k := ?z]"
    using inode_remove_ok [OF assms(1-3,5,6), of me cout] by blast
  have "\<not> hit name d" if mem: "d \<in> set (ds[k := ?z])" for d
  proof -
    obtain j where j: "j < length ds" "d = (ds[k := ?z]) ! j" using mem unfolding in_set_conv_nth by auto
    show ?thesis
    proof (cases "j = k")
      case True
      then show ?thesis using j by (simp add: hit_def)
    next
      case False
      then have "\<not> hit name (ds ! j)" using assms(7) j(1) by blast
      then show ?thesis using False j(2) by simp
    qed
  qed
  then have miss: "first_hit name (ds[k := ?z]) 0 = (0, None)" by (intro first_hit_skip) blast
  have "\<exists>st''. inode_lookup (bcache_ops me) con p name buf st' = Inr (0, None, st'')" if "2 * length (ds[k := ?z]) \<le> room (it_cache st')"
    by (rule inode_lookup_entries [OF post ds' that assms(4) miss])
  note gone = this
  have others: "\<forall>j<length ds. j \<noteq> k \<longrightarrow> ds[k := ?z] ! j = ds ! j" by simp
  show ?thesis
    by (intro exI [of _ st'] exI [of _ "ds[k := ?z]"] conjI impI r post(2) ds' [symmetric] length_list_update others gone)
qed

theorem directory_remove_witness:
  "\<exists>st'. inode_remove (bcache_ops 0) (\<lambda>_ _ _ _. Inl (Panic [])) (Some 0) 1 0 sample_tree = Inr st' \<and> dir_state sample_sb 1 st'"
  using directory_remove [OF sample_write_ready sample_dir(1,2) _ sample_dir(3) [symmetric], of "replicate 16 0" 0 "[]" 0
    "\<lambda>_ _ _ _. Inl (Panic [])" "\<lambda>_ _ _. Inl (Panic [])"] by auto

text \<open>C14: \<open>skipelem\<close> takes the elements of a path one by one: it returns 0 exactly when none is left; otherwise
  it leaves in \<open>name\<close> the next element, cut to 14 bytes, and returns the rest without leading slashes.\<close>

theorem skipelem_correct:
  assumes "0 \<notin> set path" "length name = 14"
  shows "case skipelem path name of
      None \<Rightarrow> path_elems path = []
    | Some (rest, name') \<Rightarrow> \<exists>e. path_elems path = e # path_elems rest \<and> cstr (arr_of name') 14 = take 14 e \<and>
        length name' = 14 \<and> (rest = [] \<or> hd rest \<noteq> SLASH) \<and> 0 \<notin> set rest"
  by (rule skipelem_elems [OF assms])

theorem skipelem_correct_witness:
  "\<exists>name'. skipelem [47, 47, 97, 47, 47, 98, 98] (replicate 14 0) = Some ([98, 98], name') \<and> cstr (arr_of name') 14 = [97]"
proof -
  have "\<exists>name'. skipelem [47, 47, 97, 47, 47, 98, 98] (replicate 14 0) = Some ([98, 98], name')"
    by (simp add: skipelem_def overwrite_def)
  moreover have "path_elems [47, 47, 97, 47, 47, 98, 98] = [[97], [98, 98]]" by (simp add: path_elems_def)
  ultimately show ?thesis using skipelem_correct [of "[47, 47, 97, 47, 47, 98, 98]" "replicate 14 0"] by auto
qed

section \<open>The kernel's library\<close>

text \<open>C37: on any number of CPUs executing \<open>acquire_spinlock\<close>/\<open>release_spinlock\<close> one load or store at
  a time, at most one CPU is in its critical section, the lock word is set exactly while somebody
  owns it, and no CPU ever reaches one of the two panics.\<close>

theorem spinlock_mutual_exclusion:
  assumes "sl_reach s"
  shows "(pcs s i = Crit \<and> pcs s j = Crit \<longrightarrow> i = j) \<and>
    (pcs s i = Crit \<longrightarrow> locked (lk s) \<and> holding_spinlock i (lk s)) \<and> pcs s i \<noteq> Dead"
  using sl_reach_inv [OF assms]
  by (auto simp: sl_inv_def owns_def recorded_def holding_spinlock_def)

theorem spinlock_mutual_exclusion_witness:
  "holding_spinlock 2 (lk ((goto (sl_init ''bcache'') 2 Crit)
    \<lparr>lk := \<lparr>locked = True, lcpu = Some 2, lname = ''bcache''\<rparr>\<rparr>))"
  using spinlock_mutual_exclusion [OF sl_reach_crit [of 2 "''bcache''"], of 2 2] by simp

text \<open>C38: \<open>memmove\<close> copies correctly however source and destination overlap: every destination byte is the old
  source byte and no other byte changes.\<close>

theorem memmove_correct:
  assumes "unat d + n \<le> 2 ^ 64" "unat s + n \<le> 2 ^ 64"
  shows "(\<forall>i<n. memmove d s n m (d + of_nat i) = m (s + of_nat i)) \<and>
    (\<forall>a. (\<forall>i<n. a \<noteq> d + of_nat i) \<longrightarrow> memmove d s n m a = m a)"
  by (rule memmove_nth [OF assms])

theorem memmove_correct_witness:
  "memmove 11 10 4 (\<lambda>a. ucast a) 13 = (12 :: u8)"
  using memmove_correct [of 11 4 10 "\<lambda>a. ucast a"] by (auto dest: spec [of _ 2])

text \<open>\<open>strncmp\<close> finds two buffers equal exactly when they hold the same C string of at most \<open>n\<close> bytes, and
  \<open>strncpy\<close> and \<open>strncpy_fast\<close> copy that string: the basis of directory lookup and insertion.\<close>

theorem string_functions:
  "(strncmp s1 s2 n = 0 \<longleftrightarrow> cstr s1 n = cstr s2 n) \<and> cstr (strncpy d s n) n = cstr s n \<and>
   cstr (strncpy_fast d s n) n = cstr s n \<and> strncmp (strncpy d s n) s n = 0"
  by (simp add: strncmp_0 cstr_strncpy cstr_strncpy_fast)

text \<open>The circular lists.  Merging two disjoint rings gives the ring that visits the second right after
  \<open>node1\<close>, and detaching a node leaves the ring of the others in order and the node alone.\<close>

theorem ring_operations:
  assumes "ring h (node1 # xs)" "ring h (node2 # ys)" "set (node1 # xs) \<inter> set (node2 # ys) = {}"
    "node1 \<noteq> 0" "node2 \<noteq> 0" "merge_list node1 node2 h = (r, h')" "detach_from_list node2 h' = (p, h'')"
  shows "ring h' (node1 # node2 # ys @ xs) \<and> r = node1 \<and> ring h'' (ys @ xs @ [node1]) \<and> ring h'' [node2] \<and> p = node1"
proof -
  have m: "ring h' (node1 # node2 # ys @ xs)" "r = node1" using merge_list_ring [OF assms(1-6)] by simp_all
  then have rot: "ring h' (node2 # (ys @ xs @ [node1]))" using ring_rotate [of h' node1 "[]" node2 "ys @ xs"] by simp
  from detach_ring [OF rot _ assms(7)] show ?thesis using m by simp
qed

theorem ring_operations_witness:
  "\<exists>h h' h''. merge_list 8 16 h = (8, h') \<and> ring h' [8, 16] \<and> detach_from_list 16 h' = (8, h'') \<and> ring h'' [8] \<and> ring h'' [16]"
proof -
  define h where "h = init_list_node 16 (init_list_node 8 \<lparr>prevp = (\<lambda>_. 0), nextp = (\<lambda>_. 0)\<rparr>)"
  have h: "ring h [8]" "ring h [16]" by (simp_all add: h_def ring_single init_list_node_def Let_def)
  obtain r h' where m: "merge_list 8 16 h = (r, h')" by (cases "merge_list 8 16 h")
  obtain p h'' where d: "detach_from_list 16 h' = (p, h'')" by (cases "detach_from_list 16 h'")
  from ring_operations [OF h _ _ _ m d] show ?thesis using m d by auto
qed

text \<open>C39: \<open>_print_int\<close> prints a number that reads back as its argument, signed or unsigned, in every base from 2
  to 16, the most negative number included, and never leaves its 64 byte buffer.\<close>

theorem print_int_roundtrip:
  assumes "2 \<le> unat radix" "unat radix \<le> 16"
  shows "\<exists>out. print_int u radix sg = Inr out \<and> length out \<le> 65 \<and>
    int_val (unat radix) out = (if sg then sint u else uint u)"
  by (rule print_int_val [OF assms])

theorem print_int_roundtrip_witness:
  "\<exists>out. print_int (-(2 ^ 63)) 10 True = Inr out \<and> int_val 10 out = - (2 ^ 63)"
  using print_int_roundtrip [of 10 "-(2 ^ 63)" True] by auto

text \<open>C40: the bitmap operations on 64-bit cells are the operations of a set of indices.\<close>

theorem bitmap_refines_set:
  assumes "i < bm_size bm"
  shows "bitmap_get bm i = Inr (i \<in> bm_set bm) \<and>
    (\<exists>bm'. bitmap_set bm i = Inr bm' \<and> bm_set bm' = insert i (bm_set bm) \<and> bm_size bm' = bm_size bm) \<and>
    (\<exists>bm'. bitmap_clear bm i = Inr bm' \<and> bm_set bm' = bm_set bm - {i} \<and> bm_size bm' = bm_size bm)"
  using bitmap_get_Inr [OF assms] bitmap_set_ok [OF assms] bitmap_clear_ok [OF assms] by metis

theorem bitmap_refines_set_witness:
  "\<exists>bm'. bitmap_set [0, 0] 70 = Inr bm' \<and> bm_set bm' = insert 70 (bm_set [0, 0])"
  using bitmap_refines_set [of 70 "[0, 0]"] by (auto simp: bm_size_def)

end
